(* ===== verification/Pcc_Prelude.thy ===== *)
theory Pcc_Prelude
  imports Complex_Main "HOL-Library.Multiset" "HOL-Library.Word"
begin

text \<open>Shared vocabulary of the development: the machine integers of the C++ code as
  HOL integers with the wrap-around written out (\<^term>\<open>i32\<close>, \<^term>\<open>i64\<close>, \<^term>\<open>u32\<close>,
  \<^term>\<open>u64\<close>), the collections of rewrite rules the component theories fill, the result
  type of operations that may fail, and generic lemmas on lists, options and maps.

  Narrow integers: a value of type int32_t is an element of @\<open>-2^31 .. 2^31-1\<close>; each
  arithmetic operation of the source is followed by the wrap of its type.  The conditional
  rewrite rules below remove a wrap whose argument is in range.\<close>

named_theorems wrap_id "wrap functions are the identity on values in range"
named_theorems step_inv "operations preserve the invariant of their component"

subsection \<open>Fixed-width integers\<close>

definition i32 :: "int \<Rightarrow> int" where
  "i32 x = (x + 2147483648) mod 4294967296 - 2147483648"

definition u32 :: "int \<Rightarrow> int" where
  "u32 x = x mod 4294967296"

definition i64 :: "int \<Rightarrow> int" where
  "i64 x = (x + 9223372036854775808) mod 18446744073709551616 - 9223372036854775808"

definition u64 :: "int \<Rightarrow> int" where
  "u64 x = x mod 18446744073709551616"

definition i32_range :: "int \<Rightarrow> bool" where
  "i32_range x \<longleftrightarrow> -2147483648 \<le> x \<and> x \<le> 2147483647"

definition i64_range :: "int \<Rightarrow> bool" where
  "i64_range x \<longleftrightarrow> -9223372036854775808 \<le> x \<and> x \<le> 9223372036854775807"

lemma i32_id [simp, wrap_id]:
  "-2147483648 \<le> x \<Longrightarrow> x \<le> 2147483647 \<Longrightarrow> i32 x = x"
  by (simp add: i32_def)

lemma u32_id [simp, wrap_id]: "0 \<le> x \<Longrightarrow> x < 4294967296 \<Longrightarrow> u32 x = x"
  by (simp add: u32_def)

lemma i64_id [simp, wrap_id]:
  "-9223372036854775808 \<le> x \<Longrightarrow> x \<le> 9223372036854775807 \<Longrightarrow> i64 x = x"
  by (simp add: i64_def)

lemma u64_id [simp, wrap_id]: "0 \<le> x \<Longrightarrow> x < 18446744073709551616 \<Longrightarrow> u64 x = x"
  by (simp add: u64_def)

lemma i32_in_range: "i32_range (i32 x)"
proof -
  have "0 \<le> (x + 2147483648) mod 4294967296" "(x + 2147483648) mod 4294967296 < 4294967296"
    by simp_all
  then show ?thesis unfolding i32_range_def i32_def by linarith
qed

lemma i64_in_range: "i64_range (i64 x)"
proof -
  let ?y = "(x + 9223372036854775808) mod 18446744073709551616"
  have "0 \<le> ?y" "?y < 18446744073709551616" by simp_all
  then show ?thesis unfolding i64_range_def i64_def by linarith
qed

lemma u32_bounds [simp]: "0 \<le> u32 x" "u32 x < 4294967296"
  by (simp_all add: u32_def)

lemma u64_bounds [simp]: "0 \<le> u64 x" "u64 x < 18446744073709551616"
  by (simp_all add: u64_def)

lemma u32_i32 [simp]: "u32 (i32 x) = u32 x"
  by (simp add: u32_def i32_def mod_diff_left_eq)

lemma i32_u32 [simp]: "i32 (u32 x) = i32 x"
  by (simp add: u32_def i32_def mod_add_left_eq)

lemma u64_i64 [simp]: "u64 (i64 x) = u64 x"
  by (simp add: u64_def i64_def mod_diff_left_eq)

lemma i64_u64 [simp]: "i64 (u64 x) = i64 x"
  by (simp add: u64_def i64_def mod_add_left_eq)

text \<open>Integer division and remainder of C++ round toward zero.\<close>

definition cdiv :: "int \<Rightarrow> int \<Rightarrow> int" where
  "cdiv a b = (if (0 \<le> a) = (0 \<le> b) then \<bar>a\<bar> div \<bar>b\<bar> else - (\<bar>a\<bar> div \<bar>b\<bar>))"

definition cmod :: "int \<Rightarrow> int \<Rightarrow> int" where
  "cmod a b = a - b * cdiv a b"

lemma cdiv_nonneg [simp]: "0 \<le> a \<Longrightarrow> 0 \<le> b \<Longrightarrow> cdiv a b = a div b"
  by (simp add: cdiv_def)

lemma cmod_nonneg [simp]: "0 \<le> a \<Longrightarrow> 0 \<le> b \<Longrightarrow> cmod a b = a mod b"
  by (simp add: cmod_def minus_mult_div_eq_mod)

subsection \<open>Outcomes of operations that may fail\<close>

text \<open>The aborting behaviours of the code: a failed \<open>assert\<close>, a call of \<open>exit\<close>, the
  dereference of a null pointer, an index outside an array, an integer division by zero, a
  loop that does not end.  A thrown CUDTException carries its major and minor code.\<close>

datatype failure =
    Assert_Failed
  | Exit_Called
  | Null_Deref
  | Out_Of_Bounds
  | Div_By_Zero
  | Diverges
  | Udt_Error int int

type_synonym 'a outcome = "failure + 'a"

definition bind_outcome :: "'a outcome \<Rightarrow> ('a \<Rightarrow> 'b outcome) \<Rightarrow> 'b outcome" where
  "bind_outcome r f = (case r of Inl e \<Rightarrow> Inl e | Inr x \<Rightarrow> f x)"

lemma bind_outcome_simps [simp]:
  "bind_outcome (Inl e) f = Inl e"
  "bind_outcome (Inr x) f = f x"
  by (simp_all add: bind_outcome_def)

lemma bind_outcome_Inr_iff:
  "bind_outcome r f = Inr y \<longleftrightarrow> (\<exists>x. r = Inr x \<and> f x = Inr y)"
  by (cases r) auto

definition guard_outcome :: "failure \<Rightarrow> bool \<Rightarrow> 'a outcome \<Rightarrow> 'a outcome" where
  "guard_outcome e b r = (if b then r else Inl e)"

lemma guard_outcome_simps [simp]:
  "guard_outcome e True r = r"
  "guard_outcome e False r = Inl e"
  by (simp_all add: guard_outcome_def)

lemma guard_outcome_Inr_iff: "guard_outcome e b r = Inr x \<longleftrightarrow> b \<and> r = Inr x"
  by (cases b) simp_all

definition map_outcome :: "('a \<Rightarrow> 'b) \<Rightarrow> 'a outcome \<Rightarrow> 'b outcome" where
  "map_outcome f r = (case r of Inl e \<Rightarrow> Inl e | Inr x \<Rightarrow> Inr (f x))"

lemma map_outcome_simps [simp]:
  "map_outcome f (Inl e) = Inl e"
  "map_outcome f (Inr x) = Inr (f x)"
  by (simp_all add: map_outcome_def)

lemma map_outcome_Inr_iff [simp]:
  "map_outcome f r = Inr y \<longleftrightarrow> (\<exists>x. r = Inr x \<and> f x = y)"
  by (cases r) auto

lemma map_outcome_Inl_iff [simp]: "map_outcome f r = Inl e \<longleftrightarrow> r = Inl e"
  by (cases r) auto

subsection \<open>Lists\<close>

lemma takeWhile_dropWhile_length [simp]:
  "length (takeWhile P xs) + length (dropWhile P xs) = length xs"
  by (metis length_append takeWhile_dropWhile_id)

lemma length_filter_append_split:
  "length (filter P (xs @ ys)) = length (filter P xs) + length (filter P ys)"
  by simp

lemma filter_none_length [simp]:
  "(\<forall>x\<in>set xs. \<not> P x) \<Longrightarrow> length (filter P xs) = 0"
  by simp

lemma find_upt_Some:
  "List.find P [0..<n] = Some i \<longleftrightarrow> i < n \<and> P i \<and> (\<forall>j<i. \<not> P j)"
  by (auto simp: find_Some_iff)

lemma nth_default_range: "i < length xs \<Longrightarrow> xs[i := x] ! i = x"
  by simp

end
