(* ===== verification/Seq_No.thy ===== *)
theory Seq_No
  imports Pcc_Prelude
begin

text \<open>The circular number spaces of src/core/common.h: packet sequence numbers (CSeqNo,
  0 .. 2^31-1), ACK sub-sequence numbers (CAckNo) and message numbers (CMsgNo, 0 .. 2^29-1),
  with their constants from src/core/core.cpp.  Every int32_t operation of the source is
  followed by its wrap.  The lemmas give the closed forms over the valid numbers; the locale
  \<open>circular_no\<close> states the laws the loss lists and buffers rely on and is interpreted for
  both number spaces.\<close>

subsection \<open>Constants and operations\<close>

definition m_iSeqNoTH :: int where "m_iSeqNoTH = 0x3FFFFFFF"
definition m_iMaxSeqNo :: int where "m_iMaxSeqNo = 0x7FFFFFFF"
definition m_iMaxAckSeqNo :: int where "m_iMaxAckSeqNo = 0x7FFFFFFF"
definition m_iMsgNoTH :: int where "m_iMsgNoTH = 0xFFFFFFF"
definition m_iMaxMsgNo :: int where "m_iMaxMsgNo = 0x1FFFFFFF"

lemmas seq_consts = m_iSeqNoTH_def m_iMaxSeqNo_def m_iMaxAckSeqNo_def m_iMsgNoTH_def m_iMaxMsgNo_def

definition seqcmp :: "int \<Rightarrow> int \<Rightarrow> int" where
  "seqcmp seq1 seq2 =
     (if i32 \<bar>i32 (seq1 - seq2)\<bar> < m_iSeqNoTH then i32 (seq1 - seq2) else i32 (seq2 - seq1))"

definition seqlen :: "int \<Rightarrow> int \<Rightarrow> int" where
  "seqlen seq1 seq2 =
     (if seq1 \<le> seq2 then i32 (i32 (seq2 - seq1) + 1)
      else i32 (i32 (i32 (seq2 - seq1) + m_iMaxSeqNo) + 2))"

definition seqoff :: "int \<Rightarrow> int \<Rightarrow> int" where
  "seqoff seq1 seq2 =
     (if i32 \<bar>i32 (seq1 - seq2)\<bar> < m_iSeqNoTH then i32 (seq2 - seq1)
      else if seq1 < seq2 then i32 (i32 (i32 (seq2 - seq1) - m_iMaxSeqNo) - 1)
      else i32 (i32 (i32 (seq2 - seq1) + m_iMaxSeqNo) + 1))"

definition incseq :: "int \<Rightarrow> int" where
  "incseq seq = (if seq = m_iMaxSeqNo then 0 else i32 (seq + 1))"

definition decseq :: "int \<Rightarrow> int" where
  "decseq seq = (if seq = 0 then m_iMaxSeqNo else i32 (seq - 1))"

definition incseq_by :: "int \<Rightarrow> int \<Rightarrow> int" where
  "incseq_by seq inc =
     (if i32 (m_iMaxSeqNo - seq) \<ge> inc then i32 (seq + inc)
      else i32 (i32 (i32 (seq - m_iMaxSeqNo) + inc) - 1))"

definition incack :: "int \<Rightarrow> int" where
  "incack ackno = (if ackno = m_iMaxAckSeqNo then 0 else i32 (ackno + 1))"

definition msgcmp :: "int \<Rightarrow> int \<Rightarrow> int" where
  "msgcmp msgno1 msgno2 =
     (if i32 \<bar>i32 (msgno1 - msgno2)\<bar> < m_iMsgNoTH then i32 (msgno1 - msgno2)
      else i32 (msgno2 - msgno1))"

definition msglen :: "int \<Rightarrow> int \<Rightarrow> int" where
  "msglen msgno1 msgno2 =
     (if msgno1 \<le> msgno2 then i32 (i32 (msgno2 - msgno1) + 1)
      else i32 (i32 (i32 (msgno2 - msgno1) + m_iMaxMsgNo) + 2))"

definition msgoff :: "int \<Rightarrow> int \<Rightarrow> int" where
  "msgoff msgno1 msgno2 =
     (if i32 \<bar>i32 (msgno1 - msgno2)\<bar> < m_iMsgNoTH then i32 (msgno2 - msgno1)
      else if msgno1 < msgno2 then i32 (i32 (i32 (msgno2 - msgno1) - m_iMaxMsgNo) - 1)
      else i32 (i32 (i32 (msgno2 - msgno1) + m_iMaxMsgNo) + 1))"

definition incmsg :: "int \<Rightarrow> int" where
  "incmsg msgno = (if msgno = m_iMaxMsgNo then 0 else i32 (msgno + 1))"

definition valid_seq :: "int \<Rightarrow> bool" where
  "valid_seq s \<longleftrightarrow> 0 \<le> s \<and> s \<le> m_iMaxSeqNo"

definition valid_msg :: "int \<Rightarrow> bool" where
  "valid_msg m \<longleftrightarrow> 0 \<le> m \<and> m \<le> m_iMaxMsgNo"

subsection \<open>Closed forms: no operation overflows on valid numbers\<close>

lemma valid_seq_bounds: "valid_seq s \<longleftrightarrow> 0 \<le> s \<and> s < 2147483648"
  by (auto simp: valid_seq_def m_iMaxSeqNo_def)

lemma valid_msg_bounds: "valid_msg s \<longleftrightarrow> 0 \<le> s \<and> s < 536870912"
  by (auto simp: valid_msg_def m_iMaxMsgNo_def)

lemma valid_seq_abs [simp]:
  "valid_seq a \<Longrightarrow> valid_seq b \<Longrightarrow> i32 \<bar>a - b\<bar> = \<bar>a - b\<bar>"
  by (rule i32_id) (auto simp: valid_seq_bounds)

lemma valid_msg_abs [simp]:
  "valid_msg a \<Longrightarrow> valid_msg b \<Longrightarrow> i32 \<bar>a - b\<bar> = \<bar>a - b\<bar>"
  by (rule i32_id) (auto simp: valid_msg_bounds)

lemma valid_seq_diff [simp]:
  "valid_seq a \<Longrightarrow> valid_seq b \<Longrightarrow> i32 (a - b) = a - b"
  by (rule i32_id) (auto simp: valid_seq_bounds)

lemma valid_msg_diff [simp]:
  "valid_msg a \<Longrightarrow> valid_msg b \<Longrightarrow> i32 (a - b) = a - b"
  by (rule i32_id) (auto simp: valid_msg_bounds)

lemma seqcmp_valid:
  assumes "valid_seq a" "valid_seq b"
  shows "seqcmp a b = (if \<bar>a - b\<bar> < 1073741823 then a - b else b - a)"
  using assms by (simp add: seqcmp_def m_iSeqNoTH_def)

lemma seqoff_valid:
  assumes "valid_seq a" "valid_seq b"
  shows "seqoff a b = (if \<bar>a - b\<bar> < 1073741823 then b - a
                       else if a < b then b - a - 2147483648 else b - a + 2147483648)"
  using assms by (auto simp: seqoff_def seq_consts) (simp_all add: valid_seq_bounds)

lemma seqlen_valid:
  assumes "valid_seq a" "valid_seq b" "a \<noteq> b + 1" "b - a \<noteq> 2147483647"
  shows "seqlen a b = (if a \<le> b then b - a + 1 else b - a + 2147483649)"
  using assms by (simp add: seqlen_def valid_seq_bounds seq_consts)

lemma incseq_valid: "valid_seq s \<Longrightarrow> incseq s = (s + 1) mod 2147483648"
  by (auto simp: incseq_def valid_seq_bounds seq_consts)

lemma decseq_valid: "valid_seq s \<Longrightarrow> decseq s = (s - 1) mod 2147483648"
  by (auto simp: decseq_def valid_seq_bounds seq_consts)

lemma incseq_by_cases:
  assumes "valid_seq s" "0 \<le> k" "k \<le> 2147483647"
  shows "incseq_by s k = (if s + k < 2147483648 then s + k else s + k - 2147483648)"
  using assms by (simp add: incseq_by_def valid_seq_bounds seq_consts)

lemma mod_wrap_once:
  fixes x m :: int
  assumes "0 \<le> x" "x < 2 * m"
  shows "x mod m = (if x < m then x else x - m)"
proof (cases "x < m")
  case True
  with assms show ?thesis by simp
next
  case False
  then have "x mod m = (x - m) mod m" by simp
  also have "\<dots> = x - m" using False assms by (intro mod_pos_pos_trivial) auto
  finally show ?thesis using False by simp
qed

lemma incseq_by_valid:
  assumes "valid_seq s" "0 \<le> k" "k \<le> 2147483647"
  shows "incseq_by s k = (s + k) mod 2147483648"
  using assms by (simp add: incseq_by_cases mod_wrap_once valid_seq_bounds)

lemma valid_seq_mod [simp]: "valid_seq (x mod 2147483648)"
  by (simp add: valid_seq_bounds)

lemma incseq_is_valid [simp]: "valid_seq s \<Longrightarrow> valid_seq (incseq s)"
  by (simp add: incseq_valid)

lemma decseq_is_valid [simp]: "valid_seq s \<Longrightarrow> valid_seq (decseq s)"
  by (simp add: decseq_valid)

lemma incseq_by_is_valid:
  "valid_seq s \<Longrightarrow> 0 \<le> k \<Longrightarrow> k \<le> 2147483647 \<Longrightarrow> valid_seq (incseq_by s k)"
  by (simp add: incseq_by_valid)

lemma incseq_decseq [simp]: "valid_seq s \<Longrightarrow> incseq (decseq s) = s"
  by (auto simp: incseq_def decseq_def valid_seq_bounds seq_consts)

lemma decseq_incseq [simp]: "valid_seq s \<Longrightarrow> decseq (incseq s) = s"
  by (auto simp: incseq_def decseq_def valid_seq_bounds seq_consts)

lemma msgcmp_valid:
  assumes "valid_msg a" "valid_msg b"
  shows "msgcmp a b = (if \<bar>a - b\<bar> < 268435455 then a - b else b - a)"
  using assms by (simp add: msgcmp_def m_iMsgNoTH_def)

lemma msgoff_valid:
  assumes "valid_msg a" "valid_msg b"
  shows "msgoff a b = (if \<bar>a - b\<bar> < 268435455 then b - a
                       else if a < b then b - a - 536870912 else b - a + 536870912)"
  using assms by (auto simp: msgoff_def seq_consts) (simp_all add: valid_msg_bounds)

lemma msglen_valid:
  assumes "valid_msg a" "valid_msg b"
  shows "msglen a b = (b - a) mod 536870912 + 1"
proof (cases "a \<le> b")
  case True
  with assms show ?thesis by (simp add: msglen_def valid_msg_bounds)
next
  case False
  then have "(b - a) mod 536870912 = (b - a + 536870912) mod 536870912" by simp
  also have "\<dots> = b - a + 536870912"
    using assms False by (intro mod_pos_pos_trivial) (auto simp: valid_msg_bounds)
  finally show ?thesis using assms False
    by (simp add: msglen_def valid_msg_bounds seq_consts)
qed

lemma incmsg_valid: "valid_msg s \<Longrightarrow> incmsg s = (s + 1) mod 536870912"
  by (auto simp: incmsg_def valid_msg_bounds seq_consts)

lemma incmsg_is_valid [simp]: "valid_msg s \<Longrightarrow> valid_msg (incmsg s)"
  by (auto simp: incmsg_def valid_msg_bounds seq_consts)

subsection \<open>The contract of a circular number space\<close>

text \<open>The laws a client relies on: the numbers are the residues modulo \<open>m\<close>, comparison and
  offset are those of the plain integers as long as two numbers lie within \<open>w\<close> of each other
  on the circle.\<close>

locale circular_no =
  fixes cmp off :: "int \<Rightarrow> int \<Rightarrow> int" and inc :: "int \<Rightarrow> int" and m w :: int
  assumes m_pos: "0 < m" and w_small: "2 * w \<le> m"
    and inc_law: "0 \<le> s \<Longrightarrow> s < m \<Longrightarrow> inc s = (s + 1) mod m"
    and off_law: "0 \<le> s \<Longrightarrow> s < m \<Longrightarrow> \<bar>k\<bar> < w \<Longrightarrow> off s ((s + k) mod m) = k"
    and cmp_law: "0 \<le> s \<Longrightarrow> s < m \<Longrightarrow> 0 \<le> t \<Longrightarrow> t < m \<Longrightarrow> sgn (cmp s t) = - sgn (off s t)"
begin

definition step_n :: "nat \<Rightarrow> int \<Rightarrow> int" where
  "step_n n s = (inc ^^ n) s"

lemma step_n_closed:
  assumes "0 \<le> s" "s < m"
  shows "step_n n s = (s + int n) mod m"
proof (induction n)
  case 0
  then show ?case using assms by (simp add: step_n_def)
next
  case (Suc n)
  have "step_n (Suc n) s = inc ((s + int n) mod m)"
    using Suc by (simp add: step_n_def)
  also have "\<dots> = ((s + int n) mod m + 1) mod m"
    using m_pos by (intro inc_law) auto
  also have "\<dots> = (s + int (Suc n)) mod m"
    by (simp add: mod_add_left_eq) (simp add: ac_simps)
  finally show ?case .
qed

lemma off_between:
  assumes "\<bar>j - i\<bar> < w"
  shows "off ((s + i) mod m) ((s + j) mod m) = j - i"
proof -
  have "((s + i) mod m + (j - i)) mod m = (s + j) mod m"
    by (simp add: mod_add_left_eq)
  then show ?thesis
    using off_law [of "(s + i) mod m" "j - i"] m_pos assms by simp
qed

lemma cmp_between:
  assumes "\<bar>j - i\<bar> < w"
  shows "sgn (cmp ((s + i) mod m) ((s + j) mod m)) = sgn (i - j)"
proof -
  have "sgn (cmp ((s + i) mod m) ((s + j) mod m)) = - sgn (j - i)"
    using cmp_law [of "(s + i) mod m" "(s + j) mod m"] off_between [OF assms] m_pos by simp
  then show ?thesis by (simp add: sgn_if)
qed

lemma cmp_inc:
  assumes "0 \<le> s" "s < m" "1 < w"
  shows "cmp s (inc s) < 0" "cmp (inc s) s > 0"
proof -
  have i: "inc s = (s + 1) mod m" and s: "s = (s + 0) mod m" using assms inc_law by auto
  show "cmp s (inc s) < 0"
    using cmp_between [where s = s and i = 0 and j = 1] assms i s
    by (simp add: sgn_if split: if_splits)
  show "cmp (inc s) s > 0"
    using cmp_between [where s = s and i = 1 and j = 0] assms i s
    by (simp add: sgn_if split: if_splits)
qed

lemma cmp_trans_window:
  assumes "0 \<le> i" "i < w" "0 \<le> j" "j < w" "0 \<le> k" "k < w"
    and "cmp ((s + i) mod m) ((s + j) mod m) < 0" "cmp ((s + j) mod m) ((s + k) mod m) < 0"
  shows "cmp ((s + i) mod m) ((s + k) mod m) < 0"
proof -
  have near: "\<bar>j - i\<bar> < w" "\<bar>k - j\<bar> < w" "\<bar>k - i\<bar> < w" using assms by auto
  have "i < j" using cmp_between [OF near(1), of s] assms
    by (auto simp: sgn_if split: if_splits)
  moreover have "j < k" using cmp_between [OF near(2), of s] assms
    by (auto simp: sgn_if split: if_splits)
  ultimately show ?thesis using cmp_between [OF near(3), of s]
    by (auto simp: sgn_if split: if_splits)
qed

end

lemma seqoff_add:
  assumes "valid_seq s" "\<bar>k\<bar> < 1073741823"
  shows "seqoff s ((s + k) mod 2147483648) = k"
proof -
  let ?t = "(s + k) mod 2147483648"
  have "s + k < 0 \<or> (0 \<le> s + k \<and> s + k < 2147483648) \<or> 2147483648 \<le> s + k" by linarith
  then have "?t = s + k \<or> (?t = s + k + 2147483648 \<and> s + k < 0)
      \<or> (?t = s + k - 2147483648 \<and> 2147483648 \<le> s + k)"
    using assms
      mod_wrap_once [of "s + k" 2147483648] mod_wrap_once [of "s + k + 2147483648" 2147483648]
    by (auto simp: valid_seq_bounds)
  then show ?thesis
    using assms seqoff_valid [of s ?t] by (auto simp: valid_seq_bounds)
qed

lemma seqcmp_sgn:
  assumes "valid_seq a" "valid_seq b"
  shows "sgn (seqcmp a b) = - sgn (seqoff a b)"
  using assms by (auto simp: seqcmp_valid seqoff_valid sgn_if valid_seq_bounds)

lemma msgoff_add:
  assumes "valid_msg s" "\<bar>k\<bar> < 268435455"
  shows "msgoff s ((s + k) mod 536870912) = k"
proof -
  let ?t = "(s + k) mod 536870912"
  have "s + k < 0 \<or> (0 \<le> s + k \<and> s + k < 536870912) \<or> 536870912 \<le> s + k" by linarith
  then have "?t = s + k \<or> (?t = s + k + 536870912 \<and> s + k < 0)
      \<or> (?t = s + k - 536870912 \<and> 536870912 \<le> s + k)"
    using assms
      mod_wrap_once [of "s + k" 536870912] mod_wrap_once [of "s + k + 536870912" 536870912]
    by (auto simp: valid_msg_bounds)
  moreover have "valid_msg ?t" by (simp add: valid_msg_bounds)
  ultimately show ?thesis
    using assms msgoff_valid [of s ?t] by (auto simp: valid_msg_bounds)
qed

lemma msgcmp_sgn:
  assumes "valid_msg a" "valid_msg b"
  shows "sgn (msgcmp a b) = - sgn (msgoff a b)"
  using assms by (auto simp: msgcmp_valid msgoff_valid sgn_if valid_msg_bounds)

interpretation seqno: circular_no seqcmp seqoff incseq 2147483648 1073741823
  by unfold_locales (simp_all add: incseq_valid seqoff_add seqcmp_sgn valid_seq_bounds)

interpretation msgno: circular_no msgcmp msgoff incmsg 536870912 268435455
  by unfold_locales (simp_all add: incmsg_valid msgoff_add msgcmp_sgn valid_msg_bounds)

subsection \<open>Consequences for the sequence numbers\<close>

lemma seqcmp_refl [simp]: "valid_seq a \<Longrightarrow> seqcmp a a = 0"
  by (simp add: seqcmp_valid)

lemma seqcmp_zero_iff:
  "valid_seq a \<Longrightarrow> valid_seq b \<Longrightarrow> seqcmp a b = 0 \<longleftrightarrow> a = b"
  by (auto simp: seqcmp_valid)

lemma seqoff_zero_iff:
  "valid_seq a \<Longrightarrow> valid_seq b \<Longrightarrow> seqoff a b = 0 \<longleftrightarrow> a = b"
  by (auto simp: seqoff_valid valid_seq_bounds)

lemma seqoff_mod:
  assumes "valid_seq a" "valid_seq b"
  shows "(a + seqoff a b) mod 2147483648 = b"
proof -
  have "a + seqoff a b = b \<or> a + seqoff a b = b - 2147483648 \<or> a + seqoff a b = b + 2147483648"
    using assms by (auto simp: seqoff_valid)
  moreover have "(b - 2147483648) mod 2147483648 = b mod 2147483648"
    by (metis minus_mod_self2)
  ultimately show ?thesis using assms by (auto simp: valid_seq_bounds)
qed

lemma seqoff_bounds:
  "valid_seq a \<Longrightarrow> valid_seq b \<Longrightarrow> \<bar>seqoff a b\<bar> \<le> 1073741825"
  by (auto simp: seqoff_valid valid_seq_bounds)

lemma seqcmp_eq_seqoff:
  "valid_seq a \<Longrightarrow> valid_seq b \<Longrightarrow> \<bar>a - b\<bar> < 1073741823 \<Longrightarrow> seqcmp a b = - seqoff a b"
  by (simp add: seqcmp_valid seqoff_valid)

end
