(* ===== verification/Ieee_Float.thy ===== *)
theory Ieee_Float
  imports Pcc_Prelude
begin

text \<open>The float and double arithmetic of the rate controllers: IEEE 754 binary32 and binary64
  with rounding to nearest, ties to even, executable on rationals.  A value is a rational, an
  infinity or not-a-number; the sign of a zero is not kept (no expression of the code divides
  by a zero that could be negative).  Every operation of the source is one rounding here
  (the target evaluates float expressions in float: FLT_EVAL_METHOD is 0 on x86-64).  The
  locale \<open>binary_format\<close> proves monotonicity and the error bounds of rounding once and is
  interpreted for both formats.\<close>

subsection \<open>Values, formats and rounding\<close>

datatype fp = Fin rat | PInf | NInf | NaN

datatype fmt = B32 | B64

fun bit_length :: "nat \<Rightarrow> nat" where
  "bit_length n = (if n = 0 then 0 else Suc (bit_length (n div 2)))"

declare bit_length.simps [simp del]

definition ilog2 :: "rat \<Rightarrow> int" where
  "ilog2 x = (if 1 \<le> x then int (bit_length (nat \<lfloor>x\<rfloor>)) - 1
              else - int (bit_length (nat (\<lceil>1 / x\<rceil> - 1))))"

definition round_even :: "rat \<Rightarrow> int" where
  "round_even y = (let f = \<lfloor>y\<rfloor>; d = y - of_int f in
     if d < 1 / 2 then f else if 1 / 2 < d then f + 1 else if even f then f else f + 1)"

definition quantum :: "int \<Rightarrow> int \<Rightarrow> rat \<Rightarrow> int" where
  "quantum p emin x = (if x = 0 then emin else max (ilog2 \<bar>x\<bar> - (p - 1)) emin)"

definition round_grid :: "int \<Rightarrow> int \<Rightarrow> rat \<Rightarrow> rat" where
  "round_grid p emin x =
     (let q = quantum p emin x in of_int (round_even (x / 2 powi q)) * 2 powi q)"

definition round_fmt :: "int \<Rightarrow> int \<Rightarrow> int \<Rightarrow> rat \<Rightarrow> fp" where
  "round_fmt p emin emax x =
     (let r = round_grid p emin x in
      if 2 powi emax \<le> r then PInf else if r \<le> - (2 powi emax) then NInf else Fin r)"

fun rnd :: "fmt \<Rightarrow> rat \<Rightarrow> fp" where
  "rnd B32 x = round_fmt 24 (-149) 128 x"
| "rnd B64 x = round_fmt 53 (-1074) 1024 x"

subsection \<open>Arithmetic and comparison\<close>

fun fp_neg :: "fp \<Rightarrow> fp" where
  "fp_neg (Fin a) = Fin (- a)"
| "fp_neg PInf = NInf"
| "fp_neg NInf = PInf"
| "fp_neg NaN = NaN"

fun fp_abs :: "fp \<Rightarrow> fp" where
  "fp_abs (Fin a) = Fin \<bar>a\<bar>"
| "fp_abs PInf = PInf"
| "fp_abs NInf = PInf"
| "fp_abs NaN = NaN"

fun fp_add :: "fmt \<Rightarrow> fp \<Rightarrow> fp \<Rightarrow> fp" where
  "fp_add f (Fin a) (Fin b) = rnd f (a + b)"
| "fp_add f NaN y = NaN"
| "fp_add f x NaN = NaN"
| "fp_add f PInf NInf = NaN"
| "fp_add f NInf PInf = NaN"
| "fp_add f PInf y = PInf"
| "fp_add f NInf y = NInf"
| "fp_add f (Fin a) y = y"

definition fp_sub :: "fmt \<Rightarrow> fp \<Rightarrow> fp \<Rightarrow> fp" where
  "fp_sub f x y = fp_add f x (fp_neg y)"

definition signed_inf :: "rat \<Rightarrow> fp" where
  "signed_inf s = (if 0 < s then PInf else if s < 0 then NInf else NaN)"

fun fp_sign :: "fp \<Rightarrow> rat" where
  "fp_sign (Fin a) = sgn a"
| "fp_sign PInf = 1"
| "fp_sign NInf = -1"
| "fp_sign NaN = 0"

fun fp_mul :: "fmt \<Rightarrow> fp \<Rightarrow> fp \<Rightarrow> fp" where
  "fp_mul f (Fin a) (Fin b) = rnd f (a * b)"
| "fp_mul f NaN y = NaN"
| "fp_mul f x NaN = NaN"
| "fp_mul f x y = signed_inf (fp_sign x * fp_sign y)"

fun fp_div :: "fmt \<Rightarrow> fp \<Rightarrow> fp \<Rightarrow> fp" where
  "fp_div f (Fin a) (Fin b) = (if b = 0 then signed_inf a else rnd f (a / b))"
| "fp_div f NaN y = NaN"
| "fp_div f x NaN = NaN"
| "fp_div f (Fin a) y = Fin 0"
| "fp_div f PInf (Fin b) = (if b < 0 then NInf else PInf)"
| "fp_div f NInf (Fin b) = (if b < 0 then PInf else NInf)"
| "fp_div f x y = NaN"

fun fp_lt :: "fp \<Rightarrow> fp \<Rightarrow> bool" where
  "fp_lt (Fin a) (Fin b) = (a < b)"
| "fp_lt NaN y = False"
| "fp_lt x NaN = False"
| "fp_lt PInf y = False"
| "fp_lt x NInf = False"
| "fp_lt x y = True"

fun fp_eq :: "fp \<Rightarrow> fp \<Rightarrow> bool" where
  "fp_eq (Fin a) (Fin b) = (a = b)"
| "fp_eq PInf PInf = True"
| "fp_eq NInf NInf = True"
| "fp_eq x y = False"

definition fp_le :: "fp \<Rightarrow> fp \<Rightarrow> bool" where
  "fp_le x y = (fp_lt x y \<or> fp_eq x y)"

text \<open>\<open>std::max\<close> and \<open>std::min\<close>: \<open>(a < b) ? b : a\<close> and \<open>(b < a) ? b : a\<close>.\<close>

definition fp_max :: "fp \<Rightarrow> fp \<Rightarrow> fp" where
  "fp_max a b = (if fp_lt a b then b else a)"

definition fp_min :: "fp \<Rightarrow> fp \<Rightarrow> fp" where
  "fp_min a b = (if fp_lt b a then b else a)"

fun fp_cvt :: "fmt \<Rightarrow> fp \<Rightarrow> fp" where
  "fp_cvt f (Fin a) = rnd f a"
| "fp_cvt f x = x"

definition fp_of_int :: "fmt \<Rightarrow> int \<Rightarrow> fp" where
  "fp_of_int f n = rnd f (of_int n)"

definition truncate_rat :: "rat \<Rightarrow> int" where
  "truncate_rat x = (if 0 \<le> x then \<lfloor>x\<rfloor> else \<lceil>x\<rceil>)"

text \<open>The square root is correctly rounded, as IEEE 754 prescribes.\<close>

fun isqrt :: "nat \<Rightarrow> nat" where
  "isqrt n = (if n = 0 then 0
              else let s = 2 * isqrt (n div 4) in if Suc s * Suc s \<le> n then Suc s else s)"

declare isqrt.simps [simp del]

fun fmt_prec :: "fmt \<Rightarrow> int" where
  "fmt_prec B32 = 24"
| "fmt_prec B64 = 53"

fun fmt_emin :: "fmt \<Rightarrow> int" where
  "fmt_emin B32 = -149"
| "fmt_emin B64 = -1074"

definition sqrt_rat :: "fmt \<Rightarrow> rat \<Rightarrow> rat" where
  "sqrt_rat f a =
     (let q = max (ilog2 a div 2 - (fmt_prec f - 1)) (fmt_emin f);
          y = a / 4 powi q;
          k = int (isqrt (nat \<lfloor>y\<rfloor>));
          h = of_int k + 1 / 2;
          n = (if y < h * h then k else if h * h < y then k + 1 else if even k then k else k + 1)
      in of_int n * 2 powi q)"

fun fp_sqrt :: "fmt \<Rightarrow> fp \<Rightarrow> fp" where
  "fp_sqrt f (Fin a) = (if a < 0 then NaN else if a = 0 then Fin 0 else Fin (sqrt_rat f a))"
| "fp_sqrt f PInf = PInf"
| "fp_sqrt f x = NaN"

text \<open>What neither IEEE 754 nor the C++ standard determines: the results of pow and exp (in
  their double and float versions), and the value of a conversion to int64_t (a cast, or
  \<open>std::llround\<close>) of a number that does not fit.  They are parameters of the definitions
  that use them.\<close>

record platform =
  pf_pow :: "fp \<Rightarrow> fp \<Rightarrow> fp"
  pf_powf :: "fp \<Rightarrow> fp \<Rightarrow> fp"
  pf_exp :: "fp \<Rightarrow> fp"
  pf_expf :: "fp \<Rightarrow> fp"
  pf_bad_cast :: "fp \<Rightarrow> int"
  pf_bad_llround :: "fp \<Rightarrow> int"

definition fp_to_i64 :: "platform \<Rightarrow> fp \<Rightarrow> int" where
  "fp_to_i64 pf x = (case x of
     Fin a \<Rightarrow> if i64_range (truncate_rat a) then truncate_rat a else pf_bad_cast pf x
   | _ \<Rightarrow> pf_bad_cast pf x)"

definition round_away :: "rat \<Rightarrow> int" where
  "round_away x = (if 0 \<le> x then \<lfloor>x + 1 / 2\<rfloor> else \<lceil>x - 1 / 2\<rceil>)"

definition llround :: "platform \<Rightarrow> fp \<Rightarrow> int" where
  "llround pf x = (case x of
     Fin a \<Rightarrow> if i64_range (round_away a) then round_away a else pf_bad_llround pf x
   | _ \<Rightarrow> pf_bad_llround pf x)"

text \<open>Short names: \<open>f_\<close> operations are in float, \<open>d_\<close> operations in double.  A float operand of
  a double operation is promoted, which is exact.\<close>

abbreviation f_add :: "fp \<Rightarrow> fp \<Rightarrow> fp" where "f_add \<equiv> fp_add B32"
abbreviation f_sub :: "fp \<Rightarrow> fp \<Rightarrow> fp" where "f_sub \<equiv> fp_sub B32"
abbreviation f_mul :: "fp \<Rightarrow> fp \<Rightarrow> fp" where "f_mul \<equiv> fp_mul B32"
abbreviation f_div :: "fp \<Rightarrow> fp \<Rightarrow> fp" where "f_div \<equiv> fp_div B32"
abbreviation f_int :: "int \<Rightarrow> fp" where "f_int \<equiv> fp_of_int B32"
abbreviation f_lit :: "rat \<Rightarrow> fp" where "f_lit \<equiv> rnd B32"
abbreviation f_sqrt :: "fp \<Rightarrow> fp" where "f_sqrt \<equiv> fp_sqrt B32"
abbreviation to_f :: "fp \<Rightarrow> fp" where "to_f \<equiv> fp_cvt B32"
abbreviation d_add :: "fp \<Rightarrow> fp \<Rightarrow> fp" where "d_add \<equiv> fp_add B64"
abbreviation d_sub :: "fp \<Rightarrow> fp \<Rightarrow> fp" where "d_sub \<equiv> fp_sub B64"
abbreviation d_mul :: "fp \<Rightarrow> fp \<Rightarrow> fp" where "d_mul \<equiv> fp_mul B64"
abbreviation d_div :: "fp \<Rightarrow> fp \<Rightarrow> fp" where "d_div \<equiv> fp_div B64"
abbreviation d_int :: "int \<Rightarrow> fp" where "d_int \<equiv> fp_of_int B64"
abbreviation d_lit :: "rat \<Rightarrow> fp" where "d_lit \<equiv> rnd B64"

subsection \<open>Integer logarithm and rounding to integers\<close>

lemma bit_length_bounds: "0 < n \<Longrightarrow> 2 ^ (bit_length n - 1) \<le> n \<and> n < 2 ^ bit_length n"
proof (induction n rule: bit_length.induct)
  case (1 n)
  show ?case
  proof (cases "n div 2 = 0")
    case True
    then have "n = 1" using 1(2) by simp
    then show ?thesis by (simp add: bit_length.simps)
  next
    case False
    let ?k = "bit_length (n div 2)"
    have ih: "2 ^ (?k - 1) \<le> n div 2" "n div 2 < 2 ^ ?k"
      using 1 False by simp_all
    have b: "bit_length n = Suc ?k" using 1(2) by (subst bit_length.simps) simp
    have "?k \<noteq> 0" using False by (subst bit_length.simps) simp
    then have "(2::nat) ^ ?k = 2 * 2 ^ (?k - 1)" by (cases ?k) simp_all
    then have "2 ^ ?k \<le> n" using ih(1) by linarith
    moreover have "n < 2 ^ Suc ?k" using ih(2) by simp
    ultimately show ?thesis using b by simp
  qed
qed

lemma bit_length_pos: "0 < n \<Longrightarrow> 0 < bit_length n"
  by (subst bit_length.simps) simp

lemma powi_two_pos [simp]: "0 < (2::rat) powi k" "(2::rat) powi k \<noteq> 0"
  by (simp_all add: zero_less_power_int)

lemma powi_two_add: "(2::rat) powi (a + b) = 2 powi a * 2 powi b"
  by (simp add: power_int_add)

lemma powi_two_mono: "a \<le> b \<Longrightarrow> (2::rat) powi a \<le> 2 powi b"
  by (simp add: power_int_increasing)

lemma powi_two_strict: "a < b \<Longrightarrow> (2::rat) powi a < 2 powi b"
  by (simp add: power_int_strict_increasing)

lemma powi_two_int: "0 \<le> k \<Longrightarrow> (2::rat) powi k = of_int (2 ^ nat k)"
  by (simp add: power_int_def)

lemma powi_two_Suc: "(2::rat) powi (k + 1) = 2 * 2 powi k"
  by (simp add: power_int_add)

lemma bit_length_rat:
  assumes "0 < n"
  shows "2 powi (int (bit_length (nat n)) - 1) \<le> rat_of_int n"
    "rat_of_int n + 1 \<le> 2 powi int (bit_length (nat n))"
proof -
  let ?k = "bit_length (nat n)"
  have "2 ^ (?k - 1) \<le> nat n" "nat n < 2 ^ ?k"
    using bit_length_bounds [of "nat n"] assms by simp_all
  then have "2 ^ (?k - 1) \<le> n" "n + 1 \<le> 2 ^ ?k"
    using assms by (simp_all add: nat_less_iff le_nat_iff)
  then have "rat_of_int (2 ^ (?k - 1)) \<le> of_int n" "rat_of_int (n + 1) \<le> of_int (2 ^ ?k)"
    by (simp_all only: of_int_le_iff)
  moreover have "nat (int ?k - 1) = ?k - 1" "0 < ?k" using bit_length_pos [of "nat n"] assms by auto
  ultimately show "2 powi (int ?k - 1) \<le> rat_of_int n" "rat_of_int n + 1 \<le> 2 powi int ?k"
    using powi_two_int [of "int ?k - 1"] powi_two_int [of "int ?k"] by simp_all
qed

lemma ilog2_bounds:
  assumes "0 < x"
  shows "2 powi (ilog2 x) \<le> x" "x < 2 powi (ilog2 x + 1)"
proof -
  have "2 powi (ilog2 x) \<le> x \<and> x < 2 powi (ilog2 x + 1)"
  proof (cases "1 \<le> x")
    case True
    then have f: "0 < \<lfloor>x\<rfloor>" by simp
    have "x < of_int \<lfloor>x\<rfloor> + 1" by linarith
    then show ?thesis
      using bit_length_rat [OF f] True order_trans [OF _ of_int_floor_le]
      by (simp add: ilog2_def)
  next
    case False
    define m where "m = \<lceil>1 / x\<rceil> - 1"
    have "1 < 1 / x" using assms False by simp
    then have m: "0 < m" unfolding m_def by linarith
    have b: "of_int m < 1 / x" "1 / x \<le> of_int m + 1" unfolding m_def by linarith+
    have l: "ilog2 x = - int (bit_length (nat m))" using False by (simp add: ilog2_def m_def)
    have "1 / x \<le> 2 powi (- ilog2 x)" "2 powi (- ilog2 x - 1) < 1 / x"
      using b bit_length_rat [OF m] l by simp_all
    then have "1 / x \<le> 1 / 2 powi (ilog2 x)" "1 / 2 powi (ilog2 x + 1) < 1 / x"
      by (simp_all add: power_int_minus_divide [symmetric] del: power_int_minus_divide)
    then show ?thesis using assms by (simp add: divide_le_eq le_divide_eq divide_less_eq less_divide_eq mult.commute)
  qed
  then show "2 powi (ilog2 x) \<le> x" "x < 2 powi (ilog2 x + 1)" by simp_all
qed

lemma ilog2_unique:
  assumes "2 powi k \<le> x" "x < 2 powi (k + 1)"
  shows "ilog2 x = k"
proof -
  have x: "0 < x" using assms(1) powi_two_pos(1) [of k] by (rule less_le_trans [rotated])
  have "ilog2 x < k + 1"
    using ilog2_bounds(1) [OF x] assms(2) powi_two_mono [of "k + 1" "ilog2 x"] by linarith
  moreover have "k < ilog2 x + 1"
    using ilog2_bounds(2) [OF x] assms(1) powi_two_mono [of "ilog2 x + 1" k] by linarith
  ultimately show ?thesis by simp
qed

lemma ilog2_mono: "0 < x \<Longrightarrow> x \<le> y \<Longrightarrow> ilog2 x \<le> ilog2 y"
proof (rule ccontr)
  assume a: "0 < x" "x \<le> y" "\<not> ilog2 x \<le> ilog2 y"
  then have "2 powi (ilog2 y + 1) \<le> (2::rat) powi ilog2 x" by (intro powi_two_mono) simp
  then show False using ilog2_bounds [of x] ilog2_bounds [of y] a by linarith
qed

lemma round_even_error: "\<bar>of_int (round_even y) - y\<bar> \<le> 1 / 2"
proof -
  have "of_int \<lfloor>y\<rfloor> \<le> y" "y < of_int \<lfloor>y\<rfloor> + 1" by linarith+
  then show ?thesis by (auto simp: round_even_def Let_def abs_le_iff)
qed

lemma round_even_int [simp]: "round_even (of_int n) = n"
  by (simp add: round_even_def)

lemma round_even_mono:
  assumes "x \<le> y"
  shows "round_even x \<le> round_even y"
proof -
  have f: "\<lfloor>x\<rfloor> \<le> \<lfloor>y\<rfloor>" using assms by (rule floor_mono)
  show ?thesis
  proof (cases "\<lfloor>x\<rfloor> = \<lfloor>y\<rfloor>")
    case True
    then show ?thesis using assms by (auto simp: round_even_def Let_def)
  next
    case False
    then have "\<lfloor>x\<rfloor> + 1 \<le> \<lfloor>y\<rfloor>" using f by simp
    moreover have "round_even x \<le> \<lfloor>x\<rfloor> + 1" by (simp add: round_even_def Let_def)
    moreover have "\<lfloor>y\<rfloor> \<le> round_even y" by (simp add: round_even_def Let_def)
    ultimately show ?thesis by linarith
  qed
qed

lemma round_even_minus: "round_even (- y) = - round_even y"
proof (cases "y = of_int \<lfloor>y\<rfloor>")
  case True
  then have "round_even y = \<lfloor>y\<rfloor>" "round_even (- y) = - \<lfloor>y\<rfloor>"
    by (metis round_even_int, metis round_even_int of_int_minus)
  then show ?thesis by simp
next
  case False
  have "\<lfloor>- y\<rfloor> = - \<lfloor>y\<rfloor> - 1"
    using False by linarith
  then show ?thesis by (auto simp: round_even_def Let_def)
qed

subsection \<open>The contract of rounding, for any format\<close>

locale binary_format =
  fixes p emin emax :: int
  assumes prec: "2 \<le> p" and wide: "emin + p < emax"
begin

definition representable :: "rat \<Rightarrow> bool" where
  "representable r \<longleftrightarrow> (\<exists>n q. r = of_int n * 2 powi q \<and> \<bar>n\<bar> \<le> 2 ^ nat p \<and> emin \<le> q)"

lemma quantum_ge: "emin \<le> quantum p emin x"
  by (simp add: quantum_def)

lemma quantum_minus [simp]: "quantum p emin (- x) = quantum p emin x"
  by (simp add: quantum_def)

lemma round_grid_minus [simp]: "round_grid p emin (- x) = - round_grid p emin x"
  by (simp add: round_grid_def Let_def round_even_minus)

lemma round_grid_zero [simp]: "round_grid p emin 0 = 0"
  using round_even_int [of 0] by (simp add: round_grid_def)

lemma round_grid_error_quantum:
  "\<bar>round_grid p emin x - x\<bar> \<le> 2 powi quantum p emin x / 2"
proof -
  let ?q = "2 powi quantum p emin x :: rat"
  have "\<bar>round_grid p emin x - x\<bar> = \<bar>(of_int (round_even (x / ?q)) - x / ?q) * ?q\<bar>"
    by (simp add: round_grid_def Let_def left_diff_distrib)
  also have "\<dots> = \<bar>of_int (round_even (x / ?q)) - x / ?q\<bar> * ?q"
    by (simp add: abs_mult)
  also have "\<dots> \<le> 1 / 2 * ?q"
    by (rule mult_right_mono [OF round_even_error]) simp
  finally show ?thesis by simp
qed

lemma round_grid_fixed:
  assumes "x = of_int n * 2 powi q" "quantum p emin x \<le> q"
  shows "round_grid p emin x = x"
proof -
  let ?r = "quantum p emin x"
  have "x / 2 powi ?r = of_int n * 2 powi (q - ?r)"
    using assms(1) by (simp add: power_int_diff)
  also have "\<dots> = of_int (n * 2 ^ nat (q - ?r))"
    using assms(2) by (simp add: powi_two_int)
  finally have "of_int (round_even (x / 2 powi ?r)) = x / 2 powi ?r"
    using round_even_int by metis
  then show ?thesis by (simp add: round_grid_def Let_def)
qed

lemma quantum_le_of_bound:
  assumes "x \<noteq> 0" "\<bar>x\<bar> < 2 powi (q + p)" "emin \<le> q"
  shows "quantum p emin x \<le> q"
proof -
  have "2 powi ilog2 \<bar>x\<bar> < (2::rat) powi (q + p)"
    using ilog2_bounds(1) [of "\<bar>x\<bar>"] assms(1,2) by (intro le_less_trans [OF _ assms(2)]) simp
  then have "ilog2 \<bar>x\<bar> < q + p"
    using powi_two_mono [of "q + p" "ilog2 \<bar>x\<bar>"] by (meson leD leI)
  then show ?thesis using assms by (simp add: quantum_def)
qed

lemma round_grid_power:
  assumes "emin \<le> k"
  shows "round_grid p emin (2 powi k) = 2 powi k"
proof (rule round_grid_fixed [where n = 1 and q = k])
  have "(2::rat) powi k < 2 powi (k + p)" using prec by (intro powi_two_strict) simp
  then show "quantum p emin (2 powi k) \<le> k"
    using assms by (intro quantum_le_of_bound) (auto simp: abs_of_pos)
qed simp

lemma round_grid_representable:
  assumes "representable x"
  shows "round_grid p emin x = x"
proof -
  obtain n q where x: "x = of_int n * 2 powi q" and n: "\<bar>n\<bar> \<le> 2 ^ nat p" and q: "emin \<le> q"
    using assms unfolding representable_def by blast
  consider "x = 0" | "x \<noteq> 0" "\<bar>n\<bar> < 2 ^ nat p" | "n = 2 ^ nat p" | "n = - (2 ^ nat p)"
    using n by linarith
  then show ?thesis
  proof cases
    case 1
    then show ?thesis by simp
  next
    case 2
    have "rat_of_int \<bar>n\<bar> < of_int (2 ^ nat p)" using 2 by (simp only: of_int_less_iff)
    then have "\<bar>x\<bar> < 2 powi (q + p)"
      using prec powi_two_int [of p] by (simp add: x abs_mult powi_two_add mult.commute)
    then show ?thesis using 2 q x by (intro round_grid_fixed quantum_le_of_bound)
  next
    case 3
    then have "x = 2 powi (q + p)" using prec x by (simp add: powi_two_add powi_two_int)
    then show ?thesis using round_grid_power [of "q + p"] prec q by simp
  next
    case 4
    then have "x = - (2 powi (q + p))" using prec x by (simp add: powi_two_add powi_two_int)
    then show ?thesis using round_grid_power [of "q + p"] prec q by simp
  qed
qed

lemma quantum_mono:
  "0 < x \<Longrightarrow> x \<le> y \<Longrightarrow> quantum p emin x \<le> quantum p emin y"
  using ilog2_mono [of x y] by (auto simp: quantum_def)

lemma round_grid_same_quantum:
  assumes "x \<le> y" "quantum p emin x = quantum p emin y"
  shows "round_grid p emin x \<le> round_grid p emin y"
proof -
  have "round_even (x / 2 powi quantum p emin y) \<le> round_even (y / 2 powi quantum p emin y)"
    using assms(1) by (intro round_even_mono divide_right_mono) simp_all
  then show ?thesis
    by (simp add: round_grid_def Let_def assms(2) mult_right_mono)
qed

lemma round_grid_nonneg: "0 \<le> x \<Longrightarrow> 0 \<le> round_grid p emin x"
proof -
  assume x: "0 \<le> x"
  have "0 \<le> x / 2 powi quantum p emin x" using x by simp
  then have "round_even 0 \<le> round_even (x / 2 powi quantum p emin x)"
    by (rule round_even_mono)
  then show ?thesis using round_even_int [of 0] by (simp add: round_grid_def Let_def)
qed

lemma round_grid_le_power:
  assumes "0 < x" "x \<le> 2 powi k" "quantum p emin x < k"
  shows "round_grid p emin x \<le> 2 powi k"
proof -
  let ?q = "quantum p emin x"
  have "(2::rat) powi (k - ?q) = of_int (2 ^ nat (k - ?q))"
    using assms by (intro powi_two_int) simp
  moreover have "x / 2 powi ?q \<le> 2 powi (k - ?q)"
    using assms(2) by (simp add: power_int_diff divide_right_mono)
  ultimately have "round_even (x / 2 powi ?q) \<le> 2 ^ nat (k - ?q)"
    using round_even_mono round_even_int by metis
  then have "rat_of_int (round_even (x / 2 powi ?q)) \<le> of_int (2 ^ nat (k - ?q))"
    by (simp only: of_int_le_iff)
  also have "\<dots> = 2 powi (k - ?q)" using assms(3) by (simp add: powi_two_int)
  finally have "rat_of_int (round_even (x / 2 powi ?q)) * 2 powi ?q \<le> 2 powi (k - ?q) * 2 powi ?q"
    by (rule mult_right_mono) simp
  then show ?thesis by (simp add: round_grid_def Let_def powi_two_add [symmetric])
qed

lemma round_grid_ge_power:
  assumes "2 powi k \<le> x" "quantum p emin x \<le> k"
  shows "2 powi k \<le> round_grid p emin x"
proof -
  let ?q = "quantum p emin x"
  have "(2::rat) powi (k - ?q) = of_int (2 ^ nat (k - ?q))"
    using assms by (intro powi_two_int) simp
  moreover have "2 powi (k - ?q) \<le> x / 2 powi ?q"
    using assms(1) by (simp add: power_int_diff divide_right_mono)
  ultimately have "2 ^ nat (k - ?q) \<le> round_even (x / 2 powi ?q)"
    using round_even_mono round_even_int by metis
  then have "rat_of_int (2 ^ nat (k - ?q)) \<le> of_int (round_even (x / 2 powi ?q))"
    by (simp only: of_int_le_iff)
  then have "2 powi (k - ?q) \<le> rat_of_int (round_even (x / 2 powi ?q))"
    using assms(2) by (simp add: powi_two_int)
  then have "2 powi (k - ?q) * 2 powi ?q \<le> rat_of_int (round_even (x / 2 powi ?q)) * 2 powi ?q"
    by (rule mult_right_mono) simp
  then show ?thesis by (simp add: round_grid_def Let_def powi_two_add [symmetric])
qed

lemma round_grid_mono_pos:
  assumes "0 < x" "x \<le> y"
  shows "round_grid p emin x \<le> round_grid p emin y"
proof (cases "quantum p emin x = quantum p emin y")
  case True
  then show ?thesis using assms by (intro round_grid_same_quantum)
next
  case False
  then have lt: "quantum p emin x < quantum p emin y"
    using quantum_mono [OF assms] by simp
  have y: "0 < y" using assms by simp
  have qy: "quantum p emin y = ilog2 y - (p - 1)" "quantum p emin x \<ge> emin"
    using lt y quantum_ge [of x] by (auto simp: quantum_def max_def split: if_splits)
  have qx: "quantum p emin x = max (ilog2 x - (p - 1)) emin" using assms by (simp add: quantum_def)
  have "x < 2 powi (ilog2 x + 1)" using ilog2_bounds assms by blast
  also have "\<dots> \<le> 2 powi (ilog2 y)" using qx qy lt by (intro powi_two_mono) auto
  finally have "round_grid p emin x \<le> 2 powi (ilog2 y)"
    using assms qx qy lt prec by (intro round_grid_le_power) auto
  also have "\<dots> \<le> round_grid p emin y"
    using ilog2_bounds(1) [OF y] qy prec by (intro round_grid_ge_power) auto
  finally show ?thesis .
qed

lemma round_grid_mono:
  assumes "x \<le> y"
  shows "round_grid p emin x \<le> round_grid p emin y"
proof -
  consider "0 < x" | "x \<le> 0" "0 \<le> y" | "y < 0" by linarith
  then show ?thesis
  proof cases
    case 1
    then show ?thesis using assms by (rule round_grid_mono_pos)
  next
    case 2
    then have "0 \<le> round_grid p emin (- x)" "0 \<le> round_grid p emin y"
      using round_grid_nonneg [of "- x"] round_grid_nonneg [of y] by simp_all
    then show ?thesis unfolding round_grid_minus by linarith
  next
    case 3
    then have "round_grid p emin (- y) \<le> round_grid p emin (- x)"
      using assms by (intro round_grid_mono_pos) auto
    then show ?thesis by simp
  qed
qed

lemma round_grid_relative:
  assumes "2 powi (emin + p - 1) \<le> \<bar>x\<bar>"
  shows "\<bar>round_grid p emin x - x\<bar> \<le> \<bar>x\<bar> * 2 powi (- p)"
proof -
  have x: "0 < \<bar>x\<bar>" using assms powi_two_pos(1) [of "emin + p - 1"] by (rule less_le_trans [rotated])
  have "\<not> ilog2 \<bar>x\<bar> < emin + p - 1"
    using ilog2_bounds(2) [OF x] assms powi_two_mono [of "ilog2 \<bar>x\<bar> + 1" "emin + p - 1"] by force
  then have q: "quantum p emin x = ilog2 \<bar>x\<bar> - (p - 1)" using x by (simp add: quantum_def)
  have "\<bar>round_grid p emin x - x\<bar> \<le> 2 powi (ilog2 \<bar>x\<bar> - (p - 1)) / 2"
    using round_grid_error_quantum [of x] q by simp
  also have "\<dots> = 2 powi (ilog2 \<bar>x\<bar>) * 2 powi (- p)"
    using powi_two_add [of "ilog2 \<bar>x\<bar>" "- p"] powi_two_Suc [of "ilog2 \<bar>x\<bar> - p"]
    by (simp add: algebra_simps)
  also have "\<dots> \<le> \<bar>x\<bar> * 2 powi (- p)"
    using ilog2_bounds(1) [OF x] by (intro mult_right_mono) simp_all
  finally show ?thesis .
qed

lemma round_fmt_finite:
  assumes "\<bar>round_grid p emin x\<bar> < 2 powi emax"
  shows "round_fmt p emin emax x = Fin (round_grid p emin x)"
  using assms by (auto simp: round_fmt_def Let_def)

lemma round_fmt_small:
  assumes "\<bar>x\<bar> \<le> 2 powi (emax - 1)"
  shows "round_fmt p emin emax x = Fin (round_grid p emin x)"
proof (rule round_fmt_finite)
  have e: "round_grid p emin (2 powi (emax - 1)) = 2 powi (emax - 1)"
    using prec wide by (intro round_grid_power) simp
  have "round_grid p emin x \<le> 2 powi (emax - 1)"
    using round_grid_mono [of x "2 powi (emax - 1)"] assms e by auto
  moreover have "- (2 powi (emax - 1)) \<le> round_grid p emin x"
    using round_grid_mono [of "- (2 powi (emax - 1))" x] assms e by auto
  moreover have "(2::rat) powi (emax - 1) < 2 powi emax" by (intro powi_two_strict) simp
  ultimately show "\<bar>round_grid p emin x\<bar> < 2 powi emax" by linarith
qed

lemma round_fmt_mono:
  assumes "x \<le> y"
  shows "fp_le (round_fmt p emin emax x) (round_fmt p emin emax y)"
proof -
  have m: "round_grid p emin x \<le> round_grid p emin y" using assms by (rule round_grid_mono)
  have "(0::rat) < 2 powi emax" by simp
  then show ?thesis using m
    by (auto simp: round_fmt_def Let_def fp_le_def)
qed

lemma round_fmt_int:
  assumes "\<bar>n\<bar> \<le> 2 ^ nat p" "emin \<le> 0" "p < emax"
  shows "round_fmt p emin emax (of_int n) = Fin (of_int n)"
proof -
  have "representable (of_int n)"
    unfolding representable_def using assms by (intro exI [of _ n] exI [of _ 0]) simp
  then have r: "round_grid p emin (of_int n) = of_int n" by (rule round_grid_representable)
  have "rat_of_int \<bar>n\<bar> \<le> of_int (2 ^ nat p)" using assms by (simp only: of_int_le_iff)
  also have "\<dots> = 2 powi p" using prec by (simp add: powi_two_int)
  also have "\<dots> \<le> 2 powi (emax - 1)" using assms by (intro powi_two_mono) simp
  finally show ?thesis using round_fmt_small [of "of_int n"] r by simp
qed

end

interpretation b32: binary_format 24 "-149" 128
  by unfold_locales simp_all

interpretation b64: binary_format 53 "-1074" 1024
  by unfold_locales simp_all

subsection \<open>Rounding in the two formats\<close>

lemma rnd_mono: "x \<le> y \<Longrightarrow> fp_le (rnd f x) (rnd f y)"
  by (cases f) (simp_all add: b32.round_fmt_mono b64.round_fmt_mono)

lemma rnd32_bounded:
  assumes "\<bar>x\<bar> \<le> 2 powi k" "-149 \<le> k" "k \<le> 127"
  shows "rnd B32 x = Fin (round_grid 24 (-149) x)" "\<bar>round_grid 24 (-149) x\<bar> \<le> 2 powi k"
proof -
  have "\<bar>x\<bar> \<le> 2 powi 127" using assms(1) powi_two_mono [OF assms(3)] by (rule order_trans)
  then show "rnd B32 x = Fin (round_grid 24 (-149) x)"
    using b32.round_fmt_small [of x] by simp
  have "round_grid 24 (-149) x \<le> 2 powi k" "- (2 powi k) \<le> round_grid 24 (-149) x"
    using assms b32.round_grid_mono [of x "2 powi k"] b32.round_grid_mono [of "- (2 powi k)" x]
      b32.round_grid_power [OF assms(2)] b32.round_grid_minus [of "2 powi k"] by auto
  then show "\<bar>round_grid 24 (-149) x\<bar> \<le> 2 powi k" by linarith
qed

lemma rnd32_relative:
  assumes "2 powi (-126) \<le> \<bar>x\<bar>" "\<bar>x\<bar> \<le> 2 powi 127"
  shows "\<exists>y. rnd B32 x = Fin y \<and> \<bar>y - x\<bar> \<le> \<bar>x\<bar> / 16777216"
proof -
  have "\<bar>round_grid 24 (-149) x - x\<bar> \<le> \<bar>x\<bar> * 2 powi (-24)"
    using assms(1) b32.round_grid_relative [of x] by simp
  moreover have "(2::rat) powi (-24) = 1 / 16777216" by (simp add: power_int_def power_divide)
  ultimately show ?thesis using rnd32_bounded(1) [OF assms(2)] by simp
qed

lemma rnd32_int: "\<bar>n\<bar> \<le> 16777216 \<Longrightarrow> rnd B32 (of_int n) = Fin (of_int n)"
  using b32.round_fmt_int [of n] by simp

lemma rnd64_int: "\<bar>n\<bar> \<le> 9007199254740992 \<Longrightarrow> rnd B64 (of_int n) = Fin (of_int n)"
  using b64.round_fmt_int [of n] by simp

lemma rnd64_dyadic:
  assumes "\<bar>n\<bar> \<le> 9007199254740992" "k \<le> 1074"
  shows "rnd B64 (of_int n / 2 ^ k) = Fin (of_int n / 2 ^ k)"
proof -
  have "of_int n / 2 ^ k = rat_of_int n * 2 powi (- int k) \<and> \<bar>n\<bar> \<le> 2 ^ nat 53 \<and> -1074 \<le> - int k"
    using assms by (simp add: power_int_minus field_simps)
  then have "b64.representable (of_int n / 2 ^ k)" unfolding b64.representable_def by blast
  then have g: "round_grid 53 (-1074) (of_int n / 2 ^ k) = of_int n / 2 ^ k"
    by (rule b64.round_grid_representable)
  have "rat_of_int \<bar>n\<bar> \<le> of_int 9007199254740992" using assms(1) by (simp only: of_int_le_iff)
  moreover have "\<bar>rat_of_int n / 2 ^ k\<bar> \<le> \<bar>rat_of_int n\<bar>"
    by (simp add: abs_divide divide_le_eq mult_le_cancel_left1)
  ultimately have "\<bar>rat_of_int n / 2 ^ k\<bar> \<le> 2 powi 53" by (simp add: power_int_def)
  then have "\<bar>rat_of_int n / 2 ^ k\<bar> \<le> 2 powi (1024 - 1)"
    using powi_two_mono [of 53 "1024 - 1"] by (rule order_trans) simp
  then show ?thesis using b64.round_fmt_small [of "of_int n / 2 ^ k"] g by simp
qed

lemma rnd64_eighths:
  "\<bar>n\<bar> \<le> 9007199254740992 \<Longrightarrow> rnd B64 (of_int n / 8) = Fin (of_int n / 8)"
  using rnd64_dyadic [of n 3] by simp

lemma floor_half_error: "\<bar>of_int \<lfloor>x + 1 / 2\<rfloor> - x\<bar> \<le> (1 / 2 :: rat)"
proof -
  have "of_int \<lfloor>x + 1 / 2\<rfloor> \<le> x + 1 / 2" "x + 1 / 2 < of_int \<lfloor>x + 1 / 2\<rfloor> + 1" by linarith+
  then show ?thesis unfolding abs_le_iff by linarith
qed

lemma round_away_error: "\<bar>of_int (round_away x) - x\<bar> \<le> 1 / 2"
proof (cases "0 \<le> x")
  case True
  then show ?thesis using floor_half_error [of x] by (simp only: round_away_def if_True)
next
  case False
  have "\<lceil>x - 1 / 2\<rceil> = - \<lfloor>- x + 1 / 2\<rfloor>" by (simp add: ceiling_def)
  then show ?thesis using floor_half_error [of "- x"] False
    unfolding round_away_def abs_le_iff if_not_P [OF False] of_int_minus by linarith
qed

lemma rnd_zero [simp]: "rnd f 0 = Fin 0"
  using rnd32_int [of 0] rnd64_int [of 0] by (cases f) simp_all

lemma fp_le_refl: "x \<noteq> NaN \<Longrightarrow> fp_le x x"
  by (cases x) (simp_all add: fp_le_def)

lemma fp_sub_Fin_antimono:
  assumes "a \<le> b" "fp_sub f u (Fin a) \<noteq> NaN"
  shows "fp_le (fp_sub f u (Fin b)) (fp_sub f u (Fin a))"
  using assms by (cases u) (auto simp: fp_sub_def rnd_mono fp_le_refl)

subsection \<open>Evaluation\<close>

text \<open>Rewrite rules that evaluate operations on literals with \<open>simp add: fp_eval\<close>.\<close>

lemma bit_length_eval:
  "bit_length 0 = 0" "bit_length 1 = 1" "bit_length (Suc 0) = 1"
  "bit_length (numeral (num.Bit0 k)) = Suc (bit_length (numeral k))"
  "bit_length (numeral (num.Bit1 k)) = Suc (bit_length (numeral k))"
  by (subst bit_length.simps, simp)+

lemma isqrt_eval:
  "isqrt 0 = 0" "isqrt (Suc 0) = 1" "isqrt 1 = 1"
  "isqrt (numeral k) = (let s = 2 * isqrt (numeral k div 4)
      in if Suc s * Suc s \<le> numeral k then Suc s else s)"
  by (subst isqrt.simps, simp add: isqrt.simps [of 0])+

lemma powi_eval:
  "(x::rat) powi numeral k = x ^ numeral k"
  "(x::rat) powi (- numeral k) = 1 / x ^ numeral k"
  "(x::rat) powi 0 = 1" "(x::rat) powi 1 = x" "(x::rat) powi (- 1) = 1 / x"
  by (simp_all add: power_int_def field_simps)

lemma ceiling_eval: "\<lceil>x::rat\<rceil> = - \<lfloor>- x\<rfloor>"
  by (simp add: ceiling_def)

lemma floor_eval:
  "\<lfloor>- (numeral a / numeral b) :: rat\<rfloor> = (- numeral a) div numeral b"
  "\<lfloor>numeral a / numeral b :: rat\<rfloor> = numeral a div numeral b"
  "\<lfloor>- (1 / numeral b) :: rat\<rfloor> = (- 1) div numeral b"
  "\<lfloor>1 / numeral b :: rat\<rfloor> = 1 div numeral b"
  using floor_divide_of_int_eq [of "- numeral a" "numeral b", where 'a = rat]
    floor_divide_of_int_eq [of "numeral a" "numeral b", where 'a = rat]
    floor_divide_of_int_eq [of "- 1" "numeral b", where 'a = rat]
    floor_divide_of_int_eq [of "1" "numeral b", where 'a = rat]
  by simp_all

lemmas fp_eval = round_fmt_def round_grid_def quantum_def ilog2_def round_even_def Let_def
  bit_length_eval powi_eval ceiling_eval floor_eval fp_of_int_def fp_sub_def fp_max_def fp_min_def
  fp_le_def llround_def round_away_def isqrt_eval sqrt_rat_def fp_to_i64_def truncate_rat_def i64_range_def

end
