(* ===== verification/Quic_Types.thy ===== *)
theory Quic_Types
  imports Ieee_Float
begin

text \<open>The value types of src/pcc/quic_types: times and time differences in microseconds
  (quic_time.h), bandwidths in bits per second (quic_bandwidth.h) and the acked and lost
  packet records (quic_types.h).  QuicTime, QuicTime::Delta and QuicBandwidth hold one int64_t
  each and are modelled by that integer; a bandwidth is never negative.\<close>

type_synonym quic_time = int
type_synonym quic_delta = int
type_synonym quic_bandwidth = int

definition kNumMicrosPerSecond :: int where "kNumMicrosPerSecond = 1000 * 1000"

definition kQuicInfiniteTimeUs :: int where "kQuicInfiniteTimeUs = 9223372036854775807"

subsection \<open>Time differences\<close>

definition delta_from_seconds :: "int \<Rightarrow> quic_delta" where
  "delta_from_seconds secs = i64 (i64 (secs * 1000) * 1000)"

definition delta_from_milliseconds :: "int \<Rightarrow> quic_delta" where
  "delta_from_milliseconds ms = i64 (ms * 1000)"

definition delta_to_seconds :: "quic_delta \<Rightarrow> int" where
  "delta_to_seconds d = cdiv (cdiv d 1000) 1000"

definition delta_to_milliseconds :: "quic_delta \<Rightarrow> int" where
  "delta_to_milliseconds d = cdiv d 1000"

definition delta_is_zero :: "quic_delta \<Rightarrow> bool" where
  "delta_is_zero d \<longleftrightarrow> d = 0"

definition delta_is_infinite :: "quic_delta \<Rightarrow> bool" where
  "delta_is_infinite d \<longleftrightarrow> d = kQuicInfiniteTimeUs"

definition delta_add :: "quic_delta \<Rightarrow> quic_delta \<Rightarrow> quic_delta" where
  "delta_add lhs rhs = i64 (lhs + rhs)"

definition delta_sub :: "quic_delta \<Rightarrow> quic_delta \<Rightarrow> quic_delta" where
  "delta_sub lhs rhs = i64 (lhs - rhs)"

definition delta_mul_int :: "quic_delta \<Rightarrow> int \<Rightarrow> quic_delta" where
  "delta_mul_int lhs rhs = i64 (lhs * rhs)"

definition delta_mul_double :: "platform \<Rightarrow> quic_delta \<Rightarrow> fp \<Rightarrow> quic_delta" where
  "delta_mul_double pf lhs rhs = llround pf (fp_mul B64 (fp_of_int B64 lhs) rhs)"

definition time_is_initialized :: "quic_time \<Rightarrow> bool" where
  "time_is_initialized t \<longleftrightarrow> 0 \<noteq> t"

definition time_diff :: "quic_time \<Rightarrow> quic_time \<Rightarrow> quic_delta" where
  "time_diff lhs rhs = i64 (lhs - rhs)"

definition time_add :: "quic_time \<Rightarrow> quic_delta \<Rightarrow> quic_time" where
  "time_add lhs rhs = i64 (lhs + rhs)"

subsection \<open>Bandwidths\<close>

definition mk_bandwidth :: "int \<Rightarrow> quic_bandwidth" where
  "mk_bandwidth bits_per_second = (if bits_per_second \<ge> 0 then bits_per_second else 0)"

definition bw_from_kbits :: "int \<Rightarrow> quic_bandwidth" where
  "bw_from_kbits k = mk_bandwidth (i64 (k * 1000))"

text \<open>The product and the quotients mix QuicByteCount (uint64_t) and int64_t operands, so they
  are computed in uint64_t; the constructor takes the result as int64_t.\<close>

definition bw_from_bytes_and_delta :: "int \<Rightarrow> quic_delta \<Rightarrow> quic_bandwidth outcome" where
  "bw_from_bytes_and_delta bytes delta =
     (if u64 delta = 0 then Inl Div_By_Zero
      else Inr (mk_bandwidth (i64 (u64 (u64 (bytes * kNumMicrosPerSecond) div u64 delta * 8)))))"

definition bw_to_kbits :: "quic_bandwidth \<Rightarrow> int" where
  "bw_to_kbits b = cdiv b 1000"

definition bw_to_bytes_per_second :: "quic_bandwidth \<Rightarrow> int" where
  "bw_to_bytes_per_second b = cdiv b 8"

definition bw_to_bytes_per_period :: "quic_bandwidth \<Rightarrow> quic_delta \<Rightarrow> int" where
  "bw_to_bytes_per_period b time_period =
     u64 (i64 (bw_to_bytes_per_second b * time_period)) div kNumMicrosPerSecond"

definition bw_transfer_time :: "quic_bandwidth \<Rightarrow> int \<Rightarrow> quic_delta" where
  "bw_transfer_time b bytes =
     (if b = 0 then 0 else i64 (u64 (u64 (bytes * 8) * kNumMicrosPerSecond) div u64 b))"

definition bw_add :: "quic_bandwidth \<Rightarrow> quic_bandwidth \<Rightarrow> quic_bandwidth" where
  "bw_add lhs rhs = mk_bandwidth (i64 (lhs + rhs))"

definition bw_sub :: "quic_bandwidth \<Rightarrow> quic_bandwidth \<Rightarrow> quic_bandwidth" where
  "bw_sub lhs rhs = mk_bandwidth (i64 (lhs - rhs))"

definition bw_mul :: "platform \<Rightarrow> quic_bandwidth \<Rightarrow> fp \<Rightarrow> quic_bandwidth" where
  "bw_mul pf lhs rhs = mk_bandwidth (llround pf (fp_mul B32 (fp_of_int B32 lhs) rhs))"

subsection \<open>Acked and lost packets\<close>

record acked_packet =
  ap_packet_number :: int
  ap_bytes_acked :: int
  ap_receive_timestamp :: quic_time

record lost_packet =
  lp_packet_number :: int
  lp_bytes_lost :: int

subsection \<open>Facts\<close>

lemma mk_bandwidth_nonneg [simp]: "0 \<le> mk_bandwidth x"
  by (simp add: mk_bandwidth_def)

lemma mk_bandwidth_id [simp]: "0 \<le> x \<Longrightarrow> mk_bandwidth x = x"
  by (simp add: mk_bandwidth_def)

lemma mk_bandwidth_mono: "x \<le> y \<Longrightarrow> mk_bandwidth x \<le> mk_bandwidth y"
  by (simp add: mk_bandwidth_def)

lemma bw_mul_nonneg [simp]: "0 \<le> bw_mul pf b f"
  by (simp add: bw_mul_def)

lemma bw_add_nonneg [simp]: "0 \<le> bw_add a b" and bw_sub_nonneg [simp]: "0 \<le> bw_sub a b"
  by (simp_all add: bw_add_def bw_sub_def)

lemma bw_sub_le:
  "0 \<le> a \<Longrightarrow> a \<le> 9223372036854775807 \<Longrightarrow> 0 \<le> b \<Longrightarrow> b \<le> 9223372036854775807 \<Longrightarrow>
     bw_sub a b = max 0 (a - b)"
  by (simp add: bw_sub_def mk_bandwidth_def)

lemma bw_transfer_time_bounds:
  assumes "0 < b" "b \<le> 9223372036854775807" "0 \<le> bytes" "bytes < 1000000000000"
  shows "bw_transfer_time b bytes = 8000000 * bytes div b"
proof -
  have "8000000 * bytes div b \<le> 8000000 * bytes"
    using assms zdiv_mono2 [of "8000000 * bytes" 1 b] by simp
  moreover have "0 \<le> 8000000 * bytes div b" using assms by (simp add: pos_imp_zdiv_nonneg_iff)
  ultimately show ?thesis using assms
    by (simp add: bw_transfer_time_def kNumMicrosPerSecond_def)
qed

text \<open>Multiplying a time difference by a number of eighths is exact up to the final rounding to
  an integer.\<close>

lemma delta_mul_eighths:
  assumes "\<bar>a\<bar> \<le> 1125899906842624" "\<bar>k\<bar> \<le> 8"
  shows "delta_mul_double pf a (Fin (of_int k / 8)) = round_away (of_int (a * k) / 8)"
proof -
  have p: "\<bar>a * k\<bar> \<le> 9007199254740992"
    using mult_mono [OF assms] by (simp add: abs_mult)
  have a: "rnd B64 (rat_of_int a) = Fin (of_int a)" using assms by (intro rnd64_int) simp
  have m: "d_mul (d_int a) (Fin (of_int k / 8)) = Fin (of_int (a * k) / 8)"
    using rnd64_eighths [OF p] by (simp add: fp_of_int_def a del: rnd.simps)
  have e: "\<bar>of_int (round_away (of_int (a * k) / 8)) - rat_of_int (a * k) / 8\<bar> \<le> 1 / 2"
    by (rule round_away_error)
  have "\<bar>rat_of_int (a * k)\<bar> \<le> of_int 9007199254740992"
    using p by (simp only: of_int_abs [symmetric] of_int_le_iff)
  then have "\<bar>rat_of_int (a * k) / 8\<bar> \<le> 1125899906842624" by simp
  then have "\<bar>rat_of_int (round_away (of_int (a * k) / 8))\<bar> \<le> of_int 1125899906842625"
    using e unfolding abs_le_iff of_int_numeral by linarith
  then have "\<bar>round_away (of_int (a * k) / 8)\<bar> \<le> 1125899906842625"
    by (simp only: of_int_abs [symmetric] of_int_le_iff)
  then have "i64_range (round_away (of_int (a * k) / 8))" unfolding i64_range_def by linarith
  then show ?thesis by (simp add: delta_mul_double_def m llround_def)
qed

text \<open>The product of a bandwidth and a float is within a relative error of four float roundings,
  plus the final rounding to an integer.\<close>

lemma bw_mul_error:
  assumes "0 \<le> r" "r \<le> 1125899906842624" "1 / 1024 \<le> c" "c \<le> 4"
  shows "\<bar>of_int (bw_mul pf r (Fin c)) - of_int r * c\<bar> \<le> of_int r * c / 4194304 + 1 / 2"
proof (cases "r = 0")
  case True
  then show ?thesis by (simp add: bw_mul_def fp_of_int_def llround_def round_away_def i64_range_def floor_eval)
next
  case False
  let ?x = "rat_of_int r"
  have x: "1 \<le> ?x" "?x \<le> 1125899906842624"
    using False assms(1,2) of_int_le_iff [of 1 r, where 'a = rat]
      of_int_le_iff [of r 1125899906842624, where 'a = rat] by simp_all
  have small: "(2::rat) powi (-126) \<le> 1 / 4096"
    using powi_two_mono [of "-126" "-12"] by (simp add: power_int_def power_divide)
  have big: "(9007199254740992 :: rat) \<le> 2 powi 127"
    using powi_two_mono [of 53 127] by (simp add: power_int_def)
  obtain a where a: "rnd B32 ?x = Fin a" "\<bar>a - ?x\<bar> \<le> ?x / 16777216"
    using rnd32_relative [of ?x] x small big by (auto simp: abs_of_pos)
  have a2: "?x * 16777215 \<le> a * 16777216" "a * 16777216 \<le> ?x * 16777217"
    using a(2) unfolding abs_le_iff by linarith+
  then have a3: "1 / 2 \<le> a" "a \<le> 1125900000000000" using x by linarith+
  have p: "1 / 4096 \<le> a * c" "a * c \<le> 9007199254740992"
    using mult_mono [of "1 / 2" a "1 / 1024" c] mult_mono [of a 1125900000000000 c 4] a3 assms
    by simp_all
  obtain b where b: "rnd B32 (a * c) = Fin b" "\<bar>b - a * c\<bar> \<le> a * c / 16777216"
    using rnd32_relative [of "a * c"] p small big by (auto simp: abs_of_pos)
  have "?x * 16777215 * c \<le> a * 16777216 * c" "a * 16777216 * c \<le> ?x * 16777217 * c"
    using a2 assms by (simp_all only: mult_right_mono)
  then have "?x * c * 16777215 \<le> a * c * 16777216" "a * c * 16777216 \<le> ?x * c * 16777217"
    by (simp_all only: ac_simps)
  moreover have "0 \<le> ?x * c" using x assms by simp
  ultimately have e: "\<bar>b - ?x * c\<bar> \<le> ?x * c / 4194304"
    using b(2) unfolding abs_le_iff by linarith
  have "0 \<le> b" "b \<le> 9007200000000000" using b(2) p unfolding abs_le_iff by linarith+
  then have r: "round_away b = \<lfloor>b + 1 / 2\<rfloor>" by (simp add: round_away_def)
  have "0 \<le> round_away b" "round_away b \<le> 9007200000000001"
    using \<open>0 \<le> b\<close> \<open>b \<le> 9007200000000000\<close> unfolding r by linarith+
  then have "bw_mul pf r (Fin c) = round_away b"
    by (simp add: bw_mul_def fp_of_int_def a b llround_def i64_range_def del: rnd.simps)
  then show ?thesis using e round_away_error [of b] unfolding abs_le_iff by linarith
qed

end
