(* ===== verification/Monitor_Queue.thy ===== *)
theory Monitor_Queue
  imports Quic_Types
begin

text \<open>The queue of monitor intervals, src/pcc/pcc_monitor_interval_queue.{h,cpp}: an interval
  groups consecutively sent packets and collects their acknowledgements and losses; when the
  utility of every useful interval is available, the delegate (the sender) is called with them
  and the queue is drained up to the last useful interval.  The delegate is a parameter of
  \<open>mq_OnCongestionEvent\<close>: it receives the queue it may read and the useful intervals.

  size_t counters and vector sizes are natural numbers; byte counts are uint64_t with their
  wrap-around.  A failed \<open>assert\<close> and an access to the front of an empty deque are errors.\<close>

subsection \<open>Data\<close>

definition kMinReliableRtt :: nat where "kMinReliableRtt = 4"

record packet_rtt_sample =
  prs_packet_number :: int
  prs_sample_rtt :: quic_delta
  prs_ack_timestamp :: quic_time
  prs_is_reliable :: bool
  prs_is_reliable_for_gradient_calculation :: bool

record lost_packet_sample =
  lps_packet_number :: int
  lps_bytes :: int

record monitor_interval =
  mi_sending_rate :: quic_bandwidth
  mi_is_useful :: bool
  mi_rtt_fluctuation_tolerance_ratio :: fp
  mi_first_packet_sent_time :: quic_time
  mi_last_packet_sent_time :: quic_time
  mi_first_packet_number :: int
  mi_last_packet_number :: int
  mi_bytes_sent :: int
  mi_bytes_acked :: int
  mi_bytes_lost :: int
  mi_rtt_on_monitor_start :: quic_delta
  mi_rtt_on_monitor_end :: quic_delta
  mi_min_rtt :: quic_delta
  mi_packet_sent_intervals :: "quic_delta list"
  mi_packet_rtt_samples :: "packet_rtt_sample list"
  mi_lost_packet_samples :: "lost_packet_sample list"
  mi_num_reliable_rtt :: nat
  mi_num_reliable_rtt_for_gradient_calculation :: nat
  mi_has_enough_reliable_rtt :: bool
  mi_is_monitor_duration_extended :: bool

record monitor_queue =
  mq_monitor_intervals :: "monitor_interval list"
  mq_pending_acked_packets :: "acked_packet list"
  mq_pending_rtt :: quic_delta
  mq_pending_avg_rtt :: quic_delta
  mq_pending_ack_interval :: quic_delta
  mq_pending_event_time :: quic_time
  mq_burst_flag :: bool
  mq_avg_interval_ratio :: fp
  mq_num_useful_intervals :: nat
  mq_num_available_intervals :: nat

text \<open>The arguments of OnCongestionEvent.\<close>

record congestion_event =
  ce_acked_packets :: "acked_packet list"
  ce_lost_packets :: "lost_packet list"
  ce_avg_rtt :: quic_delta
  ce_latest_rtt :: quic_delta
  ce_min_rtt :: quic_delta
  ce_event_time :: quic_time
  ce_ack_interval :: quic_delta

definition new_monitor_interval ::
  "quic_bandwidth \<Rightarrow> bool \<Rightarrow> fp \<Rightarrow> quic_delta \<Rightarrow> monitor_interval" where
  "new_monitor_interval sending_rate is_useful tolerance rtt =
     \<lparr> mi_sending_rate = sending_rate, mi_is_useful = is_useful,
       mi_rtt_fluctuation_tolerance_ratio = tolerance,
       mi_first_packet_sent_time = 0, mi_last_packet_sent_time = 0,
       mi_first_packet_number = 0, mi_last_packet_number = 0,
       mi_bytes_sent = 0, mi_bytes_acked = 0, mi_bytes_lost = 0,
       mi_rtt_on_monitor_start = rtt, mi_rtt_on_monitor_end = rtt, mi_min_rtt = rtt,
       mi_packet_sent_intervals = [], mi_packet_rtt_samples = [], mi_lost_packet_samples = [],
       mi_num_reliable_rtt = 0, mi_num_reliable_rtt_for_gradient_calculation = 0,
       mi_has_enough_reliable_rtt = False, mi_is_monitor_duration_extended = False \<rparr>"

definition mq_new :: monitor_queue where
  "mq_new =
     \<lparr> mq_monitor_intervals = [], mq_pending_acked_packets = [], mq_pending_rtt = 0,
       mq_pending_avg_rtt = 0, mq_pending_ack_interval = 0, mq_pending_event_time = 0,
       mq_burst_flag = False, mq_avg_interval_ratio = Fin (-1),
       mq_num_useful_intervals = 0, mq_num_available_intervals = 0 \<rparr>"

subsection \<open>Operations\<close>

definition mq_EnqueueNewMonitorInterval ::
  "quic_bandwidth \<Rightarrow> bool \<Rightarrow> fp \<Rightarrow> quic_delta \<Rightarrow> monitor_queue \<Rightarrow> monitor_queue" where
  "mq_EnqueueNewMonitorInterval sending_rate is_useful tolerance rtt q =
     q\<lparr> mq_num_useful_intervals :=
          (if is_useful then Suc (mq_num_useful_intervals q) else mq_num_useful_intervals q),
        mq_monitor_intervals :=
          mq_monitor_intervals q @ [new_monitor_interval sending_rate is_useful tolerance rtt] \<rparr>"

definition interval_on_packet_sent ::
  "quic_time \<Rightarrow> int \<Rightarrow> int \<Rightarrow> quic_delta \<Rightarrow> monitor_interval \<Rightarrow> monitor_interval" where
  "interval_on_packet_sent sent_time packet_number bytes sent_interval iv =
     (let iv1 = (if mi_bytes_sent iv = 0
                 then iv\<lparr> mi_first_packet_sent_time := sent_time,
                          mi_first_packet_number := packet_number \<rparr>
                 else iv)
      in iv1\<lparr> mi_last_packet_sent_time := sent_time,
              mi_last_packet_number := packet_number,
              mi_bytes_sent := u64 (mi_bytes_sent iv1 + bytes),
              mi_packet_sent_intervals := mi_packet_sent_intervals iv1 @ [sent_interval] \<rparr>)"

definition mq_OnPacketSent ::
  "quic_time \<Rightarrow> int \<Rightarrow> int \<Rightarrow> quic_delta \<Rightarrow> monitor_queue \<Rightarrow> monitor_queue" where
  "mq_OnPacketSent sent_time packet_number bytes sent_interval q =
     (if mq_monitor_intervals q = [] then q
      else q\<lparr> mq_monitor_intervals :=
               butlast (mq_monitor_intervals q) @
               [interval_on_packet_sent sent_time packet_number bytes sent_interval
                  (last (mq_monitor_intervals q))] \<rparr>)"

definition IsUtilityAvailable :: "monitor_interval \<Rightarrow> bool" where
  "IsUtilityAvailable iv \<longleftrightarrow>
     mi_has_enough_reliable_rtt iv \<and>
     u64 (mi_bytes_acked iv + mi_bytes_lost iv) = mi_bytes_sent iv"

definition IntervalContainsPacket :: "monitor_interval \<Rightarrow> int \<Rightarrow> bool" where
  "IntervalContainsPacket iv packet_number \<longleftrightarrow>
     packet_number \<ge> mi_first_packet_number iv \<and> packet_number \<le> mi_last_packet_number iv"

definition HasInvalidUtility :: "monitor_interval \<Rightarrow> bool" where
  "HasInvalidUtility iv \<longleftrightarrow> mi_first_packet_sent_time iv = mi_last_packet_sent_time iv"

definition interval_on_lost :: "monitor_interval \<Rightarrow> lost_packet \<Rightarrow> monitor_interval" where
  "interval_on_lost iv p =
     (if IntervalContainsPacket iv (lp_packet_number p)
      then iv\<lparr> mi_bytes_lost := u64 (mi_bytes_lost iv + lp_bytes_lost p),
               mi_lost_packet_samples := mi_lost_packet_samples iv @
                 [\<lparr> lps_packet_number = lp_packet_number p, lps_bytes = lp_bytes_lost p \<rparr>] \<rparr>
      else iv)"

text \<open>The reliability test of one RTT sample: the ratio of two consecutive ACK intervals
  (a float, at least 1), the burst flag and the moving average of the ratio.\<close>

definition interval_ratio :: "quic_delta \<Rightarrow> quic_delta \<Rightarrow> fp" where
  "interval_ratio pending_ack_interval ack_interval =
     (let r = fp_div B32 (fp_of_int B32 pending_ack_interval) (fp_of_int B32 ack_interval)
      in if fp_lt r (Fin 1) then fp_cvt B32 (fp_div B64 (Fin 1) r) else r)"

definition rtt_reliability ::
  "congestion_event \<Rightarrow> monitor_queue \<Rightarrow> bool \<Rightarrow> fp \<Rightarrow> bool \<times> bool \<times> fp" where
  "rtt_reliability ev q burst avg =
     (if mq_pending_ack_interval q = 0 then (False, burst, avg)
      else let r = interval_ratio (mq_pending_ack_interval q) (ce_ack_interval ev);
               avg0 = (if fp_lt avg (Fin 0) then r else avg);
               (reliable, burst') =
                 (if fp_lt (fp_mul B64 (Fin 50) avg0) r then (False, True)
                  else if burst
                  then (False, \<not> (ce_latest_rtt ev > mq_pending_rtt q \<and>
                                  mq_pending_rtt q < mq_pending_avg_rtt q))
                  else (True, burst));
               avg' = fp_cvt B32 (fp_add B64 (fp_mul B64 avg0 (rnd B64 (9 / 10)))
                                             (fp_mul B64 r (rnd B64 (1 / 10))))
           in (reliable, burst', avg'))"

definition interval_on_acked ::
  "congestion_event \<Rightarrow> monitor_queue \<Rightarrow> monitor_interval \<times> bool \<times> fp \<Rightarrow> acked_packet
     \<Rightarrow> monitor_interval \<times> bool \<times> fp" where
  "interval_on_acked ev q st p = (case st of (iv, burst, avg) \<Rightarrow>
     if IntervalContainsPacket iv (ap_packet_number p) then
       (let iv1 = (if mi_bytes_acked iv = 0
                   then iv\<lparr> mi_rtt_on_monitor_start := mq_pending_avg_rtt q \<rparr> else iv);
            iv2 = iv1\<lparr> mi_bytes_acked := u64 (mi_bytes_acked iv1 + ap_bytes_acked p) \<rparr>;
            (reliable, burst', avg') = rtt_reliability ev q burst avg;
            iv3 = (if reliable
                   then iv2\<lparr> mi_num_reliable_rtt := Suc (mi_num_reliable_rtt iv2),
                             mi_num_reliable_rtt_for_gradient_calculation :=
                               Suc (mi_num_reliable_rtt_for_gradient_calculation iv2) \<rparr>
                   else iv2);
            iv4 = iv3\<lparr> mi_packet_rtt_samples := mi_packet_rtt_samples iv3 @
                     [\<lparr> prs_packet_number = ap_packet_number p,
                        prs_sample_rtt = mq_pending_rtt q,
                        prs_ack_timestamp = mq_pending_event_time q,
                        prs_is_reliable = reliable,
                        prs_is_reliable_for_gradient_calculation = reliable \<rparr>] \<rparr>;
            iv5 = (if mi_num_reliable_rtt iv4 \<ge> kMinReliableRtt
                   then iv4\<lparr> mi_has_enough_reliable_rtt := True \<rparr> else iv4)
        in (iv5, burst', avg'))
     else st)"

definition interval_update ::
  "congestion_event \<Rightarrow> monitor_queue \<Rightarrow> bool \<Rightarrow> fp \<Rightarrow> monitor_interval
     \<Rightarrow> monitor_interval \<times> bool \<times> fp" where
  "interval_update ev q burst avg iv =
     foldl (interval_on_acked ev q) (foldl interval_on_lost iv (ce_lost_packets ev), burst, avg)
       (mq_pending_acked_packets q)"

record scan_result =
  sc_burst_flag :: bool
  sc_avg_interval_ratio :: fp
  sc_num_available :: nat
  sc_has_invalid_utility :: bool
  sc_intervals :: "monitor_interval list"

definition sc_cons :: "monitor_interval \<Rightarrow> scan_result \<Rightarrow> scan_result" where
  "sc_cons iv r = r\<lparr> sc_intervals := iv # sc_intervals r \<rparr>"

text \<open>The loop over the intervals; \<open>nav\<close> is num_available_intervals_.\<close>

fun scan_intervals ::
  "congestion_event \<Rightarrow> monitor_queue \<Rightarrow> bool \<Rightarrow> fp \<Rightarrow> nat \<Rightarrow> monitor_interval list
     \<Rightarrow> scan_result outcome" where
  "scan_intervals ev q burst avg nav [] =
     Inr \<lparr> sc_burst_flag = burst, sc_avg_interval_ratio = avg, sc_num_available = nav,
           sc_has_invalid_utility = False, sc_intervals = [] \<rparr>"
| "scan_intervals ev q burst avg nav (iv # ivs) =
     (if \<not> mi_is_useful iv then map_outcome (sc_cons iv) (scan_intervals ev q burst avg nav ivs)
      else if IsUtilityAvailable iv
      then map_outcome (sc_cons iv) (scan_intervals ev q burst avg (Suc nav) ivs)
      else case interval_update ev q burst avg iv of (iv1, burst', avg') \<Rightarrow>
        if IsUtilityAvailable iv1 then
          (let iv2 = iv1\<lparr> mi_rtt_on_monitor_end := ce_avg_rtt ev, mi_min_rtt := ce_min_rtt ev \<rparr>
           in if HasInvalidUtility iv2
              then Inr \<lparr> sc_burst_flag = burst', sc_avg_interval_ratio = avg',
                         sc_num_available = nav, sc_has_invalid_utility = True,
                         sc_intervals = iv2 # ivs \<rparr>
              else guard_outcome Assert_Failed (Suc nav \<le> mq_num_useful_intervals q)
                     (map_outcome (sc_cons iv2) (scan_intervals ev q burst' avg' (Suc nav) ivs)))
        else map_outcome (sc_cons iv1) (scan_intervals ev q burst' avg' nav ivs))"

text \<open>Removing intervals from the head until \<open>n\<close> useful ones are gone.\<close>

fun pop_useful :: "nat \<Rightarrow> monitor_interval list \<Rightarrow> monitor_interval list outcome" where
  "pop_useful 0 ivs = Inr ivs"
| "pop_useful (Suc n) [] = Inl Out_Of_Bounds"
| "pop_useful (Suc n) (iv # ivs) = pop_useful (if mi_is_useful iv then n else Suc n) ivs"

definition mq_store_scan :: "congestion_event \<Rightarrow> scan_result \<Rightarrow> monitor_queue \<Rightarrow> monitor_queue" where
  "mq_store_scan ev r q =
     q\<lparr> mq_monitor_intervals := sc_intervals r, mq_burst_flag := sc_burst_flag r,
        mq_avg_interval_ratio := sc_avg_interval_ratio r,
        mq_num_available_intervals := sc_num_available r,
        mq_pending_acked_packets := ce_acked_packets ev,
        mq_pending_rtt := ce_latest_rtt ev, mq_pending_avg_rtt := ce_avg_rtt ev,
        mq_pending_ack_interval := ce_ack_interval ev,
        mq_pending_event_time := ce_event_time ev \<rparr>"

definition useful_intervals :: "monitor_queue \<Rightarrow> monitor_interval list" where
  "useful_intervals q = filter mi_is_useful (mq_monitor_intervals q)"

definition mq_notify ::
  "(monitor_queue \<Rightarrow> monitor_interval list \<Rightarrow> quic_time \<Rightarrow> 'd \<Rightarrow> 'd outcome)
     \<Rightarrow> congestion_event \<Rightarrow> monitor_queue \<Rightarrow> 'd \<Rightarrow> 'd outcome" where
  "mq_notify deliver ev q d =
     guard_outcome Assert_Failed (mq_num_useful_intervals q > 0)
       (guard_outcome Assert_Failed
          (mq_num_available_intervals q = length (useful_intervals q))
          (deliver q (useful_intervals q) (ce_event_time ev) d))"

definition mq_drain :: "monitor_queue \<Rightarrow> monitor_queue outcome" where
  "mq_drain q =
     map_outcome (\<lambda>ivs. q\<lparr> mq_monitor_intervals := ivs, mq_num_useful_intervals := 0,
                           mq_num_available_intervals := 0 \<rparr>)
       (pop_useful (mq_num_useful_intervals q) (mq_monitor_intervals q))"

definition mq_OnCongestionEvent ::
  "(monitor_queue \<Rightarrow> monitor_interval list \<Rightarrow> quic_time \<Rightarrow> 'd \<Rightarrow> 'd outcome)
     \<Rightarrow> congestion_event \<Rightarrow> monitor_queue \<Rightarrow> 'd \<Rightarrow> (monitor_queue \<times> 'd) outcome" where
  "mq_OnCongestionEvent deliver ev q0 d =
     (let q = q0\<lparr> mq_num_available_intervals := 0 \<rparr> in
      if mq_num_useful_intervals q = 0 then Inr (q, d)
      else bind_outcome
        (scan_intervals ev q (mq_burst_flag q) (mq_avg_interval_ratio q) 0
           (mq_monitor_intervals q))
        (\<lambda>r. let q1 = mq_store_scan ev r q in
           if mq_num_useful_intervals q1 > mq_num_available_intervals q1 \<and>
              \<not> sc_has_invalid_utility r
           then Inr (q1, d)
           else bind_outcome
             (if \<not> sc_has_invalid_utility r then mq_notify deliver ev q1 d else Inr d)
             (\<lambda>d'. map_outcome (\<lambda>q2. (q2, d')) (mq_drain q1))))"

definition mq_front :: "monitor_queue \<Rightarrow> monitor_interval outcome" where
  "mq_front q = (case mq_monitor_intervals q of [] \<Rightarrow> Inl Assert_Failed | iv # _ \<Rightarrow> Inr iv)"

definition mq_current :: "monitor_queue \<Rightarrow> monitor_interval outcome" where
  "mq_current q = (if mq_monitor_intervals q = [] then Inl Assert_Failed
                   else Inr (last (mq_monitor_intervals q)))"

definition mq_extend_current_interval :: "monitor_queue \<Rightarrow> monitor_queue outcome" where
  "mq_extend_current_interval q =
     (if mq_monitor_intervals q = [] then Inl Assert_Failed
      else Inr (q\<lparr> mq_monitor_intervals := butlast (mq_monitor_intervals q) @
             [(last (mq_monitor_intervals q))\<lparr> mi_is_monitor_duration_extended := True \<rparr>] \<rparr>))"

definition mq_empty :: "monitor_queue \<Rightarrow> bool" where
  "mq_empty q \<longleftrightarrow> mq_monitor_intervals q = []"

definition mq_size :: "monitor_queue \<Rightarrow> nat" where
  "mq_size q = length (mq_monitor_intervals q)"

definition mq_OnRttInflationInStarting :: "monitor_queue \<Rightarrow> monitor_queue" where
  "mq_OnRttInflationInStarting q =
     q\<lparr> mq_monitor_intervals := [], mq_num_useful_intervals := 0,
        mq_num_available_intervals := 0 \<rparr>"

subsection \<open>Invariants\<close>

text \<open>The counter of useful intervals counts them, and the counter of available ones never
  exceeds it.\<close>

definition mq_inv :: "monitor_queue \<Rightarrow> bool" where
  "mq_inv q \<longleftrightarrow> mq_num_useful_intervals q = length (useful_intervals q) \<and>
               mq_num_available_intervals q \<le> mq_num_useful_intervals q"

text \<open>An interval whose utility is available was sent at two different times at least.\<close>

definition mq_settled :: "monitor_queue \<Rightarrow> bool" where
  "mq_settled q \<longleftrightarrow> (\<forall>iv\<in>set (mq_monitor_intervals q).
     mi_is_useful iv \<longrightarrow> IsUtilityAvailable iv \<longrightarrow> \<not> HasInvalidUtility iv)"

text \<open>What the delegate may assume when it is called.\<close>

definition delivery_contract :: "monitor_queue \<Rightarrow> monitor_interval list \<Rightarrow> bool" where
  "delivery_contract q us \<longleftrightarrow>
     us = useful_intervals q \<and> us \<noteq> [] \<and> mq_num_useful_intervals q = length us \<and>
     (\<forall>iv\<in>set us. IsUtilityAvailable iv \<and> \<not> HasInvalidUtility iv)"

text \<open>The fields the loop of OnCongestionEvent leaves alone.\<close>

definition same_static :: "monitor_interval \<Rightarrow> monitor_interval \<Rightarrow> bool" where
  "same_static a b \<longleftrightarrow>
     mi_sending_rate b = mi_sending_rate a \<and> mi_is_useful b = mi_is_useful a \<and>
     mi_first_packet_sent_time b = mi_first_packet_sent_time a \<and>
     mi_last_packet_sent_time b = mi_last_packet_sent_time a \<and>
     mi_first_packet_number b = mi_first_packet_number a \<and>
     mi_last_packet_number b = mi_last_packet_number a \<and>
     mi_bytes_sent b = mi_bytes_sent a"

lemma same_static_refl [simp]: "same_static a a"
  by (simp add: same_static_def)

lemma same_static_trans: "same_static a b \<Longrightarrow> same_static b c \<Longrightarrow> same_static a c"
  by (simp add: same_static_def)

lemma same_static_useful: "same_static a b \<Longrightarrow> mi_is_useful b = mi_is_useful a"
  by (simp add: same_static_def)

lemma same_static_invalid: "same_static a b \<Longrightarrow> HasInvalidUtility b = HasInvalidUtility a"
  by (simp add: same_static_def HasInvalidUtility_def)

lemma interval_on_lost_static [simp]: "same_static iv (interval_on_lost iv p)"
  by (simp add: interval_on_lost_def same_static_def)

lemma interval_on_acked_static: "same_static iv (fst (interval_on_acked ev q (iv, b, a) p))"
  by (simp add: interval_on_acked_def same_static_def Let_def split: prod.splits)

lemma foldl_lost_static: "same_static iv (foldl interval_on_lost iv ps)"
proof (induction ps arbitrary: iv)
  case Nil
  then show ?case by simp
next
  case (Cons p ps)
  then show ?case using same_static_trans interval_on_lost_static by (metis foldl_Cons)
qed

lemma foldl_acked_static:
  "same_static (fst st) (fst (foldl (interval_on_acked ev q) st ps))"
proof (induction ps arbitrary: st)
  case Nil
  then show ?case by simp
next
  case (Cons p ps)
  obtain iv b a where "st = (iv, b, a)" by (cases st) auto
  then have "same_static (fst st) (fst (interval_on_acked ev q st p))"
    by (simp add: interval_on_acked_static)
  then show ?case using Cons [of "interval_on_acked ev q st p"] same_static_trans by simp
qed

lemma interval_update_static:
  assumes "interval_update ev q b a iv = (iv', b', a')"
  shows "same_static iv iv'"
  using foldl_acked_static [of "(foldl interval_on_lost iv (ce_lost_packets ev), b, a)" ev q
      "mq_pending_acked_packets q"] foldl_lost_static [of iv "ce_lost_packets ev"] assms
  by (auto simp: interval_update_def intro: same_static_trans)

subsection \<open>The scan\<close>

text \<open>How the scan changes one interval: not at all, or a useful interval whose utility was
  not available collects its acknowledgements.\<close>

definition scanned :: "bool \<Rightarrow> monitor_interval \<Rightarrow> monitor_interval \<Rightarrow> bool" where
  "scanned invalid a b \<longleftrightarrow> a = b \<or>
     (mi_is_useful a \<and> \<not> IsUtilityAvailable a \<and> same_static a b \<and>
      (IsUtilityAvailable b \<longrightarrow> \<not> HasInvalidUtility b \<or> invalid))"

abbreviation available_useful :: "monitor_interval \<Rightarrow> bool" where
  "available_useful iv \<equiv> mi_is_useful iv \<and> IsUtilityAvailable iv"

lemma monitor_end_update [simp]:
  "IsUtilityAvailable (iv\<lparr> mi_rtt_on_monitor_end := x, mi_min_rtt := y \<rparr>) = IsUtilityAvailable iv"
  "same_static a (iv\<lparr> mi_rtt_on_monitor_end := x, mi_min_rtt := y \<rparr>) = same_static a iv"
  "HasInvalidUtility (iv\<lparr> mi_rtt_on_monitor_end := x, mi_min_rtt := y \<rparr>) = HasInvalidUtility iv"
  by (simp_all add: IsUtilityAvailable_def same_static_def HasInvalidUtility_def)

lemma sc_cons_simps [simp]:
  "sc_burst_flag (sc_cons iv r) = sc_burst_flag r"
  "sc_avg_interval_ratio (sc_cons iv r) = sc_avg_interval_ratio r"
  "sc_num_available (sc_cons iv r) = sc_num_available r"
  "sc_has_invalid_utility (sc_cons iv r) = sc_has_invalid_utility r"
  "sc_intervals (sc_cons iv r) = iv # sc_intervals r"
  by (simp_all add: sc_cons_def)

definition scan_ok :: "nat \<Rightarrow> nat \<Rightarrow> monitor_interval list \<Rightarrow> scan_result \<Rightarrow> bool" where
  "scan_ok cap nav ivs r \<longleftrightarrow>
     list_all2 (scanned (sc_has_invalid_utility r)) ivs (sc_intervals r) \<and>
     sc_num_available r \<le> cap \<and>
     (\<not> sc_has_invalid_utility r \<longrightarrow>
        sc_num_available r = nav + length (filter available_useful (sc_intervals r)))"

lemma scanned_refl [simp]: "scanned i a a"
  by (simp add: scanned_def)

lemma scan_ok_cons:
  assumes "scan_ok cap nav' ivs r" "scanned (sc_has_invalid_utility r) iv iv'"
    and "nav' = (if available_useful iv' then Suc nav else nav)"
  shows "scan_ok cap nav (iv # ivs) (sc_cons iv' r)"
  using assms by (auto simp: scan_ok_def)

lemma scan_intervals_ok:
  assumes "nav + length (filter mi_is_useful ivs) \<le> mq_num_useful_intervals q"
  shows "\<exists>r. scan_intervals ev q b a nav ivs = Inr r \<and> scan_ok (mq_num_useful_intervals q) nav ivs r"
  using assms
proof (induction ev q b a nav ivs rule: scan_intervals.induct)
  case (1 ev q burst avg nav)
  then show ?case by (simp add: scan_ok_def)
next
  case (2 ev q burst avg nav iv ivs)
  obtain iv1 b1 a1 where u: "interval_update ev q burst avg iv = (iv1, b1, a1)"
    by (cases "interval_update ev q burst avg iv") auto
  note st = interval_update_static [OF u]
  let ?iv2 = "iv1\<lparr> mi_rtt_on_monitor_end := ce_avg_rtt ev, mi_min_rtt := ce_min_rtt ev \<rparr>"
  consider "\<not> mi_is_useful iv" | "available_useful iv"
    | "mi_is_useful iv" "\<not> IsUtilityAvailable iv" "\<not> IsUtilityAvailable iv1"
    | "mi_is_useful iv" "\<not> IsUtilityAvailable iv" "IsUtilityAvailable iv1" "HasInvalidUtility iv1"
    | "mi_is_useful iv" "\<not> IsUtilityAvailable iv" "IsUtilityAvailable iv1" "\<not> HasInvalidUtility iv1"
    by blast
  then show ?case
  proof cases
    case 1
    then show ?thesis using "2.IH"(1) "2.prems" by (fastforce intro: scan_ok_cons)
  next
    case 2
    then show ?thesis using "2.IH"(2) "2.prems" by (fastforce intro: scan_ok_cons)
  next
    case 3
    then obtain r where r: "scan_intervals ev q b1 a1 nav ivs = Inr r"
        "scan_ok (mq_num_useful_intervals q) nav ivs r"
      using "2.IH"(4) [OF _ _ u [symmetric]] "2.prems" by auto
    have "scanned (sc_has_invalid_utility r) iv iv1" using 3 st by (simp add: scanned_def)
    then show ?thesis using 3 u r by (auto intro!: scan_ok_cons)
  next
    case 4
    have "scan_ok (mq_num_useful_intervals q) nav (iv # ivs)
        \<lparr> sc_burst_flag = b1, sc_avg_interval_ratio = a1, sc_num_available = nav,
          sc_has_invalid_utility = True, sc_intervals = ?iv2 # ivs \<rparr>"
      using 4 st "2.prems" by (simp add: scan_ok_def scanned_def list_all2_refl)
    then show ?thesis using 4 u by (simp add: Let_def)
  next
    case 5
    then obtain r where r: "scan_intervals ev q b1 a1 (Suc nav) ivs = Inr r"
        "scan_ok (mq_num_useful_intervals q) (Suc nav) ivs r"
      using "2.IH"(3) [OF _ _ u [symmetric]] "2.prems" by (auto simp: Let_def)
    have "scanned (sc_has_invalid_utility r) iv ?iv2" using 5 st by (simp add: scanned_def)
    moreover have "available_useful ?iv2" using 5 st by (simp add: same_static_useful)
    ultimately have "scan_ok (mq_num_useful_intervals q) nav (iv # ivs) (sc_cons ?iv2 r)"
      using r by (intro scan_ok_cons) auto
    then show ?thesis using 5 u r "2.prems" by (simp add: Let_def)
  qed
qed

lemma list_all2_scanned_useful:
  "list_all2 (scanned i) xs ys \<Longrightarrow> map mi_is_useful ys = map mi_is_useful xs"
  by (induction rule: list_all2_induct) (auto simp: scanned_def same_static_useful)

lemma useful_flags_length:
  "map mi_is_useful ys = map mi_is_useful xs \<Longrightarrow>
     length (filter mi_is_useful ys) = length (filter mi_is_useful xs)"
proof (induction ys arbitrary: xs)
  case (Cons y ys)
  then show ?case by (cases xs) auto
qed simp

lemma list_all2_scanned_valid:
  assumes "list_all2 (scanned False) xs ys"
    and "\<forall>x\<in>set xs. mi_is_useful x \<longrightarrow> IsUtilityAvailable x \<longrightarrow> \<not> HasInvalidUtility x"
  shows "\<forall>y\<in>set ys. mi_is_useful y \<longrightarrow> IsUtilityAvailable y \<longrightarrow> \<not> HasInvalidUtility y"
  using assms by (induction rule: list_all2_induct) (auto simp: scanned_def)

subsection \<open>Draining\<close>

lemma pop_useful_total:
  "n \<le> length (filter mi_is_useful ivs) \<Longrightarrow> \<exists>rest. pop_useful n ivs = Inr rest"
  by (induction n ivs rule: pop_useful.induct) (auto split: if_splits)

lemma pop_useful_suffix:
  "pop_useful n ivs = Inr rest \<Longrightarrow>
     \<exists>pre. ivs = pre @ rest \<and> length (filter mi_is_useful pre) = n"
proof (induction n ivs rule: pop_useful.induct)
  case (3 n iv ivs)
  then obtain pre where "ivs = pre @ rest"
      "length (filter mi_is_useful pre) = (if mi_is_useful iv then n else Suc n)"
    by auto
  then show ?case by (intro exI [of _ "iv # pre"]) auto
qed simp_all

lemma mq_drain_all:
  assumes "mq_num_useful_intervals q = length (useful_intervals q)"
  shows "\<exists>rest pre. mq_drain q = Inr (q\<lparr> mq_monitor_intervals := rest,
             mq_num_useful_intervals := 0, mq_num_available_intervals := 0 \<rparr>) \<and>
           mq_monitor_intervals q = pre @ rest \<and> filter mi_is_useful rest = []"
proof -
  obtain rest where r: "pop_useful (mq_num_useful_intervals q) (mq_monitor_intervals q) = Inr rest"
    using pop_useful_total assms by (fastforce simp: useful_intervals_def)
  obtain pre where p: "mq_monitor_intervals q = pre @ rest"
      "length (filter mi_is_useful pre) = mq_num_useful_intervals q"
    using pop_useful_suffix [OF r] by blast
  then have "filter mi_is_useful rest = []"
    using assms by (simp add: useful_intervals_def)
  then show ?thesis using r p by (auto simp: mq_drain_def)
qed

subsection \<open>The outcomes of a congestion event\<close>

definition mq_kept :: "monitor_queue \<Rightarrow> monitor_queue \<Rightarrow> bool" where
  "mq_kept q q' \<longleftrightarrow>
     list_all2 same_static (mq_monitor_intervals q) (mq_monitor_intervals q') \<and>
     mq_num_useful_intervals q' = mq_num_useful_intervals q"

definition mq_drained :: "monitor_queue \<Rightarrow> monitor_queue \<Rightarrow> bool" where
  "mq_drained q q' \<longleftrightarrow>
     useful_intervals q' = [] \<and> mq_num_useful_intervals q' = 0 \<and>
     mq_num_available_intervals q' = 0 \<and>
     (\<exists>pre rest. mq_monitor_intervals q' = rest \<and>
        list_all2 same_static (mq_monitor_intervals q) (pre @ rest))"

lemma list_all2_same_static_refl [simp]: "list_all2 same_static xs xs"
  by (simp add: list_all2_refl)

lemma scanned_static: "scanned i a b \<Longrightarrow> same_static a b"
  by (auto simp: scanned_def)

lemma mq_store_scan_simps [simp]:
  "mq_monitor_intervals (mq_store_scan ev r q) = sc_intervals r"
  "mq_num_useful_intervals (mq_store_scan ev r q) = mq_num_useful_intervals q"
  "mq_num_available_intervals (mq_store_scan ev r q) = sc_num_available r"
  by (simp_all add: mq_store_scan_def)

lemma filter_available_le:
  "length (filter available_useful xs) \<le> length (filter mi_is_useful xs)"
  by (induction xs) auto

lemma all_available_of_counts:
  assumes "length (filter mi_is_useful xs) \<le> length (filter available_useful xs)"
  shows "\<forall>x\<in>set xs. mi_is_useful x \<longrightarrow> IsUtilityAvailable x"
proof (intro ballI impI, rule ccontr)
  fix x assume x: "x \<in> set xs" "mi_is_useful x" "\<not> IsUtilityAvailable x"
  then have "length (filter IsUtilityAvailable (filter mi_is_useful xs))
      < length (filter mi_is_useful xs)"
    by (intro length_filter_less [of x]) auto
  then show False using assms unfolding filter_filter by linarith
qed

lemma filter_available_of_all:
  "\<forall>x\<in>set xs. mi_is_useful x \<longrightarrow> IsUtilityAvailable x \<Longrightarrow>
     filter available_useful xs = filter mi_is_useful xs"
  by (induction xs) auto

text \<open>The three ways a congestion event ends, for any delegate: the queue is kept and waits;
  it is drained because an interval turned out invalid; or the delegate is called, under the
  delivery contract, and the queue is drained after it returns.\<close>

definition mq_delivers ::
  "congestion_event \<Rightarrow> monitor_queue \<Rightarrow> monitor_queue \<Rightarrow> monitor_queue \<Rightarrow> bool" where
  "mq_delivers ev q q1 q2 \<longleftrightarrow>
     mq_kept q q1 \<and> mq_drained q1 q2 \<and> useful_intervals q1 \<noteq> [] \<and>
     mq_num_useful_intervals q1 = length (useful_intervals q1) \<and>
     (\<forall>iv\<in>set (useful_intervals q1). IsUtilityAvailable iv) \<and>
     (mq_settled q \<longrightarrow> delivery_contract q1 (useful_intervals q1))"

lemma mq_drain_drained:
  assumes "mq_num_useful_intervals q = length (useful_intervals q)"
  shows "\<exists>q2. mq_drain q = Inr q2 \<and> mq_drained q q2"
proof -
  obtain rest pre where r: "mq_drain q = Inr (q\<lparr> mq_monitor_intervals := rest,
             mq_num_useful_intervals := 0, mq_num_available_intervals := 0 \<rparr>)"
      "mq_monitor_intervals q = pre @ rest" "filter mi_is_useful rest = []"
    using mq_drain_all [OF assms] by blast
  have "list_all2 same_static (mq_monitor_intervals q) (pre @ rest)"
    unfolding r(2) by (rule list_all2_same_static_refl)
  then have "mq_drained q (q\<lparr> mq_monitor_intervals := rest,
             mq_num_useful_intervals := 0, mq_num_available_intervals := 0 \<rparr>)"
    using r(3) unfolding mq_drained_def useful_intervals_def by (simp del: list_all2_append2) blast
  then show ?thesis using r(1) by blast
qed

lemma mq_drained_kept:
  assumes "mq_kept q q1" "mq_drained q1 q2"
  shows "mq_drained q q2"
proof -
  obtain pre where "list_all2 same_static (mq_monitor_intervals q1) (pre @ mq_monitor_intervals q2)"
    using assms(2) by (auto simp: mq_drained_def)
  then have "list_all2 same_static (mq_monitor_intervals q) (pre @ mq_monitor_intervals q2)"
    using assms(1) list_all2_trans [of same_static same_static same_static] same_static_trans
    unfolding mq_kept_def by blast
  then show ?thesis using assms(2) by (auto simp: mq_drained_def)
qed

lemma mq_congestion_cases:
  assumes inv: "mq_inv q"
  obtains (kept) q' where "mq_inv q'" "mq_kept q q'" "mq_settled q \<longrightarrow> mq_settled q'"
      "\<And>deliver (d::'d). mq_OnCongestionEvent deliver ev q d = Inr (q', d)"
    | (invalid) q' where "mq_drained q q'"
      "\<And>deliver (d::'d). mq_OnCongestionEvent deliver ev q d = Inr (q', d)"
    | (delivers) q1 q2 where "mq_delivers ev q q1 q2"
      "\<And>deliver (d::'d). mq_OnCongestionEvent deliver ev q d =
         map_outcome (\<lambda>d'. (q2, d')) (deliver q1 (useful_intervals q1) (ce_event_time ev) d)"
proof -
  let ?q = "q\<lparr> mq_num_available_intervals := 0 \<rparr>"
  let ?n = "mq_num_useful_intervals q"
  show thesis
  proof (cases "?n = 0")
    case True
    then show thesis using kept [of ?q] inv
      by (simp add: mq_inv_def mq_kept_def mq_settled_def mq_OnCongestionEvent_def useful_intervals_def)
  next
    case False
    have n: "?n = length (filter mi_is_useful (mq_monitor_intervals q))"
      using inv by (simp add: mq_inv_def useful_intervals_def)
    obtain r where r: "scan_intervals ev ?q (mq_burst_flag q) (mq_avg_interval_ratio q) 0
          (mq_monitor_intervals q) = Inr r"
        and ok: "scan_ok ?n 0 (mq_monitor_intervals q) r"
      using scan_intervals_ok [where nav = 0 and q = ?q and ivs = "mq_monitor_intervals q"] n
      by fastforce
    let ?i = "sc_has_invalid_utility r"
    let ?q1 = "mq_store_scan ev r ?q"
    have sc: "list_all2 (scanned ?i) (mq_monitor_intervals q) (sc_intervals r)"
      using ok by (simp add: scan_ok_def)
    have static: "list_all2 same_static (mq_monitor_intervals q) (sc_intervals r)"
      using sc by (rule list_all2_mono) (rule scanned_static)
    have k: "mq_kept q ?q1" using static by (simp add: mq_kept_def)
    have n1: "mq_num_useful_intervals ?q1 = length (useful_intervals ?q1)"
      using n useful_flags_length [OF list_all2_scanned_useful [OF sc]]
      by (simp add: useful_intervals_def)
    obtain q2 where q2: "mq_drain ?q1 = Inr q2" "mq_drained ?q1 q2"
      using mq_drain_drained [OF n1] by blast
    have run: "mq_OnCongestionEvent deliver ev q d =
       (if sc_num_available r < ?n \<and> \<not> ?i then Inr (?q1, d)
        else bind_outcome (if \<not> ?i then mq_notify deliver ev ?q1 d else Inr d)
               (\<lambda>d'. map_outcome (\<lambda>q2. (q2, d')) (mq_drain ?q1)))" for deliver and d :: 'd
      using False r by (simp add: mq_OnCongestionEvent_def Let_def)
    show thesis
    proof (cases ?i)
      case True
      then show thesis using run q2 mq_drained_kept [OF k] by (intro invalid [of q2]) simp_all
    next
      case valid: False
      have av: "sc_num_available r = length (filter available_useful (sc_intervals r))"
        and le: "sc_num_available r \<le> ?n" using ok valid by (simp_all add: scan_ok_def)
      have set1: "mq_settled q \<longrightarrow> mq_settled ?q1"
        using list_all2_scanned_valid sc valid by (simp add: mq_settled_def)
      show thesis
      proof (cases "sc_num_available r < ?n")
        case True
        then show thesis using run valid k n1 le set1
          by (intro kept [of ?q1]) (simp_all add: mq_inv_def)
      next
        case False
        then have "length (filter mi_is_useful (sc_intervals r))
            \<le> length (filter available_useful (sc_intervals r))"
          using av n1 unfolding useful_intervals_def mq_store_scan_simps by simp
        then have all: "\<forall>iv\<in>set (sc_intervals r). mi_is_useful iv \<longrightarrow> IsUtilityAvailable iv"
          by (rule all_available_of_counts)
        have ne: "useful_intervals ?q1 \<noteq> []" using n1 \<open>?n \<noteq> 0\<close> by auto
        have "sc_num_available r = length (useful_intervals ?q1)"
          using av filter_available_of_all [OF all] by (simp add: useful_intervals_def)
        then have "mq_OnCongestionEvent deliver ev q d =
           map_outcome (\<lambda>d'. (q2, d')) (deliver ?q1 (useful_intervals ?q1) (ce_event_time ev) d)"
          for deliver and d :: 'd
          using run [of deliver d] False valid \<open>?n \<noteq> 0\<close> q2
          by (cases "deliver ?q1 (useful_intervals ?q1) (ce_event_time ev) d")
            (simp_all add: mq_notify_def)
        moreover have "mq_delivers ev q ?q1 q2"
          using k q2 ne n1 all set1
          by (auto simp: mq_delivers_def delivery_contract_def mq_settled_def useful_intervals_def)
        ultimately show thesis by (intro delivers [of ?q1 q2])
      qed
    qed
  qed
qed

subsection \<open>Preservation by the other operations\<close>

text \<open>The bytes of an interval are accounted for: no more are acked and lost than were sent.\<close>

definition interval_accounted :: "monitor_interval \<Rightarrow> bool" where
  "interval_accounted iv \<longleftrightarrow> 0 \<le> mi_bytes_acked iv \<and> 0 \<le> mi_bytes_lost iv \<and>
     mi_bytes_acked iv + mi_bytes_lost iv \<le> mi_bytes_sent iv \<and>
     mi_bytes_sent iv < 18446744073709551616"

definition mq_accounted :: "monitor_queue \<Rightarrow> bool" where
  "mq_accounted q \<longleftrightarrow> (\<forall>iv\<in>set (mq_monitor_intervals q). interval_accounted iv)"

lemma mq_inv_new [step_inv]: "mq_inv mq_new" "mq_settled mq_new" "mq_accounted mq_new"
  by (simp_all add: mq_inv_def mq_new_def useful_intervals_def mq_settled_def mq_accounted_def)

lemma mq_inv_enqueue [step_inv]:
  "mq_inv q \<Longrightarrow> mq_inv (mq_EnqueueNewMonitorInterval r u t rtt q)"
  by (simp add: mq_inv_def mq_EnqueueNewMonitorInterval_def useful_intervals_def
      new_monitor_interval_def)

lemma new_interval_not_available [simp]: "\<not> IsUtilityAvailable (new_monitor_interval r u t rtt)"
  by (simp add: IsUtilityAvailable_def new_monitor_interval_def)

lemma mq_settled_enqueue [step_inv]:
  "mq_settled q \<Longrightarrow> mq_settled (mq_EnqueueNewMonitorInterval r u t rtt q)"
  by (auto simp: mq_settled_def mq_EnqueueNewMonitorInterval_def)

lemma mq_accounted_enqueue [step_inv]:
  "mq_accounted q \<Longrightarrow> mq_accounted (mq_EnqueueNewMonitorInterval r u t rtt q)"
  by (auto simp: mq_accounted_def mq_EnqueueNewMonitorInterval_def interval_accounted_def
      new_monitor_interval_def)

lemma interval_on_packet_sent_useful [simp]:
  "mi_is_useful (interval_on_packet_sent t p b s iv) = mi_is_useful iv"
  by (simp add: interval_on_packet_sent_def Let_def)

lemma filter_butlast_last:
  "xs \<noteq> [] \<Longrightarrow> P y = P (last xs) \<Longrightarrow>
     length (filter P (butlast xs @ [y])) = length (filter P xs)"
  by (metis append_butlast_last_id filter.simps(1) filter.simps(2) filter_append length_append
      length_Cons)

lemma mq_inv_packet_sent [step_inv]: "mq_inv q \<Longrightarrow> mq_inv (mq_OnPacketSent t p b s q)"
  using filter_butlast_last [of "mq_monitor_intervals q" mi_is_useful]
  by (cases "mq_monitor_intervals q = []")
    (simp_all add: mq_inv_def mq_OnPacketSent_def useful_intervals_def)

lemma interval_sent_accounted:
  assumes "interval_accounted iv" "0 < bytes" "mi_bytes_sent iv + bytes < 18446744073709551616"
  shows "interval_accounted (interval_on_packet_sent t p bytes s iv)"
    "\<not> IsUtilityAvailable (interval_on_packet_sent t p bytes s iv)"
  using assms
  by (auto simp: interval_accounted_def interval_on_packet_sent_def IsUtilityAvailable_def Let_def)

lemma mq_settled_packet_sent [step_inv]:
  assumes "mq_settled q" "mq_accounted q" "0 < bytes"
    and "\<forall>iv\<in>set (mq_monitor_intervals q). mi_bytes_sent iv + bytes < 18446744073709551616"
  shows "mq_settled (mq_OnPacketSent t p bytes s q)" "mq_accounted (mq_OnPacketSent t p bytes s q)"
  using assms interval_sent_accounted
  by (auto simp: mq_settled_def mq_accounted_def mq_OnPacketSent_def dest: in_set_butlastD)

lemma mq_inv_extend [step_inv]:
  assumes "mq_inv q" "mq_extend_current_interval q = Inr q'"
  shows "mq_inv q'"
  using assms filter_butlast_last [of "mq_monitor_intervals q" mi_is_useful]
  by (auto simp: mq_inv_def mq_extend_current_interval_def useful_intervals_def split: if_splits)

lemma extend_interval_simps [simp]:
  "IsUtilityAvailable (iv\<lparr> mi_is_monitor_duration_extended := b \<rparr>) = IsUtilityAvailable iv"
  "HasInvalidUtility (iv\<lparr> mi_is_monitor_duration_extended := b \<rparr>) = HasInvalidUtility iv"
  "interval_accounted (iv\<lparr> mi_is_monitor_duration_extended := b \<rparr>) = interval_accounted iv"
  by (simp_all add: IsUtilityAvailable_def HasInvalidUtility_def interval_accounted_def)

lemma mq_settled_extend [step_inv]:
  assumes "mq_extend_current_interval q = Inr q'"
  shows "mq_settled q \<Longrightarrow> mq_settled q'" "mq_accounted q \<Longrightarrow> mq_accounted q'"
  using assms in_set_butlastD [of _ "mq_monitor_intervals q"]
  by (auto simp: mq_settled_def mq_accounted_def mq_extend_current_interval_def
      split: if_splits)

lemma mq_inv_inflation [step_inv]:
  "mq_inv (mq_OnRttInflationInStarting q)" "mq_settled (mq_OnRttInflationInStarting q)"
  "mq_accounted (mq_OnRttInflationInStarting q)"
  by (simp_all add: mq_inv_def mq_OnRttInflationInStarting_def useful_intervals_def
      mq_settled_def mq_accounted_def)

lemma mq_drained_inv: "mq_drained q q' \<Longrightarrow> mq_inv q' \<and> mq_settled q'"
  by (auto simp: mq_drained_def mq_inv_def mq_settled_def useful_intervals_def filter_empty_conv)

subsection \<open>The contract between the queue and its delegate\<close>

text \<open>A delegate is ready for a queue when it accepts the useful intervals that queue will
  deliver; readiness only depends on what the queue keeps between congestion events.\<close>

locale interval_delegate =
  fixes deliver :: "monitor_queue \<Rightarrow> monitor_interval list \<Rightarrow> quic_time \<Rightarrow> 'd \<Rightarrow> 'd outcome"
    and ready :: "monitor_queue \<Rightarrow> 'd \<Rightarrow> bool"
    and idle :: "'d \<Rightarrow> bool"
  assumes deliver_law: "delivery_contract q us \<Longrightarrow> ready q d \<Longrightarrow>
      \<exists>d'. deliver q us t d = Inr d' \<and> idle d'"
    and ready_kept: "mq_kept q q' \<Longrightarrow> ready q d \<Longrightarrow> ready q' d"
    and ready_idle: "ready q d \<Longrightarrow> idle d"
begin

lemma congestion_event_total:
  assumes "mq_inv q" "mq_settled q" "ready q d"
  shows "\<exists>q' d'. mq_OnCongestionEvent deliver ev q d = Inr (q', d') \<and> mq_inv q' \<and> mq_settled q' \<and>
     (mq_drained q q' \<and> idle d' \<or> mq_kept q q' \<and> d' = d)"
  using assms(1)
proof (cases rule: mq_congestion_cases [where 'd = 'd and ev = ev])
  case (kept q')
  then show ?thesis using assms by auto
next
  case (invalid q')
  then show ?thesis using assms mq_drained_inv ready_idle by auto
next
  case (delivers q1 q2)
  then have c: "delivery_contract q1 (useful_intervals q1)" and k: "mq_kept q q1"
    and dr: "mq_drained q1 q2"
    using assms by (simp_all add: mq_delivers_def)
  obtain d' where "deliver q1 (useful_intervals q1) (ce_event_time ev) d = Inr d'" "idle d'"
    using deliver_law [OF c ready_kept [OF k assms(3)]] by blast
  then show ?thesis
    using delivers(2) mq_drained_inv [OF dr] mq_drained_kept [OF k dr] by auto
qed

end

subsection \<open>Properties\<close>

text \<open>A queue whose only useful interval, packets 1 and 2 of 1000 bytes, misses the
  acknowledgement of packet 2, which is pending; and the event that processes it.\<close>

definition sample_queue :: monitor_queue where
  "sample_queue = mq_new\<lparr> mq_num_useful_intervals := 1, mq_pending_rtt := 100,
     mq_pending_avg_rtt := 90, mq_pending_ack_interval := 0, mq_pending_event_time := 300,
     mq_pending_acked_packets :=
       [\<lparr> ap_packet_number = 2, ap_bytes_acked = 1000, ap_receive_timestamp = 300 \<rparr>],
     mq_monitor_intervals :=
       [(new_monitor_interval 4000000 True (Fin 1) 90)\<lparr> mi_first_packet_sent_time := 10,
          mi_last_packet_sent_time := 20, mi_first_packet_number := 1, mi_last_packet_number := 2,
          mi_bytes_sent := 2000, mi_bytes_acked := 1000, mi_num_reliable_rtt := 4,
          mi_has_enough_reliable_rtt := True \<rparr>,
        new_monitor_interval 5000000 False (Fin 1) 90] \<rparr>"

definition sample_event :: congestion_event where
  "sample_event = \<lparr> ce_acked_packets = [], ce_lost_packets = [], ce_avg_rtt = 95,
     ce_latest_rtt = 99, ce_min_rtt = 80, ce_event_time = 400, ce_ack_interval = 2000 \<rparr>"

text \<open>C17: whenever OnCongestionEvent calls its delegate, it hands over all the useful
  intervals of the queue, at least one, each with an available and valid utility (its first and
  last packets were sent at different times): a delegate that checks this contract and aborts
  when it is broken behaves like one that does not.\<close>

theorem mq_delegate_contract:
  assumes "mq_inv q" "mq_settled q"
  shows "mq_OnCongestionEvent deliver ev q d =
         mq_OnCongestionEvent (\<lambda>q1 us t d1. if delivery_contract q1 us then deliver q1 us t d1
                                          else Inl Exit_Called) ev q d"
  using assms(1)
  by (cases rule: mq_congestion_cases [where 'd = 'a and ev = ev])
    (use assms(2) in \<open>auto simp: mq_delivers_def\<close>)

theorem mq_delegate_contract_witness:
  "mq_inv sample_queue \<and> mq_settled sample_queue \<and>
   map_outcome snd (mq_OnCongestionEvent (\<lambda>q1 us t n. if delivery_contract q1 us
     then Inr (n + length us) else Inl Exit_Called) sample_event sample_queue 0) = Inr 1"
proof -
  have q: "mq_inv sample_queue" "mq_settled sample_queue"
    unfolding mq_inv_def mq_settled_def by code_simp+
  have "map_outcome snd (mq_OnCongestionEvent (\<lambda>q1 us t n. Inr (n + length us))
      sample_event sample_queue 0) = Inr 1"
    by code_simp
  then show ?thesis
    using q mq_delegate_contract [OF q, of "\<lambda>q1 us t n. Inr (n + length us)" sample_event 0] by simp
qed

text \<open>C18: no assertion of OnCongestionEvent fires and the deque is never popped when empty:
  when the counter of useful intervals is right, an error of the event is an error of the
  delegate, called with the useful intervals of the queue.\<close>

theorem mq_only_delegate_fails:
  assumes "mq_inv q" "mq_OnCongestionEvent deliver ev q d = Inl e"
  shows "\<exists>q1. deliver q1 (useful_intervals q1) (ce_event_time ev) d = Inl e"
  using assms(1)
  by (cases rule: mq_congestion_cases [where 'd = 'a and ev = ev])
    (use assms(2) in auto)

theorem mq_only_delegate_fails_witness:
  "\<exists>q1. (\<lambda>q1 us t d. if us = [] then Inr d else Inl Div_By_Zero) q1 (useful_intervals q1)
     (ce_event_time sample_event) () = Inl Div_By_Zero"
proof (rule mq_only_delegate_fails)
  show "mq_inv sample_queue" unfolding mq_inv_def by code_simp
  show "mq_OnCongestionEvent (\<lambda>q1 us t d. if us = [] then Inr d else Inl Div_By_Zero)
      sample_event sample_queue () = Inl Div_By_Zero"
    by code_simp
qed

text \<open>A congestion event either keeps every interval (its packets, rate and usefulness) and
  leaves the delegate's state alone, or drains the queue: what remains is a suffix of the old
  queue without useful intervals, and both counters are zero.\<close>

theorem mq_kept_or_drained:
  assumes "mq_inv q" "mq_OnCongestionEvent deliver ev q d = Inr (q', d')"
  shows "mq_inv q' \<and> (mq_kept q q' \<and> d' = d \<or> mq_drained q q')"
  using assms(1)
proof (cases rule: mq_congestion_cases [where 'd = 'a and ev = ev])
  case (delivers q1 q2)
  then have "mq_drained q q2" using mq_drained_kept by (auto simp: mq_delivers_def)
  then show ?thesis using delivers assms(2) mq_drained_inv by auto
qed (use assms(2) mq_drained_inv in auto)

theorem mq_kept_or_drained_witness:
  "mq_inv (mq_OnPacketSent 30 3 500 10 sample_queue) \<and>
   (\<exists>q'. mq_OnCongestionEvent (\<lambda>q us t d. Inr (Suc d)) sample_event
       (mq_OnPacketSent 30 3 500 10 sample_queue) 0 = Inr (q', 1) \<and>
      mq_drained (mq_OnPacketSent 30 3 500 10 sample_queue) q')"
proof -
  let ?q = "mq_OnPacketSent 30 3 500 10 sample_queue"
  have i: "mq_inv ?q" unfolding mq_inv_def by code_simp
  have "map_outcome snd (mq_OnCongestionEvent (\<lambda>q us t d. Inr (Suc d)) sample_event ?q 0) = Inr 1"
    by code_simp
  then obtain q' where q': "mq_OnCongestionEvent (\<lambda>q us t d. Inr (Suc d)) sample_event ?q 0 = Inr (q', 1)"
    by auto
  then show ?thesis using i mq_kept_or_drained [OF i q'] by auto
qed

end
