(* ===== verification/Utility_Manager.thy ===== *)
theory Utility_Manager
  imports Monitor_Queue
begin

text \<open>The utility of a monitor interval, src/pcc/pcc_utility_manager.{h,cpp}: statistics of the
  interval (duration, loss rate, RTT gradient by linear regression and its error, RTT
  deviation), the trend of these over the last six intervals, which decides whether an RTT
  inflation or fluctuation is tolerated, and the utility functions selected by a tag.

  Every float and double expression keeps its C++ type: a double literal makes an expression
  double, an assignment to a float rounds it back.  The overloads of pow and exp are those of
  the C++ library (float arguments give float results).  The fields of IntervalStats have no
  initial value in the code; \<open>um_new\<close> takes them as an argument.\<close>

subsection \<open>Constants\<close>

definition kMaxPacketSize :: int where "kMaxPacketSize = 1500"
definition kBitsPerByte :: int where "kBitsPerByte = 8"
definition kRttHistoryLen :: nat where "kRttHistoryLen = 6"
definition kLossTolerance :: fp where "kLossTolerance = f_lit (5 / 100)"
definition kLossCoefficient :: fp where "kLossCoefficient = Fin (-1000)"
definition kRTTCoefficient :: fp where "kRTTCoefficient = Fin (-200)"
definition kSendingRateExponent :: fp where "kSendingRateExponent = f_lit (9 / 10)"
definition kVivaceLossCoefficient :: fp where "kVivaceLossCoefficient = f_lit (1135 / 100)"
definition kLatencyCoefficient :: fp where "kLatencyCoefficient = Fin 900"
definition kRttDeviationCoefficient :: fp where "kRttDeviationCoefficient = f_lit (15 / 10000)"
definition kHybridUtilityRateTransformFactor :: fp where
  "kHybridUtilityRateTransformFactor = f_lit (1 / 10)"
definition kAlpha :: fp where "kAlpha = f_lit (1 / 10)"
definition kBeta :: fp where "kBeta = Fin 100"
definition kTrendingResetIntervalRatio :: fp where "kTrendingResetIntervalRatio = f_lit (95 / 100)"
definition kInflationToleranceGainHigh :: fp where "kInflationToleranceGainHigh = Fin 2"
definition kInflationToleranceGainLow :: fp where "kInflationToleranceGainLow = Fin 2"
definition kLostPacketTolerance :: int where "kLostPacketTolerance = 10"

subsection \<open>State\<close>

record interval_stats =
  st_interval_duration :: fp
  st_rtt_ratio :: fp
  st_marked_lost_bytes :: int
  st_loss_rate :: fp
  st_actual_sending_rate_mbps :: fp
  st_ack_rate_mbps :: fp
  st_avg_rtt :: fp
  st_rtt_dev :: fp
  st_min_rtt :: fp
  st_max_rtt :: fp
  st_approx_rtt_gradient :: fp
  st_rtt_gradient :: fp
  st_rtt_gradient_cut :: fp
  st_rtt_gradient_error :: fp
  st_trending_gradient :: fp
  st_trending_gradient_cut :: fp
  st_trending_gradient_error :: fp
  st_trending_deviation :: fp

record utility_manager =
  um_utility_tag :: string
  um_effective_utility_tag :: string
  um_utility_parameters :: "fp list"
  um_stats :: interval_stats
  um_lost_bytes_tolerance_quota :: int
  um_avg_mi_rtt_dev :: fp
  um_dev_mi_rtt_dev :: fp
  um_min_rtt :: fp
  um_mi_avg_rtt_history :: "fp list"
  um_avg_trending_gradient :: fp
  um_min_trending_gradient :: fp
  um_dev_trending_gradient :: fp
  um_last_trending_gradient :: fp
  um_mi_rtt_dev_history :: "fp list"
  um_avg_trending_dev :: fp
  um_min_trending_dev :: fp
  um_dev_trending_dev :: fp
  um_last_trending_dev :: fp
  um_ratio_inflated_mi :: fp
  um_ratio_fluctuated_mi :: fp
  um_is_rtt_inflation_tolerable :: bool
  um_is_rtt_dev_tolerable :: bool

definition um_new :: "interval_stats \<Rightarrow> utility_manager" where
  "um_new stats =
     \<lparr> um_utility_tag = ''Allegro'', um_effective_utility_tag = ''Allegro'',
       um_utility_parameters = [],
       um_stats = stats\<lparr> st_min_rtt := Fin (-1), st_max_rtt := Fin (-1) \<rparr>,
       um_lost_bytes_tolerance_quota = kMaxPacketSize * kLostPacketTolerance,
       um_avg_mi_rtt_dev = Fin (-1), um_dev_mi_rtt_dev = Fin (-1), um_min_rtt = Fin (-1),
       um_mi_avg_rtt_history = [],
       um_avg_trending_gradient = Fin (-1), um_min_trending_gradient = Fin (-1),
       um_dev_trending_gradient = Fin (-1), um_last_trending_gradient = Fin (-1),
       um_mi_rtt_dev_history = [],
       um_avg_trending_dev = Fin (-1), um_min_trending_dev = Fin (-1),
       um_dev_trending_dev = Fin (-1), um_last_trending_dev = Fin (-1),
       um_ratio_inflated_mi = Fin 0, um_ratio_fluctuated_mi = Fin 0,
       um_is_rtt_inflation_tolerable = True, um_is_rtt_dev_tolerable = True \<rparr>"

subsection \<open>Tags and parameters\<close>

definition um_SetUtilityTag :: "string \<Rightarrow> utility_manager \<Rightarrow> utility_manager" where
  "um_SetUtilityTag tag um =
     um\<lparr> um_utility_tag := tag, um_effective_utility_tag := tag \<rparr>"

definition um_SetEffectiveUtilityTag :: "string \<Rightarrow> utility_manager \<Rightarrow> utility_manager" where
  "um_SetEffectiveUtilityTag tag um = um\<lparr> um_effective_utility_tag := tag \<rparr>"

definition um_GetUtilityParameter :: "nat \<Rightarrow> utility_manager \<Rightarrow> fp" where
  "um_GetUtilityParameter i um =
     (if length (um_utility_parameters um) > i then um_utility_parameters um ! i else Fin 0)"

definition parametrised_tags :: "string list" where
  "parametrised_tags = [''HybridAllegro'', ''HybridVivace'', ''Proportional'', ''Scavenger'',
     ''RateLimiter'', ''TEST'', ''Hybrid'']"

definition um_SetUtilityParameter :: "fp \<Rightarrow> utility_manager \<Rightarrow> utility_manager" where
  "um_SetUtilityParameter param um =
     (if um_utility_tag um \<in> set parametrised_tags
      then um\<lparr> um_utility_parameters := um_utility_parameters um @ [param] \<rparr> else um)"

subsection \<open>Statistics of one interval\<close>

definition PreProcessing :: "monitor_interval \<Rightarrow> interval_stats \<Rightarrow> interval_stats" where
  "PreProcessing iv st = st\<lparr> st_marked_lost_bytes := 0 \<rparr>"

definition ComputeSimpleMetrics :: "monitor_interval \<Rightarrow> interval_stats \<Rightarrow> interval_stats" where
  "ComputeSimpleMetrics iv st =
     (let dur = f_int (delta_add (time_diff (mi_last_packet_sent_time iv) (mi_first_packet_sent_time iv))
                        (bw_transfer_time (mi_sending_rate iv) kMaxPacketSize));
          samples = mi_packet_rtt_samples iv;
          n = length samples;
          ack_rate =
            (if n > 1 then
               f_div (f_mul (f_int (u64 (mi_bytes_acked iv - kMaxPacketSize))) (f_int kBitsPerByte))
                 (f_int (time_diff (prs_ack_timestamp (samples ! (n - 1)))
                                   (prs_ack_timestamp (samples ! 0))))
             else if n = 1 then f_div (f_int (mi_bytes_acked iv)) dur
             else Fin 0)
      in st\<lparr> st_interval_duration := dur,
             st_rtt_ratio := f_div (f_int (mi_rtt_on_monitor_start iv)) (f_int (mi_rtt_on_monitor_end iv)),
             st_loss_rate := f_div (f_int (u64 (mi_bytes_lost iv - st_marked_lost_bytes st)))
                                   (f_int (mi_bytes_sent iv)),
             st_actual_sending_rate_mbps :=
               f_div (f_mul (f_int (mi_bytes_sent iv)) (f_int kBitsPerByte)) dur,
             st_ack_rate_mbps := ack_rate \<rparr>)"

text \<open>The sums over the two halves of the samples, with their counts.\<close>

fun half_sums :: "packet_rtt_sample list \<Rightarrow> quic_delta \<times> nat \<Rightarrow> quic_delta \<times> nat" where
  "half_sums [] acc = acc"
| "half_sums (p # ps) (s, n) =
     half_sums ps (if prs_is_reliable_for_gradient_calculation p
                   then (delta_add s (prs_sample_rtt p), Suc n) else (s, n))"

definition ComputeApproxRttGradient ::
  "platform \<Rightarrow> monitor_interval \<Rightarrow> interval_stats \<Rightarrow> interval_stats" where
  "ComputeApproxRttGradient pf iv st =
     (let samples = mi_packet_rtt_samples iv;
          h = length samples div 2;
          (first, nf) = half_sums (take h samples) (0, 0);
          (second, ns) = half_sums (take h (drop h samples)) (0, 0)
      in if nf = 0 \<or> ns = 0 then st\<lparr> st_approx_rtt_gradient := Fin 0 \<rparr>
         else let f = delta_mul_double pf first (d_div (Fin 1) (f_int (int nf)));
                  s = delta_mul_double pf second (d_div (Fin 1) (f_int (int ns)))
              in st\<lparr> st_approx_rtt_gradient :=
                   to_f (d_div (d_mul (Fin 2) (f_int (delta_sub s f))) (f_int (delta_add s f))) \<rparr>)"

fun gradient_sums :: "packet_rtt_sample list \<Rightarrow> fp \<times> fp \<Rightarrow> fp \<times> fp" where
  "gradient_sums [] acc = acc"
| "gradient_sums (p # ps) (x, y) =
     gradient_sums ps (if prs_is_reliable_for_gradient_calculation p
       then (f_add x (f_int (prs_packet_number p)), f_add y (f_int (prs_sample_rtt p)))
       else (x, y))"

fun gradient_products :: "fp \<Rightarrow> fp \<Rightarrow> packet_rtt_sample list \<Rightarrow> fp \<times> fp \<Rightarrow> fp \<times> fp" where
  "gradient_products xa ya [] acc = acc"
| "gradient_products xa ya (p # ps) (gx, gy) =
     gradient_products xa ya ps
       (if prs_is_reliable_for_gradient_calculation p
        then let dp = f_sub (f_int (prs_packet_number p)) xa;
                 dr = f_sub (f_int (prs_sample_rtt p)) ya
             in (f_add gx (f_mul dp dp), f_add gy (f_mul dp dr))
        else (gx, gy))"

definition ComputeRttGradient :: "monitor_interval \<Rightarrow> interval_stats \<Rightarrow> interval_stats" where
  "ComputeRttGradient iv st =
     (let n = mi_num_reliable_rtt_for_gradient_calculation iv in
      if n < 2 then st\<lparr> st_rtt_gradient := Fin 0, st_rtt_gradient_cut := Fin 0 \<rparr>
      else let (sx, sy) = gradient_sums (mi_packet_rtt_samples iv) (Fin 0, Fin 0);
               xa = f_div sx (f_int (int n));
               ya = f_div sy (f_int (int n));
               (gx, gy) = gradient_products xa ya (mi_packet_rtt_samples iv) (Fin 0, Fin 0);
               g = f_div (f_div gy gx) (f_int (bw_transfer_time (mi_sending_rate iv) kMaxPacketSize))
           in st\<lparr> st_rtt_gradient := g, st_avg_rtt := ya,
                  st_rtt_gradient_cut := f_sub ya (f_mul g xa) \<rparr>)"

fun gradient_error_sum ::
  "platform \<Rightarrow> fp \<Rightarrow> fp \<Rightarrow> packet_rtt_sample list \<Rightarrow> fp \<Rightarrow> fp" where
  "gradient_error_sum pf g ct [] acc = acc"
| "gradient_error_sum pf g ct (p # ps) acc =
     gradient_error_sum pf g ct ps
       (if prs_is_reliable_for_gradient_calculation p
        then let regression = f_add (f_mul (f_int (prs_packet_number p)) g) ct
             in to_f (d_add acc (pf_pow pf (f_sub (f_int (prs_sample_rtt p)) regression) (Fin 2)))
        else acc)"

definition ComputeRttGradientError ::
  "platform \<Rightarrow> monitor_interval \<Rightarrow> interval_stats \<Rightarrow> interval_stats" where
  "ComputeRttGradientError pf iv st =
     (let n = mi_num_reliable_rtt_for_gradient_calculation iv in
      if n < 2 then st\<lparr> st_rtt_gradient_error := Fin 0 \<rparr>
      else let s = gradient_error_sum pf (st_rtt_gradient st) (st_rtt_gradient_cut st)
                     (mi_packet_rtt_samples iv) (Fin 0)
           in st\<lparr> st_rtt_gradient_error :=
                f_div (f_sqrt (f_div s (f_int (int n)))) (st_avg_rtt st) \<rparr>)"

text \<open>The loop of ComputeRttDeviation: squared deviations, and the minima and maximum.\<close>

fun deviation_loop ::
  "fp \<Rightarrow> packet_rtt_sample list \<Rightarrow> fp \<times> fp \<times> fp \<times> fp \<Rightarrow> fp \<times> fp \<times> fp \<times> fp" where
  "deviation_loop avg [] acc = acc"
| "deviation_loop avg (p # ps) (dev, umin, mn, mx) =
     deviation_loop avg ps
       (if \<not> prs_is_reliable p then (dev, umin, mn, mx)
        else let r = f_int (prs_sample_rtt p); d = f_sub r avg
             in (f_add dev (f_mul d d),
                 if fp_lt umin (Fin 0) \<or> fp_lt r umin then r else umin,
                 if fp_lt mn (Fin 0) \<or> fp_lt r mn then r else mn,
                 if fp_lt mx (Fin 0) \<or> fp_lt mx r then r else mx))"

definition ComputeRttDeviation :: "monitor_interval \<Rightarrow> utility_manager \<Rightarrow> utility_manager" where
  "ComputeRttDeviation iv um =
     (let st = um_stats um; n = mi_num_reliable_rtt iv in
      if n < 2 then um\<lparr> um_stats := st\<lparr> st_rtt_dev := Fin 0 \<rparr> \<rparr>
      else let (dev, umin, mn, mx) = deviation_loop (st_avg_rtt st) (mi_packet_rtt_samples iv)
                 (Fin 0, um_min_rtt um, Fin (-1), Fin (-1))
           in um\<lparr> um_min_rtt := umin,
                  um_stats := st\<lparr> st_rtt_dev := f_sqrt (f_div dev (f_int (int n))),
                                  st_min_rtt := mn, st_max_rtt := mx \<rparr> \<rparr>)"

subsection \<open>Trends over the last intervals\<close>

fun trend_sums :: "nat \<Rightarrow> fp list \<Rightarrow> fp \<times> fp \<Rightarrow> fp \<times> fp" where
  "trend_sums i [] acc = acc"
| "trend_sums i (r # rs) (x, y) = trend_sums (Suc i) rs (f_add x (f_int (int i)), f_add y r)"

fun trend_products :: "fp \<Rightarrow> fp \<Rightarrow> nat \<Rightarrow> fp list \<Rightarrow> fp \<times> fp \<Rightarrow> fp \<times> fp" where
  "trend_products xa ya i [] acc = acc"
| "trend_products xa ya i (r # rs) (gx, gy) =
     (let dx = f_sub (f_int (int i)) xa; dy = f_sub r ya
      in trend_products xa ya (Suc i) rs (f_add gx (f_mul dx dx), f_add gy (f_mul dx dy)))"

definition ComputeTrendingGradient :: "utility_manager \<Rightarrow> utility_manager" where
  "ComputeTrendingGradient um =
     (let h = um_mi_avg_rtt_history um;
          n = f_int (int (length h));
          (sx, sy) = trend_sums 0 h (Fin 0, Fin 0);
          xa = f_div sx n; ya = f_div sy n;
          (gx, gy) = trend_products xa ya 0 h (Fin 0, Fin 0);
          g = f_div gy gx
      in um\<lparr> um_stats := (um_stats um)\<lparr> st_trending_gradient := g,
                 st_trending_gradient_cut := f_sub ya (f_mul g xa) \<rparr> \<rparr>)"

fun trend_error_sum :: "platform \<Rightarrow> fp \<Rightarrow> fp \<Rightarrow> nat \<Rightarrow> fp list \<Rightarrow> fp \<Rightarrow> fp" where
  "trend_error_sum pf g ct i [] acc = acc"
| "trend_error_sum pf g ct i (r # rs) acc =
     (let regression = f_add (f_mul (f_int (int i)) g) ct
      in trend_error_sum pf g ct (Suc i) rs
           (to_f (d_add acc (pf_pow pf (f_sub r regression) (Fin 2)))))"

definition ComputeTrendingGradientError :: "platform \<Rightarrow> utility_manager \<Rightarrow> utility_manager" where
  "ComputeTrendingGradientError pf um =
     (let h = um_mi_avg_rtt_history um; st = um_stats um;
          s = trend_error_sum pf (st_trending_gradient st) (st_trending_gradient_cut st) 0 h (Fin 0)
      in um\<lparr> um_stats := st\<lparr> st_trending_gradient_error :=
               f_sqrt (f_div s (f_int (int (length h)))) \<rparr> \<rparr>)"

definition ComputeTrendingDeviation :: "utility_manager \<Rightarrow> utility_manager" where
  "ComputeTrendingDeviation um =
     (let h = um_mi_rtt_dev_history um;
          n = f_int (int (length h));
          avg = f_div (foldl f_add (Fin 0) h) n;
          s = foldl (\<lambda>acc r. let d = f_sub avg r in f_add acc (f_mul d d)) (Fin 0) h
      in um\<lparr> um_stats := (um_stats um)\<lparr> st_trending_deviation := f_sqrt (f_div s n) \<rparr> \<rparr>)"

definition DetermineToleranceGeneral :: "utility_manager \<Rightarrow> utility_manager" where
  "DetermineToleranceGeneral um =
     (if fp_lt (st_rtt_gradient_error (um_stats um)) (fp_abs (st_rtt_gradient (um_stats um)))
      then um\<lparr> um_is_rtt_inflation_tolerable := False, um_is_rtt_dev_tolerable := False \<rparr>
      else um\<lparr> um_is_rtt_inflation_tolerable := True, um_is_rtt_dev_tolerable := True \<rparr>)"

definition one_minus_alpha :: fp where
  "one_minus_alpha = f_sub (Fin 1) kAlpha"

definition tolerate_inflation :: "utility_manager \<Rightarrow> utility_manager" where
  "tolerate_inflation um =
     (let st = um_stats um;
          tg = st_trending_gradient st;
          dev_gain = (if fp_lt (st_rtt_dev st) (Fin 1000) then kInflationToleranceGainLow
                      else kInflationToleranceGainHigh);
          thr_h = f_add (um_avg_trending_gradient um) (f_mul dev_gain (um_dev_trending_gradient um));
          thr_l = f_sub (um_avg_trending_gradient um) (f_mul dev_gain (um_dev_trending_gradient um));
          um1 =
            (if fp_lt tg thr_l \<or> fp_lt thr_h tg then
               um\<lparr> um_is_rtt_inflation_tolerable :=
                      (if fp_lt (Fin 0) tg then False else um_is_rtt_inflation_tolerable um),
                   um_is_rtt_dev_tolerable := False,
                   um_ratio_inflated_mi := f_add (um_ratio_inflated_mi um) kAlpha \<rparr>
             else
               um\<lparr> um_dev_trending_gradient :=
                      f_add (f_mul (um_dev_trending_gradient um) one_minus_alpha)
                            (f_mul (fp_abs (f_sub tg (um_last_trending_gradient um))) kAlpha),
                   um_avg_trending_gradient :=
                      f_add (f_mul (um_avg_trending_gradient um) one_minus_alpha) (f_mul tg kAlpha),
                   um_last_trending_gradient := tg \<rparr>)
      in um1\<lparr> um_min_trending_gradient := fp_min (um_min_trending_gradient um1) (fp_abs tg) \<rparr>)"

definition DetermineToleranceInflation :: "utility_manager \<Rightarrow> utility_manager" where
  "DetermineToleranceInflation um0 =
     (let um = um0\<lparr> um_ratio_inflated_mi := f_mul (um_ratio_inflated_mi um0) one_minus_alpha \<rparr>;
          tg = st_trending_gradient (um_stats um)
      in if um_utility_tag um \<noteq> ''Scavenger'' \<and> length (um_mi_avg_rtt_history um) < kRttHistoryLen
         then um
         else if fp_lt (um_min_trending_gradient um) (d_lit (1 / 1000000)) \<or>
                 fp_lt (fp_abs tg) (f_div (um_min_trending_gradient um) kBeta)
         then um\<lparr> um_avg_trending_gradient := Fin 0, um_min_trending_gradient := fp_abs tg,
                  um_dev_trending_gradient := fp_abs tg, um_last_trending_gradient := tg \<rparr>
         else tolerate_inflation um)"

definition DetermineToleranceDeviation :: "utility_manager \<Rightarrow> utility_manager" where
  "DetermineToleranceDeviation um0 =
     (let um = um0\<lparr> um_ratio_fluctuated_mi := f_mul (um_ratio_fluctuated_mi um0) one_minus_alpha \<rparr>;
          dev = st_rtt_dev (um_stats um);
          um1 =
            (if fp_lt (um_avg_mi_rtt_dev um) (d_lit (1 / 1000000))
             then um\<lparr> um_avg_mi_rtt_dev := dev,
                      um_dev_mi_rtt_dev := to_f (d_mul (d_lit (1 / 2)) dev) \<rparr>
             else if fp_lt (d_add (um_avg_mi_rtt_dev um) (d_mul (um_dev_mi_rtt_dev um) (Fin 4))) dev \<and>
                     fp_lt (Fin 1000) dev
             then um\<lparr> um_is_rtt_dev_tolerable := False,
                      um_ratio_fluctuated_mi := f_add (um_ratio_fluctuated_mi um) kAlpha \<rparr>
             else um\<lparr> um_dev_mi_rtt_dev :=
                        f_add (f_mul (um_dev_mi_rtt_dev um) one_minus_alpha)
                              (f_mul (fp_abs (f_sub dev (um_avg_mi_rtt_dev um))) kAlpha),
                      um_avg_mi_rtt_dev :=
                        f_add (f_mul (um_avg_mi_rtt_dev um) one_minus_alpha) (f_mul dev kAlpha) \<rparr>)
      in if fp_lt kTrendingResetIntervalRatio (um_ratio_fluctuated_mi um1)
         then um1\<lparr> um_avg_mi_rtt_dev := Fin (-1), um_dev_mi_rtt_dev := Fin (-1),
                   um_ratio_fluctuated_mi := Fin 0 \<rparr>
         else um1)"

definition bounded_push :: "'a \<Rightarrow> 'a list \<Rightarrow> 'a list" where
  "bounded_push x h = (let h' = h @ [x] in if length h' > kRttHistoryLen then tl h' else h')"

definition ProcessRttTrend ::
  "platform \<Rightarrow> monitor_interval \<Rightarrow> utility_manager \<Rightarrow> utility_manager" where
  "ProcessRttTrend pf iv um =
     (if mi_num_reliable_rtt iv < 2 then um
      else let um1 = um\<lparr> um_mi_avg_rtt_history :=
                           bounded_push (st_avg_rtt (um_stats um)) (um_mi_avg_rtt_history um),
                         um_mi_rtt_dev_history :=
                           bounded_push (st_rtt_dev (um_stats um)) (um_mi_rtt_dev_history um) \<rparr>;
               um2 = (if length (um_mi_avg_rtt_history um1) \<ge> kRttHistoryLen
                      then DetermineToleranceInflation
                             (ComputeTrendingGradientError pf (ComputeTrendingGradient um1))
                      else um1)
           in if length (um_mi_rtt_dev_history um2) \<ge> kRttHistoryLen
              then DetermineToleranceDeviation (ComputeTrendingDeviation um2)
              else um2)"

definition PrepareStatistics ::
  "platform \<Rightarrow> monitor_interval \<Rightarrow> utility_manager \<Rightarrow> utility_manager" where
  "PrepareStatistics pf iv um =
     (let st1 = ComputeRttGradient iv (ComputeApproxRttGradient pf iv
                  (ComputeSimpleMetrics iv (PreProcessing iv (um_stats um))));
          um1 = ComputeRttDeviation iv (um\<lparr> um_stats := st1 \<rparr>);
          um2 = um1\<lparr> um_stats := ComputeRttGradientError pf iv (um_stats um1) \<rparr>
      in ProcessRttTrend pf iv (DetermineToleranceGeneral um2))"

subsection \<open>Utility functions\<close>

text \<open>The Allegro utility overwrites rtt_ratio when it is within the tolerance.\<close>

definition allegro_rtt_ratio :: "monitor_interval \<Rightarrow> interval_stats \<Rightarrow> interval_stats" where
  "allegro_rtt_ratio iv st =
     (let tol = mi_rtt_fluctuation_tolerance_ratio iv in
      if fp_lt (d_sub (Fin 1) tol) (st_rtt_ratio st) \<and> fp_lt (st_rtt_ratio st) (d_add (Fin 1) tol)
      then st\<lparr> st_rtt_ratio := Fin 1 \<rparr> else st)"

definition allegro_latency_penalty :: "platform \<Rightarrow> fp \<Rightarrow> fp" where
  "allegro_latency_penalty pf rtt_ratio =
     to_f (d_sub (Fin 1) (d_div (Fin 1)
       (d_add (Fin 1) (pf_exp pf (d_mul kRTTCoefficient (d_sub (Fin 1) rtt_ratio))))))"

definition allegro_loss_penalty :: "platform \<Rightarrow> fp \<Rightarrow> fp" where
  "allegro_loss_penalty pf loss_rate =
     to_f (d_sub (Fin 1) (d_div (Fin 1)
       (d_add (Fin 1) (pf_expf pf (f_mul kLossCoefficient (f_sub loss_rate kLossTolerance))))))"

definition CalculateUtilityAllegro ::
  "platform \<Rightarrow> monitor_interval \<Rightarrow> utility_manager \<Rightarrow> fp \<times> utility_manager" where
  "CalculateUtilityAllegro pf iv um =
     (let st = allegro_rtt_ratio iv (um_stats um);
          latency_penalty = allegro_latency_penalty pf (st_rtt_ratio st);
          loss_penalty = allegro_loss_penalty pf (st_loss_rate st);
          acked = f_int (mi_bytes_acked iv); lost = f_int (mi_bytes_lost iv);
          dur = st_interval_duration st
      in (to_f (d_mul (f_sub (f_mul (f_mul (f_div acked dur) loss_penalty) latency_penalty)
                             (f_div lost dur)) (Fin 1000)),
          um\<lparr> um_stats := st \<rparr>))"

text \<open>The RTT gradient that is penalised: none when the inflation is tolerable, when it is small
  at the start of a connection, or when it is negative.\<close>

definition penalised_gradient :: "monitor_interval \<Rightarrow> utility_manager \<Rightarrow> fp" where
  "penalised_gradient iv um =
     (let st = um_stats um;
          g0 = (if um_is_rtt_inflation_tolerable um then Fin 0 else st_rtt_gradient st);
          g1 = (if fp_lt (Fin 50) (mi_rtt_fluctuation_tolerance_ratio iv) \<and>
                   fp_lt (fp_abs g0) (d_div (Fin 1000) (st_interval_duration st))
                then Fin 0 else g0)
      in if fp_lt g1 (Fin 0) then Fin 0 else g1)"

definition CalculateUtilityProportional ::
  "platform \<Rightarrow> monitor_interval \<Rightarrow> fp \<Rightarrow> fp \<Rightarrow> utility_manager \<Rightarrow> fp" where
  "CalculateUtilityProportional pf iv latency_coefficient loss_coefficient um =
     (let st = um_stats um;
          rate = st_actual_sending_rate_mbps st;
          contribution = pf_powf pf rate kSendingRateExponent;
          latency_penalty = f_mul (f_mul latency_coefficient (penalised_gradient iv um)) rate;
          loss_penalty = f_mul (f_mul loss_coefficient (st_loss_rate st)) rate
      in f_sub (f_sub contribution latency_penalty) loss_penalty)"

definition CalculateUtilityVivace ::
  "platform \<Rightarrow> monitor_interval \<Rightarrow> utility_manager \<Rightarrow> fp" where
  "CalculateUtilityVivace pf iv um =
     CalculateUtilityProportional pf iv kLatencyCoefficient kVivaceLossCoefficient um"

definition CalculateUtilityScavenger ::
  "platform \<Rightarrow> monitor_interval \<Rightarrow> fp \<Rightarrow> utility_manager \<Rightarrow> fp" where
  "CalculateUtilityScavenger pf iv rtt_variance_coefficient um =
     (let st = um_stats um;
          rate = st_actual_sending_rate_mbps st;
          contribution = pf_powf pf rate kSendingRateExponent;
          loss_penalty = f_mul (f_mul kVivaceLossCoefficient (st_loss_rate st)) rate;
          latency_penalty = f_mul (f_mul kLatencyCoefficient (penalised_gradient iv um)) rate;
          dev0 = (if um_is_rtt_dev_tolerable um then Fin 0 else st_rtt_dev st);
          dev = (if fp_lt (Fin 50) (mi_rtt_fluctuation_tolerance_ratio iv) then Fin 0 else dev0);
          dev_penalty = f_mul (f_mul rtt_variance_coefficient dev) rate
      in f_sub (f_sub (f_sub contribution loss_penalty) latency_penalty) dev_penalty)"

definition CalculatePerfectUtilityAllegro :: "platform \<Rightarrow> fp \<Rightarrow> fp" where
  "CalculatePerfectUtilityAllegro pf sending_rate_mbps =
     (let latency_penalty = allegro_latency_penalty pf (Fin 1);
          loss_penalty = allegro_loss_penalty pf (Fin 0);
          rate = f_div sending_rate_mbps (f_int kBitsPerByte)
      in to_f (d_mul (f_mul (f_mul rate loss_penalty) latency_penalty) (Fin 1000)))"

definition CalculatePerfectUtilityVivace :: "platform \<Rightarrow> fp \<Rightarrow> fp" where
  "CalculatePerfectUtilityVivace pf sending_rate_mbps =
     pf_powf pf sending_rate_mbps kSendingRateExponent"

definition bounded_rate :: "fp \<Rightarrow> fp \<Rightarrow> fp" where
  "bounded_rate bound rate =
     f_add bound (f_mul (f_sub rate bound) kHybridUtilityRateTransformFactor)"

definition CalculateUtilityHybridAllegro ::
  "platform \<Rightarrow> monitor_interval \<Rightarrow> fp \<Rightarrow> utility_manager \<Rightarrow> fp \<times> utility_manager" where
  "CalculateUtilityHybridAllegro pf iv bound um =
     (let (allegro, um1) = CalculateUtilityAllegro pf iv um;
          rate = st_actual_sending_rate_mbps (um_stats um1)
      in if fp_lt rate bound then (allegro, um1)
         else (f_mul (CalculatePerfectUtilityAllegro pf (bounded_rate bound rate))
                     (f_div allegro (CalculatePerfectUtilityAllegro pf rate)), um1))"

definition CalculateUtilityHybridVivace ::
  "platform \<Rightarrow> monitor_interval \<Rightarrow> fp \<Rightarrow> utility_manager \<Rightarrow> fp" where
  "CalculateUtilityHybridVivace pf iv bound um =
     (let vivace = CalculateUtilityVivace pf iv um;
          rate = st_actual_sending_rate_mbps (um_stats um)
      in if fp_lt rate bound then vivace
         else f_sub (f_add (CalculatePerfectUtilityVivace pf (bounded_rate bound rate)) vivace)
                    (CalculatePerfectUtilityVivace pf rate))"

definition CalculateUtilityHybridVivace2 ::
  "platform \<Rightarrow> monitor_interval \<Rightarrow> fp \<Rightarrow> utility_manager \<Rightarrow> fp" where
  "CalculateUtilityHybridVivace2 pf iv bound um =
     (let vivace = CalculateUtilityVivace pf iv um;
          rate = st_actual_sending_rate_mbps (um_stats um)
      in if fp_lt rate bound then vivace
         else f_mul (CalculatePerfectUtilityVivace pf (bounded_rate bound rate))
                    (f_div vivace (CalculatePerfectUtilityVivace pf rate)))"

definition CalculateUtilityRateLimiter ::
  "platform \<Rightarrow> monitor_interval \<Rightarrow> fp \<Rightarrow> utility_manager \<Rightarrow> fp" where
  "CalculateUtilityRateLimiter pf iv rate_limiter_parameter um =
     f_sub (CalculateUtilityVivace pf iv um)
           (f_mul rate_limiter_parameter (st_actual_sending_rate_mbps (um_stats um)))"

definition CalculateUtilityHybrid ::
  "platform \<Rightarrow> monitor_interval \<Rightarrow> fp \<Rightarrow> utility_manager \<Rightarrow> fp" where
  "CalculateUtilityHybrid pf iv rate_bound um =
     (if fp_lt (st_actual_sending_rate_mbps (um_stats um)) rate_bound
      then CalculateUtilityVivace pf iv um
      else CalculateUtilityScavenger pf iv kRttDeviationCoefficient um)"

definition CalculateUtilityTEST ::
  "platform \<Rightarrow> monitor_interval \<Rightarrow> fp \<Rightarrow> fp \<Rightarrow> utility_manager \<Rightarrow> fp" where
  "CalculateUtilityTEST pf iv latency_coefficient loss_coefficient um =
     CalculateUtilityVivace pf iv um"

text \<open>Indexing the vector of parameters is unchecked in the code.\<close>

definition utility_parameter :: "utility_manager \<Rightarrow> nat \<Rightarrow> fp outcome" where
  "utility_parameter um i =
     (if i < length (um_utility_parameters um) then Inr (um_utility_parameters um ! i)
      else Inl Out_Of_Bounds)"

definition dispatch_utility ::
  "platform \<Rightarrow> monitor_interval \<Rightarrow> utility_manager \<Rightarrow> (fp \<times> utility_manager) outcome" where
  "dispatch_utility pf iv um =
     (let tag = um_utility_tag um; keep = map_outcome (\<lambda>u. (u, um)); par = utility_parameter um in
      if tag = ''Allegro'' then Inr (CalculateUtilityAllegro pf iv um)
      else if tag = ''Vivace'' then keep (Inr (CalculateUtilityVivace pf iv um))
      else if tag = ''Proportional'' then
        keep (bind_outcome (par 0) (\<lambda>lat. bind_outcome (par 1) (\<lambda>loss.
          Inr (CalculateUtilityProportional pf iv lat loss um))))
      else if tag = ''Scavenger'' then
        keep (bind_outcome (par 0) (\<lambda>c. Inr (CalculateUtilityScavenger pf iv c um)))
      else if tag = ''HybridAllegro'' then
        bind_outcome (par 0) (\<lambda>b. Inr (CalculateUtilityHybridAllegro pf iv b um))
      else if tag = ''HybridVivace'' then
        keep (bind_outcome (par 0) (\<lambda>b. Inr (CalculateUtilityHybridVivace pf iv b um)))
      else if tag = ''RateLimiter'' then
        keep (bind_outcome (par 0) (\<lambda>b. Inr (CalculateUtilityRateLimiter pf iv
          (to_f (d_div (d_lit (9 / 10)) (pf_pow pf b (d_lit (1 / 10))))) um)))
      else if tag = ''Hybrid'' then
        keep (bind_outcome (par 0) (\<lambda>b. Inr (CalculateUtilityHybrid pf iv b um)))
      else if tag = ''TEST'' then
        keep (bind_outcome (par 0) (\<lambda>lat. bind_outcome (par 1) (\<lambda>loss.
          Inr (CalculateUtilityTEST pf iv lat loss um))))
      else Inr (CalculateUtilityAllegro pf iv um))"

definition CalculateUtility ::
  "platform \<Rightarrow> monitor_interval \<Rightarrow> utility_manager \<Rightarrow> (fp \<times> utility_manager) outcome" where
  "CalculateUtility pf iv um =
     guard_outcome Assert_Failed (mi_first_packet_sent_time iv \<noteq> mi_last_packet_sent_time iv)
       (dispatch_utility pf iv (PrepareStatistics pf iv um))"

subsection \<open>What the operations leave alone\<close>

text \<open>The configuration of the manager, which no utility calculation changes.\<close>

definition same_config :: "utility_manager \<Rightarrow> utility_manager \<Rightarrow> bool" where
  "same_config a b \<longleftrightarrow> um_utility_tag b = um_utility_tag a \<and>
     um_effective_utility_tag b = um_effective_utility_tag a \<and>
     um_utility_parameters b = um_utility_parameters a"

definition um_inv :: "utility_manager \<Rightarrow> bool" where
  "um_inv um \<longleftrightarrow> length (um_mi_rtt_dev_history um) = length (um_mi_avg_rtt_history um) \<and>
     length (um_mi_avg_rtt_history um) \<le> kRttHistoryLen"

lemma same_config_refl [simp]: "same_config a a"
  by (simp add: same_config_def)

lemma same_config_trans: "same_config a b \<Longrightarrow> same_config b c \<Longrightarrow> same_config a c"
  by (simp add: same_config_def)

lemma deviation_config [simp]:
  "same_config um (ComputeRttDeviation iv um)"
  "um_mi_avg_rtt_history (ComputeRttDeviation iv um) = um_mi_avg_rtt_history um"
  "um_mi_rtt_dev_history (ComputeRttDeviation iv um) = um_mi_rtt_dev_history um"
  by (simp_all add: ComputeRttDeviation_def same_config_def Let_def split: prod.splits)

lemma tolerance_general_config [simp]:
  "same_config um (DetermineToleranceGeneral um)"
  "um_mi_avg_rtt_history (DetermineToleranceGeneral um) = um_mi_avg_rtt_history um"
  "um_mi_rtt_dev_history (DetermineToleranceGeneral um) = um_mi_rtt_dev_history um"
  by (simp_all add: DetermineToleranceGeneral_def same_config_def)

lemma trend_config [simp]:
  "same_config um (ComputeTrendingGradient um)"
  "same_config um (ComputeTrendingGradientError pf um)"
  "same_config um (ComputeTrendingDeviation um)"
  "um_mi_avg_rtt_history (ComputeTrendingGradient um) = um_mi_avg_rtt_history um"
  "um_mi_avg_rtt_history (ComputeTrendingGradientError pf um) = um_mi_avg_rtt_history um"
  "um_mi_avg_rtt_history (ComputeTrendingDeviation um) = um_mi_avg_rtt_history um"
  "um_mi_rtt_dev_history (ComputeTrendingGradient um) = um_mi_rtt_dev_history um"
  "um_mi_rtt_dev_history (ComputeTrendingGradientError pf um) = um_mi_rtt_dev_history um"
  "um_mi_rtt_dev_history (ComputeTrendingDeviation um) = um_mi_rtt_dev_history um"
  by (simp_all add: ComputeTrendingGradient_def ComputeTrendingGradientError_def
      ComputeTrendingDeviation_def same_config_def Let_def split: prod.splits)

lemma tolerate_inflation_config [simp]:
  "same_config um (tolerate_inflation um)"
  "um_mi_avg_rtt_history (tolerate_inflation um) = um_mi_avg_rtt_history um"
  "um_mi_rtt_dev_history (tolerate_inflation um) = um_mi_rtt_dev_history um"
  by (simp_all add: tolerate_inflation_def same_config_def Let_def)

lemma tolerance_inflation_config [simp]:
  "same_config um (DetermineToleranceInflation um)"
  "um_mi_avg_rtt_history (DetermineToleranceInflation um) = um_mi_avg_rtt_history um"
  "um_mi_rtt_dev_history (DetermineToleranceInflation um) = um_mi_rtt_dev_history um"
  using tolerate_inflation_config [of "um\<lparr> um_ratio_inflated_mi := x \<rparr>" for x]
  by (simp_all add: DetermineToleranceInflation_def same_config_def Let_def)

lemma tolerance_deviation_config [simp]:
  "same_config um (DetermineToleranceDeviation um)"
  "um_mi_avg_rtt_history (DetermineToleranceDeviation um) = um_mi_avg_rtt_history um"
  "um_mi_rtt_dev_history (DetermineToleranceDeviation um) = um_mi_rtt_dev_history um"
  by (simp_all add: DetermineToleranceDeviation_def same_config_def Let_def)

lemma bounded_push_length:
  "length h \<le> kRttHistoryLen \<Longrightarrow> length (bounded_push x h) = min (Suc (length h)) kRttHistoryLen"
  by (simp add: bounded_push_def Let_def)

lemma same_config_stats [simp]:
  "same_config um (um\<lparr> um_stats := st \<rparr>)"
  "same_config um (um\<lparr> um_mi_avg_rtt_history := a, um_mi_rtt_dev_history := b \<rparr>)"
  by (simp_all add: same_config_def)

lemma trend_inflation_config:
  "same_config um (DetermineToleranceInflation
     (ComputeTrendingGradientError pf (ComputeTrendingGradient um)))"
  by (rule same_config_trans [OF trend_config(1) same_config_trans [OF trend_config(2)
      tolerance_inflation_config(1)]])

lemma trend_deviation_config:
  "same_config um (DetermineToleranceDeviation (ComputeTrendingDeviation um))"
  by (rule same_config_trans [OF trend_config(3) tolerance_deviation_config(1)])

text \<open>The two parts of ProcessRttTrend.\<close>

lemma trend_inflation_part:
  fixes um b pf
  defines "um' \<equiv> if b then DetermineToleranceInflation
     (ComputeTrendingGradientError pf (ComputeTrendingGradient um)) else um"
  shows "same_config um um'" "um_mi_avg_rtt_history um' = um_mi_avg_rtt_history um"
    "um_mi_rtt_dev_history um' = um_mi_rtt_dev_history um"
  using trend_inflation_config by (simp_all add: um'_def)

lemma trend_deviation_part:
  fixes um b
  defines "um' \<equiv> if b then DetermineToleranceDeviation (ComputeTrendingDeviation um) else um"
  shows "same_config um um'" "um_mi_avg_rtt_history um' = um_mi_avg_rtt_history um"
    "um_mi_rtt_dev_history um' = um_mi_rtt_dev_history um"
  using trend_deviation_config by (simp_all add: um'_def)

lemma process_trend_config:
  "same_config um (ProcessRttTrend pf iv um)"
proof (cases "mi_num_reliable_rtt iv < 2")
  case True
  then show ?thesis by (simp add: ProcessRttTrend_def)
next
  case False
  show ?thesis unfolding ProcessRttTrend_def Let_def if_not_P [OF False]
    by (rule same_config_trans [OF same_config_stats(2) same_config_trans
          [OF trend_inflation_part(1) trend_deviation_part(1)]])
qed

lemma process_trend_history:
  assumes "um_inv um"
  shows "um_inv (ProcessRttTrend pf iv um)"
proof (cases "mi_num_reliable_rtt iv < 2")
  case True
  then show ?thesis using assms by (simp add: ProcessRttTrend_def)
next
  case False
  show ?thesis
    unfolding ProcessRttTrend_def Let_def if_not_P [OF False] um_inv_def trend_deviation_part
      trend_inflation_part
    using assms by (simp add: bounded_push_length um_inv_def)
qed

lemma prepare_config: "same_config um (PrepareStatistics pf iv um)"
  unfolding PrepareStatistics_def Let_def
  by (rule same_config_trans [OF same_config_stats(1) same_config_trans [OF deviation_config(1)
      same_config_trans [OF same_config_stats(1) same_config_trans
        [OF tolerance_general_config(1) process_trend_config]]]])

lemma prepare_inv: "um_inv um \<Longrightarrow> um_inv (PrepareStatistics pf iv um)"
  unfolding PrepareStatistics_def Let_def
  by (rule process_trend_history) (simp add: um_inv_def)

subsection \<open>When a utility can be calculated\<close>

text \<open>The number of parameters the utility function of a tag reads.\<close>

definition needed_parameters :: "string \<Rightarrow> nat" where
  "needed_parameters tag =
     (if tag \<in> {''Proportional'', ''TEST''} then 2
      else if tag \<in> {''Scavenger'', ''HybridAllegro'', ''HybridVivace'', ''RateLimiter'', ''Hybrid''}
      then 1 else 0)"

definition um_ready :: "utility_manager \<Rightarrow> bool" where
  "um_ready um \<longleftrightarrow> needed_parameters (um_utility_tag um) \<le> length (um_utility_parameters um)"

lemma um_ready_config: "same_config a b \<Longrightarrow> um_ready b = um_ready a"
  by (simp add: same_config_def um_ready_def)

lemma allegro_config:
  assumes "CalculateUtilityAllegro pf iv um = (u, um')"
  shows "same_config um um'" "um_inv um \<Longrightarrow> um_inv um'"
  using assms by (auto simp: CalculateUtilityAllegro_def Let_def same_config_def um_inv_def)

lemma hybrid_allegro_config:
  assumes "CalculateUtilityHybridAllegro pf iv b um = (u, um')"
  shows "same_config um um'" "um_inv um \<Longrightarrow> um_inv um'"
  using assms allegro_config [of pf iv um]
  by (auto simp: CalculateUtilityHybridAllegro_def Let_def split: prod.splits if_splits)

lemma utility_parameter_cases:
  "utility_parameter um i = (if i < length (um_utility_parameters um)
     then Inr (um_utility_parameters um ! i) else Inl Out_Of_Bounds)"
  by (simp add: utility_parameter_def)

lemma dispatch_config:
  assumes "dispatch_utility pf iv um = Inr (u, um')"
  shows "same_config um um'" "um_inv um \<Longrightarrow> um_inv um'"
  using assms allegro_config [of pf iv um] hybrid_allegro_config [of pf iv _ um]
  by (auto simp: dispatch_utility_def Let_def bind_outcome_Inr_iff split: if_splits)

lemma dispatch_ready: "um_ready um \<Longrightarrow> \<exists>r. dispatch_utility pf iv um = Inr r"
  by (auto simp: um_ready_def needed_parameters_def dispatch_utility_def Let_def
      utility_parameter_cases split: if_splits)

lemma dispatch_not_ready: "\<not> um_ready um \<Longrightarrow> dispatch_utility pf iv um = Inl Out_Of_Bounds"
  by (auto simp: um_ready_def needed_parameters_def dispatch_utility_def Let_def
      utility_parameter_cases Suc_le_eq split: if_splits)

lemma calculate_utility_config:
  assumes "CalculateUtility pf iv um = Inr (u, um')"
  shows "same_config um um'" "um_inv um \<Longrightarrow> um_inv um'"
proof -
  have d: "dispatch_utility pf iv (PrepareStatistics pf iv um) = Inr (u, um')"
    using assms by (auto simp: CalculateUtility_def guard_outcome_def split: if_splits)
  show "same_config um um'" by (rule same_config_trans [OF prepare_config dispatch_config(1) [OF d]])
  show "um_inv um \<Longrightarrow> um_inv um'" by (rule dispatch_config(2) [OF d prepare_inv])
qed

lemma calculate_utility_total:
  assumes "um_ready um" "\<not> HasInvalidUtility iv"
  shows "\<exists>u um'. CalculateUtility pf iv um = Inr (u, um')"
proof -
  have "um_ready (PrepareStatistics pf iv um)"
    using assms(1) um_ready_config [OF prepare_config] by blast
  then show ?thesis using dispatch_ready assms(2)
    by (fastforce simp: CalculateUtility_def HasInvalidUtility_def)
qed

subsection \<open>Properties\<close>

text \<open>The history of the trend detection holds at most the last six intervals, the averages
  and the deviations have as many entries, and calculating a utility keeps this and the
  configuration (tags and parameters).\<close>

theorem utility_history_bounded:
  assumes "um_inv um" "CalculateUtility pf iv um = Inr (u, um')"
  shows "um_inv um' \<and> same_config um um'"
  using calculate_utility_config [OF assms(2)] assms(1) by blast

definition sample_platform :: platform where
  "sample_platform = \<lparr> pf_pow = (\<lambda>x y. x), pf_powf = (\<lambda>x y. x), pf_exp = (\<lambda>x. Fin 1),
     pf_expf = (\<lambda>x. Fin 1), pf_bad_cast = (\<lambda>x. 0), pf_bad_llround = (\<lambda>x. 0) \<rparr>"

definition sample_stats :: interval_stats where
  "sample_stats = \<lparr> st_interval_duration = Fin 0, st_rtt_ratio = Fin 0, st_marked_lost_bytes = 0,
     st_loss_rate = Fin 0, st_actual_sending_rate_mbps = Fin 0, st_ack_rate_mbps = Fin 0,
     st_avg_rtt = Fin 0, st_rtt_dev = Fin 0, st_min_rtt = Fin 0, st_max_rtt = Fin 0,
     st_approx_rtt_gradient = Fin 0, st_rtt_gradient = Fin 0, st_rtt_gradient_cut = Fin 0,
     st_rtt_gradient_error = Fin 0, st_trending_gradient = Fin 0, st_trending_gradient_cut = Fin 0,
     st_trending_gradient_error = Fin 0, st_trending_deviation = Fin 0 \<rparr>"

theorem utility_history_bounded_witness:
  "\<exists>u um'. CalculateUtility sample_platform (hd (mq_monitor_intervals sample_queue))
             (um_new sample_stats) = Inr (u, um') \<and>
     um_inv um' \<and> same_config (um_new sample_stats) um'"
proof -
  have r: "um_ready (um_new sample_stats)" unfolding um_ready_def by code_simp
  have v: "\<not> HasInvalidUtility (hd (mq_monitor_intervals sample_queue))" by code_simp
  have i: "um_inv (um_new sample_stats)" by (simp add: um_inv_def um_new_def)
  obtain u um' where c: "CalculateUtility sample_platform (hd (mq_monitor_intervals sample_queue))
      (um_new sample_stats) = Inr (u, um')"
    using calculate_utility_total [OF r v] by blast
  show ?thesis using utility_history_bounded [OF i c] c by blast
qed

text \<open>C23: a utility is calculated exactly when the interval's first and last packet were sent at
  different times and the parameters the selected utility function reads have been set; the
  assertion and the unchecked vector access are the only failures.\<close>

theorem utility_outcome:
  "CalculateUtility pf iv um =
     (if HasInvalidUtility iv then Inl Assert_Failed
      else if length (um_utility_parameters um) < needed_parameters (um_utility_tag um)
      then Inl Out_Of_Bounds
      else dispatch_utility pf iv (PrepareStatistics pf iv um)) \<and>
   ((\<exists>r. CalculateUtility pf iv um = Inr r) \<longleftrightarrow>
     \<not> HasInvalidUtility iv \<and> needed_parameters (um_utility_tag um) \<le> length (um_utility_parameters um))"
proof -
  have r: "um_ready (PrepareStatistics pf iv um) = um_ready um"
    by (rule um_ready_config [OF prepare_config])
  show ?thesis
    using r dispatch_ready [of "PrepareStatistics pf iv um" pf iv]
      dispatch_not_ready [of "PrepareStatistics pf iv um" pf iv]
    by (auto simp: CalculateUtility_def HasInvalidUtility_def um_ready_def)
qed

text \<open>The bounds of the penalty products when the loss rate is a ratio.\<close>

lemma loss_product:
  assumes "0 \<le> l1" "l1 \<le> l2" "l2 \<le> 1" "0 \<le> r" "r \<le> 2 powi 100"
  shows "\<exists>a b. f_mul (f_mul kVivaceLossCoefficient (Fin l1)) (Fin r) = Fin a \<and>
     f_mul (f_mul kVivaceLossCoefficient (Fin l2)) (Fin r) = Fin b \<and> a \<le> b"
proof -
  let ?c = "5950669 / 524288 :: rat"
  let ?g = "round_grid 24 (-149)"
  have c: "kVivaceLossCoefficient = Fin ?c" by (simp add: kVivaceLossCoefficient_def fp_eval)
  have b: "\<bar>?c * l\<bar> \<le> 2 powi 4" if "0 \<le> l" "l \<le> 1" for l
    using that mult_left_mono [of l 1 ?c] by (simp add: powi_eval)
  have m: "?g (?c * l1) \<le> ?g (?c * l2)" using assms by (intro b32.round_grid_mono) simp
  have p: "0 \<le> ?g (?c * l1)" using assms by (intro b32.round_grid_nonneg) simp
  have r1: "rnd B32 (?c * l) = Fin (?g (?c * l))" "\<bar>?g (?c * l)\<bar> \<le> 2 powi 4" if "0 \<le> l" "l \<le> 1" for l
    using rnd32_bounded [OF b [OF that]] by simp_all
  have s: "\<bar>x * r\<bar> \<le> 2 powi 104" if "\<bar>x\<bar> \<le> 2 powi 4" for x
    using mult_mono [of "\<bar>x\<bar>" "2 powi 4" "\<bar>r\<bar>" "2 powi 100"] that assms
      powi_two_add [of 4 100] by (simp add: abs_mult)
  have r2: "rnd B32 (x * r) = Fin (?g (x * r))" if "\<bar>x\<bar> \<le> 2 powi 4" for x
    using rnd32_bounded(1) [OF s [OF that]] by simp
  have "?g (?g (?c * l1) * r) \<le> ?g (?g (?c * l2) * r)"
    using m assms by (intro b32.round_grid_mono mult_right_mono) simp_all
  moreover have "f_mul (f_mul kVivaceLossCoefficient (Fin l)) (Fin r) = Fin (?g (?g (?c * l) * r))"
    if "0 \<le> l" "l \<le> 1" for l
    unfolding c fp_mul.simps r1(1) [OF that] r2 [OF r1(2) [OF that]] by (rule refl)
  ultimately show ?thesis using assms by fastforce
qed

text \<open>C24: losing more packets never raises the Vivace utility: with everything else equal, a
  higher loss rate (a ratio between 0 and 1) gives a utility that is no higher, for every
  rounding of the intermediate results.\<close>

theorem vivace_utility_loss_antitone:
  assumes "0 \<le> l1" "l1 \<le> l2" "l2 \<le> 1"
    and "st_actual_sending_rate_mbps st = Fin r" "0 \<le> r" "r \<le> 2 powi 100"
    and "CalculateUtilityVivace pf iv (um\<lparr> um_stats := st\<lparr> st_loss_rate := Fin l1 \<rparr> \<rparr>) \<noteq> NaN"
  shows "fp_le (CalculateUtilityVivace pf iv (um\<lparr> um_stats := st\<lparr> st_loss_rate := Fin l2 \<rparr> \<rparr>))
               (CalculateUtilityVivace pf iv (um\<lparr> um_stats := st\<lparr> st_loss_rate := Fin l1 \<rparr> \<rparr>))"
proof -
  obtain a b where ab: "f_mul (f_mul kVivaceLossCoefficient (Fin l1)) (Fin r) = Fin a"
      "f_mul (f_mul kVivaceLossCoefficient (Fin l2)) (Fin r) = Fin b" "a \<le> b"
    using loss_product [of l1 l2 r] assms by blast
  have g: "penalised_gradient iv (um\<lparr> um_stats := st\<lparr> st_loss_rate := l \<rparr> \<rparr>) =
      penalised_gradient iv (um\<lparr> um_stats := st \<rparr>)" for l
    by (simp add: penalised_gradient_def Let_def)
  show ?thesis
    using assms(7) fp_sub_Fin_antimono [OF ab(3)]
    by (simp add: CalculateUtilityVivace_def CalculateUtilityProportional_def Let_def g assms(4) ab)
qed

theorem vivace_utility_loss_antitone_witness:
  "fp_le (CalculateUtilityVivace sample_platform (hd (mq_monitor_intervals sample_queue))
            ((um_new sample_stats)\<lparr> um_stats := sample_stats\<lparr>
               st_actual_sending_rate_mbps := Fin 8, st_loss_rate := Fin (1 / 2) \<rparr> \<rparr>))
         (CalculateUtilityVivace sample_platform (hd (mq_monitor_intervals sample_queue))
            ((um_new sample_stats)\<lparr> um_stats := sample_stats\<lparr>
               st_actual_sending_rate_mbps := Fin 8, st_loss_rate := Fin (1 / 4) \<rparr> \<rparr>))"
proof -
  let ?st = "sample_stats\<lparr> st_actual_sending_rate_mbps := Fin 8 \<rparr>"
  let ?iv = "hd (mq_monitor_intervals sample_queue)"
  have n: "CalculateUtilityVivace sample_platform ?iv
      ((um_new sample_stats)\<lparr> um_stats := ?st\<lparr> st_loss_rate := Fin (1 / 4) \<rparr> \<rparr>) \<noteq> NaN"
    by (simp add: CalculateUtilityVivace_def CalculateUtilityProportional_def penalised_gradient_def
        um_new_def sample_platform_def kVivaceLossCoefficient_def kLatencyCoefficient_def
        sample_stats_def sample_queue_def new_monitor_interval_def fp_eval)
  show ?thesis
    using vivace_utility_loss_antitone [where ?l1.0 = "1 / 4" and ?l2.0 = "1 / 2" and st = ?st
        and r = 8 and pf = sample_platform and iv = ?iv and um = "um_new sample_stats"] n
    by (simp add: powi_eval)
qed

end
