(* ===== verification/Pcc_Sender.thy ===== *)
theory Pcc_Sender
  imports Utility_Manager
begin

text \<open>The rate controller shared by the PCC senders, src/pcc/pcc_sender.{h,cpp}: it creates a
  monitor interval when a packet is sent, updates its RTT estimates on acknowledgements, and
  moves between the modes STARTING, PROBING and DECISION_MADE when the utilities of the useful
  intervals are available.

  A virtual method is an argument of the operations that call it: the sending rate of
  non-useful intervals, the decision test, and OnUtilityAvailable, which is the delegate of the
  monitor interval queue.  The result of rand() is an argument of MaybeSetSendingRate.  The
  record is extensible; PccVivaceSender extends it.\<close>

subsection \<open>Constants\<close>

definition FLAGS_trigger_early_termination_based_on_interval_queue_front :: bool where
  "FLAGS_trigger_early_termination_based_on_interval_queue_front = False"
definition FLAGS_enable_early_termination_based_on_latest_rtt_trend :: bool where
  "FLAGS_enable_early_termination_based_on_latest_rtt_trend = False"
definition FLAGS_max_rtt_fluctuation_tolerance_ratio_in_starting :: fp where
  "FLAGS_max_rtt_fluctuation_tolerance_ratio_in_starting = Fin 100"
definition FLAGS_max_rtt_fluctuation_tolerance_ratio_in_decision_made :: fp where
  "FLAGS_max_rtt_fluctuation_tolerance_ratio_in_decision_made = Fin 1"
definition FLAGS_can_send_respect_congestion_window :: bool where
  "FLAGS_can_send_respect_congestion_window = True"
definition FLAGS_exit_starting_based_on_sampled_bandwidth :: bool where
  "FLAGS_exit_starting_based_on_sampled_bandwidth = False"
definition FLAGS_restore_central_rate_upon_app_limited :: bool where
  "FLAGS_restore_central_rate_upon_app_limited = False"

definition kNumIntervalGroupsInProbingScavenger :: nat where
  "kNumIntervalGroupsInProbingScavenger = 2"
definition kNumIntervalGroupsInProbingPrimary :: nat where
  "kNumIntervalGroupsInProbingPrimary = 3"
definition kInitialRtt :: quic_delta where "kInitialRtt = 100000"
definition kDefaultTCPMSS :: int where "kDefaultTCPMSS = 1400"
definition kMegabit :: int where "kMegabit = 1024 * 1024"
definition kProbingStepSize :: fp where "kProbingStepSize = f_lit (5 / 100)"
definition kDecisionMadeStepSize :: fp where "kDecisionMadeStepSize = f_lit (2 / 100)"
definition kMaxDecisionMadeStepSize :: fp where "kMaxDecisionMadeStepSize = f_lit (10 / 100)"
definition kMinReliabilityRatio :: fp where "kMinReliabilityRatio = f_lit (8 / 10)"

subsection \<open>State\<close>

datatype sender_mode = STARTING | PROBING | DECISION_MADE

datatype rate_change_direction = INCREASE | DECREASE

record utility_info =
  ui_sending_rate :: quic_bandwidth
  ui_utility :: fp

record pcc_sender =
  s_mode :: sender_mode
  s_sending_rate :: quic_bandwidth
  s_has_seen_valid_rtt :: bool
  s_latest_utility :: fp
  s_conn_start_time :: quic_time
  s_monitor_duration :: quic_delta
  s_direction :: rate_change_direction
  s_rounds :: nat
  s_interval_queue :: monitor_queue
  s_rtt_on_inflation_start :: quic_delta
  s_max_cwnd_bytes :: int
  s_rtt_deviation :: quic_delta
  s_min_rtt_deviation :: quic_delta
  s_latest_rtt :: quic_delta
  s_min_rtt :: quic_delta
  s_avg_rtt :: quic_delta
  s_latest_sent_timestamp :: quic_time
  s_latest_ack_timestamp :: quic_time
  s_utility_manager :: utility_manager

definition sender_new :: "interval_stats \<Rightarrow> int \<Rightarrow> int \<Rightarrow> pcc_sender outcome" where
  "sender_new stats initial_congestion_window max_congestion_window =
     map_outcome (\<lambda>rate.
       \<lparr> s_mode = STARTING, s_sending_rate = rate, s_has_seen_valid_rtt = False,
         s_latest_utility = Fin 0, s_conn_start_time = 0, s_monitor_duration = 0,
         s_direction = INCREASE, s_rounds = 1, s_interval_queue = mq_new,
         s_rtt_on_inflation_start = 0,
         s_max_cwnd_bytes = u64 (max_congestion_window * kDefaultTCPMSS),
         s_rtt_deviation = 0, s_min_rtt_deviation = 0, s_latest_rtt = 0, s_min_rtt = 0,
         s_avg_rtt = 0, s_latest_sent_timestamp = 0, s_latest_ack_timestamp = 0,
         s_utility_manager = um_new stats \<rparr>)
     (bw_from_bytes_and_delta (u64 (initial_congestion_window * kDefaultTCPMSS)) kInitialRtt)"

subsection \<open>Reading the state\<close>

definition GetNumIntervalGroupsInProbing :: "'a pcc_sender_scheme \<Rightarrow> nat" where
  "GetNumIntervalGroupsInProbing s =
     (if um_effective_utility_tag (s_utility_manager s) = ''Scavenger''
      then kNumIntervalGroupsInProbingScavenger else kNumIntervalGroupsInProbingPrimary)"

definition decision_step :: "'a pcc_sender_scheme \<Rightarrow> fp" where
  "decision_step s =
     fp_min (f_mul (f_int (int (s_rounds s))) kDecisionMadeStepSize) kMaxDecisionMadeStepSize"

definition one_plus :: "fp \<Rightarrow> fp" where "one_plus x = f_add (Fin 1) x"
definition one_minus :: "fp \<Rightarrow> fp" where "one_minus x = f_sub (Fin 1) x"

text \<open>\<open>1.0 / x\<close> is a double, narrowed to the float factor of the bandwidth product.\<close>

definition inverse_factor :: "fp \<Rightarrow> fp" where
  "inverse_factor x = to_f (d_div (Fin 1) x)"

definition GetMaxRttFluctuationTolerance :: "'a pcc_sender_scheme \<Rightarrow> fp" where
  "GetMaxRttFluctuationTolerance s =
     (if s_mode s = STARTING then FLAGS_max_rtt_fluctuation_tolerance_ratio_in_starting
      else FLAGS_max_rtt_fluctuation_tolerance_ratio_in_decision_made)"

definition GetSendingRateForNonUsefulInterval ::
  "platform \<Rightarrow> 'a pcc_sender_scheme \<Rightarrow> quic_bandwidth" where
  "GetSendingRateForNonUsefulInterval pf s =
     (case s_mode s of
        STARTING \<Rightarrow> bw_mul pf (s_sending_rate s) (Fin (1 / 2))
      | PROBING \<Rightarrow> bw_mul pf (s_sending_rate s) (one_minus kProbingStepSize)
      | DECISION_MADE \<Rightarrow>
          (if s_direction s = DECREASE then s_sending_rate s
           else bw_mul pf (s_sending_rate s) (inverse_factor (one_plus (decision_step s)))))"

definition CanSend :: "'a pcc_sender_scheme \<Rightarrow> int \<Rightarrow> bool" where
  "CanSend s bytes_in_flight =
     (if \<not> FLAGS_can_send_respect_congestion_window then True
      else \<not> u64 (int (mq_size (s_interval_queue s))
                   - int (mq_num_useful_intervals (s_interval_queue s))) > 4)"

definition PacingRate :: "'a pcc_sender_scheme \<Rightarrow> int \<Rightarrow> quic_bandwidth outcome" where
  "PacingRate s bytes_in_flight =
     (if mq_empty (s_interval_queue s) then Inr (s_sending_rate s)
      else map_outcome mi_sending_rate (mq_current (s_interval_queue s)))"

definition GetCongestionWindow :: "'a pcc_sender_scheme \<Rightarrow> int" where
  "GetCongestionWindow s =
     bw_to_bytes_per_period (s_sending_rate s) (if s_min_rtt s = 0 then kInitialRtt else s_min_rtt s)"

subsection \<open>Creating monitor intervals\<close>

definition CreateNewInterval ::
  "platform \<Rightarrow> quic_time \<Rightarrow> 'a pcc_sender_scheme \<Rightarrow> (bool \<times> 'a pcc_sender_scheme) outcome" where
  "CreateNewInterval pf event_time s =
     (let q = s_interval_queue s in
      if mq_empty q then Inr (True, s)
      else if s_latest_rtt s = 0 then Inr (False, s)
      else if mq_num_useful_intervals q = 0 then Inr (True, s)
      else bind_outcome (mq_current q) (\<lambda>cur.
        if \<not> mi_is_useful cur then Inr (False, s)
        else if \<not> mi_has_enough_reliable_rtt cur \<or>
                time_diff event_time (mi_first_packet_sent_time cur) < s_monitor_duration s
        then Inr (False, s)
        else if fp_lt kMinReliabilityRatio
                  (f_div (f_int (int (mi_num_reliable_rtt cur)))
                         (f_int (int (length (mi_packet_rtt_samples cur)))))
        then Inr (True, s)
        else if mi_is_monitor_duration_extended cur then Inr (True, s)
        else map_outcome (\<lambda>q'. (False,
               s\<lparr> s_monitor_duration := delta_mul_double pf (s_monitor_duration s) (Fin 2),
                  s_interval_queue := q' \<rparr>))
             (mq_extend_current_interval q)))"

definition CreateUsefulInterval :: "'a pcc_sender_scheme \<Rightarrow> bool outcome" where
  "CreateUsefulInterval s =
     (if s_avg_rtt s = 0 then guard_outcome Assert_Failed (s_mode s = STARTING) (Inr False)
      else let max_num_useful =
             (if s_mode s = PROBING then 2 * GetNumIntervalGroupsInProbing s else 1)
           in Inr (mq_num_useful_intervals (s_interval_queue s) < max_num_useful))"

definition RestoreCentralSendingRate ::
  "platform \<Rightarrow> 'a pcc_sender_scheme \<Rightarrow> 'a pcc_sender_scheme outcome" where
  "RestoreCentralSendingRate pf s =
     (case s_mode s of
        STARTING \<Rightarrow> Inr s
      | PROBING \<Rightarrow>
          bind_outcome (mq_current (s_interval_queue s)) (\<lambda>cur. Inr
            (if mi_is_useful cur
             then s\<lparr> s_sending_rate := bw_mul pf (s_sending_rate s)
                    (inverse_factor (if s_direction s = INCREASE then one_plus kProbingStepSize
                                     else one_minus kProbingStepSize)) \<rparr>
             else s))
      | DECISION_MADE \<Rightarrow>
          Inr (s\<lparr> s_sending_rate := bw_mul pf (s_sending_rate s)
                    (inverse_factor (if s_direction s = INCREASE then one_plus (decision_step s)
                                     else one_minus (decision_step s))) \<rparr>))"

text \<open>The last part of MaybeSetSendingRate: the direction of the next interval and its rate.\<close>

definition set_probing_rate ::
  "platform \<Rightarrow> int \<Rightarrow> 'a pcc_sender_scheme \<Rightarrow> 'a pcc_sender_scheme" where
  "set_probing_rate pf rand_value s =
     (let dir = (if even (mq_num_useful_intervals (s_interval_queue s))
                 then (if cmod rand_value 2 = 1 then INCREASE else DECREASE)
                 else (if s_direction s = INCREASE then DECREASE else INCREASE))
      in s\<lparr> s_direction := dir,
            s_sending_rate := bw_mul pf (s_sending_rate s)
              (if dir = INCREASE then one_plus kProbingStepSize else one_minus kProbingStepSize) \<rparr>)"

definition MaybeSetSendingRate ::
  "platform \<Rightarrow> int \<Rightarrow> 'a pcc_sender_scheme \<Rightarrow> 'a pcc_sender_scheme outcome" where
  "MaybeSetSendingRate pf rand_value s =
     (let q = s_interval_queue s;
          useful = mq_num_useful_intervals q;
          all_groups = 2 * GetNumIntervalGroupsInProbing s in
      if s_mode s \<noteq> PROBING then Inr s
      else bind_outcome
        (if useful = all_groups then map_outcome (\<lambda>cur. \<not> mi_is_useful cur) (mq_current q)
         else Inr False)
        (\<lambda>round_complete.
           if round_complete then Inr s
           else if useful \<noteq> 0
           then bind_outcome (RestoreCentralSendingRate pf s) (\<lambda>s1.
                  if useful = all_groups then Inr s1 else Inr (set_probing_rate pf rand_value s1))
           else Inr (set_probing_rate pf rand_value s)))"

text \<open>OnPacketSent; \<open>non_useful_rate\<close> is the virtual GetSendingRateForNonUsefulInterval.\<close>

definition start_interval ::
  "platform \<Rightarrow> ('a pcc_sender_scheme \<Rightarrow> quic_bandwidth) \<Rightarrow> int \<Rightarrow> 'a pcc_sender_scheme
     \<Rightarrow> 'a pcc_sender_scheme outcome" where
  "start_interval pf non_useful_rate rand_value s =
     bind_outcome (MaybeSetSendingRate pf rand_value s) (\<lambda>s1.
       let s2 = s1\<lparr> s_monitor_duration := delta_mul_double pf (s_min_rtt s1) (Fin 1) \<rparr> in
       bind_outcome (CreateUsefulInterval s2) (\<lambda>is_useful.
         Inr (s2\<lparr> s_interval_queue := mq_EnqueueNewMonitorInterval
                    (if is_useful then s_sending_rate s2 else non_useful_rate s2) is_useful
                    (GetMaxRttFluctuationTolerance s2) (s_avg_rtt s2) (s_interval_queue s2) \<rparr>)))"

definition sender_OnPacketSent ::
  "platform \<Rightarrow> ('a pcc_sender_scheme \<Rightarrow> quic_bandwidth) \<Rightarrow> int \<Rightarrow> quic_time \<Rightarrow> int \<Rightarrow> int
     \<Rightarrow> 'a pcc_sender_scheme \<Rightarrow> 'a pcc_sender_scheme outcome" where
  "sender_OnPacketSent pf non_useful_rate rand_value sent_time packet_number bytes s0 =
     (let s = (if time_is_initialized (s_conn_start_time s0) then s0
               else s0\<lparr> s_conn_start_time := sent_time, s_latest_sent_timestamp := sent_time \<rparr>) in
      bind_outcome (CreateNewInterval pf sent_time s) (\<lambda>(create, s1).
        bind_outcome (if create then start_interval pf non_useful_rate rand_value s1 else Inr s1)
          (\<lambda>s2. Inr (s2\<lparr> s_interval_queue := mq_OnPacketSent sent_time packet_number bytes
                          (time_diff sent_time (s_latest_sent_timestamp s2)) (s_interval_queue s2),
                        s_latest_sent_timestamp := sent_time \<rparr>))))"

subsection \<open>Entering PROBING and DECISION\_MADE\<close>

definition switch_hybrid_tag :: "platform \<Rightarrow> 'a pcc_sender_scheme \<Rightarrow> 'a pcc_sender_scheme" where
  "switch_hybrid_tag pf s =
     (let um = s_utility_manager s in
      if um_utility_tag um = ''Hybrid'' then
        (let higher_probing_rate_mbps =
               f_div (f_int (bw_mul pf (s_sending_rate s) (one_plus kProbingStepSize))) (f_int kMegabit);
             hybrid_switching_rate_mbps = um_GetUtilityParameter 0 um;
             tag = (if fp_lt hybrid_switching_rate_mbps higher_probing_rate_mbps
                    then ''Scavenger'' else ''Hybrid'')
         in s\<lparr> s_utility_manager := um_SetEffectiveUtilityTag tag um \<rparr>)
      else s)"

definition EnterProbing ::
  "platform \<Rightarrow> 'a pcc_sender_scheme \<Rightarrow> 'a pcc_sender_scheme outcome" where
  "EnterProbing pf s0 =
     bind_outcome
       (case s_mode s0 of
          STARTING \<Rightarrow> Inr (s0\<lparr> s_sending_rate := bw_mul pf (s_sending_rate s0) (Fin (1 / 2)) \<rparr>)
        | _ \<Rightarrow> RestoreCentralSendingRate pf s0)
       (\<lambda>s. if s_mode s = PROBING then Inr (s\<lparr> s_rounds := Suc (s_rounds s) \<rparr>)
            else Inr (switch_hybrid_tag pf (s\<lparr> s_mode := PROBING, s_rounds := 1 \<rparr>)))"

definition EnterDecisionMade ::
  "platform \<Rightarrow> 'a pcc_sender_scheme \<Rightarrow> 'a pcc_sender_scheme outcome" where
  "EnterDecisionMade pf s =
     guard_outcome Assert_Failed (s_mode s = PROBING)
       (Inr (s\<lparr> s_sending_rate :=
                  (if s_direction s = INCREASE
                   then bw_mul pf (bw_mul pf (s_sending_rate s) (one_plus kProbingStepSize))
                          (one_plus kDecisionMadeStepSize)
                   else bw_mul pf (bw_mul pf (s_sending_rate s) (one_minus kProbingStepSize))
                          (one_minus kDecisionMadeStepSize)),
                s_mode := DECISION_MADE, s_rounds := 1 \<rparr>))"

subsection \<open>Decisions\<close>

text \<open>Whether group \<open>i\<close> of a probing round votes for increasing the rate.\<close>

definition group_increases :: "utility_info list \<Rightarrow> nat \<Rightarrow> bool" where
  "group_increases info i =
     (let a = info ! (2 * i); b = info ! (2 * i + 1) in
      if fp_lt (ui_utility b) (ui_utility a) then ui_sending_rate a > ui_sending_rate b
      else ui_sending_rate a < ui_sending_rate b)"

definition CanMakeDecision :: "'a pcc_sender_scheme \<Rightarrow> utility_info list \<Rightarrow> bool" where
  "CanMakeDecision s info =
     (let g = GetNumIntervalGroupsInProbing s in
      if length info < 2 * g then False
      else list_all (\<lambda>i. group_increases info i = group_increases info 0) [0..<g])"

text \<open>The utilities of the delivered intervals, in order; each calculation changes the
  manager.\<close>

fun compute_utilities ::
  "platform \<Rightarrow> monitor_interval list \<Rightarrow> utility_manager
     \<Rightarrow> (utility_info list \<times> utility_manager) outcome" where
  "compute_utilities pf [] um = Inr ([], um)"
| "compute_utilities pf (iv # ivs) um =
     bind_outcome (CalculateUtility pf iv um) (\<lambda>(u, um1).
       map_outcome (\<lambda>(us, um2).
           (\<lparr> ui_sending_rate = mi_sending_rate iv, ui_utility = u \<rparr> # us, um2))
         (compute_utilities pf ivs um1))"

definition on_starting ::
  "platform \<Rightarrow> utility_info list \<Rightarrow> 'a pcc_sender_scheme \<Rightarrow> 'a pcc_sender_scheme outcome" where
  "on_starting pf info s =
     guard_outcome Assert_Failed (length info = 1)
       (if fp_lt (s_latest_utility s) (ui_utility (info ! 0))
        then Inr (s\<lparr> s_sending_rate := bw_mul pf (s_sending_rate s) (Fin 2),
                     s_latest_utility := ui_utility (info ! 0), s_rounds := Suc (s_rounds s) \<rparr>)
        else EnterProbing pf s)"

definition restore_if_app_limited ::
  "platform \<Rightarrow> 'a pcc_sender_scheme \<Rightarrow> 'a pcc_sender_scheme outcome" where
  "restore_if_app_limited pf s =
     (if FLAGS_restore_central_rate_upon_app_limited
      then bind_outcome (mq_current (s_interval_queue s)) (\<lambda>cur.
             if mi_is_useful cur then RestoreCentralSendingRate pf s else Inr s)
      else Inr s)"

definition on_probing ::
  "platform \<Rightarrow> ('a pcc_sender_scheme \<Rightarrow> utility_info list \<Rightarrow> bool) \<Rightarrow> utility_info list
     \<Rightarrow> 'a pcc_sender_scheme \<Rightarrow> 'a pcc_sender_scheme outcome" where
  "on_probing pf can_make_decision info s0 =
     (if can_make_decision s0 info then
        bind_outcome (restore_if_app_limited pf s0) (\<lambda>s.
          let g = GetNumIntervalGroupsInProbing s;
              higher_first = (ui_sending_rate (info ! 0) > ui_sending_rate (info ! 1)) in
          guard_outcome Assert_Failed (length info = 2 * g)
            (EnterDecisionMade pf
              (s\<lparr> s_direction :=
                    (if fp_lt (ui_utility (info ! 1)) (ui_utility (info ! 0))
                     then (if higher_first then INCREASE else DECREASE)
                     else (if higher_first then DECREASE else INCREASE)),
                  s_latest_utility := fp_max (ui_utility (info ! (2 * g - 2)))
                                             (ui_utility (info ! (2 * g - 1))) \<rparr>)))
      else EnterProbing pf s0)"

definition on_decision_made ::
  "platform \<Rightarrow> utility_info list \<Rightarrow> 'a pcc_sender_scheme \<Rightarrow> 'a pcc_sender_scheme outcome" where
  "on_decision_made pf info s =
     guard_outcome Assert_Failed (length info = 1)
       (if fp_lt (s_latest_utility s) (ui_utility (info ! 0))
        then let s1 = s\<lparr> s_rounds := Suc (s_rounds s) \<rparr> in
             Inr (s1\<lparr> s_sending_rate := bw_mul pf (s_sending_rate s1)
                        (if s_direction s1 = INCREASE then one_plus (decision_step s1)
                         else one_minus (decision_step s1)),
                     s_latest_utility := ui_utility (info ! 0) \<rparr>)
        else EnterProbing pf s)"

definition sender_OnUtilityAvailable ::
  "platform \<Rightarrow> ('a pcc_sender_scheme \<Rightarrow> utility_info list \<Rightarrow> bool) \<Rightarrow> monitor_interval list
     \<Rightarrow> quic_time \<Rightarrow> 'a pcc_sender_scheme \<Rightarrow> 'a pcc_sender_scheme outcome" where
  "sender_OnUtilityAvailable pf can_make_decision us event_time s0 =
     bind_outcome (compute_utilities pf us (s_utility_manager s0)) (\<lambda>(info, um).
       let s = s0\<lparr> s_utility_manager := um \<rparr> in
       case s_mode s of
         STARTING \<Rightarrow> on_starting pf info s
       | PROBING \<Rightarrow> on_probing pf can_make_decision info s
       | DECISION_MADE \<Rightarrow> on_decision_made pf info s)"

subsection \<open>Acknowledgements and losses\<close>

definition UpdateRtt ::
  "platform \<Rightarrow> quic_time \<Rightarrow> quic_delta \<Rightarrow> 'a pcc_sender_scheme \<Rightarrow> 'a pcc_sender_scheme" where
  "UpdateRtt pf event_time rtt s =
     (let dev = (if s_rtt_deviation s = 0 then cdiv rtt 2
                 else fp_to_i64 pf (d_add (d_mul (Fin (3 / 4)) (d_int (s_rtt_deviation s)))
                        (d_mul (Fin (1 / 4)) (d_int (i64 \<bar>delta_sub (s_avg_rtt s) rtt\<bar>)))))
      in s\<lparr> s_latest_rtt := rtt,
            s_rtt_deviation := dev,
            s_min_rtt_deviation :=
              (if s_min_rtt_deviation s = 0 \<or> dev < s_min_rtt_deviation s then dev
               else s_min_rtt_deviation s),
            s_avg_rtt :=
              (if s_avg_rtt s = 0 then rtt
               else delta_add (delta_mul_double pf (s_avg_rtt s) (Fin (7 / 8)))
                              (delta_mul_double pf rtt (Fin (1 / 8)))),
            s_min_rtt := (if s_min_rtt s = 0 \<or> rtt < s_min_rtt s then rtt else s_min_rtt s),
            s_latest_ack_timestamp := event_time \<rparr>)"

definition CheckForRttInflation ::
  "platform \<Rightarrow> 'a pcc_sender_scheme \<Rightarrow> (bool \<times> 'a pcc_sender_scheme) outcome" where
  "CheckForRttInflation pf s =
     (let q = s_interval_queue s; no_inflation = (False, s\<lparr> s_rtt_on_inflation_start := 0 \<rparr>) in
      if mq_empty q then Inr no_inflation
      else bind_outcome (mq_front q) (\<lambda>front. bind_outcome (mq_current q) (\<lambda>cur.
        if mi_rtt_on_monitor_start front = 0 \<or> s_latest_rtt s \<le> s_avg_rtt s
        then Inr no_inflation
        else let s1 = (if s_rtt_on_inflation_start s = 0
                       then s\<lparr> s_rtt_on_inflation_start := s_avg_rtt s \<rparr> else s);
                 max_inflation_ratio = one_plus (GetMaxRttFluctuationTolerance s1);
                 rtt_on_monitor_start =
                   (if FLAGS_trigger_early_termination_based_on_interval_queue_front
                    then mi_rtt_on_monitor_start front else mi_rtt_on_monitor_start cur);
                 is_inflated =
                   (delta_mul_double pf rtt_on_monitor_start max_inflation_ratio < s_avg_rtt s1 \<or>
                    FLAGS_enable_early_termination_based_on_latest_rtt_trend \<and>
                    delta_mul_double pf (s_rtt_on_inflation_start s1) max_inflation_ratio
                      < s_avg_rtt s1)
             in Inr (is_inflated,
                     if is_inflated then s1\<lparr> s_rtt_on_inflation_start := 0 \<rparr> else s1))))"

text \<open>The first part of OnCongestionEvent: timestamps, RTT estimates, and the initial rate once
  an RTT is known.\<close>

definition note_congestion_event ::
  "platform \<Rightarrow> bool \<Rightarrow> quic_delta \<Rightarrow> quic_time \<Rightarrow> 'a pcc_sender_scheme
     \<Rightarrow> quic_delta \<times> 'a pcc_sender_scheme" where
  "note_congestion_event pf rtt_updated rtt event_time s0 =
     (let s1 = (if time_is_initialized (s_latest_ack_timestamp s0) then s0
                else s0\<lparr> s_latest_ack_timestamp := event_time \<rparr>);
          ack_interval = (if rtt_updated then time_diff event_time (s_latest_ack_timestamp s1) else 0);
          s2 = (if rtt_updated then UpdateRtt pf event_time rtt s1 else s1);
          s3 = (if s_has_seen_valid_rtt s2 then s2
                else s2\<lparr> s_has_seen_valid_rtt := True,
                  s_sending_rate :=
                    (if s_latest_rtt s2 < kInitialRtt
                     then bw_mul pf (s_sending_rate s2)
                            (f_div (f_int kInitialRtt) (f_int (s_latest_rtt s2)))
                     else s_sending_rate s2) \<rparr>)
      in (ack_interval, s3))"

definition sender_OnCongestionEvent ::
  "platform \<Rightarrow> (monitor_interval list \<Rightarrow> quic_time \<Rightarrow> 'a pcc_sender_scheme \<Rightarrow> 'a pcc_sender_scheme outcome)
     \<Rightarrow> bool \<Rightarrow> quic_delta \<Rightarrow> quic_time \<Rightarrow> acked_packet list \<Rightarrow> lost_packet list
     \<Rightarrow> 'a pcc_sender_scheme \<Rightarrow> 'a pcc_sender_scheme outcome" where
  "sender_OnCongestionEvent pf on_utility_available rtt_updated rtt event_time acked lost s0 =
     (case note_congestion_event pf rtt_updated rtt event_time s0 of (ack_interval, s) \<Rightarrow>
       bind_outcome (if s_mode s = STARTING then CheckForRttInflation pf s else Inr (False, s))
         (\<lambda>(inflated, s1).
            if inflated
            then EnterProbing pf
                   (s1\<lparr> s_interval_queue := mq_OnRttInflationInStarting (s_interval_queue s1) \<rparr>)
            else let ev = \<lparr> ce_acked_packets = acked, ce_lost_packets = lost,
                            ce_avg_rtt = s_avg_rtt s, ce_latest_rtt = s_latest_rtt s1,
                            ce_min_rtt = s_min_rtt s1, ce_event_time = event_time,
                            ce_ack_interval = ack_interval \<rparr>
                 in map_outcome (\<lambda>(q, s2). s2\<lparr> s_interval_queue := q \<rparr>)
                      (mq_OnCongestionEvent
                        (\<lambda>q us t d. on_utility_available us t (d\<lparr> s_interval_queue := q \<rparr>))
                        ev (s_interval_queue s1) s1)))"

definition SetUtilityTag :: "string \<Rightarrow> 'a pcc_sender_scheme \<Rightarrow> 'a pcc_sender_scheme" where
  "SetUtilityTag tag s = s\<lparr> s_utility_manager := um_SetUtilityTag tag (s_utility_manager s) \<rparr>"

definition SetUtilityParameter :: "fp \<Rightarrow> 'a pcc_sender_scheme \<Rightarrow> 'a pcc_sender_scheme" where
  "SetUtilityParameter param s =
     s\<lparr> s_utility_manager := um_SetUtilityParameter param (s_utility_manager s) \<rparr>"

subsection \<open>Invariant\<close>

text \<open>At most one useful interval is outstanding in STARTING and DECISION\_MADE, at most two per
  group in PROBING; without an RTT estimate the sender is in STARTING and has none.\<close>

definition useful_limit :: "'a pcc_sender_scheme \<Rightarrow> nat" where
  "useful_limit s = (if s_mode s = PROBING then 2 * GetNumIntervalGroupsInProbing s else 1)"

definition max_rtt :: int where "max_rtt = 2 ^ 40"

definition sender_idle :: "'a pcc_sender_scheme \<Rightarrow> bool" where
  "sender_idle s \<longleftrightarrow> um_inv (s_utility_manager s) \<and> um_ready (s_utility_manager s) \<and>
     0 \<le> s_avg_rtt s \<and> s_avg_rtt s \<le> max_rtt + 8 \<and>
     (s_avg_rtt s = 0 \<longrightarrow> s_mode s = STARTING \<and> s_latest_rtt s = 0)"

definition sender_ready :: "monitor_queue \<Rightarrow> 'a pcc_sender_scheme \<Rightarrow> bool" where
  "sender_ready q s \<longleftrightarrow> sender_idle s \<and> mq_num_useful_intervals q \<le> useful_limit s \<and>
     (s_avg_rtt s = 0 \<longrightarrow> mq_num_useful_intervals q = 0)"

definition sender_inv :: "'a pcc_sender_scheme \<Rightarrow> bool" where
  "sender_inv s \<longleftrightarrow> mq_inv (s_interval_queue s) \<and> mq_settled (s_interval_queue s) \<and>
     sender_ready (s_interval_queue s) s"

lemma groups_cases: "GetNumIntervalGroupsInProbing s = 2 \<or> GetNumIntervalGroupsInProbing s = 3"
  by (simp add: GetNumIntervalGroupsInProbing_def kNumIntervalGroupsInProbingScavenger_def
      kNumIntervalGroupsInProbingPrimary_def)

lemma groups_pos [simp]:
  "0 < GetNumIntervalGroupsInProbing s" "GetNumIntervalGroupsInProbing s \<noteq> 0"
  using groups_cases [of s] by auto

lemma useful_limit_pos [simp]: "0 < useful_limit s"
  by (simp add: useful_limit_def)

text \<open>What the rate adjustments leave alone.\<close>

definition same_core :: "'a pcc_sender_scheme \<Rightarrow> 'a pcc_sender_scheme \<Rightarrow> bool" where
  "same_core s s' \<longleftrightarrow> s_mode s' = s_mode s \<and> s_interval_queue s' = s_interval_queue s \<and>
     s_utility_manager s' = s_utility_manager s \<and> s_avg_rtt s' = s_avg_rtt s \<and>
     s_latest_rtt s' = s_latest_rtt s"

lemma same_core_refl [simp]: "same_core s s"
  by (simp add: same_core_def)

lemma same_core_trans: "same_core a b \<Longrightarrow> same_core b c \<Longrightarrow> same_core a c"
  by (simp add: same_core_def)

lemma same_core_updates [simp]:
  "same_core s (s\<lparr> s_sending_rate := r \<rparr>)" "same_core s (s\<lparr> s_direction := d \<rparr>)"
  "same_core s (s\<lparr> s_monitor_duration := m \<rparr>)"
  "same_core s (s\<lparr> s_direction := d, s_sending_rate := r \<rparr>)"
  by (simp_all add: same_core_def)

lemma same_core_groups:
  "same_core s s' \<Longrightarrow> GetNumIntervalGroupsInProbing s' = GetNumIntervalGroupsInProbing s"
  "same_core s s' \<Longrightarrow> useful_limit s' = useful_limit s"
  "same_core s s' \<Longrightarrow> sender_idle s' = sender_idle s"
  "same_core s s' \<Longrightarrow> sender_ready q s' = sender_ready q s"
  "same_core s s' \<Longrightarrow> sender_inv s' = sender_inv s"
  by (simp_all add: same_core_def useful_limit_def GetNumIntervalGroupsInProbing_def
      sender_idle_def sender_ready_def sender_inv_def)

lemma sender_ready_cong:
  assumes "s_mode s' = s_mode s" "s_utility_manager s' = s_utility_manager s"
    "s_avg_rtt s' = s_avg_rtt s" "s_latest_rtt s' = s_latest_rtt s"
  shows "sender_ready q s' = sender_ready q s"
  using assms by (simp add: sender_ready_def sender_idle_def useful_limit_def
      GetNumIntervalGroupsInProbing_def)

lemma sender_ready_same_useful:
  "sender_ready q s \<Longrightarrow> mq_num_useful_intervals q' = mq_num_useful_intervals q \<Longrightarrow> sender_ready q' s"
  by (simp add: sender_ready_def)

lemma set_probing_rate_core [simp]: "same_core s (set_probing_rate pf v s)"
  by (simp add: set_probing_rate_def Let_def)

lemma current_of_useful:
  "mq_inv q \<Longrightarrow> mq_num_useful_intervals q \<noteq> 0 \<Longrightarrow> \<exists>cur. mq_current q = Inr cur"
  by (auto simp: mq_inv_def mq_current_def useful_intervals_def)

lemma restore_central_total:
  assumes "mq_current (s_interval_queue s) = Inr cur"
  shows "\<exists>s'. RestoreCentralSendingRate pf s = Inr s' \<and> same_core s s'"
  using assms by (cases "s_mode s") (simp_all add: RestoreCentralSendingRate_def)

lemma maybe_set_rate_total:
  assumes "mq_inv (s_interval_queue s)"
  shows "\<exists>s'. MaybeSetSendingRate pf v s = Inr s' \<and> same_core s s'"
proof (cases "s_mode s = PROBING \<and> mq_num_useful_intervals (s_interval_queue s) \<noteq> 0")
  case False
  then have "s_mode s = PROBING \<Longrightarrow>
      mq_num_useful_intervals (s_interval_queue s) \<noteq> 2 * GetNumIntervalGroupsInProbing s"
    using groups_pos [of s] by linarith
  then show ?thesis using False by (auto simp: MaybeSetSendingRate_def Let_def)
next
  case True
  then obtain cur where c: "mq_current (s_interval_queue s) = Inr cur"
    using current_of_useful [OF assms] by blast
  obtain s1 where s1: "RestoreCentralSendingRate pf s = Inr s1" "same_core s s1"
    using restore_central_total [OF c] by blast
  have "same_core s (set_probing_rate pf v s1)"
    by (rule same_core_trans [OF s1(2) set_probing_rate_core])
  then show ?thesis using True c s1 by (auto simp: MaybeSetSendingRate_def Let_def)
qed

subsection \<open>Delivered utilities\<close>

lemma compute_utilities_total:
  assumes "um_ready um" "\<forall>iv\<in>set us. \<not> HasInvalidUtility iv" "um_inv um"
  shows "\<exists>info um'. compute_utilities pf us um = Inr (info, um') \<and> same_config um um' \<and>
     um_inv um' \<and> map ui_sending_rate info = map mi_sending_rate us"
  using assms
proof (induction us arbitrary: um)
  case Nil
  then show ?case by simp
next
  case (Cons iv us)
  obtain u um1 where u: "CalculateUtility pf iv um = Inr (u, um1)"
    using calculate_utility_total [of um iv pf] Cons.prems by auto
  have c: "same_config um um1" "um_inv um1"
    using calculate_utility_config [OF u] Cons.prems by auto
  then have "um_ready um1" using um_ready_config Cons.prems by blast
  then obtain info um' where "compute_utilities pf us um1 = Inr (info, um')"
      "same_config um1 um'" "um_inv um'" "map ui_sending_rate info = map mi_sending_rate us"
    using Cons.IH [of um1] Cons.prems c by auto
  then show ?case using u same_config_trans [OF c(1)] by simp
qed

lemma switch_hybrid_tag_simps [simp]:
  "s_mode (switch_hybrid_tag pf s) = s_mode s"
  "s_avg_rtt (switch_hybrid_tag pf s) = s_avg_rtt s"
  "s_interval_queue (switch_hybrid_tag pf s) = s_interval_queue s"
  "s_sending_rate (switch_hybrid_tag pf s) = s_sending_rate s"
  "s_rounds (switch_hybrid_tag pf s) = s_rounds s"
  "um_inv (s_utility_manager (switch_hybrid_tag pf s)) = um_inv (s_utility_manager s)"
  "um_ready (s_utility_manager (switch_hybrid_tag pf s)) = um_ready (s_utility_manager s)"
  by (simp_all add: switch_hybrid_tag_def Let_def um_SetEffectiveUtilityTag_def um_inv_def um_ready_def)

lemma enter_probing_total:
  assumes "s_mode s \<noteq> STARTING \<longrightarrow> (\<exists>cur. mq_current (s_interval_queue s) = Inr cur)"
    and "sender_idle s" "s_avg_rtt s \<noteq> 0"
  shows "\<exists>s'. EnterProbing pf s = Inr s' \<and> sender_idle s' \<and> s_mode s' = PROBING \<and>
     s_interval_queue s' = s_interval_queue s \<and> s_avg_rtt s' = s_avg_rtt s"
proof (cases "s_mode s = STARTING")
  case True
  then show ?thesis using assms by (simp add: EnterProbing_def sender_idle_def)
next
  case False
  then obtain s1 where s1: "RestoreCentralSendingRate pf s = Inr s1" "same_core s s1"
    using assms restore_central_total by blast
  have e: "EnterProbing pf s = bind_outcome (RestoreCentralSendingRate pf s)
       (\<lambda>s. if s_mode s = PROBING then Inr (s\<lparr> s_rounds := Suc (s_rounds s) \<rparr>)
            else Inr (switch_hybrid_tag pf (s\<lparr> s_mode := PROBING, s_rounds := 1 \<rparr>)))"
    using False by (cases "s_mode s") (simp_all add: EnterProbing_def)
  show ?thesis using assms s1 unfolding e by (auto simp: same_core_def sender_idle_def)
qed

lemma enter_decision_total:
  assumes "s_mode s = PROBING"
  shows "\<exists>s'. EnterDecisionMade pf s = Inr s' \<and> s_mode s' = DECISION_MADE \<and>
     s_utility_manager s' = s_utility_manager s \<and> s_avg_rtt s' = s_avg_rtt s"
  using assms by (simp add: EnterDecisionMade_def)

lemma can_make_decision_length:
  "CanMakeDecision s info \<Longrightarrow> 2 * GetNumIntervalGroupsInProbing s \<le> length info"
  by (auto simp: CanMakeDecision_def Let_def split: if_splits)

lemma restore_if_app_limited_simp [simp]: "restore_if_app_limited pf s = Inr s"
  by (simp add: restore_if_app_limited_def FLAGS_restore_central_rate_upon_app_limited_def)

lemma decision_dispatch_total:
  assumes idle: "sender_idle s" and avg: "s_avg_rtt s \<noteq> 0"
    and cur: "mq_current (s_interval_queue s) = Inr cur"
    and len: "info \<noteq> []" "length info \<le> useful_limit s"
  shows "\<exists>s'. (case s_mode s of STARTING \<Rightarrow> on_starting pf info s
       | PROBING \<Rightarrow> on_probing pf CanMakeDecision info s
       | DECISION_MADE \<Rightarrow> on_decision_made pf info s) = Inr s' \<and> sender_idle s'"
proof -
  have probing: "\<exists>s'. EnterProbing pf s = Inr s' \<and> sender_idle s'"
    using enter_probing_total [of s pf] assms by blast
  show ?thesis
  proof (cases "s_mode s")
    case STARTING
    then have "length info = 1" using len by (cases info) (auto simp: useful_limit_def)
    then show ?thesis using STARTING probing idle
      by (auto simp: on_starting_def sender_idle_def)
  next
    case PROBING
    show ?thesis
    proof (cases "CanMakeDecision s info")
      case True
      then have "length info = 2 * GetNumIntervalGroupsInProbing s"
        using can_make_decision_length [OF True] len PROBING by (simp add: useful_limit_def)
      then show ?thesis using True PROBING idle avg
        by (simp add: on_probing_def Let_def EnterDecisionMade_def sender_idle_def)
    next
      case False
      then show ?thesis using PROBING probing by (simp add: on_probing_def)
    qed
  next
    case DECISION_MADE
    then have "length info = 1" using len by (cases info) (auto simp: useful_limit_def)
    then show ?thesis using DECISION_MADE probing idle
      by (auto simp: on_decision_made_def sender_idle_def Let_def)
  qed
qed

lemma sender_idle_queue [simp]: "sender_idle (s\<lparr> s_interval_queue := q \<rparr>) = sender_idle s"
  by (simp add: sender_idle_def)

lemma useful_limit_queue [simp]: "useful_limit (s\<lparr> s_interval_queue := q \<rparr>) = useful_limit s"
  by (simp add: useful_limit_def GetNumIntervalGroupsInProbing_def)

lemma useful_limit_config:
  "same_config (s_utility_manager s) um \<Longrightarrow> useful_limit (s\<lparr> s_utility_manager := um \<rparr>) = useful_limit s"
  by (simp add: useful_limit_def GetNumIntervalGroupsInProbing_def same_config_def)

lemma sender_deliver_total:
  assumes c: "delivery_contract q us" and r: "sender_ready q d"
  shows "\<exists>d'. sender_OnUtilityAvailable pf CanMakeDecision us t (d\<lparr> s_interval_queue := q \<rparr>)
     = Inr d' \<and> sender_idle d'"
proof -
  have us: "us \<noteq> []" "mq_num_useful_intervals q = length us" "us = useful_intervals q"
    "\<forall>iv\<in>set us. \<not> HasInvalidUtility iv"
    using c by (auto simp: delivery_contract_def)
  have avg: "s_avg_rtt d \<noteq> 0" using r us by (auto simp: sender_ready_def)
  have "mq_monitor_intervals q \<noteq> []" using us(1,3) by (auto simp: useful_intervals_def)
  then obtain cur where cur: "mq_current q = Inr cur" by (simp add: mq_current_def)
  obtain info um where u: "compute_utilities pf us (s_utility_manager d) = Inr (info, um)"
      "same_config (s_utility_manager d) um" "um_inv um"
      "map ui_sending_rate info = map mi_sending_rate us"
    using compute_utilities_total [of "s_utility_manager d" us pf] us r
    by (auto simp: sender_ready_def sender_idle_def)
  let ?s = "d\<lparr> s_interval_queue := q, s_utility_manager := um \<rparr>"
  have len: "length info = length us" using u(4) by (metis length_map)
  have idle: "sender_idle ?s"
    using r u um_ready_config [OF u(2)] by (simp add: sender_ready_def sender_idle_def)
  have lim: "useful_limit ?s = useful_limit d"
    using u(2) by (simp add: useful_limit_def GetNumIntervalGroupsInProbing_def same_config_def)
  have "length info \<le> useful_limit ?s" using lim len us r by (simp add: sender_ready_def)
  moreover have "info \<noteq> []" using len us by auto
  ultimately show ?thesis
    using decision_dispatch_total [OF idle, of cur info pf] avg cur u(1)
    by (simp add: sender_OnUtilityAvailable_def Let_def)
qed

lemma sender_ready_idle: "sender_ready q d \<Longrightarrow> sender_idle d"
  by (simp add: sender_ready_def)

lemma sender_ready_kept: "mq_kept q q' \<Longrightarrow> sender_ready q d \<Longrightarrow> sender_ready q' d"
  by (simp add: sender_ready_def mq_kept_def)

subsection \<open>RTT estimates\<close>

lemma update_rtt_core [simp]:
  "s_mode (UpdateRtt pf t rtt s) = s_mode s"
  "s_interval_queue (UpdateRtt pf t rtt s) = s_interval_queue s"
  "s_utility_manager (UpdateRtt pf t rtt s) = s_utility_manager s"
  by (simp_all add: UpdateRtt_def Let_def)

text \<open>The smoothed RTT is the exact exponential average, rounded twice.\<close>

lemma smoothed_rtt:
  assumes "0 < s_avg_rtt s" "s_avg_rtt s \<le> max_rtt + 8" "0 < rtt" "rtt \<le> max_rtt"
  shows "\<bar>8 * s_avg_rtt (UpdateRtt pf t rtt s) - (7 * s_avg_rtt s + rtt)\<bar> \<le> 8"
    "0 < s_avg_rtt (UpdateRtt pf t rtt s)"
proof -
  let ?a = "s_avg_rtt s"
  define x where "x = round_away (of_int (?a * 7) / 8)"
  define y where "y = round_away (of_int (rtt * 1) / 8)"
  have b: "max_rtt = 1099511627776" by (simp add: max_rtt_def)
  have m: "delta_mul_double pf ?a (Fin (7 / 8)) = x" "delta_mul_double pf rtt (Fin (1 / 8)) = y"
    using delta_mul_eighths [of ?a 7 pf] delta_mul_eighths [of rtt 1 pf] assms b unfolding x_def y_def by simp_all
  have ex: "\<bar>rat_of_int x - of_int (?a * 7) / 8\<bar> \<le> 1 / 2" "\<bar>rat_of_int y - of_int (rtt * 1) / 8\<bar> \<le> 1 / 2"
    unfolding x_def y_def by (rule round_away_error)+
  then have "\<bar>rat_of_int (8 * x - ?a * 7)\<bar> \<le> of_int 4" "\<bar>rat_of_int (8 * y - rtt)\<bar> \<le> of_int 4"
    unfolding abs_le_iff by (simp_all add: field_simps)
  then have e: "\<bar>8 * x - ?a * 7\<bar> \<le> 4" "\<bar>8 * y - rtt\<bar> \<le> 4"
    by (simp_all only: of_int_abs [symmetric] of_int_le_iff)
  have s: "s_avg_rtt (UpdateRtt pf t rtt s) = x + y"
    using assms e b by (simp add: UpdateRtt_def Let_def m delta_add_def)
  have bounds: "8 * x - 7 * ?a \<le> 4" "7 * ?a - 8 * x \<le> 4" "8 * y - rtt \<le> 4" "rtt - 8 * y \<le> 4"
    using e unfolding abs_le_iff by simp_all
  have pos: "1 \<le> x" "0 \<le> y" using bounds assms(1,3) by linarith+
  show "\<bar>8 * s_avg_rtt (UpdateRtt pf t rtt s) - (7 * s_avg_rtt s + rtt)\<bar> \<le> 8"
    using bounds unfolding s abs_le_iff by simp
  show "0 < s_avg_rtt (UpdateRtt pf t rtt s)" using pos unfolding s by simp
qed

lemma update_rtt_avg:
  assumes "0 \<le> s_avg_rtt s" "s_avg_rtt s \<le> max_rtt + 8" "0 < rtt" "rtt \<le> max_rtt"
  shows "0 < s_avg_rtt (UpdateRtt pf t rtt s)" "s_avg_rtt (UpdateRtt pf t rtt s) \<le> max_rtt + 8"
proof -
  have "0 < s_avg_rtt (UpdateRtt pf t rtt s) \<and> s_avg_rtt (UpdateRtt pf t rtt s) \<le> max_rtt + 8"
  proof (cases "s_avg_rtt s = 0")
    case True
    then show ?thesis using assms by (simp add: UpdateRtt_def Let_def)
  next
    case False
    then show ?thesis using smoothed_rtt [of s rtt pf t] assms by linarith
  qed
  then show "0 < s_avg_rtt (UpdateRtt pf t rtt s)" "s_avg_rtt (UpdateRtt pf t rtt s) \<le> max_rtt + 8"
    by simp_all
qed

subsection \<open>The handlers never fail\<close>

definition valid_rtt :: "bool \<Rightarrow> quic_delta \<Rightarrow> bool" where
  "valid_rtt rtt_updated rtt \<longleftrightarrow> (rtt_updated \<longrightarrow> 0 < rtt \<and> rtt \<le> max_rtt)"

lemma note_congestion_event_simps [simp]:
  "s_mode (snd (note_congestion_event pf u rtt t s)) = s_mode s"
  "s_interval_queue (snd (note_congestion_event pf u rtt t s)) = s_interval_queue s"
  "s_utility_manager (snd (note_congestion_event pf u rtt t s)) = s_utility_manager s"
  by (simp_all add: note_congestion_event_def Let_def)

lemma note_congestion_event_rtt:
  "s_latest_rtt (snd (note_congestion_event pf u rtt t s)) = (if u then rtt else s_latest_rtt s)"
  "s_avg_rtt (snd (note_congestion_event pf u rtt t s)) =
     (if u then s_avg_rtt (UpdateRtt pf t rtt s) else s_avg_rtt s)"
  by (simp_all add: note_congestion_event_def UpdateRtt_def Let_def)

lemma note_congestion_event_ready:
  assumes "sender_ready q s" "valid_rtt u rtt" "note_congestion_event pf u rtt t s = (ack, s')"
  shows "sender_ready q s'" "s_interval_queue s' = s_interval_queue s" "s_mode s' = s_mode s"
proof -
  let ?s = "snd (note_congestion_event pf u rtt t s)"
  have s': "s' = ?s" using assms(3) by simp
  have "0 \<le> s_avg_rtt ?s" "s_avg_rtt ?s \<le> max_rtt + 8" "s_avg_rtt ?s = 0 \<longrightarrow> \<not> u \<and> s_avg_rtt s = 0"
    using assms(1,2) update_rtt_avg [of s rtt pf t]
    unfolding note_congestion_event_rtt
    by (auto simp: valid_rtt_def sender_ready_def sender_idle_def)
  moreover have "s_avg_rtt ?s = 0 \<longrightarrow> s_latest_rtt ?s = s_latest_rtt s"
    using calculation(3) by (auto simp: note_congestion_event_rtt(1))
  moreover have "useful_limit ?s = useful_limit s"
    by (simp add: useful_limit_def GetNumIntervalGroupsInProbing_def)
  ultimately show "sender_ready q s'" using assms(1)
    unfolding s' sender_ready_def sender_idle_def by simp
  show "s_interval_queue s' = s_interval_queue s" "s_mode s' = s_mode s" unfolding s' by simp_all
qed

lemma note_congestion_event_more_snd:
  "pcc_sender.more (snd (note_congestion_event pf u rtt t s)) = pcc_sender.more s"
  by (simp add: note_congestion_event_def UpdateRtt_def Let_def)

lemma note_congestion_event_more:
  "note_congestion_event pf u rtt t s = (ack, s') \<Longrightarrow> pcc_sender.more s' = pcc_sender.more s"
  using note_congestion_event_more_snd [of pf u rtt t s] by simp

lemma rtt_inflation_total:
  "\<exists>b s'. CheckForRttInflation pf s = Inr (b, s') \<and> same_core s s' \<and>
     (b \<longrightarrow> s_avg_rtt s < s_latest_rtt s) \<and> pcc_sender.more s' = pcc_sender.more s"
proof (cases "mq_empty (s_interval_queue s)")
  case True
  then show ?thesis by (intro exI [of _ False]) (simp add: CheckForRttInflation_def Let_def same_core_def)
next
  case False
  then obtain f c where "mq_front (s_interval_queue s) = Inr f" "mq_current (s_interval_queue s) = Inr c"
    by (cases "mq_monitor_intervals (s_interval_queue s)")
      (auto simp: mq_empty_def mq_front_def mq_current_def)
  then show ?thesis using False
    by (auto simp: CheckForRttInflation_def Let_def same_core_def)
qed

lemma enter_probing_inflation:
  assumes "sender_ready (s_interval_queue s) s" "s_mode s = STARTING" "s_avg_rtt s \<noteq> 0"
  shows "\<exists>s'. EnterProbing pf (s\<lparr> s_interval_queue := mq_OnRttInflationInStarting (s_interval_queue s) \<rparr>)
     = Inr s' \<and> sender_inv s'"
proof -
  let ?s = "s\<lparr> s_interval_queue := mq_OnRttInflationInStarting (s_interval_queue s) \<rparr>"
  have "\<exists>s'. EnterProbing pf ?s = Inr s' \<and> sender_idle s' \<and> s_mode s' = PROBING \<and>
     s_interval_queue s' = s_interval_queue ?s \<and> s_avg_rtt s' = s_avg_rtt ?s"
    using assms by (intro enter_probing_total) (simp_all add: sender_ready_def)
  then obtain s' where e: "EnterProbing pf ?s = Inr s'" "sender_idle s'"
      "s_interval_queue s' = mq_OnRttInflationInStarting (s_interval_queue s)"
    by auto
  have "sender_inv s'" using e(2,3)
    by (simp add: sender_inv_def step_inv sender_ready_def) (simp add: mq_OnRttInflationInStarting_def)
  then show ?thesis using e(1) by blast
qed

text \<open>A sender algorithm is an OnUtilityAvailable that succeeds, when the queue delivers under
  its contract, from every state that satisfies the sender's own invariant and an extra
  condition of the algorithm on the outstanding intervals, and leaves the sender idle.\<close>

locale utility_sender =
  fixes avail :: "monitor_interval list \<Rightarrow> quic_time \<Rightarrow> 'a pcc_sender_scheme \<Rightarrow> 'a pcc_sender_scheme outcome"
    and extra :: "monitor_queue \<Rightarrow> 'a pcc_sender_scheme \<Rightarrow> bool"
  assumes avail_law: "delivery_contract q us \<Longrightarrow> sender_ready q s \<Longrightarrow> extra q s \<Longrightarrow>
      \<exists>s'. avail us t (s\<lparr> s_interval_queue := q \<rparr>) = Inr s' \<and> sender_idle s'"
    and extra_kept: "mq_kept q q' \<Longrightarrow> extra q s \<Longrightarrow> extra q' s"
    and extra_frame: "s_mode s' = s_mode s \<Longrightarrow> pcc_sender.more s' = pcc_sender.more s \<Longrightarrow>
      extra q s' = extra q s"

sublocale utility_sender \<subseteq> delegate: interval_delegate
  "\<lambda>q us t d. avail us t (d\<lparr> s_interval_queue := q \<rparr>)" "\<lambda>q s. sender_ready q s \<and> extra q s" sender_idle
  using avail_law sender_ready_kept extra_kept sender_ready_idle by unfold_locales blast+

context utility_sender
begin

lemma congestion_event_total:
  assumes inv: "sender_inv s" and extra: "extra (s_interval_queue s) s" and rtt: "valid_rtt u rtt"
  shows "\<exists>s'. sender_OnCongestionEvent pf avail u rtt t acked lost s
      = Inr s' \<and> sender_inv s'"
proof -
  obtain ack s1 where n: "note_congestion_event pf u rtt t s = (ack, s1)" by force
  have r1: "sender_ready (s_interval_queue s) s1" "s_interval_queue s1 = s_interval_queue s"
      "s_mode s1 = s_mode s"
    using note_congestion_event_ready [OF _ rtt n] inv by (auto simp: sender_inv_def)
  obtain b s2 where c: "(if s_mode s1 = STARTING then CheckForRttInflation pf s1 else Inr (False, s1))
        = Inr (b, s2)" "same_core s1 s2" "b \<longrightarrow> s_mode s1 = STARTING \<and> s_avg_rtt s1 < s_latest_rtt s1"
      "pcc_sender.more s2 = pcc_sender.more s1"
    using rtt_inflation_total [of pf s1] by (cases "s_mode s1 = STARTING") auto
  have q2: "s_interval_queue s2 = s_interval_queue s" using c(2) r1 by (simp add: same_core_def)
  have r2: "sender_ready (s_interval_queue s2) s2"
    using r1 same_core_groups(4) [OF c(2)] q2 by simp
  show ?thesis
  proof (cases b)
    case True
    have "s_avg_rtt s1 \<noteq> 0" using r1 c(3) True by (auto simp: sender_ready_def sender_idle_def)
    then have "s_mode s2 = STARTING" "s_avg_rtt s2 \<noteq> 0"
      using c(2,3) True by (simp_all add: same_core_def)
    then show ?thesis using enter_probing_inflation [OF r2] True n c(1)
      by (simp add: sender_OnCongestionEvent_def)
  next
    case False
    let ?ev = "\<lparr> ce_acked_packets = acked, ce_lost_packets = lost, ce_avg_rtt = s_avg_rtt s1,
        ce_latest_rtt = s_latest_rtt s2, ce_min_rtt = s_min_rtt s2, ce_event_time = t,
        ce_ack_interval = ack \<rparr>"
    have mq: "mq_inv (s_interval_queue s2)" "mq_settled (s_interval_queue s2)"
      using inv q2 by (simp_all add: sender_inv_def)
    have "extra (s_interval_queue s2) s2"
      using extra note_congestion_event_more [OF n] c(2,4) q2
        extra_frame [of s2 s "s_interval_queue s"] r1(3) by (simp add: same_core_def)
    then have ready: "sender_ready (s_interval_queue s2) s2 \<and> extra (s_interval_queue s2) s2"
      using r2 by simp
    obtain q' s3 where e: "mq_OnCongestionEvent (\<lambda>q us t d. avail us t (d\<lparr> s_interval_queue := q \<rparr>)) ?ev (s_interval_queue s2) s2
          = Inr (q', s3)" "mq_inv q'" "mq_settled q'"
        "mq_drained (s_interval_queue s2) q' \<and> sender_idle s3 \<or>
         mq_kept (s_interval_queue s2) q' \<and> s3 = s2"
      using delegate.congestion_event_total [OF mq ready, of ?ev] by blast
    have run: "sender_OnCongestionEvent pf avail u rtt t acked lost s
        = Inr (s3\<lparr> s_interval_queue := q' \<rparr>)"
      using n c(1) False e(1)
      by (simp add: sender_OnCongestionEvent_def)
    have "sender_ready q' s3"
      using e(4) r2 sender_ready_kept by (auto simp: sender_ready_def mq_drained_def)
    then have "sender_inv (s3\<lparr> s_interval_queue := q' \<rparr>)"
      using e(2,3) by (simp add: sender_inv_def sender_ready_def)
    then show ?thesis using run by blast
  qed
qed

end

interpretation allegro: utility_sender "sender_OnUtilityAvailable pf CanMakeDecision" "\<lambda>q s. True" for pf
  using sender_deliver_total by unfold_locales auto

text \<open>What the environment must respect when a packet is sent: the byte accounting of the
  monitor intervals.\<close>

definition packet_fits :: "int \<Rightarrow> monitor_queue \<Rightarrow> bool" where
  "packet_fits bytes q \<longleftrightarrow> 0 < bytes \<and> bytes < 18446744073709551616 \<and> mq_accounted q \<and>
     (\<forall>iv\<in>set (mq_monitor_intervals q). mi_bytes_sent iv + bytes < 18446744073709551616)"

lemma packet_fits_enqueue:
  "packet_fits b q \<Longrightarrow> packet_fits b (mq_EnqueueNewMonitorInterval r u tol rtt q)"
  using mq_accounted_enqueue [of q r u tol rtt]
  by (auto simp: packet_fits_def mq_EnqueueNewMonitorInterval_def new_monitor_interval_def)

lemma create_new_interval_total:
  assumes "mq_inv (s_interval_queue s)"
  shows "\<exists>b s'. CreateNewInterval pf t s = Inr (b, s') \<and>
     (s' = s \<or> (\<not> b \<and> (\<exists>d q'. mq_extend_current_interval (s_interval_queue s) = Inr q' \<and>
        s' = s\<lparr> s_monitor_duration := d, s_interval_queue := q' \<rparr>)))"
proof (cases "mq_empty (s_interval_queue s) \<or> s_latest_rtt s = 0 \<or>
    mq_num_useful_intervals (s_interval_queue s) = 0")
  case True
  then show ?thesis by (auto simp: CreateNewInterval_def Let_def)
next
  case False
  then obtain cur where cur: "mq_current (s_interval_queue s) = Inr cur"
    using current_of_useful [OF assms] by blast
  obtain q' where "mq_extend_current_interval (s_interval_queue s) = Inr q'"
    using False by (simp add: mq_extend_current_interval_def mq_empty_def)
  then show ?thesis using False cur by (auto simp: CreateNewInterval_def Let_def)
qed

lemma mq_extend_kept:
  "mq_extend_current_interval q = Inr q' \<Longrightarrow> mq_num_useful_intervals q' = mq_num_useful_intervals q"
  "mq_extend_current_interval q = Inr q' \<Longrightarrow> packet_fits b q \<Longrightarrow> packet_fits b q'"
  using in_set_butlastD [of _ "mq_monitor_intervals q"] mq_settled_extend(2) [of q q']
  by (auto simp: mq_extend_current_interval_def packet_fits_def split: if_splits)

lemma create_new_interval_inv:
  assumes inv: "sender_inv s" and fits: "packet_fits bytes (s_interval_queue s)"
  shows "\<exists>b s'. CreateNewInterval pf t s = Inr (b, s') \<and> sender_inv s' \<and>
     packet_fits bytes (s_interval_queue s')"
proof -
  have mq: "mq_inv (s_interval_queue s)" using inv by (simp add: sender_inv_def)
  obtain b s' where c: "CreateNewInterval pf t s = Inr (b, s')"
      "s' = s \<or> (\<not> b \<and> (\<exists>d q'. mq_extend_current_interval (s_interval_queue s) = Inr q' \<and>
        s' = s\<lparr> s_monitor_duration := d, s_interval_queue := q' \<rparr>))"
    using create_new_interval_total [OF mq] by blast
  have "sender_inv s' \<and> packet_fits bytes (s_interval_queue s')"
  proof (cases "s' = s")
    case True
    then show ?thesis using inv fits by simp
  next
    case False
    then obtain d q' where q': "mq_extend_current_interval (s_interval_queue s) = Inr q'"
        "s' = s\<lparr> s_monitor_duration := d, s_interval_queue := q' \<rparr>"
      using c(2) by blast
    have "mq_inv q'" "mq_settled q'"
      using mq_inv_extend [OF mq q'(1)] mq_settled_extend(1) [OF q'(1)] inv
      by (simp_all add: sender_inv_def)
    moreover have "sender_ready q' s"
      by (rule sender_ready_same_useful [OF _ mq_extend_kept(1) [OF q'(1)]])
        (use inv in \<open>simp add: sender_inv_def\<close>)
    then have "sender_ready q' s'"
      using sender_ready_cong [of s' s q'] q'(2) by simp
    ultimately show ?thesis using mq_extend_kept(2) [OF q'(1) fits] q'(2)
      by (simp add: sender_inv_def)
  qed
  then show ?thesis using c(1) by blast
qed

lemma start_interval_inv:
  assumes inv: "sender_inv s" and fits: "packet_fits bytes (s_interval_queue s)"
  shows "\<exists>s'. start_interval pf non_useful_rate v s = Inr s' \<and> sender_inv s' \<and>
     packet_fits bytes (s_interval_queue s')"
proof -
  obtain s1 where s1: "MaybeSetSendingRate pf v s = Inr s1" "same_core s s1"
    using maybe_set_rate_total [of s pf v] inv by (auto simp: sender_inv_def)
  let ?s2 = "s1\<lparr> s_monitor_duration := delta_mul_double pf (s_min_rtt s1) (Fin 1) \<rparr>"
  have core: "same_core s ?s2" by (rule same_core_trans [OF s1(2)]) simp
  have q2: "s_interval_queue ?s2 = s_interval_queue s" using core by (simp add: same_core_def)
  have inv2: "sender_inv ?s2" using inv same_core_groups(5) [OF core] by simp
  obtain b where b: "CreateUsefulInterval ?s2 = Inr b"
      "b \<longrightarrow> s_avg_rtt ?s2 \<noteq> 0 \<and> mq_num_useful_intervals (s_interval_queue ?s2) < useful_limit ?s2"
    using inv2
    by (cases "s_avg_rtt s1 = 0")
      (auto simp: CreateUsefulInterval_def Let_def useful_limit_def sender_inv_def sender_ready_def
        sender_idle_def)
  let ?q = "mq_EnqueueNewMonitorInterval (if b then s_sending_rate ?s2 else non_useful_rate ?s2) b
      (GetMaxRttFluctuationTolerance ?s2) (s_avg_rtt ?s2) (s_interval_queue ?s2)"
  have "sender_ready ?q ?s2"
    using b(2) inv2 unfolding sender_inv_def sender_ready_def mq_EnqueueNewMonitorInterval_def
    by (cases b) simp_all
  then have "sender_inv (?s2\<lparr> s_interval_queue := ?q \<rparr>)"
    using inv2 sender_ready_cong [of "?s2\<lparr> s_interval_queue := ?q \<rparr>" ?s2 ?q]
    by (simp add: sender_inv_def step_inv)
  moreover have "packet_fits bytes ?q" using fits q2 packet_fits_enqueue by simp
  ultimately show ?thesis using s1 b(1) by (simp add: start_interval_def Let_def)
qed

lemma packet_sent_total:
  assumes inv: "sender_inv s" and fits: "packet_fits bytes (s_interval_queue s)"
  shows "\<exists>s'. sender_OnPacketSent pf non_useful_rate v t p bytes s = Inr s' \<and> sender_inv s'"
proof -
  let ?s = "if time_is_initialized (s_conn_start_time s) then s
            else s\<lparr> s_conn_start_time := t, s_latest_sent_timestamp := t \<rparr>"
  have "same_core s ?s" by (simp add: same_core_def)
  then have i0: "sender_inv ?s" "packet_fits bytes (s_interval_queue ?s)"
    using inv fits same_core_groups(5) [of s ?s] by (simp_all add: same_core_def)
  obtain b s1 where s1: "CreateNewInterval pf t ?s = Inr (b, s1)" "sender_inv s1"
      "packet_fits bytes (s_interval_queue s1)"
    using create_new_interval_inv [OF i0] by blast
  obtain s2 where s2: "(if b then start_interval pf non_useful_rate v s1 else Inr s1) = Inr s2"
      "sender_inv s2" "packet_fits bytes (s_interval_queue s2)"
    using start_interval_inv [OF s1(2,3), of pf non_useful_rate v] s1 by (cases b) auto
  let ?q = "mq_OnPacketSent t p bytes (time_diff t (s_latest_sent_timestamp s2)) (s_interval_queue s2)"
  have n: "mq_num_useful_intervals ?q = mq_num_useful_intervals (s_interval_queue s2)"
    by (simp add: mq_OnPacketSent_def)
  have "mq_inv ?q" "mq_settled ?q"
    using s2 mq_settled_packet_sent(1) [of "s_interval_queue s2" bytes]
    by (simp_all add: sender_inv_def step_inv packet_fits_def)
  then have "sender_inv (s2\<lparr> s_interval_queue := ?q, s_latest_sent_timestamp := t \<rparr>)"
    using sender_ready_same_useful [OF _ n, of s2] s2(2)
      sender_ready_cong [of "s2\<lparr> s_interval_queue := ?q, s_latest_sent_timestamp := t \<rparr>" s2 ?q]
    by (simp add: sender_inv_def)
  then show ?thesis using s1(1) s2(1) by (simp add: sender_OnPacketSent_def Let_def)
qed

subsection \<open>Runs of a sender\<close>

text \<open>A run interleaves sent packets and congestion events in any order, as long as packets fit
  the byte counters, acknowledgements and losses stay within what was sent, and RTT samples are
  positive.\<close>

inductive sender_step :: "platform \<Rightarrow> pcc_sender \<Rightarrow> pcc_sender \<Rightarrow> bool" for pf where
  Packet_Sent: "packet_fits bytes (s_interval_queue s) \<Longrightarrow>
     sender_OnPacketSent pf (GetSendingRateForNonUsefulInterval pf) v t p bytes s = Inr s' \<Longrightarrow>
     sender_step pf s s'"
| Congestion: "valid_rtt u rtt \<Longrightarrow>
     sender_OnCongestionEvent pf (sender_OnUtilityAvailable pf CanMakeDecision) u rtt t acked lost s
       = Inr s' \<Longrightarrow> sender_step pf s s'"

inductive_cases sender_stepE: "sender_step pf s s'"

inductive sender_run :: "platform \<Rightarrow> pcc_sender \<Rightarrow> pcc_sender \<Rightarrow> bool" for pf where
  Start: "sender_run pf s s"
| Step: "sender_run pf s s' \<Longrightarrow> sender_step pf s' s'' \<Longrightarrow> sender_run pf s s''"

lemma sender_step_inv:
  assumes "sender_step pf s s'" "sender_inv s"
  shows "sender_inv s'"
proof (rule sender_stepE [OF assms(1)])
  fix bytes v t p
  assume "packet_fits bytes (s_interval_queue s)"
    "sender_OnPacketSent pf (GetSendingRateForNonUsefulInterval pf) v t p bytes s = Inr s'"
  then show ?thesis
    using packet_sent_total [OF assms(2), of bytes pf "GetSendingRateForNonUsefulInterval pf" v t p]
    by simp
next
  fix u rtt t acked lost
  assume "valid_rtt u rtt" "sender_OnCongestionEvent pf
     (sender_OnUtilityAvailable pf CanMakeDecision) u rtt t acked lost s = Inr s'"
  then show ?thesis
    using allegro.congestion_event_total [OF assms(2) TrueI, of u rtt pf pf t acked lost] by simp
qed

lemma sender_run_inv: "sender_run pf s s' \<Longrightarrow> sender_inv s \<Longrightarrow> sender_inv s'"
  by (induction rule: sender_run.induct) (auto intro: sender_step_inv)

lemma sender_new_state:
  assumes "sender_new stats icw mcw = Inr s"
  shows "s_interval_queue s = mq_new" "s_utility_manager s = um_new stats" "s_avg_rtt s = 0"
    "s_mode s = STARTING" "s_latest_rtt s = 0"
  using assms by (auto simp: sender_new_def)

lemma um_new_ready: "um_inv (um_new stats)" "um_ready (um_new stats)"
  by (simp_all add: um_inv_def um_new_def um_ready_def needed_parameters_def)

lemma sender_new_inv: "sender_new stats icw mcw = Inr s \<Longrightarrow> sender_inv s"
  using sender_new_state [of stats icw mcw s] um_new_ready [of stats]
  by (simp add: sender_inv_def step_inv sender_ready_def sender_idle_def max_rtt_def)
    (simp add: mq_new_def)

subsection \<open>The probing rates\<close>

lemma probing_factors:
  "one_plus kProbingStepSize = Fin (4404019 / 4194304)"
  "one_minus kProbingStepSize = Fin (15938355 / 16777216)"
  "inverse_factor (one_plus kProbingStepSize) = Fin (7989151 / 8388608)"
  "inverse_factor (one_minus kProbingStepSize) = Fin (4415057 / 4194304)"
  by (simp_all add: one_plus_def one_minus_def inverse_factor_def kProbingStepSize_def fp_eval)

definition sane_rate :: "quic_bandwidth \<Rightarrow> bool" where
  "sane_rate r \<longleftrightarrow> 1000 \<le> r \<and> r \<le> 2 ^ 40"

lemma probing_up_error:
  assumes "sane_rate r"
  shows "\<bar>rat_of_int (bw_mul pf r (one_plus kProbingStepSize)) - 105 / 100 * of_int r\<bar>
     \<le> of_int r / 2000000 + 1 / 2"
    "\<bar>rat_of_int (bw_mul pf r (one_minus kProbingStepSize)) - 95 / 100 * of_int r\<bar>
     \<le> of_int r / 2000000 + 1 / 2"
proof -
  have r: "0 \<le> r" "r \<le> 1125899906842624" "0 \<le> rat_of_int r"
    using assms by (simp_all add: sane_rate_def)
  have e1: "\<bar>rat_of_int (bw_mul pf r (Fin (4404019 / 4194304))) - of_int r * (4404019 / 4194304)\<bar>
     \<le> of_int r * (4404019 / 4194304) / 4194304 + 1 / 2"
    by (rule bw_mul_error) (use r in simp_all)
  have e2: "\<bar>rat_of_int (bw_mul pf r (Fin (15938355 / 16777216))) - of_int r * (15938355 / 16777216)\<bar>
     \<le> of_int r * (15938355 / 16777216) / 4194304 + 1 / 2"
    by (rule bw_mul_error) (use r in simp_all)
  show "\<bar>rat_of_int (bw_mul pf r (one_plus kProbingStepSize)) - 105 / 100 * of_int r\<bar>
     \<le> of_int r / 2000000 + 1 / 2"
    using e1 r(3) unfolding probing_factors abs_le_iff by linarith
  show "\<bar>rat_of_int (bw_mul pf r (one_minus kProbingStepSize)) - 95 / 100 * of_int r\<bar>
     \<le> of_int r / 2000000 + 1 / 2"
    using e2 r(3) unfolding probing_factors abs_le_iff by linarith
qed

text \<open>A probing step followed by its restoration.\<close>

lemma probing_restore_error:
  assumes "sane_rate r"
  shows "\<bar>bw_mul pf (bw_mul pf r (one_plus kProbingStepSize))
            (inverse_factor (one_plus kProbingStepSize)) - r\<bar> * 100000 \<le> r + 100000"
    "\<bar>bw_mul pf (bw_mul pf r (one_minus kProbingStepSize))
            (inverse_factor (one_minus kProbingStepSize)) - r\<bar> * 100000 \<le> r + 150000"
proof -
  let ?x = "rat_of_int r"
  have x: "1000 \<le> ?x" "?x \<le> 1099511627776"
    using assms of_int_le_iff [of 1000 r, where 'a = rat] of_int_le_iff [of r "2 ^ 40", where 'a = rat]
    by (simp_all add: sane_rate_def)
  have r: "0 \<le> r" "r \<le> 1125899906842624" using assms by (simp_all add: sane_rate_def)
  let ?u = "bw_mul pf r (Fin (4404019 / 4194304))"
  let ?d = "bw_mul pf r (Fin (15938355 / 16777216))"
  have u: "\<bar>of_int ?u - ?x * (4404019 / 4194304)\<bar> \<le> ?x * (4404019 / 4194304) / 4194304 + 1 / 2"
    by (rule bw_mul_error) (use r in simp_all)
  have d: "\<bar>of_int ?d - ?x * (15938355 / 16777216)\<bar> \<le> ?x * (15938355 / 16777216) / 4194304 + 1 / 2"
    by (rule bw_mul_error) (use r in simp_all)
  have ud: "0 \<le> rat_of_int ?u" "rat_of_int ?u \<le> of_int 1125899906842624"
    "0 \<le> rat_of_int ?d" "rat_of_int ?d \<le> of_int 1125899906842624"
    using u d x unfolding abs_le_iff of_int_numeral by linarith+
  then have ui: "0 \<le> ?u" "?u \<le> 1125899906842624" "0 \<le> ?d" "?d \<le> 1125899906842624"
    unfolding of_int_le_iff by simp_all
  have "\<bar>of_int (bw_mul pf ?u (Fin (7989151 / 8388608))) - rat_of_int ?u * (7989151 / 8388608)\<bar>
      \<le> rat_of_int ?u * (7989151 / 8388608) / 4194304 + 1 / 2"
    by (rule bw_mul_error) (use ui in simp_all)
  then have "\<bar>rat_of_int (bw_mul pf ?u (Fin (7989151 / 8388608))) - ?x\<bar> * 100000 \<le> ?x + 100000"
    using u ud x unfolding abs_le_iff abs_if by (simp split: if_splits; linarith)
  then have "rat_of_int (\<bar>bw_mul pf ?u (Fin (7989151 / 8388608)) - r\<bar> * 100000) \<le> of_int (r + 100000)"
    by simp
  then show "\<bar>bw_mul pf (bw_mul pf r (one_plus kProbingStepSize))
            (inverse_factor (one_plus kProbingStepSize)) - r\<bar> * 100000 \<le> r + 100000"
    unfolding probing_factors(3) unfolding probing_factors(1) of_int_le_iff .
  have "\<bar>of_int (bw_mul pf ?d (Fin (4415057 / 4194304))) - rat_of_int ?d * (4415057 / 4194304)\<bar>
      \<le> rat_of_int ?d * (4415057 / 4194304) / 4194304 + 1 / 2"
    by (rule bw_mul_error) (use ui in simp_all)
  then have "\<bar>rat_of_int (bw_mul pf ?d (Fin (4415057 / 4194304))) - ?x\<bar> * 100000 \<le> ?x + 150000"
    using d ud x unfolding abs_le_iff abs_if by (simp split: if_splits; linarith)
  then have "rat_of_int (\<bar>bw_mul pf ?d (Fin (4415057 / 4194304)) - r\<bar> * 100000) \<le> of_int (r + 150000)"
    by simp
  then show "\<bar>bw_mul pf (bw_mul pf r (one_minus kProbingStepSize))
            (inverse_factor (one_minus kProbingStepSize)) - r\<bar> * 100000 \<le> r + 150000"
    unfolding probing_factors(4) unfolding probing_factors(2) of_int_le_iff .
qed

subsection \<open>Properties\<close>

text \<open>A sender as the application configures it: the constructor, then the utility tag and the
  parameters.\<close>

definition configured_sender ::
  "interval_stats \<Rightarrow> int \<Rightarrow> int \<Rightarrow> string \<Rightarrow> fp list \<Rightarrow> pcc_sender outcome" where
  "configured_sender stats icw mcw tag params =
     map_outcome (\<lambda>s. fold SetUtilityParameter params (SetUtilityTag tag s)) (sender_new stats icw mcw)"

lemma set_parameter_config:
  assumes "tag \<in> set parametrised_tags" "um_utility_tag (s_utility_manager s) = tag"
  shows "um_utility_tag (s_utility_manager (fold SetUtilityParameter params s)) = tag \<and>
     um_utility_parameters (s_utility_manager (fold SetUtilityParameter params s)) =
       um_utility_parameters (s_utility_manager s) @ params"
  using assms(2)
proof (induction params arbitrary: s)
  case (Cons p ps)
  then show ?case using assms(1) by (simp add: SetUtilityParameter_def um_SetUtilityParameter_def)
qed simp

lemma set_parameter_other:
  assumes "um_utility_tag (s_utility_manager s) \<notin> set parametrised_tags"
  shows "fold SetUtilityParameter params s = s"
  using assms by (induction params) (simp_all add: SetUtilityParameter_def um_SetUtilityParameter_def)

lemma set_one_parameter_frame [simp]:
  "s_interval_queue (SetUtilityParameter p s) = s_interval_queue s"
  "s_sending_rate (SetUtilityParameter p s) = s_sending_rate s"
  "s_latest_rtt (SetUtilityParameter p s) = s_latest_rtt s"
  "s_has_seen_valid_rtt (SetUtilityParameter p s) = s_has_seen_valid_rtt s"
  "s_latest_sent_timestamp (SetUtilityParameter p s) = s_latest_sent_timestamp s"
  by (simp_all add: SetUtilityParameter_def)

lemma set_parameter_frame [simp]:
  "s_interval_queue (fold SetUtilityParameter params s) = s_interval_queue s"
  "s_avg_rtt (fold SetUtilityParameter params s) = s_avg_rtt s"
  "s_latest_rtt (fold SetUtilityParameter params s) = s_latest_rtt s"
  "s_mode (fold SetUtilityParameter params s) = s_mode s"
  "um_inv (s_utility_manager (fold SetUtilityParameter params s)) = um_inv (s_utility_manager s)"
  by (induction params arbitrary: s)
    (simp_all add: SetUtilityParameter_def um_SetUtilityParameter_def um_inv_def)

lemma needed_parameters_other: "tag \<notin> set parametrised_tags \<Longrightarrow> needed_parameters tag = 0"
  by (auto simp: parametrised_tags_def needed_parameters_def)

lemma configured_ready:
  assumes "needed_parameters tag \<le> length params"
  shows "um_ready (s_utility_manager (fold SetUtilityParameter params (SetUtilityTag tag s)))"
proof (cases "tag \<in> set parametrised_tags")
  case True
  then show ?thesis
    using set_parameter_config [OF True, of "SetUtilityTag tag s" params] assms
    by (simp add: um_ready_def SetUtilityTag_def um_SetUtilityTag_def)
next
  case False
  then have "fold SetUtilityParameter params (SetUtilityTag tag s) = SetUtilityTag tag s"
    by (intro set_parameter_other) (simp add: SetUtilityTag_def um_SetUtilityTag_def)
  then show ?thesis using needed_parameters_other [OF False]
    by (simp add: um_ready_def SetUtilityTag_def um_SetUtilityTag_def)
qed

lemma set_tag_frame [simp]:
  "s_interval_queue (SetUtilityTag tag s) = s_interval_queue s"
  "s_avg_rtt (SetUtilityTag tag s) = s_avg_rtt s"
  "s_latest_rtt (SetUtilityTag tag s) = s_latest_rtt s"
  "s_mode (SetUtilityTag tag s) = s_mode s"
  "um_inv (s_utility_manager (SetUtilityTag tag s)) = um_inv (s_utility_manager s)"
  by (simp_all add: SetUtilityTag_def um_SetUtilityTag_def um_inv_def)

lemma configured_sender_inv:
  assumes "configured_sender stats icw mcw tag params = Inr s" "needed_parameters tag \<le> length params"
  shows "sender_inv s"
proof -
  obtain s0 where s0: "sender_new stats icw mcw = Inr s0"
      "s = fold SetUtilityParameter params (SetUtilityTag tag s0)"
    using assms(1) by (auto simp: configured_sender_def)
  have i: "sender_inv s0" by (rule sender_new_inv [OF s0(1)])
  have "um_ready (s_utility_manager s)" using configured_ready [OF assms(2)] s0(2) by simp
  moreover have "mq_num_useful_intervals (s_interval_queue s) \<le> useful_limit s"
    using sender_new_state [OF s0(1)] s0(2) useful_limit_pos [of s] by (simp add: mq_new_def)
  ultimately show ?thesis using i sender_new_state [OF s0(1)]
    unfolding s0(2) sender_inv_def sender_ready_def sender_idle_def by simp
qed

text \<open>C1: no assertion of the sender, its queue or its utility manager fires, and no empty queue
  or missing utility parameter is accessed, in any run: after the constructor, a utility tag
  and the parameters it needs, and any interleaving of sent packets and congestion events,
  the next packet, the next congestion event and a query of the pacing rate all succeed.\<close>

theorem sender_never_fails:
  assumes "configured_sender stats icw mcw tag params = Inr s0"
    and "needed_parameters tag \<le> length params" "sender_run pf s0 s"
  shows "(packet_fits bytes (s_interval_queue s) \<longrightarrow>
       (\<exists>s'. sender_OnPacketSent pf (GetSendingRateForNonUsefulInterval pf) v t p bytes s = Inr s')) \<and>
     (valid_rtt u rtt \<longrightarrow>
       (\<exists>s'. sender_OnCongestionEvent pf (sender_OnUtilityAvailable pf CanMakeDecision)
               u rtt t acked lost s = Inr s')) \<and>
     (\<exists>rate. PacingRate s in_flight = Inr rate)"
proof -
  have inv: "sender_inv s"
    by (rule sender_run_inv [OF assms(3) configured_sender_inv [OF assms(1,2)]])
  have "\<exists>rate. PacingRate s in_flight = Inr rate"
    by (simp add: PacingRate_def mq_empty_def mq_current_def)
  then show ?thesis using packet_sent_total [OF inv] allegro.congestion_event_total [OF inv TrueI] by blast
qed

definition sample_sender :: pcc_sender where
  "sample_sender = (case configured_sender sample_stats 10 1000 ''Scavenger'' [Fin 1] of
     Inr s \<Rightarrow> s | Inl _ \<Rightarrow> undefined)"

lemma sample_sender: "configured_sender sample_stats 10 1000 ''Scavenger'' [Fin 1] = Inr sample_sender"
  by (simp add: sample_sender_def configured_sender_def sender_new_def bw_from_bytes_and_delta_def
      kInitialRtt_def kNumMicrosPerSecond_def kDefaultTCPMSS_def)

lemma sample_sender_state:
  "s_interval_queue sample_sender = mq_new" "s_sending_rate sample_sender = 1120000"
  "\<not> s_has_seen_valid_rtt sample_sender" "s_latest_rtt sample_sender = 0"
  "s_latest_sent_timestamp sample_sender = 0"
  by (simp_all add: sample_sender_def configured_sender_def sender_new_def SetUtilityTag_def
      bw_from_bytes_and_delta_def kInitialRtt_def kNumMicrosPerSecond_def kDefaultTCPMSS_def)

theorem sender_never_fails_witness:
  "(packet_fits 1000 (s_interval_queue sample_sender) \<and>
    (\<exists>s'. sender_OnPacketSent sample_platform (GetSendingRateForNonUsefulInterval sample_platform)
            1 5 1 1000 sample_sender = Inr s')) \<and>
   (\<exists>s'. sender_OnCongestionEvent sample_platform
       (sender_OnUtilityAvailable sample_platform CanMakeDecision) True 20000 5 [] [] sample_sender = Inr s')"
proof -
  have fits: "packet_fits 1000 (s_interval_queue sample_sender)"
    by (simp add: sample_sender_state packet_fits_def mq_accounted_def mq_new_def)
  have n: "needed_parameters ''Scavenger'' \<le> length [Fin 1]" by (simp add: needed_parameters_def)
  have rtt: "valid_rtt True 20000" by (simp add: valid_rtt_def max_rtt_def)
  show ?thesis
    using sender_never_fails [OF sample_sender n sender_run.Start, where pf = sample_platform
        and bytes = 1000 and v = 1 and t = 5 and p = 1 and u = True and rtt = 20000
        and acked = "[]" and lost = "[]"] fits rtt by blast
qed

text \<open>C19: throughout a run at most one useful monitor interval is outstanding outside PROBING
  and at most two per probing group in PROBING, the queue's counter is the number of useful
  intervals it holds, and a sender without an RTT estimate has none.\<close>

theorem sender_useful_intervals_bounded:
  assumes "configured_sender stats icw mcw tag params = Inr s0"
    and "needed_parameters tag \<le> length params" "sender_run pf s0 s"
  shows "mq_num_useful_intervals (s_interval_queue s) = length (useful_intervals (s_interval_queue s)) \<and>
     length (useful_intervals (s_interval_queue s)) \<le>
       (if s_mode s = PROBING then 2 * GetNumIntervalGroupsInProbing s else 1) \<and>
     (s_avg_rtt s = 0 \<longrightarrow> useful_intervals (s_interval_queue s) = [])"
proof -
  have "sender_inv s"
    by (rule sender_run_inv [OF assms(3) configured_sender_inv [OF assms(1,2)]])
  then show ?thesis
    by (auto simp: sender_inv_def mq_inv_def sender_ready_def useful_limit_def)
qed

theorem sender_useful_intervals_bounded_witness:
  "\<exists>s. sender_run sample_platform sample_sender s \<and> s \<noteq> sample_sender \<and>
     length (useful_intervals (s_interval_queue s)) \<le>
       (if s_mode s = PROBING then 2 * GetNumIntervalGroupsInProbing s else 1)"
proof -
  have n: "needed_parameters ''Scavenger'' \<le> length [Fin 1]" by (simp add: needed_parameters_def)
  have inv: "sender_inv sample_sender" by (rule configured_sender_inv [OF sample_sender n])
  have fits: "packet_fits 1000 (s_interval_queue sample_sender)"
    by (simp add: sample_sender_state packet_fits_def mq_accounted_def mq_new_def)
  obtain s where s: "sender_OnPacketSent sample_platform
      (GetSendingRateForNonUsefulInterval sample_platform) 1 5 1 1000 sample_sender = Inr s"
    using packet_sent_total [OF inv fits] by blast
  have run: "sender_run sample_platform sample_sender s"
    using sender_run.Step [OF sender_run.Start sender_step.Packet_Sent [OF fits s]] .
  have "s_latest_sent_timestamp s = 5" using s
    by (auto simp: sender_OnPacketSent_def Let_def bind_outcome_Inr_iff split: prod.splits)
  then have "s \<noteq> sample_sender" using sample_sender_state(5) by auto
  then show ?thesis using run sender_useful_intervals_bounded [OF sample_sender n run] by auto
qed

text \<open>The smoothed RTT is the exponential average with weights 7/8 and 1/8, up to one
  microsecond of rounding, and stays positive.\<close>

theorem smoothed_rtt_average:
  assumes "0 < s_avg_rtt s" "s_avg_rtt s \<le> 2 ^ 40" "0 < rtt" "rtt \<le> 2 ^ 40"
  shows "\<bar>8 * s_avg_rtt (UpdateRtt pf t rtt s) - (7 * s_avg_rtt s + rtt)\<bar> \<le> 8 \<and>
     0 < s_avg_rtt (UpdateRtt pf t rtt s)"
  using smoothed_rtt [of s rtt pf t] assms by (simp add: max_rtt_def)

theorem smoothed_rtt_average_witness:
  "\<bar>8 * s_avg_rtt (UpdateRtt sample_platform 7 900 (sample_sender\<lparr> s_avg_rtt := 100 \<rparr>)) - 1600\<bar> \<le> 8"
  using smoothed_rtt_average [of "sample_sender\<lparr> s_avg_rtt := 100 \<rparr>" 900 sample_platform 7] by simp

text \<open>The two rates a probing group compares bracket the central rate at plus and minus five
  percent, up to half a millionth and the rounding to whole bits per second, and returning
  from a probing rate to the central rate changes it by no more than a hundred-thousandth and
  two bits per second.\<close>

theorem probing_rates_bracket:
  assumes "sane_rate (s_sending_rate s)"
  shows "let r = s_sending_rate s;
             up = bw_mul pf r (one_plus kProbingStepSize);
             down = bw_mul pf r (one_minus kProbingStepSize) in
     down < r \<and> r < up \<and>
     \<bar>rat_of_int up - 105 / 100 * of_int r\<bar> \<le> of_int r / 2000000 + 1 / 2 \<and>
     \<bar>rat_of_int down - 95 / 100 * of_int r\<bar> \<le> of_int r / 2000000 + 1 / 2 \<and>
     \<bar>bw_mul pf up (inverse_factor (one_plus kProbingStepSize)) - r\<bar> * 100000 \<le> r + 200000 \<and>
     \<bar>bw_mul pf down (inverse_factor (one_minus kProbingStepSize)) - r\<bar> * 100000 \<le> r + 200000"
proof -
  have x: "1000 \<le> rat_of_int (s_sending_rate s)"
    using assms of_int_le_iff [of 1000 "s_sending_rate s", where 'a = rat] by (simp add: sane_rate_def)
  note e = probing_up_error [OF assms, of pf]
  have "rat_of_int (bw_mul pf (s_sending_rate s) (one_minus kProbingStepSize)) < of_int (s_sending_rate s)"
    "rat_of_int (s_sending_rate s) < of_int (bw_mul pf (s_sending_rate s) (one_plus kProbingStepSize))"
    using e x unfolding abs_le_iff by linarith+
  then have "bw_mul pf (s_sending_rate s) (one_minus kProbingStepSize) < s_sending_rate s"
    "s_sending_rate s < bw_mul pf (s_sending_rate s) (one_plus kProbingStepSize)"
    by (simp_all only: of_int_less_iff)
  then show ?thesis
    using e probing_restore_error [OF assms, of pf] unfolding Let_def by linarith
qed

theorem probing_rates_bracket_witness:
  "bw_mul sample_platform 1000000 (one_minus kProbingStepSize) < 1000000 \<and>
   1000000 < bw_mul sample_platform 1000000 (one_plus kProbingStepSize)"
  using probing_rates_bracket [of "sample_sender\<lparr> s_sending_rate := 1000000 \<rparr>" sample_platform]
  by (simp add: sane_rate_def Let_def)

text \<open>When the first congestion event of a connection carries no RTT sample (it only reports
  losses), the sender divides by a latest RTT of zero: the rate is multiplied by infinity, and
  the new sending rate is whatever the platform's llround returns for infinity.\<close>

theorem first_event_without_rtt:
  assumes "\<not> s_has_seen_valid_rtt s" "s_latest_rtt s = 0"
    and "0 < s_sending_rate s" "s_sending_rate s \<le> 2 ^ 50"
  shows "s_sending_rate (snd (note_congestion_event pf False rtt t s)) =
     mk_bandwidth (pf_bad_llround pf PInf)"
proof -
  let ?x = "rat_of_int (s_sending_rate s)"
  have x: "1 \<le> ?x" "?x \<le> 1125899906842624"
    using assms(3,4) of_int_le_iff [of 1 "s_sending_rate s", where 'a = rat]
      of_int_le_iff [of "s_sending_rate s" "2 ^ 50", where 'a = rat] by simp_all
  have b: "(2::rat) powi (-126) \<le> 1" "(1125899906842624 :: rat) \<le> 2 powi 127"
    using powi_two_mono [of "-126" 0] powi_two_mono [of 50 127] by simp_all
  obtain y where y: "rnd B32 ?x = Fin y" "\<bar>y - ?x\<bar> \<le> ?x / 16777216"
    using rnd32_relative [of ?x] x b by (auto simp: abs_of_pos)
  have "0 < y" using y(2) x unfolding abs_le_iff by linarith
  then have "f_mul (f_int (s_sending_rate s)) PInf = PInf"
    by (simp add: fp_of_int_def y(1) signed_inf_def del: rnd.simps)
  moreover have "f_div (f_int kInitialRtt) (f_int 0) = PInf"
    by (simp add: kInitialRtt_def fp_eval signed_inf_def)
  ultimately show ?thesis using assms(1,2)
    by (simp add: note_congestion_event_def Let_def kInitialRtt_def bw_mul_def llround_def)
qed

theorem first_event_without_rtt_witness:
  "s_sending_rate sample_sender = 1120000 \<and>
   s_sending_rate (snd (note_congestion_event (sample_platform\<lparr> pf_bad_llround := (\<lambda>x. - (2 ^ 63)) \<rparr>)
     False 0 5 sample_sender)) = 0"
  using first_event_without_rtt [of sample_sender "sample_platform\<lparr> pf_bad_llround := (\<lambda>x. - (2 ^ 63)) \<rparr>" 0 5]
  by (simp add: mk_bandwidth_def sample_sender_state)

end
