(* ===== verification/Vivace_Sender.thy ===== *)
theory Vivace_Sender
  imports Pcc_Sender
begin

text \<open>The Vivace rate controller, src/pcc/pcc_vivace_sender.{h,cpp}: it overrides the decisions of
  PccSender with a majority vote of the probing groups and changes the rate by the gradient of
  the utility, within a step that grows while the gradient asks for more.

  The record extends that of PccSender with the two fields of the class.  \<open>pow\<close> is called
  unqualified on two floats; the declaration in scope is the C library's, on doubles.\<close>

subsection \<open>Constants and state\<close>

definition kRateChangeAmplifyExponent :: fp where "kRateChangeAmplifyExponent = f_lit (12 / 10)"
definition kUtilityGradientToRateChangeFactor :: fp where
  "kUtilityGradientToRateChangeFactor = Fin 1"
definition kInitialMaxStepSize :: fp where "kInitialMaxStepSize = f_lit (5 / 100)"
definition kIncrementalStepSize :: fp where "kIncrementalStepSize = f_lit (5 / 100)"
definition kMinRateChange :: quic_bandwidth where "kMinRateChange = bw_from_kbits 500"
definition kMinSendingRate :: quic_bandwidth where "kMinSendingRate = bw_from_kbits 500"

record vivace_sender = pcc_sender +
  v_latest_utility_info :: utility_info
  v_step_allowance :: nat

definition vivace_new :: "interval_stats \<Rightarrow> int \<Rightarrow> int \<Rightarrow> vivace_sender outcome" where
  "vivace_new stats icw mcw =
     map_outcome (\<lambda>s. pcc_sender.extend s
        (vivace_sender.fields \<lparr> ui_sending_rate = 0, ui_utility = Fin 0 \<rparr> 0))
       (sender_new stats icw mcw)"

subsection \<open>Operations\<close>

definition vivace_GetSendingRateForNonUsefulInterval :: "vivace_sender \<Rightarrow> quic_bandwidth" where
  "vivace_GetSendingRateForNonUsefulInterval s = s_sending_rate s"

definition count_increase :: "utility_info list \<Rightarrow> nat \<Rightarrow> nat" where
  "count_increase info g = length (filter (group_increases info) [0..<g])"

definition count_decrease :: "utility_info list \<Rightarrow> nat \<Rightarrow> nat" where
  "count_decrease info g = length (filter (\<lambda>i. \<not> group_increases info i) [0..<g])"

definition vivace_CanMakeDecision :: "vivace_sender \<Rightarrow> utility_info list \<Rightarrow> bool" where
  "vivace_CanMakeDecision s info =
     (let g = GetNumIntervalGroupsInProbing s;
          inc = count_increase info g; dec = count_decrease info g in
      if length info < 2 * g then False
      else if um_effective_utility_tag (s_utility_manager s) \<noteq> ''Scavenger''
      then inc > g div 2 \<or> dec = g
      else dec > g div 2 \<or> inc = g)"

text \<open>The utility info of the last group that votes for the chosen direction.\<close>

definition better_of_group :: "utility_info list \<Rightarrow> nat \<Rightarrow> utility_info" where
  "better_of_group info i =
     (let a = info ! (2 * i); b = info ! (2 * i + 1) in
      if fp_lt (ui_utility b) (ui_utility a) then a else b)"

definition votes_for :: "rate_change_direction \<Rightarrow> utility_info list \<Rightarrow> nat \<Rightarrow> bool" where
  "votes_for dir info i \<longleftrightarrow>
     (group_increases info i \<and> dir = INCREASE) \<or> (\<not> group_increases info i \<and> dir = DECREASE)"

definition SetRateChangeDirection :: "utility_info list \<Rightarrow> vivace_sender \<Rightarrow> vivace_sender" where
  "SetRateChangeDirection info s =
     (let g = GetNumIntervalGroupsInProbing s;
          dir = (if count_increase info g > count_decrease info g then INCREASE else DECREASE)
      in s\<lparr> s_direction := dir,
            v_latest_utility_info :=
              foldl (\<lambda>latest i. if votes_for dir info i then better_of_group info i else latest)
                (v_latest_utility_info s) [0..<g] \<rparr>)"

definition rate_difference :: "utility_info \<Rightarrow> utility_info \<Rightarrow> quic_bandwidth" where
  "rate_difference a b =
     bw_sub (max (ui_sending_rate a) (ui_sending_rate b)) (min (ui_sending_rate a) (ui_sending_rate b))"

text \<open>The loop over the groups: groups that vote against the direction are skipped.\<close>

definition probing_utility_difference ::
  "rate_change_direction \<Rightarrow> utility_info list \<Rightarrow> nat \<Rightarrow> fp" where
  "probing_utility_difference dir info g =
     f_div (foldl (\<lambda>acc i.
              if votes_for dir info i
              then f_sub (f_add acc (fp_max (ui_utility (info ! (2 * i))) (ui_utility (info ! (2 * i + 1)))))
                         (fp_min (ui_utility (info ! (2 * i))) (ui_utility (info ! (2 * i + 1))))
              else acc) (Fin 0) [0..<g])
       (f_int (int g))"

definition utility_and_rate_difference ::
  "utility_info list \<Rightarrow> vivace_sender \<Rightarrow> quic_bandwidth \<times> fp" where
  "utility_and_rate_difference info s =
     (if s_mode s = PROBING
      then (rate_difference (info ! 0) (info ! 1),
            probing_utility_difference (s_direction s) info (GetNumIntervalGroupsInProbing s))
      else (rate_difference (info ! 0) (v_latest_utility_info s),
            f_sub (fp_max (ui_utility (info ! 0)) (ui_utility (v_latest_utility_info s)))
                  (fp_min (ui_utility (info ! 0)) (ui_utility (v_latest_utility_info s)))))"

definition gradient_rate_change :: "platform \<Rightarrow> quic_bandwidth \<Rightarrow> fp \<Rightarrow> quic_bandwidth" where
  "gradient_rate_change pf delta_rate delta_utility =
     (let utility_gradient = f_div (f_mul (f_int kMegabit) delta_utility) (f_int delta_rate)
      in mk_bandwidth (fp_to_i64 pf
           (f_mul (f_mul utility_gradient (f_int kMegabit)) kUtilityGradientToRateChangeFactor)))"

definition max_allowed_rate_change :: "platform \<Rightarrow> quic_bandwidth \<Rightarrow> nat \<Rightarrow> quic_bandwidth" where
  "max_allowed_rate_change pf rate allowance =
     bw_mul pf rate (f_add kInitialMaxStepSize (f_mul kIncrementalStepSize (f_int (int allowance))))"

definition ComputeRateChange ::
  "platform \<Rightarrow> utility_info list \<Rightarrow> vivace_sender \<Rightarrow> (quic_bandwidth \<times> vivace_sender) outcome" where
  "ComputeRateChange pf info s =
     guard_outcome Assert_Failed (s_mode s \<noteq> STARTING)
       (case utility_and_rate_difference info s of (delta_rate, delta_utility) \<Rightarrow>
          guard_outcome Assert_Failed (delta_rate \<noteq> 0)
            (let rate_change0 = gradient_rate_change pf delta_rate delta_utility;
                 rate_change =
                   (if s_mode s = DECISION_MADE
                    then bw_mul pf rate_change0
                           (to_f (pf_pow pf (f_int (int ((s_rounds s + 1) div 2)))
                                    kRateChangeAmplifyExponent))
                    else rate_change0);
                 allowance = (if s_mode s = DECISION_MADE then v_step_allowance s else 0);
                 max_allowed = max_allowed_rate_change pf (s_sending_rate s) allowance
             in if rate_change > max_allowed
                then Inr (max max_allowed kMinRateChange, s\<lparr> v_step_allowance := Suc allowance \<rparr>)
                else Inr (max rate_change kMinRateChange, s\<lparr> v_step_allowance := allowance - 1 \<rparr>)))"

definition vivace_EnterProbing ::
  "platform \<Rightarrow> utility_info list \<Rightarrow> vivace_sender \<Rightarrow> vivace_sender outcome" where
  "vivace_EnterProbing pf info s =
     guard_outcome Assert_Failed (s_mode s = DECISION_MADE)
       (bind_outcome (ComputeRateChange pf info (s\<lparr> s_rounds := 1 \<rparr>)) (\<lambda>(rate_change, s1).
          let rate = (if s_direction s1 = INCREASE then bw_sub (s_sending_rate s1) rate_change
                      else bw_add (s_sending_rate s1) rate_change);
              s2 = (if rate < kMinSendingRate
                    then s1\<lparr> s_sending_rate := kMinSendingRate, v_step_allowance := 0 \<rparr>
                    else s1\<lparr> s_sending_rate := rate \<rparr>)
          in Inr (switch_hybrid_tag pf (s2\<lparr> s_mode := PROBING \<rparr>))))"

text \<open>EnterDecisionMade in two parts, before and after its call of ComputeRateChange.\<close>

definition decision_start :: "platform \<Rightarrow> vivace_sender \<Rightarrow> vivace_sender" where
  "decision_start pf s =
     s\<lparr> s_sending_rate :=
          (if s_mode s = PROBING
           then bw_mul pf (s_sending_rate s)
                  (if s_direction s = INCREASE then one_plus kProbingStepSize
                   else one_minus kProbingStepSize)
           else s_sending_rate s),
        s_rounds := (if s_mode s = PROBING then 1 else s_rounds s + 1) \<rparr>"

definition apply_decision_change :: "quic_bandwidth \<Rightarrow> vivace_sender \<Rightarrow> vivace_sender" where
  "apply_decision_change rate_change s =
     (let rate = (if s_direction s = INCREASE then bw_add (s_sending_rate s) rate_change
                  else bw_sub (s_sending_rate s) rate_change)
      in if rate < kMinSendingRate
         then s\<lparr> s_sending_rate := kMinSendingRate, s_mode := PROBING, s_rounds := 1,
                 v_step_allowance := 0 \<rparr>
         else s\<lparr> s_sending_rate := rate, s_mode := DECISION_MADE \<rparr>)"

definition vivace_EnterDecisionMade ::
  "platform \<Rightarrow> utility_info list \<Rightarrow> vivace_sender \<Rightarrow> vivace_sender outcome" where
  "vivace_EnterDecisionMade pf info s =
     map_outcome (\<lambda>(c, s1). apply_decision_change c s1)
       (ComputeRateChange pf info (decision_start pf s))"

definition vivace_on_starting ::
  "platform \<Rightarrow> utility_info list \<Rightarrow> vivace_sender \<Rightarrow> vivace_sender outcome" where
  "vivace_on_starting pf info s =
     guard_outcome Assert_Failed (length info = 1)
       (if fp_lt (ui_utility (v_latest_utility_info s)) (ui_utility (info ! 0))
        then Inr (s\<lparr> s_sending_rate := bw_mul pf (s_sending_rate s) (Fin 2),
                     v_latest_utility_info := info ! 0, s_rounds := Suc (s_rounds s) \<rparr>)
        else EnterProbing pf s)"

definition vivace_back_to_starting :: "vivace_sender \<Rightarrow> vivace_sender" where
  "vivace_back_to_starting s =
     (if (s_rounds s > 1 \<or> s_mode s = DECISION_MADE) \<and> s_sending_rate s \<le> kMinSendingRate
      then s\<lparr> s_sending_rate := kMinSendingRate, v_step_allowance := 0, s_rounds := 1,
              s_mode := STARTING \<rparr>
      else s)"

definition vivace_on_probing ::
  "platform \<Rightarrow> utility_info list \<Rightarrow> vivace_sender \<Rightarrow> vivace_sender outcome" where
  "vivace_on_probing pf info s0 =
     map_outcome vivace_back_to_starting
       (if vivace_CanMakeDecision s0 info
        then bind_outcome (restore_if_app_limited pf s0) (\<lambda>s.
               guard_outcome Assert_Failed (length info = 2 * GetNumIntervalGroupsInProbing s)
                 (vivace_EnterDecisionMade pf info (SetRateChangeDirection info s)))
        else EnterProbing pf s0)"

text \<open>Whether the utility and the rate of the new interval both moved the way the direction
  predicts.\<close>

definition keeps_direction :: "utility_info \<Rightarrow> vivace_sender \<Rightarrow> bool" where
  "keeps_direction u s =
     (let latest = v_latest_utility_info s;
          u_up = fp_lt (ui_utility latest) (ui_utility u);
          u_down = fp_lt (ui_utility u) (ui_utility latest);
          r_up = ui_sending_rate u > ui_sending_rate latest;
          r_down = ui_sending_rate u < ui_sending_rate latest in
      (s_direction s = INCREASE \<and> u_up \<and> r_up) \<or> (s_direction s = INCREASE \<and> u_down \<and> r_down) \<or>
      (s_direction s = DECREASE \<and> u_up \<and> r_down) \<or> (s_direction s = DECREASE \<and> u_down \<and> r_up))"

definition vivace_on_decision_made ::
  "platform \<Rightarrow> utility_info list \<Rightarrow> vivace_sender \<Rightarrow> vivace_sender outcome" where
  "vivace_on_decision_made pf info s =
     guard_outcome Assert_Failed (length info = 1)
       (if keeps_direction (info ! 0) s
        then map_outcome (\<lambda>s1. s1\<lparr> v_latest_utility_info := info ! 0 \<rparr>)
               (vivace_EnterDecisionMade pf info s)
        else vivace_EnterProbing pf info s)"

definition vivace_decide ::
  "platform \<Rightarrow> utility_info list \<Rightarrow> vivace_sender \<Rightarrow> vivace_sender outcome" where
  "vivace_decide pf info s =
     (case s_mode s of
        STARTING \<Rightarrow> vivace_on_starting pf info s
      | PROBING \<Rightarrow> vivace_on_probing pf info s
      | DECISION_MADE \<Rightarrow> vivace_on_decision_made pf info s)"

definition vivace_OnUtilityAvailable ::
  "platform \<Rightarrow> monitor_interval list \<Rightarrow> quic_time \<Rightarrow> vivace_sender \<Rightarrow> vivace_sender outcome" where
  "vivace_OnUtilityAvailable pf us event_time s0 =
     bind_outcome (compute_utilities pf us (s_utility_manager s0)) (\<lambda>(info, um).
       vivace_decide pf info (s0\<lparr> s_utility_manager := um \<rparr>))"

subsection \<open>Rate changes\<close>

lemma kMin_values [simp]: "kMinRateChange = 500000" "kMinSendingRate = 500000"
  by (simp_all add: kMinRateChange_def kMinSendingRate_def bw_from_kbits_def)

lemma compute_rate_change_cases:
  assumes "ComputeRateChange pf info s = Inr (c, s')"
  defines "a \<equiv> if s_mode s = DECISION_MADE then v_step_allowance s else 0"
  shows "s_mode s \<noteq> STARTING" "500000 \<le> c"
    "c \<le> max 500000 (max_allowed_rate_change pf (s_sending_rate s) a)"
    "s' = s\<lparr> v_step_allowance := v_step_allowance s' \<rparr>"
    "v_step_allowance s' = Suc a \<or> v_step_allowance s' = a - 1"
    "v_step_allowance s' = Suc a \<longrightarrow> c = max 500000 (max_allowed_rate_change pf (s_sending_rate s) a)"
  using assms
  by (auto simp: ComputeRateChange_def guard_outcome_def Let_def split: if_splits prod.splits)

lemma compute_rate_change_frame:
  assumes "ComputeRateChange pf info s = Inr (c, s')"
  shows "s_mode s' = s_mode s" "s_avg_rtt s' = s_avg_rtt s"
    "s_utility_manager s' = s_utility_manager s" "s_interval_queue s' = s_interval_queue s"
  by (subst compute_rate_change_cases(4) [OF assms], simp)+

lemma compute_rate_change_total:
  assumes "s_mode s \<noteq> STARTING" "fst (utility_and_rate_difference info s) \<noteq> 0"
  shows "\<exists>c s'. ComputeRateChange pf info s = Inr (c, s')"
  using assms by (auto simp: ComputeRateChange_def Let_def split: prod.splits)

lemma decision_start_simps [simp]:
  "s_mode (decision_start pf s) = s_mode s" "s_avg_rtt (decision_start pf s) = s_avg_rtt s"
  "v_latest_utility_info (decision_start pf s) = v_latest_utility_info s"
  "s_utility_manager (decision_start pf s) = s_utility_manager s"
  "s_direction (decision_start pf s) = s_direction s"
  by (simp_all add: decision_start_def)

lemma apply_decision_change_simps [simp]:
  "500000 \<le> s_sending_rate (apply_decision_change c s)"
  "s_mode (apply_decision_change c s) = PROBING \<longrightarrow> s_sending_rate (apply_decision_change c s) = 500000"
  "s_mode (apply_decision_change c s) \<noteq> STARTING"
  "s_avg_rtt (apply_decision_change c s) = s_avg_rtt s"
  "s_utility_manager (apply_decision_change c s) = s_utility_manager s"
  by (simp_all add: apply_decision_change_def Let_def)

lemma enter_decision_floor:
  assumes "vivace_EnterDecisionMade pf info s = Inr s'"
  shows "500000 \<le> s_sending_rate s'" "s_mode s' = PROBING \<longrightarrow> s_sending_rate s' = 500000"
    "s_mode s' \<noteq> STARTING" "s_avg_rtt s' = s_avg_rtt s"
proof -
  obtain c s1 where c: "ComputeRateChange pf info (decision_start pf s) = Inr (c, s1)"
      "s' = apply_decision_change c s1"
    using assms by (auto simp: vivace_EnterDecisionMade_def)
  show "500000 \<le> s_sending_rate s'" "s_mode s' = PROBING \<longrightarrow> s_sending_rate s' = 500000"
    "s_mode s' \<noteq> STARTING" "s_avg_rtt s' = s_avg_rtt s"
    using compute_rate_change_frame(2) [OF c(1)] by (simp_all add: c(2))
qed

lemma vivace_enter_probing_floor:
  assumes "vivace_EnterProbing pf info s = Inr s'"
  shows "500000 \<le> s_sending_rate s'" "s_mode s' = PROBING"
  using assms
  by (auto simp: vivace_EnterProbing_def Let_def guard_outcome_Inr_iff bind_outcome_Inr_iff)

lemma base_enter_probing_mode:
  assumes "EnterProbing pf s = Inr s'"
  shows "s_mode s' = PROBING"
  using assms by (auto simp: EnterProbing_def bind_outcome_Inr_iff split: if_splits)

subsection \<open>The vote\<close>

lemma count_sum: "count_increase info g + count_decrease info g = g"
  using sum_length_filter_compl [of "group_increases info" "[0..<g]"]
  by (simp add: count_increase_def count_decrease_def)

lemma filter_upt_full:
  "length (filter P [0..<g]) = g \<Longrightarrow> i < g \<Longrightarrow> P i"
  using length_filter_less [of i "[0..<g]" P] by fastforce

lemma filter_upt_some: "0 < length (filter P [0..<g]) \<Longrightarrow> \<exists>i<g. P i"
  by (auto simp: filter_empty_conv)

lemma foldl_last_vote:
  assumes "\<exists>i\<in>set is. P i"
  shows "\<exists>i\<in>set is. P i \<and> foldl (\<lambda>x i. if P i then f i else x) x is = f i"
  using assms
proof (induction "is" arbitrary: x rule: rev_induct)
  case (snoc i js)
  then show ?case by (cases "P i") auto
qed simp

subsection \<open>The delegate\<close>

text \<open>The extra condition of Vivace: the two rates whose utilities are compared differ.\<close>

definition rate_in_range :: "quic_bandwidth \<Rightarrow> bool" where
  "rate_in_range r \<longleftrightarrow> 0 \<le> r \<and> r \<le> 9223372036854775807"

definition rates_differ :: "quic_bandwidth \<Rightarrow> quic_bandwidth \<Rightarrow> bool" where
  "rates_differ a b \<longleftrightarrow> rate_in_range a \<and> rate_in_range b \<and> a \<noteq> b"

definition vivace_rates_ok :: "sender_mode \<Rightarrow> quic_bandwidth \<Rightarrow> quic_bandwidth list \<Rightarrow> bool" where
  "vivace_rates_ok mode latest rates \<longleftrightarrow>
     (mode = PROBING \<longrightarrow> 1 < length rates \<longrightarrow> rates_differ (rates ! 0) (rates ! 1)) \<and>
     (mode = DECISION_MADE \<longrightarrow> 0 < length rates \<longrightarrow> rates_differ (rates ! 0) latest)"

definition vivace_gap :: "monitor_queue \<Rightarrow> vivace_sender \<Rightarrow> bool" where
  "vivace_gap q s \<longleftrightarrow>
     vivace_rates_ok (s_mode s) (ui_sending_rate (v_latest_utility_info s))
       (map mi_sending_rate (useful_intervals q))"

lemma rate_difference_nonzero:
  assumes "rates_differ (ui_sending_rate a) (ui_sending_rate b)"
  shows "rate_difference a b \<noteq> 0"
  using assms unfolding rate_difference_def rates_differ_def rate_in_range_def
  by (auto simp: bw_sub_le max_def min_def)

lemma kept_useful_rates:
  assumes "mq_kept q q'"
  shows "map mi_sending_rate (useful_intervals q') = map mi_sending_rate (useful_intervals q)"
proof -
  have "list_all2 same_static xs ys \<Longrightarrow>
      map mi_sending_rate (filter mi_is_useful ys) = map mi_sending_rate (filter mi_is_useful xs)" for xs ys
    by (induction rule: list_all2_induct) (auto simp: same_static_def)
  then show ?thesis using assms by (simp add: mq_kept_def useful_intervals_def)
qed

lemma set_direction_simps [simp]:
  "s_mode (SetRateChangeDirection info s) = s_mode s"
  "s_avg_rtt (SetRateChangeDirection info s) = s_avg_rtt s"
  "s_latest_rtt (SetRateChangeDirection info s) = s_latest_rtt s"
  "s_utility_manager (SetRateChangeDirection info s) = s_utility_manager s"
  "s_interval_queue (SetRateChangeDirection info s) = s_interval_queue s"
  by (simp_all add: SetRateChangeDirection_def Let_def)

lemma sender_idle_cong:
  assumes "s_avg_rtt s \<noteq> 0" "s_avg_rtt s' = s_avg_rtt s"
    "s_utility_manager s' = s_utility_manager s" "sender_idle s"
  shows "sender_idle s'"
  using assms by (simp add: sender_idle_def)

lemma vivace_enter_decision_total:
  assumes "s_mode s \<noteq> STARTING" "s_avg_rtt s \<noteq> 0" "sender_idle s"
    "s_mode s = PROBING \<longrightarrow> rates_differ (ui_sending_rate (info ! 0)) (ui_sending_rate (info ! 1))"
    "s_mode s = DECISION_MADE \<longrightarrow>
       rates_differ (ui_sending_rate (info ! 0)) (ui_sending_rate (v_latest_utility_info s))"
  shows "\<exists>s'. vivace_EnterDecisionMade pf info s = Inr s' \<and> sender_idle s'"
proof -
  have "fst (utility_and_rate_difference info (decision_start pf s)) \<noteq> 0"
    using assms(1,4,5) rate_difference_nonzero
    by (cases "s_mode s") (auto simp: utility_and_rate_difference_def)
  then obtain c s1 where c: "ComputeRateChange pf info (decision_start pf s) = Inr (c, s1)"
    using compute_rate_change_total [of "decision_start pf s" info pf] assms(1) by auto
  have "sender_idle (apply_decision_change c s1)"
    using sender_idle_cong [of s "apply_decision_change c s1"] compute_rate_change_frame [OF c] assms
    by simp
  then show ?thesis using c by (simp add: vivace_EnterDecisionMade_def)
qed

lemma vivace_enter_probing_total:
  assumes "s_mode s = DECISION_MADE" "s_avg_rtt s \<noteq> 0" "sender_idle s"
    "rates_differ (ui_sending_rate (info ! 0)) (ui_sending_rate (v_latest_utility_info s))"
  shows "\<exists>s'. vivace_EnterProbing pf info s = Inr s' \<and> sender_idle s'"
proof -
  let ?s = "s\<lparr> s_rounds := 1 \<rparr>"
  have "fst (utility_and_rate_difference info ?s) \<noteq> 0"
    using assms rate_difference_nonzero by (simp add: utility_and_rate_difference_def)
  then obtain c s1 where c: "ComputeRateChange pf info ?s = Inr (c, s1)"
    using compute_rate_change_total [of ?s info pf] assms(1) by auto
  note f = compute_rate_change_frame [OF c]
  have i1: "sender_idle s1" using sender_idle_cong [of s s1] f assms by simp
  have av: "s_avg_rtt s1 \<noteq> 0" using f assms by simp
  show ?thesis using c i1 av assms(1)
    by (simp add: vivace_EnterProbing_def Let_def sender_idle_def)
qed

lemma vivace_back_idle: "s_avg_rtt s \<noteq> 0 \<Longrightarrow> sender_idle s \<Longrightarrow> sender_idle (vivace_back_to_starting s)"
  by (simp add: vivace_back_to_starting_def sender_idle_def)

lemma vivace_decide_total:
  assumes idle: "sender_idle s" and avg: "s_avg_rtt s \<noteq> 0"
    and cur: "mq_current (s_interval_queue s) = Inr cur"
    and len: "info \<noteq> []" "length info \<le> useful_limit s"
    and gap: "vivace_rates_ok (s_mode s) (ui_sending_rate (v_latest_utility_info s))
       (map ui_sending_rate info)"
  shows "\<exists>s'. vivace_decide pf info s = Inr s' \<and> sender_idle s'"
proof -
  have probing: "\<exists>s'. EnterProbing pf s = Inr s' \<and> sender_idle s' \<and> s_avg_rtt s' = s_avg_rtt s"
    using enter_probing_total [of s pf] assms by blast
  show ?thesis
  proof (cases "s_mode s")
    case STARTING
    then have "length info = 1" using len by (cases info) (auto simp: useful_limit_def)
    then show ?thesis using STARTING probing idle
      by (auto simp: vivace_decide_def vivace_on_starting_def sender_idle_def)
  next
    case PROBING
    show ?thesis
    proof (cases "vivace_CanMakeDecision s info")
      case True
      let ?s = "SetRateChangeDirection info s"
      have n: "length info = 2 * GetNumIntervalGroupsInProbing s"
        using True len PROBING
        by (auto simp: vivace_CanMakeDecision_def Let_def useful_limit_def split: if_splits)
      then have "1 < length info" "0 < length info" using groups_pos(1) [of s] by linarith+
      then have "rates_differ (ui_sending_rate (info ! 0)) (ui_sending_rate (info ! 1))"
        using gap PROBING by (simp add: vivace_rates_ok_def)
      moreover have "sender_idle ?s" using sender_idle_cong [OF avg _ _ idle, of ?s] by simp
      ultimately obtain s' where s': "vivace_EnterDecisionMade pf info ?s = Inr s'" "sender_idle s'"
        using vivace_enter_decision_total [of ?s info pf] PROBING avg by auto
      have "s_avg_rtt s' = s_avg_rtt s" using enter_decision_floor(4) [OF s'(1)] by simp
      then show ?thesis using True PROBING n s' vivace_back_idle avg
        by (simp add: vivace_decide_def vivace_on_probing_def)
    next
      case False
      then show ?thesis using PROBING probing vivace_back_idle avg
        by (auto simp: vivace_decide_def vivace_on_probing_def)
    qed
  next
    case DECISION_MADE
    then have l: "length info = 1" using len by (cases info) (auto simp: useful_limit_def)
    then have d: "rates_differ (ui_sending_rate (info ! 0)) (ui_sending_rate (v_latest_utility_info s))"
      using gap DECISION_MADE by (simp add: vivace_rates_ok_def)
    obtain s1 where "vivace_EnterDecisionMade pf info s = Inr s1" "sender_idle s1"
      using vivace_enter_decision_total [of s info pf] DECISION_MADE avg idle d by auto
    then show ?thesis
      using DECISION_MADE l vivace_enter_probing_total [OF DECISION_MADE avg idle d]
      by (simp add: vivace_decide_def vivace_on_decision_made_def sender_idle_def)
  qed
qed

lemma vivace_avail_total:
  assumes c: "delivery_contract q us" and r: "sender_ready q d" and gap: "vivace_gap q d"
  shows "\<exists>d'. vivace_OnUtilityAvailable pf us t (d\<lparr> s_interval_queue := q \<rparr>) = Inr d' \<and> sender_idle d'"
proof -
  have us: "us \<noteq> []" "mq_num_useful_intervals q = length us" "us = useful_intervals q"
    "\<forall>iv\<in>set us. \<not> HasInvalidUtility iv"
    using c by (auto simp: delivery_contract_def)
  have avg: "s_avg_rtt d \<noteq> 0" using r us by (auto simp: sender_ready_def)
  have "mq_monitor_intervals q \<noteq> []" using us(1,3) by (auto simp: useful_intervals_def)
  then obtain cur where cur: "mq_current q = Inr cur" by (simp add: mq_current_def)
  obtain info um where u: "compute_utilities pf us (s_utility_manager d) = Inr (info, um)"
      "same_config (s_utility_manager d) um" "um_inv um"
      "map ui_sending_rate info = map mi_sending_rate us"
    using compute_utilities_total [of "s_utility_manager d" us pf] us r
    by (auto simp: sender_ready_def sender_idle_def)
  let ?s = "d\<lparr> s_interval_queue := q, s_utility_manager := um \<rparr>"
  have len: "length info = length us" using u(4) by (metis length_map)
  have idle: "sender_idle ?s"
    using r u um_ready_config [OF u(2)] by (simp add: sender_ready_def sender_idle_def)
  have lim: "useful_limit ?s = useful_limit d"
    using u(2) by (simp add: useful_limit_def GetNumIntervalGroupsInProbing_def same_config_def)
  have "length info \<le> useful_limit ?s" using lim len us r by (simp add: sender_ready_def)
  moreover have "info \<noteq> []" using len us by auto
  moreover have "vivace_rates_ok (s_mode ?s) (ui_sending_rate (v_latest_utility_info ?s))
       (map ui_sending_rate info)"
    using gap u(4) us(3) by (simp add: vivace_gap_def)
  ultimately show ?thesis
    using vivace_decide_total [OF idle, of cur info pf] avg cur u(1)
    by (simp add: vivace_OnUtilityAvailable_def Let_def)
qed

interpretation vivace: utility_sender "vivace_OnUtilityAvailable pf" vivace_gap for pf
proof unfold_locales
  show "delivery_contract q us \<Longrightarrow> sender_ready q s \<Longrightarrow> vivace_gap q s \<Longrightarrow>
      \<exists>s'. vivace_OnUtilityAvailable pf us t (s\<lparr> s_interval_queue := q \<rparr>) = Inr s' \<and> sender_idle s'"
    for q us s t by (rule vivace_avail_total)
  show "mq_kept q q' \<Longrightarrow> vivace_gap q s \<Longrightarrow> vivace_gap q' s" for q q' s
    by (simp add: vivace_gap_def kept_useful_rates)
  show "s_mode s' = s_mode s \<Longrightarrow> pcc_sender.more s' = pcc_sender.more s \<Longrightarrow>
      vivace_gap q s' = vivace_gap q s" for s s' q
    by (cases s; cases s') (simp add: vivace_gap_def)
qed

subsection \<open>The rate step\<close>

lemma step_size_error:
  assumes "a \<le> 20"
  shows "\<exists>c. f_add kInitialMaxStepSize (f_mul kIncrementalStepSize (f_int (int a))) = Fin c \<and>
     1 / 20 \<le> c \<and> c \<le> (1 + of_nat a) / 20 * (1 + 1 / 1000000)"
proof -
  let ?k = "13421773 / 268435456 :: rat"
  let ?a = "rat_of_nat a"
  have k: "kInitialMaxStepSize = Fin ?k" "kIncrementalStepSize = Fin ?k"
    by (simp_all add: kInitialMaxStepSize_def kIncrementalStepSize_def fp_eval)
  have ai: "f_int (int a) = Fin ?a" using rnd32_int [of "int a"] assms by (simp add: fp_of_int_def)
  have a: "0 \<le> ?a" "?a \<le> 20" using assms by simp_all
  have small: "(2::rat) powi (-126) \<le> 1 / 4096"
    using powi_two_mono [of "-126" "-12"] by (simp add: power_int_def power_divide)
  have big: "(4096 :: rat) \<le> 2 powi 127" using powi_two_mono [of 12 127] by (simp add: power_int_def)
  obtain x where x: "rnd B32 (?k * ?a) = Fin x" "\<bar>x - ?k * ?a\<bar> \<le> ?k * ?a / 16777216"
  proof (cases "a = 0")
    case True
    then show thesis using that [of 0] by simp
  next
    case False
    then have "1 \<le> ?a" by simp
    then show thesis using rnd32_relative [of "?k * ?a"] a small big that by (auto simp: abs_of_pos)
  qed
  have b: "?k \<le> ?k + x" "?k + x \<le> 2" using x(2) a unfolding abs_le_iff by linarith+
  obtain c where c: "rnd B32 (?k + x) = Fin c" "\<bar>c - (?k + x)\<bar> \<le> (?k + x) / 16777216"
    using rnd32_relative [of "?k + x"] b small big by (auto simp: abs_of_pos)
  have "f_add kInitialMaxStepSize (f_mul kIncrementalStepSize (f_int (int a))) = Fin c"
    unfolding k ai fp_mul.simps x(1) fp_add.simps c(1) by (rule refl)
  moreover have "?k \<le> c"
  proof -
    have "fp_le (rnd B32 ?k) (rnd B32 (?k + x))" by (rule rnd_mono [OF b(1)])
    moreover have "rnd B32 ?k = Fin ?k" by (simp add: fp_eval)
    ultimately show ?thesis unfolding c(1) by (auto simp: fp_le_def)
  qed
  moreover have "c \<le> (1 + ?a) / 20 * (1 + 1 / 1000000)"
    using c(2) x(2) a unfolding abs_le_iff by (simp add: field_simps)
  ultimately show ?thesis by (intro exI [of _ c]) simp
qed

lemma div_rat_upper: "rat_of_int n / 100000 \<le> of_int (n div 100000) + 1"
proof -
  have "n \<le> (n div 100000 + 1) * 100000" by presburger
  then have "rat_of_int n \<le> of_int ((n div 100000 + 1) * 100000)" by (simp only: of_int_le_iff)
  then show ?thesis by (simp add: field_simps)
qed

lemma max_allowed_bound:
  assumes "0 \<le> r" "r \<le> 2 ^ 50" "a \<le> 20"
  shows "max_allowed_rate_change pf r a * 20 \<le> r * (1 + int a) + r * (1 + int a) div 100000 + 11"
proof -
  obtain c where c: "f_add kInitialMaxStepSize (f_mul kIncrementalStepSize (f_int (int a))) = Fin c"
      "1 / 20 \<le> c" "c \<le> (1 + of_nat a) / 20 * (1 + 1 / 1000000)"
    using step_size_error [OF assms(3)] by blast
  let ?x = "rat_of_int r" and ?n = "1 + rat_of_nat a" and ?N = "r * (1 + int a)"
  have n: "1 \<le> ?n" "?n \<le> 21" using assms(3) by simp_all
  have c4: "c \<le> 4" using c(3) n by (simp add: field_simps)
  have x: "0 \<le> ?x" using assms by simp
  have e: "\<bar>of_int (bw_mul pf r (Fin c)) - ?x * c\<bar> \<le> ?x * c / 4194304 + 1 / 2"
    by (rule bw_mul_error) (use assms c(2) c4 in simp_all)
  have m: "?x * c \<le> ?x * (?n / 20 * (1 + 1 / 1000000))"
    using c(3) x by (rule mult_left_mono)
  have xn: "0 \<le> ?x * ?n" using x n by simp
  have "?x * c * 20 \<le> ?x * ?n * (1 + 1 / 1000000)" using m by (simp add: field_simps)
  then have "of_int (bw_mul pf r (Fin c)) * 20 \<le> ?x * ?n + ?x * ?n / 100000 + 10"
    using e xn unfolding abs_le_iff by (simp add: field_simps)
  moreover have "?x * ?n = of_int ?N" by simp
  moreover have "rat_of_int ?N / 100000 \<le> of_int (?N div 100000) + 1" by (rule div_rat_upper)
  ultimately have "rat_of_int (bw_mul pf r (Fin c)) * 20 \<le> of_int ?N + of_int (?N div 100000) + 11"
    by linarith
  then have "rat_of_int (bw_mul pf r (Fin c) * 20) \<le> of_int (?N + ?N div 100000 + 11)"
    by (simp only: of_int_add of_int_mult of_int_numeral)
  then show ?thesis unfolding max_allowed_rate_change_def c(1) of_int_le_iff .
qed

subsection \<open>Properties\<close>

text \<open>C20: a rate change of Vivace is at least 500 kbit/s and at most the allowed share of the
  sending rate, five percent plus five for each step of the allowance (up to a
  hundred-thousandth of rounding) unless 500 kbit/s is more; the allowance grows by one when
  the gradient asked for more than the share, and shrinks by one, not below zero, otherwise;
  in PROBING it restarts from zero.  Nothing else of the sender changes.\<close>

theorem vivace_rate_change_bounded:
  assumes "ComputeRateChange pf info s = Inr (c, s')"
    and "0 \<le> s_sending_rate s" "s_sending_rate s \<le> 2 ^ 50" "v_step_allowance s \<le> 20"
  shows "let a = (if s_mode s = DECISION_MADE then v_step_allowance s else 0);
             n = s_sending_rate s * (1 + int a) in
     500000 \<le> c \<and> (c = 500000 \<or> c * 20 \<le> n + n div 100000 + 11) \<and>
     v_step_allowance s' \<in> {a + 1, a - 1} \<and>
     s' = s\<lparr> v_step_allowance := v_step_allowance s' \<rparr>"
proof -
  define a where "a = (if s_mode s = DECISION_MADE then v_step_allowance s else 0)"
  note cs = compute_rate_change_cases [OF assms(1), folded a_def]
  have "a \<le> 20" using assms(4) by (simp add: a_def)
  then have "max_allowed_rate_change pf (s_sending_rate s) a * 20 \<le> s_sending_rate s * (1 + int a)
      + s_sending_rate s * (1 + int a) div 100000 + 11"
    using max_allowed_bound assms(2,3) by blast
  moreover have "c = 500000 \<or> c \<le> max_allowed_rate_change pf (s_sending_rate s) a"
    using cs(2,3) by (auto simp: max_def split: if_splits)
  ultimately have "c = 500000 \<or> c * 20 \<le> s_sending_rate s * (1 + int a)
      + s_sending_rate s * (1 + int a) div 100000 + 11"
    by linarith
  then show ?thesis using cs(2,4,5) unfolding a_def [symmetric] Let_def by auto
qed

text \<open>A Vivace sender in DECISION\_MADE whose queue delivers the sample interval.\<close>

definition sample_vivace :: vivace_sender where
  "sample_vivace = (case vivace_new sample_stats 10 1000 of
     Inr s \<Rightarrow> s\<lparr> s_mode := DECISION_MADE, s_avg_rtt := 95, s_latest_rtt := 99,
       s_has_seen_valid_rtt := True, s_interval_queue := sample_queue,
       s_sending_rate := 4000000, v_step_allowance := 2,
       v_latest_utility_info := \<lparr> ui_sending_rate = 3000000, ui_utility = Fin 1 \<rparr> \<rparr>
   | Inl _ \<Rightarrow> undefined)"

lemma sample_vivace_state:
  "s_mode sample_vivace = DECISION_MADE" "s_sending_rate sample_vivace = 4000000"
  "v_step_allowance sample_vivace = 2" "s_interval_queue sample_vivace = sample_queue"
  "v_latest_utility_info sample_vivace = \<lparr> ui_sending_rate = 3000000, ui_utility = Fin 1 \<rparr>"
  "s_avg_rtt sample_vivace = 95" "s_latest_rtt sample_vivace = 99"
  "s_utility_manager sample_vivace = um_new sample_stats"
  by (simp_all add: sample_vivace_def vivace_new_def sender_new_def bw_from_bytes_and_delta_def
      kInitialRtt_def pcc_sender.extend_def vivace_sender.fields_def)

lemma sample_vivace_inv: "sender_inv sample_vivace" "vivace_gap (s_interval_queue sample_vivace) sample_vivace"
proof -
  have q: "mq_inv sample_queue" "mq_settled sample_queue"
    unfolding mq_inv_def mq_settled_def by code_simp+
  have u: "map mi_sending_rate (useful_intervals sample_queue) = [4000000]"
    "mq_num_useful_intervals sample_queue = 1"
    by code_simp+
  show "sender_inv sample_vivace"
    using q u(2) um_new_ready [of sample_stats] useful_limit_pos [of sample_vivace]
    by (simp add: sender_inv_def sender_ready_def sender_idle_def sample_vivace_state max_rtt_def
        useful_limit_def)
  show "vivace_gap (s_interval_queue sample_vivace) sample_vivace"
    by (simp add: vivace_gap_def sample_vivace_state u vivace_rates_ok_def rates_differ_def
        rate_in_range_def)
qed

definition sample_info :: utility_info where
  "sample_info = \<lparr> ui_sending_rate = 4000000, ui_utility = Fin 2 \<rparr>"

theorem vivace_rate_change_bounded_witness:
  "\<exists>c s'. ComputeRateChange sample_platform [sample_info] sample_vivace = Inr (c, s') \<and>
     500000 \<le> c \<and> c * 20 \<le> 12000131 \<and> v_step_allowance s' \<in> {3, 1}"
proof -
  have d: "fst (utility_and_rate_difference [sample_info] sample_vivace) \<noteq> 0"
    using rate_difference_nonzero [of sample_info "v_latest_utility_info sample_vivace"]
    by (simp add: utility_and_rate_difference_def sample_vivace_state sample_info_def rates_differ_def
        rate_in_range_def)
  obtain c s' where c: "ComputeRateChange sample_platform [sample_info] sample_vivace = Inr (c, s')"
    using compute_rate_change_total [OF _ d, of sample_platform] by (auto simp: sample_vivace_state)
  show ?thesis
    using vivace_rate_change_bounded [OF c] c by (auto simp: sample_vivace_state Let_def)
qed

text \<open>C21: Vivace never runs below 500 kbit/s in DECISION\_MADE or after leaving it; it falls
  back to STARTING only from PROBING, at exactly 500 kbit/s and with the step allowance
  reset; and it never goes from STARTING to DECISION\_MADE.\<close>

theorem vivace_rate_floor:
  assumes "vivace_decide pf info s = Inr s'"
  shows "(s_mode s = STARTING \<longrightarrow> s_mode s' \<in> {STARTING, PROBING}) \<and>
     (s_mode s = DECISION_MADE \<longrightarrow> s_mode s' \<noteq> STARTING \<and> 500000 \<le> s_sending_rate s') \<and>
     (s_mode s' = DECISION_MADE \<longrightarrow> 500000 \<le> s_sending_rate s') \<and>
     (s_mode s = PROBING \<longrightarrow> s_mode s' = STARTING \<longrightarrow>
        s_sending_rate s' = 500000 \<and> v_step_allowance s' = 0)"
proof (cases "s_mode s")
  case STARTING
  then have "s_mode s' = STARTING \<or> s_mode s' = PROBING"
    using assms base_enter_probing_mode
    by (auto simp: vivace_decide_def vivace_on_starting_def guard_outcome_Inr_iff split: if_splits)
  then show ?thesis using STARTING by auto
next
  case PROBING
  then obtain s1 where s1: "s' = vivace_back_to_starting s1"
      "vivace_EnterDecisionMade pf info (SetRateChangeDirection info s) = Inr s1 \<or>
       EnterProbing pf s = Inr s1"
    using assms by (auto simp: vivace_decide_def vivace_on_probing_def guard_outcome_Inr_iff
        split: if_splits)
  then have "s_mode s1 \<noteq> STARTING" "s_mode s1 = DECISION_MADE \<longrightarrow> 500000 \<le> s_sending_rate s1"
    using enter_decision_floor base_enter_probing_mode by (auto, fastforce+)
  then show ?thesis using PROBING by (auto simp: s1(1) vivace_back_to_starting_def)
next
  case DECISION_MADE
  then obtain s1 where "vivace_EnterDecisionMade pf info s = Inr s1 \<and>
        s' = s1\<lparr> v_latest_utility_info := info ! 0 \<rparr> \<or> vivace_EnterProbing pf info s = Inr s'"
    using assms by (auto simp: vivace_decide_def vivace_on_decision_made_def guard_outcome_Inr_iff
        split: if_splits)
  then show ?thesis using DECISION_MADE enter_decision_floor [of pf info s s1]
      vivace_enter_probing_floor [of pf info s s'] by auto
qed

theorem vivace_rate_floor_witness:
  "\<exists>s'. vivace_decide sample_platform [sample_info] sample_vivace = Inr s' \<and>
     s_mode s' \<noteq> STARTING \<and> 500000 \<le> s_sending_rate s'"
proof -
  have q: "mq_current sample_queue = Inr (last (mq_monitor_intervals sample_queue))" by code_simp
  obtain s' where s': "vivace_decide sample_platform [sample_info] sample_vivace = Inr s'"
    using vivace_decide_total [of sample_vivace _ "[sample_info]" sample_platform] sample_vivace_inv(1) q
    by (auto simp: sender_inv_def sender_ready_def sample_vivace_state useful_limit_def
        vivace_rates_ok_def rates_differ_def rate_in_range_def sample_info_def)
  then show ?thesis using vivace_rate_floor [OF s'] by (auto simp: sample_vivace_state)
qed

text \<open>C22: when Vivace can make a decision, the direction is that of the vote: a primary sender
  increases with at least two of its three groups and decreases only with all three, a
  scavenger decides only unanimously; and the utility it remembers is the better one of a
  group that voted for the direction.\<close>

theorem vivace_vote:
  assumes "vivace_CanMakeDecision s info"
  shows "let g = GetNumIntervalGroupsInProbing s; s' = SetRateChangeDirection info s in
     (s_direction s' = INCREASE \<longrightarrow> 2 \<le> count_increase info g) \<and>
     (s_direction s' = DECREASE \<longrightarrow> (\<forall>i<g. \<not> group_increases info i)) \<and>
     (um_effective_utility_tag (s_utility_manager s) = ''Scavenger'' \<longrightarrow>
        (\<forall>i<g. group_increases info i = (s_direction s' = INCREASE))) \<and>
     (\<exists>i<g. (group_increases info i = (s_direction s' = INCREASE)) \<and>
        v_latest_utility_info s' = better_of_group info i)"
proof -
  define g where "g = GetNumIntervalGroupsInProbing s"
  define s' where "s' = SetRateChangeDirection info s"
  let ?inc = "count_increase info g" and ?dec = "count_decrease info g"
  have sum: "?inc + ?dec = g" by (rule count_sum)
  have dir: "s_direction s' = (if ?dec < ?inc then INCREASE else DECREASE)"
    by (simp add: s'_def SetRateChangeDirection_def Let_def g_def)
  have dec: "\<not> group_increases info i" if "?dec = g" "i < g" for i
    using filter_upt_full [of "\<lambda>i. \<not> group_increases info i" g i] that by (simp add: count_decrease_def)
  have inc: "group_increases info i" if "?inc = g" "i < g" for i
    using filter_upt_full [of "group_increases info" g i] that by (simp add: count_increase_def)
  have cases: "if um_effective_utility_tag (s_utility_manager s) = ''Scavenger''
      then g = 2 \<and> (?inc = 2 \<or> ?dec = 2) else g = 3 \<and> (2 \<le> ?inc \<or> ?dec = 3)"
    using assms count_sum [of info 2] count_sum [of info 3]
    unfolding vivace_CanMakeDecision_def Let_def g_def [symmetric]
    by (auto simp: g_def GetNumIntervalGroupsInProbing_def kNumIntervalGroupsInProbingScavenger_def
        kNumIntervalGroupsInProbingPrimary_def split: if_splits)
  have vote: "votes_for (s_direction s') info i = (group_increases info i = (s_direction s' = INCREASE))" for i
    by (cases "s_direction s'") (auto simp: votes_for_def)
  have "\<exists>i<g. group_increases info i = (s_direction s' = INCREASE)"
    using filter_upt_some [of "group_increases info" g]
      filter_upt_some [of "\<lambda>i. \<not> group_increases info i" g] cases dir sum
    by (auto simp: count_increase_def [symmetric] count_decrease_def [symmetric] split: if_splits)
  then have "\<exists>i\<in>set [0..<g]. votes_for (s_direction s') info i" using vote by auto
  from foldl_last_vote [OF this, of "better_of_group info" "v_latest_utility_info s"]
  have last: "\<exists>i<g. (group_increases info i = (s_direction s' = INCREASE)) \<and>
      v_latest_utility_info s' = better_of_group info i"
    using vote dir by (auto simp: s'_def SetRateChangeDirection_def Let_def g_def)
  have n: "s_direction s' = INCREASE \<longrightarrow> 2 \<le> ?inc" "s_direction s' = DECREASE \<longrightarrow> ?dec = g"
    "um_effective_utility_tag (s_utility_manager s) = ''Scavenger'' \<longrightarrow>
       s_direction s' = INCREASE \<longrightarrow> ?inc = g"
    using cases dir sum by (auto split: if_splits)
  have d: "s_direction s' = DECREASE \<longrightarrow> (\<forall>i<g. \<not> group_increases info i)" using n(2) dec by blast
  have "um_effective_utility_tag (s_utility_manager s) = ''Scavenger'' \<longrightarrow>
     (\<forall>i<g. group_increases info i = (s_direction s' = INCREASE))"
    using d n(3) inc by (cases "s_direction s'") auto
  then show ?thesis
    unfolding Let_def g_def [symmetric] s'_def [symmetric] using last d n(1) by blast
qed

definition sample_round :: "utility_info list" where
  "sample_round =
     [\<lparr> ui_sending_rate = 1050000, ui_utility = Fin 3 \<rparr>, \<lparr> ui_sending_rate = 950000, ui_utility = Fin 2 \<rparr>,
      \<lparr> ui_sending_rate = 950000, ui_utility = Fin 4 \<rparr>, \<lparr> ui_sending_rate = 1050000, ui_utility = Fin 1 \<rparr>,
      \<lparr> ui_sending_rate = 950000, ui_utility = Fin 2 \<rparr>, \<lparr> ui_sending_rate = 1050000, ui_utility = Fin 5 \<rparr>]"

theorem vivace_vote_witness:
  "vivace_CanMakeDecision sample_vivace sample_round \<and>
   s_direction (SetRateChangeDirection sample_round sample_vivace) = INCREASE \<and>
   2 \<le> count_increase sample_round 3"
proof -
  have g: "GetNumIntervalGroupsInProbing sample_vivace = 3"
    by (simp add: GetNumIntervalGroupsInProbing_def sample_vivace_state um_new_def
        kNumIntervalGroupsInProbingPrimary_def)
  have n: "count_increase sample_round 3 = 2" "count_decrease sample_round 3 = 1"
    unfolding sample_round_def by code_simp+
  have d: "s_direction (SetRateChangeDirection sample_round sample_vivace) = INCREASE"
    by (simp add: SetRateChangeDirection_def g n Let_def)
  have l: "length sample_round = 6" by (simp add: sample_round_def)
  have c: "vivace_CanMakeDecision sample_vivace sample_round"
    by (simp add: vivace_CanMakeDecision_def g n l Let_def sample_vivace_state um_new_def)
  show ?thesis using vivace_vote [OF c] c d by (simp add: g Let_def)
qed



end
