(* ===== verification/Packet_Tracker.thy ===== *)
theory Packet_Tracker
  imports Pcc_Prelude
begin

text \<open>The sender's packet tracker (core/packet\_tracker.h), instantiated as in core.h with
  int32\_t sequence and message numbers and uint64\_t packet ids.  A \<open>packet_record\<close> keeps one
  \<open>message_record\<close> per transmission of a packet.  The unordered maps are maps, the priority
  queues are sorted lists whose head is the top (their comparators put the least sequence
  number and the earliest time on top), a pointer to a message record is its index, the
  nullable pointer cur\_min\_seq\_ an option, and the clock an argument.  The mutex is left
  out: every operation runs under it.

  The interface \<open>priority_queue\<close> states what std::priority\_queue promises; the lemmas on
  skipping stale entries are proved in it once.  \<open>tracker_inv\<close> is the representation
  invariant, \<open>tracker_step\<close> the ways the connection drives the tracker.\<close>

subsection \<open>Times\<close>

datatype timespec = Timespec (tv_sec: int) (tv_nsec: int)

instantiation timespec :: linorder
begin

definition less_eq_timespec :: "timespec \<Rightarrow> timespec \<Rightarrow> bool" where
  "a \<le> b \<longleftrightarrow> (if tv_sec a \<noteq> tv_sec b then tv_sec a < tv_sec b else tv_nsec a \<le> tv_nsec b)"

definition less_timespec :: "timespec \<Rightarrow> timespec \<Rightarrow> bool" where
  "a < b \<longleftrightarrow> (if tv_sec a \<noteq> tv_sec b then tv_sec a < tv_sec b else tv_nsec a < tv_nsec b)"

instance
  by standard
    (auto simp: less_eq_timespec_def less_timespec_def timespec.expand split: if_splits)

end

definition valid_timespec :: "timespec \<Rightarrow> bool" where
  "valid_timespec t \<longleftrightarrow> 0 \<le> tv_sec t \<and> tv_sec t < 2 ^ 40 \<and> 0 \<le> tv_nsec t \<and> tv_nsec t < 1000000000"

definition time_ns :: "timespec \<Rightarrow> int" where
  "time_ns t = 1000000000 * tv_sec t + tv_nsec t"

text \<open>The microseconds from the sending to the acknowledgement, in 64-bit arithmetic.\<close>

definition elapsed_us :: "timespec \<Rightarrow> timespec \<Rightarrow> int" where
  "elapsed_us sent ack =
     u64 (1000000 * (tv_sec ack - tv_sec sent) + cdiv (tv_nsec ack - tv_nsec sent) 1000)"

subsection \<open>Records\<close>

definition kArbitraryPacketLimit :: int where "kArbitraryPacketLimit = 100000"

datatype packet_state =
    PACKET_STATE_NONE
  | PACKET_STATE_QUEUED
  | PACKET_STATE_SENT
  | PACKET_STATE_ACKED
  | PACKET_STATE_LOST

record message_record =
  mr_rtt_us :: int
  mr_msg_no :: int
  mr_packet_id :: int
  mr_sent_time :: timespec

record packet_record =
  pr_packet_state :: packet_state
  pr_payload :: "int list"
  pr_packet_size :: int
  pr_seq_no :: int
  pr_msg_records :: "message_record list"

definition new_packet_record :: "int \<Rightarrow> int list \<Rightarrow> packet_state \<Rightarrow> packet_record" where
  "new_packet_record seq_no payload st =
     \<lparr> pr_packet_state = st, pr_payload = payload, pr_packet_size = int (length payload),
       pr_seq_no = seq_no, pr_msg_records = [] \<rparr>"

definition GetPacketMostRecentMsgNo :: "packet_record \<Rightarrow> int" where
  "GetPacketMostRecentMsgNo r =
     (if pr_msg_records r = [] then 0 else mr_msg_no (last (pr_msg_records r)))"

fun find_message :: "int \<Rightarrow> message_record list \<Rightarrow> nat option" where
  "find_message msg_no [] = None"
| "find_message msg_no (m # ms) =
     (if mr_msg_no m \<noteq> msg_no then map_option Suc (find_message msg_no ms) else Some 0)"

definition SafeGetMessageRecord :: "int \<Rightarrow> packet_record \<Rightarrow> nat outcome" where
  "SafeGetMessageRecord msg_no r =
     (case find_message msg_no (pr_msg_records r) of None \<Rightarrow> Inl Exit_Called | Some i \<Rightarrow> Inr i)"

definition record_rtt :: "int \<Rightarrow> packet_record \<Rightarrow> int outcome" where
  "record_rtt msg_no r =
     map_outcome (\<lambda>i. mr_rtt_us (pr_msg_records r ! i)) (SafeGetMessageRecord msg_no r)"

definition record_packet_id :: "int \<Rightarrow> packet_record \<Rightarrow> int outcome" where
  "record_packet_id msg_no r =
     map_outcome (\<lambda>i. mr_packet_id (pr_msg_records r ! i)) (SafeGetMessageRecord msg_no r)"

definition record_sent_time :: "int \<Rightarrow> packet_record \<Rightarrow> timespec outcome" where
  "record_sent_time msg_no r =
     map_outcome (\<lambda>i. mr_sent_time (pr_msg_records r ! i)) (SafeGetMessageRecord msg_no r)"

definition UpdateRecord ::
  "timespec \<Rightarrow> packet_state \<Rightarrow> int \<Rightarrow> int \<Rightarrow> packet_record \<Rightarrow> packet_record outcome" where
  "UpdateRecord now st msg_no packet_id r =
     bind_outcome
       (if st = PACKET_STATE_SENT then
          Inr (r\<lparr> pr_msg_records := pr_msg_records r @
                 [\<lparr> mr_rtt_us = 0, mr_msg_no = msg_no, mr_packet_id = packet_id,
                    mr_sent_time = now \<rparr>] \<rparr>)
        else if st = PACKET_STATE_ACKED then
          map_outcome (\<lambda>i. let m = pr_msg_records r ! i in
              r\<lparr> pr_msg_records := (pr_msg_records r)
                    [i := m\<lparr> mr_rtt_us := elapsed_us (mr_sent_time m) now \<rparr>] \<rparr>)
            (SafeGetMessageRecord msg_no r)
        else Inr r)
       (\<lambda>r1. guard_outcome Out_Of_Bounds (pr_msg_records r1 \<noteq> [])
          (Inr (if msg_no = mr_msg_no (last (pr_msg_records r1))
                then r1\<lparr> pr_packet_state := st \<rparr> else r1)))"

subsection \<open>The tracker\<close>

record packet_tracker =
  pt_record_map :: "int \<rightharpoonup> packet_record"
  pt_retransmittable :: "int list"
  pt_send :: "int list"
  pt_sent :: "timespec list"
  pt_sent_time_map :: "timespec \<rightharpoonup> int"
  pt_prev_packet_id :: int
  pt_cur_num_packets :: int
  pt_packet_limit :: int
  pt_cur_min_seq :: "int option"

definition tracker_new :: packet_tracker where
  "tracker_new =
     \<lparr> pt_record_map = Map.empty, pt_retransmittable = [], pt_send = [], pt_sent = [],
       pt_sent_time_map = Map.empty, pt_prev_packet_id = 0, pt_cur_num_packets = 0,
       pt_packet_limit = kArbitraryPacketLimit, pt_cur_min_seq = None \<rparr>"

definition CanEnqueuePacket :: "packet_tracker \<Rightarrow> bool" where
  "CanEnqueuePacket t \<longleftrightarrow> pt_cur_num_packets t < pt_packet_limit t"

definition lower_min_seq :: "int \<Rightarrow> int option \<Rightarrow> int option" where
  "lower_min_seq seq_no m =
     (case m of None \<Rightarrow> Some seq_no | Some x \<Rightarrow> Some (if x > seq_no then seq_no else x))"

definition EnqueuePacket :: "int \<Rightarrow> int list \<Rightarrow> packet_tracker \<Rightarrow> packet_tracker outcome" where
  "EnqueuePacket seq_no payload t0 =
     (let t = t0\<lparr> pt_cur_min_seq := lower_min_seq seq_no (pt_cur_min_seq t0) \<rparr> in
      case pt_record_map t seq_no of
        None \<Rightarrow> Inr (t\<lparr>
          pt_record_map := (pt_record_map t)
            (seq_no \<mapsto> new_packet_record seq_no payload PACKET_STATE_QUEUED),
          pt_send := insort seq_no (pt_send t),
          pt_cur_num_packets := i32 (pt_cur_num_packets t + 1) \<rparr>)
      | Some _ \<Rightarrow> Inl Exit_Called)"

text \<open>OnPacketSent takes the packet off the queue its state names; it must be on top.\<close>

definition take_top :: "int \<Rightarrow> int list \<Rightarrow> int list outcome" where
  "take_top seq_no q =
     (case q of [] \<Rightarrow> Inl Out_Of_Bounds
      | x # q' \<Rightarrow> if seq_no \<noteq> x then Inl Exit_Called else Inr q')"

definition leave_queue :: "int \<Rightarrow> packet_record \<Rightarrow> packet_tracker \<Rightarrow> packet_tracker outcome" where
  "leave_queue seq_no r t =
     (if pr_packet_state r = PACKET_STATE_QUEUED
      then map_outcome (\<lambda>q. t\<lparr> pt_send := q \<rparr>) (take_top seq_no (pt_send t))
      else map_outcome (\<lambda>q. t\<lparr> pt_retransmittable := q \<rparr>) (take_top seq_no (pt_retransmittable t)))"

text \<open>insert of an unordered map keeps an entry that is already there.\<close>

definition map_insert :: "'k \<Rightarrow> 'v \<Rightarrow> ('k \<rightharpoonup> 'v) \<Rightarrow> ('k \<rightharpoonup> 'v)" where
  "map_insert k v m = (case m k of None \<Rightarrow> m(k \<mapsto> v) | Some _ \<Rightarrow> m)"

definition OnPacketSent ::
  "timespec \<Rightarrow> int \<Rightarrow> int \<Rightarrow> packet_tracker \<Rightarrow> packet_tracker outcome" where
  "OnPacketSent now seq_no msg_no t0 =
     (case pt_record_map t0 seq_no of
        None \<Rightarrow> Inl Exit_Called
      | Some r \<Rightarrow>
          bind_outcome (leave_queue seq_no r t0) (\<lambda>t.
            let packet_id = u64 (pt_prev_packet_id t + 1) in
            bind_outcome (UpdateRecord now PACKET_STATE_SENT msg_no packet_id r) (\<lambda>r1.
              map_outcome (\<lambda>ts. t\<lparr> pt_prev_packet_id := packet_id,
                  pt_record_map := (pt_record_map t)(seq_no \<mapsto> r1),
                  pt_sent := insort ts (pt_sent t),
                  pt_sent_time_map := map_insert ts seq_no (pt_sent_time_map t) \<rparr>)
                (record_sent_time msg_no r1))))"

definition OnPacketAck ::
  "timespec \<Rightarrow> int \<Rightarrow> int \<Rightarrow> packet_tracker \<Rightarrow> packet_tracker outcome" where
  "OnPacketAck now seq_no msg_no t =
     (case pt_record_map t seq_no of
        None \<Rightarrow> Inr t
      | Some r \<Rightarrow>
          bind_outcome (record_sent_time msg_no r) (\<lambda>ts.
            map_outcome (\<lambda>r1. t\<lparr> pt_sent_time_map := (pt_sent_time_map t)(ts := None),
                                pt_record_map := (pt_record_map t)(seq_no \<mapsto> r1) \<rparr>)
              (UpdateRecord now PACKET_STATE_ACKED msg_no 0 r)))"

definition OnPacketLoss :: "int \<Rightarrow> int \<Rightarrow> packet_tracker \<Rightarrow> packet_tracker outcome" where
  "OnPacketLoss seq_no msg_no t =
     (case pt_record_map t seq_no of
        None \<Rightarrow> Inr t
      | Some r \<Rightarrow>
          bind_outcome (record_sent_time msg_no r) (\<lambda>ts.
            map_outcome (\<lambda>r1. t\<lparr> pt_sent_time_map := (pt_sent_time_map t)(ts := None),
                                pt_record_map := (pt_record_map t)(seq_no \<mapsto> r1),
                                pt_retransmittable := insort seq_no (pt_retransmittable t) \<rparr>)
              (UpdateRecord (Timespec 0 0) PACKET_STATE_LOST msg_no 0 r)))"

text \<open>The search for the next recorded sequence number ends only when it meets one.\<close>

partial_function (option) next_recorded :: "(int \<rightharpoonup> packet_record) \<Rightarrow> int \<Rightarrow> int option" where
  "next_recorded m x =
     (if m x \<noteq> None then Some x else next_recorded m (i32 (x + 1)))"

definition DeletePacketRecord :: "int \<Rightarrow> packet_tracker \<Rightarrow> packet_tracker outcome" where
  "DeletePacketRecord seq_no t0 =
     (case pt_record_map t0 seq_no of
        None \<Rightarrow> Inl Exit_Called
      | Some _ \<Rightarrow>
          let t = t0\<lparr> pt_record_map := (pt_record_map t0)(seq_no := None),
                     pt_cur_num_packets := i32 (pt_cur_num_packets t0 - 1) \<rparr> in
          case pt_cur_min_seq t of
            None \<Rightarrow> Inl Null_Deref
          | Some m \<Rightarrow>
              if m = seq_no then
                if pt_cur_num_packets t = 0 then Inr (t\<lparr> pt_cur_min_seq := None \<rparr>)
                else case next_recorded (pt_record_map t) (i32 (m + 1)) of
                       None \<Rightarrow> Inl Diverges
                     | Some m' \<Rightarrow> Inr (t\<lparr> pt_cur_min_seq := Some m' \<rparr>)
              else Inr t)"

subsection \<open>Queries\<close>

definition tracker_record :: "'a \<Rightarrow> (packet_record \<Rightarrow> 'a outcome) \<Rightarrow> int \<Rightarrow> packet_tracker \<Rightarrow> 'a outcome" where
  "tracker_record absent f seq_no t =
     (case pt_record_map t seq_no of None \<Rightarrow> Inr absent | Some r \<Rightarrow> f r)"

definition GetPacketSentTime :: "int \<Rightarrow> int \<Rightarrow> packet_tracker \<Rightarrow> timespec outcome" where
  "GetPacketSentTime seq_no msg_no = tracker_record (Timespec 0 0) (record_sent_time msg_no) seq_no"

definition GetPacketId :: "int \<Rightarrow> int \<Rightarrow> packet_tracker \<Rightarrow> int outcome" where
  "GetPacketId seq_no msg_no = tracker_record 0 (record_packet_id msg_no) seq_no"

definition GetPacketRtt :: "int \<Rightarrow> int \<Rightarrow> packet_tracker \<Rightarrow> int outcome" where
  "GetPacketRtt seq_no msg_no = tracker_record 0 (record_rtt msg_no) seq_no"

definition GetPacketState :: "int \<Rightarrow> packet_tracker \<Rightarrow> packet_state" where
  "GetPacketState seq_no t =
     (case pt_record_map t seq_no of None \<Rightarrow> PACKET_STATE_NONE | Some r \<Rightarrow> pr_packet_state r)"

definition GetPacketSize :: "int \<Rightarrow> packet_tracker \<Rightarrow> int" where
  "GetPacketSize seq_no t =
     (case pt_record_map t seq_no of None \<Rightarrow> 0 | Some r \<Rightarrow> pr_packet_size r)"

definition GetPacketLastMsgNo :: "int \<Rightarrow> packet_tracker \<Rightarrow> int" where
  "GetPacketLastMsgNo seq_no t =
     (case pt_record_map t seq_no of None \<Rightarrow> 0 | Some r \<Rightarrow> GetPacketMostRecentMsgNo r)"

definition GetPacketPayloadPointer :: "int \<Rightarrow> packet_tracker \<Rightarrow> int list outcome" where
  "GetPacketPayloadPointer seq_no t =
     (case pt_record_map t seq_no of None \<Rightarrow> Inl Exit_Called | Some r \<Rightarrow> Inr (pr_payload r))"

definition GetMinSeqNo :: "packet_tracker \<Rightarrow> int outcome" where
  "GetMinSeqNo t = (case pt_cur_min_seq t of None \<Rightarrow> Inl Null_Deref | Some m \<Rightarrow> Inr m)"

definition HasSentPackets :: "packet_tracker \<Rightarrow> bool" where
  "HasSentPackets t \<longleftrightarrow> pt_sent t \<noteq> []"

text \<open>Deleted packets are not removed from the queues; they are popped when they reach the
  top.\<close>

fun skip_stale :: "('a \<Rightarrow> bool) \<Rightarrow> 'a list \<Rightarrow> 'a list" where
  "skip_stale live [] = []"
| "skip_stale live (x # q) = (if live x then x # q else skip_stale live q)"

definition recorded :: "packet_tracker \<Rightarrow> int \<Rightarrow> bool" where
  "recorded t x \<longleftrightarrow> pt_record_map t x \<noteq> None"

definition clean_send :: "packet_tracker \<Rightarrow> packet_tracker" where
  "clean_send t = t\<lparr> pt_send := skip_stale (recorded t) (pt_send t) \<rparr>"

definition clean_retransmittable :: "packet_tracker \<Rightarrow> packet_tracker" where
  "clean_retransmittable t =
     t\<lparr> pt_retransmittable := skip_stale (recorded t) (pt_retransmittable t) \<rparr>"

definition top_or_zero :: "int list \<Rightarrow> int" where
  "top_or_zero q = (case q of [] \<Rightarrow> 0 | x # _ \<Rightarrow> x)"

definition HasSendablePackets :: "packet_tracker \<Rightarrow> bool \<times> packet_tracker" where
  "HasSendablePackets t = (let t1 = clean_send t in (pt_send t1 \<noteq> [], t1))"

definition GetLowestSendableSeqNo :: "packet_tracker \<Rightarrow> int \<times> packet_tracker" where
  "GetLowestSendableSeqNo t = (let t1 = clean_send t in (top_or_zero (pt_send t1), t1))"

definition HasRetransmittablePackets :: "packet_tracker \<Rightarrow> bool \<times> packet_tracker" where
  "HasRetransmittablePackets t =
     (let t1 = clean_retransmittable t in (pt_retransmittable t1 \<noteq> [], t1))"

definition GetLowestRetransmittableSeqNo :: "packet_tracker \<Rightarrow> int \<times> packet_tracker" where
  "GetLowestRetransmittableSeqNo t =
     (let t1 = clean_retransmittable t in (top_or_zero (pt_retransmittable t1), t1))"

definition GetOldestSentSeqNo :: "packet_tracker \<Rightarrow> (int \<times> packet_tracker) outcome" where
  "GetOldestSentSeqNo t =
     guard_outcome Out_Of_Bounds (pt_sent t \<noteq> [])
       (let q = skip_stale (\<lambda>ts. pt_sent_time_map t ts \<noteq> None) (pt_sent t) in
        Inr (case q of [] \<Rightarrow> 0 | ts # _ \<Rightarrow> the (pt_sent_time_map t ts), t\<lparr> pt_sent := q \<rparr>))"

subsection \<open>The choice of the next packet\<close>

text \<open>What CUDT::packData asks of the tracker: a lost packet goes first, otherwise the lowest
  queued one; the transmission gets the message number after the packet's last.\<close>

definition select_packet :: "packet_tracker \<Rightarrow> int option \<times> packet_tracker" where
  "select_packet t =
     (case HasRetransmittablePackets t of (r, t1) \<Rightarrow>
        if r then (case GetLowestRetransmittableSeqNo t1 of (s, t2) \<Rightarrow> (Some s, t2))
        else (case HasSendablePackets t1 of (b, t2) \<Rightarrow>
                if b then (case GetLowestSendableSeqNo t2 of (s, t3) \<Rightarrow> (Some s, t3))
                else (None, t2)))"

definition transmit :: "timespec \<Rightarrow> int \<Rightarrow> packet_tracker \<Rightarrow> (int list \<times> int \<times> packet_tracker) outcome" where
  "transmit now seq_no t =
     bind_outcome (GetPacketPayloadPointer seq_no t) (\<lambda>payload.
       let msg_no = i32 (GetPacketLastMsgNo seq_no t + 1) in
       bind_outcome (OnPacketSent now seq_no msg_no t) (\<lambda>t1.
         map_outcome (\<lambda>packet_id. (payload, packet_id, t1)) (GetPacketId seq_no msg_no t1)))"

subsection \<open>Priority queues\<close>

locale priority_queue =
  fixes wf :: "'q \<Rightarrow> bool"
    and elems :: "'q \<Rightarrow> 'a::linorder multiset"
    and push :: "'a \<Rightarrow> 'q \<Rightarrow> 'q"
    and top :: "'q \<Rightarrow> 'a option"
    and pop :: "'q \<Rightarrow> 'q"
  assumes wf_push: "wf q \<Longrightarrow> wf (push x q)"
    and wf_pop: "wf q \<Longrightarrow> wf (pop q)"
    and elems_push: "elems (push x q) = add_mset x (elems q)"
    and top_None: "top q = None \<longleftrightarrow> elems q = {#}"
    and top_least: "wf q \<Longrightarrow> top q = Some x \<Longrightarrow> x \<in># elems q \<and> (\<forall>y \<in># elems q. x \<le> y)"
    and elems_pop: "top q = Some x \<Longrightarrow> elems q = add_mset x (elems (pop q))"
begin

lemma top_push:
  assumes "wf q" "\<forall>y \<in># elems q. x \<le> y"
  shows "top (push x q) = Some x"
proof -
  obtain z where z: "top (push x q) = Some z"
    using top_None[of "push x q"] by (cases "top (push x q)") (auto simp: elems_push)
  then have "z \<in># add_mset x (elems q)" "z \<le> x"
    using top_least[OF wf_push[OF assms(1)] z] by (auto simp: elems_push)
  with assms(2) have "z = x" by auto
  with z show ?thesis by simp
qed

lemma pop_later: "wf q \<Longrightarrow> top q = Some x \<Longrightarrow> y \<in># elems (pop q) \<Longrightarrow> x \<le> y"
  using top_least elems_pop by fastforce

text \<open>Popping until a live element is on top loses no live element and leaves the least of
  them on top.\<close>

inductive skips :: "('a \<Rightarrow> bool) \<Rightarrow> 'q \<Rightarrow> 'q \<Rightarrow> bool" for live where
  stop_empty: "top q = None \<Longrightarrow> skips live q q"
| stop_live: "top q = Some x \<Longrightarrow> live x \<Longrightarrow> skips live q q"
| skip: "top q = Some x \<Longrightarrow> \<not> live x \<Longrightarrow> skips live (pop q) q' \<Longrightarrow> skips live q q'"

lemma skips_wf: "skips live q q' \<Longrightarrow> wf q \<Longrightarrow> wf q'"
  by (induction rule: skips.induct) (auto intro: wf_pop)

lemma skips_live: "skips live q q' \<Longrightarrow> filter_mset live (elems q') = filter_mset live (elems q)"
  by (induction rule: skips.induct) (auto simp: elems_pop)

lemma skips_subset: "skips live q q' \<Longrightarrow> elems q' \<subseteq># elems q"
proof (induction rule: skips.induct)
  case (skip q x q')
  then show ?case using elems_pop[OF skip(1)]
    by (metis mset_subset_eq_add_right add_mset_add_single subset_mset.order_trans
        mset_subset_eq_add_left)
qed auto

lemma skips_top_live: "skips live q q' \<Longrightarrow> top q' = Some x \<Longrightarrow> live x"
  by (induction rule: skips.induct) auto

lemma skips_least:
  assumes "skips live q q'" "wf q" "y \<in># elems q" "live y"
  shows "\<exists>x. top q' = Some x \<and> live x \<and> x \<le> y"
proof -
  have "y \<in># elems q'"
  proof -
    have "y \<in># filter_mset live (elems q')"
      unfolding skips_live[OF assms(1)] using assms(3,4) by simp
    then show ?thesis by simp
  qed
  then obtain x where x: "top q' = Some x" using top_None[of q'] by (cases "top q'") auto
  then show ?thesis
    using top_least[OF skips_wf[OF assms(1,2)] x] skips_top_live[OF assms(1) x]
      \<open>y \<in># elems q'\<close> by auto
qed

end

definition pq_top :: "'a list \<Rightarrow> 'a option" where
  "pq_top q = (case q of [] \<Rightarrow> None | x # _ \<Rightarrow> Some x)"

lemma pq_top_simps [simp]: "pq_top [] = None" "pq_top (x # q) = Some x"
  by (simp_all add: pq_top_def)

lemma pq_top_None_iff [simp]: "pq_top q = None \<longleftrightarrow> q = []"
  by (cases q) simp_all

lemma pq_top_Some_iff [simp]: "pq_top q = Some x \<longleftrightarrow> (\<exists>q'. q = x # q')"
  by (cases q) auto

interpretation seq_queue: priority_queue sorted mset "insort :: int \<Rightarrow> int list \<Rightarrow> int list" pq_top tl
  by unfold_locales (auto simp: sorted_insort sorted_tl)

interpretation time_queue: priority_queue sorted mset
    "insort :: timespec \<Rightarrow> timespec list \<Rightarrow> timespec list" pq_top tl
  by unfold_locales (auto simp: sorted_insort sorted_tl)

lemma seq_skip_stale: "seq_queue.skips live q (skip_stale live q)"
proof (induction q)
  case (Cons x q)
  then show ?case
    by (cases "live x") (simp_all add: seq_queue.stop_live seq_queue.skip[of "x # q" x])
qed (simp add: seq_queue.stop_empty)

lemma time_skip_stale: "time_queue.skips live q (skip_stale live q)"
proof (induction q)
  case (Cons x q)
  then show ?case
    by (cases "live x") (simp_all add: time_queue.stop_live time_queue.skip[of "x # q" x])
qed (simp add: time_queue.stop_empty)


lemmas skip_stale_facts =
  seq_queue.skips_live[OF seq_skip_stale] seq_queue.skips_wf[OF seq_skip_stale]
  time_queue.skips_live[OF time_skip_stale] time_queue.skips_wf[OF time_skip_stale]

lemma skip_stale_set: "set (skip_stale live q) \<subseteq> set q"
  by (induction q) auto

lemma skip_stale_keeps: "x \<in> set q \<Longrightarrow> live x \<Longrightarrow> x \<in> set (skip_stale live q)"
  by (induction q) auto

lemma skip_stale_hd: "skip_stale live q = x # q' \<Longrightarrow> live x"
  by (induction q) (auto split: if_splits)

lemma skip_stale_idem [simp]: "skip_stale live (skip_stale live q) = skip_stale live q"
  by (induction q) auto

lemma skip_stale_sorted [simp]: "sorted q \<Longrightarrow> sorted (skip_stale live q)" for q :: "'a::linorder list"
  by (induction q) auto

lemma skip_stale_distinct: "distinct q \<Longrightarrow> distinct (skip_stale live q)"
  by (induction q) auto

subsection \<open>Records and their messages\<close>

text \<open>Transmissions of a packet carry the message numbers 1, 2, ...; a packet without
  transmission is still queued.\<close>

definition record_inv :: "packet_record \<Rightarrow> bool" where
  "record_inv r \<longleftrightarrow>
     map mr_msg_no (pr_msg_records r) = map int [1..<Suc (length (pr_msg_records r))]
     \<and> pr_packet_size r = int (length (pr_payload r))
     \<and> pr_packet_state r \<noteq> PACKET_STATE_NONE
     \<and> (pr_packet_state r = PACKET_STATE_QUEUED \<longleftrightarrow> pr_msg_records r = [])"

lemma find_message_None: "find_message m ms = None \<longleftrightarrow> m \<notin> mr_msg_no ` set ms"
  by (induction ms) auto

lemma find_message_Some:
  "find_message m ms = Some i \<Longrightarrow> i < length ms \<and> mr_msg_no (ms ! i) = m"
  by (induction ms arbitrary: i) (auto split: if_splits)

lemma record_inv_msg_no:
  assumes "record_inv r" "i < length (pr_msg_records r)"
  shows "mr_msg_no (pr_msg_records r ! i) = int i + 1"
proof -
  have "map mr_msg_no (pr_msg_records r) ! i = map int [1..<Suc (length (pr_msg_records r))] ! i"
    using assms(1) by (simp add: record_inv_def)
  then show ?thesis using assms(2) by (simp del: upt_Suc)
qed

lemma record_inv_find:
  assumes "record_inv r"
  shows "find_message m (pr_msg_records r) =
           (if 1 \<le> m \<and> m \<le> int (length (pr_msg_records r)) then Some (nat (m - 1)) else None)"
proof (cases "find_message m (pr_msg_records r)")
  case None
  have "set (map mr_msg_no (pr_msg_records r)) = set (map int [1..<Suc (length (pr_msg_records r))])"
    using assms unfolding record_inv_def by (metis (no_types))
  then have "mr_msg_no ` set (pr_msg_records r) = int ` {1..<Suc (length (pr_msg_records r))}"
    by (simp only: set_map set_upt)
  then have no: "m \<notin> int ` {1..<Suc (length (pr_msg_records r))}"
    using None by (simp only: find_message_None simp_thms)
  have "\<not> (1 \<le> m \<and> m \<le> int (length (pr_msg_records r)))"
  proof
    assume "1 \<le> m \<and> m \<le> int (length (pr_msg_records r))"
    then have "m = int (nat m)" "nat m \<in> {1..<Suc (length (pr_msg_records r))}" by auto
    then show False using no by blast
  qed
  with None show ?thesis by simp
next
  case (Some i)
  then have "i < length (pr_msg_records r)" "mr_msg_no (pr_msg_records r ! i) = m"
    by (auto dest: find_message_Some)
  then show ?thesis using Some record_inv_msg_no[OF assms] by auto
qed

lemma SafeGetMessageRecord_eq:
  "record_inv r \<Longrightarrow> SafeGetMessageRecord m r =
     (if 1 \<le> m \<and> m \<le> int (length (pr_msg_records r)) then Inr (nat (m - 1)) else Inl Exit_Called)"
  by (simp add: SafeGetMessageRecord_def record_inv_find)

lemma most_recent_eq:
  assumes "record_inv r"
  shows "GetPacketMostRecentMsgNo r = int (length (pr_msg_records r))"
proof (cases "pr_msg_records r = []")
  case False
  then show ?thesis
    using record_inv_msg_no[OF assms, of "length (pr_msg_records r) - 1"]
    by (simp add: GetPacketMostRecentMsgNo_def last_conv_nth of_nat_diff Suc_leI)
qed (simp add: GetPacketMostRecentMsgNo_def)

lemma last_msg_no:
  "record_inv r \<Longrightarrow> pr_msg_records r \<noteq> [] \<Longrightarrow>
     mr_msg_no (last (pr_msg_records r)) = int (length (pr_msg_records r))"
  using most_recent_eq[of r] by (simp add: GetPacketMostRecentMsgNo_def)

lemma new_record_inv: "record_inv (new_packet_record s p PACKET_STATE_QUEUED)"
  by (simp add: record_inv_def new_packet_record_def)

text \<open>The transmission that packData makes.\<close>

lemma update_sent:
  assumes "record_inv r" "m = int (length (pr_msg_records r)) + 1"
  shows "\<exists>r1. UpdateRecord now PACKET_STATE_SENT m pid r = Inr r1 \<and> record_inv r1
           \<and> pr_packet_state r1 = PACKET_STATE_SENT \<and> pr_payload r1 = pr_payload r
           \<and> pr_msg_records r1 = pr_msg_records r @
               [\<lparr> mr_rtt_us = 0, mr_msg_no = m, mr_packet_id = pid, mr_sent_time = now \<rparr>]
           \<and> record_sent_time m r1 = Inr now \<and> record_packet_id m r1 = Inr pid"
proof -
  let ?m = "\<lparr> mr_rtt_us = 0, mr_msg_no = m, mr_packet_id = pid, mr_sent_time = now \<rparr>"
  let ?r = "r\<lparr> pr_msg_records := pr_msg_records r @ [?m], pr_packet_state := PACKET_STATE_SENT \<rparr>"
  have inv: "record_inv ?r" using assms by (simp add: record_inv_def)
  have "UpdateRecord now PACKET_STATE_SENT m pid r = Inr ?r"
    by (simp add: UpdateRecord_def)
  moreover have "SafeGetMessageRecord m ?r = Inr (length (pr_msg_records r))"
    using SafeGetMessageRecord_eq[OF inv, of m] assms(2) by simp
  then have "record_sent_time m ?r = Inr now" "record_packet_id m ?r = Inr pid"
    by (simp_all add: record_sent_time_def record_packet_id_def)
  ultimately show ?thesis using inv by simp
qed

lemma update_acked:
  assumes "record_inv r" "1 \<le> m" "m \<le> int (length (pr_msg_records r))"
  shows "\<exists>r1. UpdateRecord now PACKET_STATE_ACKED m pid r = Inr r1 \<and> record_inv r1
           \<and> pr_packet_state r1 = (if m = int (length (pr_msg_records r)) then PACKET_STATE_ACKED
                                   else pr_packet_state r)
           \<and> record_rtt m r1 = Inr (elapsed_us (mr_sent_time (pr_msg_records r ! nat (m - 1))) now)
           \<and> map mr_sent_time (pr_msg_records r1) = map mr_sent_time (pr_msg_records r)"
proof -
  let ?i = "nat (m - 1)"
  let ?x = "pr_msg_records r ! ?i"
  let ?y = "?x\<lparr> mr_rtt_us := elapsed_us (mr_sent_time ?x) now \<rparr>"
  let ?ms = "(pr_msg_records r)[?i := ?y]"
  let ?r = "r\<lparr> pr_msg_records := ?ms, pr_packet_state :=
             (if m = int (length (pr_msg_records r)) then PACKET_STATE_ACKED else pr_packet_state r) \<rparr>"
  have ne: "pr_msg_records r \<noteq> []" and i: "?i < length (pr_msg_records r)" using assms(2,3) by auto
  have nos: "map mr_msg_no ?ms = map mr_msg_no (pr_msg_records r)"
    and ts: "map mr_sent_time ?ms = map mr_sent_time (pr_msg_records r)"
    using i by (simp_all add: map_update list_update_same_conv)
  have "mr_msg_no (last ?ms) = last (map mr_msg_no ?ms)" using ne by (simp add: last_map)
  also have "\<dots> = int (length (pr_msg_records r))"
    unfolding nos using ne last_msg_no[OF assms(1)] by (simp add: last_map)
  finally have l: "mr_msg_no (last ?ms) = int (length (pr_msg_records r))" .
  have inv: "record_inv ?r"
    using assms ne unfolding record_inv_def by (auto simp: nos simp del: upt_Suc)
  have "UpdateRecord now PACKET_STATE_ACKED m pid r = Inr ?r"
    using assms ne by (simp add: UpdateRecord_def SafeGetMessageRecord_eq Let_def l)
  moreover have "record_rtt m ?r = Inr (elapsed_us (mr_sent_time ?x) now)"
    using assms(2,3) i by (simp add: record_rtt_def SafeGetMessageRecord_eq[OF inv])
  ultimately show ?thesis using inv ts by simp
qed

lemma update_lost:
  assumes "record_inv r" "1 \<le> m" "m \<le> int (length (pr_msg_records r))"
  shows "\<exists>r1. UpdateRecord now PACKET_STATE_LOST m pid r = Inr r1 \<and> record_inv r1
           \<and> pr_packet_state r1 = (if m = int (length (pr_msg_records r)) then PACKET_STATE_LOST
                                   else pr_packet_state r)
           \<and> pr_msg_records r1 = pr_msg_records r"
proof -
  let ?r = "if m = int (length (pr_msg_records r)) then r\<lparr> pr_packet_state := PACKET_STATE_LOST \<rparr> else r"
  have ne: "pr_msg_records r \<noteq> []" using assms(2,3) by auto
  have "UpdateRecord now PACKET_STATE_LOST m pid r = Inr ?r"
    using ne by (simp add: UpdateRecord_def last_msg_no[OF assms(1)])
  moreover have "record_inv ?r" using assms(1) ne by (auto simp: record_inv_def simp del: upt_Suc)
  ultimately show ?thesis by simp
qed

subsection \<open>The search for the least recorded number\<close>

lemma next_recorded_least:
  assumes "m y \<noteq> None" "x \<le> y" "-2147483648 \<le> x" "y \<le> 2147483647"
  shows "\<exists>z. next_recorded m x = Some z \<and> m z \<noteq> None \<and> x \<le> z \<and> (\<forall>k. m k \<noteq> None \<longrightarrow> x \<le> k \<longrightarrow> z \<le> k)"
  using assms(2,3)
proof (induction "nat (y - x)" arbitrary: x)
  case 0
  then have "x = y" by simp
  then show ?case using assms(1) by (subst next_recorded.simps) auto
next
  case (Suc n)
  show ?case
  proof (cases "m x \<noteq> None")
    case True
    then show ?thesis by (subst next_recorded.simps) auto
  next
    case False
    have lt: "x < y" using Suc(2) by simp
    have "n = nat (y - (x + 1))" using Suc(2) by simp
    then obtain z where z: "next_recorded m (x + 1) = Some z" "m z \<noteq> None" "x + 1 \<le> z"
      "\<forall>k. m k \<noteq> None \<longrightarrow> x + 1 \<le> k \<longrightarrow> z \<le> k"
      using Suc(1)[of "x + 1"] Suc(4) lt by auto
    have "i32 (x + 1) = x + 1" using lt assms(4) Suc(4) by simp
    then have "next_recorded m x = Some z"
      using False z(1) by (subst next_recorded.simps) simp
    moreover have "z \<le> k" if "m k \<noteq> None" "x \<le> k" for k
      using that z(4) False by (cases "k = x") auto
    ultimately show ?thesis using z(2,3) by auto
  qed
qed

subsection \<open>The invariant\<close>

definition min_recorded :: "packet_tracker \<Rightarrow> int option" where
  "min_recorded t = (if dom (pt_record_map t) = {} then None else Some (Min (dom (pt_record_map t))))"

lemma min_recorded_cong: "pt_record_map t' = pt_record_map t \<Longrightarrow> min_recorded t' = min_recorded t"
  by (simp add: min_recorded_def)

definition rightly_queued :: "int list \<Rightarrow> int list \<Rightarrow> int \<Rightarrow> packet_record \<Rightarrow> bool" where
  "rightly_queued sq rq s r \<longleftrightarrow>
     (pr_packet_state r = PACKET_STATE_QUEUED \<longleftrightarrow> s \<in> set sq)
     \<and> (pr_packet_state r = PACKET_STATE_LOST \<longrightarrow> s \<in> set rq)
     \<and> (s \<in> set rq \<longrightarrow> pr_packet_state r \<noteq> PACKET_STATE_QUEUED)"

definition queues_inv :: "packet_tracker \<Rightarrow> bool" where
  "queues_inv t \<longleftrightarrow>
     sorted (pt_send t) \<and> distinct (pt_send t) \<and> sorted (pt_retransmittable t) \<and> sorted (pt_sent t)
     \<and> dom (pt_sent_time_map t) \<subseteq> set (pt_sent t)
     \<and> (\<forall>s r. pt_record_map t s = Some r \<longrightarrow>
          rightly_queued (pt_send t) (pt_retransmittable t) s r)"

lemma queues_invD:
  "queues_inv t \<Longrightarrow> pt_record_map t s = Some r \<Longrightarrow>
     rightly_queued (pt_send t) (pt_retransmittable t) s r"
  by (simp add: queues_inv_def)

definition tracker_inv :: "packet_tracker \<Rightarrow> bool" where
  "tracker_inv t \<longleftrightarrow>
     finite (dom (pt_record_map t)) \<and> (\<forall>s\<in>dom (pt_record_map t). i32_range s)
     \<and> pt_cur_num_packets t = int (card (dom (pt_record_map t)))
     \<and> pt_cur_num_packets t \<le> 2147483647
     \<and> pt_cur_min_seq t = min_recorded t
     \<and> (\<forall>r\<in>ran (pt_record_map t). record_inv r)
     \<and> queues_inv t"

definition fresh_seq :: "int \<Rightarrow> packet_tracker \<Rightarrow> bool" where
  "fresh_seq s t \<longleftrightarrow> i32_range s \<and> s \<notin> dom (pt_record_map t) \<and>
     s \<notin> set (pt_send t) \<and> s \<notin> set (pt_retransmittable t)"

lemma tracker_new_inv [step_inv]: "tracker_inv tracker_new"
  by (simp add: tracker_inv_def tracker_new_def min_recorded_def queues_inv_def)

lemma tracker_inv_record: "tracker_inv t \<Longrightarrow> pt_record_map t s = Some r \<Longrightarrow> record_inv r"
  unfolding tracker_inv_def by (blast intro: ranI)

lemma lower_min_recorded:
  assumes "tracker_inv t"
  shows "lower_min_seq s (pt_cur_min_seq t) = Some (Min (insert s (dom (pt_record_map t))))"
proof (cases "dom (pt_record_map t) = {}")
  case True
  then show ?thesis using assms by (simp add: tracker_inv_def min_recorded_def lower_min_seq_def)
next
  case False
  define x where "x = Min (dom (pt_record_map t))"
  have "pt_cur_min_seq t = Some x" "finite (dom (pt_record_map t))"
    using False assms by (simp_all add: tracker_inv_def min_recorded_def x_def)
  moreover have "Min (insert s (dom (pt_record_map t))) = min s x"
    using False calculation(2) by (simp add: x_def)
  ultimately show ?thesis by (simp add: lower_min_seq_def min_def)
qed

lemma EnqueuePacket_inv:
  assumes "tracker_inv t" "fresh_seq s t" "pt_cur_num_packets t < 2147483647"
  shows "\<exists>t'. EnqueuePacket s payload t = Inr t' \<and> tracker_inv t' \<and>
           GetPacketState s t' = PACKET_STATE_QUEUED"
proof -
  let ?r = "new_packet_record s payload PACKET_STATE_QUEUED"
  let ?m = "(pt_record_map t)(s \<mapsto> ?r)"
  let ?t = "t\<lparr> pt_cur_min_seq := lower_min_seq s (pt_cur_min_seq t), pt_record_map := ?m,
              pt_send := insort s (pt_send t), pt_cur_num_packets := i32 (pt_cur_num_packets t + 1) \<rparr>"
  have s: "pt_record_map t s = None" using assms(2) by (auto simp: fresh_seq_def)
  have eq: "EnqueuePacket s payload t = Inr ?t" using s by (simp add: EnqueuePacket_def)
  have num: "i32 (pt_cur_num_packets t + 1) = int (card (dom ?m))"
    using assms(1,3) domIff[of s "pt_record_map t"] s by (simp add: tracker_inv_def)
  have q: "queues_inv ?t"
    using assms s by (auto simp: queues_inv_def tracker_inv_def fresh_seq_def sorted_insort
      set_insort_key distinct_insort new_packet_record_def rightly_queued_def)
  have r: "\<forall>r\<in>ran ?m. record_inv r"
    using assms(1) s new_record_inv by (simp add: tracker_inv_def)
  have "tracker_inv ?t"
    using assms r q num lower_min_recorded[OF assms(1), of s] unfolding tracker_inv_def
    by (auto simp: min_recorded_def fresh_seq_def)
  then show ?thesis using eq by (simp add: GetPacketState_def new_packet_record_def)
qed

subsection \<open>Deleting, acknowledging and losing packets\<close>

lemma DeletePacketRecord_inv:
  assumes "tracker_inv t" "pt_record_map t s = Some r"
  shows "\<exists>t'. DeletePacketRecord s t = Inr t' \<and> tracker_inv t' \<and>
           pt_record_map t' = (pt_record_map t)(s := None)"
proof -
  let ?D = "dom (pt_record_map t)"
  let ?m = "(pt_record_map t)(s := None)"
  let ?t = "t\<lparr> pt_record_map := ?m, pt_cur_num_packets := i32 (pt_cur_num_packets t - 1) \<rparr>"
  define m where "m = Min ?D"
  have fin: "finite ?D" and sD: "s \<in> ?D" and rng: "\<forall>x\<in>?D. i32_range x"
    and mn: "pt_cur_min_seq t = Some m"
    using assms by (auto simp: tracker_inv_def min_recorded_def m_def)
  have mD: "m \<in> ?D" using Min_in[OF fin] sD unfolding m_def by blast
  have ml: "\<forall>x\<in>?D. m \<le> x" using fin unfolding m_def by simp
  have pos: "0 < card ?D" using fin sD by (auto simp: card_gt_0_iff)
  have num: "i32 (pt_cur_num_packets t - 1) = int (card (?D - {s}))"
    using assms(1) pos fin sD by (simp add: tracker_inv_def of_nat_diff)
  have inv: "tracker_inv (?t\<lparr> pt_cur_min_seq := x \<rparr>)"
    if "x = min_recorded ?t" for x
  proof -
    have "\<forall>r\<in>ran ?m. record_inv r"
      using assms(1) by (auto simp: tracker_inv_def ran_def split: if_splits)
    moreover have "queues_inv (?t\<lparr> pt_cur_min_seq := x \<rparr>)"
      using assms(1) by (auto simp: tracker_inv_def queues_inv_def rightly_queued_def)
    moreover have "int (card (?D - {s})) \<le> 2147483647"
      using assms(1) card_Diff1_le[of ?D s] by (simp add: tracker_inv_def)
    ultimately show ?thesis
      using that fin rng num by (simp add: tracker_inv_def min_recorded_def)
  qed
  have goal: ?thesis if "DeletePacketRecord s t = Inr (?t\<lparr> pt_cur_min_seq := x \<rparr>)"
      "x = min_recorded ?t" for x
    using that(1) inv[OF that(2)] by simp
  show ?thesis
  proof (cases "m = s")
    case False
    then have "Min (?D - {s}) = m" using fin mD ml by (intro Min_eqI) auto
    then have "min_recorded ?t = Some m" using False mD by (auto simp: min_recorded_def)
    then have mr: "Some m = min_recorded ?t" by (rule sym)
    have upd: "?t\<lparr> pt_cur_min_seq := Some m \<rparr> = ?t" using mn by (cases t) simp
    have "DeletePacketRecord s t = Inr ?t"
      using False assms(2) mn by (simp add: DeletePacketRecord_def Let_def)
    then have "DeletePacketRecord s t = Inr (?t\<lparr> pt_cur_min_seq := Some m \<rparr>)" by (simp only: upd)
    then show ?thesis using mr by (rule goal)
  next
    case True
    show ?thesis
    proof (cases "?D - {s} = {}")
      case True
      then have "min_recorded ?t = None" by (simp add: min_recorded_def)
      then show ?thesis using goal[of None] \<open>m = s\<close> assms(2) mn num True
        by (simp add: DeletePacketRecord_def Let_def)
    next
      case False
      then obtain y where y: "y \<in> ?D" "y \<noteq> s" by auto
      have "m < y" "y \<le> 2147483647" "-2147483648 \<le> m"
        using y ml rng mD \<open>m = s\<close> by (force simp: i32_range_def)+
      moreover from this have "i32 (m + 1) = m + 1" by simp
      moreover have "?m y \<noteq> None" using y by auto
      ultimately obtain z where z: "next_recorded ?m (i32 (m + 1)) = Some z" "?m z \<noteq> None"
        "\<forall>k. ?m k \<noteq> None \<longrightarrow> m + 1 \<le> k \<longrightarrow> z \<le> k"
        using next_recorded_least[of ?m y "m + 1"] by auto
      have "Min (?D - {s}) = z"
      proof (intro Min_eqI)
        fix k assume k: "k \<in> ?D - {s}"
        then have "m + 1 \<le> k" using ml \<open>m = s\<close> by force
        then show "z \<le> k" using z(3) k by auto
      qed (use fin z(2) in \<open>auto split: if_splits\<close>)
      then have mr: "min_recorded ?t = Some z" using False by (simp add: min_recorded_def)
      have "int (card (?D - {s})) \<noteq> 0" using False fin by simp
      then have "DeletePacketRecord s t = Inr (?t\<lparr> pt_cur_min_seq := Some z \<rparr>)"
        using z(1) assms(2) mn num \<open>m = s\<close> by (simp add: DeletePacketRecord_def Let_def)
      then show ?thesis using goal mr by simp
    qed
  qed
qed

lemma tracker_inv_upd:
  assumes "tracker_inv t" "pt_record_map t s = Some r" "record_inv r1"
    and "pt_record_map t' = (pt_record_map t)(s \<mapsto> r1)"
    and "pt_cur_num_packets t' = pt_cur_num_packets t" "pt_cur_min_seq t' = pt_cur_min_seq t"
    and "queues_inv t'"
  shows "tracker_inv t'"
proof -
  have "dom (pt_record_map t') = dom (pt_record_map t)" using assms(2,4) by auto
  moreover have "\<forall>r\<in>ran (pt_record_map t'). record_inv r"
    using assms(1,3,4) by (auto simp: tracker_inv_def ran_def split: if_splits)
  ultimately show ?thesis using assms by (simp add: tracker_inv_def min_recorded_def)
qed

lemma OnPacketAck_inv:
  assumes "tracker_inv t" "pt_record_map t s = Some r"
    and "1 \<le> m" "m \<le> int (length (pr_msg_records r))"
  shows "\<exists>t'. OnPacketAck now s m t = Inr t' \<and> tracker_inv t' \<and>
           GetPacketRtt s m t' = Inr (elapsed_us (mr_sent_time (pr_msg_records r ! nat (m - 1))) now)
           \<and> dom (pt_record_map t') = dom (pt_record_map t)
           \<and> (\<forall>x. x \<noteq> s \<longrightarrow> pt_record_map t' x = pt_record_map t x)"
proof -
  note rinv = tracker_inv_record[OF assms(1,2)]
  obtain r1 where r1: "UpdateRecord now PACKET_STATE_ACKED m 0 r = Inr r1" "record_inv r1"
    "pr_packet_state r1 = (if m = int (length (pr_msg_records r)) then PACKET_STATE_ACKED
                           else pr_packet_state r)"
    "record_rtt m r1 = Inr (elapsed_us (mr_sent_time (pr_msg_records r ! nat (m - 1))) now)"
    using update_acked[OF rinv assms(3,4), of now 0] by blast
  obtain ts where ts: "record_sent_time m r = Inr ts"
    using assms(3,4) by (simp add: record_sent_time_def SafeGetMessageRecord_eq[OF rinv])
  let ?t = "t\<lparr> pt_sent_time_map := (pt_sent_time_map t)(ts := None),
              pt_record_map := (pt_record_map t)(s \<mapsto> r1) \<rparr>"
  have eq: "OnPacketAck now s m t = Inr ?t"
    using assms(2) r1(1) ts by (simp add: OnPacketAck_def)
  have "pr_packet_state r \<noteq> PACKET_STATE_QUEUED" using rinv assms(3,4) by (auto simp: record_inv_def)
  then have "queues_inv ?t"
    using assms(1,2) r1(3) by (auto simp: tracker_inv_def queues_inv_def rightly_queued_def)
  then have "tracker_inv ?t" by (intro tracker_inv_upd[OF assms(1,2) r1(2)]) simp_all
  moreover have "GetPacketRtt s m ?t = record_rtt m r1" by (simp add: GetPacketRtt_def tracker_record_def)
  moreover have "dom (pt_record_map ?t) = dom (pt_record_map t)" using assms(2) by auto
  ultimately show ?thesis using eq r1(4) by simp
qed

lemma OnPacketLoss_inv:
  assumes "tracker_inv t" "pt_record_map t s = Some r"
    and "1 \<le> m" "m \<le> int (length (pr_msg_records r))"
  shows "\<exists>t'. OnPacketLoss s m t = Inr t' \<and> tracker_inv t' \<and> s \<in> set (pt_retransmittable t')
           \<and> (m = int (length (pr_msg_records r)) \<longrightarrow> GetPacketState s t' = PACKET_STATE_LOST)
           \<and> dom (pt_record_map t') = dom (pt_record_map t)"
proof -
  note rinv = tracker_inv_record[OF assms(1,2)]
  obtain r1 where r1: "UpdateRecord (Timespec 0 0) PACKET_STATE_LOST m 0 r = Inr r1" "record_inv r1"
    "pr_packet_state r1 = (if m = int (length (pr_msg_records r)) then PACKET_STATE_LOST
                           else pr_packet_state r)"
    using update_lost[OF rinv assms(3,4), of "Timespec 0 0" 0] by blast
  obtain ts where ts: "record_sent_time m r = Inr ts"
    using assms(3,4) by (simp add: record_sent_time_def SafeGetMessageRecord_eq[OF rinv])
  let ?t = "t\<lparr> pt_sent_time_map := (pt_sent_time_map t)(ts := None),
              pt_record_map := (pt_record_map t)(s \<mapsto> r1),
              pt_retransmittable := insort s (pt_retransmittable t) \<rparr>"
  have eq: "OnPacketLoss s m t = Inr ?t"
    using assms(2) r1(1) ts by (simp add: OnPacketLoss_def)
  have "pr_packet_state r \<noteq> PACKET_STATE_QUEUED" using rinv assms(3,4) by (auto simp: record_inv_def)
  then have "queues_inv ?t"
    using assms(1,2) r1(3)
    by (auto simp: tracker_inv_def queues_inv_def rightly_queued_def sorted_insort set_insort_key)
  then have "tracker_inv ?t" by (intro tracker_inv_upd[OF assms(1,2) r1(2)]) simp_all
  moreover have "dom (pt_record_map ?t) = dom (pt_record_map t)" using assms(2) by auto
  ultimately show ?thesis using eq r1(3) by (auto simp: GetPacketState_def set_insort_key)
qed


subsection \<open>Choosing and transmitting\<close>

lemma skip_stale_recorded:
  "pt_record_map t s \<noteq> None \<Longrightarrow> s \<in> set (skip_stale (recorded t) q) \<longleftrightarrow> s \<in> set q"
  using skip_stale_set[of "recorded t" q] skip_stale_keeps[of s q "recorded t"]
  by (auto simp: recorded_def)

lemma tracker_inv_queues:
  assumes "tracker_inv t" "pt_record_map t' = pt_record_map t"
    and "pt_cur_num_packets t' = pt_cur_num_packets t" "pt_cur_min_seq t' = pt_cur_min_seq t"
    and "queues_inv t'"
  shows "tracker_inv t'"
  using assms by (simp add: tracker_inv_def min_recorded_def)

lemma clean_queues_inv:
  assumes "queues_inv t"
  shows "queues_inv (clean_send t)" "queues_inv (clean_retransmittable t)"
proof -
  have rec: "s \<in> set (skip_stale (recorded t) q) \<longleftrightarrow> s \<in> set q" if "pt_record_map t s = Some r" for s r q
    using that by (intro skip_stale_recorded) simp
  have "rightly_queued (skip_stale (recorded t) (pt_send t)) (pt_retransmittable t) s r"
    "rightly_queued (pt_send t) (skip_stale (recorded t) (pt_retransmittable t)) s r"
    if "pt_record_map t s = Some r" for s r
    using queues_invD[OF assms that] rec[OF that] unfolding rightly_queued_def by auto
  then show "queues_inv (clean_send t)" "queues_inv (clean_retransmittable t)"
    using assms unfolding queues_inv_def clean_send_def clean_retransmittable_def
    by (simp_all add: skip_stale_distinct)
qed

lemma recorded_clean [simp]:
  "recorded (clean_send t) = recorded t" "recorded (clean_retransmittable t) = recorded t"
  "pt_record_map (clean_send t) = pt_record_map t"
  "pt_record_map (clean_retransmittable t) = pt_record_map t"
  "pt_retransmittable (clean_send t) = pt_retransmittable t"
  "pt_send (clean_retransmittable t) = pt_send t"
  "pt_prev_packet_id (clean_send t) = pt_prev_packet_id t"
  "pt_prev_packet_id (clean_retransmittable t) = pt_prev_packet_id t"
  "pt_cur_num_packets (clean_send t) = pt_cur_num_packets t"
  "pt_cur_num_packets (clean_retransmittable t) = pt_cur_num_packets t"
  "pt_cur_min_seq (clean_send t) = pt_cur_min_seq t"
  "pt_cur_min_seq (clean_retransmittable t) = pt_cur_min_seq t"
  by (simp_all add: recorded_def fun_eq_iff clean_send_def clean_retransmittable_def)

lemma clean_send_inv: "tracker_inv t \<Longrightarrow> tracker_inv (clean_send t)"
  by (rule tracker_inv_queues[of t])
    (simp_all add: clean_queues_inv tracker_inv_def)

lemma clean_retransmittable_inv: "tracker_inv t \<Longrightarrow> tracker_inv (clean_retransmittable t)"
  by (rule tracker_inv_queues[of t])
    (simp_all add: clean_queues_inv tracker_inv_def)

lemma clean_idem [simp]:
  "clean_send (clean_send t) = clean_send t"
  "clean_retransmittable (clean_retransmittable t) = clean_retransmittable t"
  by (simp_all add: clean_send_def clean_retransmittable_def recorded_def[abs_def])

lemma select_packet_eq:
  "select_packet t =
     (let t1 = clean_retransmittable t; t2 = clean_send t1 in
      if pt_retransmittable t1 \<noteq> [] then (Some (hd (pt_retransmittable t1)), t1)
      else if pt_send t2 \<noteq> [] then (Some (hd (pt_send t2)), t2) else (None, t2))"
  by (auto simp: select_packet_def HasRetransmittablePackets_def HasSendablePackets_def Let_def
    GetLowestRetransmittableSeqNo_def GetLowestSendableSeqNo_def top_or_zero_def
    split: list.splits)

lemma clean_retransmittable_least:
  assumes "sorted (pt_retransmittable t)" "x \<in> set (pt_retransmittable t)" "recorded t x"
  shows "\<exists>y q. pt_retransmittable (clean_retransmittable t) = y # q \<and> recorded t y \<and> y \<le> x"
  using seq_queue.skips_least[OF seq_skip_stale, of "pt_retransmittable t" x "recorded t"] assms
  by (auto simp: clean_retransmittable_def)

lemma clean_send_least:
  assumes "sorted (pt_send t)" "x \<in> set (pt_send t)" "recorded t x"
  shows "\<exists>y q. pt_send (clean_send t) = y # q \<and> recorded t y \<and> y \<le> x"
  using seq_queue.skips_least[OF seq_skip_stale, of "pt_send t" x "recorded t"] assms
  by (auto simp: clean_send_def)

text \<open>The chosen packet is recorded and on top of the queue OnPacketSent looks at.\<close>

definition on_top :: "int \<Rightarrow> packet_tracker \<Rightarrow> bool" where
  "on_top s t \<longleftrightarrow>
     (case pt_record_map t s of None \<Rightarrow> False
      | Some r \<Rightarrow> if pr_packet_state r = PACKET_STATE_QUEUED then pq_top (pt_send t) = Some s
                  else pq_top (pt_retransmittable t) = Some s)"

lemma select_packet_on_top:
  assumes "tracker_inv t" "select_packet t = (Some s, t')"
  shows "on_top s t' \<and> tracker_inv t' \<and> pt_record_map t' = pt_record_map t
           \<and> pt_prev_packet_id t' = pt_prev_packet_id t"
proof -
  let ?t1 = "clean_retransmittable t"
  let ?t2 = "clean_send ?t1"
  have i1: "tracker_inv ?t1" and i2: "tracker_inv ?t2"
    using assms(1) clean_send_inv clean_retransmittable_inv by blast+
  show ?thesis
  proof (cases "pt_retransmittable ?t1")
    case (Cons x q)
    then have st: "s = x" "t' = ?t1" using assms(2) by (auto simp: select_packet_eq Let_def)
    have "recorded t x" using Cons skip_stale_hd by (auto simp: clean_retransmittable_def)
    then obtain r where r: "pt_record_map t x = Some r" by (auto simp: recorded_def)
    have "pr_packet_state r \<noteq> PACKET_STATE_QUEUED"
      using i1 r Cons by (auto simp: tracker_inv_def queues_inv_def rightly_queued_def)
    then show ?thesis using st r Cons i1 by (simp add: on_top_def)
  next
    case Nil
    then obtain q where q: "pt_send ?t2 = s # q" and st: "t' = ?t2"
      using assms(2) by (auto simp: select_packet_eq Let_def neq_Nil_conv split: if_splits)
    have "recorded t s" using q skip_stale_hd by (auto simp: clean_send_def)
    then obtain r where r: "pt_record_map t s = Some r" by (auto simp: recorded_def)
    have "pr_packet_state r = PACKET_STATE_QUEUED"
      using i2 r q by (auto simp: tracker_inv_def queues_inv_def rightly_queued_def)
    then show ?thesis using st r q i2 by (simp add: on_top_def)
  qed
qed

definition few_messages :: "int \<Rightarrow> packet_tracker \<Rightarrow> bool" where
  "few_messages s t \<longleftrightarrow> GetPacketLastMsgNo s t < 2147483647"

lemma transmit_inv:
  assumes "tracker_inv t" "on_top s t" "few_messages s t"
  shows "\<exists>t' r. pt_record_map t s = Some r \<and>
           transmit now s t = Inr (pr_payload r, u64 (pt_prev_packet_id t + 1), t')
           \<and> tracker_inv t' \<and> GetPacketState s t' = PACKET_STATE_SENT
           \<and> GetPacketLastMsgNo s t' = GetPacketLastMsgNo s t + 1
           \<and> GetPacketSentTime s (GetPacketLastMsgNo s t') t' = Inr now
           \<and> pt_prev_packet_id t' = u64 (pt_prev_packet_id t + 1)
           \<and> dom (pt_record_map t') = dom (pt_record_map t)"
proof -
  obtain r where r: "pt_record_map t s = Some r" using assms(2) by (auto simp: on_top_def split: option.splits)
  note rinv = tracker_inv_record[OF assms(1) r]
  let ?n = "int (length (pr_msg_records r))"
  let ?pid = "u64 (pt_prev_packet_id t + 1)"
  have lm: "GetPacketLastMsgNo s t = ?n"
    using r by (simp add: GetPacketLastMsgNo_def most_recent_eq[OF rinv])
  then have msg: "i32 (GetPacketLastMsgNo s t + 1) = ?n + 1"
    using assms(3) by (simp add: few_messages_def)
  obtain r1 where r1: "UpdateRecord now PACKET_STATE_SENT (?n + 1) ?pid r = Inr r1" "record_inv r1"
    "pr_packet_state r1 = PACKET_STATE_SENT" "record_sent_time (?n + 1) r1 = Inr now"
    "record_packet_id (?n + 1) r1 = Inr ?pid" "length (pr_msg_records r1) = Suc (length (pr_msg_records r))"
    using update_sent[OF rinv refl, of now ?pid] by (metis length_append_singleton)
  define sq where "sq = (if pr_packet_state r = PACKET_STATE_QUEUED then tl (pt_send t) else pt_send t)"
  define rq where "rq = (if pr_packet_state r = PACKET_STATE_QUEUED then pt_retransmittable t
                         else tl (pt_retransmittable t))"
  let ?t0 = "t\<lparr> pt_send := sq, pt_retransmittable := rq \<rparr>"
  have lq: "leave_queue s r t = Inr ?t0"
    using assms(2) r by (auto simp: leave_queue_def on_top_def take_top_def sq_def rq_def)
  let ?t = "?t0\<lparr> pt_prev_packet_id := ?pid, pt_record_map := (pt_record_map t)(s \<mapsto> r1),
              pt_sent := insort now (pt_sent t),
              pt_sent_time_map := map_insert now s (pt_sent_time_map t) \<rparr>"
  have sent: "OnPacketSent now s (?n + 1) t = Inr ?t"
    using r lq r1 by (simp add: OnPacketSent_def Let_def)
  have q: "queues_inv t" using assms(1) by (simp add: tracker_inv_def)
  have sq: "sorted sq" "distinct sq" "set sq = (if pr_packet_state r = PACKET_STATE_QUEUED then set (pt_send t) - {s} else set (pt_send t))"
    "s \<notin> set sq"
    using q assms(2) r queues_invD[OF q r]
    by (auto simp: sq_def queues_inv_def on_top_def sorted_tl distinct_tl rightly_queued_def)
  have rq: "sorted rq" "set rq \<subseteq> set (pt_retransmittable t)" "set (pt_retransmittable t) \<subseteq> insert s (set rq)"
    using q assms(2) r by (auto simp: rq_def queues_inv_def on_top_def sorted_tl)
  have "rightly_queued sq rq s' r'" if new: "((pt_record_map t)(s \<mapsto> r1)) s' = Some r'" for s' r'
  proof (cases "s' = s")
    case True
    then show ?thesis using new r1(3) sq(4) by (simp add: rightly_queued_def)
  next
    case False
    then have "pt_record_map t s' = Some r'" using new by simp
    from queues_invD[OF q this] show ?thesis
      using False sq(3) rq(2,3) by (auto simp: rightly_queued_def split: if_splits)
  qed
  moreover have "dom (map_insert now s (pt_sent_time_map t)) \<subseteq> set (insort now (pt_sent t))"
    using q by (auto simp: queues_inv_def map_insert_def set_insort_key split: option.splits if_splits)
  ultimately have "queues_inv ?t"
    using q sq(1,2) rq(1) unfolding queues_inv_def by (simp add: sorted_insort)
  then have inv: "tracker_inv ?t" by (intro tracker_inv_upd[OF assms(1) r r1(2)]) simp_all
  have last: "GetPacketLastMsgNo s ?t = ?n + 1"
    using r1(6) by (simp add: GetPacketLastMsgNo_def most_recent_eq[OF r1(2)])
  have "transmit now s t = Inr (pr_payload r, ?pid, ?t)"
    using r sent r1(5) unfolding transmit_def msg
    by (simp add: GetPacketPayloadPointer_def GetPacketId_def tracker_record_def msg Let_def)
  moreover have "GetPacketState s ?t = PACKET_STATE_SENT" using r1(3) by (simp add: GetPacketState_def)
  moreover have "GetPacketSentTime s (GetPacketLastMsgNo s ?t) ?t = Inr now"
    using r1(4) unfolding last by (simp add: GetPacketSentTime_def tracker_record_def)
  moreover have "dom (pt_record_map ?t) = dom (pt_record_map t)" using r by auto
  ultimately show ?thesis using inv r lm last by auto
qed

subsection \<open>How the connection drives the tracker\<close>

inductive tracker_step :: "packet_tracker \<Rightarrow> packet_tracker \<Rightarrow> bool" where
  enqueue: "fresh_seq s t \<Longrightarrow> pt_cur_num_packets t < 2147483647 \<Longrightarrow>
    EnqueuePacket s payload t = Inr t' \<Longrightarrow> tracker_step t t'"
| send: "select_packet t = (Some s, t1) \<Longrightarrow> few_messages s t1 \<Longrightarrow>
    transmit now s t1 = Inr (payload, packet_id, t') \<Longrightarrow> tracker_step t t'"
| idle: "select_packet t = (None, t') \<Longrightarrow> tracker_step t t'"
| ack: "OnPacketAck now s m t = Inr t' \<Longrightarrow> tracker_step t t'"
| loss: "OnPacketLoss s m t = Inr t' \<Longrightarrow> tracker_step t t'"
| oldest: "GetOldestSentSeqNo t = Inr (s, t') \<Longrightarrow> tracker_step t t'"
| delete: "DeletePacketRecord s t = Inr t' \<Longrightarrow> tracker_step t t'"

inductive_cases tracker_stepE: "tracker_step t t'"

definition tracker_reachable :: "packet_tracker \<Rightarrow> bool" where
  "tracker_reachable t \<longleftrightarrow> tracker_step\<^sup>*\<^sup>* tracker_new t"

lemma GetOldestSentSeqNo_inv:
  assumes "tracker_inv t" "GetOldestSentSeqNo t = Inr (s, t')"
  shows "tracker_inv t'"
proof -
  let ?q = "skip_stale (\<lambda>ts. pt_sent_time_map t ts \<noteq> None) (pt_sent t)"
  have t': "t' = t\<lparr> pt_sent := ?q \<rparr>"
    using assms(2) by (simp add: GetOldestSentSeqNo_def guard_outcome_Inr_iff Let_def)
  have "queues_inv t" using assms(1) by (simp add: tracker_inv_def)
  moreover have "dom (pt_sent_time_map t) \<subseteq> set ?q"
    using calculation by (auto simp: queues_inv_def intro: skip_stale_keeps)
  ultimately have "queues_inv t'" unfolding t' queues_inv_def by simp
  then show ?thesis by (rule tracker_inv_queues[OF assms(1), rotated 3]) (simp_all add: t')
qed

lemma message_exists:
  assumes "tracker_inv t" "pt_record_map t s = Some r" "record_sent_time m r = Inr ts"
  shows "1 \<le> m \<and> m \<le> int (length (pr_msg_records r))"
  using assms(3) SafeGetMessageRecord_eq[OF tracker_inv_record[OF assms(1,2)], of m]
  by (auto simp: record_sent_time_def split: if_splits)

lemma tracker_step_inv [step_inv]:
  assumes "tracker_step t t'" "tracker_inv t"
  shows "tracker_inv t'"
  using assms
proof cases
  case (enqueue s payload)
  then show ?thesis using EnqueuePacket_inv[OF assms(2), of s payload] by auto
next
  case (send s t1 now payload packet_id)
  then show ?thesis
    using select_packet_on_top[OF assms(2), of s t1] transmit_inv[of t1 s now] by auto
next
  case idle
  have "t' = clean_send (clean_retransmittable t)"
    using idle by (simp add: select_packet_eq Let_def split: if_splits)
  then show ?thesis using assms(2) clean_send_inv clean_retransmittable_inv by simp
next
  case (ack now s m)
  show ?thesis
  proof (cases "pt_record_map t s")
    case None
    then show ?thesis using ack assms(2) by (simp add: OnPacketAck_def)
  next
    case (Some r)
    then obtain ts where "record_sent_time m r = Inr ts"
      using ack by (auto simp: OnPacketAck_def bind_outcome_Inr_iff)
    then show ?thesis
      using OnPacketAck_inv[OF assms(2) Some, of m now] message_exists[OF assms(2) Some] ack by auto
  qed
next
  case (loss s m)
  show ?thesis
  proof (cases "pt_record_map t s")
    case None
    then show ?thesis using loss assms(2) by (simp add: OnPacketLoss_def)
  next
    case (Some r)
    then obtain ts where "record_sent_time m r = Inr ts"
      using loss by (auto simp: OnPacketLoss_def bind_outcome_Inr_iff)
    then show ?thesis
      using OnPacketLoss_inv[OF assms(2) Some, of m] message_exists[OF assms(2) Some] loss by auto
  qed
next
  case (oldest s)
  then show ?thesis using GetOldestSentSeqNo_inv[OF assms(2)] by blast
next
  case (delete s)
  then obtain r where "pt_record_map t s = Some r"
    by (auto simp: DeletePacketRecord_def split: option.splits)
  then show ?thesis using DeletePacketRecord_inv[OF assms(2), of s r] delete by auto
qed

lemma tracker_reachable_inv: "tracker_reachable t \<Longrightarrow> tracker_inv t"
  unfolding tracker_reachable_def
  by (induction rule: rtranclp_induct) (auto intro: tracker_new_inv tracker_step_inv)

lemma tracker_reachable_step: "tracker_reachable t \<Longrightarrow> tracker_step t t' \<Longrightarrow> tracker_reachable t'"
  unfolding tracker_reachable_def by (rule rtranclp.rtrancl_into_rtrancl)

lemma tracker_reachable_new: "tracker_reachable tracker_new"
  by (simp add: tracker_reachable_def)

text \<open>Elapsed time is exact up to a microsecond.\<close>

lemma elapsed_us_bounds:
  assumes "valid_timespec a" "valid_timespec b" "a \<le> b"
  shows "\<bar>1000 * elapsed_us a b - (time_ns b - time_ns a)\<bar> < 1000 \<and> 0 \<le> elapsed_us a b"
proof -
  let ?s = "tv_sec b - tv_sec a" and ?n = "tv_nsec b - tv_nsec a"
  have c: "\<bar>1000 * cdiv ?n 1000 - ?n\<bar> < 1000"
  proof (cases "0 \<le> ?n")
    case True
    then show ?thesis by simp
  next
    case False
    then have "cdiv ?n 1000 = - ((- ?n) div 1000)" by (simp add: cdiv_def)
    then show ?thesis using False by linarith
  qed
  have n: "-1000000000 < ?n" "?n < 1000000000" "?s < 2 ^ 40" and s: "0 \<le> ?s"
    using assms by (auto simp: valid_timespec_def less_eq_timespec_def split: if_splits)
  have "0 \<le> 1000000 * ?s + cdiv ?n 1000"
  proof (cases "?s = 0")
    case True
    then have "0 \<le> ?n" using assms(3) by (simp add: less_eq_timespec_def)
    then show ?thesis using True by simp
  next
    case False
    then have "1 \<le> ?s" using s by simp
    moreover have "-1000000 \<le> cdiv ?n 1000" using n(1) c by linarith
    moreover have "1000000 * 1 \<le> 1000000 * ?s"
      using calculation(1) by (intro mult_left_mono) simp_all
    ultimately show ?thesis by simp
  qed
  moreover have "1000000 * ?s + cdiv ?n 1000 < 18446744073709551616"
    using n c by simp
  ultimately have "elapsed_us a b = 1000000 * ?s + cdiv ?n 1000"
    by (simp add: elapsed_us_def)
  then show ?thesis using c \<open>0 \<le> 1000000 * ?s + cdiv ?n 1000\<close> by (simp add: time_ns_def algebra_simps)
qed


subsection \<open>Sample states\<close>

text \<open>Packets 7 and 5 queued; then 5 transmitted at second 3; then 5 lost.\<close>

definition sample_queued :: packet_tracker where
  "sample_queued =
     tracker_new\<lparr>
       pt_record_map := [7 \<mapsto> new_packet_record 7 [1, 2] PACKET_STATE_QUEUED,
                         5 \<mapsto> new_packet_record 5 [3] PACKET_STATE_QUEUED],
       pt_send := [5, 7], pt_cur_num_packets := 2, pt_cur_min_seq := Some 5 \<rparr>"

definition sample_sent_record :: packet_record where
  "sample_sent_record =
     \<lparr> pr_packet_state = PACKET_STATE_SENT, pr_payload = [3], pr_packet_size = 1, pr_seq_no = 5,
       pr_msg_records = [\<lparr> mr_rtt_us = 0, mr_msg_no = 1, mr_packet_id = 1,
                           mr_sent_time = Timespec 3 999999500 \<rparr>] \<rparr>"

definition sample_sent :: packet_tracker where
  "sample_sent =
     sample_queued\<lparr>
       pt_record_map := [7 \<mapsto> new_packet_record 7 [1, 2] PACKET_STATE_QUEUED, 5 \<mapsto> sample_sent_record],
       pt_send := [7], pt_sent := [Timespec 3 999999500],
       pt_sent_time_map := [Timespec 3 999999500 \<mapsto> 5], pt_prev_packet_id := 1 \<rparr>"

lemma sample_select: "select_packet sample_queued = (Some 5, sample_queued)"
  by (simp add: select_packet_eq Let_def clean_send_def clean_retransmittable_def recorded_def
    sample_queued_def tracker_new_def)

lemma sample_transmit:
  "transmit (Timespec 3 999999500) 5 sample_queued = Inr ([3], 1, sample_sent)"
  by (simp add: transmit_def GetPacketPayloadPointer_def GetPacketLastMsgNo_def
    GetPacketMostRecentMsgNo_def OnPacketSent_def leave_queue_def take_top_def UpdateRecord_def
    record_sent_time_def SafeGetMessageRecord_def GetPacketId_def tracker_record_def
    record_packet_id_def map_insert_def new_packet_record_def sample_queued_def sample_sent_def
    sample_sent_record_def tracker_new_def Let_def fun_upd_twist)

lemma sample_queued_reachable: "tracker_reachable sample_queued"
proof -
  let ?t1 = "tracker_new\<lparr> pt_record_map := [7 \<mapsto> new_packet_record 7 [1, 2] PACKET_STATE_QUEUED],
       pt_send := [7], pt_cur_num_packets := 1, pt_cur_min_seq := Some 7 \<rparr>"
  have "tracker_step tracker_new ?t1"
    by (rule tracker_step.enqueue[of 7 _ "[1, 2]"])
      (simp_all add: fresh_seq_def i32_range_def tracker_new_def EnqueuePacket_def lower_min_seq_def)
  moreover have "tracker_step ?t1 sample_queued"
    by (rule tracker_step.enqueue[of 5 _ "[3]"])
      (simp_all add: fresh_seq_def i32_range_def tracker_new_def EnqueuePacket_def lower_min_seq_def
        sample_queued_def)
  ultimately show ?thesis
    using tracker_reachable_new tracker_reachable_step by blast
qed

lemma sample_few: "few_messages 5 sample_queued"
  by (simp add: few_messages_def GetPacketLastMsgNo_def GetPacketMostRecentMsgNo_def
    sample_queued_def new_packet_record_def)

lemma sample_sent_reachable: "tracker_reachable sample_sent"
  by (rule tracker_reachable_step[OF sample_queued_reachable])
    (rule tracker_step.send[OF sample_select sample_few sample_transmit])

subsection \<open>Properties\<close>

definition transmittable :: "packet_state \<Rightarrow> packet_tracker \<Rightarrow> int set" where
  "transmittable st t = {x. GetPacketState x t = st}"

lemma transmittable_queue:
  assumes "tracker_inv t"
  shows "x \<in> transmittable PACKET_STATE_LOST t \<Longrightarrow> x \<in> set (pt_retransmittable t) \<and> recorded t x"
    and "x \<in> transmittable PACKET_STATE_QUEUED t \<Longrightarrow> x \<in> set (pt_send t) \<and> recorded t x"
  using assms queues_invD[of t x]
  by (auto simp: transmittable_def GetPacketState_def tracker_inv_def rightly_queued_def recorded_def
    split: option.splits)

lemma select_least:
  assumes "tracker_inv t" "select_packet t = (Some s, t1)"
  shows "(\<forall>x\<in>transmittable PACKET_STATE_LOST t. s \<le> x) \<and>
    (GetPacketState s t = PACKET_STATE_QUEUED \<longrightarrow>
       transmittable PACKET_STATE_LOST t = {} \<and> (\<forall>x\<in>transmittable PACKET_STATE_QUEUED t. s \<le> x))"
proof -
  let ?t1 = "clean_retransmittable t"
  have srt: "sorted (pt_retransmittable t)" "sorted (pt_send ?t1)"
    using assms(1) by (simp_all add: tracker_inv_def queues_inv_def)
  have lost: "\<exists>y q. pt_retransmittable ?t1 = y # q \<and> y \<le> x"
    if "x \<in> transmittable PACKET_STATE_LOST t" for x
    using clean_retransmittable_least[OF srt(1)] transmittable_queue(1)[OF assms(1) that] by blast
  have queued: "\<exists>y q. pt_send (clean_send ?t1) = y # q \<and> y \<le> x"
    if "x \<in> transmittable PACKET_STATE_QUEUED t" for x
    using clean_send_least[OF srt(2), of x] transmittable_queue(2)[OF assms(1) that] by simp blast
  show ?thesis
  proof (cases "pt_retransmittable ?t1")
    case Nil
    then have "transmittable PACKET_STATE_LOST t = {}" using lost by fastforce
    moreover have "s = hd (pt_send (clean_send ?t1))"
      using Nil assms(2) by (auto simp: select_packet_eq Let_def split: if_splits)
    ultimately show ?thesis using queued by fastforce
  next
    case (Cons y q)
    then have s: "s = y" using assms(2) by (simp add: select_packet_eq Let_def)
    have "recorded t y" using Cons skip_stale_hd by (auto simp: clean_retransmittable_def)
    moreover have "queues_inv ?t1"
      using clean_retransmittable_inv[OF assms(1)] by (simp add: tracker_inv_def)
    ultimately have "GetPacketState s t \<noteq> PACKET_STATE_QUEUED"
      using queues_invD[of ?t1 y] Cons s
      by (auto simp: GetPacketState_def recorded_def rightly_queued_def)
    then show ?thesis using lost Cons s by fastforce
  qed
qed

lemma select_some:
  assumes "tracker_inv t" "select_packet t = (None, t1)"
  shows "transmittable PACKET_STATE_LOST t = {} \<and> transmittable PACKET_STATE_QUEUED t = {}"
proof -
  let ?t1 = "clean_retransmittable t"
  have srt: "sorted (pt_retransmittable t)" "sorted (pt_send ?t1)"
    using assms(1) by (simp_all add: tracker_inv_def queues_inv_def)
  have e: "pt_retransmittable ?t1 = []" "pt_send (clean_send ?t1) = []"
    using assms(2) by (auto simp: select_packet_eq Let_def split: if_splits)
  have "False" if "x \<in> transmittable PACKET_STATE_LOST t" for x
    using clean_retransmittable_least[OF srt(1)] transmittable_queue(1)[OF assms(1) that] e(1) by fastforce
  moreover have "False" if "x \<in> transmittable PACKET_STATE_QUEUED t" for x
    using clean_send_least[OF srt(2), of x] transmittable_queue(2)[OF assms(1) that] e(2) by fastforce
  ultimately show ?thesis by blast
qed



text \<open>C26: acknowledging removes exactly the acknowledged packet, and the cached minimum, from
  which the connection computes how far the sender buffer may advance, stays the least
  outstanding sequence number; the search for it ends.  When the last outstanding packet is
  removed there is no minimum, and GetMinSeqNo, which ProcessAck calls next, dereferences
  the null pointer.\<close>

theorem tracker_delete_keeps_minimum:
  assumes "tracker_reachable t"
    and "recorded t s"
  shows "\<exists>t'. DeletePacketRecord s t = Inr t'
           \<and> pt_record_map t' = (pt_record_map t)(s := None)
           \<and> GetMinSeqNo t' = (if dom (pt_record_map t) = {s} then Inl Null_Deref
                               else Inr (Min (dom (pt_record_map t) - {s})))"
proof -
  obtain r where r: "pt_record_map t s = Some r" using assms(2) by (auto simp: recorded_def)
  obtain t' where t': "DeletePacketRecord s t = Inr t'" "tracker_inv t'"
    "pt_record_map t' = (pt_record_map t)(s := None)"
    using DeletePacketRecord_inv[OF tracker_reachable_inv[OF assms(1)] r] by blast
  have d: "dom (pt_record_map t') = dom (pt_record_map t) - {s}" using t'(3) by auto
  have "dom (pt_record_map t) - {s} = {} \<longleftrightarrow> dom (pt_record_map t) = {s}" using r by auto
  moreover have "pt_cur_min_seq t' = min_recorded t'" using t'(2) by (simp add: tracker_inv_def)
  ultimately have "GetMinSeqNo t' = (if dom (pt_record_map t) = {s} then Inl Null_Deref
                     else Inr (Min (dom (pt_record_map t) - {s})))"
    unfolding GetMinSeqNo_def min_recorded_def d by simp
  with t' show ?thesis by blast
qed

theorem tracker_delete_keeps_minimum_witness:
  "\<exists>t'. DeletePacketRecord 5 sample_sent = Inr t' \<and> GetMinSeqNo t' = Inr 7"
proof -
  have "recorded sample_sent 5" by (simp add: recorded_def sample_sent_def)
  moreover have "dom (pt_record_map sample_sent) = {5, 7}" by (auto simp: sample_sent_def)
  moreover have "{5, 7} - {5} = {7 :: int}" by auto
  ultimately show ?thesis
    using tracker_delete_keeps_minimum[OF sample_sent_reachable, of 5] by auto
qed

text \<open>The RTT the tracker reports for an acknowledged transmission is the time from its
  sending to its acknowledgement, up to a microsecond; an acknowledgement of a message
  number that was never sent for a recorded packet ends the process.\<close>

theorem tracker_rtt:
  assumes "tracker_reachable t"
    and "pt_record_map t s = Some r"
  shows "(1 \<le> m \<and> m \<le> GetPacketLastMsgNo s t \<and> GetPacketSentTime s m t = Inr sent
            \<and> valid_timespec sent \<and> valid_timespec now \<and> sent \<le> now \<longrightarrow>
          (\<exists>t' rtt. OnPacketAck now s m t = Inr t' \<and> GetPacketRtt s m t' = Inr rtt \<and> 0 \<le> rtt
             \<and> \<bar>1000 * rtt - (time_ns now - time_ns sent)\<bar> < 1000))
         \<and> (\<not> (1 \<le> m \<and> m \<le> GetPacketLastMsgNo s t) \<longrightarrow> OnPacketAck now s m t = Inl Exit_Called)"
proof -
  note inv = tracker_reachable_inv[OF assms(1)]
  note rinv = tracker_inv_record[OF inv assms(2)]
  have last: "GetPacketLastMsgNo s t = int (length (pr_msg_records r))"
    using assms(2) most_recent_eq[OF rinv] by (simp add: GetPacketLastMsgNo_def)
  have "\<exists>t' rtt. OnPacketAck now s m t = Inr t' \<and> GetPacketRtt s m t' = Inr rtt \<and> 0 \<le> rtt
             \<and> \<bar>1000 * rtt - (time_ns now - time_ns sent)\<bar> < 1000"
    if m: "1 \<le> m" "m \<le> int (length (pr_msg_records r))" and "GetPacketSentTime s m t = Inr sent"
      and "valid_timespec sent" "valid_timespec now" "sent \<le> now"
  proof -
    have "sent = mr_sent_time (pr_msg_records r ! nat (m - 1))"
      using that(3) m assms(2)
      by (simp add: GetPacketSentTime_def tracker_record_def record_sent_time_def
        SafeGetMessageRecord_eq[OF rinv])
    then show ?thesis
      using OnPacketAck_inv[OF inv assms(2) m, of now] elapsed_us_bounds[OF that(4-6)] by auto
  qed
  moreover have "OnPacketAck now s m t = Inl Exit_Called"
    if "\<not> (1 \<le> m \<and> m \<le> int (length (pr_msg_records r)))"
    using that assms(2)
    by (auto simp: OnPacketAck_def record_sent_time_def SafeGetMessageRecord_eq[OF rinv])
  ultimately show ?thesis unfolding last by blast
qed


theorem tracker_rtt_witness:
  "(\<exists>t' rtt. OnPacketAck (Timespec 4 0) 5 1 sample_sent = Inr t' \<and> GetPacketRtt 5 1 t' = Inr rtt
      \<and> \<bar>1000 * rtt - 500\<bar> < 1000)
   \<and> OnPacketAck (Timespec 4 0) 5 2 sample_sent = Inl Exit_Called"
proof -
  have r: "pt_record_map sample_sent 5 = Some sample_sent_record" by (simp add: sample_sent_def)
  have "GetPacketLastMsgNo 5 sample_sent = 1"
    "GetPacketSentTime 5 1 sample_sent = Inr (Timespec 3 999999500)"
    using r by (simp_all add: GetPacketLastMsgNo_def GetPacketMostRecentMsgNo_def
      GetPacketSentTime_def tracker_record_def record_sent_time_def SafeGetMessageRecord_def
      sample_sent_record_def)
  then show ?thesis
    using tracker_rtt[OF sample_sent_reachable r, of 1 "Timespec 3 999999500" "Timespec 4 0"]
      tracker_rtt[OF sample_sent_reachable r, of 2]
    by (simp add: valid_timespec_def less_eq_timespec_def time_ns_def) blast
qed

end
