(* ===== verification/Byte_Order.thy ===== *)
theory Byte_Order
  imports Pcc_Prelude
begin

text \<open>Bytes and 32-bit words in the memory of a little-endian host, the host the code is built
  for: a word lies in memory as its four bytes, least significant first.  htonl and ntohl
  reverse them.  Shared by the packet format, the addresses and MD5.\<close>

unbundle bit_operations_syntax

type_synonym byte = "8 word"

lemma uint_of_small: "0 \<le> t \<Longrightarrow> t < 4294967296 \<Longrightarrow> uint (word_of_int t :: 32 word) = t"
  by (simp add: uint_word_of_int_eq take_bit_int_eq_self)

definition word_bytes :: "32 word \<Rightarrow> byte list" where
  "word_bytes w = [ucast w, ucast (drop_bit 8 w), ucast (drop_bit 16 w), ucast (drop_bit 24 w)]"

definition word_of_bytes4 :: "byte \<Rightarrow> byte \<Rightarrow> byte \<Rightarrow> byte \<Rightarrow> 32 word" where
  "word_of_bytes4 a b c d =
     ucast a OR push_bit 8 (ucast b) OR push_bit 16 (ucast c) OR push_bit 24 (ucast d)"

fun words_of_bytes :: "byte list \<Rightarrow> 32 word list" where
  "words_of_bytes (a # b # c # d # bs) = word_of_bytes4 a b c d # words_of_bytes bs"
| "words_of_bytes _ = []"

definition bytes_of_words :: "32 word list \<Rightarrow> byte list" where
  "bytes_of_words ws = concat (map word_bytes ws)"

lemma length_word_bytes [simp]: "length (word_bytes w) = 4"
  by (simp add: word_bytes_def)

lemma word_of_word_bytes [simp]:
  "word_of_bytes4 (ucast w) (ucast (drop_bit 8 w)) (ucast (drop_bit 16 w)) (ucast (drop_bit 24 w)) = w"
proof (rule bit_word_eqI)
  fix n assume "n < LENGTH(32)"
  then consider "n < 8" | "8 \<le> n" "n < 16" | "16 \<le> n" "n < 24" | "24 \<le> n" "n < 32" by fastforce
  then show "bit (word_of_bytes4 (ucast w) (ucast (drop_bit 8 w)) (ucast (drop_bit 16 w))
      (ucast (drop_bit 24 w))) n = bit w n"
    by cases (auto simp: word_of_bytes4_def bit_simps less_diff_conv2)
qed

lemma word_bytes_of_word [simp]: "word_bytes (word_of_bytes4 a b c d) = [a, b, c, d]"
proof -
  have *: "n < 8 \<Longrightarrow> \<not> bit x (m + n)" if "8 \<le> m" for x :: byte and m n
    using that bit_imp_le_length[of x "m + n"] by auto
  show ?thesis
    unfolding word_bytes_def word_of_bytes4_def
    by (simp; intro conjI bit_word_eqI) (auto simp: bit_simps *)
qed

lemma words_of_bytes_of_words [simp]: "words_of_bytes (bytes_of_words ws) = ws"
  by (induction ws) (simp_all add: bytes_of_words_def word_bytes_def)

lemma bytes_of_words_of_bytes:
  "length bs = 4 * n \<Longrightarrow> bytes_of_words (words_of_bytes bs) = bs"
proof (induction n arbitrary: bs)
  case (Suc n)
  then obtain a b c d cs where "bs = a # b # c # d # cs"
    by (cases bs rule: words_of_bytes.cases) auto
  then show ?case using Suc by (simp add: bytes_of_words_def)
qed (simp add: bytes_of_words_def)

lemma length_bytes_of_words [simp]: "length (bytes_of_words ws) = 4 * length ws"
  by (induction ws) (simp_all add: bytes_of_words_def)

lemma bytes_of_words_simps [simp]:
  "bytes_of_words [] = []" "bytes_of_words (w # ws) = word_bytes w @ bytes_of_words ws"
  by (simp_all add: bytes_of_words_def)

lemma words_of_bytes_append [simp]: "words_of_bytes (word_bytes w @ bs) = w # words_of_bytes bs"
  by (simp add: word_bytes_def)

subsection \<open>Network byte order\<close>

definition htonl :: "32 word \<Rightarrow> 32 word" where
  "htonl w = (case rev (word_bytes w) of [a, b, c, d] \<Rightarrow> word_of_bytes4 a b c d | _ \<Rightarrow> w)"

lemma word_bytes_htonl [simp]: "word_bytes (htonl w) = rev (word_bytes w)"
  by (simp add: htonl_def word_bytes_def[of w])

lemma word_bytes_inj: "word_bytes v = word_bytes w \<Longrightarrow> v = w"
  by (metis words_of_bytes_of_words bytes_of_words_simps append_Nil2 list.inject)

lemma htonl_involution [simp]: "htonl (htonl w) = w"
  by (rule word_bytes_inj) simp

text \<open>The loops that convert the first n words of a buffer.\<close>

fun swap_words :: "nat \<Rightarrow> byte list \<Rightarrow> byte list" where
  "swap_words (Suc n) (a # b # c # d # bs) = d # c # b # a # swap_words n bs"
| "swap_words _ bs = bs"

lemma swap_words_involution [simp]: "swap_words n (swap_words n bs) = bs"
  by (induction n bs rule: swap_words.induct) simp_all

lemma length_swap_words [simp]: "length (swap_words n bs) = length bs"
  by (induction n bs rule: swap_words.induct) simp_all

lemma swap_words_append [simp]: "length bs = 4 * n \<Longrightarrow> swap_words n (bs @ cs) = swap_words n bs @ cs"
proof (induction n arbitrary: bs)
  case (Suc n)
  then obtain a b c d ds where "bs = a # b # c # d # ds"
    by (cases bs rule: words_of_bytes.cases) auto
  then show ?case using Suc by simp
qed (cases cs, simp_all)

lemma swap_words_words: "swap_words (length ws) (bytes_of_words ws) = bytes_of_words (map htonl ws)"
proof (induction ws)
  case (Cons w ws)
  have "word_bytes (htonl w) = rev (word_bytes w)" by simp
  then show ?case using Cons by (simp add: word_bytes_def[of w])
qed simp

end
