(* ===== verification/Packet_Format.thy ===== *)
theory Packet_Format
  imports Byte_Order
begin

text \<open>The UDT packet (core/packet.h, packet.cpp) and its way over the wire, the conversions of
  CChannel::sendto and recvfrom (core/channel.cpp).

  The header is four 32-bit words; m\_iSeqNo, m\_iMsgNo, m\_iTimeStamp and m\_iID are aliases of
  them.  \<open>pk_data\<close> is the buffer m\_pcData points to (\<open>None\<close> for NULL), \<open>pk_len\<close> the size\_t
  length of the second I/O vector.  The datagram that sendmsg and recvmsg carry is a list of
  bytes; the socket itself is not modelled.\<close>

unbundle bit_operations_syntax

definition m_iPktHdrSize :: int where "m_iPktHdrSize = 16"
definition hs_iContentSize :: int where "hs_iContentSize = 48"

record cpacket =
  pk_header :: "32 word list"
  pk_data :: "byte list option"
  pk_len :: int

definition packet_new :: cpacket where
  "packet_new = \<lparr> pk_header = [0, 0, 0, 0], pk_data = None, pk_len = 0 \<rparr>"

abbreviation header_word :: "cpacket \<Rightarrow> nat \<Rightarrow> 32 word" where
  "header_word p i \<equiv> pk_header p ! i"

definition m_iSeqNo :: "cpacket \<Rightarrow> int" where "m_iSeqNo p = sint (header_word p 0)"
definition m_iMsgNo :: "cpacket \<Rightarrow> int" where "m_iMsgNo p = sint (header_word p 1)"
definition m_iTimeStamp :: "cpacket \<Rightarrow> int" where "m_iTimeStamp p = sint (header_word p 2)"
definition m_iID :: "cpacket \<Rightarrow> int" where "m_iID p = sint (header_word p 3)"

definition getLength :: "cpacket \<Rightarrow> int" where
  "getLength p = i32 (pk_len p)"

definition setLength :: "int \<Rightarrow> cpacket \<Rightarrow> cpacket" where
  "setLength len p = p\<lparr> pk_len := u64 len \<rparr>"

definition getFlag :: "cpacket \<Rightarrow> int" where
  "getFlag p = uint (drop_bit 31 (header_word p 0))"

definition getType :: "cpacket \<Rightarrow> int" where
  "getType p = uint (drop_bit 16 (header_word p 0) AND 0x7FFF)"

definition getExtendedType :: "cpacket \<Rightarrow> int" where
  "getExtendedType p = uint (header_word p 0 AND 0xFFFF)"

definition getAckSeqNo :: "cpacket \<Rightarrow> int" where
  "getAckSeqNo p = sint (header_word p 1)"

definition getMsgBoundary :: "cpacket \<Rightarrow> int" where
  "getMsgBoundary p = uint (drop_bit 30 (header_word p 1))"

definition getMsgOrderFlag :: "cpacket \<Rightarrow> bool" where
  "getMsgOrderFlag p \<longleftrightarrow> drop_bit 29 (header_word p 1) AND 1 = 1"

definition getMsgSeq :: "cpacket \<Rightarrow> int" where
  "getMsgSeq p = uint (header_word p 1 AND 0x1FFFFFFF)"

subsection \<open>Control packets\<close>

text \<open>\<open>lparam\<close> is the word the first pointer leads to and \<open>rparam\<close> the bytes at the second;
  types without control information send the four bytes of the padding field.\<close>

definition pad_vector :: "cpacket \<Rightarrow> cpacket" where
  "pad_vector p = p\<lparr> pk_data := Some [0, 0, 0, 0], pk_len := 4 \<rparr>"

definition set_vector :: "byte list option \<Rightarrow> int \<Rightarrow> cpacket \<Rightarrow> cpacket" where
  "set_vector rparam sz p = p\<lparr> pk_data := rparam, pk_len := u64 sz \<rparr>"

definition set_info :: "32 word option \<Rightarrow> cpacket \<Rightarrow> cpacket outcome" where
  "set_info lparam p =
     (case lparam of None \<Rightarrow> Inl Null_Deref
      | Some w \<Rightarrow> Inr (p\<lparr> pk_header := (pk_header p)[1 := w] \<rparr>))"

definition pack :: "int \<Rightarrow> 32 word option \<Rightarrow> byte list option \<Rightarrow> int \<Rightarrow> cpacket \<Rightarrow> cpacket outcome" where
  "pack pkttype lparam rparam sz p0 =
     (let p = p0\<lparr> pk_header := (pk_header p0)
                    [0 := 0x80000000 OR push_bit 16 (word_of_int pkttype)] \<rparr> in
      if pkttype = 2 then
        map_outcome (set_vector rparam sz) (if lparam \<noteq> None then set_info lparam p else Inr p)
      else if pkttype = 6 then map_outcome pad_vector (set_info lparam p)
      else if pkttype = 3 then Inr (set_vector rparam sz p)
      else if pkttype = 4 then Inr (pad_vector p)
      else if pkttype = 1 then Inr (pad_vector p)
      else if pkttype = 0 then Inr (set_vector rparam sz p)
      else if pkttype = 5 then Inr (pad_vector p)
      else if pkttype = 7 then map_outcome (set_vector rparam sz) (set_info lparam p)
      else if pkttype = 8 then map_outcome pad_vector (set_info lparam p)
      else if pkttype = 32767 then
        Inr (if rparam \<noteq> None then set_vector rparam sz p else pad_vector p)
      else Inr p)"

definition clone :: "cpacket \<Rightarrow> cpacket outcome" where
  "clone p =
     (case pk_data p of
        None \<Rightarrow> if pk_len p = 0 then Inr (p\<lparr> pk_data := Some [] \<rparr>) else Inl Null_Deref
      | Some bs \<Rightarrow> guard_outcome Out_Of_Bounds (pk_len p \<le> int (length bs))
                   (Inr (p\<lparr> pk_data := Some (take (nat (pk_len p)) bs) \<rparr>)))"

subsection \<open>The handshake\<close>

record handshake =
  hs_version :: "32 word"
  hs_type :: "32 word"
  hs_isn :: "32 word"
  hs_mss :: "32 word"
  hs_flight_flag_size :: "32 word"
  hs_req_type :: "32 word"
  hs_id :: "32 word"
  hs_cookie :: "32 word"
  hs_peer_ip :: "32 word list"

definition handshake_new :: handshake where
  "handshake_new = \<lparr> hs_version = 0, hs_type = 0, hs_isn = 0, hs_mss = 0, hs_flight_flag_size = 0,
     hs_req_type = 0, hs_id = 0, hs_cookie = 0, hs_peer_ip = [0, 0, 0, 0] \<rparr>"

definition handshake_words :: "handshake \<Rightarrow> 32 word list" where
  "handshake_words h =
     [hs_version h, hs_type h, hs_isn h, hs_mss h, hs_flight_flag_size h, hs_req_type h, hs_id h,
      hs_cookie h] @ hs_peer_ip h"

text \<open>serialize writes into the buffer and sets the size; both return an error when the buffer
  is too small.\<close>

definition serialize :: "handshake \<Rightarrow> byte list \<Rightarrow> int \<Rightarrow> (int \<times> byte list \<times> int) outcome" where
  "serialize h buf sz =
     (if sz < hs_iContentSize then Inr (-1, buf, sz)
      else guard_outcome Out_Of_Bounds (48 \<le> length buf)
        (Inr (0, bytes_of_words (handshake_words h) @ drop 48 buf, hs_iContentSize)))"

definition deserialize :: "byte list \<Rightarrow> int \<Rightarrow> handshake \<Rightarrow> (int \<times> handshake) outcome" where
  "deserialize buf sz h =
     (if sz < hs_iContentSize then Inr (-1, h)
      else guard_outcome Out_Of_Bounds (48 \<le> length buf)
        (let p = words_of_bytes (take 48 buf) in
         Inr (0, h\<lparr> hs_version := p ! 0, hs_type := p ! 1, hs_isn := p ! 2, hs_mss := p ! 3,
                   hs_flight_flag_size := p ! 4, hs_req_type := p ! 5, hs_id := p ! 6,
                   hs_cookie := p ! 7, hs_peer_ip := map (\<lambda>i. p ! (8 + i)) [0..<4] \<rparr>)))"

subsection \<open>The wire\<close>

definition convert_control :: "cpacket \<Rightarrow> cpacket" where
  "convert_control p =
     (if getFlag p \<noteq> 0
      then p\<lparr> pk_data := map_option (swap_words (nat (cdiv (getLength p) 4))) (pk_data p) \<rparr>
      else p)"

definition convert_header :: "cpacket \<Rightarrow> cpacket" where
  "convert_header p = p\<lparr> pk_header := map htonl (pk_header p) \<rparr>"

definition vector_bytes :: "cpacket \<Rightarrow> byte list" where
  "vector_bytes p =
     bytes_of_words (pk_header p)
     @ (case pk_data p of None \<Rightarrow> [] | Some bs \<Rightarrow> take (nat (pk_len p)) bs)"

text \<open>The buffers behind the I/O vector must hold what it says.\<close>

definition vector_ok :: "cpacket \<Rightarrow> bool" where
  "vector_ok p \<longleftrightarrow> (case pk_data p of None \<Rightarrow> pk_len p = 0 | Some bs \<Rightarrow> pk_len p \<le> int (length bs))"

text \<open>The datagram handed to sendmsg, and the packet after it is converted back.\<close>

definition channel_sendto :: "cpacket \<Rightarrow> (byte list \<times> cpacket) outcome" where
  "channel_sendto p =
     guard_outcome Out_Of_Bounds (vector_ok p)
       (let p1 = convert_header (convert_control p)
        in Inr (vector_bytes p1, convert_control (convert_header p1)))"

text \<open>recvmsg scatters a datagram over the header and the data buffer, as far as they reach.\<close>

definition overlay :: "byte list \<Rightarrow> byte list \<Rightarrow> byte list" where
  "overlay new old = take (length old) new @ drop (length new) old"

definition receive_into :: "byte list \<Rightarrow> cpacket \<Rightarrow> int \<times> cpacket" where
  "receive_into dgram p =
     (let d = take (16 + nat (pk_len p)) dgram
      in (int (length d),
          p\<lparr> pk_header := words_of_bytes (overlay d (bytes_of_words (pk_header p))),
             pk_data := map_option (overlay (drop 16 d)) (pk_data p) \<rparr>))"

definition channel_recvfrom :: "byte list option \<Rightarrow> cpacket \<Rightarrow> (int \<times> cpacket) outcome" where
  "channel_recvfrom dgram p =
     guard_outcome Out_Of_Bounds (vector_ok p)
       (case (case dgram of None \<Rightarrow> (-1, p) | Some d \<Rightarrow> receive_into d p) of (res, p1) \<Rightarrow>
          if res \<le> 0 then Inr (-1, setLength (-1) p1)
          else let p2 = convert_control (convert_header (setLength (res - m_iPktHdrSize) p1))
               in Inr (getLength p2, p2))"

subsection \<open>Sending and receiving\<close>

definition packet_wf :: "cpacket \<Rightarrow> byte list \<Rightarrow> bool" where
  "packet_wf p bs \<longleftrightarrow> length (pk_header p) = 4 \<and> pk_data p = Some bs \<and> pk_len p = int (length bs)
     \<and> length bs < 2147483648"

text \<open>A packet the receiver provides: four header words and a buffer of the given size.\<close>

definition receive_ready :: "cpacket \<Rightarrow> nat \<Rightarrow> bool" where
  "receive_ready q n \<longleftrightarrow> length (pk_header q) = 4 \<and>
     (\<exists>bs. pk_data q = Some bs \<and> length bs = n \<and> pk_len q = int n) \<and> n < 2147483648"

lemma header_list: "length hs = 4 \<Longrightarrow> \<exists>a b c d. hs = [a, b, c, d]"
  by (auto simp: numeral_eq_Suc length_Suc_conv)

lemma take_swap_words: "take (length bs) (swap_words n bs) = swap_words n bs"
  by simp

lemma sendto_wf:
  assumes "packet_wf p bs"
  shows "channel_sendto p =
    Inr (bytes_of_words (map htonl (pk_header p))
          @ (if getFlag p \<noteq> 0 then swap_words (length bs div 4) bs else bs), p)"
proof -
  obtain a b c d where h: "pk_header p = [a, b, c, d]"
    using assms header_list[of "pk_header p"] by (auto simp: packet_wf_def)
  have l: "nat (cdiv (getLength p) 4) = length bs div 4"
    using assms by (simp add: packet_wf_def getLength_def nat_div_distrib)
  have ok: "vector_ok p" using assms by (simp add: vector_ok_def packet_wf_def)
  have id: "p\<lparr> pk_data := Some bs \<rparr> = p" "p\<lparr> pk_header := [a, b, c, d] \<rparr> = p"
    "p\<lparr> pk_header := [a, b, c, d], pk_data := Some bs \<rparr> = p"
    using assms h by (cases p; simp add: packet_wf_def)+
  show ?thesis
    using assms l h id ok
    by (simp add: channel_sendto_def Let_def convert_control_def convert_header_def vector_bytes_def
      packet_wf_def getFlag_def getLength_def)
qed

lemma recvfrom_wf:
  assumes "packet_wf p bs" "receive_ready q n" "length bs \<le> n"
    and "d = bytes_of_words (map htonl (pk_header p))
          @ (if getFlag p \<noteq> 0 then swap_words (length bs div 4) bs else bs)"
  shows "\<exists>q'. channel_recvfrom (Some d) q = Inr (int (length bs), q') \<and> pk_header q' = pk_header p
           \<and> (\<exists>rest. pk_data q' = Some (bs @ rest)) \<and> pk_len q' = int (length bs)"
proof -
  obtain a b c e where h: "pk_header p = [a, b, c, e]"
    using assms(1) header_list[of "pk_header p"] by (auto simp: packet_wf_def)
  obtain buf where q: "pk_data q = Some buf" "length buf = n" "pk_len q = int n"
    "length (pk_header q) = 4" "n < 2147483648"
    using assms(2) by (auto simp: receive_ready_def)
  define w where "w = (if getFlag p \<noteq> 0 then swap_words (length bs div 4) bs else bs)"
  have lw: "length w = length bs" by (simp add: w_def)
  have d: "d = bytes_of_words (map htonl [a, b, c, e]) @ w"
    using assms(4) by (simp add: w_def h)
  have ld: "length d = 16 + length bs" by (simp add: d lw)
  have take: "take (16 + n) d = d" using ld assms(3) by simp
  have "overlay d (bytes_of_words (pk_header q)) = bytes_of_words (map htonl (pk_header p))"
    using ld q(4) by (simp add: overlay_def d h)
  then have hdr: "words_of_bytes (overlay d (bytes_of_words (pk_header q))) = map htonl (pk_header p)"
    by (simp only: words_of_bytes_of_words)
  have dat: "overlay (drop 16 d) buf = w @ drop (length bs) buf"
    using assms(3) q(2) lw by (simp add: overlay_def d)
  let ?q = "q\<lparr> pk_data := Some (w @ drop (length bs) buf), pk_len := int (length bs),
              pk_header := pk_header p \<rparr>"
  have len: "pk_len ?q = int (length bs)" "getLength ?q = int (length bs)"
    using assms(1) by (simp_all add: getLength_def packet_wf_def)
  have ok: "vector_ok q" using q by (simp add: vector_ok_def)
  have u: "u64 (int (length bs)) = int (length bs)" using assms(1) by (simp add: packet_wf_def)
  have rcv: "channel_recvfrom (Some d) q = Inr (getLength (convert_control ?q), convert_control ?q)"
    using take hdr dat ld q(1,3) h u ok
    by (simp add: channel_recvfrom_def receive_into_def setLength_def m_iPktHdrSize_def Let_def
      convert_header_def)
  have fl: "getFlag ?q = getFlag p" by (simp add: getFlag_def)
  have "convert_control ?q = ?q\<lparr> pk_data := Some (bs @ drop (length bs) buf) \<rparr>"
  proof -
    have n4: "nat (cdiv (getLength ?q) 4) = length bs div 4"
      unfolding len by (simp add: nat_div_distrib)
    have "swap_words (length bs div 4) (w @ drop (length bs) buf) = bs @ drop (length bs) buf"
      if "getFlag p \<noteq> 0"
    proof -
      let ?k = "length bs div 4"
      have k: "length (take (4 * ?k) bs) = 4 * ?k" by simp
      have split: "bs = take (4 * ?k) bs @ drop (4 * ?k) bs" by simp
      have "w = swap_words ?k (take (4 * ?k) bs) @ drop (4 * ?k) bs"
        unfolding w_def using that swap_words_append[OF k] split by metis
      then have "swap_words ?k (w @ drop (length bs) buf)
          = swap_words ?k (swap_words ?k (take (4 * ?k) bs)) @ drop (4 * ?k) bs @ drop (length bs) buf"
        by (simp add: k)
      then show ?thesis by simp
    qed
    moreover have "pk_data ?q = Some (w @ drop (length bs) buf)" by simp
    ultimately show ?thesis
      unfolding convert_control_def fl n4 by (cases "getFlag p = 0") (simp_all add: w_def)
  qed
  then show ?thesis using rcv assms(1) by (auto simp: getLength_def packet_wf_def)
qed

subsection \<open>Header fields\<close>

lemma header_masks:
  "(0x7FFF :: 32 word) = mask 15" "(0xFFFF :: 32 word) = mask 16" "(0x1FFFFFFF :: 32 word) = mask 29"
  by (simp_all add: mask_eq_exp_minus_1)

lemma bit_top: "bit (0x80000000 :: 32 word) n \<longleftrightarrow> n = 31"
proof -
  have "(0x80000000 :: 32 word) = 2 ^ 31" by simp
  then show ?thesis by (simp only: bit_exp_iff possible_bit_word) auto
qed

lemma low_bits: "uint (x :: 32 word) < 2 ^ k \<Longrightarrow> bit x n \<Longrightarrow> n < k"
proof -
  assume "uint x < 2 ^ k" "bit x n"
  then have "take_bit k (uint x) = uint x" "bit (uint x) n"
    using bit_imp_le_length[of x n] by (simp_all add: take_bit_eq_mod bit_uint_iff)
  then show ?thesis by (metis bit_take_bit_iff)
qed

lemma control_word_fields:
  assumes "uint (x :: 32 word) < 2 ^ 15"
  shows "drop_bit 31 (0x80000000 OR push_bit 16 x) = (1 :: 32 word)"
    and "drop_bit 16 (0x80000000 OR push_bit 16 x) AND 0x7FFF = x"
    and "(0x80000000 OR push_bit 16 x) AND 0xFFFF = (0 :: 32 word)"
proof -
  note lo = low_bits[OF assms]
  define h :: "32 word" where "h = 0x80000000"
  have h: "bit h n \<longleftrightarrow> n = 31" for n by (simp only: h_def bit_top)
  show "drop_bit 31 (0x80000000 OR push_bit 16 x) = (1 :: 32 word)"
    unfolding h_def[symmetric] by (rule bit_word_eqI) (auto simp: bit_simps h dest: lo)
  show "drop_bit 16 (0x80000000 OR push_bit 16 x) AND 0x7FFF = x"
    unfolding h_def[symmetric] header_masks
    by (rule bit_word_eqI) (auto simp: bit_simps h dest: lo)
  show "(0x80000000 OR push_bit 16 x) AND 0xFFFF = (0 :: 32 word)"
    unfolding h_def[symmetric] header_masks
    by (rule bit_word_eqI) (auto simp: bit_simps h)
qed

text \<open>The message word: two bits of boundary, one of order, 29 of message number.\<close>

definition message_word :: "int \<Rightarrow> bool \<Rightarrow> int \<Rightarrow> 32 word" where
  "message_word boundary order msg_no =
     push_bit 30 (word_of_int boundary) OR push_bit 29 (of_bool order) OR word_of_int msg_no"

lemma message_word_fields:
  assumes "uint (b :: 32 word) < 2 ^ 2" "uint (m :: 32 word) < 2 ^ 29"
  shows "drop_bit 30 (push_bit 30 b OR push_bit 29 (of_bool r) OR m) = b"
    and "drop_bit 29 (push_bit 30 b OR push_bit 29 (of_bool r) OR m) AND 1 = of_bool r"
    and "(push_bit 30 b OR push_bit 29 (of_bool r) OR m) AND 0x1FFFFFFF = m"
proof -
  note lo = low_bits[OF assms(1)] low_bits[OF assms(2)]
  define o' :: "32 word" where "o' = push_bit 29 (of_bool r)"
  have o': "bit o' n \<longleftrightarrow> r \<and> n = 29" for n by (auto simp: o'_def bit_simps)
  show "drop_bit 30 (push_bit 30 b OR push_bit 29 (of_bool r) OR m) = b"
    unfolding o'_def[symmetric] by (rule bit_word_eqI) (auto simp: bit_simps o' dest: lo)
  show "drop_bit 29 (push_bit 30 b OR push_bit 29 (of_bool r) OR m) AND 1 = of_bool r"
    unfolding o'_def[symmetric] by (rule bit_word_eqI) (auto simp: bit_simps o' dest: lo)
  show "(push_bit 30 b OR push_bit 29 (of_bool r) OR m) AND 0x1FFFFFFF = m"
    unfolding o'_def[symmetric] header_masks
    by (rule bit_word_eqI) (auto simp: bit_simps o' dest: lo)
qed

lemma pack_header:
  assumes "pack t lparam rparam sz p = Inr p'" "length (pk_header p) = 4"
  shows "length (pk_header p') = 4
    \<and> header_word p' 0 = 0x80000000 OR push_bit 16 (word_of_int t)
    \<and> header_word p' 2 = header_word p 2 \<and> header_word p' 3 = header_word p 3"
  using assms
  by (auto simp: pack_def Let_def set_vector_def pad_vector_def set_info_def
    split: if_splits option.splits)


subsection \<open>Properties\<close>

definition sample_packet :: cpacket where
  "sample_packet = \<lparr> pk_header = [5, 0xA0000009, 1000, 77], pk_data = Some [1, 2, 3, 4, 5], pk_len = 5 \<rparr>"

definition sample_buffer :: cpacket where
  "sample_buffer = \<lparr> pk_header = [0, 0, 0, 0], pk_data = Some (replicate 64 0), pk_len = 64 \<rparr>"

lemma sample_packets_ok: "packet_wf sample_packet [1, 2, 3, 4, 5]" "receive_ready sample_buffer 64"
  by (simp_all add: packet_wf_def receive_ready_def sample_packet_def sample_buffer_def)

text \<open>C27: a packet survives the wire.  sendto leaves the packet as it was, in host byte order,
  and its datagram, received into any large enough packet, gives the same header and the
  same bytes, for data packets and for control packets whose words are converted, also when
  the length is not a multiple of four.\<close>

theorem wire_roundtrip:
  assumes "packet_wf p bs"
    and "receive_ready q n" "length bs \<le> n"
  shows "\<exists>d q'. channel_sendto p = Inr (d, p) \<and> length d = 16 + length bs
    \<and> channel_recvfrom (Some d) q = Inr (int (length bs), q')
    \<and> pk_header q' = pk_header p \<and> (\<exists>rest. pk_data q' = Some (bs @ rest))
    \<and> getLength q' = int (length bs)"
proof -
  let ?d = "bytes_of_words (map htonl (pk_header p))
          @ (if getFlag p \<noteq> 0 then swap_words (length bs div 4) bs else bs)"
  obtain q' where "channel_recvfrom (Some ?d) q = Inr (int (length bs), q')"
    "pk_header q' = pk_header p" "\<exists>rest. pk_data q' = Some (bs @ rest)" "pk_len q' = int (length bs)"
    using recvfrom_wf[OF assms refl] by blast
  moreover have "length ?d = 16 + length bs" using assms(1) by (simp add: packet_wf_def)
  moreover have "getLength q' = int (length bs)"
    using calculation(4) assms(1) by (simp add: getLength_def packet_wf_def)
  ultimately show ?thesis using sendto_wf[OF assms(1)] by blast
qed

theorem wire_roundtrip_witness:
  "\<exists>d q'. channel_sendto sample_packet = Inr (d, sample_packet) \<and> length d = 21
     \<and> channel_recvfrom (Some d) sample_buffer = Inr (5, q') \<and> pk_header q' = [5, 0xA0000009, 1000, 77]"
  using wire_roundtrip[OF sample_packets_ok] by (auto simp: sample_packet_def)

text \<open>The receiver tells control packets from data packets and reads back their type: a
  packed control packet has flag 1, its type and no extended type, and keeps the socket id;
  a packet whose sequence number is not negative has flag 0.\<close>

theorem control_packet_fields:
  assumes "length (pk_header p) = 4"
    and "pack t lparam rparam sz p = Inr p'"
    and "0 \<le> t" "t < 32768"
  shows "getFlag p' = 1 \<and> getType p' = t \<and> getExtendedType p' = 0 \<and> m_iID p' = m_iID p
    \<and> (0 \<le> m_iSeqNo p \<longrightarrow> getFlag p = 0)"
proof -
  have u: "uint (word_of_int t :: 32 word) = t" using assms(3,4) by (simp add: uint_of_small)
  note h = pack_header[OF assms(2,1)]
  have "uint (word_of_int t :: 32 word) < 2 ^ 15" using u assms(4) by simp
  note f = control_word_fields[OF this]
  have "getFlag p = 0" if "0 \<le> m_iSeqNo p"
  proof -
    have "\<not> bit (header_word p 0) 31"
      using that bit_last_iff[of "header_word p 0"] by (simp add: m_iSeqNo_def)
    then have "drop_bit 31 (header_word p 0) = 0"
    proof (intro bit_word_eqI)
      fix n
      have "\<not> bit (header_word p 0) (31 + n)" if "0 < n"
        using that bit_imp_le_length[of "header_word p 0" "31 + n"] by auto
      then show "bit (drop_bit 31 (header_word p 0)) n = bit 0 n"
        using \<open>\<not> bit (header_word p 0) 31\<close> by (cases "n = 0") (auto simp: bit_simps)
    qed
    then show ?thesis by (simp add: getFlag_def)
  qed
  then show ?thesis
    using h f u by (simp add: getFlag_def getType_def getExtendedType_def m_iID_def)
qed

theorem control_packet_fields_witness:
  "\<exists>p'. pack 5 None None 0 sample_packet = Inr p' \<and> getFlag p' = 1 \<and> getType p' = 5 \<and> m_iID p' = 77"
proof -
  obtain p' where "pack 5 None None 0 sample_packet = Inr p'" by (simp add: pack_def Let_def)
  moreover have "length (pk_header sample_packet) = 4" "m_iID sample_packet = 77"
    by (simp_all add: sample_packet_def m_iID_def)
  ultimately show ?thesis using control_packet_fields[of sample_packet 5 None None 0 p'] by simp
qed

text \<open>The three fields of a data packet's message word do not overlap: boundary, order
  flag and message number are read back as they were put together.\<close>

theorem message_fields_independent:
  assumes "length (pk_header p) = 4"
    and "0 \<le> boundary" "boundary < 4" "0 \<le> msg_no" "msg_no < 2 ^ 29"
    and "p' = p\<lparr> pk_header := (pk_header p)[1 := message_word boundary order msg_no] \<rparr>"
  shows "getMsgBoundary p' = boundary \<and> getMsgOrderFlag p' = order \<and> getMsgSeq p' = msg_no"
proof -
  have u: "uint (word_of_int boundary :: 32 word) = boundary" "uint (word_of_int msg_no :: 32 word) = msg_no"
    using assms(2-5) by (simp_all add: uint_of_small)
  then have "uint (word_of_int boundary :: 32 word) < 2 ^ 2" "uint (word_of_int msg_no :: 32 word) < 2 ^ 29"
    using assms(3,5) by simp_all
  note f = message_word_fields[OF this]
  show ?thesis
    using assms(1,6) f u
    by (simp add: getMsgBoundary_def getMsgOrderFlag_def getMsgSeq_def message_word_def)
qed

theorem message_fields_independent_witness:
  "\<exists>p'. p' = sample_packet\<lparr> pk_header := [5, message_word 2 True 9, 1000, 77] \<rparr>
     \<and> getMsgBoundary p' = 2 \<and> getMsgOrderFlag p' \<and> getMsgSeq p' = 9"
proof -
  have "length (pk_header sample_packet) = 4" by (simp add: sample_packet_def)
  from message_fields_independent[OF this, of 2 9 _ True, OF _ _ _ _ refl] show ?thesis
    by (simp add: sample_packet_def)
qed

lemma handshake_words_length: "length (hs_peer_ip h) = 4 \<Longrightarrow> length (handshake_words h) = 12"
  by (simp add: handshake_words_def)

lemma deserialize_words:
  assumes "length (hs_peer_ip h) = 4" "take 48 buf = bytes_of_words (handshake_words h)"
    "48 \<le> sz" "48 \<le> length buf"
  shows "deserialize buf sz h0 = Inr (0, h)"
proof -
  have "map (\<lambda>i. hs_peer_ip h ! i) [0..<4] = hs_peer_ip h"
    using assms(1) map_nth[of "hs_peer_ip h"] by simp
  then show ?thesis
    using assms by (simp add: deserialize_def hs_iContentSize_def Let_def handshake_words_def
      del: bytes_of_words_simps)
qed

text \<open>C28: the handshake a peer serializes, packs into a control packet of type 0 and sends is
  the handshake the other side deserializes.\<close>

theorem handshake_across_the_wire:
  assumes "length (hs_peer_ip h) = 4" "length (pk_header p) = 4"
    and "length buf = 48" "serialize h buf 48 = Inr (rc, bytes, sz)"
    and "pack 0 None (Some bytes) sz p = Inr p'"
    and "receive_ready q n" "48 \<le> n"
  shows "rc = 0 \<and> (\<exists>d q' b. channel_sendto p' = Inr (d, p') \<and> channel_recvfrom (Some d) q = Inr (48, q')
    \<and> getFlag q' = 1 \<and> getType q' = 0 \<and> pk_data q' = Some b
    \<and> deserialize b (getLength q') h0 = Inr (0, h))"
proof -
  have s: "rc = 0" "bytes = bytes_of_words (handshake_words h)" "sz = 48"
    using assms(3,4) by (simp_all add: serialize_def hs_iContentSize_def)
  have l: "length bytes = 48" using s(2) handshake_words_length[OF assms(1)] by simp
  have wf: "packet_wf p' bytes"
    using assms(2,5) l s(3) by (auto simp: packet_wf_def pack_def Let_def set_vector_def)
  obtain d q' rest where q': "channel_sendto p' = Inr (d, p')" "channel_recvfrom (Some d) q = Inr (48, q')"
    "pk_header q' = pk_header p'" "pk_data q' = Some (bytes @ rest)" "getLength q' = 48"
    using recvfrom_wf[OF wf assms(6) _ refl] sendto_wf[OF wf] assms(7) l
    by (auto simp: getLength_def)
  have "uint (word_of_int 0 :: 32 word) < 2 ^ 15" by simp
  from control_word_fields[OF this] have "getFlag q' = 1 \<and> getType q' = 0"
    using pack_header[OF assms(5,2)] q'(3) by (simp add: getFlag_def getType_def)
  moreover have "deserialize (bytes @ rest) 48 h0 = Inr (0, h)"
    using deserialize_words[OF assms(1), of "bytes @ rest" 48 h0] l s(2) by simp
  ultimately show ?thesis using q' s(1) by metis
qed


theorem handshake_across_the_wire_witness:
  "\<exists>p' d q' b. pack 0 None (Some (bytes_of_words (replicate 12 0))) 48 packet_new = Inr p'
     \<and> channel_sendto p' = Inr (d, p') \<and> channel_recvfrom (Some d) sample_buffer = Inr (48, q')
     \<and> pk_data q' = Some b \<and> deserialize b (getLength q') handshake_new = Inr (0, handshake_new)"
proof -
  let ?bytes = "bytes_of_words (replicate 12 0)"
  have "handshake_words handshake_new = replicate 12 0"
    by (simp add: handshake_words_def handshake_new_def numeral_eq_Suc)
  then have s: "serialize handshake_new (replicate 48 0) 48 = Inr (0, ?bytes, 48)"
    by (simp add: serialize_def hs_iContentSize_def)
  obtain p' where p': "pack 0 None (Some ?bytes) 48 packet_new = Inr p'" by (simp add: pack_def Let_def)
  have "length (hs_peer_ip handshake_new) = 4" "length (pk_header packet_new) = 4"
    by (simp_all add: handshake_new_def packet_new_def)
  then show ?thesis
    using handshake_across_the_wire[OF _ _ _ s p' sample_packets_ok(2), of handshake_new] p' by auto
qed

end
