(* ===== verification/Snd_Buffer.thy ===== *)
theory Snd_Buffer
  imports Byte_Order
begin

text \<open>CSndBuffer of core/buffer.h and buffer.cpp: the sending buffer, a circular list of blocks
  that grows by units of equal size and is read and acknowledged through pointers into it.

  The objects live in two stores, lists of blocks and of physical buffers; a pointer is an
  index and \<open>new\<close> appends.  Every m\_pcData points to its own area of m\_iBlockSize bytes, so a
  block holds its bytes directly; a memcpy beyond that area is an error.  The mutex is left
  out, allocation is taken to succeed, and the clock is an argument.  Counts and positions are
  natural numbers where the code never makes them negative.\<close>

subsection \<open>State\<close>

record block =
  bl_data :: "byte list"
  bl_length :: int
  bl_msgno :: int
  bl_bufno :: nat
  bl_origin :: int
  bl_ttl :: int
  bl_next :: nat

record pbuffer =
  pb_first :: nat
  pb_size :: nat
  pb_next :: nat

record snd_buffer =
  sb_blocks :: "block list"
  sb_buffers :: "pbuffer list"
  m_pFirstBlock :: nat
  m_pCurrBlock :: nat
  m_pLastBlock :: nat
  FirstBlock :: nat
  FirstBuffer :: nat
  bufferEnder :: nat
  m_iNextMsgNo :: int
  sb_size :: nat
  sb_mss :: int
  sb_count :: int
  m_iBlockSize :: nat

definition new_block :: "nat \<Rightarrow> nat \<Rightarrow> block" where
  "new_block bufno nxt = \<lparr> bl_data = [], bl_length = 0, bl_msgno = 0, bl_bufno = bufno,
     bl_origin = 0, bl_ttl = 0, bl_next = nxt \<rparr>"

definition snd_buffer_new :: "nat \<Rightarrow> int \<Rightarrow> snd_buffer" where
  "snd_buffer_new sz mss =
     \<lparr> sb_blocks = map (\<lambda>i. new_block i (if Suc i = sz then 0 else Suc i)) [0..<sz],
       sb_buffers = [\<lparr> pb_first = 0, pb_size = sz, pb_next = 0 \<rparr>],
       m_pFirstBlock = 0, m_pCurrBlock = 0, m_pLastBlock = 0, FirstBlock = 0, FirstBuffer = 0,
       bufferEnder = 0, m_iNextMsgNo = 1, sb_size = sz, sb_mss = mss, sb_count = 0,
       m_iBlockSize = 1456 \<rparr>"

abbreviation next_block :: "snd_buffer \<Rightarrow> nat \<Rightarrow> nat" where
  "next_block sb p \<equiv> bl_next (sb_blocks sb ! p)"

abbreviation next_buffer :: "snd_buffer \<Rightarrow> nat \<Rightarrow> nat" where
  "next_buffer sb p \<equiv> pb_next (sb_buffers sb ! p)"

text \<open>m\_pBuffer stays the first physical buffer; all buffers have its size.\<close>

definition unit_size :: "snd_buffer \<Rightarrow> nat" where
  "unit_size sb = pb_size (sb_buffers sb ! 0)"

subsection \<open>Growing\<close>

primrec walk_until :: "nat \<Rightarrow> (nat \<Rightarrow> nat) \<Rightarrow> nat \<Rightarrow> nat \<Rightarrow> nat outcome" where
  "walk_until 0 nxt target p = Inl Diverges"
| "walk_until (Suc fuel) nxt target p =
     (if nxt p = target then Inr p else walk_until fuel nxt target (nxt p))"

text \<open>The new blocks continue the numbering of the first block, and replace no old one: the last
  of them points to the block that followed the insertion point.\<close>

definition fresh_blocks :: "nat \<Rightarrow> nat \<Rightarrow> nat \<Rightarrow> nat \<Rightarrow> block list" where
  "fresh_blocks base bufno u after =
     map (\<lambda>i. new_block ((bufno + i) mod u) (if Suc i = u then after else base + Suc i)) [0..<u]"

definition fresh_first :: "nat \<Rightarrow> nat \<Rightarrow> nat \<Rightarrow> nat" where
  "fresh_first base bufno u = base + hd (filter (\<lambda>i. (bufno + i) mod u = 0) [0..<u])"

definition sb_increase :: "snd_buffer \<Rightarrow> snd_buffer outcome" where
  "sb_increase sb =
     (let u = unit_size sb; first = m_pFirstBlock sb; bufno = bl_bufno (sb_blocks sb ! first) in
      bind_outcome (walk_until (length (sb_buffers sb)) (next_buffer sb) (FirstBuffer sb) (bufferEnder sb))
        (\<lambda>ender.
      bind_outcome
        (walk_until (length (sb_blocks sb)) (next_block sb) first
           (if bufno \<noteq> 0 then pb_first (sb_buffers sb ! FirstBuffer sb)
            else pb_first (sb_buffers sb ! ender)))
        (\<lambda>prev.
      let nbuf = length (sb_buffers sb);
          nblk = length (sb_blocks sb);
          after = next_block sb prev;
          blocks = (sb_blocks sb)[prev := (sb_blocks sb ! prev)\<lparr> bl_next := nblk \<rparr>]
                     @ fresh_blocks nblk bufno u after;
          fresh = fresh_first nblk bufno u;
          old_first = pb_first (sb_buffers sb ! FirstBuffer sb);
          linked = (sb_buffers sb)[ender := (sb_buffers sb ! ender)\<lparr> pb_next := nbuf \<rparr>]
                     @ [\<lparr> pb_first = (if bufno \<noteq> 0 then old_first else fresh), pb_size = u,
                          pb_next = next_buffer sb ender \<rparr>];
          buffers = (if bufno \<noteq> 0
                     then linked[FirstBuffer sb := (linked ! FirstBuffer sb)\<lparr> pb_first := fresh \<rparr>]
                     else linked)
      in Inr (sb\<lparr> sb_blocks := blocks, sb_buffers := buffers, bufferEnder := nbuf,
                  sb_size := sb_size sb + u \<rparr>))))"

text \<open>The loop that makes room for n more blocks.\<close>

primrec grow :: "nat \<Rightarrow> int \<Rightarrow> snd_buffer \<Rightarrow> snd_buffer outcome" where
  "grow 0 n sb = Inl Diverges"
| "grow (Suc fuel) n sb =
     (if n + sb_count sb \<ge> int (sb_size sb) then bind_outcome (sb_increase sb) (grow fuel n) else Inr sb)"

definition grow_fuel :: "int \<Rightarrow> snd_buffer \<Rightarrow> nat" where
  "grow_fuel n sb = Suc (nat (n + sb_count sb + 1 - int (sb_size sb)))"

subsection \<open>Adding data\<close>

definition blocks_needed :: "int \<Rightarrow> int \<Rightarrow> int" where
  "blocks_needed mss len = cdiv len mss + (if cmod len mss \<noteq> 0 then 1 else 0)"

definition msgno_word :: "int \<Rightarrow> bool \<Rightarrow> bool \<Rightarrow> bool \<Rightarrow> int" where
  "msgno_word msgno inorder head final =
     sint ((word_of_int msgno OR (if inorder then 0x20000000 else 0)
        OR (if head then 0x80000000 else 0) OR (if final then 0x40000000 else 0)) :: 32 word)"

definition write_block :: "byte list \<Rightarrow> int \<Rightarrow> int \<Rightarrow> int \<Rightarrow> nat \<Rightarrow> snd_buffer \<Rightarrow> snd_buffer outcome" where
  "write_block bytes msgno time ttl s sb =
     guard_outcome Out_Of_Bounds (length bytes \<le> m_iBlockSize sb)
       (Inr (sb\<lparr> sb_blocks := (sb_blocks sb)[s := (sb_blocks sb ! s)\<lparr>
          bl_data := bytes @ drop (length bytes) (bl_data (sb_blocks sb ! s)),
          bl_length := int (length bytes), bl_msgno := msgno, bl_origin := time, bl_ttl := ttl \<rparr>] \<rparr>))"

primrec add_loop :: "nat \<Rightarrow> nat \<Rightarrow> byte list \<Rightarrow> bool \<Rightarrow> int \<Rightarrow> int \<Rightarrow> nat \<Rightarrow> snd_buffer
    \<Rightarrow> (nat \<times> snd_buffer) outcome" where
  "add_loop 0 i data order time ttl s sb = Inr (s, sb)"
| "add_loop (Suc n) i data order time ttl s sb =
     bind_outcome
       (write_block (take (nat (sb_mss sb)) data)
          (msgno_word (m_iNextMsgNo sb) order (i = 0) (n = 0)) time ttl s sb)
       (\<lambda>sb'. add_loop n (Suc i) (drop (nat (sb_mss sb)) data) order time ttl (next_block sb' s)
                (sb'\<lparr> m_iNextMsgNo := i32 (m_iNextMsgNo sb' + 1) \<rparr>))"

definition addBuffer :: "byte list \<Rightarrow> int \<Rightarrow> bool \<Rightarrow> int \<Rightarrow> snd_buffer \<Rightarrow> snd_buffer outcome" where
  "addBuffer data ttl order time sb0 =
     guard_outcome Div_By_Zero (sb_mss sb0 \<noteq> 0)
       (let n = blocks_needed (sb_mss sb0) (int (length data)) in
        bind_outcome (grow (grow_fuel n sb0) n sb0) (\<lambda>sb.
        bind_outcome (add_loop (nat n) 0 data order time ttl (m_pLastBlock sb) sb) (\<lambda>(s, sb').
          Inr (sb'\<lparr> m_pLastBlock := s, sb_count := sb_count sb' + n \<rparr>))))"

text \<open>addBufferFromFile reads from a file whose remaining contents are given; a short read sets
  the end-of-file state, which the next turn of the loop tests.\<close>

primrec file_loop :: "nat \<Rightarrow> bool \<Rightarrow> int \<Rightarrow> byte list \<Rightarrow> nat \<Rightarrow> snd_buffer
    \<Rightarrow> (nat \<times> int \<times> snd_buffer) outcome" where
  "file_loop 0 eof left file s sb = Inr (s, 0, sb)"
| "file_loop (Suc n) eof left file s sb =
     (let pktlen = nat (if left > sb_mss sb then sb_mss sb else left);
          bytes = take pktlen file
      in if eof \<or> bytes = [] then Inr (s, 0, sb)
         else guard_outcome Out_Of_Bounds (length bytes \<le> m_iBlockSize sb)
           (let b = sb_blocks sb ! s;
                sb' = sb\<lparr> sb_blocks := (sb_blocks sb)[s := b\<lparr>
                  bl_data := bytes @ drop (length bytes) (bl_data b),
                  bl_length := int (length bytes), bl_ttl := -1 \<rparr>] \<rparr>
            in map_outcome (\<lambda>(s', total, sb''). (s', total + int (length bytes), sb''))
                 (file_loop n (length bytes < pktlen) (left - sb_mss sb) (drop pktlen file) (bl_next b) sb')))"

definition addBufferFromFile :: "bool \<Rightarrow> byte list \<Rightarrow> int \<Rightarrow> snd_buffer \<Rightarrow> (int \<times> snd_buffer) outcome" where
  "addBufferFromFile eof file len sb0 =
     guard_outcome Div_By_Zero (sb_mss sb0 \<noteq> 0)
       (let n = blocks_needed (sb_mss sb0) len in
        bind_outcome (grow (grow_fuel n sb0) n sb0) (\<lambda>sb.
        bind_outcome (file_loop (nat n) eof len file (m_pLastBlock sb) sb) (\<lambda>(s, total, sb').
          Inr (total, sb'\<lparr> m_pLastBlock := s, sb_count := sb_count sb' + n \<rparr>))))"

text \<open>resizeMSS takes the data between the current and the last block out of the buffer and adds
  it again in blocks of the new size.\<close>

primrec collect :: "nat \<Rightarrow> nat \<Rightarrow> snd_buffer \<Rightarrow> (byte list \<times> int) outcome" where
  "collect 0 p sb = Inl Diverges"
| "collect (Suc fuel) p sb =
     (if p = m_pLastBlock sb then Inr ([], 0)
      else
        let b = sb_blocks sb ! p
        in map_outcome (\<lambda>(bytes, n). (take (nat (bl_length b)) (bl_data b) @ bytes, n + 1))
             (collect fuel (bl_next b) sb))"

definition resizeMSS :: "int \<Rightarrow> int \<Rightarrow> snd_buffer \<Rightarrow> snd_buffer outcome" where
  "resizeMSS newSize time sb =
     bind_outcome (collect (Suc (length (sb_blocks sb))) (m_pCurrBlock sb) sb) (\<lambda>(data, n).
       addBuffer data (-1) False time
         (sb\<lparr> sb_mss := newSize, m_pLastBlock := m_pCurrBlock sb, sb_count := sb_count sb - n \<rparr>))"

subsection \<open>Reading and acknowledging\<close>

definition readData :: "snd_buffer \<Rightarrow> (int \<times> (byte list \<times> int) option) \<times> snd_buffer" where
  "readData sb =
     (if m_pCurrBlock sb = m_pLastBlock sb then ((0, None), sb)
      else
        let b = sb_blocks sb ! m_pCurrBlock sb
        in ((bl_length b, Some (bl_data b, bl_msgno b)), sb\<lparr> m_pCurrBlock := bl_next b \<rparr>))"

text \<open>The position of the block at an offset, found through the physical buffers.\<close>

definition locate :: "snd_buffer \<Rightarrow> nat \<Rightarrow> nat \<times> nat \<times> nat" where
  "locate sb offset =
     (let movement = (FirstBlock sb + offset) div unit_size sb;
          position = (FirstBlock sb + offset) mod unit_size sb;
          buffer = (next_buffer sb ^^ movement) (FirstBuffer sb)
      in if movement \<noteq> 0
         then (buffer, position, (next_block sb ^^ position) (pb_first (sb_buffers sb ! buffer)))
         else (buffer, position, (next_block sb ^^ offset) (m_pFirstBlock sb)))"

primrec skip_message :: "nat \<Rightarrow> int \<Rightarrow> nat \<Rightarrow> bool \<Rightarrow> int \<Rightarrow> snd_buffer \<Rightarrow> (int \<times> snd_buffer) outcome" where
  "skip_message 0 msgno p move msglen sb = Inl Diverges"
| "skip_message (Suc fuel) msgno p move msglen sb =
     (if msgno = uint (word_of_int (bl_msgno (sb_blocks sb ! p)) AND (0x1FFFFFFF :: 32 word)) then
        let move' = (move \<or> p = m_pCurrBlock sb);
            p' = next_block sb p;
            sb' = (if move' then sb\<lparr> m_pCurrBlock := p' \<rparr> else sb)
        in skip_message fuel msgno p' move' (msglen + 1) sb'
      else Inr (msglen, sb))"

text \<open>readData with an offset: the length, message number and bytes of the block, or -1 with the
  number and length of a message whose time to live has passed.\<close>

definition readData_at :: "int \<Rightarrow> nat \<Rightarrow> snd_buffer
    \<Rightarrow> ((int \<times> int \<times> int \<times> byte list) \<times> snd_buffer) outcome" where
  "readData_at time offset sb =
     (let p = snd (snd (locate sb offset)); b = sb_blocks sb ! p in
      if bl_ttl b \<ge> 0 \<and> u64 (time - bl_origin b) div 1000 > bl_ttl b then
        let msgno = uint (word_of_int (bl_msgno b) AND (0x1FFFFFFF :: 32 word))
        in map_outcome (\<lambda>(msglen, sb'). ((-1, msgno, msglen, []), sb'))
             (skip_message (length (sb_blocks sb)) msgno (bl_next b) False 1 sb)
      else Inr ((bl_length b, bl_msgno b, 0, bl_data b), sb))"

definition ackData :: "nat \<Rightarrow> snd_buffer \<Rightarrow> snd_buffer" where
  "ackData offset sb =
     (case locate sb offset of (buffer, position, p) \<Rightarrow>
        sb\<lparr> FirstBuffer := buffer, FirstBlock := position, m_pFirstBlock := p,
            sb_count := sb_count sb - int offset \<rparr>)"

definition getCurrBufSize :: "snd_buffer \<Rightarrow> int" where
  "getCurrBufSize sb = sb_count sb"


subsection \<open>The circle of blocks\<close>

text \<open>\<open>L\<close> lists the blocks from the first one on in the order of m\_pNext, \<open>B\<close> the physical
  buffers from FirstBuffer on.  The blocks are numbered modulo the unit size u, the first block
  with FirstBlock; the first\_block of the j-th buffer is where the j-th turn of the numbering
  starts.\<close>

definition circle :: "(nat \<Rightarrow> nat) \<Rightarrow> nat list \<Rightarrow> bool" where
  "circle nxt L \<longleftrightarrow> L \<noteq> [] \<and> distinct L \<and> (\<forall>i < length L. nxt (L ! i) = L ! (Suc i mod length L))"

definition sb_ring :: "snd_buffer \<Rightarrow> nat list \<Rightarrow> nat list \<Rightarrow> bool" where
  "sb_ring sb L B \<longleftrightarrow>
     (let u = unit_size sb; f = FirstBlock sb; n = length L in
      0 < u \<and> f < u \<and> n = u * length B \<and> sb_size sb = n
      \<and> circle (next_block sb) L \<and> set L = {..<length (sb_blocks sb)}
      \<and> circle (next_buffer sb) B \<and> set B = {..<length (sb_buffers sb)}
      \<and> m_pFirstBlock sb = L ! 0 \<and> FirstBuffer sb = B ! 0 \<and> bufferEnder sb \<in> set B
      \<and> (\<forall>i < n. bl_bufno (sb_blocks sb ! (L ! i)) = (f + i) mod u)
      \<and> (\<forall>j < length B. pb_first (sb_buffers sb ! (B ! j)) = L ! ((j * u + n - f) mod n)))"

lemma wrap_sub:
  fixes f x n :: nat
  assumes "f \<le> x" "x < n"
  shows "(x + n - f) mod n = x - f"
proof -
  have "(x - f + n) mod n = x - f" using assms by (simp del: add_diff_assoc2 diff_add_assoc2)
  then show ?thesis using assms by simp
qed

lemma circle_ne: "circle nxt L \<Longrightarrow> L \<noteq> []"
  unfolding circle_def by blast

lemma circle_next: "circle nxt L \<Longrightarrow> i < length L \<Longrightarrow> nxt (L ! i) = L ! (Suc i mod length L)"
  unfolding circle_def by blast

lemma circle_funpow:
  assumes "circle nxt L" "i < length L"
  shows "(nxt ^^ k) (L ! i) = L ! ((i + k) mod length L)"
proof (induction k)
  case (Suc k)
  have "(i + k) mod length L < length L" using assms(2) by (intro mod_less_divisor) auto
  then show ?case using circle_next [OF assms(1)] Suc by (simp add: mod_Suc_eq)
qed (use assms in simp)

lemma sb_ringD:
  assumes "sb_ring sb L B"
  shows "0 < unit_size sb" "FirstBlock sb < unit_size sb" "length L = unit_size sb * length B"
    and "sb_size sb = length L" "circle (next_block sb) L" "set L = {..<length (sb_blocks sb)}"
    and "circle (next_buffer sb) B" "set B = {..<length (sb_buffers sb)}"
    and "m_pFirstBlock sb = L ! 0" "FirstBuffer sb = B ! 0" "bufferEnder sb \<in> set B"
    and "\<And>i. i < length L \<Longrightarrow> bl_bufno (sb_blocks sb ! (L ! i)) = (FirstBlock sb + i) mod unit_size sb"
    and "\<And>j. j < length B \<Longrightarrow> pb_first (sb_buffers sb ! (B ! j))
          = L ! ((j * unit_size sb + length L - FirstBlock sb) mod length L)"
proof -
  note c = assms [unfolded sb_ring_def Let_def]
  show "0 < unit_size sb" "FirstBlock sb < unit_size sb" "length L = unit_size sb * length B"
    "sb_size sb = length L" "circle (next_block sb) L" "set L = {..<length (sb_blocks sb)}"
    "circle (next_buffer sb) B" "set B = {..<length (sb_buffers sb)}"
    "m_pFirstBlock sb = L ! 0" "FirstBuffer sb = B ! 0"
    by (simp_all only: c)
  show "bufferEnder sb \<in> set B" using c by (elim conjE)
  have "\<forall>i < length L. bl_bufno (sb_blocks sb ! (L ! i)) = (FirstBlock sb + i) mod unit_size sb"
    using c by (elim conjE)
  then show "\<And>i. i < length L \<Longrightarrow> bl_bufno (sb_blocks sb ! (L ! i)) = (FirstBlock sb + i) mod unit_size sb"
    by blast
  have "\<forall>j < length B. pb_first (sb_buffers sb ! (B ! j))
      = L ! ((j * unit_size sb + length L - FirstBlock sb) mod length L)"
    using c by (elim conjE)
  then show "\<And>j. j < length B \<Longrightarrow> pb_first (sb_buffers sb ! (B ! j))
      = L ! ((j * unit_size sb + length L - FirstBlock sb) mod length L)"
    by blast
qed

lemma ring_lengths:
  assumes "sb_ring sb L B"
  shows "0 < length L" "0 < length B" "length B \<le> length L"
proof -
  show "0 < length L" "0 < length B"
    using circle_ne [OF sb_ringD(5) [OF assms]] circle_ne [OF sb_ringD(7) [OF assms]] by simp_all
  show "length B \<le> length L"
    using sb_ringD(1) [OF assms] by (simp add: sb_ringD(3) [OF assms])
qed

text \<open>The shortcut over the physical buffers finds the block that m\_pNext reaches.\<close>

lemma locate_walks:
  assumes "sb_ring sb L B"
  shows "snd (snd (locate sb offset)) = (next_block sb ^^ offset) (m_pFirstBlock sb)"
    and "snd (snd (locate sb offset)) = L ! (offset mod length L)"
    and "fst (locate sb offset) = B ! ((FirstBlock sb + offset) div unit_size sb mod length B)"
    and "fst (snd (locate sb offset)) = (FirstBlock sb + offset) mod unit_size sb"
proof -
  let ?u = "unit_size sb" and ?n = "length L" and ?k = "length B" and ?f = "FirstBlock sb"
  note d = sb_ringD [OF assms] and len = ring_lengths [OF assms]
  define m where "m = (?f + offset) div ?u"
  define q where "q = (?f + offset) mod ?u"
  have eq: "?f + offset = m * ?u + q" by (simp add: m_def q_def)
  have first: "(next_block sb ^^ offset) (m_pFirstBlock sb) = L ! (offset mod ?n)"
    using circle_funpow [OF d(5), of 0 offset] len(1) d(9) by simp
  have buf: "(next_buffer sb ^^ m) (FirstBuffer sb) = B ! (m mod ?k)"
    using circle_funpow [OF d(7), of 0 m] len(2) d(10) by simp
  have mk: "m mod ?k < ?k" using len(2) by simp
  have "(next_block sb ^^ q) (pb_first (sb_buffers sb ! (B ! (m mod ?k)))) = L ! (offset mod ?n)"
  proof -
    have "(m mod ?k) * ?u mod ?n = m * ?u mod ?n"
      unfolding d(3) mult.commute [of _ ?u] mult_mod_right by (rule mod_mod_trivial)
    then have "((m mod ?k) * ?u + (?n - ?f + q)) mod ?n = (m * ?u + (?n - ?f + q)) mod ?n"
      by (metis mod_add_left_eq)
    moreover have fn: "?f < ?n"
      using d(2,3) len(2) by (metis One_nat_def Suc_leI less_le_trans mult.right_neutral mult_le_mono2)
    then have "m * ?u + (?n - ?f + q) = offset + ?n" using eq by simp
    ultimately have "((m mod ?k) * ?u + ?n - ?f + q) mod ?n = offset mod ?n"
      using fn by (simp add: add.assoc)
    then show ?thesis
      using circle_funpow [OF d(5), of "((m mod ?k) * ?u + ?n - ?f) mod ?n" q] len(1) d(13) [OF mk]
      by (simp add: mod_add_left_eq)
  qed
  then show "snd (snd (locate sb offset)) = (next_block sb ^^ offset) (m_pFirstBlock sb)"
    and "snd (snd (locate sb offset)) = L ! (offset mod ?n)"
    and "fst (locate sb offset) = B ! ((?f + offset) div ?u mod ?k)"
    and "fst (snd (locate sb offset)) = (?f + offset) mod ?u"
    using first buf unfolding locate_def Let_def m_def [symmetric] q_def [symmetric] by auto
qed


lemma ring_store_sizes:
  assumes "sb_ring sb L B"
  shows "length (sb_blocks sb) = length L" "length (sb_buffers sb) = length B"
proof -
  have "distinct L" "distinct B" using sb_ringD(5,7) [OF assms] by (simp_all add: circle_def)
  then have "card (set L) = length L" "card (set B) = length B" by (simp_all add: distinct_card)
  then show "length (sb_blocks sb) = length L" "length (sb_buffers sb) = length B"
    unfolding sb_ringD(6,8) [OF assms] by simp_all
qed

lemma walk_until_circle:
  assumes "circle nxt L"
  shows "i < length L \<Longrightarrow> length L - i \<le> fuel
    \<Longrightarrow> walk_until fuel nxt (L ! 0) (L ! i) = Inr (L ! (length L - 1))"
proof (induction fuel arbitrary: i)
  case (Suc fuel)
  note nxt = circle_next [OF assms Suc.prems(1)]
  show ?case
  proof (cases "Suc i = length L")
    case True
    then show ?thesis using nxt by (metis diff_Suc_1 mod_self walk_until.simps(2))
  next
    case False
    then have "Suc i < length L" using Suc.prems(1) by simp
    moreover have "L ! Suc i \<noteq> L ! 0"
      using assms calculation by (simp add: circle_def nth_eq_iff_index_eq)
    ultimately show ?thesis using Suc.IH [of "Suc i"] Suc.prems(2) nxt by simp
  qed
qed simp

lemma circle_snoc_list:
  assumes "circle nxt L" "0 < u" "distinct M" "length M = u" "set L \<inter> set M = {}"
    and "\<And>i. Suc i < length L \<Longrightarrow> nxt' (L ! i) = nxt (L ! i)"
    and "nxt' (L ! (length L - 1)) = M ! 0"
    and "\<And>i. i < u \<Longrightarrow> nxt' (M ! i) = (if Suc i = u then L ! 0 else M ! Suc i)"
  shows "circle nxt' (L @ M)"
proof -
  have ne: "0 < length L" using circle_ne [OF assms(1)] by simp
  have "nxt' ((L @ M) ! i) = (L @ M) ! (Suc i mod length (L @ M))" if i: "i < length (L @ M)" for i
  proof (cases "i < length L")
    case True
    show ?thesis
    proof (cases "Suc i = length L")
      case last: True
      then have "i = length L - 1" by simp
      then show ?thesis using assms(2,4,7) last True by (simp add: nth_append)
    next
      case False
      then have "Suc i < length L" using True by simp
      then show ?thesis using assms(6) circle_next [OF assms(1) True] by (simp add: nth_append)
    qed
  next
    case False
    then have "Suc i mod length (L @ M) = (if Suc (i - length L) = u then 0 else Suc i)"
    proof (cases "Suc (i - length L) = u")
      case True
      then have "Suc i = length (L @ M)" using False assms(4) by simp
      then show ?thesis using True by simp
    next
      case neq: False
      then have "Suc i < length (L @ M)" using False i assms(4) by simp
      then show ?thesis using neq by simp
    qed
    then show ?thesis using False i assms(4) assms(8) [of "i - length L"] ne
      by (auto simp: nth_append Suc_diff_le)
  qed
  then show ?thesis using assms(1,3,5) by (auto simp: circle_def)
qed

lemma fresh_first_eq:
  assumes "f < u"
  shows "fresh_first base f u = base + (u - f) mod u"
proof -
  let ?xs = "filter (\<lambda>i. (f + i) mod u = 0) [0..<u]"
  have z: "(u - f) mod u \<in> set ?xs"
    using assms by (simp add: mod_add_right_eq)
  have "i = (u - f) mod u" if "i \<in> set ?xs" for i
  proof -
    have i: "i < u" "(f + i) mod u = 0" using that by auto
    show ?thesis
    proof (cases "f + i < u")
      case True then show ?thesis using i assms by auto
    next
      case False
      have "f + i - u < u" using i(1) assms by linarith
      then have "(f + i) mod u = f + i - u" using False by (simp add: mod_if [of "f + i"])
      then show ?thesis using i False by (cases f) auto
    qed
  qed
  then have "hd ?xs = (u - f) mod u" using z by (metis hd_in_set empty_iff empty_set)
  then show ?thesis by (simp add: fresh_first_def)
qed


text \<open>Growing keeps the circle: the new blocks come after all old ones.\<close>

lemma sb_increase_ring:
  assumes ring: "sb_ring sb L B"
  obtains sb' M nbuf where "sb_increase sb = Inr sb'" "sb_ring sb' (L @ M) (B @ [nbuf])"
    "length M = unit_size sb" "sb_size sb' = sb_size sb + unit_size sb"
    "m_pLastBlock sb' = m_pLastBlock sb" "sb_count sb' = sb_count sb" "sb_mss sb' = sb_mss sb"
    "m_iBlockSize sb' = m_iBlockSize sb" "m_iNextMsgNo sb' = m_iNextMsgNo sb"
    "\<And>i. i < length L \<Longrightarrow> \<exists>x. sb_blocks sb' ! (L ! i) = (sb_blocks sb ! (L ! i))\<lparr> bl_next := x \<rparr>"
    "unit_size sb' = unit_size sb"
proof -
  let ?u = "unit_size sb" and ?n = "length L" and ?k = "length B" and ?f = "FirstBlock sb"
  note d = sb_ringD [OF ring] and len = ring_lengths [OF ring] and st = ring_store_sizes [OF ring]
  have n: "?n = ?k * ?u" using d(3) by (simp add: mult.commute)
  have "1 \<le> ?k" using len(2) by linarith
  then have un: "?u \<le> ?n" using mult_le_mono1 [of 1 ?k ?u] unfolding n by simp
  have fn: "?f < ?n" using d(2) un by simp
  define first where "first = m_pFirstBlock sb"
  have first: "first = L ! 0" using d(9) by (simp add: first_def)
  have bufno: "bl_bufno (sb_blocks sb ! first) = ?f"
    using d(12) [OF len(1)] d(2) by (simp add: first)
  obtain e where e: "e < ?k" "bufferEnder sb = B ! e"
    using d(11) by (metis in_set_conv_nth)
  have walk1: "walk_until (length (sb_buffers sb)) (next_buffer sb) (FirstBuffer sb) (bufferEnder sb)
      = Inr (B ! (?k - 1))"
    unfolding d(10) e(2) st(2) by (rule walk_until_circle [OF d(7) e(1)]) simp
  define start where "start = (if ?f \<noteq> 0 then ?n - ?f else (?k - 1) * ?u)"
  have start: "start < ?n" using d(1) fn len(2) by (auto simp: start_def n)
  have from_here: "(if ?f \<noteq> 0 then pb_first (sb_buffers sb ! FirstBuffer sb)
      else pb_first (sb_buffers sb ! (B ! (?k - 1)))) = L ! start"
  proof (cases "?f = 0")
    case True
    have "((?k - 1) * ?u + ?n - ?f) mod ?n = (?k - 1) * ?u"
      using True start by (simp add: start_def)
    then show ?thesis using True d(13) [of "?k - 1"] len(2) by (simp add: start_def)
  next
    case False
    then show ?thesis using d(13) [OF len(2)] d(10) fn by (simp add: start_def)
  qed
  have walk2: "walk_until (length (sb_blocks sb)) (next_block sb) first (L ! start) = Inr (L ! (?n - 1))"
    unfolding first st(1) by (rule walk_until_circle [OF d(5) start]) simp
  define prev where "prev = L ! (?n - 1)"
  define ender where "ender = B ! (?k - 1)"
  have after: "next_block sb prev = L ! 0"
    using circle_next [OF d(5), of "?n - 1"] len(1) by (simp add: prev_def)
  have after_buf: "next_buffer sb ender = B ! 0"
    using circle_next [OF d(7), of "?k - 1"] len(2) by (simp add: ender_def)
  define fresh where "fresh = fresh_first ?n ?f ?u"
  have fresh: "fresh = ?n + (?u - ?f) mod ?u" using fresh_first_eq [OF d(2)] by (simp add: fresh_def)
  define blocks where "blocks = (sb_blocks sb)[prev := (sb_blocks sb ! prev)\<lparr> bl_next := ?n \<rparr>]
      @ fresh_blocks ?n ?f ?u (L ! 0)"
  define old_first where "old_first = pb_first (sb_buffers sb ! FirstBuffer sb)"
  define linked where "linked = (sb_buffers sb)[ender := (sb_buffers sb ! ender)\<lparr> pb_next := ?k \<rparr>]
      @ [\<lparr> pb_first = (if ?f \<noteq> 0 then old_first else fresh), pb_size = ?u, pb_next = B ! 0 \<rparr>]"
  define buffers where "buffers = (if ?f \<noteq> 0
      then linked[FirstBuffer sb := (linked ! FirstBuffer sb)\<lparr> pb_first := fresh \<rparr>] else linked)"
  define sb' where "sb' = sb\<lparr> sb_blocks := blocks, sb_buffers := buffers, bufferEnder := ?k,
      sb_size := sb_size sb + ?u \<rparr>"
  have run: "sb_increase sb = Inr sb'"
    unfolding sb_increase_def Let_def first_def [symmetric] bufno walk1 bind_outcome_simps from_here walk2
    by (simp only: st prev_def [symmetric] ender_def [symmetric] after after_buf
        fresh_def [symmetric] old_first_def [symmetric] blocks_def [symmetric]
        linked_def [symmetric] buffers_def [symmetric] sb'_def [symmetric])
  define M where "M = [?n..<?n + ?u]"
  have inL: "L ! i < ?n" if "i < ?n" for i
    using d(6) nth_mem [OF that] st(1) by auto
  have inB: "B ! j < ?k" if "j < ?k" for j
    using d(8) nth_mem [OF that] st(2) by auto
  have Ldist: "L ! i = L ! j \<longleftrightarrow> i = j" if "i < ?n" "j < ?n" for i j
    using d(5) that by (simp add: circle_def nth_eq_iff_index_eq)
  have Bdist: "B ! i = B ! j \<longleftrightarrow> i = j" if "i < ?k" "j < ?k" for i j
    using d(7) that by (simp add: circle_def nth_eq_iff_index_eq)
  have old: "blocks ! (L ! i) = (if i = ?n - 1 then (sb_blocks sb ! (L ! i))\<lparr> bl_next := ?n \<rparr>
      else sb_blocks sb ! (L ! i))" if "i < ?n" for i
    using that inL [OF that] Ldist [OF that, of "?n - 1"] len(1) st(1)
    by (auto simp: blocks_def nth_append nth_list_update prev_def)
  have new: "blocks ! (?n + i) = new_block ((?f + i) mod ?u) (if Suc i = ?u then L ! 0 else ?n + Suc i)"
    if "i < ?u" for i
    using that st(1) by (simp add: blocks_def nth_append fresh_blocks_def)
  have llen: "length linked = Suc ?k" by (simp add: linked_def st(2))
  have link: "linked ! (B ! j) = (if j = ?k - 1 then (sb_buffers sb ! (B ! j))\<lparr> pb_next := ?k \<rparr>
      else sb_buffers sb ! (B ! j))" if "j < ?k" for j
    using that inB [OF that] inB [of "?k - 1"] Bdist [OF that, of "?k - 1"] len(2) st(2)
    by (auto simp: linked_def nth_append nth_list_update ender_def)
  have bufs: "buffers ! x = (if ?f \<noteq> 0 \<and> x = B ! 0 then (linked ! x)\<lparr> pb_first := fresh \<rparr> else linked ! x)" for x
    using inB [OF len(2)] llen by (simp add: buffers_def d(10) nth_list_update)
  have oldb: "pb_next (buffers ! (B ! j)) = (if j = ?k - 1 then ?k else pb_next (sb_buffers sb ! (B ! j)))"
      "pb_first (buffers ! (B ! j)) = (if j = 0 \<and> ?f \<noteq> 0 then fresh else pb_first (sb_buffers sb ! (B ! j)))"
    if "j < ?k" for j
    using Bdist [OF that len(2)] link [OF that] by (auto simp: bufs)
  have newb: "buffers ! ?k = \<lparr> pb_first = (if ?f \<noteq> 0 then old_first else fresh), pb_size = ?u, pb_next = B ! 0 \<rparr>"
    using inB [OF len(2)] st(2) unfolding bufs by (simp add: linked_def nth_append)
  have u': "unit_size sb' = ?u"
  proof -
    have "linked \<noteq> []" "sb_buffers sb \<noteq> []" using llen st(2) len(2) by auto
    then have "pb_size (linked ! 0) = pb_size (sb_buffers sb ! 0)"
      by (cases "ender = 0") (simp_all add: linked_def nth_append nth_list_update)
    then show ?thesis by (simp add: unit_size_def sb'_def bufs)
  qed
  have blen: "length blocks = ?n + ?u" by (simp add: blocks_def st(1) fresh_blocks_def)
  have bflen: "length buffers = Suc ?k" by (simp add: buffers_def llen)
  have setL: "set L = {..<?n}" and setB: "set B = {..<?k}"
    using d(6,8) by (simp_all only: st)
  have circ: "circle (next_block sb') (L @ M)"
  proof (rule circle_snoc_list [OF d(5) d(1)])
    show "distinct M" "length M = ?u" by (simp_all add: M_def)
    show "set L \<inter> set M = {}" unfolding setL M_def set_upt by (rule ivl_disj_int_one)
    show "next_block sb' (L ! i) = next_block sb (L ! i)" if "Suc i < ?n" for i
    proof -
      have "i \<noteq> ?n - 1" using that by linarith
      then show ?thesis using old [of i] that by (simp add: sb'_def)
    qed
    show "next_block sb' (L ! (?n - 1)) = M ! 0"
      using old [of "?n - 1"] len(1) d(1) by (simp add: sb'_def M_def)
    show "next_block sb' (M ! i) = (if Suc i = ?u then L ! 0 else M ! Suc i)" if "i < ?u" for i
      using new [OF that] that by (simp add: sb'_def M_def new_block_def)
  qed
  have circb: "circle (next_buffer sb') (B @ [?k])"
  proof (rule circle_snoc_list [OF d(7), of 1])
    show "set B \<inter> set [?k] = {}" unfolding setB by simp
    show "next_buffer sb' (B ! i) = next_buffer sb (B ! i)" if "Suc i < ?k" for i
    proof -
      have "i \<noteq> ?k - 1" using that by linarith
      then show ?thesis using oldb(1) [of i] that by (simp add: sb'_def)
    qed
    show "next_buffer sb' (B ! (?k - 1)) = [?k] ! 0"
      using oldb(1) [of "?k - 1"] len(2) by (simp add: sb'_def)
    show "next_buffer sb' ([?k] ! i) = (if Suc i = 1 then B ! 0 else [?k] ! Suc i)" if "i < 1" for i
      using newb that by (simp add: sb'_def)
  qed simp_all
  have numbers: "bl_bufno (sb_blocks sb' ! ((L @ M) ! i)) = (?f + i) mod ?u" if i: "i < ?n + ?u" for i
  proof (cases "i < ?n")
    case True
    have "bl_bufno (blocks ! (L ! i)) = bl_bufno (sb_blocks sb ! (L ! i))"
      using old [OF True] by auto
    then show ?thesis using True d(12) [OF True] by (simp add: sb'_def nth_append)
  next
    case False
    have "(?f + (i - ?n)) mod ?u = (?f + (i - ?n) + ?n) mod ?u"
      unfolding n by (rule mod_mult_self1 [symmetric])
    then show ?thesis
      using False i new [of "i - ?n"] by (simp add: sb'_def nth_append M_def new_block_def)
  qed
  have firsts: "pb_first (sb_buffers sb' ! ((B @ [?k]) ! j)) =
      (L @ M) ! ((j * ?u + (?n + ?u) - ?f) mod (?n + ?u))" if j: "j < Suc ?k" for j
  proof -
    consider "j = 0" | "0 < j" "j < ?k" | "j = ?k" using j by linarith
    then show ?thesis
    proof cases
      case 1
      then show ?thesis
        using oldb(2) [OF len(2)] d(13) [OF len(2)] len d(2) fresh fn
        by (auto simp: sb'_def nth_append M_def)
    next
      case 2
      have "?u \<le> j * ?u" using 2 by simp
      then have fj: "?f \<le> j * ?u" using d(2) by linarith
      have ju: "j * ?u < ?n" using 2 d(1) by (simp add: n)
      have "(j * ?u + ?n - ?f) mod ?n = j * ?u - ?f" "(j * ?u + (?n + ?u) - ?f) mod (?n + ?u) = j * ?u - ?f"
        using wrap_sub [OF fj ju] wrap_sub [OF fj, of "?n + ?u"] ju by simp_all
      moreover have "j * ?u - ?f < ?n" using ju by linarith
      ultimately show ?thesis
        using 2 oldb(2) [of j] d(13) [of j] by (simp add: sb'_def nth_append)
    next
      case 3
      have of: "old_first = L ! ((?n - ?f) mod ?n)"
        using d(13) [OF len(2)] by (simp add: old_first_def d(10))
      have "(j * ?u + (?n + ?u) - ?f) mod (?n + ?u) = ?n - ?f"
        using fn d(1) wrap_sub [of ?f ?n "?n + ?u"] 3 by (simp add: n)
      then show ?thesis
        using 3 newb of fresh fn d(1) by (auto simp: sb'_def nth_append M_def)
    qed
  qed
  show ?thesis
  proof (rule that [OF run])
    show "length M = ?u" by (simp add: M_def)
    show "sb_ring sb' (L @ M) (B @ [?k])"
      unfolding sb_ring_def Let_def u'
    proof (intro conjI allI impI)
      show "circle (next_block sb') (L @ M)" "circle (next_buffer sb') (B @ [?k])" by fact+
      show "0 < ?u" "FirstBlock sb' < ?u" using d(1,2) by (simp_all add: sb'_def)
      show "length (L @ M) = ?u * length (B @ [?k])" using d(3) by (simp add: M_def)
      show "sb_size sb' = length (L @ M)" using d(4) by (simp add: sb'_def M_def)
      show "set (L @ M) = {..<length (sb_blocks sb')}" 
        unfolding set_append setL M_def set_upt by (simp add: sb'_def blen ivl_disj_un_one)
      show "set (B @ [?k]) = {..<length (sb_buffers sb')}" 
        unfolding set_append setB by (simp add: sb'_def bflen lessThan_Suc)
      show "m_pFirstBlock sb' = (L @ M) ! 0" using d(9) len(1) by (simp add: sb'_def nth_append)
      show "FirstBuffer sb' = (B @ [?k]) ! 0" using d(10) len(2) by (simp add: sb'_def nth_append)
      show "bufferEnder sb' \<in> set (B @ [?k])" by (simp add: sb'_def)
      show "bl_bufno (sb_blocks sb' ! ((L @ M) ! i)) = (FirstBlock sb' + i) mod ?u" if "i < length (L @ M)" for i
        using numbers [of i] that by (simp add: M_def sb'_def)
      show "pb_first (sb_buffers sb' ! ((B @ [?k]) ! j)) =
          (L @ M) ! ((j * ?u + length (L @ M) - FirstBlock sb') mod length (L @ M))" if "j < length (B @ [?k])" for j
        using firsts [of j] that by (simp add: M_def sb'_def)
    qed
    show "\<exists>x. sb_blocks sb' ! (L ! i) = (sb_blocks sb ! (L ! i))\<lparr> bl_next := x \<rparr>" if "i < ?n" for i
      using old [OF that] by (auto simp: sb'_def intro: exI [of _ "bl_next (sb_blocks sb ! (L ! i))"])
  qed (simp_all add: sb'_def u' [unfolded sb'_def])
qed


lemma circle_rotate:
  assumes "circle nxt L"
  shows "circle nxt (rotate m L)"
proof -
  have ne: "0 < length L" using circle_ne [OF assms] by simp
  have "nxt (rotate m L ! i) = rotate m L ! (Suc i mod length L)" if i: "i < length L" for i
  proof -
    have "(m + i) mod length L < length L" using ne by simp
    then have "nxt (rotate m L ! i) = L ! (Suc ((m + i) mod length L) mod length L)"
      by (simp only: nth_rotate [OF i] circle_next [OF assms])
    also have "\<dots> = L ! ((m + Suc i mod length L) mod length L)"
      by (simp add: mod_simps)
    also have "\<dots> = rotate m L ! (Suc i mod length L)"
      using ne by (simp add: nth_rotate)
    finally show ?thesis .
  qed
  then show ?thesis using assms by (simp add: circle_def)
qed

text \<open>Acknowledging rotates the circle.\<close>

lemma ackData_ring:
  assumes ring: "sb_ring sb L B"
  shows "sb_ring (ackData a sb) (rotate a L) (rotate ((FirstBlock sb + a) div unit_size sb) B)"
proof -
  let ?u = "unit_size sb" and ?n = "length L" and ?k = "length B" and ?f = "FirstBlock sb"
  define m where "m = (?f + a) div ?u"
  define q where "q = (?f + a) mod ?u"
  note d = sb_ringD [OF ring] and len = ring_lengths [OF ring]
  note loc = locate_walks [OF ring, of a]
  have ack: "ackData a sb = sb\<lparr> FirstBuffer := B ! (m mod ?k), FirstBlock := q,
      m_pFirstBlock := L ! (a mod ?n), sb_count := sb_count sb - int a \<rparr>"
    using loc(2-4) unfolding ackData_def m_def q_def by (cases "locate sb a") auto
  have fo: "?f + a = m * ?u + q" by (simp add: m_def q_def)
  have qu: "q < ?u" using d(1) by (simp add: q_def)
  have fn: "?f < ?n" "?u \<le> ?n"
  proof -
    have "1 \<le> ?k" using len(2) by linarith
    then show "?u \<le> ?n" using mult_le_mono2 [of 1 ?k ?u] unfolding d(3) by simp
    then show "?f < ?n" using d(2) by linarith
  qed
  have num: "bl_bufno (sb_blocks sb ! (rotate a L ! i)) = (q + i) mod ?u" if i: "i < ?n" for i
  proof -
    have "(?f + (a + i) mod ?n) mod ?u = (?f + (a + i)) mod ?u"
      by (metis d(3) dvd_triv_left mod_add_right_eq mod_mod_cancel)
    also have "\<dots> = (q + i) mod ?u"
      by (simp add: q_def mod_add_left_eq add.assoc [symmetric])
    finally show ?thesis using d(12) [of "(a + i) mod ?n"] len(1) by (simp add: nth_rotate [OF i])
  qed
  have first: "pb_first (sb_buffers sb ! (rotate m B ! j)) = rotate a L ! ((j * ?u + ?n - q) mod ?n)"
    if j: "j < ?k" for j
  proof -
    define i where "i = (m + j) mod ?k"
    have i: "i < ?k" using len(2) by (simp add: i_def)
    have iu: "(i * ?u + x) mod ?n = ((m + j) * ?u + x) mod ?n" for x
    proof -
      have "i * ?u mod ?n = (m + j) * ?u mod ?n"
        unfolding d(3) i_def mult.commute [of _ ?u] mult_mod_right by (rule mod_mod_trivial)
      then show ?thesis by (metis mod_add_left_eq)
    qed
    have "(i * ?u + ?n - ?f) mod ?n = ((m + j) * ?u + (?n - ?f)) mod ?n"
      using iu [of "?n - ?f"] fn by simp
    also have "(m + j) * ?u + (?n - ?f) = j * ?u + (?n - q) + a"
      using fo fn qu by (simp add: algebra_simps)
    also have "(j * ?u + (?n - q) + a) mod ?n = (a + (j * ?u + ?n - q) mod ?n) mod ?n"
      using fn qu by (simp add: mod_add_right_eq add.commute)
    finally have eq: "(i * ?u + ?n - ?f) mod ?n = (a + (j * ?u + ?n - q) mod ?n) mod ?n" .
    have less: "(j * ?u + ?n - q) mod ?n < ?n" using len(1) by simp
    show ?thesis
      using d(13) [OF i] by (simp only: nth_rotate [OF j] nth_rotate [OF less] i_def [symmetric] eq)
  qed
  show ?thesis
    unfolding sb_ring_def Let_def ack m_def [symmetric]
  proof (intro conjI allI impI)
    fix j assume "j < length (rotate m B)"
    then show "pb_first (sb_buffers (sb\<lparr>FirstBuffer := B ! (m mod ?k), FirstBlock := q,
          m_pFirstBlock := L ! (a mod ?n), sb_count := sb_count sb - int a\<rparr>) ! (rotate m B ! j)) =
        rotate a L ! ((j * unit_size (sb\<lparr>FirstBuffer := B ! (m mod ?k), FirstBlock := q,
          m_pFirstBlock := L ! (a mod ?n), sb_count := sb_count sb - int a\<rparr>) + length (rotate a L)
          - FirstBlock (sb\<lparr>FirstBuffer := B ! (m mod ?k), FirstBlock := q,
          m_pFirstBlock := L ! (a mod ?n), sb_count := sb_count sb - int a\<rparr>)) mod length (rotate a L))"
      using first [of j] by (simp add: unit_size_def)
  qed (use d num len qu circle_rotate [OF d(5)] circle_rotate [OF d(7)] nth_rotate [of 0 L a]
      nth_rotate [of 0 B m] in \<open>simp_all add: unit_size_def\<close>)
qed


subsection \<open>The queue of blocks\<close>

text \<open>What the buffer stands for: a queue of entries with the bytes, the message number, the time
  and the time to live of a block.\<close>

type_synonym entry = "byte list \<times> int \<times> int \<times> int"

definition block_holds :: "block \<Rightarrow> entry \<Rightarrow> bool" where
  "block_holds b e \<longleftrightarrow> (case e of (bytes, msgno, time, ttl) \<Rightarrow>
     take (length bytes) (bl_data b) = bytes \<and> bl_length b = int (length bytes)
     \<and> bl_msgno b = msgno \<and> bl_origin b = time \<and> bl_ttl b = ttl)"

definition sb_fill :: "snd_buffer \<Rightarrow> nat list \<Rightarrow> nat list \<Rightarrow> entry list \<Rightarrow> bool" where
  "sb_fill sb L B Q \<longleftrightarrow> sb_ring sb L B \<and> length Q < length L
     \<and> (\<forall>i < length Q. block_holds (sb_blocks sb ! (L ! i)) (Q ! i))"

definition represents :: "snd_buffer \<Rightarrow> entry list \<Rightarrow> bool" where
  "represents sb Q \<longleftrightarrow> (\<exists>L B. sb_fill sb L B Q \<and> sb_count sb = int (length Q)
     \<and> m_pLastBlock sb = L ! length Q)"

primrec chunk_entries :: "nat \<Rightarrow> nat \<Rightarrow> byte list \<Rightarrow> bool \<Rightarrow> int \<Rightarrow> int \<Rightarrow> int \<Rightarrow> nat \<Rightarrow> entry list" where
  "chunk_entries 0 i data order time ttl msgno mss = []"
| "chunk_entries (Suc n) i data order time ttl msgno mss =
     (take mss data, msgno_word msgno order (i = 0) (n = 0), time, ttl)
       # chunk_entries n (Suc i) (drop mss data) order time ttl (i32 (msgno + 1)) mss"

lemma length_chunk_entries [simp]: "length (chunk_entries n i data order time ttl msgno mss) = n"
  by (induction n arbitrary: i data msgno) simp_all

lemma concat_chunk_entries:
  "length data \<le> n * mss \<Longrightarrow> concat (map fst (chunk_entries n i data order time ttl msgno mss)) = data"
  by (induction n arbitrary: i data msgno) simp_all

lemma chunk_entries_bounded:
  "e \<in> set (chunk_entries n i data order time ttl msgno mss) \<Longrightarrow> length (fst e) \<le> mss"
  by (induction n arbitrary: i data msgno) auto

lemma represents_new:
  assumes "0 < n"
  shows "represents (snd_buffer_new n mss) []"
proof -
  have "sb_ring (snd_buffer_new n mss) [0..<n] [0]"
    using assms by (auto simp: sb_ring_def Let_def snd_buffer_new_def unit_size_def circle_def
        new_block_def mod_Suc)
  then have "sb_fill (snd_buffer_new n mss) [0..<n] [0] []"
    using assms by (simp add: sb_fill_def)
  then show ?thesis
    using assms unfolding represents_def
    by (intro exI [of _ "[0..<n]"] exI [of _ "[0]"]) (simp add: snd_buffer_new_def)
qed

lemma grow_fill:
  assumes "sb_fill sb L B Q" "sb_count sb = int (length Q)" "m_pLastBlock sb = L ! length Q"
    and "grow_fuel n sb \<le> fuel"
  obtains sb' L' B' where "grow fuel n sb = Inr sb'" "sb_fill sb' L' B' Q"
    "n + int (length Q) < int (length L')" "sb_count sb' = int (length Q)"
    "m_pLastBlock sb' = L' ! length Q" "sb_mss sb' = sb_mss sb" "m_iBlockSize sb' = m_iBlockSize sb"
    "m_iNextMsgNo sb' = m_iNextMsgNo sb"
  using assms
proof (induction fuel arbitrary: sb L B thesis)
  case 0
  then show ?case by (simp add: grow_fuel_def)
next
  case (Suc fuel)
  have ring: "sb_ring sb L B" and room: "length Q < length L"
    and holds: "\<And>i. i < length Q \<Longrightarrow> block_holds (sb_blocks sb ! (L ! i)) (Q ! i)"
    using Suc.prems(2) by (simp_all add: sb_fill_def)
  have size: "sb_size sb = length L" by (rule sb_ringD(4) [OF ring])
  show ?case
  proof (cases "n + sb_count sb \<ge> int (sb_size sb)")
    case False
    then have "grow (Suc fuel) n sb = Inr sb" by simp
    then show ?thesis using Suc.prems False size by (intro Suc.prems(1)) auto
  next
    case True
    obtain sb1 M nbuf where inc: "sb_increase sb = Inr sb1" "sb_ring sb1 (L @ M) (B @ [nbuf])"
      "length M = unit_size sb" "sb_size sb1 = sb_size sb + unit_size sb"
      "m_pLastBlock sb1 = m_pLastBlock sb" "sb_count sb1 = sb_count sb" "sb_mss sb1 = sb_mss sb"
      "m_iBlockSize sb1 = m_iBlockSize sb" "m_iNextMsgNo sb1 = m_iNextMsgNo sb"
      "\<And>i. i < length L \<Longrightarrow> \<exists>x. sb_blocks sb1 ! (L ! i) = (sb_blocks sb ! (L ! i))\<lparr> bl_next := x \<rparr>"
      by (rule sb_increase_ring [OF ring]) blast
    have "block_holds (sb_blocks sb1 ! ((L @ M) ! i)) (Q ! i)" if "i < length Q" for i
      using inc(10) [of i] holds [OF that] that room
      by (auto simp: nth_append block_holds_def)
    then have fill: "sb_fill sb1 (L @ M) (B @ [nbuf]) Q"
      using inc(2) room by (simp add: sb_fill_def)
    have "grow_fuel n sb1 \<le> fuel"
      using Suc.prems(5) inc(4,6) True sb_ringD(1) [OF ring] by (simp add: grow_fuel_def)
    moreover have "m_pLastBlock sb1 = (L @ M) ! length Q"
      using inc(5) Suc.prems(4) room by (simp add: nth_append)
    ultimately show ?thesis
      using Suc.IH [OF _ fill] Suc.prems(1,3) inc(1,6-9) True by auto
  qed
qed

lemma write_block_fill:
  assumes fill: "sb_fill sb L B Q" and room: "Suc (length Q) < length L"
    and fits: "length bytes \<le> m_iBlockSize sb"
  obtains sb' where "write_block bytes msgno time ttl (L ! length Q) sb = Inr sb'"
    "sb_fill sb' L B (Q @ [(bytes, msgno, time, ttl)])"
    "next_block sb' (L ! length Q) = L ! Suc (length Q)" "sb_mss sb' = sb_mss sb"
    "m_iBlockSize sb' = m_iBlockSize sb" "m_iNextMsgNo sb' = m_iNextMsgNo sb" "sb_count sb' = sb_count sb"
proof -
  let ?s = "L ! length Q"
  define b where "b = (sb_blocks sb ! ?s)\<lparr> bl_data := bytes @ drop (length bytes) (bl_data (sb_blocks sb ! ?s)),
      bl_length := int (length bytes), bl_msgno := msgno, bl_origin := time, bl_ttl := ttl \<rparr>"
  define sb' where "sb' = sb\<lparr> sb_blocks := (sb_blocks sb)[?s := b] \<rparr>"
  have ring: "sb_ring sb L B" and holds: "\<And>i. i < length Q \<Longrightarrow> block_holds (sb_blocks sb ! (L ! i)) (Q ! i)"
    using fill by (simp_all add: sb_fill_def)
  note d = sb_ringD [OF ring] and st = ring_store_sizes [OF ring]
  have s: "?s < length (sb_blocks sb)" using d(6) room by (metis Suc_lessD lessThan_iff nth_mem)
  have at: "sb_blocks sb' ! p = (if p = ?s then b else sb_blocks sb ! p)" for p
    using s by (simp add: sb'_def nth_list_update)
  have same: "bl_next (sb_blocks sb' ! p) = bl_next (sb_blocks sb ! p)"
      "bl_bufno (sb_blocks sb' ! p) = bl_bufno (sb_blocks sb ! p)" for p
    by (simp_all add: at b_def)
  have fields: "sb_buffers sb' = sb_buffers sb" "length (sb_blocks sb') = length (sb_blocks sb)"
      "sb_size sb' = sb_size sb" "m_pFirstBlock sb' = m_pFirstBlock sb" "FirstBuffer sb' = FirstBuffer sb"
      "bufferEnder sb' = bufferEnder sb" "FirstBlock sb' = FirstBlock sb" "unit_size sb' = unit_size sb"
    by (simp_all add: sb'_def unit_size_def)
  have ring': "sb_ring sb' L B"
    using ring unfolding sb_ring_def Let_def circle_def same fields .
  have dist: "L ! i \<noteq> ?s" if "i < length Q" for i
    using d(5) that room by (simp add: circle_def nth_eq_iff_index_eq)
  have "block_holds (sb_blocks sb' ! (L ! i)) ((Q @ [(bytes, msgno, time, ttl)]) ! i)" if "i < Suc (length Q)" for i
  proof (cases "i < length Q")
    case True
    then show ?thesis using holds [OF True] dist [OF True] by (simp add: at nth_append)
  next
    case False
    then have "i = length Q" using that by simp
    then show ?thesis by (simp add: at nth_append block_holds_def b_def)
  qed
  then have fill': "sb_fill sb' L B (Q @ [(bytes, msgno, time, ttl)])"
    using ring' room by (simp add: sb_fill_def)
  have nxt: "next_block sb' ?s = L ! Suc (length Q)"
    using circle_next [OF d(5), of "length Q"] room by (simp add: same)
  show ?thesis
    by (rule that [of sb']) (use fits fill' nxt in \<open>simp_all add: write_block_def sb'_def b_def\<close>)
qed


lemma add_loop_fill:
  assumes "sb_fill sb L B Q" "length Q + n < length L" "nat (sb_mss sb) \<le> m_iBlockSize sb"
  obtains sb' where "add_loop n i data order time ttl (L ! length Q) sb = Inr (L ! (length Q + n), sb')"
    "sb_fill sb' L B (Q @ chunk_entries n i data order time ttl (m_iNextMsgNo sb) (nat (sb_mss sb)))"
    "sb_mss sb' = sb_mss sb" "m_iBlockSize sb' = m_iBlockSize sb" "sb_count sb' = sb_count sb"
  using assms
proof (induction n arbitrary: i data sb Q thesis)
  case (Suc n)
  let ?bytes = "take (nat (sb_mss sb)) data"
  let ?msgno = "msgno_word (m_iNextMsgNo sb) order (i = 0) (n = 0)"
  have fits: "length ?bytes \<le> m_iBlockSize sb" using Suc.prems(4) by simp
  obtain sb1 where w: "write_block ?bytes ?msgno time ttl (L ! length Q) sb = Inr sb1"
    "sb_fill sb1 L B (Q @ [(?bytes, ?msgno, time, ttl)])"
    "next_block sb1 (L ! length Q) = L ! Suc (length Q)" "sb_mss sb1 = sb_mss sb"
    "m_iBlockSize sb1 = m_iBlockSize sb" "m_iNextMsgNo sb1 = m_iNextMsgNo sb" "sb_count sb1 = sb_count sb"
    by (rule write_block_fill [OF Suc.prems(2) _ fits, of ?msgno time ttl]) (use Suc.prems(3) in auto)
  define sb2 where "sb2 = sb1\<lparr> m_iNextMsgNo := i32 (m_iNextMsgNo sb1 + 1) \<rparr>"
  have fields: "sb_blocks sb2 = sb_blocks sb1" "sb_buffers sb2 = sb_buffers sb1"
      "sb_size sb2 = sb_size sb1" "m_pFirstBlock sb2 = m_pFirstBlock sb1" "FirstBuffer sb2 = FirstBuffer sb1"
      "bufferEnder sb2 = bufferEnder sb1" "FirstBlock sb2 = FirstBlock sb1" "unit_size sb2 = unit_size sb1"
    by (simp_all add: sb2_def unit_size_def)
  have fill2: "sb_fill sb2 L B (Q @ [(?bytes, ?msgno, time, ttl)])"
    using w(2) unfolding sb_fill_def sb_ring_def fields .
  obtain sb' where "add_loop n (Suc i) (drop (nat (sb_mss sb)) data) order time ttl
        (L ! length (Q @ [(?bytes, ?msgno, time, ttl)])) sb2
      = Inr (L ! (length (Q @ [(?bytes, ?msgno, time, ttl)]) + n), sb')"
    "sb_fill sb' L B ((Q @ [(?bytes, ?msgno, time, ttl)]) @ chunk_entries n (Suc i) (drop (nat (sb_mss sb)) data)
        order time ttl (m_iNextMsgNo sb2) (nat (sb_mss sb2)))"
    "sb_mss sb' = sb_mss sb2" "m_iBlockSize sb' = m_iBlockSize sb2" "sb_count sb' = sb_count sb2"
    by (rule Suc.IH [OF _ fill2]) (use Suc.prems(3,4) w in \<open>auto simp: sb2_def\<close>)
  then show ?case
    using w by (intro Suc.prems(1) [of sb']) (auto simp: sb2_def)
next
  case 0
  show ?case by (rule 0(1) [of sb]) (use 0(2) in simp_all)
qed

lemma blocks_needed_covers:
  assumes "0 < mss" "0 \<le> len"
  shows "0 \<le> blocks_needed mss len" "len \<le> blocks_needed mss len * mss"
proof -
  show "0 \<le> blocks_needed mss len"
    using assms by (simp add: blocks_needed_def pos_imp_zdiv_nonneg_iff)
  have b: "blocks_needed mss len * mss = mss * (len div mss) + (if len mod mss \<noteq> 0 then mss else 0)"
    using assms by (simp add: blocks_needed_def algebra_simps)
  have "mss * (len div mss) + len mod mss = len" "len mod mss < mss"
    using assms by simp_all
  moreover define q r where "q = mss * (len div mss)" and "r = len mod mss"
  ultimately have "q + r = len" "r < mss" by simp_all
  then show "len \<le> blocks_needed mss len * mss"
    unfolding b q_def [symmetric] r_def [symmetric] by auto
qed

text \<open>addBuffer as the operation on the queue it implements.\<close>

lemma addBuffer_represents:
  assumes rep: "represents sb Q" and mss: "0 < sb_mss sb" "sb_mss sb \<le> int (m_iBlockSize sb)"
  obtains sb' E where "addBuffer data ttl order time sb = Inr sb'" "represents sb' (Q @ E)"
    "concat (map fst E) = data" "\<And>e. e \<in> set E \<Longrightarrow> int (length (fst e)) \<le> sb_mss sb"
    "int (length E) = blocks_needed (sb_mss sb) (int (length data))"
    "E = chunk_entries (nat (blocks_needed (sb_mss sb) (int (length data)))) 0 data order time ttl
           (m_iNextMsgNo sb) (nat (sb_mss sb))"
proof -
  obtain L B where fill: "sb_fill sb L B Q" "sb_count sb = int (length Q)" "m_pLastBlock sb = L ! length Q"
    using rep by (auto simp: represents_def)
  define n where "n = blocks_needed (sb_mss sb) (int (length data))"
  have n: "0 \<le> n" "int (length data) \<le> n * sb_mss sb"
    using blocks_needed_covers [OF mss(1), of "int (length data)"] by (simp_all add: n_def)
  obtain sb1 L' B' where g: "grow (grow_fuel n sb) n sb = Inr sb1" "sb_fill sb1 L' B' Q"
    "n + int (length Q) < int (length L')" "sb_count sb1 = int (length Q)"
    "m_pLastBlock sb1 = L' ! length Q" "sb_mss sb1 = sb_mss sb" "m_iBlockSize sb1 = m_iBlockSize sb"
    "m_iNextMsgNo sb1 = m_iNextMsgNo sb"
    by (rule grow_fill [OF fill order_refl])
  define E where "E = chunk_entries (nat n) 0 data order time ttl (m_iNextMsgNo sb1) (nat (sb_mss sb1))"
  obtain sb2 where a: "add_loop (nat n) 0 data order time ttl (L' ! length Q) sb1 = Inr (L' ! (length Q + nat n), sb2)"
    "sb_fill sb2 L' B' (Q @ E)" "sb_mss sb2 = sb_mss sb1" "m_iBlockSize sb2 = m_iBlockSize sb1"
    "sb_count sb2 = sb_count sb1"
    unfolding E_def by (rule add_loop_fill [OF g(2), of "nat n"]) (use g n mss in auto)
  define sb3 where "sb3 = sb2\<lparr> m_pLastBlock := L' ! (length Q + nat n), sb_count := sb_count sb2 + n \<rparr>"
  have fields: "sb_blocks sb3 = sb_blocks sb2" "sb_buffers sb3 = sb_buffers sb2"
      "sb_size sb3 = sb_size sb2" "m_pFirstBlock sb3 = m_pFirstBlock sb2" "FirstBuffer sb3 = FirstBuffer sb2"
      "bufferEnder sb3 = bufferEnder sb2" "FirstBlock sb3 = FirstBlock sb2" "unit_size sb3 = unit_size sb2"
    by (simp_all add: sb3_def unit_size_def)
  have fill3: "sb_fill sb3 L' B' (Q @ E)"
    using a(2) unfolding sb_fill_def sb_ring_def fields .
  have "represents sb3 (Q @ E)"
    unfolding represents_def using fill3 a(5) g(4) n(1)
    by (intro exI [of _ L'] exI [of _ B']) (simp add: sb3_def E_def)
  moreover have "addBuffer data ttl order time sb = Inr sb3"
    using mss(1) g(1,5) a(1) by (simp add: addBuffer_def n_def [symmetric] Let_def sb3_def)
  moreover have "length data \<le> nat n * nat (sb_mss sb1)"
    using n mss(1) g(6) by (simp add: nat_mult_distrib [symmetric])
  then have "concat (map fst E) = data" unfolding E_def by (rule concat_chunk_entries)
  moreover have "int (length (fst e)) \<le> sb_mss sb" if "e \<in> set E" for e
    using chunk_entries_bounded [OF that [unfolded E_def]] mss(1) g(6) by simp
  moreover have "int (length E) = n" using n(1) by (simp add: E_def)
  moreover have "E = chunk_entries (nat n) 0 data order time ttl (m_iNextMsgNo sb) (nat (sb_mss sb))"
    by (simp add: E_def g)
  ultimately show ?thesis using that [of sb3 E] unfolding n_def by blast
qed


lemma ackData_represents:
  assumes rep: "represents sb Q" and n: "n \<le> length Q"
  shows "represents (ackData n sb) (drop n Q)"
proof -
  obtain L B where fill: "sb_fill sb L B Q" and cnt: "sb_count sb = int (length Q)"
    and last: "m_pLastBlock sb = L ! length Q"
    using rep by (auto simp: represents_def)
  have ring: "sb_ring sb L B" and room: "length Q < length L"
    and holds: "\<And>i. i < length Q \<Longrightarrow> block_holds (sb_blocks sb ! (L ! i)) (Q ! i)"
    using fill by (simp_all add: sb_fill_def)
  have same: "sb_blocks (ackData n sb) = sb_blocks sb" "m_pLastBlock (ackData n sb) = m_pLastBlock sb"
      "sb_count (ackData n sb) = sb_count sb - int n"
    by (simp_all add: ackData_def split: prod.split)
  have idx: "rotate n L ! i = L ! (n + i)" if "n + i < length L" for i
    using that by (simp add: nth_rotate)
  have "sb_fill (ackData n sb) (rotate n L) (rotate ((FirstBlock sb + n) div unit_size sb) B) (drop n Q)"
    unfolding sb_fill_def using ackData_ring [OF ring] room n holds idx
    by (auto simp: same)
  moreover have "m_pLastBlock (ackData n sb) = rotate n L ! length (drop n Q)"
    using idx [of "length Q - n"] n room by (simp add: same last)
  ultimately show ?thesis
    unfolding represents_def using cnt n
    by (intro exI [of _ "rotate n L"] exI [of _ "rotate ((FirstBlock sb + n) div unit_size sb) B"])
      (simp add: same)
qed

lemma readData_at_represents:
  assumes rep: "represents sb Q" and i: "i < length Q" and Q: "Q ! i = (bytes, msgno, origin, ttl)"
    and live: "ttl < 0 \<or> u64 (time - origin) div 1000 \<le> ttl"
  shows "\<exists>data. readData_at time i sb = Inr ((int (length bytes), msgno, 0, data), sb)
    \<and> take (length bytes) data = bytes"
proof -
  obtain L B where fill: "sb_fill sb L B Q" using rep by (auto simp: represents_def)
  then have ring: "sb_ring sb L B" and room: "length Q < length L"
    and holds: "block_holds (sb_blocks sb ! (L ! i)) (Q ! i)"
    using i by (simp_all add: sb_fill_def)
  have p: "snd (snd (locate sb i)) = L ! i"
    using locate_walks(2) [OF ring, of i] i room by simp
  show ?thesis
    using holds live by (auto simp: readData_at_def p Let_def block_holds_def Q)
qed

subsection \<open>Properties\<close>

text \<open>C31: the sending buffer refines a queue.  Adding data never fails and appends blocks of at
  most m\_iMSS bytes whose concatenation is the data, whatever growing it takes; acknowledging n
  blocks removes the first n; reading at an offset finds the block of that rank.\<close>

theorem snd_buffer_refines_queue:
  assumes "represents sb Q" "0 < sb_mss sb" "sb_mss sb \<le> int (m_iBlockSize sb)"
    and "n \<le> length Q" "i < length Q" "Q ! i = (bytes, msgno, origin, -1)"
  shows "(\<exists>sb' E. addBuffer data ttl order time sb = Inr sb' \<and> represents sb' (Q @ E)
        \<and> concat (map fst E) = data \<and> list_all (\<lambda>e. int (length (fst e)) \<le> sb_mss sb) E
        \<and> getCurrBufSize sb' = getCurrBufSize sb + blocks_needed (sb_mss sb) (int (length data)))
    \<and> represents (ackData n sb) (drop n Q)
    \<and> (\<exists>area. readData_at time i sb = Inr ((int (length bytes), msgno, 0, area), sb)
        \<and> take (length bytes) area = bytes)"
proof (intro conjI)
  have count: "getCurrBufSize sb = int (length Q)" if "represents sb Q" for sb Q
    using that by (auto simp: represents_def getCurrBufSize_def)
  obtain sb' E where "addBuffer data ttl order time sb = Inr sb'" "represents sb' (Q @ E)"
    "concat (map fst E) = data" "\<And>e. e \<in> set E \<Longrightarrow> int (length (fst e)) \<le> sb_mss sb"
    "int (length E) = blocks_needed (sb_mss sb) (int (length data))"
    using addBuffer_represents [OF assms(1-3), of data ttl order time] by blast
  then show "\<exists>sb' E. addBuffer data ttl order time sb = Inr sb' \<and> represents sb' (Q @ E)
      \<and> concat (map fst E) = data \<and> list_all (\<lambda>e. int (length (fst e)) \<le> sb_mss sb) E
      \<and> getCurrBufSize sb' = getCurrBufSize sb + blocks_needed (sb_mss sb) (int (length data))"
    using count assms(1) by (intro exI [of _ sb'] exI [of _ E]) (simp add: list_all_iff)
  show "represents (ackData n sb) (drop n Q)"
    using ackData_represents [OF assms(1,4)] .
  show "\<exists>area. readData_at time i sb = Inr ((int (length bytes), msgno, 0, area), sb)
        \<and> take (length bytes) area = bytes"
    using readData_at_represents [OF assms(1,5,6)] by simp
qed

text \<open>A buffer of two blocks after three bytes were added in blocks of two.\<close>

definition sample_snd_buffer :: snd_buffer where
  "sample_snd_buffer = (case addBuffer [1, 2, 3] (-1) False 5 (snd_buffer_new 2 2) of
     Inr sb \<Rightarrow> sb | Inl e \<Rightarrow> snd_buffer_new 2 2)"

lemma sample_snd_buffer:
  "represents sample_snd_buffer (chunk_entries 2 0 [1, 2, 3] False 5 (-1) 1 2)"
proof -
  have new: "represents (snd_buffer_new 2 2) []" "0 < sb_mss (snd_buffer_new 2 2)"
    "sb_mss (snd_buffer_new 2 2) \<le> int (m_iBlockSize (snd_buffer_new 2 2))"
    by (simp_all add: represents_new) (simp_all add: snd_buffer_new_def)
  obtain sb' where "addBuffer [1, 2, 3] (-1) False 5 (snd_buffer_new 2 2) = Inr sb'"
    "represents sb' ([] @ chunk_entries (nat (blocks_needed 2 3)) 0 [1, 2, 3] False 5 (-1) 1 2)"
    by (rule addBuffer_represents [OF new, of "[1, 2, 3]" "-1" False 5]) (simp add: snd_buffer_new_def)
  then show ?thesis by (simp add: sample_snd_buffer_def blocks_needed_def)
qed

theorem snd_buffer_refines_queue_witness:
  "represents (ackData 1 sample_snd_buffer) [([3], msgno_word 2 False False True, 5, -1)]
    \<and> (\<exists>area. readData_at 9 1 sample_snd_buffer = Inr ((1, msgno_word 2 False False True, 0, area), sample_snd_buffer)
         \<and> take 1 area = [3])"
proof -
  have "0 < sb_mss sample_snd_buffer" "sb_mss sample_snd_buffer \<le> int (m_iBlockSize sample_snd_buffer)"
    by code_simp+
  then show ?thesis
    using snd_buffer_refines_queue [OF sample_snd_buffer, where n = 1 and i = 1 and bytes = "[3]"
        and msgno = "msgno_word 2 False False True" and origin = 5 and time = 9]
    by (simp add: eval_nat_numeral)
qed

text \<open>The walk of ackData over the physical buffers ends at the block that as many steps along
  m\_pNext reach from the first one, for every offset, on every buffer the operations can build:
  what the commented-out check in the code compares.\<close>

theorem ackData_follows_links:
  assumes "represents sb Q"
  shows "m_pFirstBlock (ackData n sb) = (next_block sb ^^ n) (m_pFirstBlock sb)"
proof -
  obtain L B where "sb_ring sb L B" using assms by (auto simp: represents_def sb_fill_def)
  then show ?thesis
    using locate_walks(1) [of sb L B n] by (cases "locate sb n") (simp add: ackData_def)
qed

theorem ackData_follows_links_witness:
  "m_pFirstBlock (ackData 3 (snd_buffer_new 2 10)) = (next_block (snd_buffer_new 2 10) ^^ 3) (m_pFirstBlock (snd_buffer_new 2 10))"
  by (rule ackData_follows_links [OF represents_new]) simp

text \<open>A file that ends before the requested length leaves the buffer inconsistent:
  addBufferFromFile counts the blocks it was to fill, not those it filled, and no queue
  describes the buffer any more.\<close>

theorem short_file_breaks_count:
  assumes "represents sb Q" "0 < sb_mss sb" "0 < len"
  shows "\<exists>sb'. addBufferFromFile eof [] len sb = Inr (0, sb')
    \<and> getCurrBufSize sb' = getCurrBufSize sb + blocks_needed (sb_mss sb) len
    \<and> (\<forall>Q'. \<not> represents sb' Q')"
proof -
  obtain L B where fill: "sb_fill sb L B Q" "sb_count sb = int (length Q)" "m_pLastBlock sb = L ! length Q"
    using assms(1) by (auto simp: represents_def)
  define n where "n = blocks_needed (sb_mss sb) len"
  have "len \<le> n * sb_mss sb" "0 \<le> n"
    using blocks_needed_covers [OF assms(2), of len] assms(3) by (simp_all add: n_def)
  then have n: "0 < n" using assms(3) by (cases "n = 0") auto
  obtain sb1 L' B' where g: "grow (grow_fuel n sb) n sb = Inr sb1" "sb_fill sb1 L' B' Q"
    "n + int (length Q) < int (length L')" "sb_count sb1 = int (length Q)"
    "m_pLastBlock sb1 = L' ! length Q"
    by (rule grow_fill [OF fill order_refl])
  define sb2 where "sb2 = sb1\<lparr> sb_count := sb_count sb1 + n \<rparr>"
  have "file_loop (nat n) eof len [] s sb1 = Inr (s, 0, sb1)" for s
    by (cases "nat n") (simp_all add: Let_def)
  then have run: "addBufferFromFile eof [] len sb = Inr (0, sb2)"
    using assms(2) g(1) by (simp add: addBufferFromFile_def n_def [symmetric] Let_def sb2_def)
  have ring: "sb_ring sb1 L' B'" using g(2) by (simp add: sb_fill_def)
  have "\<not> represents sb2 Q'" for Q'
  proof
    assume "represents sb2 Q'"
    then obtain L2 B2 where *: "sb_ring sb2 L2 B2" "length Q' < length L2"
      "sb_count sb2 = int (length Q')" "m_pLastBlock sb2 = L2 ! length Q'"
      by (auto simp: represents_def sb_fill_def)
    have len: "length Q' = length Q + nat n" using *(3) g(4) n by (simp add: sb2_def)
    have "L2 ! length Q' = (next_block sb2 ^^ length Q') (m_pFirstBlock sb2)"
      using locate_walks(1,2) [OF *(1), of "length Q'"] *(2) by simp
    also have "\<dots> = (next_block sb1 ^^ length Q') (m_pFirstBlock sb1)" by (simp add: sb2_def)
    also have "\<dots> = L' ! length Q'"
      using locate_walks(1,2) [OF ring, of "length Q'"] g(3) len n
        mod_less [of "length Q'" "length L'"] by (simp del: mod_less)
    finally have "L' ! length Q' = L' ! length Q" using *(4) g(5) by (simp add: sb2_def)
    moreover have "distinct L'" using sb_ringD(5) [OF ring] by (simp add: circle_def)
    ultimately have "length Q' = length Q"
      using g(3) len n by (simp add: nth_eq_iff_index_eq)
    then show False using len n by simp
  qed
  moreover have "getCurrBufSize sb2 = getCurrBufSize sb + n"
    using g(4) fill(2) by (simp add: getCurrBufSize_def sb2_def)
  ultimately show ?thesis using run unfolding n_def by blast
qed

theorem short_file_breaks_count_witness:
  "\<exists>sb'. addBufferFromFile False [] 10 (snd_buffer_new 2 10) = Inr (0, sb')
    \<and> getCurrBufSize sb' = getCurrBufSize (snd_buffer_new 2 10) + blocks_needed (sb_mss (snd_buffer_new 2 10)) 10
    \<and> (\<forall>Q'. \<not> represents sb' Q')"
  by (rule short_file_breaks_count [OF represents_new]) (simp_all add: snd_buffer_new_def)

end
