(* ===== verification/Udt_Sender.thy ===== *)
theory Udt_Sender
  imports Seq_No Vivace_Sender Packet_Tracker Packet_Format Snd_Buffer
begin

text \<open>The sending half of a connection (class CUDT, core/core.h and core/core.cpp): open, send,
  packData with the pacing of GetSendingInterval, ProcessAck, add\_to\_loss\_record, checkTimers,
  sendCtrl and resizeMSS.  The state holds the members these operations use; it contains a
  packet tracker, a send buffer and a congestion controller.

  The controller is called through public methods of PccSender, whose behaviour depends on the
  class of the object.  The record \<open>pcc_ops\<close> holds these methods, and the locale
  \<open>rate_controller\<close> states what the connection relies on; it is interpreted by the Allegro and
  the Vivace sender.

  Readings of the clocks (rdtsc, gettimeofday, clock\_gettime) and of rand are numbered within
  an operation and given by the record \<open>readings\<close>.  Two threads call these operations; the lock
  pcc\_sender\_lock makes each a step, so runs are sequences of operations (\<open>udt_step\<close>).  The
  position of the socket on the list of the sender thread is the flag \<open>u_on_snd_list\<close>, and the
  packets handed to the channel are collected in \<open>u_sent\<close>.\<close>

subsection \<open>The congestion controller\<close>

record 's pcc_ops =
  pcc_CanSend :: "'s \<Rightarrow> int \<Rightarrow> bool"
  pcc_PacingRate :: "'s \<Rightarrow> int \<Rightarrow> quic_bandwidth outcome"
  pcc_OnPacketSent :: "int \<Rightarrow> quic_time \<Rightarrow> int \<Rightarrow> int \<Rightarrow> 's \<Rightarrow> 's outcome"
  pcc_OnCongestionEvent ::
    "bool \<Rightarrow> quic_delta \<Rightarrow> quic_time \<Rightarrow> acked_packet list \<Rightarrow> lost_packet list \<Rightarrow> 's \<Rightarrow> 's outcome"

definition allegro_ops :: "platform \<Rightarrow> pcc_sender pcc_ops" where
  "allegro_ops pf =
     \<lparr> pcc_CanSend = CanSend, pcc_PacingRate = PacingRate,
       pcc_OnPacketSent = sender_OnPacketSent pf (GetSendingRateForNonUsefulInterval pf),
       pcc_OnCongestionEvent =
         sender_OnCongestionEvent pf (sender_OnUtilityAvailable pf CanMakeDecision) \<rparr>"

definition vivace_ops :: "platform \<Rightarrow> vivace_sender pcc_ops" where
  "vivace_ops pf =
     \<lparr> pcc_CanSend = CanSend, pcc_PacingRate = PacingRate,
       pcc_OnPacketSent = sender_OnPacketSent pf vivace_GetSendingRateForNonUsefulInterval,
       pcc_OnCongestionEvent = sender_OnCongestionEvent pf (vivace_OnUtilityAvailable pf) \<rparr>"

subsection \<open>The state of a connection\<close>

record readings =
  rd_tsc :: "nat \<Rightarrow> int"
  rd_us :: "nat \<Rightarrow> int"
  rd_mono :: "nat \<Rightarrow> timespec"
  rd_rand :: int

record 's udt =
  u_packet_tracker :: packet_tracker
  u_pcc_sender :: 's
  u_pSndBuffer :: snd_buffer
  u_BytesInFlight :: int
  u_iRTT :: fp
  u_iRTTVar :: fp
  u_iSndLastDataAck :: int
  u_iSndCurrSeqNo :: int
  u_ullTimeDiff :: int
  u_ullTargetTime :: int
  u_ullCPUFrequency :: int
  u_iMSS :: int
  u_iPktSize :: int
  u_iPayloadSize :: int
  u_iSndBufSize :: int
  u_StartTime :: int
  u_PeerID :: int
  u_llSentTotal :: int
  u_llTraceSent :: int
  u_TotalBytes :: int
  u_iSndLossTotal :: int
  u_iTraceRetrans :: int
  u_iRetransTotal :: int
  u_iRecvACK :: int
  u_iRecvACKTotal :: int
  u_llSndDurationCounter :: int
  u_dgram :: bool
  u_bConnected :: bool
  u_bClosing :: bool
  u_bBroken :: bool
  u_bPeerHealth :: bool
  u_bSynSending :: bool
  u_iSndTimeOut :: int
  u_iBrokenCounter :: int
  u_on_snd_list :: bool
  u_epoll_write :: bool
  u_epoll_read :: bool
  u_iEXPCount :: int
  u_ullLastRspTime :: int
  u_ullNextACKTime :: int
  u_ullNextNAKTime :: int
  u_ullACKInt :: int
  u_ullNAKInt :: int
  u_ullMinExpInt :: int
  u_iPktCount :: int
  u_iLightACKCount :: int
  u_iLastDecSeq :: int
  u_ullLastWarningTime :: int
  u_bShutdown :: bool
  u_bRendezvous :: bool
  u_iISN :: int
  u_iFlightFlagSize :: int
  u_SocketID :: int
  u_iRcvPayloadSize :: int
  u_sent :: "cpacket list"

definition m_iSYNInterval :: int where "m_iSYNInterval = 1000000"
definition m_iSelfClockInterval :: int where "m_iSelfClockInterval = 64"

text \<open>Conversions of the platform: double to uint64\_t, and the two directions of int64\_t and
  uint64\_t to double or float.\<close>

definition fp_to_u64 :: "platform \<Rightarrow> fp \<Rightarrow> int" where
  "fp_to_u64 pf x = (case x of
     Fin a \<Rightarrow> if 0 \<le> truncate_rat a \<and> truncate_rat a < 18446744073709551616 then truncate_rat a
              else u64 (pf_bad_cast pf x)
   | _ \<Rightarrow> u64 (pf_bad_cast pf x))"

lemma fp_to_u64_nonneg: "0 \<le> fp_to_u64 pf x"
  by (cases x) (simp_all add: fp_to_u64_def)

abbreviation dbl :: "int \<Rightarrow> fp" where "dbl \<equiv> fp_of_int B64"
abbreviation d_add :: "fp \<Rightarrow> fp \<Rightarrow> fp" where "d_add \<equiv> fp_add B64"
abbreviation d_sub :: "fp \<Rightarrow> fp \<Rightarrow> fp" where "d_sub \<equiv> fp_sub B64"
abbreviation d_mul :: "fp \<Rightarrow> fp \<Rightarrow> fp" where "d_mul \<equiv> fp_mul B64"
abbreviation d_div :: "fp \<Rightarrow> fp \<Rightarrow> fp" where "d_div \<equiv> fp_div B64"

text \<open>open resets the counters, the RTT and the timers; the members it does not mention keep
  their value.\<close>

definition udt_open :: "readings \<Rightarrow> int \<Rightarrow> 's udt \<Rightarrow> 's udt" where
  "udt_open rd frequency u0 =
     (let pkt = i32 (u_iMSS u0 - 28); now = rd_tsc rd 0;
          syn = u64 (m_iSYNInterval * frequency); min_nak = u64 (410000 * frequency);
          rtt = dbl (10 * m_iSYNInterval) in
      u0\<lparr> u_iPktSize := pkt, u_iPayloadSize := i32 (pkt - m_iPktHdrSize),
          u_iRcvPayloadSize := i32 (pkt - m_iPktHdrSize),
          u_iEXPCount := 1, u_StartTime := rd_us rd 0,
          u_TotalBytes := 0, u_llSentTotal := 0, u_iSndLossTotal := 0,
          u_iRetransTotal := 0, u_iRecvACKTotal := 0, u_BytesInFlight := 0,
          u_llTraceSent := 0, u_iTraceRetrans := 0, u_iRecvACK := 0,
          u_on_snd_list := False, u_iRTT := rtt, u_iRTTVar := d_div rtt (Fin 2),
          u_ullCPUFrequency := frequency, u_ullMinExpInt := min_nak,
          u_ullACKInt := syn, u_ullNAKInt := min_nak,
          u_ullLastRspTime := now, u_ullNextACKTime := u64 (now + syn),
          u_ullNextNAKTime := u64 (now + min_nak), u_iPktCount := 0, u_iLightACKCount := 1,
          u_ullTargetTime := 0, u_ullTimeDiff := 0 \<rparr>)"

subsection \<open>Control packets\<close>

definition set_header :: "nat \<Rightarrow> int \<Rightarrow> cpacket \<Rightarrow> cpacket" where
  "set_header i v p = p\<lparr> pk_header := (pk_header p)[i := word_of_int v] \<rparr>"

definition send_packet :: "cpacket \<Rightarrow> 's udt \<Rightarrow> 's udt" where
  "send_packet p u = u\<lparr> u_sent := u_sent u @ [p] \<rparr>"

text \<open>The acknowledgement of one packet: sequence number as data, message number in the header.\<close>

definition SendAck :: "int \<Rightarrow> int \<Rightarrow> 's udt \<Rightarrow> 's udt outcome" where
  "SendAck seq_no msg_no u =
     map_outcome (\<lambda>p. send_packet (set_header 1 msg_no (set_header 3 (u_PeerID u) p)) u)
       (pack 2 None (Some (word_bytes (word_of_int seq_no))) 4 packet_new)"

definition sendCtrl ::
  "readings \<Rightarrow> int \<Rightarrow> 32 word option \<Rightarrow> byte list option \<Rightarrow> int \<Rightarrow> 's udt \<Rightarrow> 's udt outcome" where
  "sendCtrl rd pkttype lparam rparam sz u =
     (let packed = (\<lambda>lp rp n. map_outcome (\<lambda>p. send_packet (set_header 3 (u_PeerID u) p) u)
                                 (pack pkttype lp rp n packet_new)) in
      if pkttype = 2 then Inl Assert_Failed
      else if pkttype = 6 then packed lparam None 0
      else if pkttype = 3 then Inl Assert_Failed
      else if pkttype = 4
      then map_outcome (\<lambda>u1. u1\<lparr> u_ullLastWarningTime := rd_tsc rd 0 \<rparr>) (packed None None 0)
      else if pkttype = 1 then packed None None 0
      else if pkttype = 0 then packed None rparam 48
      else if pkttype = 5 then packed None None 0
      else if pkttype = 7 then packed lparam rparam 8
      else if pkttype = 8 then packed lparam None 0
      else if pkttype = 32767 \<and> rparam \<noteq> None then packed None rparam sz
      else Inr u)"

definition udt_resizeMSS :: "readings \<Rightarrow> int \<Rightarrow> 's udt \<Rightarrow> 's udt outcome" where
  "udt_resizeMSS rd mss u =
     (let pkt = i32 (mss - 28); payload = i32 (pkt - m_iPktHdrSize) in
      map_outcome (\<lambda>sb. u\<lparr> u_iMSS := mss, u_iPktSize := pkt, u_iPayloadSize := payload,
                          u_pSndBuffer := sb \<rparr>)
        (resizeMSS payload (rd_us rd 0) (u_pSndBuffer u)))"


subsection \<open>Sending data\<close>

text \<open>The user's data is cut into packets of the payload size, which are queued in the tracker
  under consecutive sequence numbers.  With a payload size below one the loop does not end; the
  fuel is the number of bytes.\<close>

definition GetNextSeqNo :: "'s udt \<Rightarrow> int \<times> 's udt" where
  "GetNextSeqNo u = (let s = incseq (u_iSndCurrSeqNo u) in (s, u\<lparr> u_iSndCurrSeqNo := s \<rparr>))"

primrec enqueue_data :: "nat \<Rightarrow> byte list \<Rightarrow> 's udt \<Rightarrow> 's udt outcome" where
  "enqueue_data 0 data u = (if data = [] then Inr u else Inl Diverges)"
| "enqueue_data (Suc fuel) data u =
     (if data = [] then Inr u
      else let n = nat (u_iPayloadSize u); (s, u1) = GetNextSeqNo u in
           bind_outcome (EnqueuePacket s (map uint (take n data)) (u_packet_tracker u1))
             (\<lambda>t. enqueue_data fuel (drop n data) (u1\<lparr> u_packet_tracker := t \<rparr>)))"

text \<open>addBuffer with the signed size of send: a negative size (a multiple of the payload size)
  adds no block but lowers the count.\<close>

definition add_signed :: "byte list \<Rightarrow> int \<Rightarrow> int \<Rightarrow> snd_buffer \<Rightarrow> snd_buffer outcome" where
  "add_signed data sz time sb =
     (if 0 \<le> sz then addBuffer (take (nat sz) data) (-1) False time sb
      else guard_outcome Div_By_Zero (sb_mss sb \<noteq> 0)
        (guard_outcome Out_Of_Bounds (cmod sz (sb_mss sb) = 0)
          (let n = cdiv sz (sb_mss sb) in
           map_outcome (\<lambda>sb1. sb1\<lparr> sb_count := sb_count sb1 + n \<rparr>) (grow (grow_fuel n sb) n sb))))"

definition check_connected :: "'s udt \<Rightarrow> 'b outcome \<Rightarrow> 'b outcome" where
  "check_connected u r =
     (if u_bBroken u \<or> u_bClosing u then Inl (Udt_Error 2 1)
      else if \<not> u_bConnected u then Inl (Udt_Error 2 2)
      else r)"

text \<open>Waiting for space: \<open>waited\<close> is the state in which the wait on the condition variable ends.\<close>

definition await_space :: "('s udt \<Rightarrow> 's udt) \<Rightarrow> 's udt \<Rightarrow> ('s udt \<Rightarrow> 'b outcome) \<Rightarrow> 'b outcome" where
  "await_space waited u k =
     (if CanEnqueuePacket (u_packet_tracker u) then k u
      else if \<not> u_bSynSending u then Inl (Udt_Error 6 1)
      else let u1 = waited u in
           check_connected u1 (if \<not> u_bPeerHealth u1 then Inl (Udt_Error 7 0) else k u1))"

definition buffer_room :: "int \<Rightarrow> 's udt \<Rightarrow> int" where
  "buffer_room len u =
     (let size = i32 (i32 (u_iSndBufSize u - getCurrBufSize (u_pSndBuffer u)) * u_iPayloadSize u)
      in if size > len then len else size)"

text \<open>The queued data also goes into the send buffer, as far as there is room.\<close>

definition finish_send :: "readings \<Rightarrow> byte list \<Rightarrow> int \<Rightarrow> 's udt \<Rightarrow> (int \<times> 's udt) outcome" where
  "finish_send rd data len u2 =
     (let size = buffer_room len u2;
          u3 = (if getCurrBufSize (u_pSndBuffer u2) = 0
                then u2\<lparr> u_llSndDurationCounter := i64 (rd_us rd 0) \<rparr> else u2) in
      map_outcome (\<lambda>sb.
          (size, u3\<lparr> u_pSndBuffer := sb, u_on_snd_list := True,
                     u_epoll_write := (if u_iSndBufSize u3 \<le> getCurrBufSize sb
                                       then False else u_epoll_write u3) \<rparr>))
        (add_signed data size (rd_us rd 1) (u_pSndBuffer u3)))"

definition udt_send ::
  "('s udt \<Rightarrow> 's udt) \<Rightarrow> readings \<Rightarrow> byte list \<Rightarrow> int \<Rightarrow> 's udt \<Rightarrow> (int \<times> 's udt) outcome" where
  "udt_send waited rd data len u0 =
     (if u_dgram u0 then Inl (Udt_Error 5 10)
      else check_connected u0
        (if len \<le> 0 then Inr (0, u0)
         else await_space waited u0 (\<lambda>u1.
           if \<not> CanEnqueuePacket (u_packet_tracker u1)
           then (if u_iSndTimeOut u1 \<ge> 0 then Inl (Udt_Error 6 1) else Inr (0, u1))
           else bind_outcome
             (guard_outcome Out_Of_Bounds (nat len \<le> length data)
                (enqueue_data (nat len) (take (nat len) data) u1)) (finish_send rd data len))))"

subsection \<open>Pacing and packData\<close>

definition GetSendingInterval :: "platform \<Rightarrow> 's pcc_ops \<Rightarrow> 's udt \<Rightarrow> int outcome" where
  "GetSendingInterval pf ops u =
     map_outcome (\<lambda>rate.
         fp_to_u64 pf (d_div
           (fp_mul B32 (fp_mul B32 (fp_of_int B32 (u64 (u_ullCPUFrequency u * u_iMSS u))) (Fin 8))
              (Fin 1000000))
           (dbl rate)))
       (pcc_PacingRate ops (u_pcc_sender u) 0)"

text \<open>The time of the next transmission: the controller's interval after this one, less the
  delay that has accumulated.\<close>

definition pace :: "int \<Rightarrow> int \<Rightarrow> 's udt \<Rightarrow> int \<times> 's udt" where
  "pace entertime interval u =
     (if u_ullTimeDiff u \<ge> interval
      then (entertime, u\<lparr> u_ullTimeDiff := i64 (u_ullTimeDiff u - interval),
                          u_ullTargetTime := i64 entertime \<rparr>)
      else let ts = u64 (entertime + interval - u_ullTimeDiff u) in
           (ts, u\<lparr> u_ullTimeDiff := 0, u_ullTargetTime := i64 ts \<rparr>))"

definition note_delay :: "int \<Rightarrow> 's udt \<Rightarrow> 's udt" where
  "note_delay entertime u =
     (if u_ullTargetTime u \<noteq> 0
      then u\<lparr> u_ullTimeDiff := i64 (u_ullTimeDiff u + (i64 entertime - u_ullTargetTime u)) \<rparr> else u)"

text \<open>The choice of the packet, with the counters and the bytes in flight.\<close>

definition choose_packet :: "'s udt \<Rightarrow> int option \<times> 's udt" where
  "choose_packet u =
     (case HasRetransmittablePackets (u_packet_tracker u) of (r, t1) \<Rightarrow>
        if r then
          (case GetLowestRetransmittableSeqNo t1 of (s, t2) \<Rightarrow>
             (Some s, u\<lparr> u_packet_tracker := t2, u_iTraceRetrans := i32 (u_iTraceRetrans u + 1),
                         u_iRetransTotal := i32 (u_iRetransTotal u + 1) \<rparr>))
        else
          (case HasSendablePackets t1 of (b, t2) \<Rightarrow>
             if b then
               (case GetLowestSendableSeqNo t2 of (s, t3) \<Rightarrow>
                  (Some s, u\<lparr> u_packet_tracker := t3,
                     u_BytesInFlight := i64 (u_BytesInFlight u + GetPacketSize s t3) \<rparr>))
             else (None, u\<lparr> u_packet_tracker := t2 \<rparr>)))"

definition data_packet ::
  "int \<Rightarrow> int \<Rightarrow> int list \<Rightarrow> int \<Rightarrow> int \<Rightarrow> int \<Rightarrow> cpacket \<Rightarrow> cpacket" where
  "data_packet seq_no msg_no payload sz stamp peer p =
     setLength sz
       (set_header 3 peer (set_header 2 stamp (set_header 1 msg_no (set_header 0 seq_no
          (p\<lparr> pk_data := Some (map word_of_int payload) \<rparr>)))))"

definition packData ::
  "platform \<Rightarrow> 's pcc_ops \<Rightarrow> readings \<Rightarrow> cpacket \<Rightarrow> int \<Rightarrow> 's udt
     \<Rightarrow> (int \<times> cpacket \<times> int \<times> 's udt) outcome" where
  "packData pf ops rd packet ts0 u0 =
     (let entertime = rd_tsc rd 0; u = note_delay entertime u0 in
      if \<not> pcc_CanSend ops (u_pcc_sender u) (u_BytesInFlight u)
      then Inr (0, packet, entertime, u\<lparr> u_ullTimeDiff := 0, u_ullTargetTime := i64 entertime \<rparr>)
      else case choose_packet u of
        (None, u1) \<Rightarrow> Inr (0, packet, ts0, u1)
      | (Some s, u1) \<Rightarrow>
          let payload = GetPacketSize s (u_packet_tracker u1);
              msg_no = i32 (GetPacketLastMsgNo s (u_packet_tracker u1) + 1) in
          bind_outcome (transmit (rd_mono rd 0) s (u_packet_tracker u1)) (\<lambda>(bytes, pkt_id, t).
          bind_outcome (pcc_OnPacketSent ops (rd_rand rd) (i64 (rd_us rd 0)) pkt_id (u64 payload)
                          (u_pcc_sender u1)) (\<lambda>pcc.
          let u2 = u1\<lparr> u_packet_tracker := t, u_llSentTotal := i64 (u_llSentTotal u1 + 1),
                       u_llTraceSent := i64 (u_llTraceSent u1 + 1), u_pcc_sender := pcc \<rparr>;
              p = data_packet s msg_no bytes payload (i32 (rd_us rd 1 - u_StartTime u2))
                    (u_PeerID u2) packet in
          map_outcome (\<lambda>interval.
              case pace entertime (i64 interval) u2 of (ts, u3) \<Rightarrow>
                (payload, p, ts, u3\<lparr> u_TotalBytes := i64 (u_TotalBytes u3 + payload) \<rparr>))
            (GetSendingInterval pf ops u2))))"


subsection \<open>Acknowledgements and losses\<close>

definition lost_of :: "packet_tracker \<Rightarrow> int \<Rightarrow> lost_packet outcome" where
  "lost_of t seq_no =
     map_outcome (\<lambda>pkt_id. \<lparr> lp_packet_number = pkt_id, lp_bytes_lost = u64 (GetPacketSize seq_no t) \<rparr>)
       (GetPacketId seq_no (GetPacketLastMsgNo seq_no t) t)"

text \<open>The loop of add\_to\_loss\_record from loss1 on, over the given number of packets.\<close>

primrec mark_lost :: "nat \<Rightarrow> int \<Rightarrow> 's udt \<Rightarrow> (lost_packet list \<times> 's udt) outcome" where
  "mark_lost 0 loss u = Inr ([], u)"
| "mark_lost (Suc n) loss u =
     bind_outcome (lost_of (u_packet_tracker u) loss) (\<lambda>l.
     bind_outcome (OnPacketLoss loss (GetPacketLastMsgNo loss (u_packet_tracker u)) (u_packet_tracker u))
       (\<lambda>t. map_outcome (\<lambda>(ls, u'). (l # ls, u'))
              (mark_lost n (loss + 1) (u\<lparr> u_packet_tracker := t,
                                         u_iSndLossTotal := i32 (u_iSndLossTotal u + 1) \<rparr>))))"

definition add_to_loss_record ::
  "'s pcc_ops \<Rightarrow> int \<Rightarrow> int \<Rightarrow> int \<Rightarrow> 's udt \<Rightarrow> 's udt outcome" where
  "add_to_loss_record ops now loss1 loss2 u =
     bind_outcome (mark_lost (nat (loss2 - loss1 + 1)) loss1 u) (\<lambda>(lost, u1).
       map_outcome (\<lambda>pcc. u1\<lparr> u_pcc_sender := pcc \<rparr>)
         (pcc_OnCongestionEvent ops False 0 (i64 now) [] lost (u_pcc_sender u1)))"

definition update_rtt :: "int \<Rightarrow> 's udt \<Rightarrow> 's udt" where
  "update_rtt rtt_us u =
     (let rtt = d_div (d_add (d_mul (Fin 7) (u_iRTT u)) (dbl rtt_us)) (Fin 8);
          var = d_div (d_add (d_mul (u_iRTTVar u) (Fin 7))
                   (d_mul (fp_abs (d_sub (dbl rtt_us) rtt)) (Fin 1))) (Fin 8)
      in u\<lparr> u_iRTT := rtt, u_iRTTVar := var \<rparr>)"

text \<open>The send buffer is released up to the oldest packet that is not acknowledged.\<close>

definition release_acked :: "int \<Rightarrow> 's udt \<Rightarrow> 's udt" where
  "release_acked ack_no u =
     (let offset = seqoff (u_iSndLastDataAck u) ack_no in
      if offset > 0
      then u\<lparr> u_pSndBuffer := ackData (nat offset) (u_pSndBuffer u), u_iSndLastDataAck := ack_no \<rparr>
      else u)"

definition ack_event ::
  "'s pcc_ops \<Rightarrow> readings \<Rightarrow> int \<Rightarrow> int \<Rightarrow> int \<Rightarrow> 's udt \<Rightarrow> 's udt outcome" where
  "ack_event ops rd pkt_id bytes rtt_us u =
     map_outcome (\<lambda>pcc. u\<lparr> u_BytesInFlight := i64 (u_BytesInFlight u - bytes), u_pcc_sender := pcc,
                          u_iRecvACK := i32 (u_iRecvACK u + 1),
                          u_iRecvACKTotal := i32 (u_iRecvACKTotal u + 1) \<rparr>)
       (pcc_OnCongestionEvent ops True (i64 rtt_us) (i64 (rd_us rd 1))
          [\<lparr> ap_packet_number = pkt_id, ap_bytes_acked = u64 bytes, ap_receive_timestamp = i64 (rd_us rd 0) \<rparr>]
          [] (u_pcc_sender u))"

definition handle_ack :: "'s pcc_ops \<Rightarrow> readings \<Rightarrow> int \<Rightarrow> int \<Rightarrow> 's udt \<Rightarrow> 's udt outcome" where
  "handle_ack ops rd seq_no msg_no u =
     (let t = u_packet_tracker u; latest_msg_no = GetPacketLastMsgNo seq_no t;
          old_state = GetPacketState seq_no t in
      bind_outcome (GetPacketId seq_no msg_no t) (\<lambda>pkt_id.
      bind_outcome (OnPacketAck (rd_mono rd 0) seq_no msg_no t) (\<lambda>t1.
      bind_outcome (GetPacketRtt seq_no msg_no t1) (\<lambda>rtt_us.
        let u1 = update_rtt rtt_us (u\<lparr> u_packet_tracker := t1 \<rparr>); size = GetPacketSize seq_no t1 in
        if msg_no \<noteq> latest_msg_no then Inr u1
        else bind_outcome (DeletePacketRecord seq_no t1) (\<lambda>t2.
             bind_outcome (GetMinSeqNo t2) (\<lambda>ack_no.
               let u2 = release_acked ack_no (u1\<lparr> u_packet_tracker := t2 \<rparr>) in
               if old_state = PACKET_STATE_LOST \<or> pkt_id = 0 then Inr u2
               else ack_event ops rd pkt_id size rtt_us u2))))))"

definition ack_seq_no :: "cpacket \<Rightarrow> int outcome" where
  "ack_seq_no p =
     (case pk_data p of None \<Rightarrow> Inl Null_Deref
      | Some bs \<Rightarrow> guard_outcome Out_Of_Bounds (4 \<le> length bs)
                     (Inr (sint (words_of_bytes (take 4 bs) ! 0))))"

definition ProcessAck :: "'s pcc_ops \<Rightarrow> readings \<Rightarrow> cpacket \<Rightarrow> 's udt \<Rightarrow> 's udt outcome" where
  "ProcessAck ops rd ctrlpkt u =
     bind_outcome (ack_seq_no ctrlpkt) (\<lambda>seq_no. handle_ack ops rd seq_no (m_iMsgNo ctrlpkt) u)"

subsection \<open>Timers\<close>

definition loss_threshold :: "platform \<Rightarrow> 's udt \<Rightarrow> int" where
  "loss_threshold pf u = fp_to_u64 pf (d_add (d_mul (Fin 2) (u_iRTT u)) (d_mul (Fin 4) (u_iRTTVar u)))"

text \<open>The loss detection of checkTimers.  A round looks at the oldest registered transmission;
  the second value says that the loop goes on.\<close>

definition loss_round ::
  "'s pcc_ops \<Rightarrow> int \<Rightarrow> timespec \<Rightarrow> int \<Rightarrow> 's udt \<Rightarrow> (bool \<times> 's udt) outcome" where
  "loss_round ops thresh cur_time now u =
     bind_outcome (GetOldestSentSeqNo (u_packet_tracker u)) (\<lambda>(seq_no, t).
       let u1 = u\<lparr> u_packet_tracker := t \<rparr> in
       if \<not> HasSentPackets t then Inr (True, u1)
       else bind_outcome (GetPacketSentTime seq_no (GetPacketLastMsgNo seq_no t) t) (\<lambda>sent_time.
         if elapsed_us sent_time cur_time > thresh
         then map_outcome (Pair True) (add_to_loss_record ops now seq_no seq_no u1)
         else Inr (False, u1)))"

primrec detect_losses ::
  "nat \<Rightarrow> 's pcc_ops \<Rightarrow> int \<Rightarrow> timespec \<Rightarrow> (nat \<Rightarrow> int) \<Rightarrow> 's udt \<Rightarrow> 's udt outcome" where
  "detect_losses 0 ops thresh cur_time now u =
     (if HasSentPackets (u_packet_tracker u) then Inl Diverges else Inr u)"
| "detect_losses (Suc fuel) ops thresh cur_time now u =
     (if \<not> HasSentPackets (u_packet_tracker u) then Inr u
      else bind_outcome (loss_round ops thresh cur_time (now fuel) u) (\<lambda>(continue, u1).
        if continue then detect_losses fuel ops thresh cur_time now u1 else Inr u1))"

text \<open>The fuel: every round that continues removes at least one entry of the queue, except the
  one that has just become stale.\<close>

definition loss_fuel :: "'s udt \<Rightarrow> nat" where
  "loss_fuel u = Suc (length (pt_sent (u_packet_tracker u)))"


text \<open>The timers of the receiving side: \<open>ack_interval\<close> and \<open>ack_period\<close> are the settings of the
  congestion control class CCC, \<open>losses\<close> the length of the receiver's loss list.\<close>

definition ack_timer :: "readings \<Rightarrow> int \<Rightarrow> int \<Rightarrow> 's udt \<Rightarrow> 's udt" where
  "ack_timer rd ack_interval ack_period u =
     (if rd_tsc rd 0 > u_ullNextACKTime u \<or> (ack_interval > 0 \<and> ack_interval \<le> u_iPktCount u)
      then u\<lparr> u_ullNextACKTime :=
               (if ack_period > 0 then u64 (rd_tsc rd 1 + ack_period * u_ullCPUFrequency u)
                else u64 (rd_tsc rd 1 + u_ullACKInt u)),
              u_iPktCount := 0, u_iLightACKCount := 1 \<rparr>
      else if i32 (m_iSelfClockInterval * u_iLightACKCount u) \<le> u_iPktCount u
      then u\<lparr> u_iLightACKCount := i32 (u_iLightACKCount u + 1) \<rparr>
      else u)"

definition timer_now :: "readings \<Rightarrow> int \<Rightarrow> 's udt \<Rightarrow> int" where
  "timer_now rd ack_interval u =
     (if rd_tsc rd 0 > u_ullNextACKTime u \<or> (ack_interval > 0 \<and> ack_interval \<le> u_iPktCount u)
      then rd_tsc rd 1 else rd_tsc rd 0)"

definition nak_timer :: "readings \<Rightarrow> int \<Rightarrow> int \<Rightarrow> 's udt \<Rightarrow> int \<times> 's udt" where
  "nak_timer rd currtime losses u =
     (if losses > 0 \<and> currtime > u_ullNextNAKTime u
      then (rd_tsc rd 2, u\<lparr> u_ullNextNAKTime := u64 (rd_tsc rd 2 + u_ullNAKInt u) \<rparr>)
      else (currtime, u))"

definition expiration_interval :: "platform \<Rightarrow> 's udt \<Rightarrow> int" where
  "expiration_interval pf u =
     (let exp_int = fp_to_u64 pf
            (d_mul (d_add (d_mul (dbl (u_iEXPCount u)) (d_add (u_iRTT u) (d_mul (Fin 4) (u_iRTTVar u))))
                      (dbl m_iSYNInterval))
                   (dbl (u_ullCPUFrequency u)));
          least = u64 (u_iEXPCount u * u_ullMinExpInt u)
      in if exp_int < least then least else exp_int)"

text \<open>The expiration timer: a keep-alive packet, or the end of the connection after 16 of them and
  five seconds of silence.\<close>

definition exp_timer :: "platform \<Rightarrow> readings \<Rightarrow> int \<Rightarrow> 's udt \<Rightarrow> 's udt outcome" where
  "exp_timer pf rd currtime u =
     (if \<not> currtime > u64 (u_ullLastRspTime u + expiration_interval pf u) then Inr u
      else if u_iEXPCount u > 16 \<and>
              u64 (currtime - u_ullLastRspTime u) > u64 (5000000 * u_ullCPUFrequency u)
      then Inr (u\<lparr> u_bClosing := True, u_bBroken := True, u_iBrokenCounter := 30,
                   u_on_snd_list := True, u_epoll_read := True, u_epoll_write := True \<rparr>)
      else map_outcome (\<lambda>u1. u1\<lparr> u_iEXPCount := i32 (u_iEXPCount u1 + 1), u_ullLastRspTime := currtime \<rparr>)
             (sendCtrl rd 1 None None 0 u))"

definition checkTimers ::
  "platform \<Rightarrow> 's pcc_ops \<Rightarrow> readings \<Rightarrow> int \<Rightarrow> int \<Rightarrow> int \<Rightarrow> 's udt \<Rightarrow> 's udt outcome" where
  "checkTimers pf ops rd ack_interval ack_period losses u0 =
     bind_outcome (detect_losses (loss_fuel u0) ops (loss_threshold pf u0) (rd_mono rd 0) (rd_us rd) u0)
       (\<lambda>u. case nak_timer rd (timer_now rd ack_interval u) losses (ack_timer rd ack_interval ack_period u) of
          (currtime, u1) \<Rightarrow> exp_timer pf rd currtime u1)"

subsection \<open>Control packets that arrive\<close>

text \<open>A handshake is answered with the connection's own parameters.  A drop request changes the
  receive buffer and the receiver's loss list and is an argument here.\<close>

definition handshake_reply :: "'s udt \<Rightarrow> handshake" where
  "handshake_reply u =
     handshake_new\<lparr> hs_isn := word_of_int (u_iISN u), hs_mss := word_of_int (u_iMSS u),
       hs_flight_flag_size := word_of_int (u_iFlightFlagSize u),
       hs_req_type := word_of_int (if u_bRendezvous u then -2 else -1),
       hs_id := word_of_int (u_SocketID u) \<rparr>"

definition answer_handshake :: "readings \<Rightarrow> cpacket \<Rightarrow> 's udt \<Rightarrow> 's udt outcome" where
  "answer_handshake rd ctrlpkt u =
     (case pk_data ctrlpkt of None \<Rightarrow> Inl Null_Deref
      | Some bs \<Rightarrow>
          bind_outcome (deserialize bs (getLength ctrlpkt) handshake_new) (\<lambda>(_, req).
            let req_type = sint (hs_req_type req); room = u_iRcvPayloadSize u in
            if req_type > 0 \<or> (u_bRendezvous u \<and> req_type \<noteq> -2) then
              bind_outcome (serialize (handshake_reply u) (replicate (nat room) 0) room)
                (\<lambda>(_, hs, hs_size). sendCtrl rd 0 None (Some hs) hs_size u)
            else Inr u))"

definition heard_from_peer :: "readings \<Rightarrow> 's udt \<Rightarrow> 's udt" where
  "heard_from_peer rd u = u\<lparr> u_iEXPCount := 1, u_ullLastRspTime := rd_tsc rd 0 \<rparr>"

definition processCtrl ::
  "'s pcc_ops \<Rightarrow> readings \<Rightarrow> (cpacket \<Rightarrow> 's udt \<Rightarrow> 's udt outcome)
     \<Rightarrow> cpacket \<Rightarrow> 's udt \<Rightarrow> 's udt outcome" where
  "processCtrl ops rd drop_request ctrlpkt u0 =
     (let u = heard_from_peer rd u0; ty = getType ctrlpkt in
      if ty = 2 then ProcessAck ops rd ctrlpkt u
      else if ty = 4 then Inr (u\<lparr> u_iLastDecSeq := u_iSndCurrSeqNo u \<rparr>)
      else if ty = 0 then answer_handshake rd ctrlpkt u
      else if ty = 5 then Inr (u\<lparr> u_bShutdown := True, u_bClosing := True, u_bBroken := True,
                                  u_iBrokenCounter := 60 \<rparr>)
      else if ty = 7 then drop_request ctrlpkt u
      else if ty = 8 then Inr (u\<lparr> u_bPeerHealth := False \<rparr>)
      else Inr u)"

end
