(* ===== verification/Udt_Invariant.thy ===== *)
theory Udt_Invariant
  imports Udt_Sender
begin

text \<open>What the tracker of a connection satisfies beyond the invariant of the tracker alone,
  because CUDT calls its operations in certain combinations only: a packet waits for
  retransmission once and is then LOST, no acknowledged packet stays recorded, and every entry of
  sent\_time\_map leads to a packet in flight that was last sent at that time.\<close>

definition last_sent :: "packet_record \<Rightarrow> timespec outcome" where
  "last_sent r = record_sent_time (GetPacketMostRecentMsgNo r) r"

definition flight_inv :: "packet_tracker \<Rightarrow> bool" where
  "flight_inv t \<longleftrightarrow>
     distinct (pt_retransmittable t)
     \<and> (\<forall>s r. pt_record_map t s = Some r \<longrightarrow>
          (s \<in> set (pt_retransmittable t) \<longrightarrow> pr_packet_state r = PACKET_STATE_LOST)
          \<and> pr_packet_state r \<noteq> PACKET_STATE_ACKED)
     \<and> (\<forall>ts s. pt_sent_time_map t ts = Some s \<longrightarrow>
          (\<exists>r. pt_record_map t s = Some r \<and> pr_packet_state r = PACKET_STATE_SENT
             \<and> last_sent r = Inr ts))"

text \<open>The bytes of the packets that have been transmitted and are not acknowledged.\<close>

definition record_flight :: "packet_record \<Rightarrow> int" where
  "record_flight r = (if pr_packet_state r = PACKET_STATE_QUEUED then 0 else pr_packet_size r)"

definition flight_of :: "(int \<rightharpoonup> packet_record) \<Rightarrow> int" where
  "flight_of m = (\<Sum>s\<in>dom m. record_flight (the (m s)))"

lemma flight_of_empty [simp]: "flight_of Map.empty = 0"
  by (simp add: flight_of_def)

lemma flight_of_delete:
  assumes "finite (dom m)" "m s = Some r"
  shows "flight_of (m(s := None)) = flight_of m - record_flight r"
proof -
  have "flight_of m = record_flight r + (\<Sum>x\<in>dom m - {s}. record_flight (the (m x)))"
    unfolding flight_of_def using assms by (subst sum.remove[of _ s]) auto
  moreover have "(\<Sum>x\<in>dom m - {s}. record_flight (the (m x))) = flight_of (m(s := None))"
    unfolding flight_of_def by (intro sum.cong) auto
  ultimately show ?thesis by simp
qed

lemma flight_of_insert:
  assumes "finite (dom m)" "m s = None"
  shows "flight_of (m(s \<mapsto> r)) = flight_of m + record_flight r"
proof -
  have "s \<notin> dom m" using assms(2) by auto
  then have "flight_of (m(s \<mapsto> r)) = record_flight r + (\<Sum>x\<in>dom m. record_flight (the ((m(s \<mapsto> r)) x)))"
    unfolding flight_of_def using assms(1) by simp
  moreover have "(\<Sum>x\<in>dom m. record_flight (the ((m(s \<mapsto> r)) x))) = flight_of m"
    unfolding flight_of_def using \<open>s \<notin> dom m\<close> by (intro sum.cong) auto
  ultimately show ?thesis by simp
qed

lemma flight_of_update:
  assumes "finite (dom m)" "m s = Some r"
  shows "flight_of (m(s \<mapsto> r1)) = flight_of m - record_flight r + record_flight r1"
proof -
  have "m(s \<mapsto> r1) = (m(s := None))(s \<mapsto> r1)" by auto
  moreover have "finite (dom (m(s := None)))" using assms(1) by simp
  ultimately show ?thesis
    using flight_of_insert[of "m(s := None)" s r1] flight_of_delete[OF assms] by simp
qed

lemma flight_of_nonneg: "(\<And>r. r \<in> ran m \<Longrightarrow> 0 \<le> pr_packet_size r) \<Longrightarrow> 0 \<le> flight_of m"
  unfolding flight_of_def by (intro sum_nonneg) (force simp: record_flight_def ran_def)

subsection \<open>The operations of the tracker\<close>

lemma UpdateRecord_frame:
  assumes "UpdateRecord now st m pid r = Inr r1"
  shows "pr_packet_size r1 = pr_packet_size r \<and> pr_payload r1 = pr_payload r
    \<and> (pr_packet_state r1 = st \<or> pr_packet_state r1 = pr_packet_state r)"
  using assms
  by (auto simp: UpdateRecord_def bind_outcome_Inr_iff guard_outcome_Inr_iff Let_def split: if_splits)

lemma EnqueuePacket_frame:
  assumes "EnqueuePacket s payload t = Inr t'"
  shows "pt_record_map t s = None
    \<and> pt_record_map t' = (pt_record_map t)(s \<mapsto> new_packet_record s payload PACKET_STATE_QUEUED)
    \<and> pt_send t' = insort s (pt_send t) \<and> pt_retransmittable t' = pt_retransmittable t
    \<and> pt_sent t' = pt_sent t \<and> pt_sent_time_map t' = pt_sent_time_map t
    \<and> pt_cur_num_packets t' = i32 (pt_cur_num_packets t + 1)"
  using assms by (auto simp: EnqueuePacket_def Let_def split: option.splits)

lemma transmit_frame:
  assumes "tracker_inv t" "on_top s t" "few_messages s t"
    and tr: "transmit now s t = Inr (bytes, pid, t')"
  shows "\<exists>r r1. pt_record_map t s = Some r \<and> bytes = pr_payload r
    \<and> pt_record_map t' = (pt_record_map t)(s \<mapsto> r1) \<and> pr_packet_size r1 = pr_packet_size r
    \<and> pr_packet_state r1 = PACKET_STATE_SENT \<and> last_sent r1 = Inr now
    \<and> pt_sent_time_map t' = map_insert now s (pt_sent_time_map t)
    \<and> pt_retransmittable t' = (if pr_packet_state r = PACKET_STATE_QUEUED
         then pt_retransmittable t else tl (pt_retransmittable t))
    \<and> pt_send t' = (if pr_packet_state r = PACKET_STATE_QUEUED then tl (pt_send t) else pt_send t)
    \<and> tracker_inv t' \<and> pt_cur_num_packets t' = pt_cur_num_packets t"
proof -
  obtain r where r: "pt_record_map t s = Some r" and inv: "tracker_inv t'"
    and st: "GetPacketState s t' = PACKET_STATE_SENT"
    and sent: "GetPacketSentTime s (GetPacketLastMsgNo s t') t' = Inr now" and b: "bytes = pr_payload r"
    using transmit_inv[OF assms(1-3), of now] tr by auto
  obtain t0 r1 ts where lq: "leave_queue s r t = Inr t0"
    and up: "UpdateRecord now PACKET_STATE_SENT (i32 (GetPacketLastMsgNo s t + 1))
               (u64 (pt_prev_packet_id t0 + 1)) r = Inr r1"
    and ts: "record_sent_time (i32 (GetPacketLastMsgNo s t + 1)) r1 = Inr ts"
    and t': "t' = t0\<lparr> pt_prev_packet_id := u64 (pt_prev_packet_id t0 + 1),
               pt_record_map := (pt_record_map t0)(s \<mapsto> r1), pt_sent := insort ts (pt_sent t0),
               pt_sent_time_map := map_insert ts s (pt_sent_time_map t0) \<rparr>"
    using tr r by (auto simp: transmit_def OnPacketSent_def Let_def bind_outcome_Inr_iff
      GetPacketPayloadPointer_def)
  have t0: "t0 = t\<lparr> pt_send := pt_send t0, pt_retransmittable := pt_retransmittable t0 \<rparr>"
    "pt_retransmittable t0 = (if pr_packet_state r = PACKET_STATE_QUEUED
         then pt_retransmittable t else tl (pt_retransmittable t))"
    "pt_send t0 = (if pr_packet_state r = PACKET_STATE_QUEUED then tl (pt_send t) else pt_send t)"
    using lq by (auto simp: leave_queue_def take_top_def split: if_splits list.splits)
  have m0: "pt_record_map t0 = pt_record_map t" "pt_sent_time_map t0 = pt_sent_time_map t"
    "pt_cur_num_packets t0 = pt_cur_num_packets t"
    by (subst t0(1), simp)+
  have l: "last_sent r1 = Inr now"
    using sent by (simp add: t' GetPacketSentTime_def tracker_record_def GetPacketLastMsgNo_def last_sent_def)
  have s1: "pr_packet_state r1 = PACKET_STATE_SENT" using st by (simp add: t' GetPacketState_def)
  have "GetPacketLastMsgNo s t' = GetPacketLastMsgNo s t + 1"
    using transmit_inv[OF assms(1-3), of now] tr by auto
  then have "i32 (GetPacketLastMsgNo s t + 1) = GetPacketMostRecentMsgNo r1"
    using assms(3) inv most_recent_eq[OF tracker_inv_record[OF inv, of s r1]]
    by (simp add: t' GetPacketLastMsgNo_def few_messages_def)
  then have "ts = now" using l ts by (simp add: last_sent_def)
  then show ?thesis using r b UpdateRecord_frame[OF up] l s1 inv t0(2,3) m0 unfolding t' by auto
qed

lemma OnPacketAck_frame:
  assumes "tracker_inv t" "pt_record_map t s = Some r" "OnPacketAck now s m t = Inr t'"
  shows "\<exists>r1 ts. record_sent_time m r = Inr ts \<and> pt_record_map t' = (pt_record_map t)(s \<mapsto> r1)
    \<and> pt_sent_time_map t' = (pt_sent_time_map t)(ts := None)
    \<and> pr_packet_size r1 = pr_packet_size r
    \<and> pr_packet_state r1 = (if m = GetPacketMostRecentMsgNo r then PACKET_STATE_ACKED else pr_packet_state r)
    \<and> last_sent r1 = last_sent r
    \<and> pt_retransmittable t' = pt_retransmittable t \<and> pt_send t' = pt_send t \<and> pt_sent t' = pt_sent t
    \<and> tracker_inv t'"
proof -
  obtain r1 ts where ts: "record_sent_time m r = Inr ts"
    and up: "UpdateRecord now PACKET_STATE_ACKED m 0 r = Inr r1"
    and t': "t' = t\<lparr> pt_sent_time_map := (pt_sent_time_map t)(ts := None),
                    pt_record_map := (pt_record_map t)(s \<mapsto> r1) \<rparr>"
    using assms(2,3) by (auto simp: OnPacketAck_def bind_outcome_Inr_iff)
  note rinv = tracker_inv_record[OF assms(1,2)]
  have m: "1 \<le> m" "m \<le> int (length (pr_msg_records r))"
    using message_exists[OF assms(1,2) ts] by auto
  obtain r2 where "UpdateRecord now PACKET_STATE_ACKED m 0 r = Inr r2" "record_inv r2"
    and st: "pr_packet_state r2 = (if m = int (length (pr_msg_records r)) then PACKET_STATE_ACKED
                                   else pr_packet_state r)"
    and tm: "map mr_sent_time (pr_msg_records r2) = map mr_sent_time (pr_msg_records r)"
    using update_acked[OF rinv m, of now 0] by blast
  then have r1: "r2 = r1" "record_inv r1" using up by auto
  have len: "length (pr_msg_records r1) = length (pr_msg_records r)"
    using tm r1(1) by (metis length_map)
  have nth: "mr_sent_time (pr_msg_records r1 ! i) = mr_sent_time (pr_msg_records r ! i)"
    if "i < length (pr_msg_records r)" for i
    using that tm r1(1) len by (metis nth_map)
  have "last_sent r1 = last_sent r"
    using m len nth[of "length (pr_msg_records r) - 1"]
    by (simp add: last_sent_def most_recent_eq rinv r1(2) record_sent_time_def SafeGetMessageRecord_eq
        nat_diff_distrib)
  moreover have "tracker_inv t'" using OnPacketAck_inv[OF assms(1,2) m, of now] assms(3) by auto
  ultimately show ?thesis
    using ts UpdateRecord_frame[OF up] st r1 most_recent_eq[OF rinv]
    by (intro exI[of _ r1] exI[of _ ts]) (simp add: t')
qed

lemma OnPacketLoss_frame:
  assumes "tracker_inv t" "pt_record_map t s = Some r" "pr_msg_records r \<noteq> []"
  shows "\<exists>t' r1 ts. OnPacketLoss s (GetPacketLastMsgNo s t) t = Inr t' \<and> last_sent r = Inr ts
    \<and> pt_record_map t' = (pt_record_map t)(s \<mapsto> r1)
    \<and> pt_sent_time_map t' = (pt_sent_time_map t)(ts := None)
    \<and> pr_packet_size r1 = pr_packet_size r \<and> pr_packet_state r1 = PACKET_STATE_LOST
    \<and> pt_retransmittable t' = insort s (pt_retransmittable t) \<and> pt_send t' = pt_send t
    \<and> pt_sent t' = pt_sent t \<and> tracker_inv t'"
proof -
  note rinv = tracker_inv_record[OF assms(1,2)]
  let ?n = "int (length (pr_msg_records r))"
  have m: "GetPacketLastMsgNo s t = ?n" "GetPacketMostRecentMsgNo r = ?n" "1 \<le> ?n"
    using assms(2,3) most_recent_eq[OF rinv] by (simp_all add: GetPacketLastMsgNo_def Suc_leI)
  obtain t' where t': "OnPacketLoss s ?n t = Inr t'" "tracker_inv t'"
      "GetPacketState s t' = PACKET_STATE_LOST"
    using OnPacketLoss_inv[OF assms(1,2) m(3)] by auto
  then obtain r1 ts where ts: "record_sent_time ?n r = Inr ts"
    and up: "UpdateRecord (Timespec 0 0) PACKET_STATE_LOST ?n 0 r = Inr r1"
    and eq: "t' = t\<lparr> pt_sent_time_map := (pt_sent_time_map t)(ts := None),
                    pt_record_map := (pt_record_map t)(s \<mapsto> r1),
                    pt_retransmittable := insort s (pt_retransmittable t) \<rparr>"
    using assms(2) by (auto simp: OnPacketLoss_def bind_outcome_Inr_iff)
  then show ?thesis
    using t' UpdateRecord_frame[OF up] m by (auto simp: GetPacketState_def last_sent_def)
qed


subsection \<open>The invariant is kept\<close>

lemma flight_invD:
  assumes "flight_inv t" "pt_record_map t s = Some r"
  shows "s \<in> set (pt_retransmittable t) \<Longrightarrow> pr_packet_state r = PACKET_STATE_LOST"
    "pr_packet_state r \<noteq> PACKET_STATE_ACKED"
  using assms by (auto simp: flight_inv_def)

lemma flight_inv_sent:
  assumes "flight_inv t" "pt_sent_time_map t ts = Some s"
  shows "\<exists>r. pt_record_map t s = Some r \<and> pr_packet_state r = PACKET_STATE_SENT \<and> last_sent r = Inr ts"
  using assms by (simp add: flight_inv_def)

lemma enqueue_flight_inv:
  assumes "flight_inv t" "EnqueuePacket s payload t = Inr t'" "s \<notin> set (pt_retransmittable t)"
  shows "flight_inv t'"
proof -
  note f = EnqueuePacket_frame[OF assms(2)]
  have "last_sent r = last_sent r" for r by simp
  moreover have "pr_packet_state (new_packet_record s payload PACKET_STATE_QUEUED) = PACKET_STATE_QUEUED"
    by (simp add: new_packet_record_def)
  ultimately show ?thesis using assms(1,3) f by (fastforce simp: flight_inv_def)
qed

lemma transmit_flight_inv:
  assumes "flight_inv t" "tracker_inv t" "on_top s t" "few_messages s t"
    and "transmit now s t = Inr (bytes, pid, t')"
  shows "flight_inv t'"
proof -
  obtain r r1 where r: "pt_record_map t s = Some r"
    and f: "pt_record_map t' = (pt_record_map t)(s \<mapsto> r1)" "pr_packet_state r1 = PACKET_STATE_SENT"
      "last_sent r1 = Inr now" "pt_sent_time_map t' = map_insert now s (pt_sent_time_map t)"
      "pt_retransmittable t' = (if pr_packet_state r = PACKET_STATE_QUEUED
         then pt_retransmittable t else tl (pt_retransmittable t))"
    using transmit_frame[OF assms(2-5)] by blast
  have dr: "distinct (pt_retransmittable t)" using assms(1) by (simp add: flight_inv_def)
  have idle: "pr_packet_state r \<noteq> PACKET_STATE_SENT" and s: "s \<notin> set (pt_retransmittable t')"
    using assms(3) r dr flight_invD(1)[OF assms(1) r]
    by (auto simp: on_top_def f(5) split: if_splits)
  have sub: "set (pt_retransmittable t') \<subseteq> set (pt_retransmittable t)"
    by (cases "pt_retransmittable t") (auto simp: f(5))
  have "distinct (pt_retransmittable t')" using dr by (simp add: f(5) distinct_tl)
  moreover have "\<exists>r'. pt_record_map t' x = Some r' \<and> pr_packet_state r' = PACKET_STATE_SENT \<and> last_sent r' = Inr ts"
    if e: "pt_sent_time_map t' ts = Some x" for ts x
  proof (cases "pt_sent_time_map t ts")
    case None
    then have "ts = now" "x = s" using e by (auto simp: f(4) map_insert_def split: option.splits if_splits)
    then show ?thesis using f(1-3) by simp
  next
    case (Some y)
    then have "y = x" using e by (auto simp: f(4) map_insert_def split: option.splits if_splits)
    then obtain r' where "pt_record_map t x = Some r'" "pr_packet_state r' = PACKET_STATE_SENT"
        "last_sent r' = Inr ts"
      using flight_inv_sent[OF assms(1) Some] by auto
    then show ?thesis using r idle f(1) by auto
  qed
  ultimately show ?thesis
    using assms(1) f(1,2) s sub unfolding flight_inv_def by auto
qed

lemma loss_flight_inv:
  assumes "flight_inv t" "pt_record_map t s = Some r" "pr_packet_state r = PACKET_STATE_SENT"
    and "last_sent r = Inr ts" "pt_record_map t' = (pt_record_map t)(s \<mapsto> r1)"
    and "pr_packet_state r1 = PACKET_STATE_LOST" "pt_sent_time_map t' = (pt_sent_time_map t)(ts := None)"
    and "pt_retransmittable t' = insort s (pt_retransmittable t)"
  shows "flight_inv t'"
proof -
  have "s \<notin> set (pt_retransmittable t)" using flight_invD(1)[OF assms(1,2)] assms(3) by auto
  moreover have "x \<noteq> s" if "pt_sent_time_map t ts' = Some x" "ts' \<noteq> ts" for ts' x
    using flight_inv_sent[OF assms(1) that(1)] that(2) assms(2,4) by auto
  ultimately show ?thesis
    using assms unfolding flight_inv_def by (auto simp: distinct_insort set_insort_key)
qed

text \<open>An acknowledgement of the last transmission is followed by the deletion of the record.\<close>

lemma old_ack_flight_inv:
  assumes "flight_inv t" "pt_record_map t s = Some r"
    and "pt_record_map t' = (pt_record_map t)(s \<mapsto> r1)" "pr_packet_state r1 = pr_packet_state r"
    and "last_sent r1 = last_sent r" "pt_sent_time_map t' = (pt_sent_time_map t)(ts := None)"
    and "pt_retransmittable t' = pt_retransmittable t"
  shows "flight_inv t'"
proof -
  have "\<exists>r'. pt_record_map t' x = Some r' \<and> pr_packet_state r' = PACKET_STATE_SENT \<and> last_sent r' = Inr ts'"
    if "pt_sent_time_map t' ts' = Some x" for ts' x
    using that assms(2-6) flight_inv_sent[OF assms(1), of ts' x] by (auto split: if_splits)
  then show ?thesis using assms(1-4,7) unfolding flight_inv_def by auto
qed

lemma last_ack_flight_inv:
  assumes "flight_inv t" "pt_record_map t s = Some r" "last_sent r = Inr ts"
    and "pt_record_map t' = (pt_record_map t)(s := None)"
    and "pt_sent_time_map t' = (pt_sent_time_map t)(ts := None)"
    and "pt_retransmittable t' = pt_retransmittable t"
  shows "flight_inv t'"
proof -
  have "x \<noteq> s" if "pt_sent_time_map t ts' = Some x" "ts' \<noteq> ts" for ts' x
    using flight_inv_sent[OF assms(1) that(1)] that(2) assms(2,3) by auto
  then show ?thesis using assms unfolding flight_inv_def by (auto split: if_splits)
qed

end
