(* ===== verification/Udt_Losses.thy ===== *)
theory Udt_Losses
  imports Udt_Invariant
begin

text \<open>The loss detection of CUDT::checkTimers: the loop ends, it fails only where the congestion
  controller fails, and it declares lost exactly the registered transmissions that are older than
  the threshold.\<close>

definition conn_tracker :: "packet_tracker \<Rightarrow> bool" where
  "conn_tracker t \<longleftrightarrow> tracker_inv t \<and> flight_inv t"

text \<open>The tracker after packet \<open>s\<close>, last sent at \<open>ts\<close>, has been declared lost.\<close>

definition loses :: "int \<Rightarrow> timespec \<Rightarrow> packet_tracker \<Rightarrow> packet_tracker \<Rightarrow> bool" where
  "loses s ts t t' \<longleftrightarrow>
     conn_tracker t' \<and> GetPacketState s t' = PACKET_STATE_LOST
     \<and> (\<forall>x. x \<noteq> s \<longrightarrow> pt_record_map t' x = pt_record_map t x)
     \<and> pt_sent_time_map t' = (pt_sent_time_map t)(ts := None)
     \<and> pt_sent t' = pt_sent t \<and> pt_send t' = pt_send t
     \<and> pt_retransmittable t' = insort s (pt_retransmittable t)
     \<and> dom (pt_record_map t') = dom (pt_record_map t)
     \<and> flight_of (pt_record_map t') = flight_of (pt_record_map t)
     \<and> (\<forall>x. GetPacketSize x t' = GetPacketSize x t)"

lemma lose_packet:
  assumes ct: "conn_tracker (u_packet_tracker u)"
    and e: "pt_sent_time_map (u_packet_tracker u) ts = Some s"
  shows "\<exists>t' l. loses s ts (u_packet_tracker u) t' \<and> lost_of (u_packet_tracker u) s = Inr l \<and>
    add_to_loss_record ops now s s u =
      map_outcome (\<lambda>pcc. u\<lparr> u_packet_tracker := t', u_iSndLossTotal := i32 (u_iSndLossTotal u + 1),
                           u_pcc_sender := pcc \<rparr>)
        (pcc_OnCongestionEvent ops False 0 (i64 now) [] [l] (u_pcc_sender u))"
proof -
  let ?t = "u_packet_tracker u"
  have ti: "tracker_inv ?t" and fi: "flight_inv ?t" using ct by (simp_all add: conn_tracker_def)
  obtain r where r: "pt_record_map ?t s = Some r" "pr_packet_state r = PACKET_STATE_SENT"
      "last_sent r = Inr ts"
    using flight_inv_sent[OF fi e] by auto
  note rinv = tracker_inv_record[OF ti r(1)]
  have ne: "pr_msg_records r \<noteq> []" using rinv r(2) by (auto simp: record_inv_def)
  obtain t' r1 where l: "OnPacketLoss s (GetPacketLastMsgNo s ?t) ?t = Inr t'"
    and f: "pt_record_map t' = (pt_record_map ?t)(s \<mapsto> r1)"
      "pt_sent_time_map t' = (pt_sent_time_map ?t)(ts := None)"
      "pr_packet_size r1 = pr_packet_size r" "pr_packet_state r1 = PACKET_STATE_LOST"
      "pt_retransmittable t' = insort s (pt_retransmittable ?t)" "pt_send t' = pt_send ?t"
      "pt_sent t' = pt_sent ?t" "tracker_inv t'"
    using OnPacketLoss_frame[OF ti r(1) ne] r(3) by auto
  have "flight_inv t'" by (rule loss_flight_inv[OF fi r f(1,4,2,5)])
  moreover have "flight_of (pt_record_map t') = flight_of (pt_record_map ?t)"
    using flight_of_update[of "pt_record_map ?t" s r r1] r(1) ti r(2) f(3,4)
    by (simp add: f(1) tracker_inv_def record_flight_def)
  ultimately have "loses s ts ?t t'"
    using r f by (auto simp: loses_def conn_tracker_def GetPacketState_def GetPacketSize_def)
  moreover obtain pid where "record_packet_id (GetPacketLastMsgNo s ?t) r = Inr pid"
    using ne r(1) by (auto simp: record_packet_id_def SafeGetMessageRecord_eq[OF rinv]
      GetPacketLastMsgNo_def most_recent_eq[OF rinv] Suc_leI)
  then have "lost_of ?t s =
      Inr \<lparr> lp_packet_number = pid, lp_bytes_lost = u64 (GetPacketSize s ?t) \<rparr>"
    using r(1) by (simp add: lost_of_def GetPacketId_def tracker_record_def)
  ultimately show ?thesis
    using l by (intro exI[of _ t'] exI) (auto simp: add_to_loss_record_def)
qed

subsection \<open>One round\<close>

definition live_at :: "packet_tracker \<Rightarrow> timespec \<Rightarrow> bool" where
  "live_at t ts \<longleftrightarrow> pt_sent_time_map t ts \<noteq> None"

definition live_queue :: "packet_tracker \<Rightarrow> timespec list" where
  "live_queue t = skip_stale (live_at t) (pt_sent t)"

lemma GetOldestSentSeqNo_live:
  assumes "pt_sent t \<noteq> []"
  shows "GetOldestSentSeqNo t =
    Inr (case live_queue t of [] \<Rightarrow> 0 | ts # _ \<Rightarrow> the (pt_sent_time_map t ts), t\<lparr> pt_sent := live_queue t \<rparr>)"
  using assms by (simp add: GetOldestSentSeqNo_def live_queue_def live_at_def[abs_def] Let_def)

lemma clean_sent_tracker:
  assumes "conn_tracker t" "pt_sent t \<noteq> []"
  shows "conn_tracker (t\<lparr> pt_sent := live_queue t \<rparr>)"
proof -
  have "tracker_inv (t\<lparr> pt_sent := live_queue t \<rparr>)"
    using assms GetOldestSentSeqNo_inv GetOldestSentSeqNo_live by (auto simp: conn_tracker_def)
  then show ?thesis using assms(1) by (simp add: conn_tracker_def flight_inv_def)
qed

lemma loss_round_empty:
  assumes "pt_sent (u_packet_tracker u) \<noteq> []" "live_queue (u_packet_tracker u) = []"
  shows "loss_round ops thresh cur now u =
    Inr (True, u\<lparr> u_packet_tracker := (u_packet_tracker u)\<lparr> pt_sent := [] \<rparr> \<rparr>)"
  using assms by (simp add: loss_round_def GetOldestSentSeqNo_live HasSentPackets_def Let_def)

lemma loss_round_oldest:
  assumes ct: "conn_tracker (u_packet_tracker u)" and "pt_sent (u_packet_tracker u) \<noteq> []"
    and q: "live_queue (u_packet_tracker u) = ts # q"
  defines "u1 \<equiv> u\<lparr> u_packet_tracker := (u_packet_tracker u)\<lparr> pt_sent := ts # q \<rparr> \<rparr>"
  shows "\<exists>s. pt_sent_time_map (u_packet_tracker u) ts = Some s \<and> conn_tracker (u_packet_tracker u1) \<and>
    loss_round ops thresh cur now u =
      (if elapsed_us ts cur > thresh then map_outcome (Pair True) (add_to_loss_record ops now s s u1)
       else Inr (False, u1))"
proof -
  let ?t = "u_packet_tracker u"
  have "live_at ?t ts" using q skip_stale_hd by (auto simp: live_queue_def)
  then obtain s where s: "pt_sent_time_map ?t ts = Some s" by (auto simp: live_at_def)
  have fi: "flight_inv ?t" using ct by (simp add: conn_tracker_def)
  obtain r where "pt_record_map ?t s = Some r" "last_sent r = Inr ts"
    using flight_inv_sent[OF fi s] by auto
  then have "GetPacketSentTime s (GetPacketLastMsgNo s (u_packet_tracker u1)) (u_packet_tracker u1) = Inr ts"
    by (simp add: u1_def GetPacketSentTime_def tracker_record_def GetPacketLastMsgNo_def last_sent_def)
  then have "loss_round ops thresh cur now u =
      (if elapsed_us ts cur > thresh then map_outcome (Pair True) (add_to_loss_record ops now s s u1)
       else Inr (False, u1))"
    using assms(2) q s by (simp add: loss_round_def GetOldestSentSeqNo_live HasSentPackets_def Let_def u1_def)
  moreover have "conn_tracker (u_packet_tracker u1)"
    using clean_sent_tracker[OF ct assms(2)] q by (simp add: u1_def)
  ultimately show ?thesis using s by blast
qed

lemma live_queue_shrinks:
  assumes "pt_sent t = ts # q" "pt_sent_time_map t' = (pt_sent_time_map t)(ts := None)"
    "pt_sent t' = pt_sent t" 
  shows "length (live_queue t') \<le> length q"
proof -
  have "live_queue t' = skip_stale (live_at t') q"
    using assms by (simp add: live_queue_def live_at_def)
  moreover have "length (skip_stale P xs) \<le> length xs" for P and xs :: "timespec list"
    by (induction xs) auto
  ultimately show ?thesis by simp
qed


subsection \<open>The loop\<close>

text \<open>A later transmission is not older.\<close>

lemma mult_div_1000: "1000 * (x div 1000) \<le> x" for x :: int
  by presburger

lemma cdiv_1000: "cdiv a 1000 = (if 0 \<le> a then a div 1000 else - (- a div 1000))"
  by (simp add: cdiv_def)

lemma cdiv_mono:
  assumes "a \<le> b"
  shows "cdiv a 1000 \<le> cdiv b 1000"
proof -
  consider "0 \<le> a" | "a < 0" "0 \<le> b" | "b < 0" by linarith
  then show ?thesis
  proof cases
    case 1
    then show ?thesis using assms zdiv_mono1[of a b 1000] by (simp add: cdiv_1000)
  next
    case 2
    then have "0 \<le> - a div 1000" "0 \<le> b div 1000" by simp_all
    then show ?thesis using 2 unfolding cdiv_1000 by simp
  next
    case 3
    then show ?thesis using assms zdiv_mono1[of "- b" "- a" 1000] by (simp add: cdiv_1000)
  qed
qed

lemma elapsed_raw:
  assumes "valid_timespec a" "valid_timespec c" "a \<le> c"
  shows "elapsed_us a c = 1000000 * (tv_sec c - tv_sec a) + cdiv (tv_nsec c - tv_nsec a) 1000"
proof -
  let ?s = "tv_sec c - tv_sec a" and ?n = "tv_nsec c - tv_nsec a"
  have n: "-1000000000 < ?n" "?n < 1000000000" and s: "0 \<le> ?s" "?s < 2 ^ 40" and z: "?s = 0 \<Longrightarrow> 0 \<le> ?n"
    using assms by (auto simp: valid_timespec_def less_eq_timespec_def split: if_splits)
  have "-999999 \<le> cdiv ?n 1000" "cdiv ?n 1000 \<le> 999999"
    using cdiv_mono[of "-999999999" ?n] cdiv_mono[of ?n 999999999] n by (simp_all add: cdiv_def)
  moreover have "0 \<le> cdiv ?n 1000" if "?s = 0"
    using cdiv_mono[of 0 ?n] z[OF that] by (simp add: cdiv_def)
  ultimately have "0 \<le> 1000000 * ?s + cdiv ?n 1000 \<and> 1000000 * ?s + cdiv ?n 1000 < 18446744073709551616"
    using s by (cases "?s = 0") auto
  then show ?thesis by (simp add: elapsed_us_def)
qed

lemma elapsed_antitone:
  assumes v: "valid_timespec a" "valid_timespec b" "valid_timespec c" and o: "a \<le> b" "b \<le> c"
  shows "elapsed_us b c \<le> elapsed_us a c"
proof -
  let ?na = "tv_nsec a" and ?nb = "tv_nsec b" and ?nc = "tv_nsec c"
  have n: "0 \<le> ?na" "?na \<le> 999999999" "0 \<le> ?nb" "0 \<le> ?nc" "?nc \<le> 999999999"
    using v by (auto simp: valid_timespec_def)
  have e: "elapsed_us a c = 1000000 * (tv_sec c - tv_sec a) + cdiv (?nc - ?na) 1000"
    "elapsed_us b c = 1000000 * (tv_sec c - tv_sec b) + cdiv (?nc - ?nb) 1000"
    using elapsed_raw v o order_trans[OF o] by blast+
  show ?thesis
  proof (cases "tv_sec a = tv_sec b")
    case True
    then have "?na \<le> ?nb" using o(1) by (simp add: less_eq_timespec_def)
    then show ?thesis using cdiv_mono[of "?nc - ?nb" "?nc - ?na"] True by (simp add: e)
  next
    case False
    then have s: "tv_sec a + 1 \<le> tv_sec b" using o(1) by (simp add: less_eq_timespec_def)
    have "cdiv (?nc - ?nb) 1000 \<le> ?nc div 1000"
      using cdiv_mono[of "?nc - ?nb" ?nc] n by simp
    also have "\<dots> \<le> 1000000 + cdiv (?nc - 999999999) 1000"
    proof -
      have k: "cdiv (?nc - 999999999) 1000 = - ((999999999 - ?nc) div 1000)"
        using n(5) by (simp add: cdiv_1000)
      have "1000 * (?nc div 1000) \<le> ?nc" "1000 * ((999999999 - ?nc) div 1000) \<le> 999999999 - ?nc"
        by (rule mult_div_1000)+
      then show ?thesis unfolding k by linarith
    qed
    also have "\<dots> \<le> 1000000 + cdiv (?nc - ?na) 1000"
      using cdiv_mono[of "?nc - 999999999" "?nc - ?na"] n by simp
    finally have n': "cdiv (?nc - ?nb) 1000 \<le> 1000000 + cdiv (?nc - ?na) 1000" .
    have "1000000 * (tv_sec c - tv_sec b) \<le> 1000000 * (tv_sec c - tv_sec a) - 1000000"
      using s by simp
    then show ?thesis using n' unfolding e by linarith
  qed
qed

definition timely :: "timespec \<Rightarrow> packet_tracker \<Rightarrow> bool" where
  "timely cur t \<longleftrightarrow> valid_timespec cur \<and>
     (\<forall>ts\<in>dom (pt_sent_time_map t). valid_timespec ts \<and> ts \<le> cur)"

text \<open>What the loop does; the last part needs a clock that does not run backwards.\<close>

definition loss_outcome :: "int \<Rightarrow> timespec \<Rightarrow> 's udt \<Rightarrow> 's udt \<Rightarrow> bool" where
  "loss_outcome thresh cur u u' \<longleftrightarrow>
     (let t = u_packet_tracker u; t' = u_packet_tracker u' in
      u' = u\<lparr> u_packet_tracker := t', u_pcc_sender := u_pcc_sender u', u_iSndLossTotal := u_iSndLossTotal u' \<rparr>
      \<and> conn_tracker t'
      \<and> dom (pt_record_map t') = dom (pt_record_map t)
      \<and> flight_of (pt_record_map t') = flight_of (pt_record_map t)
      \<and> pt_send t' = pt_send t
      \<and> set (pt_retransmittable t') \<subseteq> set (pt_retransmittable t) \<union> dom (pt_record_map t)
      \<and> (\<forall>x. GetPacketSize x t' = GetPacketSize x t)
      \<and> (\<forall>x. (\<forall>ts. pt_sent_time_map t ts = Some x \<longrightarrow> elapsed_us ts cur \<le> thresh) \<longrightarrow>
              pt_record_map t' x = pt_record_map t x)
      \<and> (\<forall>ts. pt_sent_time_map t ts = None \<longrightarrow> pt_sent_time_map t' ts = None)
      \<and> (timely cur t \<longrightarrow> (\<forall>ts s. pt_sent_time_map t ts = Some s \<longrightarrow>
              (if elapsed_us ts cur > thresh
               then pt_sent_time_map t' ts = None \<and> GetPacketState s t' = PACKET_STATE_LOST
               else pt_sent_time_map t' ts = Some s))))"

text \<open>The controller is told of one loss at a time; it fails when a sequence of such reports
  leads to a state in which the next one fails.\<close>

definition loss_report :: "'s pcc_ops \<Rightarrow> 's \<Rightarrow> 's \<Rightarrow> bool" where
  "loss_report ops s s' \<longleftrightarrow> (\<exists>t l. pcc_OnCongestionEvent ops False 0 t [] [l] s = Inr s')"

definition controller_fails :: "'s pcc_ops \<Rightarrow> 's \<Rightarrow> failure \<Rightarrow> bool" where
  "controller_fails ops s e \<longleftrightarrow>
     (\<exists>s' t l. (loss_report ops)\<^sup>*\<^sup>* s s' \<and> pcc_OnCongestionEvent ops False 0 t [] [l] s' = Inl e)"

lemma controller_fails_now:
  "pcc_OnCongestionEvent ops False 0 t [] [l] s = Inl e \<Longrightarrow> controller_fails ops s e"
  unfolding controller_fails_def by blast

lemma controller_fails_later:
  "loss_report ops s s1 \<Longrightarrow> controller_fails ops s1 e \<Longrightarrow> controller_fails ops s e"
  unfolding controller_fails_def by (meson converse_rtranclp_into_rtranclp)

lemma loss_outcome_quiet:
  assumes "conn_tracker t'" "timely cur (u_packet_tracker u) \<Longrightarrow>
      \<forall>ts s. pt_sent_time_map (u_packet_tracker u) ts = Some s \<longrightarrow> elapsed_us ts cur \<le> thresh"
    and "t' = (u_packet_tracker u)\<lparr> pt_sent := q \<rparr>"
  shows "loss_outcome thresh cur u (u\<lparr> u_packet_tracker := t' \<rparr>)"
  using assms by (auto simp: loss_outcome_def Let_def GetPacketSize_def not_less)
    (metis not_le option.exhaust)+

lemma loss_outcome_step:
  assumes e: "pt_sent_time_map (u_packet_tracker u) ts = Some s" and ct: "conn_tracker (u_packet_tracker u)"
    and old: "elapsed_us ts cur > thresh"
    and l: "loses s ts ((u_packet_tracker u)\<lparr> pt_sent := q \<rparr>) t'"
    and rest: "loss_outcome thresh cur (u\<lparr> u_packet_tracker := t', u_iSndLossTotal := n,
      u_pcc_sender := pcc \<rparr>) u'"
  shows "loss_outcome thresh cur u u'"
proof -
  let ?t = "u_packet_tracker u" and ?t' = "u_packet_tracker u'"
  have fi: "flight_inv ?t" using ct by (simp add: conn_tracker_def)
  have only: "ts' = ts" if "pt_sent_time_map ?t ts' = Some s" for ts'
    using flight_inv_sent[OF fi that] flight_inv_sent[OF fi e] by auto
  have frame: "pt_record_map ?t' x = pt_record_map t' x"
    if "\<forall>ts. pt_sent_time_map t' ts = Some x \<longrightarrow> elapsed_us ts cur \<le> thresh" for x
    using rest that by (simp add: loss_outcome_def Let_def)
  have m': "pt_sent_time_map t' = (pt_sent_time_map ?t)(ts := None)" using l by (simp add: loses_def)
  have s': "GetPacketState s ?t' = PACKET_STATE_LOST"
  proof -
    have "pt_record_map ?t' s = pt_record_map t' s"
      using only by (intro frame) (auto simp: m')
    then show ?thesis using l by (simp add: loses_def GetPacketState_def)
  qed
  have sz: "\<forall>x. GetPacketSize x ?t' = GetPacketSize x ?t"
    using rest l by (simp add: loss_outcome_def loses_def Let_def GetPacketSize_def)
  have "pt_record_map ?t' x = pt_record_map ?t x"
    if "\<forall>ts. pt_sent_time_map ?t ts = Some x \<longrightarrow> elapsed_us ts cur \<le> thresh" for x
  proof -
    have "x \<noteq> s" using that e old by force
    then have "pt_record_map t' x = pt_record_map ?t x" using l by (simp add: loses_def)
    moreover have "pt_record_map ?t' x = pt_record_map t' x"
      using that by (intro frame) (auto simp: m')
    ultimately show ?thesis by simp
  qed
  moreover have "if elapsed_us ts' cur > thresh
      then pt_sent_time_map ?t' ts' = None \<and> GetPacketState x ?t' = PACKET_STATE_LOST
      else pt_sent_time_map ?t' ts' = Some x"
    if time: "timely cur ?t" and "pt_sent_time_map ?t ts' = Some x" for ts' x
  proof (cases "ts' = ts")
    case True
    then show ?thesis using that e old s' rest m' by (simp add: loss_outcome_def Let_def)
  next
    case False
    then have "pt_sent_time_map t' ts' = Some x" using that by (simp add: m')
    moreover have "timely cur t'" using time by (auto simp: timely_def m')
    ultimately show ?thesis using rest unfolding loss_outcome_def Let_def by simp
  qed
  moreover have "pt_sent_time_map ?t' ts' = None" if "pt_sent_time_map ?t ts' = None" for ts'
    using that rest m' by (simp add: loss_outcome_def Let_def)
  moreover have "s \<in> dom (pt_record_map ?t)" using flight_inv_sent[OF fi e] by auto
  ultimately show ?thesis
    using rest l sz unfolding loss_outcome_def Let_def loses_def
    by (auto simp: set_insort_key)
qed


text \<open>A round fails with the controller, ends the loop (when it continues, with an empty queue), or
  declares the oldest transmission lost, which makes the queue of live entries shorter.\<close>

lemma live_in_queue:
  assumes "conn_tracker t" "ts \<in> dom (pt_sent_time_map t)"
  shows "ts \<in> set (live_queue t)"
  using assms unfolding live_queue_def conn_tracker_def tracker_inv_def queues_inv_def
  by (intro skip_stale_keeps) (auto simp: live_at_def)

lemma live_queue_head_oldest:
  assumes "conn_tracker t" "live_queue t = ts # q" "ts' \<in> dom (pt_sent_time_map t)"
  shows "ts \<le> ts'"
proof -
  have "sorted (live_queue t)"
    using assms(1) by (simp add: conn_tracker_def tracker_inv_def queues_inv_def live_queue_def)
  then show ?thesis using live_in_queue[OF assms(1,3)] assms(2) by auto
qed

lemma loss_round_cases:
  assumes ct: "conn_tracker (u_packet_tracker u)" and ne: "pt_sent (u_packet_tracker u) \<noteq> []"
  obtains (fails) e where "loss_round ops thresh cur now u = Inl e"
      "controller_fails ops (u_pcc_sender u) e"
  | (ends) b u1 where "loss_round ops thresh cur now u = Inr (b, u1)" "loss_outcome thresh cur u u1"
      "b \<longrightarrow> pt_sent (u_packet_tracker u1) = []" "u_pcc_sender u1 = u_pcc_sender u"
  | (one) u2 where "loss_round ops thresh cur now u = Inr (True, u2)" "conn_tracker (u_packet_tracker u2)"
      "loss_report ops (u_pcc_sender u) (u_pcc_sender u2)"
      "length (live_queue (u_packet_tracker u2)) < length (live_queue (u_packet_tracker u))"
      "\<And>u'. loss_outcome thresh cur u2 u' \<Longrightarrow> loss_outcome thresh cur u u'"
proof (cases "live_queue (u_packet_tracker u)")
  let ?t = "u_packet_tracker u"
  case Nil
  have "conn_tracker (?t\<lparr> pt_sent := [] \<rparr>)" using clean_sent_tracker[OF ct ne] Nil by simp
  then have "loss_outcome thresh cur u (u\<lparr> u_packet_tracker := ?t\<lparr> pt_sent := [] \<rparr> \<rparr>)"
    using live_in_queue[OF ct] Nil by (intro loss_outcome_quiet[OF _ _ refl]) force+
  then show thesis
    by (rule ends[of True "u\<lparr> u_packet_tracker := ?t\<lparr> pt_sent := [] \<rparr> \<rparr>", rotated])
      (use ne Nil in \<open>simp_all add: loss_round_empty\<close>)
next
  let ?t = "u_packet_tracker u"
  case (Cons ts q)
  define u1 where "u1 = u\<lparr> u_packet_tracker := ?t\<lparr> pt_sent := ts # q \<rparr> \<rparr>"
  obtain s where s: "pt_sent_time_map ?t ts = Some s" and ct1: "conn_tracker (u_packet_tracker u1)"
    and rd: "loss_round ops thresh cur now u =
      (if elapsed_us ts cur > thresh
       then map_outcome (Pair True) (add_to_loss_record ops now s s u1) else Inr (False, u1))"
    using loss_round_oldest[OF ct ne Cons, of ops thresh cur now] unfolding u1_def by auto
  show thesis
  proof (cases "elapsed_us ts cur > thresh")
    case False
    have "elapsed_us ts' cur \<le> thresh" if "timely cur ?t" "pt_sent_time_map ?t ts' = Some x" for ts' x
    proof -
      have "ts \<le> ts'" "valid_timespec ts" "valid_timespec ts'" "ts' \<le> cur" "valid_timespec cur"
        using live_queue_head_oldest[OF ct Cons] s that by (auto simp: timely_def)
      then show ?thesis using elapsed_antitone[of ts ts' cur] False by simp
    qed
    then have "loss_outcome thresh cur u u1"
      using ct1 unfolding u1_def by (intro loss_outcome_quiet[OF _ _ refl]) auto
    then show thesis
      by (rule ends[of False u1, rotated]) (use rd False in \<open>simp_all add: u1_def\<close>)
  next
    case old: True
    have "pt_sent_time_map (u_packet_tracker u1) ts = Some s" using s by (simp add: u1_def)
    from lose_packet[OF ct1 this, of ops now] obtain t' l where l: "loses s ts (u_packet_tracker u1) t'"
      and add: "add_to_loss_record ops now s s u1 =
        map_outcome (\<lambda>pcc. u1\<lparr> u_packet_tracker := t', u_iSndLossTotal := i32 (u_iSndLossTotal u1 + 1),
                           u_pcc_sender := pcc \<rparr>)
          (pcc_OnCongestionEvent ops False 0 (i64 now) [] [l] (u_pcc_sender u1))" by blast
    show thesis
    proof (cases "pcc_OnCongestionEvent ops False 0 (i64 now) [] [l] (u_pcc_sender u1)")
      case (Inl e)
      then show thesis using rd old add by (intro fails[of e]) (auto simp: u1_def dest: controller_fails_now)
    next
      case (Inr pcc)
      let ?u2 = "u\<lparr> u_packet_tracker := t', u_iSndLossTotal := i32 (u_iSndLossTotal u + 1),
        u_pcc_sender := pcc \<rparr>"
      have m': "pt_sent_time_map t' = (pt_sent_time_map ?t)(ts := None)" "pt_sent t' = ts # q"
          "conn_tracker t'"
        using l by (simp_all add: loses_def u1_def)
      show thesis
      proof (rule one[of ?u2])
        show "loss_round ops thresh cur now u = Inr (True, ?u2)" using rd old add Inr by (simp add: u1_def)
        show "loss_report ops (u_pcc_sender u) (u_pcc_sender ?u2)"
          using Inr by (auto simp: loss_report_def u1_def)
        have "length (live_queue t') \<le> length q"
          by (rule live_queue_shrinks[of "u_packet_tracker u1" ts]) (simp_all add: u1_def m')
        then show "length (live_queue (u_packet_tracker ?u2)) < length (live_queue ?t)"
          using Cons by simp
        show "loss_outcome thresh cur u u'" if "loss_outcome thresh cur ?u2 u'" for u'
          by (rule loss_outcome_step[OF s ct old _ that]) (use l in \<open>simp add: u1_def\<close>)
      qed (use m' in auto)
    qed
  qed
qed

lemma loss_outcome_refl:
  assumes "conn_tracker (u_packet_tracker u)" "pt_sent (u_packet_tracker u) = []"
  shows "loss_outcome thresh cur u u"
proof -
  have "dom (pt_sent_time_map (u_packet_tracker u)) = {}" using live_in_queue[OF assms(1)] assms(2)
    by (auto simp: live_queue_def)
  then have "loss_outcome thresh cur u (u\<lparr> u_packet_tracker := (u_packet_tracker u)\<lparr> pt_sent := [] \<rparr> \<rparr>)"
    using assms by (intro loss_outcome_quiet[OF _ _ refl]) (auto simp flip: assms(2))
  then show ?thesis by (simp flip: assms(2))
qed

lemma detect_losses_ends:
  assumes "conn_tracker (u_packet_tracker u)"
    and "pt_sent (u_packet_tracker u) \<noteq> [] \<longrightarrow> length (live_queue (u_packet_tracker u)) < fuel"
  shows "(\<exists>e. detect_losses fuel ops thresh cur now u = Inl e \<and> controller_fails ops (u_pcc_sender u) e) \<or>
    (\<exists>u'. detect_losses fuel ops thresh cur now u = Inr u' \<and> loss_outcome thresh cur u u' \<and>
       (loss_report ops)\<^sup>*\<^sup>* (u_pcc_sender u) (u_pcc_sender u'))"
  using assms
proof (induction fuel arbitrary: u)
  case 0
  then show ?case using loss_outcome_refl[of u] by (auto simp: HasSentPackets_def)
next
  case (Suc fuel)
  show ?case
  proof (cases "pt_sent (u_packet_tracker u) = []")
    case True
    then show ?thesis using loss_outcome_refl[of u] Suc(2) by (auto simp: HasSentPackets_def)
  next
    case ne: False
    from Suc(2) ne show ?thesis
    proof (cases rule: loss_round_cases[where cur = cur and ops = ops and thresh = thresh and now = "now fuel"])
      case (ends b u1)
      moreover have "detect_losses fuel ops thresh cur now u1 = Inr u1" if b
        using that ends(3) by (cases fuel) (auto simp: HasSentPackets_def)
      ultimately show ?thesis using ne by (cases b) (auto simp: HasSentPackets_def)
    next
      case (one u2)
      then have "(\<exists>e. detect_losses fuel ops thresh cur now u2 = Inl e \<and> controller_fails ops (u_pcc_sender u2) e) \<or>
          (\<exists>u'. detect_losses fuel ops thresh cur now u2 = Inr u' \<and> loss_outcome thresh cur u2 u' \<and>
             (loss_report ops)\<^sup>*\<^sup>* (u_pcc_sender u2) (u_pcc_sender u'))"
        using Suc(3) ne by (intro Suc.IH) auto
      moreover have "detect_losses (Suc fuel) ops thresh cur now u = detect_losses fuel ops thresh cur now u2"
        using one(1) ne by (simp add: HasSentPackets_def)
      ultimately show ?thesis
        using one(5) controller_fails_later[OF one(3)] converse_rtranclp_into_rtranclp[of "loss_report ops", OF one(3)]
        by metis
    qed (use ne in \<open>auto simp: HasSentPackets_def\<close>)
  qed
qed

end
