(* ===== verification/Udt_Connection.thy ===== *)
theory Udt_Connection
  imports Udt_Losses
begin

text \<open>Runs of a connection: the operations of Udt\_Sender as steps, the invariant they keep, and
  what each of them achieves.  The steps are those of the user thread (send), the sender thread
  (packData) and the receiver thread (ProcessAck, checkTimers).  A send that waits for space is a
  step of the state in which the wait ends, since it has changed nothing before.

  Sequence numbers are compared with \<open><\<close> by the tracker, so the runs considered end before the
  numbers wrap; a packet has fewer than 2147483647 transmissions and fewer than \<open>2 ^ 62\<close> bytes are
  in flight.\<close>

subsection \<open>Steps and invariant\<close>

inductive udt_step :: "platform \<Rightarrow> 's pcc_ops \<Rightarrow> 's udt \<Rightarrow> 's udt \<Rightarrow> bool" for pf ops where
  Send: "len \<le> 2147483647 \<Longrightarrow> u_iSndCurrSeqNo u + len < 2147483647 \<Longrightarrow>
    udt_send (\<lambda>u. u) rd data len u = Inr (n, u') \<Longrightarrow> udt_step pf ops u u'"
| Pack: "(\<And>s. few_messages s (u_packet_tracker u)) \<Longrightarrow> u_BytesInFlight u < 2 ^ 62 \<Longrightarrow>
    packData pf ops rd packet ts u = Inr (n, packet', ts', u') \<Longrightarrow> udt_step pf ops u u'"
| Ack: "ProcessAck ops rd packet u = Inr u' \<Longrightarrow> udt_step pf ops u u'"
| Timers: "checkTimers pf ops rd ack_interval ack_period losses u = Inr u' \<Longrightarrow> udt_step pf ops u u'"
| Mss: "udt_resizeMSS rd mss u = Inr u' \<Longrightarrow> udt_step pf ops u u'"

inductive_cases udt_stepE: "udt_step pf ops u u'"

inductive udt_run :: "platform \<Rightarrow> 's pcc_ops \<Rightarrow> 's udt \<Rightarrow> 's udt \<Rightarrow> bool" for pf ops where
  Opened: "udt_run pf ops u u"
| Step: "udt_run pf ops u u' \<Longrightarrow> udt_step pf ops u' u'' \<Longrightarrow> udt_run pf ops u u''"

text \<open>A connection as open and connect leave it: the initial sequence number is the next one.\<close>

definition udt_fresh :: "'s udt \<Rightarrow> bool" where
  "udt_fresh u \<longleftrightarrow> u_packet_tracker u = tracker_new \<and> u_BytesInFlight u = 0 \<and>
     -1 \<le> u_iSndCurrSeqNo u \<and> u_iSndCurrSeqNo u < 2147483647"

definition seqs_used :: "packet_tracker \<Rightarrow> int set" where
  "seqs_used t = dom (pt_record_map t) \<union> set (pt_send t) \<union> set (pt_retransmittable t)"

definition conn_inv :: "'s udt \<Rightarrow> bool" where
  "conn_inv u \<longleftrightarrow>
     conn_tracker (u_packet_tracker u)
     \<and> flight_of (pt_record_map (u_packet_tracker u)) \<le> u_BytesInFlight u
     \<and> u_BytesInFlight u \<le> 9223372036854775807
     \<and> (\<forall>s. 0 \<le> GetPacketSize s (u_packet_tracker u) \<and> GetPacketSize s (u_packet_tracker u) \<le> 2147483647)
     \<and> seqs_used (u_packet_tracker u) \<subseteq> {0..u_iSndCurrSeqNo u}
     \<and> -1 \<le> u_iSndCurrSeqNo u \<and> u_iSndCurrSeqNo u < 2147483647"

lemma udt_fresh_inv: "udt_fresh u \<Longrightarrow> conn_inv u"
  using tracker_new_inv by (simp add: udt_fresh_def conn_inv_def conn_tracker_def seqs_used_def
    flight_inv_def tracker_new_def GetPacketSize_def)

lemma conn_inv_tracker [dest]: "conn_inv u \<Longrightarrow> conn_tracker (u_packet_tracker u)"
  by (simp add: conn_inv_def)

text \<open>The invariant depends on three members only.\<close>

lemma conn_inv_cong:
  "conn_inv u \<Longrightarrow> u_packet_tracker u' = u_packet_tracker u \<Longrightarrow> u_BytesInFlight u' = u_BytesInFlight u
     \<Longrightarrow> u_iSndCurrSeqNo u' = u_iSndCurrSeqNo u \<Longrightarrow> conn_inv u'"
  by (simp add: conn_inv_def)

lemma flight_nonneg: "conn_tracker t \<Longrightarrow> 0 \<le> flight_of (pt_record_map t)"
  by (rule flight_of_nonneg) (simp add: conn_tracker_def tracker_inv_def record_inv_def)

subsection \<open>Sending\<close>

lemma incseq_next: "-1 \<le> s \<Longrightarrow> s < 2147483647 \<Longrightarrow> incseq s = s + 1"
  by (simp add: incseq_def m_iMaxSeqNo_def)

lemma enqueue_packet_inv:
  assumes inv: "conn_inv u" and room: "u_iSndCurrSeqNo u + 1 < 2147483647"
    and n: "length payload \<le> 2147483647"
    and enq: "EnqueuePacket (u_iSndCurrSeqNo u + 1) payload (u_packet_tracker u) = Inr t"
  shows "conn_inv (u\<lparr> u_iSndCurrSeqNo := u_iSndCurrSeqNo u + 1, u_packet_tracker := t \<rparr>)"
proof -
  let ?s = "u_iSndCurrSeqNo u + 1" and ?t = "u_packet_tracker u"
  have ti: "tracker_inv ?t" and fi: "flight_inv ?t" using inv by (auto simp: conn_inv_def conn_tracker_def)
  have used: "seqs_used ?t \<subseteq> {0..u_iSndCurrSeqNo u}" "-1 \<le> u_iSndCurrSeqNo u"
    using inv by (simp_all add: conn_inv_def)
  have fresh: "fresh_seq ?s ?t"
    using used room by (auto simp: fresh_seq_def seqs_used_def i32_range_def)
  have fin: "finite (dom (pt_record_map ?t))" using ti by (simp add: tracker_inv_def)
  have "card (dom (pt_record_map ?t)) \<le> card {0..u_iSndCurrSeqNo u}"
    using used(1) by (intro card_mono) (auto simp: seqs_used_def)
  then have few: "pt_cur_num_packets ?t < 2147483647"
    using ti used(2) room by (simp add: tracker_inv_def)
  have "tracker_inv t" using EnqueuePacket_inv[OF ti fresh few, of payload] enq by auto
  moreover have "flight_inv t"
    using enqueue_flight_inv[OF fi enq] fresh by (simp add: fresh_seq_def)
  moreover note f = EnqueuePacket_frame[OF enq]
  moreover have "flight_of (pt_record_map t) = flight_of (pt_record_map ?t)"
    using flight_of_insert[OF fin] f by (simp add: record_flight_def new_packet_record_def)
  moreover have "GetPacketSize s t = (if s = ?s then int (length payload) else GetPacketSize s ?t)" for s
    using f by (simp add: GetPacketSize_def new_packet_record_def)
  moreover have "seqs_used t \<subseteq> {0..?s}"
    using used f by (force simp: seqs_used_def set_insort_key)
  ultimately show ?thesis
    using inv room n by (simp add: conn_inv_def conn_tracker_def)
qed

lemma enqueue_data_stuck:
  "u_iPayloadSize u \<le> 0 \<Longrightarrow> data \<noteq> [] \<Longrightarrow> enqueue_data fuel data u \<noteq> Inr u'"
  by (induction fuel arbitrary: u) (auto simp: Let_def GetNextSeqNo_def bind_outcome_Inr_iff)

lemma enqueue_data_inv:
  assumes "conn_inv u" "u_iSndCurrSeqNo u + int (length data) < 2147483647" "length data \<le> 2147483647"
    and "enqueue_data fuel data u = Inr u'"
  shows "conn_inv u'"
  using assms
proof (induction fuel arbitrary: data u)
  case (Suc fuel)
  show ?case
  proof (cases "data = []")
    case False
    let ?n = "nat (u_iPayloadSize u)"
    have n: "0 < ?n" using enqueue_data_stuck[of u data "Suc fuel" u'] False Suc.prems(4)
      by (cases "u_iPayloadSize u \<le> 0") (simp_all del: enqueue_data.simps)
    have cur: "-1 \<le> u_iSndCurrSeqNo u" "u_iSndCurrSeqNo u + 1 < 2147483647"
      using Suc.prems(1,2) False by (auto simp: conn_inv_def neq_Nil_conv)
    obtain t where t: "EnqueuePacket (u_iSndCurrSeqNo u + 1) (map uint (take ?n data)) (u_packet_tracker u) = Inr t"
      and rest: "enqueue_data fuel (drop ?n data)
        (u\<lparr> u_iSndCurrSeqNo := u_iSndCurrSeqNo u + 1, u_packet_tracker := t \<rparr>) = Inr u'"
      using Suc.prems(4) False cur
      by (auto simp: Let_def GetNextSeqNo_def incseq_next bind_outcome_Inr_iff)
    have "conn_inv (u\<lparr> u_iSndCurrSeqNo := u_iSndCurrSeqNo u + 1, u_packet_tracker := t \<rparr>)"
      using Suc.prems(1,3) cur(2) t by (intro enqueue_packet_inv) auto
    then show ?thesis
    proof (rule Suc.IH)
      show "u_iSndCurrSeqNo (u\<lparr> u_iSndCurrSeqNo := u_iSndCurrSeqNo u + 1, u_packet_tracker := t \<rparr>)
        + int (length (drop ?n data)) < 2147483647"
        using n Suc.prems(2) False by (cases data) auto
    qed (use Suc.prems(3) rest in auto)
  qed (use Suc.prems in simp)
qed (auto split: if_splits)


text \<open>A send that returns has enqueued its data, or nothing.\<close>

lemma check_connected_Inr: "check_connected u r = Inr x \<Longrightarrow> r = Inr x"
  by (simp add: check_connected_def split: if_splits)

lemma await_space_Inr: "await_space (\<lambda>u. u) u k = Inr x \<Longrightarrow> k u = Inr x"
  by (auto simp: await_space_def Let_def split: if_splits dest: check_connected_Inr)

lemma udt_send_cases:
  assumes "udt_send (\<lambda>u. u) rd data len u = Inr (n, u')"
  obtains (idle) "u' = u" "n = 0"
  | (queued) u2 where "0 < len" "nat len \<le> length data"
      "enqueue_data (nat len) (take (nat len) data) u = Inr u2" "finish_send rd data len u2 = Inr (n, u')"
proof -
  note r = assms[unfolded udt_send_def]
  show thesis
  proof (cases "len \<le> 0")
    case True
    then have "u' = u \<and> n = 0" using r by (auto split: if_splits dest!: check_connected_Inr)
    then show thesis using idle by blast
  next
    case False
    then have k: "(if \<not> CanEnqueuePacket (u_packet_tracker u)
           then (if u_iSndTimeOut u \<ge> 0 then Inl (Udt_Error 6 1) else Inr (0, u))
           else bind_outcome
             (guard_outcome Out_Of_Bounds (nat len \<le> length data)
                (enqueue_data (nat len) (take (nat len) data) u)) (finish_send rd data len)) = Inr (n, u')"
      using r by (auto split: if_splits dest!: check_connected_Inr await_space_Inr)
    then show thesis
    proof (cases "CanEnqueuePacket (u_packet_tracker u)")
      case True
      then show thesis using k False
        by (auto simp: bind_outcome_Inr_iff guard_outcome_Inr_iff intro: queued)
    next
      case False
      then have "u' = u \<and> n = 0" using k by (auto split: if_splits)
      then show thesis using idle by blast
    qed
  qed
qed

lemma finish_send_frame:
  assumes "finish_send rd data len u = Inr (n, u')"
  shows "u_packet_tracker u' = u_packet_tracker u \<and> u_BytesInFlight u' = u_BytesInFlight u
    \<and> u_iSndCurrSeqNo u' = u_iSndCurrSeqNo u \<and> n = buffer_room len u"
  using assms unfolding finish_send_def Let_def
  by (cases "getCurrBufSize (u_pSndBuffer u) = 0") (clarsimp simp: map_outcome_Inr_iff)+

lemma udt_send_inv:
  assumes "conn_inv u" "len \<le> 2147483647" "u_iSndCurrSeqNo u + len < 2147483647"
    and "udt_send (\<lambda>u. u) rd data len u = Inr (n, u')"
  shows "conn_inv u'"
  using assms(4)
proof (cases rule: udt_send_cases)
  case (queued u2)
  have "length (take (nat len) data) \<le> nat len" by simp
  then have "conn_inv u2" using assms(2,3) queued(1)
    by (intro enqueue_data_inv[OF assms(1) _ _ queued(3)]) linarith+
  then show ?thesis using finish_send_frame[OF queued(4)] by (auto intro: conn_inv_cong)
qed (use assms(1) in simp)

subsection \<open>Transmitting\<close>

text \<open>packData takes the packet that the tracker selects; the bytes in flight grow when it has not
  been transmitted before.\<close>

lemma select_tracker:
  assumes "conn_tracker t" "select_packet t = (sel, t1)"
  shows "conn_tracker t1 \<and> pt_record_map t1 = pt_record_map t \<and> seqs_used t1 \<subseteq> seqs_used t
    \<and> pt_sent_time_map t1 = pt_sent_time_map t"
proof -
  let ?r = "clean_retransmittable t"
  have t1: "t1 = ?r \<or> t1 = clean_send ?r"
    using assms(2) by (auto simp: select_packet_eq Let_def split: if_splits)
  have ti: "tracker_inv ?r" "tracker_inv (clean_send ?r)"
    using assms(1) clean_send_inv clean_retransmittable_inv by (auto simp: conn_tracker_def)
  have sub: "set (pt_retransmittable ?r) \<subseteq> set (pt_retransmittable t)"
    "set (pt_send (clean_send ?r)) \<subseteq> set (pt_send t)"
    using skip_stale_set by (fastforce simp: clean_retransmittable_def clean_send_def)+
  have d: "distinct (pt_retransmittable ?r)"
    using assms(1) by (simp add: conn_tracker_def flight_inv_def clean_retransmittable_def skip_stale_distinct)
  have m: "pt_sent_time_map ?r = pt_sent_time_map t" "pt_sent_time_map (clean_send ?r) = pt_sent_time_map t"
    by (simp_all add: clean_retransmittable_def clean_send_def)
  have "flight_inv ?r" "flight_inv (clean_send ?r)"
    using assms(1) sub d m by (auto simp: conn_tracker_def flight_inv_def)
  then show ?thesis
    using t1 ti sub m by (auto simp: conn_tracker_def seqs_used_def)
qed

lemma choose_packet_select:
  assumes "conn_tracker (u_packet_tracker u)" "select_packet (u_packet_tracker u) = (sel, t1)"
  shows "choose_packet u = (case sel of
      None \<Rightarrow> (None, u\<lparr> u_packet_tracker := t1 \<rparr>)
    | Some s \<Rightarrow> (Some s, if GetPacketState s (u_packet_tracker u) = PACKET_STATE_QUEUED
        then u\<lparr> u_packet_tracker := t1, u_BytesInFlight := i64 (u_BytesInFlight u + GetPacketSize s t1) \<rparr>
        else u\<lparr> u_packet_tracker := t1, u_iTraceRetrans := i32 (u_iTraceRetrans u + 1),
                u_iRetransTotal := i32 (u_iRetransTotal u + 1) \<rparr>))"
proof -
  let ?t = "u_packet_tracker u"
  let ?r = "clean_retransmittable ?t"
  have ti: "tracker_inv ?t" and fi: "flight_inv ?t" using assms(1) by (simp_all add: conn_tracker_def)
  show ?thesis
  proof (cases "pt_retransmittable ?r")
    case (Cons x q)
    have "recorded ?t x" using Cons skip_stale_hd by (auto simp: clean_retransmittable_def)
    then obtain r where r: "pt_record_map ?t x = Some r" by (auto simp: recorded_def)
    have "x \<in> set (pt_retransmittable ?t)"
      using Cons skip_stale_set[of "recorded ?t" "pt_retransmittable ?t"]
      by (auto simp: clean_retransmittable_def)
    then have "GetPacketState x ?t = PACKET_STATE_LOST"
      using flight_invD(1)[OF fi r] r by (simp add: GetPacketState_def)
    then show ?thesis
      using assms(2) Cons by (auto simp: choose_packet_def select_packet_eq Let_def
        HasRetransmittablePackets_def GetLowestRetransmittableSeqNo_def top_or_zero_def)
  next
    case Nil
    show ?thesis
    proof (cases "pt_send (clean_send ?r)")
      case (Cons x q)
      have sel: "sel = Some x" "t1 = clean_send ?r"
        using assms(2) Nil Cons by (auto simp: select_packet_eq Let_def)
      have "on_top x t1" "pt_record_map t1 = pt_record_map ?t"
        using select_packet_on_top[OF ti, of x t1] assms(2) sel by auto
      then have "GetPacketState x ?t = PACKET_STATE_QUEUED"
        using Nil sel by (auto simp: on_top_def GetPacketState_def split: option.splits if_splits)
      then show ?thesis
        using sel Nil Cons by (auto simp: choose_packet_def Let_def
          HasRetransmittablePackets_def HasSendablePackets_def GetLowestSendableSeqNo_def top_or_zero_def)
    qed (use assms(2) Nil in \<open>auto simp: choose_packet_def select_packet_eq Let_def
        HasRetransmittablePackets_def HasSendablePackets_def\<close>)
  qed
qed


text \<open>The transmission of the selected packet.\<close>

lemma selected_packet:
  assumes ct: "conn_tracker t" and sel: "select_packet t = (Some s, t1)" and few: "few_messages s t"
  shows "conn_tracker t1 \<and> tracker_inv t1 \<and> on_top s t1 \<and> few_messages s t1
    \<and> GetPacketState s t1 = GetPacketState s t \<and> GetPacketSize s t1 = GetPacketSize s t
    \<and> GetPacketState s t \<in> {PACKET_STATE_QUEUED, PACKET_STATE_LOST}"
proof -
  have ti: "tracker_inv t" and c1: "conn_tracker t1" "pt_record_map t1 = pt_record_map t"
    using ct select_tracker[OF ct sel] by (simp_all add: conn_tracker_def)
  have top: "on_top s t1" "tracker_inv t1" using select_packet_on_top[OF ti sel] by simp_all
  obtain r where r: "pt_record_map t1 s = Some r" using top(1) by (auto simp: on_top_def split: option.splits)
  have "pr_packet_state r \<in> {PACKET_STATE_QUEUED, PACKET_STATE_LOST}"
    using top(1) r flight_invD(1)[of t1 s r] c1(1) by (auto simp: on_top_def conn_tracker_def split: if_splits)
  then show ?thesis
    using c1 top r few by (simp add: GetPacketState_def GetPacketSize_def few_messages_def GetPacketLastMsgNo_def)
qed

lemma transmit_conn:
  assumes ct: "conn_tracker t" and sel: "select_packet t = (Some s, t1)" and few: "few_messages s t"
  shows "\<exists>bytes t2. transmit now s t1 = Inr (bytes, u64 (pt_prev_packet_id t + 1), t2)
    \<and> GetPacketPayloadPointer s t = Inr bytes \<and> GetPacketSize s t = int (length bytes)
    \<and> conn_tracker t2 \<and> GetPacketState s t2 = PACKET_STATE_SENT
    \<and> (\<forall>x. x \<noteq> s \<longrightarrow> pt_record_map t2 x = pt_record_map t x)
    \<and> (\<forall>x. GetPacketSize x t2 = GetPacketSize x t)
    \<and> dom (pt_record_map t2) = dom (pt_record_map t) \<and> seqs_used t2 \<subseteq> seqs_used t
    \<and> flight_of (pt_record_map t2) = flight_of (pt_record_map t) +
        (if GetPacketState s t = PACKET_STATE_QUEUED then GetPacketSize s t else 0)"
proof -
  note p = selected_packet[OF assms]
  have ti: "tracker_inv t1" and top: "on_top s t1" and f1: "few_messages s t1" and ct1: "conn_tracker t1"
    using p by simp_all
  have prev: "pt_prev_packet_id t1 = pt_prev_packet_id t"
    using select_packet_on_top[OF _ sel] ct by (simp add: conn_tracker_def)
  note st = select_tracker[OF ct sel]
  obtain bytes t2 where tr: "transmit now s t1 = Inr (bytes, u64 (pt_prev_packet_id t + 1), t2)"
    using transmit_inv[OF ti top f1, of now] prev by auto
  obtain r r1 where r: "pt_record_map t1 s = Some r" and b: "bytes = pr_payload r"
    and f: "pt_record_map t2 = (pt_record_map t1)(s \<mapsto> r1)" "pr_packet_size r1 = pr_packet_size r"
      "pr_packet_state r1 = PACKET_STATE_SENT" "tracker_inv t2"
      "pt_retransmittable t2 = (if pr_packet_state r = PACKET_STATE_QUEUED
         then pt_retransmittable t1 else tl (pt_retransmittable t1))"
      "pt_send t2 = (if pr_packet_state r = PACKET_STATE_QUEUED then tl (pt_send t1) else pt_send t1)"
    using transmit_frame[OF ti top f1 tr] by blast
  have "flight_inv t2" using transmit_flight_inv[OF _ ti top f1 tr] ct1 by (simp add: conn_tracker_def)
  moreover have sz: "pr_packet_size r = int (length bytes)"
    using tracker_inv_record[OF ti r] b by (simp add: record_inv_def)
  moreover have "flight_of (pt_record_map t2) = flight_of (pt_record_map t1) - record_flight r + record_flight r1"
    using flight_of_update[of "pt_record_map t1" s r r1] r ti by (simp add: f(1) tracker_inv_def)
  moreover have "set (tl xs) \<subseteq> set xs" for xs :: "int list" by (cases xs) auto
  then have "seqs_used t2 \<subseteq> seqs_used t1"
    using r by (auto simp: seqs_used_def f(1,5,6))
  ultimately show ?thesis
    using tr st r f(1-4) b by (auto simp: conn_tracker_def GetPacketState_def GetPacketSize_def
      GetPacketPayloadPointer_def record_flight_def dom_def)
qed

text \<open>What packData does, in the order of its returns.\<close>

definition pack_blocked :: "'s pcc_ops \<Rightarrow> 's udt \<Rightarrow> bool" where
  "pack_blocked ops u \<longleftrightarrow> \<not> pcc_CanSend ops (u_pcc_sender u) (u_BytesInFlight u)"

lemma note_delay_frame [simp]:
  "u_packet_tracker (note_delay e u) = u_packet_tracker u"
  "u_BytesInFlight (note_delay e u) = u_BytesInFlight u"
  "u_iSndCurrSeqNo (note_delay e u) = u_iSndCurrSeqNo u"
  "u_pcc_sender (note_delay e u) = u_pcc_sender u"
  "u_PeerID (note_delay e u) = u_PeerID u"
  "u_StartTime (note_delay e u) = u_StartTime u"
  "u_ullTargetTime (note_delay e u) = u_ullTargetTime u"
  "u_ullCPUFrequency (note_delay e u) = u_ullCPUFrequency u"
  "u_iMSS (note_delay e u) = u_iMSS u"
  by (simp_all add: note_delay_def)

lemma pace_frame [simp]:
  "u_packet_tracker (snd (pace e i u)) = u_packet_tracker u"
  "u_BytesInFlight (snd (pace e i u)) = u_BytesInFlight u"
  "u_iSndCurrSeqNo (snd (pace e i u)) = u_iSndCurrSeqNo u"
  "u_pcc_sender (snd (pace e i u)) = u_pcc_sender u"
  by (simp_all add: pace_def Let_def)

lemma GetSendingInterval_cong:
  "u_pcc_sender u' = u_pcc_sender u \<Longrightarrow> u_ullCPUFrequency u' = u_ullCPUFrequency u \<Longrightarrow> u_iMSS u' = u_iMSS u
     \<Longrightarrow> GetSendingInterval pf ops u' = GetSendingInterval pf ops u"
  by (simp add: GetSendingInterval_def)

lemma packData_blocked:
  "pack_blocked ops u \<Longrightarrow> packData pf ops rd packet ts0 u =
     Inr (0, packet, rd_tsc rd 0, (note_delay (rd_tsc rd 0) u)\<lparr> u_ullTimeDiff := 0,
       u_ullTargetTime := i64 (rd_tsc rd 0) \<rparr>)"
  by (simp add: packData_def pack_blocked_def Let_def)

lemma packData_idle:
  assumes "conn_inv u" "\<not> pack_blocked ops u" "select_packet (u_packet_tracker u) = (None, t1)"
  shows "packData pf ops rd packet ts0 u =
    Inr (0, packet, ts0, (note_delay (rd_tsc rd 0) u)\<lparr> u_packet_tracker := t1 \<rparr>)"
  using assms choose_packet_select[of "note_delay (rd_tsc rd 0) u" None t1]
  by (simp add: packData_def pack_blocked_def Let_def conn_inv_def)

definition first_bytes :: "int \<Rightarrow> packet_tracker \<Rightarrow> int" where
  "first_bytes s t = (if GetPacketState s t = PACKET_STATE_QUEUED then GetPacketSize s t else 0)"

text \<open>The state after the choice, and the part of packData from the transmission on.\<close>

lemma choose_packet_frame:
  assumes "conn_inv u" "select_packet (u_packet_tracker u) = (Some s, t1)" "u_BytesInFlight u < 2 ^ 62"
  shows "\<exists>u1. choose_packet u = (Some s, u1) \<and> u_packet_tracker u1 = t1
    \<and> u_BytesInFlight u1 = u_BytesInFlight u + first_bytes s (u_packet_tracker u)
    \<and> u_pcc_sender u1 = u_pcc_sender u \<and> u_iSndCurrSeqNo u1 = u_iSndCurrSeqNo u
    \<and> u_PeerID u1 = u_PeerID u \<and> u_StartTime u1 = u_StartTime u
    \<and> u_ullTimeDiff u1 = u_ullTimeDiff u \<and> u_ullTargetTime u1 = u_ullTargetTime u
    \<and> u_ullCPUFrequency u1 = u_ullCPUFrequency u \<and> u_iMSS u1 = u_iMSS u"
proof -
  let ?t = "u_packet_tracker u"
  have ct: "conn_tracker ?t" using assms(1) by auto
  have "GetPacketSize s t1 = GetPacketSize s ?t"
    using select_tracker[OF ct assms(2)] by (simp add: GetPacketSize_def)
  moreover have "0 \<le> u_BytesInFlight u" "0 \<le> GetPacketSize s ?t" "GetPacketSize s ?t \<le> 2147483647"
    using assms(1) flight_nonneg[OF ct] by (auto simp: conn_inv_def)
  moreover from this have "i64 (u_BytesInFlight u + GetPacketSize s ?t) = u_BytesInFlight u + GetPacketSize s ?t"
    using assms(3) by (intro i64_id) auto
  ultimately show ?thesis
    using choose_packet_select[OF ct assms(2)] by (auto simp: first_bytes_def)
qed

lemma packData_transmit:
  assumes inv: "conn_inv u" and free: "\<not> pack_blocked ops u"
    and sel: "select_packet (u_packet_tracker u) = (Some s, t1)"
    and few: "few_messages s (u_packet_tracker u)" and bif: "u_BytesInFlight u < 2 ^ 62"
    and tr: "transmit (rd_mono rd 0) s t1 = Inr (bytes, pid, t2)"
  shows "\<exists>base. u_packet_tracker base = t2
    \<and> u_BytesInFlight base = u_BytesInFlight u + first_bytes s (u_packet_tracker u)
    \<and> u_iSndCurrSeqNo base = u_iSndCurrSeqNo u
    \<and> u_ullTimeDiff base = u_ullTimeDiff (note_delay (rd_tsc rd 0) u)
    \<and> packData pf ops rd packet ts0 u =
      bind_outcome (pcc_OnPacketSent ops (rd_rand rd) (i64 (rd_us rd 0)) pid
          (u64 (GetPacketSize s (u_packet_tracker u))) (u_pcc_sender u)) (\<lambda>pcc.
        map_outcome (\<lambda>interval. case pace (rd_tsc rd 0) (i64 interval) (base\<lparr> u_pcc_sender := pcc \<rparr>) of
            (ts, u3) \<Rightarrow> (GetPacketSize s (u_packet_tracker u),
              data_packet s (i32 (GetPacketLastMsgNo s (u_packet_tracker u) + 1)) bytes
                (GetPacketSize s (u_packet_tracker u)) (i32 (rd_us rd 1 - u_StartTime u)) (u_PeerID u) packet,
              ts, u3\<lparr> u_TotalBytes := i64 (u_TotalBytes u3 + GetPacketSize s (u_packet_tracker u)) \<rparr>))
          (GetSendingInterval pf ops (u\<lparr> u_pcc_sender := pcc \<rparr>)))"
proof -
  let ?u = "note_delay (rd_tsc rd 0) u" and ?t = "u_packet_tracker u"
  have "conn_inv ?u" by (rule conn_inv_cong[OF inv]) simp_all
  then obtain u1 where u1: "choose_packet ?u = (Some s, u1)" "u_packet_tracker u1 = t1"
      "u_BytesInFlight u1 = u_BytesInFlight u + first_bytes s ?t" "u_pcc_sender u1 = u_pcc_sender u"
      "u_iSndCurrSeqNo u1 = u_iSndCurrSeqNo u" "u_PeerID u1 = u_PeerID u" "u_StartTime u1 = u_StartTime u"
      "u_ullTimeDiff u1 = u_ullTimeDiff ?u" "u_ullCPUFrequency u1 = u_ullCPUFrequency u" "u_iMSS u1 = u_iMSS u"
    using choose_packet_frame[of ?u s t1] sel bif by auto
  have m: "GetPacketLastMsgNo s t1 = GetPacketLastMsgNo s ?t" "GetPacketSize s t1 = GetPacketSize s ?t"
    using select_tracker[OF _ sel] inv by (auto simp: conn_inv_def GetPacketSize_def GetPacketLastMsgNo_def)
  let ?base = "u1\<lparr> u_packet_tracker := t2, u_llSentTotal := i64 (u_llSentTotal u1 + 1),
      u_llTraceSent := i64 (u_llTraceSent u1 + 1) \<rparr>"
  have g: "GetSendingInterval pf ops (?base\<lparr> u_pcc_sender := pcc \<rparr>) =
      GetSendingInterval pf ops (u\<lparr> u_pcc_sender := pcc \<rparr>)" for pcc
    by (rule GetSendingInterval_cong) (simp_all add: u1)
  have "packData pf ops rd packet ts0 u =
      bind_outcome (pcc_OnPacketSent ops (rd_rand rd) (i64 (rd_us rd 0)) pid
          (u64 (GetPacketSize s ?t)) (u_pcc_sender u)) (\<lambda>pcc.
        map_outcome (\<lambda>interval. case pace (rd_tsc rd 0) (i64 interval) (?base\<lparr> u_pcc_sender := pcc \<rparr>) of
            (ts, u3) \<Rightarrow> (GetPacketSize s ?t,
              data_packet s (i32 (GetPacketLastMsgNo s ?t + 1)) bytes
                (GetPacketSize s ?t) (i32 (rd_us rd 1 - u_StartTime u)) (u_PeerID u) packet,
              ts, u3\<lparr> u_TotalBytes := i64 (u_TotalBytes u3 + GetPacketSize s ?t) \<rparr>))
          (GetSendingInterval pf ops (u\<lparr> u_pcc_sender := pcc \<rparr>)))"
    using free tr unfolding packData_def Let_def g [symmetric]
    by (simp add: pack_blocked_def u1 m)
  then show ?thesis using u1 by (intro exI[of _ ?base]) simp
qed


lemma packData_sent:
  assumes "conn_inv u" "\<not> pack_blocked ops u" "select_packet (u_packet_tracker u) = (Some s, t1)"
    and "few_messages s (u_packet_tracker u)" "u_BytesInFlight u < 2 ^ 62"
    and "transmit (rd_mono rd 0) s t1 = Inr (bytes, pid, t2)"
    and pack: "packData pf ops rd packet ts0 u = Inr (n, packet', ts, u')"
  defines "e \<equiv> rd_tsc rd 0" and "d \<equiv> u_ullTimeDiff (note_delay (rd_tsc rd 0) u)"
  shows "\<exists>i. GetSendingInterval pf ops (u\<lparr> u_pcc_sender := u_pcc_sender u' \<rparr>) = Inr i
    \<and> pcc_OnPacketSent ops (rd_rand rd) (i64 (rd_us rd 0)) pid
        (u64 (GetPacketSize s (u_packet_tracker u))) (u_pcc_sender u) = Inr (u_pcc_sender u')
    \<and> n = GetPacketSize s (u_packet_tracker u)
    \<and> packet' = data_packet s (i32 (GetPacketLastMsgNo s (u_packet_tracker u) + 1)) bytes n
        (i32 (rd_us rd 1 - u_StartTime u)) (u_PeerID u) packet
    \<and> u_packet_tracker u' = t2
    \<and> u_BytesInFlight u' = u_BytesInFlight u + first_bytes s (u_packet_tracker u)
    \<and> u_iSndCurrSeqNo u' = u_iSndCurrSeqNo u
    \<and> ts = (if d \<ge> i64 i then e else u64 (e + i64 i - d))
    \<and> u_ullTimeDiff u' = (if d \<ge> i64 i then i64 (d - i64 i) else 0) \<and> u_ullTargetTime u' = i64 ts"
proof -
  let ?n = "GetPacketSize s (u_packet_tracker u)"
  obtain base where b: "u_packet_tracker base = t2"
    "u_BytesInFlight base = u_BytesInFlight u + first_bytes s (u_packet_tracker u)"
    "u_iSndCurrSeqNo base = u_iSndCurrSeqNo u" "u_ullTimeDiff base = d"
    and eq: "packData pf ops rd packet ts0 u =
      bind_outcome (pcc_OnPacketSent ops (rd_rand rd) (i64 (rd_us rd 0)) pid (u64 ?n) (u_pcc_sender u)) (\<lambda>pcc.
        map_outcome (\<lambda>interval. case pace e (i64 interval) (base\<lparr> u_pcc_sender := pcc \<rparr>) of
            (ts, u3) \<Rightarrow> (?n,
              data_packet s (i32 (GetPacketLastMsgNo s (u_packet_tracker u) + 1)) bytes
                ?n (i32 (rd_us rd 1 - u_StartTime u)) (u_PeerID u) packet,
              ts, u3\<lparr> u_TotalBytes := i64 (u_TotalBytes u3 + ?n) \<rparr>))
          (GetSendingInterval pf ops (u\<lparr> u_pcc_sender := pcc \<rparr>)))"
    using packData_transmit[OF assms(1-6), of pf packet ts0] unfolding e_def d_def by blast
  obtain pcc where pcc: "pcc_OnPacketSent ops (rd_rand rd) (i64 (rd_us rd 0)) pid (u64 ?n) (u_pcc_sender u) = Inr pcc"
    using pack unfolding eq bind_outcome_Inr_iff by blast
  obtain i where i: "GetSendingInterval pf ops (u\<lparr> u_pcc_sender := pcc \<rparr>) = Inr i"
    using pack unfolding eq pcc by auto
  show ?thesis
    using pack unfolding eq pcc bind_outcome_simps i map_outcome_simps
    by (intro exI[of _ i]) (auto simp: pace_def Let_def b i pcc split: if_splits)
qed

lemma packData_inv:
  assumes inv: "conn_inv u" and few: "\<And>s. few_messages s (u_packet_tracker u)"
    and bif: "u_BytesInFlight u < 2 ^ 62"
    and pack: "packData pf ops rd packet ts0 u = Inr (n, packet', ts, u')"
  shows "conn_inv u'"
proof (cases "pack_blocked ops u")
  case True
  then show ?thesis using pack inv by (auto simp: packData_blocked intro: conn_inv_cong)
next
  case free: False
  let ?t = "u_packet_tracker u"
  have ct: "conn_tracker ?t" using inv by auto
  obtain sel t1 where sel: "select_packet ?t = (sel, t1)" by force
  note st = select_tracker[OF ct sel]
  show ?thesis
  proof (cases sel)
    case None
    then have "u' = (note_delay (rd_tsc rd 0) u)\<lparr> u_packet_tracker := t1 \<rparr>"
      using pack packData_idle[OF inv free] sel by simp
    then show ?thesis using inv st by (auto simp: conn_inv_def GetPacketSize_def)
  next
    case (Some s)
    note sel' = sel[unfolded Some]
    obtain bytes t2 where tr: "transmit (rd_mono rd 0) s t1 = Inr (bytes, u64 (pt_prev_packet_id ?t + 1), t2)"
      and f: "conn_tracker t2" "\<forall>x. GetPacketSize x t2 = GetPacketSize x ?t" "seqs_used t2 \<subseteq> seqs_used ?t"
        "flight_of (pt_record_map t2) = flight_of (pt_record_map ?t) + first_bytes s ?t"
      using transmit_conn[OF ct sel' few, of "rd_mono rd 0"] unfolding first_bytes_def by blast
    have "u_packet_tracker u' = t2" "u_BytesInFlight u' = u_BytesInFlight u + first_bytes s ?t"
      "u_iSndCurrSeqNo u' = u_iSndCurrSeqNo u"
      using packData_sent[OF inv free sel' few bif tr pack] by auto
    moreover have "first_bytes s ?t \<le> 2147483647" using inv by (auto simp: first_bytes_def conn_inv_def)
    ultimately show ?thesis
      using inv f bif by (auto simp: conn_inv_def)
  qed
qed

subsection \<open>Acknowledgements\<close>

lemma update_rtt_frame [simp]:
  "u_packet_tracker (update_rtt x u) = u_packet_tracker u"
  "u_BytesInFlight (update_rtt x u) = u_BytesInFlight u"
  "u_iSndCurrSeqNo (update_rtt x u) = u_iSndCurrSeqNo u"
  "u_pcc_sender (update_rtt x u) = u_pcc_sender u"
  by (simp_all add: update_rtt_def Let_def)

lemma release_acked_frame [simp]:
  "u_packet_tracker (release_acked x u) = u_packet_tracker u"
  "u_BytesInFlight (release_acked x u) = u_BytesInFlight u"
  "u_iSndCurrSeqNo (release_acked x u) = u_iSndCurrSeqNo u"
  "u_pcc_sender (release_acked x u) = u_pcc_sender u"
  by (simp_all add: release_acked_def Let_def)

text \<open>The tracker after an acknowledgement: an older transmission changes no state, the last one
  removes the packet.\<close>

lemma old_ack:
  assumes ct: "conn_tracker t" and r: "pt_record_map t s = Some r"
    and ack: "OnPacketAck now s m t = Inr t1" and old: "m \<noteq> GetPacketLastMsgNo s t"
  shows "conn_tracker t1 \<and> flight_of (pt_record_map t1) = flight_of (pt_record_map t)
    \<and> (\<forall>x. GetPacketSize x t1 = GetPacketSize x t) \<and> (\<forall>x. GetPacketState x t1 = GetPacketState x t)
    \<and> seqs_used t1 = seqs_used t"
proof -
  have ti: "tracker_inv t" and fi: "flight_inv t" using ct by (simp_all add: conn_tracker_def)
  obtain r1 ts where f: "pt_record_map t1 = (pt_record_map t)(s \<mapsto> r1)"
    "pt_sent_time_map t1 = (pt_sent_time_map t)(ts := None)" "pr_packet_size r1 = pr_packet_size r"
    "pr_packet_state r1 = pr_packet_state r" "last_sent r1 = last_sent r"
    "pt_retransmittable t1 = pt_retransmittable t" "pt_send t1 = pt_send t" "tracker_inv t1"
    using OnPacketAck_frame[OF ti r ack] old r by (auto simp: GetPacketLastMsgNo_def)
  have "flight_inv t1" by (rule old_ack_flight_inv[OF fi r f(1,4,5,2,6)])
  moreover have "flight_of (pt_record_map t1) = flight_of (pt_record_map t)"
    using flight_of_update[of "pt_record_map t" s r r1] r ti f(3,4)
    by (simp add: f(1) tracker_inv_def record_flight_def)
  ultimately show ?thesis
    using f r by (auto simp: conn_tracker_def GetPacketSize_def GetPacketState_def seqs_used_def dom_def)
qed

lemma last_ack:
  assumes ct: "conn_tracker t" and r: "pt_record_map t s = Some r"
    and ack: "OnPacketAck now s (GetPacketLastMsgNo s t) t = Inr t1"
  shows "\<exists>t2. DeletePacketRecord s t1 = Inr t2 \<and> conn_tracker t2
    \<and> pt_record_map t2 = (pt_record_map t)(s := None)
    \<and> pr_packet_state r \<noteq> PACKET_STATE_QUEUED
    \<and> flight_of (pt_record_map t2) = flight_of (pt_record_map t) - GetPacketSize s t
    \<and> GetPacketSize s t1 = GetPacketSize s t \<and> seqs_used t2 \<subseteq> seqs_used t"
proof -
  have ti: "tracker_inv t" and fi: "flight_inv t" using ct by (simp_all add: conn_tracker_def)
  let ?m = "GetPacketMostRecentMsgNo r"
  have m: "GetPacketLastMsgNo s t = ?m" using r by (simp add: GetPacketLastMsgNo_def)
  obtain r1 ts where f: "pt_record_map t1 = (pt_record_map t)(s \<mapsto> r1)" "record_sent_time ?m r = Inr ts"
    "pt_sent_time_map t1 = (pt_sent_time_map t)(ts := None)" "pr_packet_size r1 = pr_packet_size r"
    "pt_retransmittable t1 = pt_retransmittable t" "pt_send t1 = pt_send t" "tracker_inv t1"
    using OnPacketAck_frame[OF ti r ack[unfolded m]] by auto
  have "pr_packet_state r \<noteq> PACKET_STATE_QUEUED"
    using message_exists[OF ti r f(2)] tracker_inv_record[OF ti r] by (auto simp: record_inv_def)
  moreover obtain t2 where t2: "DeletePacketRecord s t1 = Inr t2" "tracker_inv t2"
      "pt_record_map t2 = (pt_record_map t1)(s := None)"
    using DeletePacketRecord_inv[OF f(7), of s r1] f(1) by auto
  moreover have q: "pt_retransmittable t2 = pt_retransmittable t1" "pt_send t2 = pt_send t1"
      "pt_sent_time_map t2 = pt_sent_time_map t1"
    using t2(1) by (auto simp: DeletePacketRecord_def Let_def split: option.splits if_splits)
  moreover have map2: "pt_record_map t2 = (pt_record_map t)(s := None)" using t2(3) f(1) by auto
  moreover have "flight_inv t2"
    using f(2,3,5) q map2 by (intro last_ack_flight_inv[OF fi r]) (auto simp: last_sent_def)
  moreover have "flight_of (pt_record_map t2) = flight_of (pt_record_map t) - record_flight r"
    using flight_of_delete[of "pt_record_map t" s r] r ti by (simp add: map2 tracker_inv_def)
  ultimately show ?thesis
    using r f(1,4-6) by (auto simp: conn_tracker_def record_flight_def GetPacketSize_def seqs_used_def)
qed


lemma handle_ack_unknown:
  assumes "pt_record_map (u_packet_tracker u) s = None"
  shows "handle_ack ops rd s m u = (if m = 0 then Inl Exit_Called else Inr (update_rtt 0 u))"
  using assms by (simp add: handle_ack_def Let_def GetPacketId_def GetPacketRtt_def tracker_record_def
    OnPacketAck_def GetPacketLastMsgNo_def DeletePacketRecord_def)

lemma handle_ack_never_sent:
  assumes "conn_tracker (u_packet_tracker u)" "pt_record_map (u_packet_tracker u) s = Some r"
    and "\<not> (1 \<le> m \<and> m \<le> GetPacketLastMsgNo s (u_packet_tracker u))"
  shows "handle_ack ops rd s m u = Inl Exit_Called"
proof -
  have rinv: "record_inv r" using assms(1,2) tracker_inv_record by (auto simp: conn_tracker_def)
  have "record_packet_id m r = Inl Exit_Called"
    using assms(2,3) by (auto simp: record_packet_id_def SafeGetMessageRecord_eq[OF rinv]
      GetPacketLastMsgNo_def most_recent_eq[OF rinv])
  then show ?thesis
    using assms(2) by (simp add: handle_ack_def Let_def GetPacketId_def tracker_record_def)
qed

lemma ack_message:
  assumes ct: "conn_tracker t" and r: "pt_record_map t s = Some r"
    and m: "1 \<le> m" "m \<le> GetPacketLastMsgNo s t"
  shows "\<exists>t1 pid sent. OnPacketAck now s m t = Inr t1 \<and> GetPacketId s m t = Inr pid
    \<and> GetPacketSentTime s m t = Inr sent \<and> GetPacketRtt s m t1 = Inr (elapsed_us sent now)"
proof -
  have ti: "tracker_inv t" using ct by (simp add: conn_tracker_def)
  note rinv = tracker_inv_record[OF ti r]
  have n: "m \<le> int (length (pr_msg_records r))"
    using m(2) r by (simp add: GetPacketLastMsgNo_def most_recent_eq[OF rinv])
  obtain t1 where "OnPacketAck now s m t = Inr t1"
      "GetPacketRtt s m t1 = Inr (elapsed_us (mr_sent_time (pr_msg_records r ! nat (m - 1))) now)"
    using OnPacketAck_inv[OF ti r m(1) n, of now] by auto
  moreover have "GetPacketSentTime s m t = Inr (mr_sent_time (pr_msg_records r ! nat (m - 1)))"
      "GetPacketId s m t = Inr (mr_packet_id (pr_msg_records r ! nat (m - 1)))"
    using r m n by (simp_all add: GetPacketSentTime_def GetPacketId_def tracker_record_def
      record_sent_time_def record_packet_id_def SafeGetMessageRecord_eq[OF rinv])
  ultimately show ?thesis by blast
qed

text \<open>The two ways an acknowledgement of a recorded packet goes.\<close>

lemma handle_ack_old:
  assumes "OnPacketAck (rd_mono rd 0) s m (u_packet_tracker u) = Inr t1"
    and "GetPacketId s m (u_packet_tracker u) = Inr pid" "GetPacketRtt s m t1 = Inr rtt"
    and "m \<noteq> GetPacketLastMsgNo s (u_packet_tracker u)"
  shows "handle_ack ops rd s m u = Inr (update_rtt rtt (u\<lparr> u_packet_tracker := t1 \<rparr>))"
  using assms by (simp add: handle_ack_def Let_def)

lemma handle_ack_last:
  assumes "OnPacketAck (rd_mono rd 0) s m (u_packet_tracker u) = Inr t1"
    and "GetPacketId s m (u_packet_tracker u) = Inr pid" "GetPacketRtt s m t1 = Inr rtt"
    and "m = GetPacketLastMsgNo s (u_packet_tracker u)" "DeletePacketRecord s t1 = Inr t2"
  shows "handle_ack ops rd s m u =
    bind_outcome (GetMinSeqNo t2) (\<lambda>ack_no.
      let u2 = release_acked ack_no ((update_rtt rtt (u\<lparr> u_packet_tracker := t1 \<rparr>))\<lparr> u_packet_tracker := t2 \<rparr>)
      in if GetPacketState s (u_packet_tracker u) = PACKET_STATE_LOST \<or> pid = 0 then Inr u2
         else ack_event ops rd pid (GetPacketSize s t1) rtt u2)"
  using assms by (simp add: handle_ack_def Let_def)

lemma ack_event_frame:
  assumes "ack_event ops rd pid n rtt u = Inr u'"
  shows "u_packet_tracker u' = u_packet_tracker u \<and> u_iSndCurrSeqNo u' = u_iSndCurrSeqNo u
    \<and> u_BytesInFlight u' = i64 (u_BytesInFlight u - n)
    \<and> pcc_OnCongestionEvent ops True (i64 rtt) (i64 (rd_us rd 1))
        [\<lparr> ap_packet_number = pid, ap_bytes_acked = u64 n, ap_receive_timestamp = i64 (rd_us rd 0) \<rparr>]
        [] (u_pcc_sender u) = Inr (u_pcc_sender u')"
  using assms by (auto simp: ack_event_def)

lemma conn_inv_shrink:
  assumes "conn_inv u" "conn_tracker (u_packet_tracker u')" "u_iSndCurrSeqNo u' = u_iSndCurrSeqNo u"
    and "seqs_used (u_packet_tracker u') \<subseteq> seqs_used (u_packet_tracker u)"
    and "\<And>s. GetPacketSize s (u_packet_tracker u') \<in> {0, GetPacketSize s (u_packet_tracker u)}"
    and "flight_of (pt_record_map (u_packet_tracker u')) \<le> u_BytesInFlight u'"
    and "u_BytesInFlight u' \<le> u_BytesInFlight u"
  shows "conn_inv u'"
proof -
  have "0 \<le> GetPacketSize s (u_packet_tracker u') \<and> GetPacketSize s (u_packet_tracker u') \<le> 2147483647" for s
    using assms(1) assms(5)[of s] by (auto simp: conn_inv_def)
  then show ?thesis using assms by (auto simp: conn_inv_def)
qed

lemma handle_ack_inv:
  assumes inv: "conn_inv u" and ack: "handle_ack ops rd s m u = Inr u'"
  shows "conn_inv u'"
proof (cases "pt_record_map (u_packet_tracker u) s")
  case None
  then show ?thesis using ack inv by (auto simp: handle_ack_unknown intro: conn_inv_cong split: if_splits)
next
  case r: (Some r)
  let ?t = "u_packet_tracker u"
  have ct: "conn_tracker ?t" using inv by auto
  have m: "1 \<le> m" "m \<le> GetPacketLastMsgNo s ?t"
    using handle_ack_never_sent[OF ct r, of m ops rd] ack by force+
  obtain t1 pid rtt where a: "OnPacketAck (rd_mono rd 0) s m ?t = Inr t1" "GetPacketId s m ?t = Inr pid"
      "GetPacketRtt s m t1 = Inr rtt"
    using ack_message[OF ct r m, of "rd_mono rd 0"] by blast
  show ?thesis
  proof (cases "m = GetPacketLastMsgNo s ?t")
    case False
    then have "u' = update_rtt rtt (u\<lparr> u_packet_tracker := t1 \<rparr>)" using handle_ack_old[OF a] ack by simp
    then show ?thesis using old_ack[OF ct r a(1) False] inv by (intro conn_inv_shrink[OF inv]) (auto simp: conn_inv_def)
  next
    case True
    obtain t2 where d: "DeletePacketRecord s t1 = Inr t2" and f: "conn_tracker t2"
        "pt_record_map t2 = (pt_record_map ?t)(s := None)" "GetPacketSize s t1 = GetPacketSize s ?t"
        "flight_of (pt_record_map t2) = flight_of (pt_record_map ?t) - GetPacketSize s ?t"
        "seqs_used t2 \<subseteq> seqs_used ?t"
      using last_ack[OF ct r a(1)[unfolded True]] by blast
    obtain ack_no where g: "GetMinSeqNo t2 = Inr ack_no"
      using ack handle_ack_last[OF a True d] by (cases "GetMinSeqNo t2") auto
    define u2 where "u2 = release_acked ack_no
      ((update_rtt rtt (u\<lparr> u_packet_tracker := t1 \<rparr>))\<lparr> u_packet_tracker := t2 \<rparr>)"
    have u2: "u_packet_tracker u2 = t2" "u_BytesInFlight u2 = u_BytesInFlight u"
      "u_iSndCurrSeqNo u2 = u_iSndCurrSeqNo u" by (simp_all add: u2_def)
    have b: "flight_of (pt_record_map t2) \<le> u_BytesInFlight u - GetPacketSize s ?t"
      "0 \<le> u_BytesInFlight u - GetPacketSize s ?t" "u_BytesInFlight u \<le> 9223372036854775807"
      "0 \<le> GetPacketSize s ?t"
      using inv f(4) flight_nonneg[OF f(1)] by (simp_all add: conn_inv_def)
    have sz: "GetPacketSize x t2 \<in> {0, GetPacketSize x ?t}" for x by (simp add: f(2) GetPacketSize_def)
    have eq: "handle_ack ops rd s m u = (if GetPacketState s ?t = PACKET_STATE_LOST \<or> pid = 0 then Inr u2
         else ack_event ops rd pid (GetPacketSize s ?t) rtt u2)"
      using handle_ack_last[OF a True d, of ops] g f(3) by (simp add: u2_def Let_def)
    consider "u' = u2" | "ack_event ops rd pid (GetPacketSize s ?t) rtt u2 = Inr u'"
      using ack[unfolded eq]
      by (cases "GetPacketState s ?t = PACKET_STATE_LOST \<or> pid = 0")
        (simp only: if_True if_False sum.inject | blast)+
    then show ?thesis
    proof cases
      case 1
      then show ?thesis using u2 f(1,5) b sz by (intro conn_inv_shrink[OF inv]) auto
    next
      case 2
      note e = ack_event_frame[OF 2]
      have "u_BytesInFlight u' = u_BytesInFlight u - GetPacketSize s ?t"
        using e u2(2) b by simp
      then show ?thesis using e u2 f(1,5) b sz by (intro conn_inv_shrink[OF inv]) auto
    qed
  qed
qed


subsection \<open>Timers and runs\<close>

lemma sendCtrl_frame:
  assumes "sendCtrl rd ty lp rp n u = Inr u'"
  shows "u_packet_tracker u' = u_packet_tracker u \<and> u_BytesInFlight u' = u_BytesInFlight u
    \<and> u_iSndCurrSeqNo u' = u_iSndCurrSeqNo u"
  using assms by (auto simp: sendCtrl_def send_packet_def Let_def split: if_splits)

lemma exp_timer_frame:
  assumes "exp_timer pf rd currtime u = Inr u'"
  shows "u_packet_tracker u' = u_packet_tracker u \<and> u_BytesInFlight u' = u_BytesInFlight u
    \<and> u_iSndCurrSeqNo u' = u_iSndCurrSeqNo u"
  using assms by (auto simp: exp_timer_def dest: sendCtrl_frame split: if_splits)

lemma other_timers_frame [simp]:
  "u_packet_tracker (ack_timer rd i p u) = u_packet_tracker u"
  "u_BytesInFlight (ack_timer rd i p u) = u_BytesInFlight u"
  "u_iSndCurrSeqNo (ack_timer rd i p u) = u_iSndCurrSeqNo u"
  "u_packet_tracker (snd (nak_timer rd c l u)) = u_packet_tracker u"
  "u_BytesInFlight (snd (nak_timer rd c l u)) = u_BytesInFlight u"
  "u_iSndCurrSeqNo (snd (nak_timer rd c l u)) = u_iSndCurrSeqNo u"
  by (simp_all add: ack_timer_def nak_timer_def)

lemma loss_outcome_inv:
  assumes inv: "conn_inv u" and l: "loss_outcome thresh cur u u'"
  shows "conn_inv u'"
proof -
  have eq: "u' = u\<lparr> u_packet_tracker := u_packet_tracker u', u_pcc_sender := u_pcc_sender u',
      u_iSndLossTotal := u_iSndLossTotal u' \<rparr>"
    using l by (simp add: loss_outcome_def Let_def)
  have "u_BytesInFlight u' = u_BytesInFlight u" "u_iSndCurrSeqNo u' = u_iSndCurrSeqNo u"
    by (subst eq, simp)+
  moreover have "seqs_used (u_packet_tracker u') \<subseteq> seqs_used (u_packet_tracker u)"
    using l by (auto simp: loss_outcome_def Let_def seqs_used_def)
  ultimately show ?thesis
    using inv l by (intro conn_inv_shrink[OF inv]) (simp_all add: loss_outcome_def Let_def conn_inv_def)
qed

lemma detect_losses_fuel:
  assumes "conn_tracker (u_packet_tracker u)"
  shows "(\<exists>e. detect_losses (loss_fuel u) ops thresh cur now u = Inl e \<and>
      controller_fails ops (u_pcc_sender u) e) \<or>
    (\<exists>u'. detect_losses (loss_fuel u) ops thresh cur now u = Inr u' \<and> loss_outcome thresh cur u u' \<and>
       (loss_report ops)\<^sup>*\<^sup>* (u_pcc_sender u) (u_pcc_sender u'))"
proof (rule detect_losses_ends[OF assms])
  have "length (skip_stale P q) \<le> length q" for P and q :: "timespec list" by (induction q) auto
  then show "pt_sent (u_packet_tracker u) \<noteq> [] \<longrightarrow> length (live_queue (u_packet_tracker u)) < loss_fuel u"
    by (simp add: loss_fuel_def live_queue_def less_Suc_eq_le)
qed

lemma checkTimers_inv:
  assumes inv: "conn_inv u" and run: "checkTimers pf ops rd i p l u = Inr u'"
  shows "conn_inv u'"
proof -
  obtain u1 where u1: "detect_losses (loss_fuel u) ops (loss_threshold pf u) (rd_mono rd 0) (rd_us rd) u = Inr u1"
    and r: "(case nak_timer rd (timer_now rd i u1) l (ack_timer rd i p u1) of
          (currtime, u1) \<Rightarrow> exp_timer pf rd currtime u1) = Inr u'"
    using run by (auto simp: checkTimers_def bind_outcome_Inr_iff)
  obtain c u2 where c: "nak_timer rd (timer_now rd i u1) l (ack_timer rd i p u1) = (c, u2)" by force
  have "loss_outcome (loss_threshold pf u) (rd_mono rd 0) u u1"
    using detect_losses_fuel[of u ops "loss_threshold pf u" "rd_mono rd 0" "rd_us rd"] conn_inv_tracker[OF inv]
    unfolding u1 by blast
  then have c1: "conn_inv u1" by (rule loss_outcome_inv[OF inv])
  have t: "u_packet_tracker u2 = u_packet_tracker u1" "u_BytesInFlight u2 = u_BytesInFlight u1"
    "u_iSndCurrSeqNo u2 = u_iSndCurrSeqNo u1"
    using other_timers_frame(4-6)[of rd "timer_now rd i u1" l "ack_timer rd i p u1"] c by simp_all
  have e: "exp_timer pf rd c u2 = Inr u'" using r c by simp
  show ?thesis by (rule conn_inv_cong[OF c1]) (simp_all only: exp_timer_frame[OF e] t)
qed

lemma udt_step_inv [step_inv]:
  assumes "udt_step pf ops u u'" "conn_inv u"
  shows "conn_inv u'"
  using assms(1)
proof cases
  case (Send len rd data n)
  then show ?thesis using udt_send_inv[OF assms(2)] by blast
next
  case (Pack rd packet ts n packet' ts')
  then show ?thesis using packData_inv[OF assms(2)] by blast
next
  case (Ack rd packet)
  then show ?thesis using handle_ack_inv[OF assms(2)] by (auto simp: ProcessAck_def bind_outcome_Inr_iff)
next
  case (Timers rd ack_interval ack_period losses)
  then show ?thesis using checkTimers_inv[OF assms(2)] by blast
next
  case (Mss rd mss)
  then show ?thesis using assms(2) by (auto simp: udt_resizeMSS_def Let_def intro: conn_inv_cong)
qed

lemma udt_run_inv: "udt_run pf ops u0 u \<Longrightarrow> udt_fresh u0 \<Longrightarrow> conn_inv u"
  by (induction rule: udt_run.induct) (auto intro: udt_fresh_inv udt_step_inv)

end
