(* ===== verification/Udt_Contract.thy ===== *)
theory Udt_Contract
  imports Udt_Connection
begin

text \<open>What the connection relies on in its congestion controller, and the properties of the sending
  half of a connection.\<close>

subsection \<open>The contract of a controller\<close>

text \<open>\<open>inv\<close> is the controller's invariant, \<open>fits\<close> says that a packet of the given size may be
  accounted for, and \<open>ready\<close> that a congestion event may be reported.\<close>

locale rate_controller =
  fixes ops :: "'s pcc_ops" and inv :: "'s \<Rightarrow> bool" and fits :: "int \<Rightarrow> 's \<Rightarrow> bool"
    and ready :: "'s \<Rightarrow> bool"
  assumes sent_law: "inv s \<Longrightarrow> fits bytes s \<Longrightarrow>
      \<exists>s'. pcc_OnPacketSent ops v t p bytes s = Inr s' \<and> inv s'"
    and event_law: "inv s \<Longrightarrow> ready s \<Longrightarrow> valid_rtt b rtt \<Longrightarrow>
      \<exists>s'. pcc_OnCongestionEvent ops b rtt t acked lost s = Inr s' \<and> inv s'"
    and rate_law: "\<exists>r. pcc_PacingRate ops s n = Inr r"
begin

text \<open>packData never fails.\<close>

lemma packData_total:
  assumes ci: "conn_inv u" and iv: "inv (u_pcc_sender u)" and few: "\<And>s. few_messages s (u_packet_tracker u)"
    and bif: "u_BytesInFlight u < 2 ^ 62"
    and fits: "\<And>s. recorded (u_packet_tracker u) s \<Longrightarrow>
      fits (u64 (GetPacketSize s (u_packet_tracker u))) (u_pcc_sender u)"
  shows "\<exists>n packet' ts' u'. packData pf ops rd packet ts u = Inr (n, packet', ts', u') \<and> inv (u_pcc_sender u')"
proof (cases "pack_blocked ops u")
  case True
  then show ?thesis using iv by (simp add: packData_blocked)
next
  case free: False
  let ?t = "u_packet_tracker u"
  have ct: "conn_tracker ?t" using ci by auto
  obtain sel t1 where sel: "select_packet ?t = (sel, t1)" by force
  show ?thesis
  proof (cases sel)
    case None
    then show ?thesis using packData_idle[OF ci free] sel iv by simp
  next
    case (Some s)
    note sel' = sel[unfolded Some]
    obtain bytes t2 where tr: "transmit (rd_mono rd 0) s t1 = Inr (bytes, u64 (pt_prev_packet_id ?t + 1), t2)"
      using transmit_conn[OF ct sel' few] by blast
    have "recorded ?t s"
      using selected_packet[OF ct sel' few] by (auto simp: recorded_def GetPacketState_def split: option.splits)
    then obtain pcc where pcc: "pcc_OnPacketSent ops (rd_rand rd) (i64 (rd_us rd 0))
          (u64 (pt_prev_packet_id ?t + 1)) (u64 (GetPacketSize s ?t)) (u_pcc_sender u) = Inr pcc" "inv pcc"
      using sent_law[OF iv fits] by blast
    obtain i where i: "GetSendingInterval pf ops (u\<lparr> u_pcc_sender := pcc \<rparr>) = Inr i"
      using rate_law by (force simp: GetSendingInterval_def)
    obtain n packet' ts' u' where p: "packData pf ops rd packet ts u = Inr (n, packet', ts', u')"
      using packData_transmit[OF ci free sel' few bif tr, of pf packet ts] pcc(1) i
      by (auto simp: split_beta)
    then have "u_pcc_sender u' = pcc" using packData_sent[OF ci free sel' few bif tr p] pcc(1) by auto
    then show ?thesis using p pcc(2) by blast
  qed
qed

end

text \<open>Vivace is the controller every connection uses; an event needs useful intervals whose rates
  differ.\<close>

interpretation vivace_control: rate_controller "vivace_ops pf" sender_inv
    "\<lambda>bytes s. packet_fits bytes (s_interval_queue s)" "\<lambda>s. vivace_gap (s_interval_queue s) s" for pf
proof unfold_locales
  show "sender_inv s \<Longrightarrow> packet_fits bytes (s_interval_queue s) \<Longrightarrow>
      \<exists>s'. pcc_OnPacketSent (vivace_ops pf) v t p bytes s = Inr s' \<and> sender_inv s'" for s bytes v t p
    using packet_sent_total by (simp add: vivace_ops_def)
  show "sender_inv s \<Longrightarrow> vivace_gap (s_interval_queue s) s \<Longrightarrow> valid_rtt b rtt \<Longrightarrow>
      \<exists>s'. pcc_OnCongestionEvent (vivace_ops pf) b rtt t acked lost s = Inr s' \<and> sender_inv s'"
    for s b rtt t acked lost
    using vivace.congestion_event_total by (simp add: vivace_ops_def)
  show "\<exists>r. pcc_PacingRate (vivace_ops pf) s n = Inr r" for s n
    by (simp add: vivace_ops_def PacingRate_def mq_empty_def mq_current_def)
qed

text \<open>A controller that is always ready survives any number of loss reports.\<close>

locale steady_controller = rate_controller +
  assumes ready_law: "inv s \<Longrightarrow> ready s"
begin

lemma loss_reports_inv: "(loss_report ops)\<^sup>*\<^sup>* s s' \<Longrightarrow> inv s \<Longrightarrow> inv s'"
proof (induction rule: rtranclp_induct)
  case (step s1 s2)
  then obtain t l where "pcc_OnCongestionEvent ops False 0 t [] [l] s1 = Inr s2"
    by (auto simp: loss_report_def)
  moreover have "inv s1" using step by simp
  ultimately show ?case
    using event_law[OF _ ready_law, of s1 False 0 t "[]" "[l]"] by (auto simp: valid_rtt_def)
qed

lemma loss_detection_total:
  assumes "conn_inv u" "inv (u_pcc_sender u)"
  shows "\<exists>u'. detect_losses (loss_fuel u) ops thresh cur now u = Inr u' \<and> conn_inv u' \<and> inv (u_pcc_sender u')"
proof -
  have "\<not> controller_fails ops (u_pcc_sender u) e" for e
  proof
    assume "controller_fails ops (u_pcc_sender u) e"
    then obtain s t l where s: "(loss_report ops)\<^sup>*\<^sup>* (u_pcc_sender u) s"
      "pcc_OnCongestionEvent ops False 0 t [] [l] s = Inl e"
      by (auto simp: controller_fails_def)
    have "inv s" by (rule loss_reports_inv[OF s(1) assms(2)])
    then show False using event_law[of s False 0 t "[]" "[l]"] ready_law s(2) by (auto simp: valid_rtt_def)
  qed
  then show ?thesis
    using detect_losses_fuel[OF conn_inv_tracker[OF assms(1)], of ops thresh cur now]
      loss_reports_inv[OF _ assms(2)] loss_outcome_inv[OF assms(1)] by blast
qed

end

interpretation allegro_control: steady_controller "allegro_ops pf" sender_inv
    "\<lambda>bytes s. packet_fits bytes (s_interval_queue s)" "\<lambda>s. True" for pf
proof unfold_locales
  show "sender_inv s \<Longrightarrow> packet_fits bytes (s_interval_queue s) \<Longrightarrow>
      \<exists>s'. pcc_OnPacketSent (allegro_ops pf) v t p bytes s = Inr s' \<and> sender_inv s'" for s bytes v t p
    using packet_sent_total by (simp add: allegro_ops_def)
  show "sender_inv s \<Longrightarrow> True \<Longrightarrow> valid_rtt b rtt \<Longrightarrow>
      \<exists>s'. pcc_OnCongestionEvent (allegro_ops pf) b rtt t acked lost s = Inr s' \<and> sender_inv s'"
    for s b rtt t acked lost
    using allegro.congestion_event_total by (simp add: allegro_ops_def)
  show "\<exists>r. pcc_PacingRate (allegro_ops pf) s n = Inr r" for s n
    by (simp add: allegro_ops_def PacingRate_def mq_empty_def mq_current_def)
qed simp


subsection \<open>A sample run\<close>

definition sample_readings :: readings where
  "sample_readings = \<lparr> rd_tsc = (\<lambda>n. 1000), rd_us = (\<lambda>n. 500), rd_mono = (\<lambda>n. Timespec 3 999999500),
     rd_rand = 0 \<rparr>"

text \<open>A new connection with a payload size of two bytes.\<close>

definition sample_conn :: "'s \<Rightarrow> 's udt" where
  "sample_conn s =
     \<lparr> u_packet_tracker = tracker_new, u_pcc_sender = s, u_pSndBuffer = snd_buffer_new 4 2,
       u_BytesInFlight = 0, u_iRTT = Fin 0, u_iRTTVar = Fin 0, u_iSndLastDataAck = 5, u_iSndCurrSeqNo = 4,
       u_ullTimeDiff = 0, u_ullTargetTime = 900, u_ullCPUFrequency = 1, u_iMSS = 2, u_iPktSize = 18,
       u_iPayloadSize = 2, u_iSndBufSize = 100, u_StartTime = 0, u_PeerID = 9, u_llSentTotal = 0,
       u_llTraceSent = 0, u_TotalBytes = 0, u_iSndLossTotal = 0, u_iTraceRetrans = 0, u_iRetransTotal = 0,
       u_iRecvACK = 0, u_iRecvACKTotal = 0, u_llSndDurationCounter = 0, u_dgram = False,
       u_bConnected = True, u_bClosing = False, u_bBroken = False, u_bPeerHealth = True,
       u_bSynSending = True, u_iSndTimeOut = -1, u_iBrokenCounter = 0, u_on_snd_list = False,
       u_epoll_write = True, u_epoll_read = False, u_iEXPCount = 1, u_ullLastRspTime = 0,
       u_ullNextACKTime = 0, u_ullNextNAKTime = 0, u_ullACKInt = 0, u_ullNAKInt = 0, u_ullMinExpInt = 0,
       u_iPktCount = 0, u_iLightACKCount = 1, u_iLastDecSeq = 0, u_ullLastWarningTime = 0,
       u_bShutdown = False, u_bRendezvous = False, u_iISN = 5, u_iFlightFlagSize = 100, u_SocketID = 3,
       u_iRcvPayloadSize = 2, u_sent = [] \<rparr>"

lemma sample_conn_fresh: "udt_fresh (sample_conn s)"
  by (simp add: udt_fresh_def sample_conn_def)

text \<open>Three bytes are sent: packets 5 and 6 are queued.\<close>

definition sample_queue_tracker :: packet_tracker where
  "sample_queue_tracker =
     tracker_new\<lparr>
       pt_record_map := [5 \<mapsto> new_packet_record 5 [1, 2] PACKET_STATE_QUEUED,
                         6 \<mapsto> new_packet_record 6 [3] PACKET_STATE_QUEUED],
       pt_send := [5, 6], pt_cur_num_packets := 2, pt_cur_min_seq := Some 5 \<rparr>"

lemma sample_enqueue:
  "enqueue_data 3 [1, 2, 3] (sample_conn s) =
     Inr ((sample_conn s)\<lparr> u_iSndCurrSeqNo := 6, u_packet_tracker := sample_queue_tracker \<rparr>)"
  by (simp add: numeral_3_eq_3 sample_conn_def GetNextSeqNo_def incseq_def m_iMaxSeqNo_def Let_def
    EnqueuePacket_def lower_min_seq_def tracker_new_def sample_queue_tracker_def fun_upd_twist)

lemma sample_finish:
  fixes s :: 's
  defines "u \<equiv> (sample_conn s)\<lparr> u_iSndCurrSeqNo := 6, u_packet_tracker := sample_queue_tracker \<rparr>"
  shows "\<exists>u'. finish_send sample_readings [1, 2, 3] 3 u = Inr (3, u')
    \<and> u_packet_tracker u' = sample_queue_tracker \<and> u_pcc_sender u' = s \<and> u_BytesInFlight u' = 0
    \<and> u_ullCPUFrequency u' = 1 \<and> u_iMSS u' = 2
    \<and> u_ullTargetTime u' = 900 \<and> u_ullTimeDiff u' = 0 \<and> u_iSndCurrSeqNo u' = 6"
proof -
  have "represents (snd_buffer_new 4 2) []" by (rule represents_new) simp
  then obtain sb where sb: "addBuffer [1, 2, 3] (-1) False 500 (snd_buffer_new 4 2) = Inr sb"
  proof (rule addBuffer_represents [where data = "[1, 2, 3]" and ttl = "-1" and order = False and time = 500])
    show "0 < sb_mss (snd_buffer_new 4 2)"
      "sb_mss (snd_buffer_new 4 2) \<le> int (m_iBlockSize (snd_buffer_new 4 2))"
      by (simp_all add: snd_buffer_new_def)
  qed simp
  have u: "u_pSndBuffer u = snd_buffer_new 4 2" "getCurrBufSize (snd_buffer_new 4 2) = 0"
    "u_iSndBufSize u = 100" "u_iPayloadSize u = 2" "u_packet_tracker u = sample_queue_tracker"
    "u_pcc_sender u = s" "u_BytesInFlight u = 0" "u_ullCPUFrequency u = 1" "u_iMSS u = 2"
    "u_ullTargetTime u = 900" "u_ullTimeDiff u = 0"
    "u_iSndCurrSeqNo u = 6"
    by (simp_all add: u_def sample_conn_def getCurrBufSize_def snd_buffer_new_def)
  have room: "buffer_room 3 u = 3" by (simp add: buffer_room_def u)
  have sgn: "add_signed [1, 2, 3] 3 500 (snd_buffer_new 4 2) = Inr sb"
    using sb by (simp add: add_signed_def numeral_3_eq_3)
  show ?thesis
    using sgn by (simp add: finish_send_def Let_def room u sample_readings_def)
qed

definition sample_conn_queued :: "'s \<Rightarrow> 's udt" where
  "sample_conn_queued s =
     (case udt_send (\<lambda>u. u) sample_readings [1, 2, 3] 3 (sample_conn s) of
        Inr (_, u) \<Rightarrow> u | Inl _ \<Rightarrow> sample_conn s)"

lemma sample_conn_queued:
  "udt_send (\<lambda>u. u) sample_readings [1, 2, 3] 3 (sample_conn s) = Inr (3, sample_conn_queued s)"
  "u_packet_tracker (sample_conn_queued s) = sample_queue_tracker"
  "u_pcc_sender (sample_conn_queued s) = s" "u_BytesInFlight (sample_conn_queued s) = 0"
  "u_ullCPUFrequency (sample_conn_queued s) = 1" "u_iMSS (sample_conn_queued s) = 2"
    "u_ullTargetTime (sample_conn_queued s) = 900" "u_ullTimeDiff (sample_conn_queued s) = 0"
  "u_iSndCurrSeqNo (sample_conn_queued s) = 6"
proof -
  obtain u' where f: "finish_send sample_readings [1, 2, 3] 3
     ((sample_conn s)\<lparr> u_iSndCurrSeqNo := 6, u_packet_tracker := sample_queue_tracker \<rparr>) = Inr (3, u')"
    "u_packet_tracker u' = sample_queue_tracker" "u_pcc_sender u' = s" "u_BytesInFlight u' = 0"
    "u_ullCPUFrequency u' = 1" "u_iMSS u' = 2"
    "u_ullTargetTime u' = 900" "u_ullTimeDiff u' = 0" "u_iSndCurrSeqNo u' = 6"
    using sample_finish [of s] by (elim exE conjE)
  have c: "CanEnqueuePacket (u_packet_tracker (sample_conn s))"
    by (simp add: sample_conn_def CanEnqueuePacket_def tracker_new_def kArbitraryPacketLimit_def)
  have g: "u_dgram (sample_conn s) = False" "u_bBroken (sample_conn s) = False"
    "u_bClosing (sample_conn s) = False" "u_bConnected (sample_conn s) = True"
    by (simp_all add: sample_conn_def)
  have n: "nat 3 = 3" "take 3 [1, 2, 3 :: byte] = [1, 2, 3]" "3 \<le> length [1, 2, 3 :: byte]" by simp_all
  have eq: "udt_send (\<lambda>u. u) sample_readings [1, 2, 3] 3 (sample_conn s) = Inr (3, u')"
    unfolding udt_send_def check_connected_def await_space_def g n guard_outcome_def
    by (simp only: c n sample_enqueue f(1) bind_outcome_simps if_True if_False simp_thms) simp
  then have q: "sample_conn_queued s = u'" by (simp add: sample_conn_queued_def)
  show "udt_send (\<lambda>u. u) sample_readings [1, 2, 3] 3 (sample_conn s) = Inr (3, sample_conn_queued s)"
    "u_packet_tracker (sample_conn_queued s) = sample_queue_tracker"
    "u_pcc_sender (sample_conn_queued s) = s" "u_BytesInFlight (sample_conn_queued s) = 0"
    "u_ullCPUFrequency (sample_conn_queued s) = 1" "u_iMSS (sample_conn_queued s) = 2"
    "u_ullTargetTime (sample_conn_queued s) = 900" "u_ullTimeDiff (sample_conn_queued s) = 0"
    "u_iSndCurrSeqNo (sample_conn_queued s) = 6"
    using eq f(2-9) by (simp_all only: q)
qed

lemma sample_queued_run: "udt_run pf ops (sample_conn s) (sample_conn_queued s)"
proof (rule udt_run.Step [OF udt_run.Opened])
  have "u_iSndCurrSeqNo (sample_conn s) + 3 < 2147483647" by (simp add: sample_conn_def)
  then show "udt_step pf ops (sample_conn s) (sample_conn_queued s)"
    by (intro udt_step.Send [OF _ _ sample_conn_queued(1)]) simp_all
qed

lemma sint_word_of_int32: "i32_range s \<Longrightarrow> sint (word_of_int s :: 32 word) = s"
  by (simp add: int_word_sint i32_range_def)

lemma sample_pcc:
  "sender_inv sample_vivace" "\<not> pack_blocked (vivace_ops sample_platform) (sample_conn_queued sample_vivace)"
  "0 < b \<Longrightarrow> b < 10000 \<Longrightarrow> packet_fits b (s_interval_queue sample_vivace)"
proof -
  show "sender_inv sample_vivace" by (rule sample_vivace_inv)
  show "packet_fits b (s_interval_queue sample_vivace)" if "0 < b" "b < 10000"
    using that by (simp add: sample_vivace_state packet_fits_def mq_accounted_def sample_queue_def
      new_monitor_interval_def interval_accounted_def mq_new_def)
  show "\<not> pack_blocked (vivace_ops sample_platform) (sample_conn_queued sample_vivace)"
    by (simp add: pack_blocked_def vivace_ops_def CanSend_def sample_conn_queued sample_vivace_state
      sample_queue_def mq_size_def mq_new_def u64_def)
qed

lemma sample_tracker_facts:
  "few_messages s sample_queue_tracker" "select_packet sample_queue_tracker = (Some 5, sample_queue_tracker)"
  "recorded sample_queue_tracker s \<Longrightarrow> 0 < GetPacketSize s sample_queue_tracker \<and>
     GetPacketSize s sample_queue_tracker < 10000"
  "GetPacketSize 5 sample_queue_tracker = 2" "GetPacketState 5 sample_queue_tracker = PACKET_STATE_QUEUED"
  by (auto simp: sample_queue_tracker_def few_messages_def GetPacketLastMsgNo_def new_packet_record_def
    GetPacketMostRecentMsgNo_def select_packet_eq clean_send_def clean_retransmittable_def recorded_def
    tracker_new_def GetPacketSize_def GetPacketState_def Let_def split: if_splits)

lemma sample_conn_inv: "conn_inv (sample_conn_queued s)"
  by (rule udt_run_inv [OF sample_queued_run sample_conn_fresh])

text \<open>A controller with the fixed rate of one megabit per second.\<close>

definition fixed_rate_ops :: "unit pcc_ops" where
  "fixed_rate_ops = \<lparr> pcc_CanSend = (\<lambda>s n. True), pcc_PacingRate = (\<lambda>s n. Inr 1000000),
     pcc_OnPacketSent = (\<lambda>v t p b s. Inr s), pcc_OnCongestionEvent = (\<lambda>u r t a l s. Inr s) \<rparr>"

lemma fixed_interval:
  "GetSendingInterval sample_platform fixed_rate_ops ((sample_conn_queued s)\<lparr> u_pcc_sender := s' \<rparr>) = Inr 16"
proof -
  have r: "rnd B32 2 = Fin 2" "rnd B32 16 = Fin 16" "rnd B32 16000000 = Fin 16000000"
    "rnd B64 1000000 = Fin 1000000" "rnd B64 16 = Fin 16"
    using rnd32_int [of 2] rnd32_int [of 16] rnd32_int [of 16000000] rnd64_int [of 1000000] rnd64_int [of 16]
    by simp_all
  show ?thesis
    by (simp add: GetSendingInterval_def fixed_rate_ops_def sample_conn_queued fp_of_int_def r
      fp_to_u64_def truncate_rat_def del: rnd.simps)
qed

lemma fixed_rate_controller: "rate_controller fixed_rate_ops (\<lambda>s. True) (\<lambda>b s. True) (\<lambda>s. True)"
  by unfold_locales (simp_all add: fixed_rate_ops_def)

text \<open>Packet 5 is transmitted.\<close>

definition sample_record_sent :: packet_record where
  "sample_record_sent =
     \<lparr> pr_packet_state = PACKET_STATE_SENT, pr_payload = [1, 2], pr_packet_size = 2, pr_seq_no = 5,
       pr_msg_records = [\<lparr> mr_rtt_us = 0, mr_msg_no = 1, mr_packet_id = 1,
                           mr_sent_time = Timespec 3 999999500 \<rparr>] \<rparr>"

definition sample_sent_tracker :: packet_tracker where
  "sample_sent_tracker =
     sample_queue_tracker\<lparr>
       pt_record_map := [5 \<mapsto> sample_record_sent, 6 \<mapsto> new_packet_record 6 [3] PACKET_STATE_QUEUED],
       pt_send := [6], pt_sent := [Timespec 3 999999500],
       pt_sent_time_map := [Timespec 3 999999500 \<mapsto> 5], pt_prev_packet_id := 1 \<rparr>"

lemma sample_tracker_transmit:
  "transmit (Timespec 3 999999500) 5 sample_queue_tracker = Inr ([1, 2], 1, sample_sent_tracker)"
  by (simp add: transmit_def GetPacketPayloadPointer_def GetPacketLastMsgNo_def
    GetPacketMostRecentMsgNo_def OnPacketSent_def leave_queue_def take_top_def UpdateRecord_def
    record_sent_time_def SafeGetMessageRecord_def GetPacketId_def tracker_record_def
    record_packet_id_def map_insert_def new_packet_record_def sample_queue_tracker_def sample_sent_tracker_def
    sample_record_sent_def tracker_new_def Let_def fun_upd_twist)

lemma sample_packed:
  "\<exists>packet' ts' u'. packData sample_platform fixed_rate_ops sample_readings packet_new 0
      (sample_conn_queued ()) = Inr (2, packet', ts', u')
    \<and> u_packet_tracker u' = sample_sent_tracker \<and> u_BytesInFlight u' = 2
    \<and> udt_run sample_platform fixed_rate_ops (sample_conn ()) u'"
proof -
  let ?u = "sample_conn_queued ()"
  have few: "\<And>s. few_messages s (u_packet_tracker ?u)" "u_BytesInFlight ?u < 2 ^ 62"
    by (simp_all add: sample_conn_queued sample_tracker_facts(1))
  obtain n packet' ts' u' where p: "packData sample_platform fixed_rate_ops sample_readings packet_new 0 ?u
      = Inr (n, packet', ts', u')"
    using rate_controller.packData_total [OF fixed_rate_controller sample_conn_inv _ few] by blast
  have free: "\<not> pack_blocked fixed_rate_ops ?u" by (simp add: pack_blocked_def fixed_rate_ops_def)
  have sel: "select_packet (u_packet_tracker ?u) = (Some 5, sample_queue_tracker)"
    by (simp add: sample_conn_queued sample_tracker_facts(2))
  have tr: "transmit (rd_mono sample_readings 0) 5 sample_queue_tracker = Inr ([1, 2], 1, sample_sent_tracker)"
    using sample_tracker_transmit by (simp add: sample_readings_def)
  have "n = 2" "u_packet_tracker u' = sample_sent_tracker" "u_BytesInFlight u' = 2"
    using packData_sent [OF sample_conn_inv free sel few tr p]
    by (auto simp: sample_conn_queued sample_tracker_facts first_bytes_def)
  then show ?thesis using p udt_run.Step [OF sample_queued_run udt_step.Pack [OF few p]] by blast
qed

subsection \<open>Properties\<close>

text \<open>C6: In every run of a connection BytesInFlight never is negative and covers the bytes of all
  packets that have been transmitted and are not acknowledged; the warning about negative bytes in
  flight in ProcessAck is never printed.\<close>

theorem bytes_in_flight_cover:
  assumes "udt_fresh u0" "udt_run pf ops u0 u"
  shows "0 \<le> flight_of (pt_record_map (u_packet_tracker u))
    \<and> flight_of (pt_record_map (u_packet_tracker u)) \<le> u_BytesInFlight u
    \<and> (GetPacketState s (u_packet_tracker u) \<in> {PACKET_STATE_SENT, PACKET_STATE_LOST} \<longrightarrow>
         GetPacketSize s (u_packet_tracker u) \<le> u_BytesInFlight u)"
proof -
  let ?t = "u_packet_tracker u"
  have inv: "conn_inv u" by (rule udt_run_inv [OF assms(2,1)])
  have ct: "conn_tracker ?t" using inv by auto
  have cover: "flight_of (pt_record_map ?t) \<le> u_BytesInFlight u" using inv by (simp add: conn_inv_def)
  moreover have "GetPacketSize s ?t \<le> flight_of (pt_record_map ?t)"
    if st: "GetPacketState s ?t \<in> {PACKET_STATE_SENT, PACKET_STATE_LOST}"
  proof -
    obtain r where r: "pt_record_map ?t s = Some r" using st by (auto simp: GetPacketState_def split: option.splits)
    have "0 \<le> flight_of ((pt_record_map ?t)(s := None))"
      using ct by (intro flight_of_nonneg)
        (auto simp: conn_tracker_def tracker_inv_def record_inv_def ran_def split: if_splits)
    then show ?thesis
      using flight_of_delete [of "pt_record_map ?t" s r] r ct st
      by (auto simp: conn_tracker_def tracker_inv_def record_flight_def GetPacketSize_def GetPacketState_def)
  qed
  ultimately show ?thesis using flight_nonneg [OF ct] by auto
qed


theorem bytes_in_flight_cover_witness:
  "\<exists>u. udt_run sample_platform fixed_rate_ops (sample_conn ()) u
     \<and> GetPacketSize 5 (u_packet_tracker u) = 2 \<and> 2 \<le> u_BytesInFlight u"
proof -
  obtain u where u: "udt_run sample_platform fixed_rate_ops (sample_conn ()) u"
      "u_packet_tracker u = sample_sent_tracker"
    using sample_packed by blast
  have "GetPacketSize 5 (u_packet_tracker u) = 2" "GetPacketState 5 (u_packet_tracker u) = PACKET_STATE_SENT"
    by (simp_all add: u(2) sample_sent_tracker_def sample_record_sent_def GetPacketSize_def GetPacketState_def)
  then show ?thesis using bytes_in_flight_cover [OF sample_conn_fresh u(1), of 5] u(1) by auto
qed

text \<open>C3: packData of a connection never fails.  When the controller holds back it sends nothing;
  otherwise it sends the lowest packet that is LOST, or the lowest that is QUEUED when none is lost:
  its sequence number and data are in the packet, it is SENT afterwards, and BytesInFlight grows by
  its size when it was transmitted for the first time.\<close>

theorem packData_transmits:
  assumes "udt_fresh u0" "udt_run pf (vivace_ops pf) u0 u" and "sender_inv (u_pcc_sender u)"
    and "\<And>s. few_messages s (u_packet_tracker u)" "u_BytesInFlight u < 2 ^ 62"
    and "\<And>s. recorded (u_packet_tracker u) s \<Longrightarrow>
      packet_fits (u64 (GetPacketSize s (u_packet_tracker u))) (s_interval_queue (u_pcc_sender u))"
    and "length (pk_header packet) = 4"
  defines "t \<equiv> u_packet_tracker u"
  defines "waiting \<equiv> (if transmittable PACKET_STATE_LOST t \<noteq> {} then transmittable PACKET_STATE_LOST t
                      else transmittable PACKET_STATE_QUEUED t)"
  shows "\<exists>n packet' ts' u'. packData pf (vivace_ops pf) rd packet ts u = Inr (n, packet', ts', u')
    \<and> (CanSend (u_pcc_sender u) (u_BytesInFlight u) \<and> waiting \<noteq> {} \<longrightarrow>
        (\<exists>s\<in>waiting. (\<forall>x\<in>waiting. s \<le> x) \<and> n = GetPacketSize s t \<and> m_iSeqNo packet' = s
           \<and> (\<exists>bytes. GetPacketPayloadPointer s t = Inr bytes \<and> pk_data packet' = Some (map word_of_int bytes))
           \<and> GetPacketState s (u_packet_tracker u') = PACKET_STATE_SENT
           \<and> u_BytesInFlight u' = u_BytesInFlight u
               + (if GetPacketState s t = PACKET_STATE_QUEUED then n else 0)))
    \<and> (\<not> (CanSend (u_pcc_sender u) (u_BytesInFlight u) \<and> waiting \<noteq> {}) \<longrightarrow>
        n = 0 \<and> packet' = packet \<and> u_BytesInFlight u' = u_BytesInFlight u
        \<and> pt_record_map (u_packet_tracker u') = pt_record_map t)"
proof -
  have inv: "conn_inv u" by (rule udt_run_inv [OF assms(2,1)])
  have ct: "conn_tracker t" using inv by (auto simp: t_def)
  have ti: "tracker_inv t" using ct by (simp add: conn_tracker_def)
  obtain n packet' ts' u' where p: "packData pf (vivace_ops pf) rd packet ts u = Inr (n, packet', ts', u')"
    using vivace_control.packData_total [OF inv assms(3-6)] by blast
  obtain sel t1 where sel: "select_packet t = (sel, t1)" by force
  have blocked: "pack_blocked (vivace_ops pf) u \<longleftrightarrow> \<not> CanSend (u_pcc_sender u) (u_BytesInFlight u)"
    by (simp add: pack_blocked_def vivace_ops_def)
  consider (hold) "pack_blocked (vivace_ops pf) u" | (none) "\<not> pack_blocked (vivace_ops pf) u" "sel = None"
    | (some) s where "\<not> pack_blocked (vivace_ops pf) u" "sel = Some s" by (cases sel) auto
  then show ?thesis
  proof cases
    case hold
    then show ?thesis using packData_blocked [OF hold, of pf rd packet ts] blocked by (simp add: t_def)
  next
    case none
    have "waiting = {}" using select_some [OF ti] sel none(2) by (simp add: waiting_def)
    then show ?thesis
      using packData_idle [OF inv none(1)] sel none(2) select_tracker [OF ct sel] by (simp add: t_def)
  next
    case (some s)
    have few: "few_messages s t" using assms(4) by (simp add: t_def)
    note sel' = sel [unfolded some(2)]
    obtain bytes t2 where tr: "transmit (rd_mono rd 0) s t1 = Inr (bytes, u64 (pt_prev_packet_id t + 1), t2)"
      and f: "GetPacketPayloadPointer s t = Inr bytes" "GetPacketState s t2 = PACKET_STATE_SENT"
      using transmit_conn [OF ct sel' few] by blast
    note sent = packData_sent [OF inv some(1) sel' [unfolded t_def] few [unfolded t_def] assms(5)
      tr [unfolded t_def] p, folded t_def]
    have st: "GetPacketState s t \<in> {PACKET_STATE_QUEUED, PACKET_STATE_LOST}"
      using selected_packet [OF ct sel' few] by simp
    have least: "\<forall>x\<in>transmittable PACKET_STATE_LOST t. s \<le> x" "GetPacketState s t = PACKET_STATE_QUEUED \<Longrightarrow>
        transmittable PACKET_STATE_LOST t = {} \<and> (\<forall>x\<in>transmittable PACKET_STATE_QUEUED t. s \<le> x)"
      using select_least [OF ti sel'] by simp_all
    have w: "s \<in> waiting" "\<forall>x\<in>waiting. s \<le> x"
      using st least by (auto simp: waiting_def transmittable_def)
    have "i32_range s"
      using selected_packet [OF ct sel' few] ti
      by (auto simp: tracker_inv_def GetPacketState_def split: option.splits)
    then have "m_iSeqNo packet' = s"
      using sent assms(7) by (auto simp: data_packet_def set_header_def setLength_def m_iSeqNo_def
        sint_word_of_int32)
    moreover have "pk_data packet' = Some (map word_of_int bytes)"
      using sent by (auto simp: data_packet_def set_header_def setLength_def)
    ultimately show ?thesis
      using p sent w f some(1) blocked by (auto simp: first_bytes_def)
  qed
qed

lemma sample_waiting:
  "transmittable PACKET_STATE_LOST sample_queue_tracker = {}"
  "transmittable PACKET_STATE_QUEUED sample_queue_tracker = {5, 6}"
  by (auto simp: transmittable_def sample_queue_tracker_def GetPacketState_def new_packet_record_def)

theorem packData_transmits_witness:
  "\<exists>packet' ts' u'. packData sample_platform (vivace_ops sample_platform) sample_readings packet_new 0
     (sample_conn_queued sample_vivace) = Inr (2, packet', ts', u') \<and> m_iSeqNo packet' = 5
     \<and> u_BytesInFlight u' = 2"
proof -
  let ?u = "sample_conn_queued sample_vivace"
  have "CanSend (u_pcc_sender ?u) (u_BytesInFlight ?u)"
    using sample_pcc(2) by (simp add: pack_blocked_def vivace_ops_def)
  moreover have "packet_fits (u64 (GetPacketSize s (u_packet_tracker ?u))) (s_interval_queue (u_pcc_sender ?u))"
    if "recorded (u_packet_tracker ?u) s" for s
    using that sample_tracker_facts(3) [of s] sample_pcc(3) by (simp add: sample_conn_queued)
  moreover have "length (pk_header packet_new) = 4" by (simp add: packet_new_def)
  ultimately show ?thesis
    using packData_transmits [OF sample_conn_fresh [of sample_vivace] sample_queued_run,
        where packet = packet_new and rd = sample_readings and ts = 0 and pf = sample_platform]
      sample_pcc(1) sample_tracker_facts(1)
    by (auto simp: sample_conn_queued sample_waiting sample_tracker_facts(4,5))
qed

text \<open>C7: The pacing of packData does not drift.  Measured from the target time less the accumulated
  delay, each transmission moves the schedule forward by exactly one sending interval, whether it
  was late or early, and the next packet is never due in the past.\<close>

theorem pacing_schedule:
  assumes "udt_fresh u0" "udt_run pf ops u0 u" "few_messages s (u_packet_tracker u)"
    and "u_BytesInFlight u < 2 ^ 62" "\<not> pack_blocked ops u"
    and "select_packet (u_packet_tracker u) = (Some s, t1)"
    and "packData pf ops rd packet ts u = Inr (n, packet', ts', u')"
    and "GetSendingInterval pf ops (u\<lparr> u_pcc_sender := u_pcc_sender u' \<rparr>) = Inr i" "i < 2 ^ 60"
    and "0 < u_ullTargetTime u" "u_ullTargetTime u < 2 ^ 60" "\<bar>u_ullTimeDiff u\<bar> < 2 ^ 60"
    and "0 \<le> rd_tsc rd 0" "rd_tsc rd 0 < 2 ^ 60"
  shows "u_ullTargetTime u' - u_ullTimeDiff u' = u_ullTargetTime u - u_ullTimeDiff u + i
    \<and> ts' = u_ullTargetTime u' \<and> rd_tsc rd 0 \<le> ts' \<and> 0 \<le> u_ullTimeDiff u'"
proof -
  have inv: "conn_inv u" by (rule udt_run_inv [OF assms(2,1)])
  have ct: "conn_tracker (u_packet_tracker u)" using inv by auto
  obtain bytes pid t2 where tr: "transmit (rd_mono rd 0) s t1 = Inr (bytes, pid, t2)"
    using transmit_conn [OF ct assms(6,3)] by blast
  define d where "d = u_ullTimeDiff (note_delay (rd_tsc rd 0) u)"
  have i0: "0 \<le> i" using assms(8) by (auto simp: GetSendingInterval_def fp_to_u64_nonneg)
  have i: "i64 i = i" using i0 assms(9) by simp
  have d: "d = u_ullTimeDiff u + (rd_tsc rd 0 - u_ullTargetTime u)"
    using assms(10-14) by (simp add: d_def note_delay_def)
  have s: "ts' = (if d \<ge> i then rd_tsc rd 0 else u64 (rd_tsc rd 0 + i - d))"
      "u_ullTimeDiff u' = (if d \<ge> i then i64 (d - i) else 0)" "u_ullTargetTime u' = i64 ts'"
    using packData_sent [OF inv assms(5,6,3,4) tr assms(7)] assms(8) i unfolding d_def by auto
  show ?thesis
  proof (cases "d \<ge> i")
    case True
    then have "i64 (d - i) = d - i" using d assms(10-14) i0 by (intro i64_id) auto
    then show ?thesis using True s d assms(13,14) by simp
  next
    case False
    then have "0 \<le> rd_tsc rd 0 + i - d" "rd_tsc rd 0 + i - d < 4 * 2 ^ 60"
      using d assms(9-14) by (simp_all add: abs_less_iff)
    then have "u64 (rd_tsc rd 0 + i - d) = rd_tsc rd 0 + i - d" "i64 (rd_tsc rd 0 + i - d) = rd_tsc rd 0 + i - d"
      by simp_all
    then show ?thesis using False s d by simp
  qed
qed


theorem pacing_schedule_witness:
  "\<exists>n packet' ts' u'. packData sample_platform fixed_rate_ops sample_readings packet_new 0
      (sample_conn_queued ()) = Inr (n, packet', ts', u')
    \<and> u_ullTargetTime u' - u_ullTimeDiff u' = 900 + 16 \<and> 1000 \<le> ts'"
proof -
  let ?u = "sample_conn_queued ()"
  have few: "\<And>s. few_messages s (u_packet_tracker ?u)" "u_BytesInFlight ?u < 2 ^ 62"
    by (simp_all add: sample_conn_queued sample_tracker_facts(1))
  obtain n packet' ts' u' where p: "packData sample_platform fixed_rate_ops sample_readings packet_new 0 ?u
      = Inr (n, packet', ts', u')"
    using rate_controller.packData_total [OF fixed_rate_controller sample_conn_inv _ few] by blast
  have "\<not> pack_blocked fixed_rate_ops ?u" by (simp add: pack_blocked_def fixed_rate_ops_def)
  moreover have "select_packet (u_packet_tracker ?u) = (Some 5, sample_queue_tracker)"
    by (simp add: sample_conn_queued sample_tracker_facts(2))
  ultimately show ?thesis
    using pacing_schedule [OF sample_conn_fresh sample_queued_run few(1,2) _ _ p fixed_interval] p
    by (simp add: sample_conn_queued sample_readings_def)
qed


text \<open>C4: The loss detection of checkTimers ends.  It fails only where the controller fails on a
  loss report; otherwise exactly the registered transmissions older than the threshold are declared
  lost, queued for retransmission and no longer watched, every younger packet keeps its record, and
  the controller has been told of the losses one by one.\<close>

theorem loss_detection_exact:
  assumes "udt_fresh u0" "udt_run pf ops u0 u" "timely cur (u_packet_tracker u)"
  defines "t \<equiv> u_packet_tracker u"
  shows "case detect_losses (loss_fuel u) ops thresh cur now u of
      Inl e \<Rightarrow> controller_fails ops (u_pcc_sender u) e
    | Inr u' \<Rightarrow> (\<forall>ts s. pt_sent_time_map t ts = Some s \<longrightarrow>
        (if elapsed_us ts cur > thresh
         then GetPacketState s (u_packet_tracker u') = PACKET_STATE_LOST
           \<and> s \<in> set (pt_retransmittable (u_packet_tracker u'))
           \<and> pt_sent_time_map (u_packet_tracker u') ts = None
         else pt_record_map (u_packet_tracker u') s = pt_record_map t s
           \<and> pt_sent_time_map (u_packet_tracker u') ts = Some s))
      \<and> (loss_report ops)\<^sup>*\<^sup>* (u_pcc_sender u) (u_pcc_sender u')"
proof -
  have inv: "conn_inv u" by (rule udt_run_inv [OF assms(2,1)])
  have ct: "conn_tracker t" using inv by (auto simp: t_def)
  then have fi: "flight_inv t" by (simp add: conn_tracker_def)
  from detect_losses_fuel [OF ct [unfolded t_def], of ops thresh cur now] show ?thesis
  proof (elim disjE exE conjE)
    fix u' assume eq: "detect_losses (loss_fuel u) ops thresh cur now u = Inr u'"
      and l: "loss_outcome thresh cur u u'" and r: "(loss_report ops)\<^sup>*\<^sup>* (u_pcc_sender u) (u_pcc_sender u')"
    let ?t' = "u_packet_tracker u'"
    have ct': "conn_tracker ?t'" using l by (simp add: loss_outcome_def Let_def)
    have out: "if elapsed_us ts cur > thresh
        then pt_sent_time_map ?t' ts = None \<and> GetPacketState s ?t' = PACKET_STATE_LOST
        else pt_sent_time_map ?t' ts = Some s" if "pt_sent_time_map t ts = Some s" for ts s
      using l assms(3) that by (simp add: loss_outcome_def Let_def t_def)
    have rq: "s \<in> set (pt_retransmittable ?t')" if "GetPacketState s ?t' = PACKET_STATE_LOST" for s
      using transmittable_queue(1) [of ?t' s] ct' that by (simp add: transmittable_def conn_tracker_def)
    have young: "pt_record_map ?t' s = pt_record_map t s"
      if e: "pt_sent_time_map t ts = Some s" and y: "\<not> elapsed_us ts cur > thresh" for ts s
    proof -
      have "elapsed_us ts' cur \<le> thresh" if e': "pt_sent_time_map t ts' = Some s" for ts'
        using flight_inv_sent [OF fi e] flight_inv_sent [OF fi e'] y by auto
      then show ?thesis using l by (simp add: loss_outcome_def Let_def t_def)
    qed
    show ?thesis using out rq young r by (simp add: eq)
  qed simp
qed

theorem loss_detection_exact_witness:
  "\<exists>u u'. udt_run sample_platform fixed_rate_ops (sample_conn ()) u
     \<and> detect_losses (loss_fuel u) fixed_rate_ops 10 (Timespec 4 999999500) (\<lambda>n. 0) u = Inr u'
     \<and> GetPacketState 5 (u_packet_tracker u) = PACKET_STATE_SENT
     \<and> GetPacketState 5 (u_packet_tracker u') = PACKET_STATE_LOST"
proof -
  obtain u where u: "udt_run sample_platform fixed_rate_ops (sample_conn ()) u"
      "u_packet_tracker u = sample_sent_tracker"
    using sample_packed by blast
  have m: "pt_sent_time_map (u_packet_tracker u) = [Timespec 3 999999500 \<mapsto> 5]"
    by (simp add: u(2) sample_sent_tracker_def)
  have "timely (Timespec 4 999999500) (u_packet_tracker u)"
    by (simp add: timely_def m valid_timespec_def less_eq_timespec_def)
  note loss = loss_detection_exact [OF sample_conn_fresh u(1) this, of 10 "\<lambda>n. 0"]
  have "\<not> controller_fails fixed_rate_ops (u_pcc_sender u) e" for e
    by (simp add: controller_fails_def fixed_rate_ops_def)
  then obtain u' where u': "detect_losses (loss_fuel u) fixed_rate_ops 10 (Timespec 4 999999500) (\<lambda>n. 0) u = Inr u'"
    using loss by (auto split: sum.splits)
  have "elapsed_us (Timespec 3 999999500) (Timespec 4 999999500) > 10"
    by (simp add: elapsed_us_def)
  then have "GetPacketState 5 (u_packet_tracker u') = PACKET_STATE_LOST"
    using loss by (simp add: u' m)
  moreover have "GetPacketState 5 (u_packet_tracker u) = PACKET_STATE_SENT"
    by (simp add: u(2) sample_sent_tracker_def sample_record_sent_def GetPacketState_def)
  ultimately show ?thesis using u(1) u' by blast
qed


text \<open>What an acknowledgement of a recorded transmission does, by the transmission it names.\<close>

definition ack_removes :: "int \<Rightarrow> 's udt \<Rightarrow> 's udt \<Rightarrow> bool" where
  "ack_removes s u u' \<longleftrightarrow>
     pt_record_map (u_packet_tracker u') = (pt_record_map (u_packet_tracker u))(s := None)"

lemma delete_min:
  assumes "DeletePacketRecord s t1 = Inr t2" "conn_tracker t2"
    "pt_record_map t2 = (pt_record_map t)(s := None)"
  shows "GetMinSeqNo t2 = (if dom (pt_record_map t) \<subseteq> {s} then Inl Null_Deref
      else Inr (Min (dom (pt_record_map t) - {s})))"
proof -
  have "pt_cur_min_seq t2 = min_recorded t2" using assms(2) by (simp add: conn_tracker_def tracker_inv_def)
  moreover have "dom (pt_record_map t2) = dom (pt_record_map t) - {s}" by (simp add: assms(3))
  ultimately show ?thesis by (auto simp: GetMinSeqNo_def min_recorded_def)
qed

text \<open>C5: ProcessAck by cases.  An acknowledgement of a packet that is not recorded (a duplicate)
  feeds an RTT of 0 into the averages, or ends the process when it carries message number 0; one of a
  transmission that never happened ends the process; one of an older transmission only updates the
  averages.  The acknowledgement of the last transmission removes the packet, unless no other packet
  is recorded: then GetMinSeqNo dereferences NULL.  A packet that had been declared lost is removed
  without telling the controller and without reducing BytesInFlight; any other one is reported with
  its size and the elapsed time, and BytesInFlight is reduced by its size.\<close>

theorem ack_outcome:
  assumes "udt_fresh u0" "udt_run pf ops u0 u" "ack_seq_no packet = Inr s"
  defines "t \<equiv> u_packet_tracker u" and "m \<equiv> m_iMsgNo packet"
  shows "(\<not> recorded t s \<longrightarrow>
      ProcessAck ops rd packet u = (if m = 0 then Inl Exit_Called else Inr (update_rtt 0 u)))
    \<and> (recorded t s \<and> \<not> (1 \<le> m \<and> m \<le> GetPacketLastMsgNo s t) \<longrightarrow>
      ProcessAck ops rd packet u = Inl Exit_Called)
    \<and> (recorded t s \<and> 1 \<le> m \<and> m < GetPacketLastMsgNo s t \<longrightarrow>
      (\<exists>u'. ProcessAck ops rd packet u = Inr u' \<and> u_BytesInFlight u' = u_BytesInFlight u
         \<and> u_pcc_sender u' = u_pcc_sender u
         \<and> (\<forall>x. GetPacketState x (u_packet_tracker u') = GetPacketState x t)))
    \<and> (recorded t s \<and> 1 \<le> m \<and> m = GetPacketLastMsgNo s t \<and> dom (pt_record_map t) = {s} \<longrightarrow>
      ProcessAck ops rd packet u = Inl Null_Deref)
    \<and> (GetPacketState s t = PACKET_STATE_LOST \<and> 1 \<le> m \<and> m = GetPacketLastMsgNo s t
         \<and> dom (pt_record_map t) \<noteq> {s} \<longrightarrow>
      (\<exists>u'. ProcessAck ops rd packet u = Inr u' \<and> ack_removes s u u'
         \<and> u_BytesInFlight u' = u_BytesInFlight u \<and> u_pcc_sender u' = u_pcc_sender u))
    \<and> (GetPacketState s t = PACKET_STATE_SENT \<and> 1 \<le> m \<and> m = GetPacketLastMsgNo s t
         \<and> dom (pt_record_map t) \<noteq> {s} \<and> GetPacketId s m t = Inr pid \<and> pid \<noteq> 0
         \<and> GetPacketSentTime s m t = Inr sent
         \<and> pcc_OnCongestionEvent ops True (i64 (elapsed_us sent (rd_mono rd 0))) (i64 (rd_us rd 1))
             [\<lparr> ap_packet_number = pid, ap_bytes_acked = u64 (GetPacketSize s t),
                ap_receive_timestamp = i64 (rd_us rd 0) \<rparr>] [] (u_pcc_sender u) = Inr pcc \<longrightarrow>
      (\<exists>u'. ProcessAck ops rd packet u = Inr u' \<and> ack_removes s u u' \<and> u_pcc_sender u' = pcc
         \<and> u_BytesInFlight u' = u_BytesInFlight u - GetPacketSize s t))"
proof -
  have inv: "conn_inv u" by (rule udt_run_inv [OF assms(2,1)])
  have ct: "conn_tracker (u_packet_tracker u)" using inv by auto
  have pa: "ProcessAck ops rd packet u = handle_ack ops rd s m u"
    using assms(3) by (simp add: ProcessAck_def m_def)
  show ?thesis
  proof (cases "pt_record_map t s")
    case None
    then show ?thesis
      using handle_ack_unknown [of u s ops rd m] by (simp add: pa recorded_def t_def GetPacketState_def)
  next
    case (Some r)
    note r = Some [unfolded t_def]
    show ?thesis
    proof (cases "1 \<le> m \<and> m \<le> GetPacketLastMsgNo s t")
      case False
      then show ?thesis
        using handle_ack_never_sent [OF ct r, of m ops rd] Some by (auto simp: pa t_def recorded_def)
    next
      case m: True
      obtain t1 pid' sent' where a: "OnPacketAck (rd_mono rd 0) s m t = Inr t1" "GetPacketId s m t = Inr pid'"
          "GetPacketRtt s m t1 = Inr (elapsed_us sent' (rd_mono rd 0))" and snt: "GetPacketSentTime s m t = Inr sent'"
        using ack_message [OF ct r, of m "rd_mono rd 0"] m by (auto simp: t_def)
      note a' = a [unfolded t_def]
      show ?thesis
      proof (cases "m = GetPacketLastMsgNo s t")
        case False
        have "handle_ack ops rd s m u = Inr (update_rtt (elapsed_us sent' (rd_mono rd 0)) (u\<lparr> u_packet_tracker := t1 \<rparr>))"
          using handle_ack_old [OF a'] False by (simp add: t_def)
        moreover have "\<forall>x. GetPacketState x t1 = GetPacketState x t"
          using old_ack [OF ct r a'(1)] False by (simp add: t_def)
        ultimately show ?thesis using Some m False by (simp add: pa recorded_def)
      next
        case last: True
        obtain t2 where d: "DeletePacketRecord s t1 = Inr t2" and f: "conn_tracker t2"
            "pt_record_map t2 = (pt_record_map t)(s := None)" "GetPacketSize s t1 = GetPacketSize s t"
            "flight_of (pt_record_map t2) = flight_of (pt_record_map t) - GetPacketSize s t"
          using last_ack [OF ct r a'(1) [unfolded last t_def]] by (auto simp: t_def)
        define u2 where "u2 ack_no = release_acked ack_no
          ((update_rtt (elapsed_us sent' (rd_mono rd 0)) (u\<lparr> u_packet_tracker := t1 \<rparr>))\<lparr> u_packet_tracker := t2 \<rparr>)"
          for ack_no
        have u2: "u_packet_tracker (u2 n) = t2" "u_BytesInFlight (u2 n) = u_BytesInFlight u"
          "u_pcc_sender (u2 n) = u_pcc_sender u" for n by (simp_all add: u2_def)
        have eq: "handle_ack ops rd s m u = bind_outcome (GetMinSeqNo t2) (\<lambda>ack_no.
            if GetPacketState s t = PACKET_STATE_LOST \<or> pid' = 0 then Inr (u2 ack_no)
            else ack_event ops rd pid' (GetPacketSize s t) (elapsed_us sent' (rd_mono rd 0)) (u2 ack_no))"
          using handle_ack_last [OF a' last [unfolded t_def] d, of ops]
          by (simp only: u2_def Let_def t_def f(3) [unfolded t_def])
        have sub: "dom (pt_record_map t) \<subseteq> {s} \<longleftrightarrow> dom (pt_record_map t) = {s}" using Some by auto
        note g = delete_min [OF d f(1,2), unfolded sub]
        have "0 \<le> u_BytesInFlight u - GetPacketSize s t" "u_BytesInFlight u \<le> 9223372036854775807"
          "0 \<le> GetPacketSize s t"
          using inv f(4) flight_nonneg [OF f(1)] by (simp_all add: conn_inv_def t_def)
        then have b: "i64 (u_BytesInFlight u - GetPacketSize s t) = u_BytesInFlight u - GetPacketSize s t" by simp
        show ?thesis
          using Some m last a(2) snt u2 f(2) b unfolding pa eq g
          by (auto simp: recorded_def ack_event_def ack_removes_def t_def)
      qed
    qed
  qed
qed


definition sample_ack :: cpacket where
  "sample_ack = \<lparr> pk_header = [0x80020000, 1, 0, 3], pk_data = Some [5, 0, 0, 0], pk_len = 4 \<rparr>"

theorem ack_outcome_witness:
  "\<exists>u u'. udt_run sample_platform fixed_rate_ops (sample_conn ()) u \<and> u_BytesInFlight u = 2
     \<and> ProcessAck fixed_rate_ops sample_readings sample_ack u = Inr u'
     \<and> u_BytesInFlight u' = 0 \<and> \<not> recorded (u_packet_tracker u') 5"
proof -
  obtain u where u: "udt_run sample_platform fixed_rate_ops (sample_conn ()) u"
      "u_packet_tracker u = sample_sent_tracker" "u_BytesInFlight u = 2"
    using sample_packed by blast
  have p: "ack_seq_no sample_ack = Inr 5" "m_iMsgNo sample_ack = 1"
    by (simp_all add: ack_seq_no_def sample_ack_def m_iMsgNo_def word_of_bytes4_def)
  have t: "GetPacketState 5 sample_sent_tracker = PACKET_STATE_SENT"
    "GetPacketLastMsgNo 5 sample_sent_tracker = 1" "GetPacketSize 5 sample_sent_tracker = 2"
    "GetPacketId 5 1 sample_sent_tracker = Inr 1"
    "GetPacketSentTime 5 1 sample_sent_tracker = Inr (Timespec 3 999999500)"
    "dom (pt_record_map sample_sent_tracker) \<noteq> {5}"
    by (simp_all add: sample_sent_tracker_def sample_record_sent_def GetPacketState_def GetPacketSize_def
      GetPacketLastMsgNo_def GetPacketMostRecentMsgNo_def GetPacketId_def GetPacketSentTime_def
      tracker_record_def record_packet_id_def record_sent_time_def SafeGetMessageRecord_def)
  have "\<exists>u'. ProcessAck fixed_rate_ops sample_readings sample_ack u = Inr u' \<and> ack_removes 5 u u'
      \<and> u_BytesInFlight u' = 0"
    using ack_outcome [OF sample_conn_fresh u(1) p(1), of sample_readings 1 "Timespec 3 999999500"] p(2) t u(2,3)
    by (simp add: fixed_rate_ops_def)
  then show ?thesis using u(1,3) by (auto simp: ack_removes_def recorded_def)
qed

end
