(* ===== verification/Time_Window.thy ===== *)
theory Time_Window
  imports Ieee_Float
begin

text \<open>The receiver's windows (core/window.h, window.cpp): CACKWindow, a ring of the
  acknowledgements sent, and CPktTimeWindow, the packet arrival and probing intervals with
  the median filters that estimate the arrival speed and the bandwidth.  The clock and the
  arrays as \<open>new\<close> leaves them are arguments.

  \<open>ack_entries\<close> is the abstraction of the ring, the acknowledgements from the oldest to the
  newest; store and acknowledge refine operations on that list.\<close>

subsection \<open>The window of acknowledgements\<close>

record ack_window =
  aw_seq_no :: "int list"
  aw_ack :: "int list"
  aw_time :: "int list"
  aw_size :: nat
  aw_head :: nat
  aw_tail :: nat

definition ack_window_new :: "nat \<Rightarrow> int list \<Rightarrow> int list \<Rightarrow> int list \<Rightarrow> ack_window" where
  "ack_window_new n seqs acks sent_times =
     \<lparr> aw_seq_no = seqs[0 := -1], aw_ack = acks, aw_time = sent_times, aw_size = n,
       aw_head = 0, aw_tail = 0 \<rparr>"

definition store :: "int \<Rightarrow> int \<Rightarrow> int \<Rightarrow> ack_window \<Rightarrow> ack_window" where
  "store now seq ack w0 =
     (let w = w0\<lparr> aw_seq_no := (aw_seq_no w0)[aw_head w0 := seq],
                 aw_ack := (aw_ack w0)[aw_head w0 := ack],
                 aw_time := (aw_time w0)[aw_head w0 := now],
                 aw_head := (aw_head w0 + 1) mod aw_size w0 \<rparr>
      in if aw_head w = aw_tail w then w\<lparr> aw_tail := (aw_tail w + 1) mod aw_size w \<rparr> else w)"

definition reset_window :: "ack_window \<Rightarrow> ack_window" where
  "reset_window w = w\<lparr> aw_tail := 0, aw_head := 0, aw_seq_no := (aw_seq_no w)[0 := -1] \<rparr>"

definition rtt_since :: "int \<Rightarrow> int \<Rightarrow> int" where
  "rtt_since now sent = i32 (u64 (now - sent))"

text \<open>The result is the RTT, or -1 when there is no such acknowledgement; \<open>ack\<close> is the output
  parameter.\<close>

definition acknowledge :: "int \<Rightarrow> int \<Rightarrow> int \<Rightarrow> ack_window \<Rightarrow> int \<times> int \<times> ack_window" where
  "acknowledge now seq ack w =
     (if aw_head w \<ge> aw_tail w then
        (case find (\<lambda>i. aw_seq_no w ! i = seq) [aw_tail w..<aw_head w] of
           Some i \<Rightarrow> (rtt_since now (aw_time w ! i), aw_ack w ! i,
                      if i + 1 = aw_head w then reset_window w
                      else w\<lparr> aw_tail := (i + 1) mod aw_size w \<rparr>)
         | None \<Rightarrow> (-1, ack, w))
      else
        (case find (\<lambda>j. aw_seq_no w ! (j mod aw_size w) = seq) [aw_tail w..<aw_head w + aw_size w] of
           Some j0 \<Rightarrow> let j = j0 mod aw_size w in
                     (rtt_since now (aw_time w ! j), aw_ack w ! j,
                      if j = aw_head w then reset_window w
                      else w\<lparr> aw_tail := (j + 1) mod aw_size w \<rparr>)
         | None \<Rightarrow> (-1, ack, w)))"

subsection \<open>The ring as a list\<close>

definition ack_entry :: "ack_window \<Rightarrow> nat \<Rightarrow> int \<times> int \<times> int" where
  "ack_entry w i =
     (let j = i mod aw_size w in (aw_seq_no w ! j, aw_ack w ! j, aw_time w ! j))"

definition ack_count :: "ack_window \<Rightarrow> nat" where
  "ack_count w = (if aw_tail w \<le> aw_head w then aw_head w - aw_tail w
                  else aw_head w + aw_size w - aw_tail w)"

definition ack_entries :: "ack_window \<Rightarrow> (int \<times> int \<times> int) list" where
  "ack_entries w = map (ack_entry w) [aw_tail w..<aw_tail w + ack_count w]"

definition ack_window_wf :: "ack_window \<Rightarrow> bool" where
  "ack_window_wf w \<longleftrightarrow> 2 \<le> aw_size w \<and> length (aw_seq_no w) = aw_size w
     \<and> length (aw_ack w) = aw_size w \<and> length (aw_time w) = aw_size w
     \<and> aw_head w < aw_size w \<and> aw_tail w < aw_size w"

lemma ack_count_less: "ack_window_wf w \<Longrightarrow> ack_count w < aw_size w"
  by (auto simp: ack_count_def ack_window_wf_def)

lemma ack_count_head: "ack_window_wf w \<Longrightarrow> (aw_tail w + ack_count w) mod aw_size w = aw_head w"
  by (auto simp: ack_count_def ack_window_wf_def)

lemma ack_count_unique:
  assumes "ack_window_wf w" "n < aw_size w" "(aw_tail w + n) mod aw_size w = aw_head w"
  shows "ack_count w = n"
proof (cases "aw_tail w + n < aw_size w")
  case True
  then show ?thesis using assms by (auto simp: ack_count_def)
next
  case False
  then have "(aw_tail w + n) mod aw_size w = aw_tail w + n - aw_size w"
    using assms(1,2) False by (auto simp: ack_window_wf_def mod_if)
  then show ?thesis using assms False by (auto simp: ack_count_def ack_window_wf_def)
qed

lemma map_upt_shift: "map f [a..<a + n] = map (\<lambda>k. f (a + k)) [0..<n]"
  by (rule nth_equalityI) simp_all

lemma ack_entries_mod:
  "map (ack_entry w) [a mod aw_size w..<a mod aw_size w + n] = map (ack_entry w) [a..<a + n]"
  unfolding map_upt_shift by (simp add: ack_entry_def mod_add_left_eq)

lemma dropWhile_map_upt:
  "dropWhile (\<lambda>e. \<not> P e) (map f [m..<n]) =
     (case find (\<lambda>i. P (f i)) [m..<n] of None \<Rightarrow> [] | Some k \<Rightarrow> map f [k..<n])"
proof (induction "n - m" arbitrary: m)
  case (Suc d)
  then have "m < n" by simp
  then have "[m..<n] = m # [Suc m..<n]" by (rule upt_conv_Cons)
  then show ?case using Suc(1)[of "Suc m"] Suc(2) by simp
qed simp

lemma find_upt_bounds: "find P [m..<n] = Some k \<Longrightarrow> m \<le> k \<and> k < n \<and> P k"
  by (auto simp: find_Some_iff)

text \<open>Both loops of acknowledge in one form.\<close>

lemma acknowledge_eq:
  assumes "ack_window_wf w"
  shows "acknowledge now seq ack w =
    (case find (\<lambda>i. fst (ack_entry w i) = seq) [aw_tail w..<aw_tail w + ack_count w] of
       None \<Rightarrow> (-1, ack, w)
     | Some i \<Rightarrow> (rtt_since now (snd (snd (ack_entry w i))), fst (snd (ack_entry w i)),
         if aw_tail w \<le> aw_head w \<and> i + 1 = aw_head w then reset_window w
         else w\<lparr> aw_tail := (i + 1) mod aw_size w \<rparr>))"
proof (cases "aw_tail w \<le> aw_head w")
  case True
  then have n: "aw_tail w + ack_count w = aw_head w" by (simp add: ack_count_def)
  have f: "find (\<lambda>i. aw_seq_no w ! i = seq) [aw_tail w..<aw_head w] =
        find (\<lambda>i. fst (ack_entry w i) = seq) [aw_tail w..<aw_head w]"
    using assms by (intro find_cong) (auto simp: ack_entry_def ack_window_wf_def Let_def)
  show ?thesis
  proof (cases "find (\<lambda>i. fst (ack_entry w i) = seq) [aw_tail w..<aw_head w]")
    case None
    then show ?thesis using True unfolding n by (simp add: acknowledge_def f)
  next
    case (Some i)
    then have "i mod aw_size w = i" using find_upt_bounds[OF Some] assms by (simp add: ack_window_wf_def)
    then show ?thesis using True Some unfolding n
      by (simp add: acknowledge_def f ack_entry_def Let_def)
  qed
next
  case False
  then have n: "aw_tail w + ack_count w = aw_head w + aw_size w"
    using assms by (simp add: ack_count_def ack_window_wf_def)
  have nh: "j mod aw_size w \<noteq> aw_head w" if "j \<in> {aw_tail w..<aw_head w + aw_size w}" for j
    using that False assms by (auto simp: ack_window_wf_def mod_if)
  have f: "(\<lambda>j. aw_seq_no w ! (j mod aw_size w) = seq) = (\<lambda>i. fst (ack_entry w i) = seq)"
    by (simp add: ack_entry_def Let_def)
  show ?thesis
  proof (cases "find (\<lambda>i. fst (ack_entry w i) = seq) [aw_tail w..<aw_head w + aw_size w]")
    case None
    then show ?thesis using False unfolding n acknowledge_def f by simp
  next
    case (Some j)
    have e: "ack_entry w j = (aw_seq_no w ! (j mod aw_size w), aw_ack w ! (j mod aw_size w),
        aw_time w ! (j mod aw_size w))"
      by (simp add: ack_entry_def Let_def)
    have "j mod aw_size w \<noteq> aw_head w" using find_upt_bounds[OF Some] nh by simp
    then show ?thesis using False Some unfolding n acknowledge_def f
      by (simp add: e Let_def mod_Suc_eq)
  qed
qed


lemma ack_entries_tail:
  assumes "ack_window_wf w" "k \<le> ack_count w"
    and "w' = w\<lparr> aw_tail := (aw_tail w + k) mod aw_size w \<rparr>"
  shows "ack_window_wf w'" "ack_entries w' = drop k (ack_entries w)"
proof -
  have e: "ack_entry w' = ack_entry w" by (simp add: fun_eq_iff ack_entry_def assms(3))
  show wf: "ack_window_wf w'" using assms(1,3) by (simp add: ack_window_wf_def)
  have "((aw_tail w + k) mod aw_size w + (ack_count w - k)) mod aw_size w
      = (aw_tail w + k + (ack_count w - k)) mod aw_size w"
    by (rule mod_add_left_eq)
  also have "\<dots> = aw_head w" using ack_count_head[OF assms(1)] assms(2) by simp
  finally have "(aw_tail w' + (ack_count w - k)) mod aw_size w' = aw_head w'" by (simp add: assms(3))
  moreover have "ack_count w - k < aw_size w'"
    using ack_count_less[OF assms(1)] by (simp add: assms(3))
  ultimately have "ack_count w' = ack_count w - k" by (intro ack_count_unique[OF wf])
  then have "ack_entries w' = map (ack_entry w) [(aw_tail w + k) mod aw_size w..<
      (aw_tail w + k) mod aw_size w + (ack_count w - k)]"
    by (simp add: ack_entries_def e) (simp add: assms(3))
  also have "\<dots> = map (ack_entry w) [aw_tail w + k..<aw_tail w + k + (ack_count w - k)]"
    by (rule ack_entries_mod)
  also have "\<dots> = drop k (ack_entries w)"
    using assms(2) by (simp add: ack_entries_def drop_map)
  finally show "ack_entries w' = drop k (ack_entries w)" .
qed

lemma reset_window_entries:
  "ack_window_wf w \<Longrightarrow> ack_window_wf (reset_window w) \<and> ack_entries (reset_window w) = []"
  by (simp add: ack_window_wf_def reset_window_def ack_entries_def ack_count_def)

text \<open>Adding at the head: the list grows by one, and loses its oldest element when the ring
  was full.\<close>

lemma store_entries:
  assumes "ack_window_wf w"
  shows "ack_window_wf (store now seq ack w)
    \<and> ack_entries (store now seq ack w) =
        (if ack_count w = aw_size w - 1 then tl (ack_entries w) else ack_entries w)
        @ [(seq, ack, now)]"
proof -
  let ?n = "aw_size w" and ?h = "aw_head w" and ?t = "aw_tail w" and ?c = "ack_count w"
  let ?w = "w\<lparr> aw_seq_no := (aw_seq_no w)[?h := seq], aw_ack := (aw_ack w)[?h := ack],
              aw_time := (aw_time w)[?h := now], aw_head := (?h + 1) mod ?n \<rparr>"
  have s: "2 \<le> ?n" "?h < ?n" "?t < ?n" "(?t + ?c) mod ?n = ?h" "?c < ?n"
    using assms ack_count_head ack_count_less by (auto simp: ack_window_wf_def)
  have wf: "ack_window_wf ?w" using assms s by (simp add: ack_window_wf_def)
  have new: "ack_entry ?w (?t + ?c) = (seq, ack, now)"
    using assms s(2,4) by (simp add: ack_entry_def ack_window_wf_def Let_def)
  have old: "ack_entry ?w i = ack_entry w i" if "?t \<le> i" "i < ?t + ?c" for i
  proof -
    have "i mod ?n \<noteq> ?h"
    proof
      assume "i mod ?n = ?h"
      then have "?n dvd (?t + ?c) - i" using s(4) that mod_eq_dvd_iff_nat[of i "?t + ?c" ?n] by simp
      then show False using that s(5) by (auto dest: dvd_imp_le)
    qed
    then show ?thesis by (simp add: ack_entry_def Let_def)
  qed
  have "map (ack_entry ?w) [?t..<?t + ?c] = ack_entries w"
    unfolding ack_entries_def by (rule map_cong[OF refl], rule old) simp_all
  then have all: "map (ack_entry ?w) [?t..<?t + ?c + 1] = ack_entries w @ [(seq, ack, now)]"
    using new by simp
  have h: "(?t + ?c + 1) mod ?n = (?h + 1) mod ?n" using s(4) by (metis mod_add_left_eq)
  show ?thesis
  proof (cases "?c = ?n - 1")
    case False
    then have "ack_count ?w = ?c + 1"
      using s h by (intro ack_count_unique[OF wf]) auto
    moreover from this have "(?h + 1) mod ?n \<noteq> ?t"
      by (auto simp: ack_count_def split: if_splits)
    ultimately show ?thesis using False wf all by (simp add: store_def ack_entries_def)
  next
    case True
    then have ht: "(?h + 1) mod ?n = ?t" using h s by (simp add: mod_if)
    define v where "v = ?w\<lparr> aw_tail := (?t + 1) mod ?n \<rparr>"
    have st: "store now seq ack w = v" using ht by (simp add: store_def v_def)
    have e: "ack_entry v = ack_entry ?w" by (simp add: fun_eq_iff ack_entry_def v_def)
    have vwf: "ack_window_wf v" using wf s by (simp add: ack_window_wf_def v_def)
    have "((?t + 1) mod ?n + ?c) mod ?n = (?t + 1 + ?c) mod ?n" by (simp add: mod_add_left_eq)
    also have "\<dots> = ?t" using True s by simp
    finally have "ack_count v = ?c"
      using s ht by (intro ack_count_unique[OF vwf]) (simp_all add: v_def)
    then have "ack_entries v = map (ack_entry ?w) [(?t + 1) mod ?n..<(?t + 1) mod ?n + ?c]"
      by (simp add: ack_entries_def e) (simp add: v_def)
    also have "\<dots> = map (ack_entry ?w) [?t + 1..<?t + 1 + ?c]"
      using ack_entries_mod[of ?w "?t + 1" ?c] by simp
    also have "\<dots> = tl (map (ack_entry ?w) [?t..<?t + ?c + 1])"
      by (simp add: upt_conv_Cons del: upt_Suc)
    also have "\<dots> = tl (ack_entries w) @ [(seq, ack, now)]"
      unfolding all using True s(1) by (auto simp: ack_entries_def)
    finally show ?thesis using True st vwf by simp
  qed
qed


text \<open>C32: the ring of acknowledgements is a bounded list.  store appends, and drops the oldest
  entry when the ring is full; acknowledge finds the oldest entry with the given number,
  returns its data and the time since it was stored, and drops it with all older ones; an
  unknown number returns -1 and changes nothing.  Both keep the ring well-formed.\<close>

theorem ack_window_refines_list:
  assumes "ack_window_wf w"
  shows "ack_window_wf (store now seq ack w)
    \<and> ack_entries (store now seq ack w) =
        (if length (ack_entries w) = aw_size w - 1 then tl (ack_entries w) else ack_entries w)
        @ [(seq, ack, now)]
    \<and> (case dropWhile (\<lambda>e. fst e \<noteq> seq) (ack_entries w) of
         [] \<Rightarrow> acknowledge now seq ack w = (-1, ack, w)
       | (_, a, sent) # rest \<Rightarrow>
           (\<exists>w'. acknowledge now seq ack w = (rtt_since now sent, a, w')
              \<and> ack_window_wf w' \<and> ack_entries w' = rest))"
proof -
  let ?c = "ack_count w" and ?t = "aw_tail w"
  have d: "dropWhile (\<lambda>e. fst e \<noteq> seq) (ack_entries w) =
      (case find (\<lambda>i. fst (ack_entry w i) = seq) [?t..<?t + ?c] of
         None \<Rightarrow> [] | Some k \<Rightarrow> map (ack_entry w) [k..<?t + ?c])"
    unfolding ack_entries_def by (rule dropWhile_map_upt)
  have "case dropWhile (\<lambda>e. fst e \<noteq> seq) (ack_entries w) of
         [] \<Rightarrow> acknowledge now seq ack w = (-1, ack, w)
       | (_, a, sent) # rest \<Rightarrow>
           (\<exists>w'. acknowledge now seq ack w = (rtt_since now sent, a, w')
              \<and> ack_window_wf w' \<and> ack_entries w' = rest)"
  proof (cases "find (\<lambda>i. fst (ack_entry w i) = seq) [?t..<?t + ?c]")
    case None
    then show ?thesis unfolding d by (simp add: acknowledge_eq[OF assms])
  next
    case (Some i)
    note i = find_upt_bounds[OF Some]
    define k where "k = i - ?t + 1"
    have k: "k \<le> ?c" "?t + k = i + 1" using i by (auto simp: k_def)
    obtain s a sent where e: "ack_entry w i = (s, a, sent)" by (cases "ack_entry w i")
    define w' where "w' = (if ?t \<le> aw_head w \<and> i + 1 = aw_head w then reset_window w
         else w\<lparr> aw_tail := (i + 1) mod aw_size w \<rparr>)"
    have dk: "drop k (ack_entries w) = map (ack_entry w) [i + 1..<?t + ?c]"
      by (simp add: ack_entries_def drop_map k(2))
    have "ack_window_wf w' \<and> ack_entries w' = map (ack_entry w) [i + 1..<?t + ?c]"
    proof (cases "?t \<le> aw_head w \<and> i + 1 = aw_head w")
      case True
      then have "[i + 1..<?t + ?c] = []" by (simp add: ack_count_def)
      then show ?thesis using reset_window_entries[OF assms] True by (simp add: w'_def)
    next
      case False
      then have "w' = w\<lparr> aw_tail := (?t + k) mod aw_size w \<rparr>" unfolding w'_def k(2) by (rule if_not_P)
      from ack_entries_tail[OF assms k(1) this] show ?thesis using dk by simp
    qed
    moreover have "[i..<?t + ?c] = i # [i + 1..<?t + ?c]" using i by (simp add: upt_conv_Cons)
    moreover have "acknowledge now seq ack w = (rtt_since now sent, a, w')"
      unfolding acknowledge_eq[OF assms] w'_def using Some e by simp
    ultimately show ?thesis unfolding d using Some e by simp
  qed
  then show ?thesis
    using store_entries[OF assms] by (simp add: ack_entries_def)
qed

definition sample_ack_window :: ack_window where
  "sample_ack_window =
     \<lparr> aw_seq_no = [9, -1, 7, 8], aw_ack = [90, 0, 70, 80], aw_time = [600, 0, 400, 500],
       aw_size = 4, aw_head = 1, aw_tail = 2 \<rparr>"

theorem ack_window_refines_list_witness:
  "acknowledge 1000 8 0 sample_ack_window = (500, 80, sample_ack_window\<lparr> aw_tail := 0 \<rparr>)
   \<and> ack_entries sample_ack_window = [(7, 70, 400), (8, 80, 500), (9, 90, 600)]
   \<and> ack_entries (store 1000 10 100 sample_ack_window) = [(8, 80, 500), (9, 90, 600), (10, 100, 1000)]"
proof -
  have e: "ack_entries sample_ack_window = [(7, 70, 400), (8, 80, 500), (9, 90, 600)]"
  proof -
    have "[2..<5] = [2, 3, 4 :: nat]" by code_simp
    then show ?thesis
      by (simp add: ack_entries_def ack_count_def ack_entry_def sample_ack_window_def Let_def)
  qed
  have "ack_window_wf sample_ack_window" by (simp add: ack_window_wf_def sample_ack_window_def)
  note r = ack_window_refines_list[OF this, of 1000 10 100]
  have "acknowledge 1000 8 0 sample_ack_window = (500, 80, sample_ack_window\<lparr> aw_tail := 0 \<rparr>)"
  proof -
    have "[2..<5] = [2, 3, 4 :: nat]" by code_simp
    then show ?thesis by (simp add: acknowledge_def sample_ack_window_def rtt_since_def Let_def)
  qed
  then show ?thesis using r e by (simp add: sample_ack_window_def)
qed


subsection \<open>The window of packet times\<close>

record time_window =
  tw_aw_size :: nat
  tw_pkt_window :: "int list"
  tw_pkt_ptr :: nat
  tw_pw_size :: nat
  tw_probe_window :: "int list"
  tw_probe_ptr :: nat
  tw_last_sent_time :: int
  tw_min_pkt_snd_int :: int
  tw_last_arr_time :: int
  tw_curr_arr_time :: int
  tw_probe_time :: int

definition time_window_new :: "int \<Rightarrow> nat \<Rightarrow> nat \<Rightarrow> time_window" where
  "time_window_new now asize psize =
     \<lparr> tw_aw_size = asize, tw_pkt_window = replicate asize 1000000, tw_pkt_ptr = 0,
       tw_pw_size = psize, tw_probe_window = replicate psize 1000, tw_probe_ptr = 0,
       tw_last_sent_time = 0, tw_min_pkt_snd_int = 1000000, tw_last_arr_time = now,
       tw_curr_arr_time = 0, tw_probe_time = 0 \<rparr>"

definition getMinPktSndInt :: "time_window \<Rightarrow> int" where
  "getMinPktSndInt w = tw_min_pkt_snd_int w"

text \<open>std::copy copies all but the last element; std::nth\_element puts the element of rank n/2
  of the copy in its place.\<close>

definition window_median :: "nat \<Rightarrow> int list \<Rightarrow> int" where
  "window_median n ws = sort (take (n - 1) ws) ! (n div 2)"

definition median_filter :: "int \<Rightarrow> int list \<Rightarrow> int list" where
  "median_filter median ws = filter (\<lambda>x. x < i32 (median * 8) \<and> median div 8 < x) ws"

definition int_ceil :: "platform \<Rightarrow> fp \<Rightarrow> int" where
  "int_ceil pf x = (case x of
     Fin a \<Rightarrow> if i32_range \<lceil>a\<rceil> then \<lceil>a\<rceil> else i32 (pf_bad_cast pf x)
   | _ \<Rightarrow> i32 (pf_bad_cast pf x))"

definition getPktRcvSpeed :: "platform \<Rightarrow> time_window \<Rightarrow> int" where
  "getPktRcvSpeed pf w =
     (let median = window_median (tw_aw_size w) (tw_pkt_window w);
          ok = median_filter median (tw_pkt_window w);
          count = int (length ok);
          total = i32 (sum_list ok)
      in if count > int (tw_aw_size w) div 2
         then int_ceil pf (d_div (Fin 1000000) (fp_of_int B64 (cdiv total count)))
         else 0)"

definition getBandwidth :: "platform \<Rightarrow> time_window \<Rightarrow> int" where
  "getBandwidth pf w =
     (let median = window_median (tw_pw_size w) (tw_probe_window w);
          ok = median_filter median (tw_probe_window w);
          count = 1 + int (length ok);
          total = i32 (median + sum_list ok)
      in int_ceil pf (d_div (Fin 1000000) (d_div (fp_of_int B64 total) (fp_of_int B64 count))))"

definition onPktSent :: "int \<Rightarrow> time_window \<Rightarrow> time_window" where
  "onPktSent currtime w =
     (let interval = i32 (currtime - tw_last_sent_time w);
          w1 = (if interval < tw_min_pkt_snd_int w \<and> interval > 0
                then w\<lparr> tw_min_pkt_snd_int := interval \<rparr> else w)
      in w1\<lparr> tw_last_sent_time := currtime \<rparr>)"

definition next_slot :: "nat \<Rightarrow> nat \<Rightarrow> nat" where
  "next_slot p n = (if p + 1 = n then 0 else p + 1)"

definition onPktArrival :: "int \<Rightarrow> time_window \<Rightarrow> time_window" where
  "onPktArrival now w0 =
     (let w = w0\<lparr> tw_curr_arr_time := now \<rparr> in
      w\<lparr> tw_pkt_window := (tw_pkt_window w)[tw_pkt_ptr w := rtt_since now (tw_last_arr_time w)],
         tw_pkt_ptr := next_slot (tw_pkt_ptr w) (tw_aw_size w),
         tw_last_arr_time := tw_curr_arr_time w \<rparr>)"

definition probe1Arrival :: "int \<Rightarrow> time_window \<Rightarrow> time_window" where
  "probe1Arrival now w = w\<lparr> tw_probe_time := now \<rparr>"

definition probe2Arrival :: "int \<Rightarrow> time_window \<Rightarrow> time_window" where
  "probe2Arrival now w0 =
     (let w = w0\<lparr> tw_curr_arr_time := now \<rparr> in
      w\<lparr> tw_probe_window := (tw_probe_window w)[tw_probe_ptr w := rtt_since now (tw_probe_time w)],
         tw_probe_ptr := next_slot (tw_probe_ptr w) (tw_pw_size w) \<rparr>)"

subsection \<open>The arrival speed\<close>

text \<open>Rounding the quotient to double does not change its ceiling: a quotient that is not an
  integer is further from the next integer than the rounding error.\<close>

lemma double_ceiling_exact:
  assumes "0 < a" "a \<le> 2147483648"
  shows "int_ceil pf (d_div (Fin 1000000) (Fin (of_int a))) = \<lceil>1000000 / rat_of_int a\<rceil>"
proof -
  define q where "q = 1000000 / rat_of_int a"
  define c where "c = \<lceil>q\<rceil>"
  have q: "0 < q" "q \<le> 1000000" using assms(1) by (simp_all add: q_def divide_le_eq)
  have c: "of_int c - 1 < q" "q \<le> of_int c" unfolding c_def by linarith+
  have cr: "1 \<le> c" "c \<le> 1000000"
    using q by (simp_all add: c_def ceiling_le_iff one_le_ceiling)
  have qa: "q * of_int a = 1000000" using assms(1) by (simp add: q_def)
  have "(of_int c - 1) * rat_of_int a < q * of_int a"
    using c(1) assms(1) by (simp add: mult_strict_right_mono)
  then have "rat_of_int ((c - 1) * a) < of_int 1000000" using qa by simp
  then have "(c - 1) * a + 1 \<le> 1000000" by (simp only: of_int_less_iff)
  then have "rat_of_int ((c - 1) * a + 1) \<le> of_int 1000000" by (simp only: of_int_le_iff)
  then have "(of_int c - 1) * rat_of_int a + 1 \<le> q * of_int a" using qa by simp
  then have "of_int c - 1 + 1 / rat_of_int a \<le> q"
    using assms(1) by (simp add: field_simps)
  moreover have "1 / 2147483648 \<le> 1 / rat_of_int a"
    using assms by (intro divide_left_mono) simp_all
  ultimately have lo: "of_int c - 1 + 1 / 2147483648 \<le> q" by linarith
  define n where "n = (c - 1) * 2147483648 + 1"
  have n: "\<bar>n\<bar> \<le> 9007199254740992" using cr by (simp add: n_def)
  have ny: "rat_of_int n / 2 ^ 31 = of_int c - 1 + 1 / 2147483648"
    by (simp add: n_def field_simps)
  have "fp_le (rnd B64 (of_int n / 2 ^ 31)) (rnd B64 q)" using lo ny by (intro rnd_mono) simp
  moreover have "fp_le (rnd B64 q) (rnd B64 (of_int c))" using c(2) by (rule rnd_mono)
  moreover have "rnd B64 (of_int n / 2 ^ 31) = Fin (of_int n / 2 ^ 31)" using n by (intro rnd64_dyadic) simp_all
  moreover have "rnd B64 (of_int c) = Fin (of_int c)" using cr by (intro rnd64_int) simp
  ultimately obtain r where r: "rnd B64 q = Fin r" "of_int n / 2 ^ 31 \<le> r" "r \<le> of_int c"
    by (cases "rnd B64 q") (auto simp: fp_le_def)
  have "\<lceil>r\<rceil> = c"
    using r(2,3) unfolding ny by (intro ceiling_unique) linarith+
  then show ?thesis
    using r(1) cr assms(1) by (simp add: int_ceil_def i32_range_def q_def[symmetric] c_def[symmetric])
qed

lemma sum_list_between:
  "(\<forall>x\<in>set xs. a \<le> x \<and> x \<le> b) \<Longrightarrow> a * int (length xs) \<le> sum_list xs \<and> sum_list xs \<le> b * int (length xs)"
  for xs :: "int list"
  by (induction xs) (auto simp: algebra_simps)

lemma average_between:
  fixes xs :: "int list"
  assumes "\<forall>x\<in>set xs. a \<le> x \<and> x \<le> b" "xs \<noteq> []"
  shows "a \<le> sum_list xs div int (length xs) \<and> sum_list xs div int (length xs) \<le> b"
proof -
  have l: "0 < int (length xs)" using assms(2) by simp
  note s = sum_list_between[OF assms(1)]
  have "a * int (length xs) div int (length xs) \<le> sum_list xs div int (length xs)"
    using s l by (intro zdiv_mono1) simp_all
  moreover have "sum_list xs div int (length xs) \<le> b * int (length xs) div int (length xs)"
    using s l by (intro zdiv_mono1) simp_all
  ultimately show ?thesis using l by simp
qed

lemma sum_list_filter_le:
  fixes xs :: "int list"
  shows "\<forall>x\<in>set xs. 0 \<le> x \<Longrightarrow> 0 \<le> sum_list (filter P xs) \<and> sum_list (filter P xs) \<le> sum_list xs"
  by (induction xs) auto

lemma window_median_member:
  assumes "3 \<le> n" "length ws = n"
  shows "window_median n ws \<in> set ws"
proof -
  have "n div 2 < length (sort (take (n - 1) ws))" using assms by simp
  then have "window_median n ws \<in> set (sort (take (n - 1) ws))"
    unfolding window_median_def by (rule nth_mem)
  then show ?thesis by (auto dest: in_set_takeD)
qed

definition arrival_samples_ok :: "time_window \<Rightarrow> bool" where
  "arrival_samples_ok w \<longleftrightarrow> 3 \<le> tw_aw_size w \<and> length (tw_pkt_window w) = tw_aw_size w
     \<and> (\<forall>x\<in>set (tw_pkt_window w). 0 < x \<and> x < 268435456) \<and> sum_list (tw_pkt_window w) < 2147483648"

text \<open>The arrival speed is exact.  Although it is computed with a rounded double quotient,
  the result is the ceiling of 1000000 over the integer average of the intervals within a
  factor of eight of the median, when more than half of the intervals are, and 0 otherwise;
  that average is itself within a factor of eight of the median.\<close>

theorem arrival_speed_exact:
  assumes "arrival_samples_ok w"
    and "median = window_median (tw_aw_size w) (tw_pkt_window w)"
    and "ok = filter (\<lambda>x. x < 8 * median \<and> median div 8 < x) (tw_pkt_window w)"
    and "average = sum_list ok div int (length ok)"
  shows "if tw_aw_size w div 2 < length ok
    then getPktRcvSpeed pf w = \<lceil>1000000 / rat_of_int average\<rceil>
         \<and> median div 8 < average \<and> average < 8 * median
    else getPktRcvSpeed pf w = 0"
proof -
  let ?n = "tw_aw_size w" and ?ws = "tw_pkt_window w"
  have ws: "3 \<le> ?n" "length ?ws = ?n" "\<forall>x\<in>set ?ws. 0 < x \<and> x < 268435456" "sum_list ?ws < 2147483648"
    using assms(1) by (simp_all add: arrival_samples_ok_def)
  have m: "0 < median" "median < 268435456"
    using window_median_member[OF ws(1,2)] ws(3) assms(2) by auto
  have f: "median_filter median ?ws = ok"
    using m by (simp add: median_filter_def assms(3) mult.commute)
  have s: "0 \<le> sum_list ok" "sum_list ok < 2147483648"
    using sum_list_filter_le[of ?ws "\<lambda>x. x < 8 * median \<and> median div 8 < x"] ws(3,4)
    unfolding assms(3) by fastforce+
  have half: "int ?n div 2 < int (length ok) \<longleftrightarrow> ?n div 2 < length ok" 
    by (metis of_nat_less_iff of_nat_numeral zdiv_int)
  show ?thesis
  proof (cases "?n div 2 < length ok")
    case False
    then show ?thesis using assms(2) f half by (simp add: getPktRcvSpeed_def Let_def)
  next
    case True
    then have ne: "ok \<noteq> []" by auto
    have "\<forall>x\<in>set ok. median div 8 + 1 \<le> x \<and> x \<le> 8 * median - 1" by (auto simp: assms(3))
    note av = average_between[OF this ne, folded assms(4)]
    have a: "0 < average" "average \<le> 2147483648" using av m by linarith+
    have "cdiv (i32 (sum_list ok)) (int (length ok)) = average" using s by (simp add: assms(4))
    moreover have "fp_of_int B64 average = Fin (of_int average)"
      unfolding fp_of_int_def using a by (intro rnd64_int) simp
    ultimately have "getPktRcvSpeed pf w = int_ceil pf (d_div (Fin 1000000) (Fin (of_int average)))"
      using assms(2) f half True by (simp add: getPktRcvSpeed_def Let_def)
    then show ?thesis using True av double_ceiling_exact[OF a, of pf] by simp
  qed
qed

definition sample_time_window :: time_window where
  "sample_time_window = (time_window_new 0 4 4)\<lparr> tw_pkt_window := [1000, 900, 1200, 1300] \<rparr>"

theorem arrival_speed_exact_witness:
  "(\<lambda>pf. getPktRcvSpeed pf sample_time_window) = (\<lambda>_. 910)"
proof
  fix pf
  have ok: "arrival_samples_ok sample_time_window"
    by (simp add: arrival_samples_ok_def sample_time_window_def time_window_new_def)
  have m: "window_median 4 [1000, 900, 1200, 1300] = 1200" by code_simp
  have "\<lceil>10000 / 11 :: rat\<rceil> = 910" by (rule ceiling_unique) simp_all
  then show "getPktRcvSpeed pf sample_time_window = 910"
    using arrival_speed_exact[OF ok refl refl refl, of pf]
    by (simp add: sample_time_window_def time_window_new_def m)
qed

end
