(* ===== verification/Md5.thy ===== *)
theory Md5
  imports Byte_Order
begin

text \<open>The MD5 digest (core/md5.h, md5.cpp) behind the connection cookies, and CMD5::compute
  (core/common.cpp).

  The first part is the code: the sixty-four SET macros as tables of (register that is
  assigned, index into the block, rotation, number of the constant), md5\_append with its
  partial block buffer, md5\_finish.  The second part is a reference, the algorithm as RFC
  1321 describes it: a step function with index formulas, the padding of the whole message
  and a fold over its blocks.  The theorems show that the code computes the reference, however
  the message is cut into calls of md5\_append.\<close>

unbundle bit_operations_syntax

subsection \<open>The code\<close>

definition T_MASK :: "32 word" where "T_MASK = NOT 0"

definition md5_T :: "32 word list" where
  "md5_T =
    [T_MASK XOR 0x28955B87, T_MASK XOR 0x173848A9, 0x242070DB, T_MASK XOR 0x3E423111,
     T_MASK XOR 0x0A83F050, 0x4787C62A, T_MASK XOR 0x57CFB9EC, T_MASK XOR 0x02B96AFE,
     0x698098D8, T_MASK XOR 0x74BB0850, T_MASK XOR 0x0000A44E, T_MASK XOR 0x76A32841,
     0x6B901122, T_MASK XOR 0x02678E6C, T_MASK XOR 0x5986BC71, 0x49B40821,
     T_MASK XOR 0x09E1DA9D, T_MASK XOR 0x3FBF4CBF, 0x265E5A51, T_MASK XOR 0x16493855,
     T_MASK XOR 0x29D0EFA2, 0x02441453, T_MASK XOR 0x275E197E, T_MASK XOR 0x182C0437,
     0x21E1CDE6, T_MASK XOR 0x3CC8F829, T_MASK XOR 0x0B2AF278, 0x455A14ED,
     T_MASK XOR 0x561C16FA, T_MASK XOR 0x03105C07, 0x676F02D9, T_MASK XOR 0x72D5B375,
     T_MASK XOR 0x0005C6BD, T_MASK XOR 0x788E097E, 0x6D9D6122, T_MASK XOR 0x021AC7F3,
     T_MASK XOR 0x5B4115BB, 0x4BDECFA9, T_MASK XOR 0x0944B49F, T_MASK XOR 0x4140438F,
     0x289B7EC6, T_MASK XOR 0x155ED805, T_MASK XOR 0x2B10CF7A, 0x04881D05,
     T_MASK XOR 0x262B2FC6, T_MASK XOR 0x1924661A, 0x1FA27CF8, T_MASK XOR 0x3B53A99A,
     T_MASK XOR 0x0BD6DDBB, 0x432AFF97, T_MASK XOR 0x546BDC58, T_MASK XOR 0x036C5FC6,
     0x655B59C3, T_MASK XOR 0x70F3336D, T_MASK XOR 0x00100B82, T_MASK XOR 0x7A7BA22E,
     0x6FA87E4F, T_MASK XOR 0x01D3191F, T_MASK XOR 0x5CFEBCEB, 0x4E0811A1,
     T_MASK XOR 0x08AC817D, T_MASK XOR 0x42C50DCA, 0x2AD7D2BB, T_MASK XOR 0x14792C6E]"

definition md5_round1 :: "(nat \<times> nat \<times> nat \<times> nat) list" where
  "md5_round1 =
    [(0, 0, 7, 1), (3, 1, 12, 2), (2, 2, 17, 3), (1, 3, 22, 4),
     (0, 4, 7, 5), (3, 5, 12, 6), (2, 6, 17, 7), (1, 7, 22, 8),
     (0, 8, 7, 9), (3, 9, 12, 10), (2, 10, 17, 11), (1, 11, 22, 12),
     (0, 12, 7, 13), (3, 13, 12, 14), (2, 14, 17, 15), (1, 15, 22, 16)]"

definition md5_round2 :: "(nat \<times> nat \<times> nat \<times> nat) list" where
  "md5_round2 =
    [(0, 1, 5, 17), (3, 6, 9, 18), (2, 11, 14, 19), (1, 0, 20, 20),
     (0, 5, 5, 21), (3, 10, 9, 22), (2, 15, 14, 23), (1, 4, 20, 24),
     (0, 9, 5, 25), (3, 14, 9, 26), (2, 3, 14, 27), (1, 8, 20, 28),
     (0, 13, 5, 29), (3, 2, 9, 30), (2, 7, 14, 31), (1, 12, 20, 32)]"

definition md5_round3 :: "(nat \<times> nat \<times> nat \<times> nat) list" where
  "md5_round3 =
    [(0, 5, 4, 33), (3, 8, 11, 34), (2, 11, 16, 35), (1, 14, 23, 36),
     (0, 1, 4, 37), (3, 4, 11, 38), (2, 7, 16, 39), (1, 10, 23, 40),
     (0, 13, 4, 41), (3, 0, 11, 42), (2, 3, 16, 43), (1, 6, 23, 44),
     (0, 9, 4, 45), (3, 12, 11, 46), (2, 15, 16, 47), (1, 2, 23, 48)]"

definition md5_round4 :: "(nat \<times> nat \<times> nat \<times> nat) list" where
  "md5_round4 =
    [(0, 0, 6, 49), (3, 7, 10, 50), (2, 14, 15, 51), (1, 5, 21, 52),
     (0, 12, 6, 53), (3, 3, 10, 54), (2, 10, 15, 55), (1, 1, 21, 56),
     (0, 8, 6, 57), (3, 15, 10, 58), (2, 6, 15, 59), (1, 13, 21, 60),
     (0, 4, 6, 61), (3, 11, 10, 62), (2, 2, 15, 63), (1, 9, 21, 64)]"

definition ROTATE_LEFT :: "32 word \<Rightarrow> nat \<Rightarrow> 32 word" where
  "ROTATE_LEFT x n = push_bit n x OR drop_bit (32 - n) x"

definition md5_F :: "32 word \<Rightarrow> 32 word \<Rightarrow> 32 word \<Rightarrow> 32 word" where
  "md5_F x y z = (x AND y) OR (NOT x AND z)"

definition md5_G :: "32 word \<Rightarrow> 32 word \<Rightarrow> 32 word \<Rightarrow> 32 word" where
  "md5_G x y z = (x AND z) OR (y AND NOT z)"

definition md5_H :: "32 word \<Rightarrow> 32 word \<Rightarrow> 32 word \<Rightarrow> 32 word" where
  "md5_H x y z = x XOR y XOR z"

definition md5_I :: "32 word \<Rightarrow> 32 word \<Rightarrow> 32 word \<Rightarrow> 32 word" where
  "md5_I x y z = y XOR (x OR NOT z)"

text \<open>SET(a, b, c, d, k, s, Ti) assigns its first argument; the other three follow it cyclically
  in the list of registers.\<close>

definition md5_set ::
  "(32 word \<Rightarrow> 32 word \<Rightarrow> 32 word \<Rightarrow> 32 word) \<Rightarrow> 32 word list \<Rightarrow> 32 word list
     \<Rightarrow> nat \<times> nat \<times> nat \<times> nat \<Rightarrow> 32 word list" where
  "md5_set f X regs = (\<lambda>(i, k, s, n).
     let a = regs ! i; b = regs ! ((i + 1) mod 4); c = regs ! ((i + 2) mod 4);
         d = regs ! ((i + 3) mod 4);
         t = a + f b c d + X ! k + md5_T ! (n - 1)
     in regs[i := ROTATE_LEFT t s + b])"

definition md5_process :: "32 word list \<Rightarrow> byte list \<Rightarrow> 32 word list" where
  "md5_process abcd data =
     (let X = words_of_bytes data;
          r1 = foldl (md5_set md5_F X) abcd md5_round1;
          r2 = foldl (md5_set md5_G X) r1 md5_round2;
          r3 = foldl (md5_set md5_H X) r2 md5_round3;
          r4 = foldl (md5_set md5_I X) r3 md5_round4
      in map2 (+) abcd r4)"

record md5_state =
  md5_count0 :: "32 word"
  md5_count1 :: "32 word"
  md5_abcd :: "32 word list"
  md5_buf :: "byte list"

definition md5_iv :: "32 word list" where
  "md5_iv = [0x67452301, T_MASK XOR 0x10325476, T_MASK XOR 0x67452301, 0x10325476]"

text \<open>md5\_init leaves the buffer as it finds it.\<close>

definition md5_init :: "byte list \<Rightarrow> md5_state" where
  "md5_init buf = \<lparr> md5_count0 = 0, md5_count1 = 0, md5_abcd = md5_iv, md5_buf = buf \<rparr>"

definition copy_into :: "nat \<Rightarrow> byte list \<Rightarrow> byte list \<Rightarrow> byte list" where
  "copy_into offset src dst = take offset dst @ src @ drop (offset + length src) dst"

text \<open>The loop over full blocks; it returns the digest registers and the bytes that are left.\<close>

function md5_blocks :: "(32 word list \<Rightarrow> byte list \<Rightarrow> 32 word list) \<Rightarrow> 32 word list \<Rightarrow> byte list
    \<Rightarrow> 32 word list \<times> byte list" where
  "md5_blocks f abcd p =
     (if 64 \<le> length p then md5_blocks f (f abcd (take 64 p)) (drop 64 p) else (abcd, p))"
  by pat_completeness auto

termination by (relation "measure (\<lambda>(f, abcd, p). length p)") auto

declare md5_blocks.simps [simp del]

definition md5_finish_append :: "byte list \<Rightarrow> md5_state \<Rightarrow> md5_state" where
  "md5_finish_append p st =
     (case md5_blocks md5_process (md5_abcd st) p of (abcd, left) \<Rightarrow>
        st\<lparr> md5_abcd := abcd, md5_buf := copy_into 0 left (md5_buf st) \<rparr>)"

definition md5_update_count :: "nat \<Rightarrow> md5_state \<Rightarrow> md5_state" where
  "md5_update_count nbytes st =
     (let nbits = word_of_nat (nbytes * 8);
          c0 = md5_count0 st + nbits;
          c1 = md5_count1 st + word_of_nat (nbytes div 2 ^ 29)
      in st\<lparr> md5_count0 := c0, md5_count1 := (if c0 < nbits then c1 + 1 else c1) \<rparr>)"

definition md5_append :: "byte list \<Rightarrow> md5_state \<Rightarrow> md5_state" where
  "md5_append data st0 =
     (let nbytes = length data; offset = unat (drop_bit 3 (md5_count0 st0) AND 63) in
      if nbytes = 0 then st0
      else
        let st = md5_update_count nbytes st0 in
        if offset \<noteq> 0 then
          let copy = (if offset + nbytes > 64 then 64 - offset else nbytes);
              st1 = st\<lparr> md5_buf := copy_into offset (take copy data) (md5_buf st) \<rparr>
          in if offset + copy < 64 then st1
             else md5_finish_append (drop copy data)
                    (st1\<lparr> md5_abcd := md5_process (md5_abcd st1) (md5_buf st1) \<rparr>)
        else md5_finish_append data st)"

definition md5_pad :: "byte list" where
  "md5_pad = 0x80 # replicate 63 0"

definition md5_finish :: "md5_state \<Rightarrow> byte list \<times> md5_state" where
  "md5_finish st =
     (let data = word_bytes (md5_count0 st) @ word_bytes (md5_count1 st);
          n = unat ((55 - drop_bit 3 (md5_count0 st)) AND 63) + 1;
          st1 = md5_append (take n md5_pad) st;
          st2 = md5_append data st1
      in (bytes_of_words (md5_abcd st2), st2))"

text \<open>CMD5::compute digests the characters before the first NUL.\<close>

definition md5_compute :: "byte list \<Rightarrow> byte list \<Rightarrow> byte list" where
  "md5_compute buf input =
     fst (md5_finish (md5_append (takeWhile (\<lambda>c. c \<noteq> 0) input) (md5_init buf)))"

subsection \<open>The reference\<close>

definition rfc_T :: "32 word list" where
  "rfc_T =
    [0xD76AA478, 0xE8C7B756, 0x242070DB, 0xC1BDCEEE,
     0xF57C0FAF, 0x4787C62A, 0xA8304613, 0xFD469501,
     0x698098D8, 0x8B44F7AF, 0xFFFF5BB1, 0x895CD7BE,
     0x6B901122, 0xFD987193, 0xA679438E, 0x49B40821,
     0xF61E2562, 0xC040B340, 0x265E5A51, 0xE9B6C7AA,
     0xD62F105D, 0x02441453, 0xD8A1E681, 0xE7D3FBC8,
     0x21E1CDE6, 0xC33707D6, 0xF4D50D87, 0x455A14ED,
     0xA9E3E905, 0xFCEFA3F8, 0x676F02D9, 0x8D2A4C8A,
     0xFFFA3942, 0x8771F681, 0x6D9D6122, 0xFDE5380C,
     0xA4BEEA44, 0x4BDECFA9, 0xF6BB4B60, 0xBEBFBC70,
     0x289B7EC6, 0xEAA127FA, 0xD4EF3085, 0x04881D05,
     0xD9D4D039, 0xE6DB99E5, 0x1FA27CF8, 0xC4AC5665,
     0xF4292244, 0x432AFF97, 0xAB9423A7, 0xFC93A039,
     0x655B59C3, 0x8F0CCC92, 0xFFEFF47D, 0x85845DD1,
     0x6FA87E4F, 0xFE2CE6E0, 0xA3014314, 0x4E0811A1,
     0xF7537E82, 0xBD3AF235, 0x2AD7D2BB, 0xEB86D391]"

definition rfc_function :: "nat \<Rightarrow> 32 word \<Rightarrow> 32 word \<Rightarrow> 32 word \<Rightarrow> 32 word" where
  "rfc_function i x y z =
     (if i < 16 then (x AND y) OR (NOT x AND z)
      else if i < 32 then (x AND z) OR (y AND NOT z)
      else if i < 48 then x XOR y XOR z
      else y XOR (x OR NOT z))"

definition rfc_index :: "nat \<Rightarrow> nat" where
  "rfc_index i =
     (if i < 16 then i else if i < 32 then (5 * i + 1) mod 16
      else if i < 48 then (3 * i + 5) mod 16 else (7 * i) mod 16)"

definition rfc_shift :: "nat \<Rightarrow> nat" where
  "rfc_shift i =
     (if i < 16 then [7, 12, 17, 22] else if i < 32 then [5, 9, 14, 20]
      else if i < 48 then [4, 11, 16, 23] else [6, 10, 15, 21]) ! (i mod 4)"

type_synonym md5_chain = "32 word \<times> 32 word \<times> 32 word \<times> 32 word"

definition rfc_step :: "32 word list \<Rightarrow> md5_chain \<Rightarrow> nat \<Rightarrow> md5_chain" where
  "rfc_step X = (\<lambda>(a, b, c, d) i.
     (d, b + word_rotl (rfc_shift i) (a + rfc_function i b c d + X ! rfc_index i + rfc_T ! i), b, c))"

definition rfc_compress :: "md5_chain \<Rightarrow> byte list \<Rightarrow> md5_chain" where
  "rfc_compress = (\<lambda>(a, b, c, d) block.
     case foldl (rfc_step (words_of_bytes block)) (a, b, c, d) [0..<64] of
       (a', b', c', d') \<Rightarrow> (a + a', b + b', c + c', d + d'))"

definition rfc_iv :: md5_chain where
  "rfc_iv = (0x67452301, 0xEFCDAB89, 0x98BADCFE, 0x10325476)"

definition rfc_padding :: "nat \<Rightarrow> byte list" where
  "rfc_padding n =
     0x80 # replicate (nat ((55 - int n) mod 64)) 0
     @ bytes_of_words [word_of_nat (8 * n), word_of_nat (8 * n div 2 ^ 32)]"

function rfc_fold :: "md5_chain \<Rightarrow> byte list \<Rightarrow> md5_chain" where
  "rfc_fold c bs = (if bs = [] then c else rfc_fold (rfc_compress c (take 64 bs)) (drop 64 bs))"
  by pat_completeness auto

termination by (relation "measure (\<lambda>(c, bs). length bs)") auto

declare rfc_fold.simps [simp del]

definition rfc_md5 :: "byte list \<Rightarrow> byte list" where
  "rfc_md5 message =
     (case rfc_fold rfc_iv (message @ rfc_padding (length message)) of
        (a, b, c, d) \<Rightarrow> bytes_of_words [a, b, c, d])"


subsection \<open>One block\<close>

lemma ROTATE_LEFT_rotl:
  assumes "n \<noteq> 0" "n < 32"
  shows "ROTATE_LEFT x n = word_rotl n x"
proof (rule bit_word_eqI)
  fix j :: nat
  assume "j < LENGTH(32)"
  then have j: "j < 32" by simp
  show "bit (ROTATE_LEFT x n) j = bit (word_rotl n x) j"
  proof (cases "n \<le> j")
    case True
    then have "(j + (32 - n)) mod 32 = j - n"
      using assms j by (simp add: mod_if)
    moreover have "\<not> bit x (32 - n + j)"
      using True by (auto dest: bit_imp_le_length)
    ultimately show ?thesis
      using True assms j by (simp add: ROTATE_LEFT_def bit_or_iff bit_push_bit_iff bit_drop_bit_eq
          bit_word_rotl_iff del: add_diff_assoc)
  next
    case False
    then have "(j + (32 - n)) mod 32 = j + (32 - n)"
      using assms j by simp
    then show ?thesis
      using False assms j by (simp add: ROTATE_LEFT_def bit_or_iff bit_push_bit_iff
          bit_drop_bit_eq bit_word_rotl_iff add.commute [of j] del: add_diff_assoc add_diff_assoc2)
  qed
qed

definition md5_chain_of :: "nat \<Rightarrow> 32 word list \<Rightarrow> md5_chain" where
  "md5_chain_of n regs =
     (let i = (64 - n) mod 4
      in (regs ! i, regs ! ((i + 1) mod 4), regs ! ((i + 2) mod 4), regs ! ((i + 3) mod 4)))"

definition row_ok :: "nat \<Rightarrow> nat \<times> nat \<times> nat \<times> nat \<Rightarrow> bool" where
  "row_ok n = (\<lambda>(i, k, s, m). n < 64 \<and> i = (64 - n) mod 4 \<and> k = rfc_index n \<and> s = rfc_shift n
     \<and> s \<noteq> 0 \<and> s < 32 \<and> md5_T ! (m - 1) = rfc_T ! n)"

fun rows_ok :: "nat \<Rightarrow> (nat \<times> nat \<times> nat \<times> nat) list \<Rightarrow> bool" where
  "rows_ok n [] = True"
| "rows_ok n (r # rs) = (row_ok n r \<and> rows_ok (Suc n) rs)"

lemma md5_rows_ok:
  "rows_ok 0 md5_round1" "rows_ok 16 md5_round2" "rows_ok 32 md5_round3" "rows_ok 48 md5_round4"
  by code_simp+

lemma md5_round_lengths [simp]:
  "length md5_round1 = 16" "length md5_round2 = 16" "length md5_round3 = 16"
  "length md5_round4 = 16"
  by (simp_all add: md5_round1_def md5_round2_def md5_round3_def md5_round4_def)

lemma length_md5_set [simp]: "length (md5_set f X regs r) = length regs"
  by (cases r) (simp add: md5_set_def Let_def)

lemma length_md5_sets [simp]: "length (foldl (md5_set f X) regs rs) = length regs"
  by (induction rs arbitrary: regs) simp_all

lemma md5_set_step:
  assumes "row_ok n r" "length regs = 4" "rfc_function n = f"
  shows "md5_chain_of (Suc n) (md5_set f X regs r) = rfc_step X (md5_chain_of n regs) n"
proof -
  obtain i k s m where r: "r = (i, k, s, m)" by (cases r)
  have n: "n < 64" and i: "i = (64 - n) mod 4" and k: "k = rfc_index n" and s: "s = rfc_shift n"
    and s': "s \<noteq> 0" "s < 32" and T: "md5_T ! (m - 1) = rfc_T ! n"
    using assms(1) by (simp_all add: row_ok_def r)
  have i4: "i < 4" using i by simp
  have "64 - n = Suc (64 - Suc n)" using n by simp
  then have "(i + 3) mod 4 = (Suc (64 - Suc n) + 3) mod 4"
    unfolding i by (simp only: mod_add_left_eq)
  also have "Suc (64 - Suc n) + 3 = (64 - Suc n) + 4" by simp
  finally have nxt: "(64 - Suc n) mod 4 = (i + 3) mod 4" by simp
  obtain ra rb rc rd where regs: "regs = [ra, rb, rc, rd]"
    using assms(2) by (auto simp: numeral_eq_Suc length_Suc_conv)
  have "i = 0 \<or> i = 1 \<or> i = 2 \<or> i = 3" using i4 by auto
  then show ?thesis
    unfolding md5_chain_of_def nxt i [symmetric] r md5_set_def Let_def rfc_step_def prod.case
      k [symmetric] s [symmetric] T ROTATE_LEFT_rotl [OF s'] assms(3) regs
    by (elim disjE) (simp_all add: add.commute)
qed

lemma md5_sets_steps:
  "rows_ok n rs \<Longrightarrow> length regs = 4 \<Longrightarrow> (\<And>j. n \<le> j \<Longrightarrow> j < n + length rs \<Longrightarrow> rfc_function j = f)
    \<Longrightarrow> md5_chain_of (n + length rs) (foldl (md5_set f X) regs rs) =
          foldl (rfc_step X) (md5_chain_of n regs) [n..<n + length rs]"
proof (induction rs arbitrary: n regs)
  case (Cons r rs)
  have "md5_chain_of (Suc n + length rs) (foldl (md5_set f X) (md5_set f X regs r) rs) =
      foldl (rfc_step X) (md5_chain_of (Suc n) (md5_set f X regs r)) [Suc n..<Suc n + length rs]"
    using Cons.prems by (intro Cons.IH) auto
  then show ?case
    using Cons.prems md5_set_step [of n r regs f X] by (simp add: upt_rec)
qed simp

lemma rfc_function_rounds:
  "j < 16 \<Longrightarrow> rfc_function j = md5_F"
  "16 \<le> j \<Longrightarrow> j < 32 \<Longrightarrow> rfc_function j = md5_G"
  "32 \<le> j \<Longrightarrow> j < 48 \<Longrightarrow> rfc_function j = md5_H"
  "48 \<le> j \<Longrightarrow> rfc_function j = md5_I"
  by (auto simp: fun_eq_iff rfc_function_def md5_F_def md5_G_def md5_H_def md5_I_def)

lemma md5_rounds:
  assumes "length regs = 4"
  shows "md5_chain_of 64
      (foldl (md5_set md5_I X) (foldl (md5_set md5_H X) (foldl (md5_set md5_G X)
        (foldl (md5_set md5_F X) regs md5_round1) md5_round2) md5_round3) md5_round4) =
     foldl (rfc_step X) (md5_chain_of 0 regs) [0..<64]"
proof -
  have split: "[0..<64::nat] = [0..<16] @ [16..<32] @ [32..<48] @ [48..<64]"
    using upt_add_eq_append [of 0 16 16] upt_add_eq_append [of 0 32 16]
      upt_add_eq_append [of 0 48 16] by (simp del: upt_conv_Cons)
  show ?thesis
    using md5_sets_steps [OF md5_rows_ok(1), of regs md5_F X]
      md5_sets_steps [OF md5_rows_ok(2), of "foldl (md5_set md5_F X) regs md5_round1" md5_G X]
      md5_sets_steps [OF md5_rows_ok(3), of "foldl (md5_set md5_G X)
        (foldl (md5_set md5_F X) regs md5_round1) md5_round2" md5_H X]
      md5_sets_steps [OF md5_rows_ok(4), of "foldl (md5_set md5_H X) (foldl (md5_set md5_G X)
        (foldl (md5_set md5_F X) regs md5_round1) md5_round2) md5_round3" md5_I X]
    by (simp only: split foldl_append) (simp add: assms rfc_function_rounds)
qed

definition chain_of :: "32 word list \<Rightarrow> md5_chain" where
  "chain_of abcd = (abcd ! 0, abcd ! 1, abcd ! 2, abcd ! 3)"

lemma md5_process_chain:
  assumes "length abcd = 4"
  shows "chain_of (md5_process abcd block) = rfc_compress (chain_of abcd) block"
proof -
  define regs where "regs = foldl (md5_set md5_I (words_of_bytes block))
    (foldl (md5_set md5_H (words_of_bytes block)) (foldl (md5_set md5_G (words_of_bytes block))
      (foldl (md5_set md5_F (words_of_bytes block)) abcd md5_round1) md5_round2) md5_round3) md5_round4"
  have steps: "foldl (rfc_step (words_of_bytes block)) (chain_of abcd) [0..<64] = chain_of regs"
    using md5_rounds [OF assms, of "words_of_bytes block"]
    by (simp add: md5_chain_of_def chain_of_def regs_def [symmetric] flip: numeral_2_eq_2)
  have "length regs = 4" by (simp add: regs_def assms)
  then show ?thesis
    using steps assms
    by (simp add: md5_process_def Let_def regs_def [symmetric] rfc_compress_def chain_of_def)
qed

text \<open>C33: the sixty-four SET macros of md5\_process, with their constants written as
  complements, compute the block function of RFC 1321, on every block and every chaining
  value.\<close>

theorem md5_process_is_rfc:
  assumes "length abcd = 4"
  shows "chain_of (md5_process abcd block) = rfc_compress (chain_of abcd) block"
  by (rule md5_process_chain [OF assms])

theorem md5_process_is_rfc_witness:
  "chain_of (md5_process md5_iv (replicate 64 0)) = rfc_compress (chain_of md5_iv) (replicate 64 0)"
  by (rule md5_process_is_rfc) (simp add: md5_iv_def)


subsection \<open>The message as a stream\<close>

lemma md5_blocks_short [simp]: "length p < 64 \<Longrightarrow> md5_blocks f abcd p = (abcd, p)"
  by (subst md5_blocks.simps) simp

lemma md5_blocks_long:
  "64 \<le> length p \<Longrightarrow> md5_blocks f abcd p = md5_blocks f (f abcd (take 64 p)) (drop 64 p)"
  by (subst md5_blocks.simps) simp

lemma md5_blocks_append:
  "md5_blocks f abcd p = (abcd', left) \<Longrightarrow> md5_blocks f abcd (p @ q) = md5_blocks f abcd' (left @ q)"
proof (induction f abcd p rule: md5_blocks.induct)
  case (1 f abcd p)
  show ?case
  proof (cases "64 \<le> length p")
    case True
    then show ?thesis using 1 by (simp add: md5_blocks_long)
  next
    case False
    then show ?thesis using 1 by simp
  qed
qed

lemma md5_blocks_left: "length (snd (md5_blocks f abcd p)) = length p mod 64"
proof (induction f abcd p rule: md5_blocks.induct)
  case (1 f abcd p)
  then show ?case by (cases "64 \<le> length p") (simp_all add: md5_blocks_long le_mod_geq)
qed

lemma length_md5_process: "length abcd = 4 \<Longrightarrow> length (md5_process abcd block) = 4"
  by (simp add: md5_process_def Let_def)

lemma length_md5_blocks:
  "length abcd = 4 \<Longrightarrow> length (fst (md5_blocks md5_process abcd p)) = 4"
proof (induction md5_process abcd p rule: md5_blocks.induct)
  case (1 abcd p)
  then show ?case
    by (cases "64 \<le> length p") (simp_all add: md5_blocks_long length_md5_process)
qed

text \<open>The state after a message: the registers have absorbed its full blocks, the buffer starts
  with the rest, and the two counters are the 64 bits of its length in bits.\<close>

definition md5_inv :: "byte list \<Rightarrow> md5_state \<Rightarrow> bool" where
  "md5_inv msg st \<longleftrightarrow>
     md5_count0 st = word_of_nat (8 * length msg)
     \<and> md5_count1 st = word_of_nat (8 * length msg div 2 ^ 32)
     \<and> length (md5_buf st) = 64
     \<and> md5_blocks md5_process md5_iv msg
         = (md5_abcd st, take (length msg mod 64) (md5_buf st))"

lemma md5_init_inv: "length buf = 64 \<Longrightarrow> md5_inv [] (md5_init buf)"
  by (simp add: md5_inv_def md5_init_def)

lemma md5_bytes:
  "unat (drop_bit 3 (word_of_nat (8 * n) :: 32 word)) = n mod 2 ^ 29"
proof -
  have "unat (drop_bit 3 (word_of_nat (8 * n) :: 32 word)) = 8 * n mod 2 ^ 32 div 8"
    by (simp only: unat_drop_bit_eq unsigned_of_nat) (simp add: drop_bit_eq_div take_bit_eq_mod)
  also have "\<dots> = n mod 2 ^ 29"
    using mult_mod_right [of 8 n "2 ^ 29"] by simp
  finally show ?thesis .
qed

lemma md5_offset:
  "unat (drop_bit 3 (word_of_nat (8 * n) :: 32 word) AND 63) = n mod 64"
proof -
  have m: "(63 :: 32 word) = mask 6" by (simp add: mask_eq_exp_minus_1)
  show ?thesis
    unfolding m take_bit_eq_mask [symmetric] unsigned_take_bit_eq md5_bytes
    by (simp add: take_bit_eq_mod mod_mod_cancel)
qed

lemma word_carry:
  fixes a b :: nat
  shows "(word_of_nat a + word_of_nat b :: 32 word) < word_of_nat b
           \<longleftrightarrow> (a + b) div 2 ^ 32 = a div 2 ^ 32 + b div 2 ^ 32 + 1"
    and "\<not> (word_of_nat a + word_of_nat b :: 32 word) < word_of_nat b
           \<longleftrightarrow> (a + b) div 2 ^ 32 = a div 2 ^ 32 + b div 2 ^ 32"
proof -
  define M :: nat where "M = 2 ^ 32"
  have w: "(word_of_nat a + word_of_nat b :: 32 word) < word_of_nat b \<longleftrightarrow> (a + b) mod M < b mod M"
    by (simp add: word_less_nat_alt unsigned_of_nat take_bit_eq_mod M_def
        flip: of_nat_add)
  have M: "0 < M" by (simp add: M_def)
  have d: "(a + b) div M = a div M + b div M + (a mod M + b mod M) div M"
    by (rule div_add1_eq)
  have r: "(a + b) mod M = (a mod M + b mod M) mod M"
    by (simp add: mod_add_eq)
  have "(x + y) div M = (if M \<le> x + y then 1 else 0)"
    and "(x + y) mod M < y \<longleftrightarrow> M \<le> x + y" if "x < M" "y < M" for x y
    using that by (auto simp: div_if [of "x + y"] mod_if [of "x + y"])
  note carry = this [OF mod_less_divisor [OF M] mod_less_divisor [OF M]]
  from carry show "(word_of_nat a + word_of_nat b :: 32 word) < word_of_nat b
      \<longleftrightarrow> (a + b) div 2 ^ 32 = a div 2 ^ 32 + b div 2 ^ 32 + 1"
    and "\<not> (word_of_nat a + word_of_nat b :: 32 word) < word_of_nat b
      \<longleftrightarrow> (a + b) div 2 ^ 32 = a div 2 ^ 32 + b div 2 ^ 32"
    unfolding w r M_def [symmetric] d by simp_all
qed

lemma md5_update_count:
  assumes "md5_count0 st = word_of_nat (8 * n)" "md5_count1 st = word_of_nat (8 * n div 2 ^ 32)"
  shows "md5_count0 (md5_update_count k st) = word_of_nat (8 * (n + k))"
    and "md5_count1 (md5_update_count k st) = word_of_nat (8 * (n + k) div 2 ^ 32)"
    and "md5_abcd (md5_update_count k st) = md5_abcd st"
    and "md5_buf (md5_update_count k st) = md5_buf st"
proof -
  have k: "k div 2 ^ 29 = k * 8 div 2 ^ 32"
    using div_mult_mult2 [of 8 k "2 ^ 29"] by simp
  show "md5_count0 (md5_update_count k st) = word_of_nat (8 * (n + k))"
    and "md5_count1 (md5_update_count k st) = word_of_nat (8 * (n + k) div 2 ^ 32)"
    using word_carry [of "8 * n" "k * 8"]
    unfolding md5_update_count_def Let_def assms k by (auto simp: algebra_simps)
qed (simp_all add: md5_update_count_def Let_def)


lemma length_copy_into:
  "offset + length src \<le> length dst \<Longrightarrow> length (copy_into offset src dst) = length dst"
  by (simp add: copy_into_def)

lemma take_copy_into:
  "offset + length src \<le> length dst \<Longrightarrow>
    take (offset + length src) (copy_into offset src dst) = take offset dst @ src"
  by (simp add: copy_into_def)

lemma md5_finish_append:
  assumes "md5_blocks md5_process (md5_abcd st) p = (abcd, left)" "length (md5_buf st) = 64"
  shows "md5_count0 (md5_finish_append p st) = md5_count0 st"
    and "md5_count1 (md5_finish_append p st) = md5_count1 st"
    and "md5_abcd (md5_finish_append p st) = abcd"
    and "length (md5_buf (md5_finish_append p st)) = 64"
    and "take (length left) (md5_buf (md5_finish_append p st)) = left"
proof -
  have "length left = length p mod 64"
    using md5_blocks_left [of md5_process "md5_abcd st" p] assms(1) by simp
  then have "length left \<le> 64" using mod_less_divisor [of 64 "length p"] by simp
  then show "length (md5_buf (md5_finish_append p st)) = 64"
    and "take (length left) (md5_buf (md5_finish_append p st)) = left"
    using assms take_copy_into [of 0 left "md5_buf st"]
    by (simp_all add: md5_finish_append_def length_copy_into)
qed (simp_all add: md5_finish_append_def assms(1))

lemma md5_append_inv:
  assumes inv: "md5_inv msg st"
  shows "md5_inv (msg @ data) (md5_append data st)"
proof (cases "data = []")
  case True
  then show ?thesis using inv by (simp add: md5_append_def Let_def)
next
  case False
  define offset where "offset = length msg mod 64"
  define st1 where "st1 = md5_update_count (length data) st"
  note cnt = inv [unfolded md5_inv_def]
  have off: "unat (drop_bit 3 (md5_count0 st) AND 63) = offset"
    using cnt by (simp only: md5_offset offset_def)
  have counts: "md5_count0 st1 = word_of_nat (8 * length (msg @ data))"
      "md5_count1 st1 = word_of_nat (8 * length (msg @ data) div 2 ^ 32)"
      "md5_abcd st1 = md5_abcd st" "md5_buf st1 = md5_buf st"
    using md5_update_count [of st "length msg" "length data"] cnt
    by (simp_all only: st1_def length_append)
  have buf: "length (md5_buf st) = 64" and off64: "offset < 64"
    using cnt by (simp_all add: offset_def)
  have blocks: "md5_blocks md5_process md5_iv (msg @ q) =
      md5_blocks md5_process (md5_abcd st) (take offset (md5_buf st) @ q)" for q
    using cnt by (intro md5_blocks_append) (simp add: offset_def)
  have finish: "md5_inv (msg @ data) (md5_finish_append p st2)"
    if "md5_count0 st2 = md5_count0 st1" "md5_count1 st2 = md5_count1 st1"
      "length (md5_buf st2) = 64"
      "md5_blocks md5_process md5_iv (msg @ data) = md5_blocks md5_process (md5_abcd st2) p"
    for p st2
  proof -
    obtain abcd left where bl: "md5_blocks md5_process (md5_abcd st2) p = (abcd, left)"
      by fastforce
    have "length left = length (msg @ data) mod 64"
      using md5_blocks_left [of md5_process md5_iv "msg @ data"] that(4) bl by simp
    then show ?thesis
      using that counts(1,2) bl md5_finish_append [OF bl that(3)]
      by (simp only: md5_inv_def)
  qed
  show ?thesis
  proof (cases "offset = 0")
    case True
    then have "md5_append data st = md5_finish_append data st1"
      using False by (simp add: md5_append_def Let_def off st1_def)
    then show ?thesis
      using finish [of st1 data] blocks [of data] counts buf True by simp
  next
    case partial: False
    show ?thesis
    proof (cases "offset + length data < 64")
      case True
      then have "md5_append data st =
          st1\<lparr> md5_buf := copy_into offset data (md5_buf st1) \<rparr>"
        using False partial by (simp add: md5_append_def Let_def off st1_def)
      moreover have "(length msg + length data) mod 64 = offset + length data"
        using True unfolding offset_def by (metis mod_add_left_eq mod_less)
      ultimately show ?thesis
        using True counts buf blocks [of data] take_copy_into [of offset data "md5_buf st"]
        by (simp only: md5_inv_def) (simp add: length_copy_into)
    next
      case full: False
      define c where "c = 64 - offset"
      define block where "block = take offset (md5_buf st) @ take c data"
      have c: "c \<le> length data" using full by (simp add: c_def)
      have len: "length block = 64" using off64 buf c by (simp add: block_def c_def)
      have cp: "copy_into offset (take c data) (md5_buf st) = block"
        using take_copy_into [of offset "take c data" "md5_buf st"]
          length_copy_into [of offset "take c data" "md5_buf st"] buf c off64
        by (simp add: block_def c_def)
      have copy: "(if offset + length data > 64 then 64 - offset else length data) = c"
        using full by (auto simp: c_def)
      have oc: "offset + c = 64" using off64 by (simp add: c_def)
      have "md5_append data st = md5_finish_append (drop c data)
          (st1\<lparr> md5_buf := block, md5_abcd := md5_process (md5_abcd st1) block \<rparr>)"
        using False partial off64 cp counts(4)
        by (simp add: md5_append_def Let_def off st1_def [symmetric] copy oc)
      moreover have "take offset (md5_buf st) @ data = block @ drop c data"
        by (simp add: block_def)
      ultimately show ?thesis
        using finish [of "st1\<lparr> md5_buf := block, md5_abcd := md5_process (md5_abcd st1) block \<rparr>"
            "drop c data"] len counts blocks [of data] by (simp add: md5_blocks_long)
    qed
  qed
qed

text \<open>Md5\_append keeps the state that of the message received so far, whatever the pieces
  it is fed: the block buffer, the digest registers and the 64-bit length counter depend on the
  concatenation of the data only.\<close>

theorem md5_append_extends_message:
  assumes "md5_inv msg st"
  shows "md5_inv (msg @ data) (md5_append data st)"
  by (rule md5_append_inv [OF assms])

theorem md5_append_extends_message_witness:
  "md5_inv ([] @ replicate 100 7) (md5_append (replicate 100 7) (md5_init (replicate 64 0)))"
  by (rule md5_append_extends_message) (simp add: md5_init_inv)


subsection \<open>The digest\<close>

lemma rfc_fold_blocks:
  assumes "length abcd = 4" "64 dvd length bs"
  shows "rfc_fold (chain_of abcd) bs = chain_of (fst (md5_blocks md5_process abcd bs))"
  using assms
proof (induction md5_process abcd bs rule: md5_blocks.induct)
  case (1 abcd bs)
  show ?case
  proof (cases "64 \<le> length bs")
    case True
    have "64 dvd length (drop 64 bs)" using 1(3) True by (simp add: dvd_diff_nat)
    then show ?thesis
      using 1(1) [OF True] True 1(2)
      by (subst rfc_fold.simps)
        (auto simp: md5_blocks_long length_md5_process md5_process_chain [symmetric])
  next
    case False
    then have "bs = []" using 1(3) by (cases bs) (auto dest: dvd_imp_le)
    then show ?thesis by (simp add: rfc_fold.simps)
  qed
qed

lemma rfc_iv_chain: "rfc_iv = chain_of md5_iv"
  by code_simp

lemma md5_pad_length:
  "unat ((55 - drop_bit 3 (word_of_nat (8 * n) :: 32 word)) AND 63) = nat ((55 - int n) mod 64)"
proof -
  have m: "(63 :: 32 word) = mask 6" by (simp add: mask_eq_exp_minus_1)
  have d: "uint (drop_bit 3 (word_of_nat (8 * n) :: 32 word)) = int (n mod 2 ^ 29)"
    by (simp only: uint_nat md5_bytes)
  have "uint ((55 - drop_bit 3 (word_of_nat (8 * n) :: 32 word)) AND 63)
      = (55 - int (n mod 2 ^ 29)) mod 2 ^ 32 mod 64"
    unfolding m take_bit_eq_mask [symmetric] unsigned_take_bit_eq uint_word_ariths d
    by (simp add: take_bit_eq_mod)
  also have "\<dots> = (55 - int n mod 2 ^ 29) mod 64"
    by (simp add: mod_mod_cancel of_nat_mod)
  also have "\<dots> = (55 - int n) mod 64"
    using mod_diff_right_eq [of 55 "int n mod 2 ^ 29" 64] mod_diff_right_eq [of 55 "int n" 64]
    by (simp add: mod_mod_cancel)
  finally show ?thesis by (simp add: unat_eq_nat_uint)
qed


lemma md5_finish_digest:
  assumes inv: "md5_inv msg st"
  shows "fst (md5_finish st) = rfc_md5 msg"
proof -
  define k where "k = nat ((55 - int (length msg)) mod 64)"
  define sz where "sz = word_bytes (md5_count0 st) @ word_bytes (md5_count1 st)"
  have k: "k < 64" by (simp add: k_def)
  have n: "unat ((55 - drop_bit 3 (md5_count0 st)) AND 63) = k"
    using inv by (simp only: md5_inv_def md5_pad_length k_def)
  have pad: "take (k + 1) md5_pad = 0x80 # replicate k 0"
    using k by (simp add: md5_pad_def take_replicate min_def)
  define st2 where "st2 = md5_append sz (md5_append (take (k + 1) md5_pad) st)"
  have fin: "fst (md5_finish st) = bytes_of_words (md5_abcd st2)"
    by (simp add: md5_finish_def Let_def n st2_def sz_def)
  define full where "full = msg @ rfc_padding (length msg)"
  have full: "full = (msg @ take (k + 1) md5_pad) @ sz"
    using inv unfolding full_def rfc_padding_def k_def [symmetric] pad sz_def md5_inv_def
    by simp
  have "md5_inv full st2"
    unfolding full st2_def by (intro md5_append_inv inv)
  moreover have "64 dvd length full"
  proof -
    have "(int (length msg) + (55 - int (length msg)) mod 64 + 9) mod 64 = 0"
      using mod_add_right_eq [of "int (length msg) + 9" "55 - int (length msg)" 64]
      by (simp add: add_ac)
    moreover have "int (length full) = int (length msg) + (55 - int (length msg)) mod 64 + 9"
      by (simp add: full_def rfc_padding_def)
    ultimately have "int (length full) mod int 64 = 0" by simp
    then show ?thesis by (simp only: of_nat_mod [symmetric]) (simp add: mod_eq_0_iff_dvd)
  qed
  ultimately have "rfc_fold rfc_iv full = chain_of (md5_abcd st2)" and "length (md5_abcd st2) = 4"
    using rfc_fold_blocks [of md5_iv full] length_md5_blocks [of md5_iv full]
    by (simp_all add: md5_inv_def rfc_iv_chain md5_iv_def [THEN arg_cong, of length])
  then show ?thesis
    unfolding fin rfc_md5_def full_def [symmetric]
    by (auto simp: chain_of_def numeral_eq_Suc length_Suc_conv)
qed

text \<open>CMD5::compute is the MD5 digest of the C string it is given: the bytes before the
  first NUL, and nothing of what the stack buffer held before.\<close>

theorem md5_compute_is_rfc:
  assumes "length buf = 64"
  shows "md5_compute buf input = rfc_md5 (takeWhile (\<lambda>c. c \<noteq> 0) input)"
proof -
  have "md5_inv ([] @ takeWhile (\<lambda>c. c \<noteq> 0) input)
      (md5_append (takeWhile (\<lambda>c. c \<noteq> 0) input) (md5_init buf))"
    by (intro md5_append_inv md5_init_inv assms)
  then show ?thesis by (simp add: md5_compute_def md5_finish_digest)
qed

theorem md5_compute_is_rfc_witness:
  "md5_compute (replicate 64 0) [0x61, 0x62, 0x63, 0, 0x64] = rfc_md5 [0x61, 0x62, 0x63]"
  using md5_compute_is_rfc [of "replicate 64 0" "[0x61, 0x62, 0x63, 0, 0x64]"] by simp

end
