(* ===== verification/Unit_Queue.thy ===== *)
theory Unit_Queue
  imports Packet_Format Ieee_Float
begin

text \<open>CUnitQueue of core/queue.h and queue.cpp: the pool of receive units that the receiving
  queue fills from the network and the receiver buffers of the sockets hold until the
  application has read them.

  The entries are the list of CQEntry objects in the order of m\_pNext from m\_pQEntry, the
  last one m\_pLastQueue.  A CUnit pointer is a pair (entry, index); m\_pCurrQueue and
  m\_pAvailUnit are the entry and the index where the search resumes.  Memory allocation is
  taken to succeed; \<open>mem i\<close> is what the memory allocated for unit i holds.\<close>

subsection \<open>State and operations\<close>

record cunit =
  m_Packet :: cpacket
  m_iFlag :: int

type_synonym unit_addr = "nat \<times> nat"

record unit_queue =
  uq_entries :: "cunit list list"
  uq_curr :: nat
  uq_avail :: nat
  uq_size :: int
  uq_count :: int
  uq_mss :: int
  uq_version :: int

definition unit_valid :: "unit_queue \<Rightarrow> unit_addr \<Rightarrow> bool" where
  "unit_valid uq = (\<lambda>(q, i). q < length (uq_entries uq) \<and> i < length (uq_entries uq ! q))"

definition unit_at :: "unit_queue \<Rightarrow> unit_addr \<Rightarrow> cunit" where
  "unit_at uq = (\<lambda>(q, i). uq_entries uq ! q ! i)"

definition set_unit :: "unit_addr \<Rightarrow> cunit \<Rightarrow> unit_queue \<Rightarrow> unit_queue" where
  "set_unit = (\<lambda>(q, i) u uq.
     uq\<lparr> uq_entries := (uq_entries uq)[q := (uq_entries uq ! q)[i := u]] \<rparr>)"

definition new_units :: "(nat \<Rightarrow> byte list) \<Rightarrow> nat \<Rightarrow> cunit list" where
  "new_units mem sz =
     map (\<lambda>i. \<lparr> m_Packet = packet_new\<lparr> pk_data := Some (mem i) \<rparr>, m_iFlag = 0 \<rparr>) [0..<sz]"

definition uq_init :: "(nat \<Rightarrow> byte list) \<Rightarrow> nat \<Rightarrow> int \<Rightarrow> int \<Rightarrow> unit_queue" where
  "uq_init mem sz mss version =
     \<lparr> uq_entries = [new_units mem sz], uq_curr = 0, uq_avail = 0, uq_size = int sz,
       uq_count = 0, uq_mss = mss, uq_version = version \<rparr>"

definition real_count :: "unit_queue \<Rightarrow> nat" where
  "real_count uq = length (filter (\<lambda>u. m_iFlag u \<noteq> 0) (concat (uq_entries uq)))"

definition uq_increase :: "(nat \<Rightarrow> byte list) \<Rightarrow> unit_queue \<Rightarrow> int \<times> unit_queue" where
  "uq_increase mem uq0 =
     (let uq = uq0\<lparr> uq_count := int (real_count uq0) \<rparr> in
      if fp_lt (fp_div B64 (fp_of_int B64 (uq_count uq)) (fp_of_int B64 (uq_size uq)))
               (rnd B64 (9 / 10))
      then (-1, uq)
      else
        let sz = length (hd (uq_entries uq))
        in (0, uq\<lparr> uq_entries := uq_entries uq @ [new_units mem sz],
                    uq_size := uq_size uq + int sz \<rparr>))"

text \<open>The search of getNextAvailUnit within the current entry stops in front of the last unit.\<close>

definition scan_entry :: "cunit list \<Rightarrow> nat \<Rightarrow> nat option" where
  "scan_entry units from = List.find (\<lambda>i. m_iFlag (units ! i) = 0) [from..<length units - 1]"

primrec scan_queues :: "nat \<Rightarrow> nat \<Rightarrow> unit_queue \<Rightarrow> (unit_addr option \<times> unit_queue) outcome" where
  "scan_queues 0 entrance uq = Inl Diverges"
| "scan_queues (Suc fuel) entrance uq =
     (let q = uq_curr uq; units = uq_entries uq ! q in
      case scan_entry units (uq_avail uq) of
        Some i \<Rightarrow> Inr (Some (q, i), uq\<lparr> uq_avail := i \<rparr>)
      | None \<Rightarrow>
          if m_iFlag (units ! 0) = 0 then Inr (Some (q, 0), uq\<lparr> uq_avail := 0 \<rparr>)
          else
            let q' = Suc q mod length (uq_entries uq);
                uq' = uq\<lparr> uq_curr := q', uq_avail := 0 \<rparr>
            in if q' = entrance then Inr (None, uq') else scan_queues fuel entrance uq')"

definition getNextAvailUnit ::
  "(nat \<Rightarrow> byte list) \<Rightarrow> unit_queue \<Rightarrow> (unit_addr option \<times> unit_queue) outcome" where
  "getNextAvailUnit mem uq0 =
     (let uq = (if uq_count uq0 * 10 > uq_size uq0 * 9 then snd (uq_increase mem uq0) else uq0) in
      if uq_count uq \<ge> uq_size uq then Inr (None, uq)
      else bind_outcome (scan_queues (length (uq_entries uq)) (uq_curr uq) uq) (\<lambda>(r, uq').
        case r of
          Some a \<Rightarrow> Inr (Some a, uq')
        | None \<Rightarrow> Inr (None, snd (uq_increase mem uq'))))"

subsection \<open>Well-formed pools\<close>

definition uq_wf :: "unit_queue \<Rightarrow> bool" where
  "uq_wf uq \<longleftrightarrow> (\<exists>n > 0. \<forall>e \<in> set (uq_entries uq). length e = n) \<and> uq_curr uq < length (uq_entries uq)
     \<and> uq_size uq = int (length (concat (uq_entries uq)))"

lemma uq_init_wf: "0 < sz \<Longrightarrow> uq_wf (uq_init mem sz mss version)"
  by (auto simp: uq_wf_def uq_init_def new_units_def)

lemma unit_at_set_unit:
  "unit_valid uq a \<Longrightarrow> unit_at (set_unit a u uq) b = (if b = a then u else unit_at uq b)"
  by (cases a; cases b) (auto simp: unit_at_def set_unit_def unit_valid_def nth_list_update)

lemma length_nth_update [simp]: "length (xss[q := (xss ! q)[i := u]] ! k) = length (xss ! k)"
  by (cases "q < length xss") (simp_all add: nth_list_update list_update_beyond)

lemma unit_valid_set_unit [simp]: "unit_valid (set_unit a u uq) b = unit_valid uq b"
  by (cases a; cases b) (simp add: unit_valid_def set_unit_def)

lemma set_unit_simps [simp]:
  "uq_curr (set_unit a u uq) = uq_curr uq" "uq_avail (set_unit a u uq) = uq_avail uq"
  "uq_size (set_unit a u uq) = uq_size uq" "uq_count (set_unit a u uq) = uq_count uq"
  "length (uq_entries (set_unit a u uq)) = length (uq_entries uq)"
  by (cases a; simp add: set_unit_def)+

lemma unit_at_count [simp]: "unit_at (uq\<lparr> uq_count := c \<rparr>) a = unit_at uq a"
  "unit_valid (uq\<lparr> uq_count := c \<rparr>) a = unit_valid uq a"
  by (simp_all add: unit_at_def unit_valid_def)

lemma uq_wf_count [simp]: "uq_wf (uq\<lparr> uq_count := c \<rparr>) = uq_wf uq"
  by (simp add: uq_wf_def)

lemma length_concat_update:
  "q < length xss \<Longrightarrow> length ys = length (xss ! q)
    \<Longrightarrow> length (concat (xss[q := ys])) = length (concat xss)"
proof (induction xss arbitrary: q)
  case (Cons xs xss)
  then show ?case by (cases q) simp_all
qed simp

lemma uq_wf_set_unit [simp]:
  assumes "unit_valid uq a"
  shows "uq_wf (set_unit a u uq) = uq_wf uq"
proof -
  obtain q i where a: "a = (q, i)" by (cases a)
  then have q: "q < length (uq_entries uq)" using assms by (simp add: unit_valid_def)
  have lens: "map length ((uq_entries uq)[q := (uq_entries uq ! q)[i := u]]) = map length (uq_entries uq)"
    using q by (simp add: map_update list_update_same_conv)
  have "(\<forall>e\<in>set xss. length e = n) \<longleftrightarrow> (\<forall>l\<in>set (map length xss). l = n)" for xss :: "cunit list list" and n
    by simp
  then have "(\<forall>e\<in>set ((uq_entries uq)[q := (uq_entries uq ! q)[i := u]]). length e = n)
      \<longleftrightarrow> (\<forall>e\<in>set (uq_entries uq). length e = n)" for n
    by (simp only: lens)
  then show ?thesis
    using q by (simp add: uq_wf_def a set_unit_def length_concat_update)
qed

text \<open>Enlarging the pool leaves the existing units as they are.\<close>

definition uq_extends :: "unit_queue \<Rightarrow> unit_queue \<Rightarrow> bool" where
  "uq_extends uq uq' \<longleftrightarrow> (\<forall>a. unit_valid uq a \<longrightarrow> unit_valid uq' a \<and> unit_at uq' a = unit_at uq a)"

lemma uq_extends_refl [simp]: "uq_extends uq uq"
  by (simp add: uq_extends_def)

lemma uq_extends_trans [trans]: "uq_extends u v \<Longrightarrow> uq_extends v w \<Longrightarrow> uq_extends u w"
  by (simp add: uq_extends_def)

lemma uq_increase_extends: "uq_extends uq (snd (uq_increase mem uq))"
  by (auto simp: uq_increase_def Let_def uq_extends_def unit_valid_def unit_at_def nth_append)

lemma uq_increase_wf:
  assumes "uq_wf uq"
  shows "uq_wf (snd (uq_increase mem uq))"
proof -
  obtain n where n: "0 < n" "\<forall>e\<in>set (uq_entries uq). length e = n"
    using assms unfolding uq_wf_def by blast
  have "uq_entries uq \<noteq> []" using assms by (auto simp: uq_wf_def)
  then have "length (hd (uq_entries uq)) = n" using n(2) by simp
  then show ?thesis
    using assms n by (auto simp: uq_increase_def Let_def uq_wf_def new_units_def)
qed

lemma scan_entry_Some:
  "scan_entry units from = Some i \<Longrightarrow> from \<le> i \<and> i < length units - 1 \<and> m_iFlag (units ! i) = 0"
  by (auto simp: scan_entry_def find_Some_iff)

lemma scan_entry_None:
  "scan_entry units from = None \<Longrightarrow> from \<le> i \<Longrightarrow> i < length units - 1 \<Longrightarrow> m_iFlag (units ! i) \<noteq> 0"
  by (auto simp: scan_entry_def find_None_iff)

lemma scan_queues_facts:
  "scan_queues fuel entrance uq = Inr (r, uq') \<Longrightarrow> uq_wf uq \<Longrightarrow>
     uq_wf uq' \<and> uq_entries uq' = uq_entries uq \<and> uq_count uq' = uq_count uq \<and> uq_size uq' = uq_size uq
     \<and> (\<forall>q i. r = Some (q, i) \<longrightarrow> q < length (uq_entries uq) \<and> i < length (uq_entries uq ! q)
          \<and> m_iFlag (uq_entries uq ! q ! i) = 0 \<and> (i = 0 \<or> i < length (uq_entries uq ! q) - 1))
     \<and> (r = None \<longrightarrow> uq_curr uq' = entrance \<and> uq_avail uq' = 0)"
proof (induction fuel arbitrary: uq)
  case (Suc fuel)
  define q where "q = uq_curr uq"
  have q: "q < length (uq_entries uq)" using Suc.prems(2) by (simp add: q_def uq_wf_def)
  have "0 < length (uq_entries uq ! q)"
    using Suc.prems(2) nth_mem [OF q] unfolding uq_wf_def by force
  define uq1 where "uq1 = uq\<lparr> uq_curr := Suc q mod length (uq_entries uq), uq_avail := 0 \<rparr>"
  have "Suc q mod length (uq_entries uq) < length (uq_entries uq)"
    using q by (intro mod_less_divisor) auto
  then have wf1: "uq_wf uq1" using Suc.prems(2) by (simp add: uq_wf_def uq1_def)
  consider (some) i where "scan_entry (uq_entries uq ! q) (uq_avail uq) = Some i"
      "r = Some (q, i)" "uq' = uq\<lparr> uq_avail := i \<rparr>"
    | (head) "m_iFlag (uq_entries uq ! q ! 0) = 0" "r = Some (q, 0)" "uq' = uq\<lparr> uq_avail := 0 \<rparr>"
    | (round) "uq_curr uq1 = entrance" "r = None" "uq' = uq1"
    | (further) "scan_queues fuel entrance uq1 = Inr (r, uq')"
    using Suc.prems(1)
    by (cases "scan_entry (uq_entries uq ! q) (uq_avail uq)";
        cases "m_iFlag (uq_entries uq ! q ! 0) = 0"; cases "uq_curr uq1 = entrance")
      (simp_all add: Let_def q_def uq1_def)
  then show ?case
  proof cases
    case some
    then show ?thesis using scan_entry_Some [OF some(1)] Suc.prems(2) q
      by (auto simp: uq_wf_def)
  next
    case head
    then show ?thesis using Suc.prems(2) q \<open>0 < length (uq_entries uq ! q)\<close>
      by (auto simp: uq_wf_def)
  next
    case round
    then show ?thesis using wf1 by (auto simp: uq1_def)
  next
    case further
    from Suc.IH [OF further wf1] show ?thesis by (simp add: uq1_def)
  qed
qed simp

lemma scan_queues_returns:
  "0 < d \<Longrightarrow> d \<le> fuel \<Longrightarrow> (uq_curr uq + d) mod length (uq_entries uq) = entrance
    \<Longrightarrow> \<exists>r. scan_queues fuel entrance uq = Inr r"
proof (induction fuel arbitrary: uq d)
  case (Suc fuel)
  define q' where "q' = Suc (uq_curr uq) mod length (uq_entries uq)"
  have "\<exists>r. scan_queues fuel entrance (uq\<lparr> uq_curr := q', uq_avail := 0 \<rparr>) = Inr r" if "q' \<noteq> entrance"
  proof (rule Suc.IH)
    have "d \<noteq> 1" using that Suc.prems(3) by (auto simp: q'_def)
    then show "0 < d - 1" "d - 1 \<le> fuel" using Suc.prems by auto
    show "(uq_curr (uq\<lparr> uq_curr := q', uq_avail := 0 \<rparr>) + (d - 1))
        mod length (uq_entries (uq\<lparr> uq_curr := q', uq_avail := 0 \<rparr>)) = entrance"
      using Suc.prems mod_add_left_eq [of "Suc (uq_curr uq)" "length (uq_entries uq)" "d - 1"]
      by (simp add: q'_def del: mod_add_left_eq)
  qed
  then show ?case
    by (auto simp: Let_def q'_def [symmetric] split: option.split)
qed simp

lemma getNextAvailUnit_returns:
  assumes "uq_wf uq"
  shows "\<exists>r. getNextAvailUnit mem uq = Inr r"
proof -
  define uq1 where "uq1 = (if uq_count uq * 10 > uq_size uq * 9 then snd (uq_increase mem uq) else uq)"
  have "uq_wf uq1" using assms uq_increase_wf by (simp add: uq1_def)
  then have c: "uq_curr uq1 < length (uq_entries uq1)" by (simp add: uq_wf_def)
  obtain r uq2 where "scan_queues (length (uq_entries uq1)) (uq_curr uq1) uq1 = Inr (r, uq2)"
    using scan_queues_returns [of "length (uq_entries uq1)" "length (uq_entries uq1)" uq1] c
    by fastforce
  then show ?thesis
    by (auto simp: getNextAvailUnit_def uq1_def [symmetric] Let_def split: option.split)
qed

lemma getNextAvailUnit_facts:
  assumes "getNextAvailUnit mem uq = Inr (r, uq')" "uq_wf uq"
  shows "uq_wf uq'" "uq_extends uq uq'"
    and "r = Some a \<Longrightarrow> unit_valid uq' a \<and> m_iFlag (unit_at uq' a) = 0
           \<and> (snd a = 0 \<or> Suc (snd a) < length (uq_entries uq' ! fst a))"
proof -
  define uq1 where "uq1 = (if uq_count uq * 10 > uq_size uq * 9 then snd (uq_increase mem uq) else uq)"
  have wf1: "uq_wf uq1" and ext1: "uq_extends uq uq1"
    using assms(2) uq_increase_wf uq_increase_extends by (simp_all add: uq1_def)
  consider (full) "r = None" "uq' = uq1"
    | (scan) r2 uq2 where "scan_queues (length (uq_entries uq1)) (uq_curr uq1) uq1 = Inr (r2, uq2)"
        "r = r2" "uq' = (if r2 = None then snd (uq_increase mem uq2) else uq2)"
    using assms(1)
    by (simp add: getNextAvailUnit_def uq1_def [symmetric] Let_def bind_outcome_Inr_iff
        split: if_split_asm) (force split: option.splits)+
  then have "uq_wf uq' \<and> uq_extends uq uq' \<and> (r = Some a \<longrightarrow> unit_valid uq' a
      \<and> m_iFlag (unit_at uq' a) = 0 \<and> (snd a = 0 \<or> Suc (snd a) < length (uq_entries uq' ! fst a)))"
  proof cases
    case full
    then show ?thesis using wf1 ext1 by simp
  next
    case scan
    note f = scan_queues_facts [OF scan(1) wf1]
    have "uq_extends uq1 uq2"
      using f by (simp add: uq_extends_def unit_valid_def unit_at_def)
    then have "uq_extends uq uq2" using ext1 by (rule uq_extends_trans [rotated])
    then have "uq_extends uq uq'" and "uq_wf uq'"
      using f scan uq_extends_trans [OF _ uq_increase_extends] uq_increase_wf by auto
    then show ?thesis
      using f scan by (cases a) (auto simp: unit_valid_def unit_at_def)
  qed
  then show "uq_wf uq'" "uq_extends uq uq'"
    and "r = Some a \<Longrightarrow> unit_valid uq' a \<and> m_iFlag (unit_at uq' a) = 0
           \<and> (snd a = 0 \<or> Suc (snd a) < length (uq_entries uq' ! fst a))"
    by auto
qed



end
