(* ===== verification/Rcv_Buffer.thy ===== *)
theory Rcv_Buffer
  imports Unit_Queue
begin

text \<open>CRcvBuffer of core/buffer.h and buffer.cpp: the circular array of receive units in which
  the packets of a connection are put back into order, as far as stream sockets use it, and
  the drop of a message.  Array positions and counts are natural numbers: they are never
  negative, and \<open>m_iMaxPos -= i\<close> followed by the reset of a negative value to 0 is the
  subtraction of naturals.

  The development's contract is the stream: whatever the order in which packets arrive, with
  duplicates, and whatever the other users of the unit pool do, the bytes handed to the
  application are those of the sender, in order.\<close>

subsection \<open>State and operations\<close>

record rcv_buffer =
  rb_unit :: "unit_addr option list"
  rb_size :: nat
  rb_start :: nat
  rb_lastack :: nat
  rb_maxpos :: nat
  rb_notch :: nat
  rb_seq_offset :: int

definition rcv_buffer_new :: "int \<Rightarrow> nat \<Rightarrow> rcv_buffer" where
  "rcv_buffer_new first_seq_no bufsize =
     \<lparr> rb_unit = replicate bufsize None, rb_size = bufsize, rb_start = 0, rb_lastack = 0,
       rb_maxpos = 0, rb_notch = 0, rb_seq_offset = first_seq_no \<rparr>"

definition release_unit :: "unit_addr \<Rightarrow> unit_queue \<Rightarrow> unit_queue" where
  "release_unit a uq =
     (let uq' = set_unit a ((unit_at uq a)\<lparr> m_iFlag := 0 \<rparr>) uq
      in uq'\<lparr> uq_count := uq_count uq' - 1 \<rparr>)"

definition rcv_buffer_delete :: "rcv_buffer \<Rightarrow> unit_queue \<Rightarrow> unit_queue" where
  "rcv_buffer_delete rb uq =
     fold (\<lambda>slot uq. case slot of None \<Rightarrow> uq | Some a \<Rightarrow> release_unit a uq) (rb_unit rb) uq"

definition first_hole :: "rcv_buffer \<Rightarrow> nat option" where
  "first_hole rb =
     List.find (\<lambda>i. rb_unit rb ! ((rb_lastack rb + i) mod rb_size rb) = None) [0..<rb_maxpos rb + 2]"

definition addData :: "unit_addr \<Rightarrow> nat \<Rightarrow> rcv_buffer \<times> unit_queue
    \<Rightarrow> int \<times> rcv_buffer \<times> unit_queue" where
  "addData a offset = (\<lambda>(rb0, uq).
     let pos = (rb_lastack rb0 + offset) mod rb_size rb0;
         rb = rb0\<lparr> rb_maxpos := (if offset > rb_maxpos rb0 then offset else rb_maxpos rb0) \<rparr>
     in if rb_unit rb ! pos \<noteq> None then (-1, rb, uq)
        else
          let rb1 = rb\<lparr> rb_unit := (rb_unit rb)[pos := Some a] \<rparr>;
              uq' = set_unit a ((unit_at uq a)\<lparr> m_iFlag := 1 \<rparr>) uq;
              uq1 = uq'\<lparr> uq_count := uq_count uq' + 1 \<rparr>
          in case first_hole rb1 of
               Some i \<Rightarrow> (int i, rb1\<lparr> rb_lastack := (rb_lastack rb1 + i) mod rb_size rb1,
                                    rb_maxpos := rb_maxpos rb1 - i \<rparr>, uq1)
             | None \<Rightarrow> (0, rb1, uq1))"

definition copy_out :: "cpacket \<Rightarrow> nat \<Rightarrow> int \<Rightarrow> byte list outcome" where
  "copy_out p notch n =
     (case pk_data p of
        None \<Rightarrow> Inl Null_Deref
      | Some bs \<Rightarrow> guard_outcome Out_Of_Bounds (0 \<le> n \<and> notch + nat n \<le> length bs)
                     (Inr (take (nat n) (drop notch bs))))"

text \<open>One turn of the loop of readBuffer, or of readBufferToFile: the packet at position p is
  copied in part or in full.\<close>

definition read_step :: "nat \<Rightarrow> int \<Rightarrow> rcv_buffer \<times> unit_queue
    \<Rightarrow> (byte list \<times> nat \<times> int \<times> rcv_buffer \<times> unit_queue) outcome" where
  "read_step p rs = (\<lambda>(rb, uq).
     case rb_unit rb ! p of
       None \<Rightarrow> Inl Null_Deref
     | Some a \<Rightarrow>
         let pkt = m_Packet (unit_at uq a);
             rest = getLength pkt - int (rb_notch rb);
             unitsize = (if rest > rs then rs else rest)
         in bind_outcome (copy_out pkt (rb_notch rb) unitsize) (\<lambda>bytes.
              if rs > unitsize \<or> rs = rest then
                Inr (bytes, if p + 1 = rb_size rb then 0 else p + 1, rs - unitsize,
                     rb\<lparr> rb_unit := (rb_unit rb)[p := None], rb_notch := 0 \<rparr>, release_unit a uq)
              else Inr (bytes, p, rs - unitsize, rb\<lparr> rb_notch := rb_notch rb + nat rs \<rparr>, uq)))"

primrec read_loop :: "nat \<Rightarrow> nat \<Rightarrow> nat \<Rightarrow> int \<Rightarrow> rcv_buffer \<times> unit_queue
    \<Rightarrow> (byte list \<times> int \<times> rcv_buffer \<times> unit_queue) outcome" where
  "read_loop 0 lastack p rs st = Inl Diverges"
| "read_loop (Suc fuel) lastack p rs st =
     (if p \<noteq> lastack \<and> rs > 0 then
        bind_outcome (read_step p rs st) (\<lambda>(bytes, p', rs', st').
          map_outcome (\<lambda>(more, res). (bytes @ more, res)) (read_loop fuel lastack p' rs' st'))
      else Inr ([], rs, (fst st)\<lparr> rb_start := p \<rparr>, snd st))"

definition readBuffer :: "int \<Rightarrow> rcv_buffer \<times> unit_queue
    \<Rightarrow> (int \<times> byte list \<times> rcv_buffer \<times> unit_queue) outcome" where
  "readBuffer len st =
     map_outcome (\<lambda>(data, rs, st'). (len - rs, data, st'))
       (read_loop (rb_size (fst st) + 1) (rb_lastack (fst st)) (rb_start (fst st)) len st)"

text \<open>readBufferToFile writes each piece to a stream; \<open>fails i\<close> says whether the i-th write
  leaves the stream in a failed state, which ends the loop before the unit is consumed.\<close>

primrec write_loop :: "(nat \<Rightarrow> bool) \<Rightarrow> nat \<Rightarrow> nat \<Rightarrow> nat \<Rightarrow> nat \<Rightarrow> int \<Rightarrow> rcv_buffer \<times> unit_queue
    \<Rightarrow> (byte list \<times> int \<times> rcv_buffer \<times> unit_queue) outcome" where
  "write_loop fails i 0 lastack p rs st = Inl Diverges"
| "write_loop fails i (Suc fuel) lastack p rs st =
     (if p \<noteq> lastack \<and> rs > 0 then
        bind_outcome (read_step p rs st) (\<lambda>(bytes, p', rs', st').
          if fails i then Inr (bytes, rs, (fst st)\<lparr> rb_start := p \<rparr>, snd st)
          else map_outcome (\<lambda>(more, res). (bytes @ more, res))
                 (write_loop fails (Suc i) fuel lastack p' rs' st'))
      else Inr ([], rs, (fst st)\<lparr> rb_start := p \<rparr>, snd st))"

definition readBufferToFile :: "(nat \<Rightarrow> bool) \<Rightarrow> int \<Rightarrow> rcv_buffer \<times> unit_queue
    \<Rightarrow> (int \<times> byte list \<times> rcv_buffer \<times> unit_queue) outcome" where
  "readBufferToFile fails len st =
     map_outcome (\<lambda>(data, rs, st'). (len - rs, data, st'))
       (write_loop fails 0 (rb_size (fst st) + 1) (rb_lastack (fst st)) (rb_start (fst st)) len st)"

definition getRcvDataSize :: "rcv_buffer \<Rightarrow> int" where
  "getRcvDataSize rb =
     (if rb_lastack rb \<ge> rb_start rb then int (rb_lastack rb) - int (rb_start rb)
      else int (rb_size rb) + int (rb_lastack rb) - int (rb_start rb))"

definition getAvailBufSize :: "rcv_buffer \<Rightarrow> int" where
  "getAvailBufSize rb = int (rb_size rb) - getRcvDataSize rb - 1"

text \<open>dropMsg marks the units of a message from m\_iStartPos up to the largest position.\<close>

primrec drop_loop :: "nat \<Rightarrow> nat \<Rightarrow> nat \<Rightarrow> int \<Rightarrow> rcv_buffer \<Rightarrow> unit_queue \<Rightarrow> unit_queue outcome" where
  "drop_loop 0 i n msgno rb uq = Inl Diverges"
| "drop_loop (Suc fuel) i n msgno rb uq =
     (if i = n then Inr uq
      else
        let uq' = (case rb_unit rb ! i of
            None \<Rightarrow> uq
          | Some a \<Rightarrow> if msgno = m_iMsgNo (m_Packet (unit_at uq a))
                     then set_unit a ((unit_at uq a)\<lparr> m_iFlag := 3 \<rparr>) uq else uq)
        in drop_loop fuel ((i + 1) mod rb_size rb) n msgno rb uq')"

definition dropMsg :: "int \<Rightarrow> rcv_buffer \<times> unit_queue \<Rightarrow> unit_queue outcome" where
  "dropMsg msgno = (\<lambda>(rb, uq).
     drop_loop (rb_size rb) (rb_start rb) ((rb_lastack rb + rb_maxpos rb) mod rb_size rb) msgno rb uq)"


subsection \<open>The window of packets\<close>

text \<open>Packet k of the stream lives in slot k modulo the array size.  The window starts at the
  first packet the application has not read completely.\<close>

definition slot :: "rcv_buffer \<Rightarrow> nat \<Rightarrow> unit_addr option" where
  "slot rb k = rb_unit rb ! (k mod rb_size rb)"

definition payload_is :: "cpacket \<Rightarrow> byte list \<Rightarrow> bool" where
  "payload_is p bs \<longleftrightarrow> (\<exists>data. pk_data p = Some data \<and> pk_len p = int (length bs)
     \<and> length bs < 2147483648 \<and> length bs \<le> length data \<and> take (length bs) data = bs)"

definition holds :: "(nat \<Rightarrow> byte list) \<Rightarrow> unit_queue \<Rightarrow> nat \<Rightarrow> unit_addr \<Rightarrow> bool" where
  "holds pl uq k a \<longleftrightarrow> unit_valid uq a \<and> m_iFlag (unit_at uq a) = 1
     \<and> payload_is (m_Packet (unit_at uq a)) (pl k)"

definition ring_inv :: "(nat \<Rightarrow> byte list) \<Rightarrow> nat \<Rightarrow> nat \<Rightarrow> rcv_buffer \<Rightarrow> unit_queue \<Rightarrow> bool" where
  "ring_inv pl R A rb uq \<longleftrightarrow>
     length (rb_unit rb) = rb_size rb \<and> R \<le> A \<and> A < R + rb_size rb
     \<and> rb_lastack rb = A mod rb_size rb
     \<and> (\<forall>k. R \<le> k \<and> k < A \<longrightarrow> slot rb k \<noteq> None)
     \<and> slot rb A = None \<and> slot rb (R + rb_size rb - 1) = None
     \<and> (rb_maxpos rb = 0 \<or> A + rb_maxpos rb + 1 < R + rb_size rb)
     \<and> (\<forall>k. A \<le> k \<and> k < R + rb_size rb \<and> slot rb k \<noteq> None \<longrightarrow> k \<le> A + rb_maxpos rb)
     \<and> (\<forall>k a. R \<le> k \<and> k < R + rb_size rb \<and> slot rb k = Some a \<longrightarrow> holds pl uq k a)
     \<and> (\<forall>k k' a. R \<le> k \<and> k < R + rb_size rb \<and> R \<le> k' \<and> k' < R + rb_size rb
          \<and> slot rb k = Some a \<and> slot rb k' = Some a \<longrightarrow> k = k')
     \<and> (rb_notch rb = 0 \<or> (R < A \<and> rb_notch rb < length (pl R)))"

definition rb_inv :: "(nat \<Rightarrow> byte list) \<Rightarrow> nat \<Rightarrow> nat \<Rightarrow> rcv_buffer \<Rightarrow> unit_queue \<Rightarrow> bool" where
  "rb_inv pl R A rb uq \<longleftrightarrow> ring_inv pl R A rb uq \<and> rb_start rb = R mod rb_size rb"

text \<open>The invariant taken apart and put together.\<close>

lemma ring_invD:
  assumes "ring_inv pl R A rb uq"
  shows "length (rb_unit rb) = rb_size rb" "R \<le> A" "A < R + rb_size rb"
    and "rb_lastack rb = A mod rb_size rb"
    and "\<And>k. R \<le> k \<Longrightarrow> k < A \<Longrightarrow> slot rb k \<noteq> None"
    and "slot rb A = None" "slot rb (R + rb_size rb - 1) = None"
    and "rb_maxpos rb = 0 \<or> A + rb_maxpos rb + 1 < R + rb_size rb"
    and "\<And>k. A \<le> k \<Longrightarrow> k < R + rb_size rb \<Longrightarrow> slot rb k \<noteq> None \<Longrightarrow> k \<le> A + rb_maxpos rb"
    and "\<And>k a. R \<le> k \<Longrightarrow> k < R + rb_size rb \<Longrightarrow> slot rb k = Some a \<Longrightarrow> holds pl uq k a"
    and "\<And>k k' a. R \<le> k \<Longrightarrow> k < R + rb_size rb \<Longrightarrow> R \<le> k' \<Longrightarrow> k' < R + rb_size rb
           \<Longrightarrow> slot rb k = Some a \<Longrightarrow> slot rb k' = Some a \<Longrightarrow> k = k'"
    and "rb_notch rb = 0 \<or> (R < A \<and> rb_notch rb < length (pl R))"
  using assms unfolding ring_inv_def by (elim conjE; (assumption | meson))+

lemma ring_invI:
  assumes "length (rb_unit rb) = rb_size rb" "R \<le> A" "A < R + rb_size rb"
    and "rb_lastack rb = A mod rb_size rb"
    and "\<And>k. R \<le> k \<Longrightarrow> k < A \<Longrightarrow> slot rb k \<noteq> None"
    and "slot rb A = None" "slot rb (R + rb_size rb - 1) = None"
    and "rb_maxpos rb = 0 \<or> A + rb_maxpos rb + 1 < R + rb_size rb"
    and "\<And>k. A \<le> k \<Longrightarrow> k < R + rb_size rb \<Longrightarrow> slot rb k \<noteq> None \<Longrightarrow> k \<le> A + rb_maxpos rb"
    and "\<And>k a. R \<le> k \<Longrightarrow> k < R + rb_size rb \<Longrightarrow> slot rb k = Some a \<Longrightarrow> holds pl uq k a"
    and "\<And>k k' a. R \<le> k \<Longrightarrow> k < R + rb_size rb \<Longrightarrow> R \<le> k' \<Longrightarrow> k' < R + rb_size rb
           \<Longrightarrow> slot rb k = Some a \<Longrightarrow> slot rb k' = Some a \<Longrightarrow> k = k'"
    and "rb_notch rb = 0 \<or> (R < A \<and> rb_notch rb < length (pl R))"
  shows "ring_inv pl R A rb uq"
  unfolding ring_inv_def by (intro conjI allI impI; (elim conjE)?; (rule assms; assumption)?)

text \<open>The bytes that can be read.\<close>

definition pending :: "(nat \<Rightarrow> byte list) \<Rightarrow> nat \<Rightarrow> nat \<Rightarrow> nat \<Rightarrow> byte list" where
  "pending pl R A notch = drop notch (concat (map pl [R..<A]))"

lemma window_mod_eq:
  fixes k k' n :: nat
  assumes "R \<le> k" "k < R + n" "R \<le> k'" "k' < R + n" "k mod n = k' mod n"
  shows "k = k'"
proof -
  have *: "x = y" if "x \<le> y" "y < x + n" "x mod n = y mod n" for x y :: nat
  proof -
    have "n dvd y - x" using that mod_eq_dvd_iff_nat [of x y n] by metis
    then show ?thesis using that dvd_imp_le [of n "y - x"] by (cases "y = x") auto
  qed
  show ?thesis
    using *[of k k'] *[of k' k] assms by (cases "k \<le> k'") auto
qed

lemma slot_update:
  assumes "length (rb_unit rb) = rb_size rb" "R \<le> k" "k < R + rb_size rb" "R \<le> k'" "k' < R + rb_size rb"
  shows "slot (rb\<lparr> rb_unit := (rb_unit rb)[k mod rb_size rb := x] \<rparr>) k' = (if k' = k then x else slot rb k')"
proof -
  have "k mod rb_size rb < rb_size rb" using assms(2,3) by (intro mod_less_divisor) auto
  then show ?thesis
    using assms window_mod_eq [OF assms(2-5)] by (auto simp: slot_def nth_list_update)
qed

lemma slot_other [simp]:
  "slot (rb\<lparr> rb_start := x \<rparr>) = slot rb" "slot (rb\<lparr> rb_lastack := x \<rparr>) = slot rb"
  "slot (rb\<lparr> rb_maxpos := x \<rparr>) = slot rb" "slot (rb\<lparr> rb_notch := x \<rparr>) = slot rb"
  by (simp_all add: slot_def fun_eq_iff)

lemma ring_inv_start [simp]: "ring_inv pl R A (rb\<lparr> rb_start := x \<rparr>) uq = ring_inv pl R A rb uq"
  by (simp add: ring_inv_def)

lemma rcv_buffer_new_inv: "0 < n \<Longrightarrow> rb_inv pl 0 0 (rcv_buffer_new isn n) uq"
  by (auto simp: rb_inv_def ring_inv_def rcv_buffer_new_def slot_def)

lemma data_size_ring:
  assumes "rb_inv pl R A rb uq"
  shows "getRcvDataSize rb = int (A - R)"
proof -
  define n where "n = rb_size rb"
  have RA: "R \<le> A" "A < R + n" and st: "rb_start rb = R mod n" "rb_lastack rb = A mod n"
    using assms by (simp_all add: rb_inv_def ring_inv_def n_def)
  have n: "0 < n" using RA by simp
  have "A mod n = (R mod n + (A - R)) mod n"
    using RA mod_add_left_eq [of R n "A - R"] by simp
  also have "\<dots> = (if R mod n + (A - R) < n then R mod n + (A - R) else R mod n + (A - R) - n)"
  proof (cases "R mod n + (A - R) < n")
    case False
    moreover have "R mod n < n" using n by simp
    ultimately have "R mod n + (A - R) - n < n" using RA by linarith
    then show ?thesis using False by (simp add: mod_if [of "R mod n + (A - R)"])
  qed simp
  finally show ?thesis
    using RA mod_less_divisor [OF n, of R]
    by (auto simp: getRcvDataSize_def st n_def [symmetric] not_less split: if_splits)
qed


subsection \<open>Reading\<close>

lemma ring_slot_pos: "R \<le> A \<Longrightarrow> slot rb R = rb_unit rb ! (R mod rb_size rb)"
  by (simp add: slot_def)

lemma next_position:
  fixes R n :: nat
  assumes "0 < n"
  shows "(if R mod n + 1 = n then 0 else R mod n + 1) = Suc R mod n"
  using assms by (simp add: mod_Suc)

lemma release_unit_at:
  "unit_valid uq a \<Longrightarrow> unit_at (release_unit a uq) b =
     (if b = a then (unit_at uq a)\<lparr> m_iFlag := 0 \<rparr> else unit_at uq b)"
  "unit_valid (release_unit a uq) b = unit_valid uq b"
  by (simp_all add: release_unit_def Let_def unit_at_set_unit)

text \<open>A turn of the loop that consumes a packet.\<close>

lemma ring_inv_consume:
  assumes inv: "ring_inv pl R A rb uq" and "R < A" and a: "slot rb R = Some a"
  shows "ring_inv pl (Suc R) A (rb\<lparr> rb_unit := (rb_unit rb)[R mod rb_size rb := None], rb_notch := 0 \<rparr>)
           (release_unit a uq)"
    (is "ring_inv _ _ _ ?rb' ?uq'")
proof -
  let ?n = "rb_size rb"
  note i = ring_invD [OF inv]
  have n: "R < R + ?n" using i(2,3) by simp
  have sl: "slot ?rb' k = (if k = R then None else slot rb k)" if "R \<le> k" "k < R + ?n" for k
    using slot_update [OF i(1) order_refl n that, of None] by (simp add: slot_def)
  have "slot ?rb' (R + ?n) = None"
    using sl [OF order_refl n] by (simp add: slot_def)
  then have slS: "slot ?rb' k = (if k = R + ?n then None else slot rb k)"
    if "Suc R \<le> k" "k < Suc R + ?n" for k
    using sl [of k] that by (cases "k = R + ?n") auto
  have in_old: "Suc R \<le> k \<and> R \<le> k \<and> k < R + ?n \<and> slot rb k = Some b"
    if "Suc R \<le> k" "k < Suc R + rb_size ?rb'" "slot ?rb' k = Some b" for k b
    using that slS [of k] by (auto split: if_splits)
  have v: "unit_valid uq a" using i(10) [OF order_refl n a] by (simp add: holds_def)
  show ?thesis
  proof (rule ring_invI)
    fix k b
    assume "Suc R \<le> k" "k < Suc R + rb_size ?rb'" "slot ?rb' k = Some b"
    note old = in_old [OF this]
    then have "holds pl uq k b" using i(10) by blast
    moreover have "b \<noteq> a" using i(11) [of R k a] old n a by force
    ultimately show "holds pl ?uq' k b" by (simp add: holds_def release_unit_at(1) [OF v] release_unit_at(2))
  next
    fix k k' b
    assume "Suc R \<le> k" "k < Suc R + rb_size ?rb'" "Suc R \<le> k'" "k' < Suc R + rb_size ?rb'"
      "slot ?rb' k = Some b" "slot ?rb' k' = Some b"
    then show "k = k'" using in_old i(11) by meson
  next
    fix k
    assume "A \<le> k" "k < Suc R + rb_size ?rb'" "slot ?rb' k \<noteq> None"
    then show "k \<le> A + rb_maxpos ?rb'"
      using i(9) [of k] slS [of k] \<open>R < A\<close> by (auto split: if_splits)
  next
    fix k
    assume "Suc R \<le> k" "k < A"
    then show "slot ?rb' k \<noteq> None" using i(5) [of k] i(3) slS [of k] by auto
  next
    show "slot ?rb' A = None" using i(3,6) sl [of A] \<open>R < A\<close> by simp
    show "slot ?rb' (Suc R + rb_size ?rb' - 1) = None"
      using \<open>slot ?rb' (R + ?n) = None\<close> by simp
    show "rb_maxpos ?rb' = 0 \<or> A + rb_maxpos ?rb' + 1 < Suc R + rb_size ?rb'"
      using i(8) by auto
  qed (use i \<open>R < A\<close> in simp_all)
qed


lemma copy_out_payload:
  assumes "payload_is p bs" "0 \<le> n" "notch + nat n \<le> length bs"
  shows "copy_out p notch n = Inr (take (nat n) (drop notch bs))"
proof -
  obtain data where d: "pk_data p = Some data" "length bs \<le> length data" "take (length bs) data = bs"
    using assms(1) by (auto simp: payload_is_def)
  have "take (nat n) (drop notch data) = take (nat n) (drop notch bs)"
    using assms(3) by (subst d(3) [symmetric]) (simp add: drop_take min_def)
  then show ?thesis using d assms(2,3) by (simp add: copy_out_def)
qed

lemma pending_consume:
  "R < A \<Longrightarrow> notch \<le> length (pl R) \<Longrightarrow> pending pl R A notch = drop notch (pl R) @ pending pl (Suc R) A 0"
  by (simp add: pending_def upt_conv_Cons)

text \<open>The loop delivers the next bytes of the stream, as many as asked for and present.\<close>

lemma read_loop_stream:
  assumes "ring_inv pl R A rb uq" "0 \<le> rs" "A - R < fuel"
  shows "\<exists>out rs' R' rb' uq'.
      read_loop fuel (A mod rb_size rb) (R mod rb_size rb) rs (rb, uq) = Inr (out, rs', rb', uq')
      \<and> rb_inv pl R' A rb' uq' \<and> R \<le> R' \<and> rb_size rb' = rb_size rb
      \<and> out = take (nat rs) (pending pl R A (rb_notch rb))
      \<and> rs' = rs - int (length out)
      \<and> pending pl R' A (rb_notch rb') = drop (nat rs) (pending pl R A (rb_notch rb))"
  using assms
proof (induction fuel arbitrary: R rb uq rs)
  case (Suc fuel)
  let ?n = "rb_size rb"
  note i = ring_invD [OF Suc.prems(1)]
  have n: "0 < ?n" using i(2,3) by simp
  show ?case
  proof (cases "R < A \<and> 0 < rs")
    case False
    have "\<not> (R mod ?n \<noteq> A mod ?n \<and> 0 < rs)"
      using False i(2) by (cases "R = A") auto
    then have "read_loop (Suc fuel) (A mod ?n) (R mod ?n) rs (rb, uq) =
        Inr ([], rs, rb\<lparr> rb_start := R mod ?n \<rparr>, uq)" by auto
    moreover have "rb_inv pl R A (rb\<lparr> rb_start := R mod ?n \<rparr>) uq"
      using Suc.prems(1) by (simp add: rb_inv_def)
    moreover have "R = A \<or> rs = 0" using False i(2) Suc.prems(2) by linarith
    then have "take (nat rs) (pending pl R A (rb_notch rb)) = []"
      "drop (nat rs) (pending pl R A (rb_notch rb)) = pending pl R A (rb_notch rb)"
      by (auto simp: pending_def)
    ultimately show ?thesis
      by (intro exI [of _ "[]"] exI [of _ rs] exI [of _ R] exI [of _ "rb\<lparr> rb_start := R mod ?n \<rparr>"]
          exI [of _ uq]) (simp del: read_loop.simps)
  next
    case True
    then have R: "R < A" and rs: "0 < rs" by auto
    have neq: "R mod ?n \<noteq> A mod ?n"
      using window_mod_eq [of R R ?n A] R i(3) by auto
    obtain a where a: "slot rb R = Some a" using i(5) [of R] R by auto
    then have a': "rb_unit rb ! (R mod ?n) = Some a" by (simp add: slot_def)
    have pay: "payload_is (m_Packet (unit_at uq a)) (pl R)"
      using i(10) [OF order_refl _ a] R i(3) by (simp add: holds_def)
    then have len: "getLength (m_Packet (unit_at uq a)) = int (length (pl R))"
      by (auto simp: payload_is_def getLength_def)
    have notch: "rb_notch rb \<le> length (pl R)" using i(12) by auto
    define rest where "rest = int (length (pl R)) - int (rb_notch rb)"
    have rest: "0 \<le> rest" using notch by (simp add: rest_def)
    show ?thesis
    proof (cases "rest \<le> rs")
      case True
      let ?rb1 = "rb\<lparr> rb_unit := (rb_unit rb)[R mod ?n := None], rb_notch := 0 \<rparr>"
      let ?uq1 = "release_unit a uq"
      have copy: "copy_out (m_Packet (unit_at uq a)) (rb_notch rb) rest = Inr (drop (rb_notch rb) (pl R))"
        using copy_out_payload [OF pay rest, of "rb_notch rb"] notch by (simp add: rest_def nat_diff_distrib)
      have step: "read_step (R mod ?n) rs (rb, uq) =
          Inr (drop (rb_notch rb) (pl R), Suc R mod ?n, rs - rest, ?rb1, ?uq1)"
        using True by (auto simp: read_step_def a' Let_def len rest_def [symmetric] copy
            next_position [OF n, symmetric])
      have rs1: "0 \<le> rs - rest" and fuel1: "A - Suc R < fuel"
        using True R Suc.prems(3) by linarith+
      obtain out rs' R' rb' uq' where IH:
        "read_loop fuel (A mod rb_size ?rb1) (Suc R mod rb_size ?rb1) (rs - rest) (?rb1, ?uq1) = Inr (out, rs', rb', uq')"
        "rb_inv pl R' A rb' uq'" "Suc R \<le> R'" "rb_size rb' = rb_size ?rb1"
        "out = take (nat (rs - rest)) (pending pl (Suc R) A (rb_notch ?rb1))"
        "rs' = rs - rest - int (length out)"
        "pending pl R' A (rb_notch rb') = drop (nat (rs - rest)) (pending pl (Suc R) A (rb_notch ?rb1))"
        using Suc.IH [OF ring_inv_consume [OF Suc.prems(1) R a] rs1 fuel1] by blast
      have len_rest: "length (pl R) - rb_notch rb = nat rest" "int (length (pl R) - rb_notch rb) = rest"
          "length (pl R) \<le> nat rs + rb_notch rb"
        using notch True by (simp_all add: rest_def)
      have "pending pl R A (rb_notch rb) = drop (rb_notch rb) (pl R) @ pending pl (Suc R) A 0"
        using R notch by (rule pending_consume)
      then show ?thesis
        using IH step neq rs True rest
        by (intro exI [of _ "drop (rb_notch rb) (pl R) @ out"] exI [of _ rs'] exI [of _ R']
            exI [of _ rb'] exI [of _ uq'])
          (simp add: len_rest nat_diff_distrib)
    next
      case False
      let ?rb1 = "rb\<lparr> rb_notch := rb_notch rb + nat rs \<rparr>"
      have less: "rb_notch rb + nat rs < length (pl R)"
        using False rs by (simp add: rest_def)
      have copy: "copy_out (m_Packet (unit_at uq a)) (rb_notch rb) rs = Inr (take (nat rs) (drop (rb_notch rb) (pl R)))"
        using copy_out_payload [OF pay, of rs "rb_notch rb"] rs less by simp
      have step: "read_step (R mod ?n) rs (rb, uq) =
          Inr (take (nat rs) (drop (rb_notch rb) (pl R)), R mod ?n, 0, ?rb1, uq)"
        using False by (simp add: read_step_def a' Let_def len rest_def [symmetric] copy)
      obtain f where f: "fuel = Suc f" using Suc.prems(3) R by (cases fuel) auto
      have inv1: "rb_inv pl R A (?rb1\<lparr> rb_start := R mod ?n \<rparr>) uq"
        unfolding rb_inv_def ring_inv_start
        by (rule conjI, rule ring_invI) (use i R less in \<open>simp_all\<close>)
      have pend: "pending pl R A k = drop k (pl R) @ pending pl (Suc R) A 0" if "k \<le> length (pl R)" for k
        by (rule pending_consume) (use R that in auto)
      have outlen: "length (take (nat rs) (drop (rb_notch rb) (pl R))) = nat rs"
        using less by simp
      show ?thesis
        using step neq rs inv1 less notch outlen
        by (intro exI [of _ "take (nat rs) (drop (rb_notch rb) (pl R))"] exI [of _ 0] exI [of _ R]
            exI [of _ "?rb1\<lparr> rb_start := R mod ?n \<rparr>"] exI [of _ uq])
          (simp add: f pend add.commute)
    qed
  qed
qed simp


lemma readBuffer_stream:
  assumes inv: "rb_inv pl R A rb uq" and "0 \<le> len"
  obtains out R' rb' uq' where
    "readBuffer len (rb, uq) = Inr (int (length out), out, rb', uq')"
    "rb_inv pl R' A rb' uq'" "R \<le> R'" "rb_size rb' = rb_size rb"
    "out = take (nat len) (pending pl R A (rb_notch rb))"
    "pending pl R' A (rb_notch rb') = drop (nat len) (pending pl R A (rb_notch rb))"
proof -
  have r: "ring_inv pl R A rb uq" and st: "rb_start rb = R mod rb_size rb"
    using inv by (simp_all add: rb_inv_def)
  have "A - R < rb_size rb + 1" using ring_invD(2,3) [OF r] by simp
  then show ?thesis
    using read_loop_stream [OF r \<open>0 \<le> len\<close>] ring_invD(4) [OF r] st that
    unfolding readBuffer_def by fastforce
qed

subsection \<open>Adding a packet\<close>

lemma first_hole_ring:
  assumes inv: "\<And>k. A \<le> k \<Longrightarrow> k < R + rb_size rb \<Longrightarrow> slot rb k \<noteq> None \<Longrightarrow> k \<le> A + rb_maxpos rb"
    and "R \<le> A" "A + rb_maxpos rb + 1 < R + rb_size rb" "rb_lastack rb = A mod rb_size rb"
  obtains i where "first_hole rb = Some i" "i \<le> rb_maxpos rb + 1" "slot rb (A + i) = None"
    "\<And>j. j < i \<Longrightarrow> slot rb (A + j) \<noteq> None"
proof -
  have sl: "rb_unit rb ! ((rb_lastack rb + j) mod rb_size rb) = slot rb (A + j)" for j
    by (simp add: slot_def assms(4) mod_add_left_eq)
  have "slot rb (A + (rb_maxpos rb + 1)) = None"
  proof (rule ccontr)
    assume "slot rb (A + (rb_maxpos rb + 1)) \<noteq> None"
    from inv [OF _ _ this] assms(3) show False by simp
  qed
  then have "List.find (\<lambda>i. slot rb (A + i) = None) [0..<rb_maxpos rb + 2] \<noteq> None"
    by (auto simp: find_None_iff intro!: bexI [of _ "rb_maxpos rb + 1"])
  then obtain i where i: "List.find (\<lambda>i. slot rb (A + i) = None) [0..<rb_maxpos rb + 2] = Some i"
    by auto
  show ?thesis
  proof (rule that)
    show "first_hole rb = Some i" using i by (simp add: first_hole_def sl)
    show "i \<le> rb_maxpos rb + 1" "slot rb (A + i) = None" "\<And>j. j < i \<Longrightarrow> slot rb (A + j) \<noteq> None"
      using i unfolding find_upt_Some by auto
  qed
qed

lemma addData_ring:
  assumes inv: "rb_inv pl R A rb uq" and off: "int d < getAvailBufSize rb"
    and u: "unit_valid uq a" "m_iFlag (unit_at uq a) = 0" "payload_is (m_Packet (unit_at uq a)) (pl (A + d))"
  obtains (duplicate) rb' where "slot rb (A + d) \<noteq> None" "addData a d (rb, uq) = (-1, rb', uq)"
      "rb_inv pl R A rb' uq" "rb_size rb' = rb_size rb" "rb_notch rb' = rb_notch rb" "slot rb' = slot rb"
  | (stored) i rb' uq' where "slot rb (A + d) = None" "addData a d (rb, uq) = (int i, rb', uq')"
      "rb_inv pl R (A + i) rb' uq'" "rb_size rb' = rb_size rb" "rb_notch rb' = rb_notch rb"
      "\<And>k. R \<le> k \<Longrightarrow> k < R + rb_size rb \<Longrightarrow> slot rb' k = (if k = A + d then Some a else slot rb k)"
      "uq' = (let v = set_unit a ((unit_at uq a)\<lparr> m_iFlag := 1 \<rparr>) uq in v\<lparr> uq_count := uq_count v + 1 \<rparr>)"
proof -
  let ?n = "rb_size rb"
  have r: "ring_inv pl R A rb uq" and st: "rb_start rb = R mod ?n"
    using inv by (simp_all add: rb_inv_def)
  note i = ring_invD [OF r]
  have d: "A + d + 1 < R + ?n"
    using off data_size_ring [OF inv] i(2) by (simp add: getAvailBufSize_def)
  define mp where "mp = (if d > rb_maxpos rb then d else rb_maxpos rb)"
  have mp: "A + mp + 1 < R + ?n" "rb_maxpos rb \<le> mp" "d \<le> mp"
    using d i(8) by (auto simp: mp_def)
  have pos: "(rb_lastack rb + d) mod ?n = (A + d) mod ?n" by (simp add: i(4) mod_add_left_eq)
  show ?thesis
  proof (cases "slot rb (A + d) = None")
    case False
    show ?thesis
    proof (rule duplicate [OF False])
      show "addData a d (rb, uq) = (-1, rb\<lparr> rb_maxpos := mp \<rparr>, uq)"
        using False by (simp add: addData_def Let_def pos slot_def mp_def)
      show "rb_inv pl R A (rb\<lparr> rb_maxpos := mp \<rparr>) uq"
        unfolding rb_inv_def
        by (rule conjI, rule ring_invI)
          (use i mp st in \<open>simp_all, (meson add_le_mono1 le_trans nat_add_left_cancel_le)?\<close>)
    qed simp_all
  next
    case True
    define rb1 where "rb1 = rb\<lparr> rb_maxpos := mp, rb_unit := (rb_unit rb)[(A + d) mod ?n := Some a] \<rparr>"
    define uq1 where "uq1 = (let v = set_unit a ((unit_at uq a)\<lparr> m_iFlag := 1 \<rparr>) uq in v\<lparr> uq_count := uq_count v + 1 \<rparr>)"
    have sl1: "slot rb1 k = (if k = A + d then Some a else slot rb k)" if "R \<le> k" "k < R + ?n" for k
      using slot_update [of "rb\<lparr> rb_maxpos := mp \<rparr>" R "A + d" k "Some a"] i(1,2) d that
      by (simp add: rb1_def)
    have rb1: "rb_size rb1 = ?n" "rb_maxpos rb1 = mp" "rb_lastack rb1 = A mod ?n" "rb_notch rb1 = rb_notch rb"
        "rb_start rb1 = R mod ?n" "length (rb_unit rb1) = ?n"
      using i(1,4) st by (simp_all add: rb1_def)
    have far: "k \<le> A + mp" if "A \<le> k" "k < R + ?n" "slot rb1 k \<noteq> None" for k
      using sl1 [of k] that i(2) i(9) [of k] mp by (auto split: if_splits)
    obtain h where h: "first_hole rb1 = Some h" "h \<le> mp + 1" "slot rb1 (A + h) = None"
        "\<And>j. j < h \<Longrightarrow> slot rb1 (A + j) \<noteq> None"
      using first_hole_ring [of A R rb1] far i(2) mp(1) rb1 by (metis (full_types))
    define rb' where "rb' = rb1\<lparr> rb_lastack := (rb_lastack rb1 + h) mod rb_size rb1, rb_maxpos := rb_maxpos rb1 - h \<rparr>"
    have sl: "slot rb' = slot rb1" by (simp add: rb'_def)
    have rb': "rb_size rb' = ?n" "rb_maxpos rb' = mp - h" "rb_lastack rb' = (A + h) mod ?n"
        "rb_notch rb' = rb_notch rb" "rb_start rb' = R mod ?n" "length (rb_unit rb') = ?n"
      using rb1 by (simp_all add: rb'_def mod_add_left_eq)
    have at1: "unit_at uq1 b = (if b = a then (unit_at uq a)\<lparr> m_iFlag := 1 \<rparr> else unit_at uq b)"
        "unit_valid uq1 b = unit_valid uq b" for b
      using u(1) by (simp_all add: uq1_def Let_def unit_at_set_unit)
    have fresh: "b \<noteq> a" if "R \<le> k" "k < R + ?n" "slot rb k = Some b" for k b
      using i(10) [OF that] u(2) by (auto simp: holds_def)
    have "ring_inv pl R (A + h) rb' uq1"
    proof (rule ring_invI)
      fix k b
      assume k: "R \<le> k" "k < R + rb_size rb'" "slot rb' k = Some b"
      then show "holds pl uq1 k b"
        using sl1 [of k] fresh [of k b] i(10) [of k b] u
        by (auto simp: sl rb' holds_def at1 split: if_splits)
    next
      fix k k' b
      assume k: "R \<le> k" "k < R + rb_size rb'" "R \<le> k'" "k' < R + rb_size rb'"
        "slot rb' k = Some b" "slot rb' k' = Some b"
      then show "k = k'"
        using sl1 [of k] sl1 [of k'] fresh [of k b] fresh [of k' b] i(11) [of k k' b]
        by (auto simp: sl rb' split: if_splits)
    next
      fix k assume "R \<le> k" "k < A + h"
      then show "slot rb' k \<noteq> None"
        using sl1 [of k] i(5) [of k] h(2) h(4) [of "k - A"] mp(1)
        by (cases "k < A") (auto simp: sl)
    next
      fix k assume "A + h \<le> k" "k < R + rb_size rb'" "slot rb' k \<noteq> None"
      then show "k \<le> A + h + rb_maxpos rb'"
        using far [of k] by (simp add: sl rb')
    next
      show "slot rb' (R + rb_size rb' - 1) = None"
        using sl1 [of "R + ?n - 1"] i(2,3,7) d by (auto simp: sl rb')
    qed (use rb' h i mp sl in auto)
    then have "rb_inv pl R (A + h) rb' uq1" by (simp add: rb_inv_def rb')
    moreover have "addData a d (rb, uq) = (int h, rb', uq1)"
      using True h(1) by (simp add: addData_def Let_def pos slot_def mp_def [symmetric] rb1_def rb'_def uq1_def)
    ultimately show ?thesis
      using stored [OF True] rb' sl1 by (simp add: sl uq1_def)
  qed
qed


subsection \<open>Runs of the receiver\<close>

text \<open>A receiver for a sender whose k-th packet carries \<open>pl k\<close>: packets arrive in any order and
  any number of times within the available window, the application reads, and other users of
  the unit pool (the network, the buffers of other sockets) change units this buffer does not
  hold.  A is the number of packets acknowledged in order, \<open>out\<close> what the application got.\<close>

inductive rcv_run :: "(nat \<Rightarrow> byte list) \<Rightarrow> rcv_buffer \<Rightarrow> unit_queue \<Rightarrow> nat \<Rightarrow> byte list \<Rightarrow> bool"
  for pl :: "nat \<Rightarrow> byte list" where
  rcv_start: "0 < n \<Longrightarrow> rcv_run pl (rcv_buffer_new isn n) uq 0 []"
| rcv_arrive: "rcv_run pl rb uq A out \<Longrightarrow> int d < getAvailBufSize rb \<Longrightarrow> unit_valid uq a
    \<Longrightarrow> m_iFlag (unit_at uq a) = 0 \<Longrightarrow> payload_is (m_Packet (unit_at uq a)) (pl (A + d))
    \<Longrightarrow> addData a d (rb, uq) = (r, rb', uq') \<Longrightarrow> rcv_run pl rb' uq' (A + nat r) out"
| rcv_read: "rcv_run pl rb uq A out \<Longrightarrow> 0 \<le> len \<Longrightarrow> readBuffer len (rb, uq) = Inr (n, bytes, rb', uq')
    \<Longrightarrow> rcv_run pl rb' uq' A (out @ bytes)"
| rcv_others: "rcv_run pl rb uq A out
    \<Longrightarrow> \<forall>a. Some a \<in> set (rb_unit rb) \<longrightarrow> unit_valid uq' a \<and> unit_at uq' a = unit_at uq a
    \<Longrightarrow> rcv_run pl rb uq' A out"

lemma concat_upt_add:
  assumes "i \<le> j"
  shows "concat (map f [i..<j + h]) = concat (map f [i..<j]) @ concat (map f [j..<j + h])"
  unfolding upt_add_eq_append [OF assms] by simp

lemma rb_inv_others:
  assumes inv: "rb_inv pl R A rb uq"
    and same: "\<And>a. Some a \<in> set (rb_unit rb) \<Longrightarrow> unit_valid uq' a \<and> unit_at uq' a = unit_at uq a"
  shows "rb_inv pl R A rb uq'"
proof -
  have r: "ring_inv pl R A rb uq" using inv by (simp add: rb_inv_def)
  note i = ring_invD [OF r]
  have "holds pl uq' k a" if "R \<le> k" "k < R + rb_size rb" "slot rb k = Some a" for k a
  proof -
    have "k mod rb_size rb < length (rb_unit rb)"
      using that i(1) by (simp add: mod_less_divisor)
    then have "Some a \<in> set (rb_unit rb)" using that(3) unfolding slot_def by (metis nth_mem)
    then show ?thesis using same i(10) [OF that] by (simp add: holds_def)
  qed
  then have "ring_inv pl R A rb uq'"
    using r unfolding ring_inv_def by simp
  then show ?thesis using inv by (simp add: rb_inv_def)
qed

lemma rcv_run_inv:
  "rcv_run pl rb uq A out \<Longrightarrow>
     \<exists>R. rb_inv pl R A rb uq \<and> out @ pending pl R A (rb_notch rb) = concat (map pl [0..<A])"
proof (induction rule: rcv_run.induct)
  case (rcv_start n isn uq)
  have "rb_notch (rcv_buffer_new isn n) = 0" by (simp add: rcv_buffer_new_def)
  then show ?case using rcv_buffer_new_inv [OF rcv_start, of pl isn uq]
    by (intro exI [of _ 0]) (simp add: pending_def)
next
  case (rcv_arrive rb uq A out d a r rb' uq')
  then obtain R where R: "rb_inv pl R A rb uq"
    "out @ pending pl R A (rb_notch rb) = concat (map pl [0..<A])" by blast
  have ring: "ring_inv pl R A rb uq" using R(1) by (simp add: rb_inv_def)
  have grow: "pending pl R (A + h) k = pending pl R A k @ concat (map pl [A..<A + h])"
    if "k = 0 \<or> R < A \<and> k < length (pl R)" for h k
  proof -
    have le: "R \<le> A" using ring_invD(2) [OF ring] .
    then have app: "concat (map pl [R..<A + h]) = concat (map pl [R..<A]) @ concat (map pl [A..<A + h])"
      by (rule concat_upt_add)
    show ?thesis using that le
      by (auto simp: pending_def app upt_conv_Cons)
  qed
  show ?case
  proof (rule addData_ring [OF R(1) rcv_arrive.hyps(2-5)])
    fix rb1
    assume "addData a d (rb, uq) = (-1, rb1, uq)" "rb_inv pl R A rb1 uq" "rb_notch rb1 = rb_notch rb"
    then show ?thesis using R rcv_arrive.hyps(6) by auto
  next
    fix i rb1 uq1
    assume *: "addData a d (rb, uq) = (int i, rb1, uq1)" "rb_inv pl R (A + i) rb1 uq1"
      "rb_notch rb1 = rb_notch rb"
    then have eq: "nat r = i" "rb' = rb1" "uq' = uq1" using rcv_arrive.hyps(6) by auto
    have "out @ pending pl R (A + i) (rb_notch rb) = concat (map pl [0..<A]) @ concat (map pl [A..<A + i])"
      using R(2) grow [of "rb_notch rb" i] ring_invD(12) [OF ring] by simp
    also have "\<dots> = concat (map pl [0..<A + i])"
      by (rule concat_upt_add [symmetric]) simp
    finally show ?thesis using * eq by (intro exI [of _ R]) simp
  qed
next
  case (rcv_read rb uq A out len n bytes rb' uq')
  then obtain R where R: "rb_inv pl R A rb uq"
    "out @ pending pl R A (rb_notch rb) = concat (map pl [0..<A])" by blast
  obtain out1 R' rb1 uq1 where *: "readBuffer len (rb, uq) = Inr (int (length out1), out1, rb1, uq1)"
      "rb_inv pl R' A rb1 uq1" "out1 = take (nat len) (pending pl R A (rb_notch rb))"
      "pending pl R' A (rb_notch rb1) = drop (nat len) (pending pl R A (rb_notch rb))"
    by (rule readBuffer_stream [OF R(1) rcv_read.hyps(2)])
  then show ?case using R(2) rcv_read.hyps(3)
    by (intro exI [of _ R']) simp
next
  case (rcv_others rb uq A out uq')
  then show ?case using rb_inv_others [of pl _ A rb uq uq'] by blast
qed


subsection \<open>What a stream socket relies on\<close>

text \<open>Reliable, ordered delivery.  However packets arrive, the application has received a
  prefix of the sender's stream, and the next read succeeds and returns the following bytes of
  it: as many as were asked for, or all that are acknowledged.\<close>

theorem receiver_delivers_stream:
  assumes "rcv_run pl rb uq A out" "0 \<le> len"
  shows "\<exists>rest rb' uq'. concat (map pl [0..<A]) = out @ rest
    \<and> readBuffer len (rb, uq) = Inr (int (min (nat len) (length rest)), take (nat len) rest, rb', uq')"
proof -
  obtain R where R: "rb_inv pl R A rb uq" "out @ pending pl R A (rb_notch rb) = concat (map pl [0..<A])"
    using rcv_run_inv [OF assms(1)] by blast
  show ?thesis
    by (rule readBuffer_stream [OF R(1) assms(2)])
      (intro exI [of _ "pending pl R A (rb_notch rb)"],
        use R(2) in \<open>auto simp: min.commute\<close>)
qed

text \<open>A run with two packets that arrive in the wrong order.\<close>

definition sample_payload :: "nat \<Rightarrow> byte list" where
  "sample_payload k = (if k = 0 then [1, 2] else [3])"

definition sample_units :: unit_queue where
  "sample_units = \<lparr> uq_entries = [[
       \<lparr> m_Packet = \<lparr> pk_header = [0, 0, 0, 0], pk_data = Some [3, 9], pk_len = 1 \<rparr>, m_iFlag = 0 \<rparr>,
       \<lparr> m_Packet = \<lparr> pk_header = [0, 0, 0, 0], pk_data = Some [1, 2], pk_len = 2 \<rparr>, m_iFlag = 0 \<rparr>]],
     uq_curr = 0, uq_avail = 0, uq_size = 2, uq_count = 0, uq_mss = 2, uq_version = 4 \<rparr>"

definition sample_first :: "int \<times> rcv_buffer \<times> unit_queue" where
  "sample_first = addData (0, 0) 1 (rcv_buffer_new 0 4, sample_units)"

definition sample_second :: "int \<times> rcv_buffer \<times> unit_queue" where
  "sample_second = addData (0, 1) 0 (snd sample_first)"

lemma sample_run:
  "rcv_run sample_payload (fst (snd sample_second)) (snd (snd sample_second)) 2 []"
proof -
  have 0: "rcv_run sample_payload (rcv_buffer_new 0 4) sample_units 0 []" by (rule rcv_start) simp
  have 1: "rcv_run sample_payload (fst (snd sample_first)) (snd (snd sample_first)) (0 + nat 0) []"
  proof (rule rcv_arrive [OF 0, of 1 "(0, 0)"])
    show "addData (0, 0) 1 (rcv_buffer_new 0 4, sample_units) =
        (0, fst (snd sample_first), snd (snd sample_first))"
      unfolding sample_first_def by code_simp
    show "payload_is (m_Packet (unit_at sample_units (0, 0))) (sample_payload (0 + 1))"
      by (simp add: payload_is_def sample_units_def unit_at_def sample_payload_def)
  qed code_simp+
  have "rcv_run sample_payload (fst (snd sample_second)) (snd (snd sample_second)) (0 + nat 0 + nat 2) []"
  proof (rule rcv_arrive [OF 1, of 0 "(0, 1)"])
    show "addData (0, 1) 0 (fst (snd sample_first), snd (snd sample_first)) =
        (2, fst (snd sample_second), snd (snd sample_second))"
      unfolding sample_second_def by code_simp
    have "m_Packet (unit_at (snd (snd sample_first)) (0, 1)) =
        \<lparr> pk_header = [0, 0, 0, 0], pk_data = Some [1, 2], pk_len = 2 \<rparr>"
      by code_simp
    then show "payload_is (m_Packet (unit_at (snd (snd sample_first)) (0, 1))) (sample_payload (0 + nat 0 + 0))"
      by (simp add: payload_is_def sample_payload_def)
  qed code_simp+
  then show ?thesis by (simp add: eval_nat_numeral)
qed

theorem receiver_delivers_stream_witness:
  "\<exists>rest rb' uq'. [1, 2, 3] = rest
    \<and> readBuffer 2 (fst (snd sample_second), snd (snd sample_second))
        = Inr (int (min 2 (length rest)), take 2 rest, rb', uq')"
  using receiver_delivers_stream [OF sample_run, of 2]
  by (simp add: sample_payload_def eval_nat_numeral)

text \<open>C29: what addData acknowledges.  Within the available window a packet whose place is taken
  is refused; one that leaves a gap acknowledges nothing; the awaited packet acknowledges itself
  and the packets behind it that are already there, up to the next gap.\<close>

theorem addData_acknowledges:
  assumes "rcv_run pl rb uq A out" "int d < getAvailBufSize rb"
    and "unit_valid uq a" "m_iFlag (unit_at uq a) = 0"
    and "payload_is (m_Packet (unit_at uq a)) (pl (A + d))"
  shows "case addData a d (rb, uq) of (r, rb', uq') \<Rightarrow>
      if slot rb (A + d) \<noteq> None then r = -1 \<and> uq' = uq \<and> slot rb' = slot rb
      else slot rb' (A + d) = Some a \<and> m_iFlag (unit_at uq' a) = 1
        \<and> (if d = 0 then 1 \<le> r \<and> slot rb (A + nat r) = None \<and> list_all (\<lambda>k. slot rb (A + k) \<noteq> None) [1..<nat r]
            else r = 0)"
proof -
  obtain R where R: "rb_inv pl R A rb uq"
    using rcv_run_inv [OF assms(1)] by blast
  then have r: "ring_inv pl R A rb uq" by (simp add: rb_inv_def)
  have d: "A + d + 1 < R + rb_size rb"
    using assms(2) data_size_ring [OF R] ring_invD(2) [OF r] by (simp add: getAvailBufSize_def)
  from R assms(2-5) show ?thesis
  proof (cases rule: addData_ring)
    case (duplicate rb')
    then show ?thesis by simp
  next
    case (stored i rb' uq')
    have r': "ring_inv pl R (A + i) rb' uq'" using stored(3) by (simp add: rb_inv_def)
    note i' = ring_invD [OF r']
    have le: "R \<le> A" "A + i < R + rb_size rb" using ring_invD(2) [OF r] i'(3) stored(4) by auto
    have flag: "m_iFlag (unit_at uq' a) = 1"
      using stored(7) assms(3) by (simp add: Let_def unit_at_set_unit)
    have self: "slot rb' (A + d) = Some a" using stored(6) [of "A + d"] d le by simp
    have present: "slot rb' (A + k) \<noteq> None" if "k < i" for k
      using i'(5) [of "A + k"] le that by simp
    have hole: "slot rb' (A + i) = None" by (rule i'(6))
    have A: "slot rb A = None" by (rule ring_invD(6) [OF r])
    have same: "slot rb' (A + k) = slot rb (A + k)" if "k \<noteq> d" "k \<le> i" for k
      using stored(6) [of "A + k"] that le by simp
    have "i \<noteq> d" using self hole by auto
    show ?thesis
    proof (cases "d = 0")
      case True
      then have "0 < i" using \<open>i \<noteq> d\<close> by simp
      moreover have "slot rb (A + i) = None" using hole same [of i] \<open>i \<noteq> d\<close> by simp
      moreover have "slot rb (A + k) \<noteq> None" if "k \<in> set [1..<i]" for k
        using present [of k] same [of k] that True by simp
      ultimately show ?thesis
        using stored(1,2) self flag True by (simp add: list_all_iff del: not_None_eq)
    next
      case False
      have "i = 0"
      proof (rule ccontr)
        assume "i \<noteq> 0"
        then show False using present [of 0] same [of 0] False A by simp
      qed
      then show ?thesis using stored(1,2) self flag False by simp
    qed
  qed
qed

theorem addData_acknowledges_witness:
  "case addData (0, 0) 1 (rcv_buffer_new 0 4, sample_units) of (r, rb', uq') \<Rightarrow> r = 0"
proof -
  have run: "rcv_run sample_payload (rcv_buffer_new 0 4) sample_units 0 []" by (rule rcv_start) simp
  have pay: "payload_is (m_Packet (unit_at sample_units (0, 0))) (sample_payload (0 + 1))"
    by (simp add: payload_is_def sample_units_def unit_at_def sample_payload_def)
  have *: "int 1 < getAvailBufSize (rcv_buffer_new 0 4)" "unit_valid sample_units (0, 0)"
    "m_iFlag (unit_at sample_units (0, 0)) = 0" "slot (rcv_buffer_new 0 4) (0 + 1) = None"
    by code_simp+
  show ?thesis
    using addData_acknowledges [OF run *(1,2,3) pay] *(4) by (simp split: prod.splits)
qed

end
