(* ===== verification/Snd_U_List.thy ===== *)
theory Snd_U_List
  imports Udt_Sender
begin

text \<open>The list of the sender thread (class CSndUList, core/queue.h and core/queue.cpp): a binary
  heap of sockets ordered by the time of their next transmission.  A socket is named by its ID; its
  node (CSNode) holds the time and the place in the heap array, or -1.  The timer of the sender
  thread and its condition variable are counters of the wake-ups.

  \<open>sched\<close> is the abstraction: the map from the sockets on the list to their times.  The lemmas
  show that all operations refine operations on that map, that the heap order is kept by insertions
  and by pop, and how \<open>remove_node\<close>, which only moves the replacement down, breaks it.\<close>

subsection \<open>Nodes and heap\<close>

record snode =
  sn_ts :: int
  sn_loc :: int

record snd_list =
  sl_heap :: "int list"
  sl_last :: int
  sl_node :: "int \<Rightarrow> snode"
  sl_interrupts :: nat
  sl_signals :: nat

definition snd_list_new :: snd_list where
  "snd_list_new =
     \<lparr> sl_heap = replicate 4096 0, sl_last = -1, sl_node = (\<lambda>_. \<lparr> sn_ts = 1, sn_loc = -1 \<rparr>),
       sl_interrupts = 0, sl_signals = 0 \<rparr>"

definition loc_of :: "snd_list \<Rightarrow> int \<Rightarrow> int" where
  "loc_of s n = sn_loc (sl_node s n)"

definition ts_of :: "snd_list \<Rightarrow> int \<Rightarrow> int" where
  "ts_of s n = sn_ts (sl_node s n)"

definition time_at :: "snd_list \<Rightarrow> nat \<Rightarrow> int" where
  "time_at s i = ts_of s (sl_heap s ! i)"

definition set_loc :: "int \<Rightarrow> int \<Rightarrow> snd_list \<Rightarrow> snd_list" where
  "set_loc n l s = s\<lparr> sl_node := (sl_node s)(n := (sl_node s n)\<lparr> sn_loc := l \<rparr>) \<rparr>"

definition set_ts :: "int \<Rightarrow> int \<Rightarrow> snd_list \<Rightarrow> snd_list" where
  "set_ts n ts s = s\<lparr> sl_node := (sl_node s)(n := (sl_node s n)\<lparr> sn_ts := ts \<rparr>) \<rparr>"

definition interrupt :: "snd_list \<Rightarrow> snd_list" where
  "interrupt s = s\<lparr> sl_interrupts := Suc (sl_interrupts s) \<rparr>"

subsection \<open>Insertion\<close>

text \<open>The new node rises while its parent has a later time; every parent that moves down is told
  its place, the new node itself only at the end.\<close>

function sift_up :: "nat \<Rightarrow> snd_list \<Rightarrow> nat \<times> snd_list" where
  "sift_up q s =
     (if q = 0 then (q, s)
      else let p = (q - 1) div 2 in
           if time_at s p > time_at s q
           then let t = sl_heap s ! p in
                sift_up p (set_loc t (int q) (s\<lparr> sl_heap := (sl_heap s)[p := sl_heap s ! q, q := t] \<rparr>))
           else (q, s))"
  by auto
termination by (relation "measure fst") auto

declare sift_up.simps [simp del]

definition insert_at :: "int \<Rightarrow> int \<Rightarrow> snd_list \<Rightarrow> snd_list" where
  "insert_at ts n s =
     (let last = sl_last s + 1;
          s1 = set_ts n (u64 ts) (s\<lparr> sl_last := last, sl_heap := (sl_heap s)[nat last := n] \<rparr>) in
      case sift_up (nat last) s1 of (q, s2) \<Rightarrow>
        let s3 = set_loc n (int q) s2;
            s4 = (if q = 0 then interrupt s3 else s3)
        in if last = 0 then s4\<lparr> sl_signals := Suc (sl_signals s4) \<rparr> else s4)"

text \<open>A node is inserted once.  The array is not enlarged here.\<close>

definition insert_node :: "int \<Rightarrow> int \<Rightarrow> snd_list \<Rightarrow> snd_list outcome" where
  "insert_node ts n s =
     (if loc_of s n \<ge> 0 then Inr s
      else guard_outcome Out_Of_Bounds (sl_last s + 1 < int (length (sl_heap s))) (Inr (insert_at ts n s)))"

definition snd_insert :: "int \<Rightarrow> int \<Rightarrow> snd_list \<Rightarrow> snd_list outcome" where
  "snd_insert ts n s =
     insert_node ts n (if sl_last s = int (length (sl_heap s)) - 1
                   then s\<lparr> sl_heap := sl_heap s @ replicate (length (sl_heap s)) 0 \<rparr> else s)"

subsection \<open>Removal\<close>

function sift_down :: "nat \<Rightarrow> snd_list \<Rightarrow> snd_list" where
  "sift_down q s =
     (let p0 = 2 * q + 1 in
      if int p0 \<le> sl_last s
      then let p = (if int p0 + 1 \<le> sl_last s \<and> time_at s p0 > time_at s (p0 + 1) then p0 + 1 else p0) in
           if time_at s q > time_at s p
           then let t = sl_heap s ! p; h = sl_heap s ! q in
                sift_down p (set_loc t (int q) (set_loc h (int p)
                  (s\<lparr> sl_heap := (sl_heap s)[p := h, q := t] \<rparr>)))
           else s
      else s)"
  by auto
termination
  by (relation "measure (\<lambda>(q, s). nat (sl_last s + 1) - q)") (auto simp: Let_def set_loc_def split: if_splits)

declare sift_down.simps [simp del]

text \<open>The last node of the heap takes the place of the removed one and sinks.\<close>

definition remove_node :: "int \<Rightarrow> snd_list \<Rightarrow> snd_list" where
  "remove_node n s =
     (let s2 = (if loc_of s n \<ge> 0
                then let l = loc_of s n; x = sl_heap s ! nat (sl_last s);
                         s1 = set_loc x l (s\<lparr> sl_heap := (sl_heap s)[nat l := x], sl_last := sl_last s - 1 \<rparr>)
                     in set_loc n (-1) (sift_down (nat l) s1)
                else s)
      in if sl_last s2 = 0 then interrupt s2 else s2)"

subsection \<open>The operations the connections and the sender thread call\<close>

definition snd_update :: "int \<Rightarrow> bool \<Rightarrow> snd_list \<Rightarrow> snd_list outcome" where
  "snd_update n reschedule s =
     (if loc_of s n \<ge> 0
      then if \<not> reschedule then Inr s
           else if loc_of s n = 0 then Inr (interrupt (set_ts n 1 s))
           else insert_node 1 n (remove_node n s)
      else insert_node 1 n s)"

definition getNextProcTime :: "snd_list \<Rightarrow> int" where
  "getNextProcTime s = (if sl_last s = -1 then 0 else time_at s 0)"

text \<open>\<open>pack_data n now w\<close> is packData of the socket \<open>n\<close>, with its result and the time of the next
  transmission; \<open>usable\<close> says that the socket is connected and not broken.  The value -1 tells the
  sender thread that there is nothing to send.\<close>

definition snd_pop ::
  "(int \<Rightarrow> int \<Rightarrow> 'w \<Rightarrow> (int \<times> int \<times> 'w) outcome) \<Rightarrow> (int \<Rightarrow> 'w \<Rightarrow> bool) \<Rightarrow> int
     \<Rightarrow> snd_list \<Rightarrow> 'w \<Rightarrow> (int \<times> snd_list \<times> 'w) outcome" where
  "snd_pop pack_data usable now s w =
     (if sl_last s = -1 then Inr (-1, s, w)
      else if now < time_at s 0 then Inr (-1, s, w)
      else let n = sl_heap s ! 0; s1 = remove_node n s in
           if \<not> usable n w then Inr (-1, s1, w)
           else bind_outcome (pack_data n now w) (\<lambda>(len, ts, w1).
                map_outcome (\<lambda>s2. (if len \<le> 0 then -1 else 1, s2, w1))
                  (if u64 ts > 0 then insert_node ts n s1 else Inr s1)))"

text \<open>One round of the sender thread; the flag says that a packet goes to the channel.  Without a
  socket on the list the thread waits for the condition variable.\<close>

definition snd_worker ::
  "(int \<Rightarrow> int \<Rightarrow> 'w \<Rightarrow> (int \<times> int \<times> 'w) outcome) \<Rightarrow> (int \<Rightarrow> 'w \<Rightarrow> bool) \<Rightarrow> int
     \<Rightarrow> snd_list \<Rightarrow> 'w \<Rightarrow> (bool \<times> snd_list \<times> 'w) outcome" where
  "snd_worker pack_data usable now s w =
     (if getNextProcTime s > 0
      then map_outcome (\<lambda>(r, s1, w1). (\<not> r < 0, s1, w1)) (snd_pop pack_data usable now s w)
      else Inr (False, s, w))"

text \<open>The sockets as the connections of the sending half, with the packet that is being filled.\<close>

definition pack_socket ::
  "platform \<Rightarrow> 's pcc_ops \<Rightarrow> readings \<Rightarrow> int \<Rightarrow> int \<Rightarrow> (int \<Rightarrow> 's udt option) \<times> cpacket
     \<Rightarrow> (int \<times> int \<times> (int \<Rightarrow> 's udt option) \<times> cpacket) outcome" where
  "pack_socket pf ops rd n now w =
     (case w of (socks, pkt) \<Rightarrow>
        (case socks n of None \<Rightarrow> Inl Null_Deref
         | Some u \<Rightarrow> map_outcome (\<lambda>(len, p, ts, u1). (len, ts, socks(n \<mapsto> u1), p))
                       (packData pf ops rd pkt now u)))"

definition socket_usable :: "int \<Rightarrow> (int \<Rightarrow> 's udt option) \<times> cpacket \<Rightarrow> bool" where
  "socket_usable n w = (case fst w n of None \<Rightarrow> False | Some u \<Rightarrow> u_bConnected u \<and> \<not> u_bBroken u)"

subsection \<open>The nodes know their places\<close>

lemma node_simps [simp]:
  "loc_of (set_loc n l s) m = (if m = n then l else loc_of s m)"
  "ts_of (set_loc n l s) m = ts_of s m"
  "loc_of (set_ts n t s) m = loc_of s m"
  "ts_of (set_ts n t s) m = (if m = n then t else ts_of s m)"
  "loc_of (s\<lparr> sl_heap := h \<rparr>) m = loc_of s m" "ts_of (s\<lparr> sl_heap := h \<rparr>) m = ts_of s m"
  "loc_of (s\<lparr> sl_last := k \<rparr>) m = loc_of s m" "ts_of (s\<lparr> sl_last := k \<rparr>) m = ts_of s m"
  "loc_of (s\<lparr> sl_signals := j \<rparr>) m = loc_of s m" "ts_of (s\<lparr> sl_signals := j \<rparr>) m = ts_of s m"
  "loc_of (interrupt s) m = loc_of s m" "ts_of (interrupt s) m = ts_of s m"
  by (auto simp: loc_of_def ts_of_def set_loc_def set_ts_def interrupt_def)

lemma heap_simps [simp]:
  "sl_heap (set_loc n l s) = sl_heap s" "sl_last (set_loc n l s) = sl_last s"
  "sl_heap (set_ts n t s) = sl_heap s" "sl_last (set_ts n t s) = sl_last s"
  "sl_heap (interrupt s) = sl_heap s" "sl_last (interrupt s) = sl_last s"
  by (simp_all add: set_loc_def set_ts_def interrupt_def)

text \<open>The heap with its nodes in place, apart from one place \<open>q\<close> whose node \<open>n\<close> is still moving.\<close>

definition placed :: "nat \<Rightarrow> snd_list \<Rightarrow> bool" where
  "placed q s \<longleftrightarrow> sl_last s < int (length (sl_heap s)) \<and> int q \<le> sl_last s
     \<and> (\<forall>i. int i \<le> sl_last s \<longrightarrow> i \<noteq> q \<longrightarrow>
          loc_of s (sl_heap s ! i) = int i \<and> sl_heap s ! i \<noteq> sl_heap s ! q)
     \<and> (\<forall>x. loc_of s x \<ge> 0 \<longrightarrow> x \<noteq> sl_heap s ! q \<longrightarrow> (\<exists>i. int i \<le> sl_last s \<and> sl_heap s ! i = x))
     \<and> (\<forall>x. loc_of s x \<ge> -1)"

definition snd_list_inv :: "snd_list \<Rightarrow> bool" where
  "snd_list_inv s \<longleftrightarrow> -1 \<le> sl_last s \<and> sl_last s < int (length (sl_heap s))
     \<and> (\<forall>i. int i \<le> sl_last s \<longrightarrow> loc_of s (sl_heap s ! i) = int i)
     \<and> (\<forall>x. loc_of s x \<ge> 0 \<longrightarrow> (\<exists>i. int i \<le> sl_last s \<and> sl_heap s ! i = x))
     \<and> (\<forall>x. loc_of s x \<ge> -1)"

definition sched :: "snd_list \<Rightarrow> int \<Rightarrow> int option" where
  "sched s n = (if loc_of s n \<ge> 0 then Some (ts_of s n) else None)"

text \<open>The heap order, everywhere or above and below one place only.\<close>

definition heap_order :: "snd_list \<Rightarrow> bool" where
  "heap_order s \<longleftrightarrow> (\<forall>i. 0 < i \<longrightarrow> int i \<le> sl_last s \<longrightarrow> time_at s ((i - 1) div 2) \<le> time_at s i)"

definition up_order :: "nat \<Rightarrow> snd_list \<Rightarrow> bool" where
  "up_order q s \<longleftrightarrow>
     (\<forall>i. 0 < i \<longrightarrow> int i \<le> sl_last s \<longrightarrow> i \<noteq> q \<longrightarrow> time_at s ((i - 1) div 2) \<le> time_at s i)
   \<and> (\<forall>i. 0 < i \<longrightarrow> int i \<le> sl_last s \<longrightarrow> (i - 1) div 2 = q \<longrightarrow> 0 < q \<longrightarrow> time_at s ((q - 1) div 2) \<le> time_at s i)"

definition risen :: "nat \<Rightarrow> snd_list \<Rightarrow> snd_list" where
  "risen q s = (let p = (q - 1) div 2; h = sl_heap s in
     set_loc (h ! p) (int q) (s\<lparr> sl_heap := h[p := h ! q, q := h ! p] \<rparr>))"

lemma sift_up_step:
  "q \<noteq> 0 \<Longrightarrow> time_at s ((q - 1) div 2) > time_at s q \<Longrightarrow> sift_up q s = sift_up ((q - 1) div 2) (risen q s)"
  "\<not> (q \<noteq> 0 \<and> time_at s ((q - 1) div 2) > time_at s q) \<Longrightarrow> sift_up q s = (q, s)"
proof -
  assume "q \<noteq> 0" "time_at s ((q - 1) div 2) > time_at s q"
  then show "sift_up q s = sift_up ((q - 1) div 2) (risen q s)"
    unfolding sift_up.simps [of q s] Let_def risen_def by (simp only: if_False if_True)
next
  assume "\<not> (q \<noteq> 0 \<and> time_at s ((q - 1) div 2) > time_at s q)"
  then show "sift_up q s = (q, s)"
    unfolding sift_up.simps [of q s] Let_def by (cases "q = 0") (simp_all only: if_False if_True simp_thms)
qed

lemma sift_up_placed:
  assumes "placed q s" "sift_up q s = (q', s')"
  shows "placed q' s' \<and> sl_last s' = sl_last s \<and> length (sl_heap s') = length (sl_heap s)
    \<and> sl_heap s' ! q' = sl_heap s ! q \<and> ts_of s' = ts_of s
    \<and> loc_of s' (sl_heap s ! q) = loc_of s (sl_heap s ! q)
    \<and> (\<forall>x. x \<noteq> sl_heap s ! q \<longrightarrow> (loc_of s' x \<ge> 0) = (loc_of s x \<ge> 0))"
  using assms
proof (induction q arbitrary: s q' s' rule: less_induct)
  case (less q)
  let ?p = "(q - 1) div 2" and ?h = "sl_heap s"
  let ?s1 = "risen q s"
  show ?case
  proof (cases "q \<noteq> 0 \<and> time_at s ?p > time_at s q")
    case False
    then show ?thesis using less(2) less(3) [unfolded sift_up_step(2) [OF False]] by auto
  next
    case True
    have b: "?p < q" "int q \<le> sl_last s" "q < length ?h" "?p < length ?h"
      using True less(2) by (auto simp: placed_def)
    have pp: "loc_of s (?h ! ?p) = int ?p" "?h ! ?p \<noteq> ?h ! q"
      using less(2) b by (auto simp: placed_def)
    have old: "loc_of s (?h ! i) = int i \<and> ?h ! i \<noteq> ?h ! q" if "int i \<le> sl_last s" "i \<noteq> q" for i
      using less(2) that by (auto simp: placed_def)
    have neq: "?h ! i \<noteq> ?h ! ?p" if "int i \<le> sl_last s" "i \<noteq> ?p" for i
      using old [of i] pp that b(1) by (cases "i = q") auto
    have "placed ?p ?s1"
      unfolding placed_def risen_def Let_def
    proof (intro conjI allI impI, goal_cases)
      case 1 then show ?case using \<open>placed q s\<close> by (simp add: placed_def)
    next
      case 2 then show ?case using b by simp
    next
      case (3 i) then show ?case using b old [of i] neq [of i] by (auto simp: nth_list_update)
    next
      case (4 i) then show ?case using b old [of i] pp by (auto simp: nth_list_update)
    next
      case (5 x)
      show ?case
      proof (cases "x = ?h ! ?p")
        case True then show ?thesis using b by (intro exI [of _ q]) simp
      next
        case False
        moreover have "x \<noteq> ?h ! q" using 5 b by (simp add: nth_list_update)
        ultimately obtain i where i: "int i \<le> sl_last s" "?h ! i = x"
          using 5 \<open>placed q s\<close> unfolding placed_def by auto
        have "i \<noteq> q" "i \<noteq> ?p" using i False \<open>x \<noteq> ?h ! q\<close> by auto
        then show ?thesis using i by (intro exI [of _ i]) simp
      qed
    next
      case (6 x) then show ?case using \<open>placed q s\<close> by (simp add: placed_def)
    qed
    moreover have "sift_up ?p ?s1 = (q', s')"
      using True less(3) by (simp add: sift_up_step(1))
    ultimately have ih: "placed q' s' \<and> sl_last s' = sl_last ?s1 \<and> length (sl_heap s') = length (sl_heap ?s1)
      \<and> sl_heap s' ! q' = sl_heap ?s1 ! ?p \<and> ts_of s' = ts_of ?s1
      \<and> loc_of s' (sl_heap ?s1 ! ?p) = loc_of ?s1 (sl_heap ?s1 ! ?p)
      \<and> (\<forall>x. x \<noteq> sl_heap ?s1 ! ?p \<longrightarrow> (loc_of s' x \<ge> 0) = (loc_of ?s1 x \<ge> 0))"
      using less(1) [of ?p ?s1 q' s'] b(1) by blast
    have nq: "sl_heap ?s1 ! ?p = ?h ! q" using b by (simp add: risen_def Let_def nth_list_update)
    have "ts_of ?s1 = ts_of s" "sl_last ?s1 = sl_last s" "length (sl_heap ?s1) = length ?h"
      "\<And>x. x \<noteq> ?h ! ?p \<Longrightarrow> loc_of ?s1 x = loc_of s x" "loc_of ?s1 (?h ! ?p) = int q"
      by (auto simp: risen_def Let_def fun_eq_iff)
    then show ?thesis using ih pp unfolding nq by (metis of_nat_0_le_iff)
  qed
qed


lemma parent_less: "0 < (i::nat) \<Longrightarrow> (i - 1) div 2 < i"
  by auto

lemma risen_simps:
  assumes "0 < q" "q < length (sl_heap s)"
  shows "sl_last (risen q s) = sl_last s" "length (sl_heap (risen q s)) = length (sl_heap s)"
    "time_at (risen q s) i = (if i = q then time_at s ((q - 1) div 2)
       else if i = (q - 1) div 2 then time_at s q else time_at s i)"
  using assms parent_less [of q] by (auto simp: risen_def Let_def time_at_def nth_list_update)

lemma sift_up_order:
  assumes "int q \<le> sl_last s" "sl_last s < int (length (sl_heap s))" "up_order q s"
    "sift_up q s = (q', s')"
  shows "heap_order s'"
  using assms
proof (induction q arbitrary: s rule: less_induct)
  case (less q)
  let ?p = "(q - 1) div 2"
  show ?case
  proof (cases "q \<noteq> 0 \<and> time_at s ?p > time_at s q")
    case False
    then have "s' = s" using less(5) by (simp add: sift_up_step(2))
    moreover have "q \<noteq> 0 \<longrightarrow> time_at s ?p \<le> time_at s q" using False by auto
    ultimately show ?thesis
      using less(4) by (auto simp: heap_order_def up_order_def simp del: One_nat_def)
  next
    case True
    have b: "0 < q" "?p < q" "q < length (sl_heap s)" using True less(2,3) by auto
    note r = risen_simps [OF b(1,3)]
    have o1: "time_at s ((i - 1) div 2) \<le> time_at s i" if "0 < i" "int i \<le> sl_last s" "i \<noteq> q" for i
      using less(4) that by (simp add: up_order_def)
    have o2: "time_at s ?p \<le> time_at s i" if "0 < i" "int i \<le> sl_last s" "(i - 1) div 2 = q" for i
      using less(4) that b(1) by (auto simp: up_order_def)
    have "up_order ?p (risen q s)"
      unfolding up_order_def r
    proof (intro conjI allI impI, goal_cases)
      case (1 i)
      show ?case
      proof (cases "(i - 1) div 2 = ?p \<and> i \<noteq> q")
        case True
        then show ?thesis using o1 [of i] 1 \<open>q \<noteq> 0 \<and> _\<close> b by auto
      next
        case False
        then show ?thesis using o1 [of i] o2 [of i] 1 True parent_less [of i] by auto
      qed
    next
      case (2 i)
      have up: "time_at s ((?p - 1) div 2) \<le> time_at s ?p" using o1 [of ?p] 2 b less(2) by auto
      have ne: "i \<noteq> ?p" "(?p - 1) div 2 \<noteq> q" "(?p - 1) div 2 \<noteq> ?p"
        using 2 parent_less [of i] parent_less [of ?p] b(2) by auto
      have "time_at s ?p \<le> time_at s i" if "i \<noteq> q" using o1 [of i] 2 that by auto
      then have "time_at s ((?p - 1) div 2) \<le> (if i = q then time_at s ?p else if i = ?p then time_at s q else time_at s i)"
        using up ne(1) by (auto intro: order_trans)
      then show ?case by (simp only: ne if_False)
    qed
    then show ?thesis using less(1) [of ?p "risen q s"] less(2,3,5) True b r(1,2)
      by (simp add: sift_up_step(1))
  qed
qed

subsection \<open>Insertion refines the schedule\<close>

lemma insert_at_inv:
  assumes inv: "snd_list_inv s" and room: "sl_last s + 1 < int (length (sl_heap s))"
    and new: "loc_of s n < 0"
  shows "snd_list_inv (insert_at ts n s)" "sched (insert_at ts n s) = (sched s)(n \<mapsto> u64 ts)"
    "sl_last (insert_at ts n s) = sl_last s + 1"
    "length (sl_heap (insert_at ts n s)) = length (sl_heap s)"
    "heap_order s \<Longrightarrow> heap_order (insert_at ts n s)"
proof -
  let ?k = "nat (sl_last s + 1)"
  let ?s1 = "set_ts n (u64 ts) (s\<lparr> sl_last := sl_last s + 1, sl_heap := (sl_heap s)[?k := n] \<rparr>)"
  have k: "int ?k = sl_last s + 1" "?k < length (sl_heap s)" using inv room by (auto simp: snd_list_inv_def)
  have old: "int i \<le> sl_last s \<Longrightarrow> sl_heap s ! i \<noteq> n" for i
    using inv new by (auto simp: snd_list_inv_def)
  have nth1: "sl_heap ?s1 ! i = (if i = ?k then n else sl_heap s ! i)" for i
    using k by (simp add: nth_list_update)
  have l1: "loc_of ?s1 = loc_of s" by (rule ext) simp
  have "placed ?k ?s1"
    unfolding placed_def nth1 l1
  proof (intro conjI allI impI, goal_cases)
    case (3 i) then show ?case using inv k by (auto simp: snd_list_inv_def)
  next
    case (4 i) then show ?case using old [of i] k by auto
  next
    case (5 x)
    then obtain i where i: "int i \<le> sl_last s" "sl_heap s ! i = x" using inv by (auto simp: snd_list_inv_def)
    then have "i \<noteq> ?k" using k by linarith
    then show ?case using i by (intro exI [of _ i]) simp
  next
    case (6 x) then show ?case using inv by (auto simp: snd_list_inv_def)
  qed (use k room in simp_all)
  moreover obtain q s2 where q: "sift_up ?k ?s1 = (q, s2)" by fastforce
  ultimately have p: "placed q s2" "sl_last s2 = sl_last s + 1" "length (sl_heap s2) = length (sl_heap s)"
      "sl_heap s2 ! q = n" "ts_of s2 = ts_of ?s1"
      "\<And>x. x \<noteq> n \<Longrightarrow> (loc_of s2 x \<ge> 0) = (loc_of s x \<ge> 0)"
    using sift_up_placed [of ?k ?s1 q s2] nth1 [of ?k] by (auto simp: l1)
  have eq: "loc_of (insert_at ts n s) = loc_of (set_loc n (int q) s2)"
    "ts_of (insert_at ts n s) = ts_of s2" "sl_heap (insert_at ts n s) = sl_heap s2"
    "sl_last (insert_at ts n s) = sl_last s2"
    using q by (auto simp: insert_at_def Let_def fun_eq_iff)
  show "snd_list_inv (insert_at ts n s)"
    unfolding snd_list_inv_def eq
  proof (intro conjI allI impI, goal_cases)
    case (3 i) then show ?case using p(1,4) by (cases "i = q") (auto simp: placed_def)
  next
    case (4 x)
    show ?case
    proof (cases "x = n")
      case True then show ?thesis using p(1,4) by (intro exI [of _ q]) (auto simp: placed_def)
    next
      case False then show ?thesis using 4 p(1,4) by (auto simp: placed_def)
    qed
  next
    case (5 x) then show ?case using p(1) by (auto simp: placed_def)
  qed (use p inv in \<open>auto simp: placed_def snd_list_inv_def\<close>)
  show "sched (insert_at ts n s) = (sched s)(n \<mapsto> u64 ts)"
    using p(5,6) by (auto simp: sched_def eq fun_eq_iff)
  show "sl_last (insert_at ts n s) = sl_last s + 1" "length (sl_heap (insert_at ts n s)) = length (sl_heap s)"
    by (simp_all add: eq p)
  assume ord: "heap_order s"
  have t1: "time_at ?s1 i = time_at s i" if "int i \<le> sl_last s" for i
  proof -
    have "i \<noteq> ?k" using that k by linarith
    then show ?thesis using old [OF that] unfolding time_at_def nth1 by simp
  qed
  have kids: "(i - 1) div 2 \<noteq> ?k" if "int i \<le> sl_last ?s1" "0 < i" for i
    using that parent_less [of i] k by auto
  have "up_order ?k ?s1"
    unfolding up_order_def
  proof (intro conjI allI impI, goal_cases)
    case (1 i)
    then have i: "int i \<le> sl_last s" using k by auto
    then have "int ((i - 1) div 2) \<le> sl_last s" using parent_less [OF 1(1)] by auto
    then show ?case using i ord 1(1) by (simp only: t1) (simp add: heap_order_def)
  next
    case (2 i) then show ?case using kids by blast
  qed
  then have "heap_order s2" using sift_up_order [OF _ _ _ q] k room by simp
  then show "heap_order (insert_at ts n s)"
    by (simp add: heap_order_def time_at_def eq)
qed

subsection \<open>Removal refines the schedule\<close>

definition child :: "nat \<Rightarrow> snd_list \<Rightarrow> nat" where
  "child q s = (if int (2 * q + 1) + 1 \<le> sl_last s \<and> time_at s (2 * q + 1) > time_at s (2 * q + 1 + 1)
                then 2 * q + 1 + 1 else 2 * q + 1)"

definition sunk :: "nat \<Rightarrow> snd_list \<Rightarrow> snd_list" where
  "sunk q s = (let p = child q s; h = sl_heap s in
     set_loc (h ! p) (int q) (set_loc (h ! q) (int p) (s\<lparr> sl_heap := h[p := h ! q, q := h ! p] \<rparr>)))"

definition sinks :: "nat \<Rightarrow> snd_list \<Rightarrow> bool" where
  "sinks q s \<longleftrightarrow> int (2 * q + 1) \<le> sl_last s \<and> time_at s q > time_at s (child q s)"

lemma sift_down_step:
  "sift_down q s = (if sinks q s then sift_down (child q s) (sunk q s) else s)"
  unfolding sift_down.simps [of q s] Let_def sunk_def sinks_def child_def [symmetric]
  by (cases "int (2 * q + 1) \<le> sl_last s") (simp_all only: if_False if_True simp_thms)

lemma child_props:
  assumes "int (2 * q + 1) \<le> sl_last s"
  shows "q < child q s" "int (child q s) \<le> sl_last s" "(child q s - 1) div 2 = q"
    "0 < i \<Longrightarrow> int i \<le> sl_last s \<Longrightarrow> (i - 1) div 2 = q \<Longrightarrow> time_at s (child q s) \<le> time_at s i"
proof -
  show "q < child q s" "int (child q s) \<le> sl_last s" "(child q s - 1) div 2 = q"
    using assms by (auto simp: child_def)
  assume i: "0 < i" "int i \<le> sl_last s" "(i - 1) div 2 = q"
  then have "i = 2 * q + 1 \<or> i = 2 * q + 1 + 1" by arith
  then show "time_at s (child q s) \<le> time_at s i" using i by (auto simp: child_def)
qed

text \<open>The places of all nodes but \<open>n\<close>, which has left the heap.\<close>

definition placed_without :: "int \<Rightarrow> snd_list \<Rightarrow> bool" where
  "placed_without n s \<longleftrightarrow> -1 \<le> sl_last s \<and> sl_last s < int (length (sl_heap s))
     \<and> (\<forall>i. int i \<le> sl_last s \<longrightarrow> loc_of s (sl_heap s ! i) = int i \<and> sl_heap s ! i \<noteq> n)
     \<and> (\<forall>x. loc_of s x \<ge> 0 \<longrightarrow> x \<noteq> n \<longrightarrow> (\<exists>i. int i \<le> sl_last s \<and> sl_heap s ! i = x))
     \<and> (\<forall>x. loc_of s x \<ge> -1)"

lemma placed_without_inj:
  assumes "placed_without n s" "int i \<le> sl_last s" "int j \<le> sl_last s" "sl_heap s ! i = sl_heap s ! j"
  shows "i = j"
  using assms by (metis of_nat_eq_iff placed_without_def)

lemma sunk_placed:
  assumes pl: "placed_without n s" and sk: "sinks q s"
  shows "placed_without n (sunk q s)" "sl_last (sunk q s) = sl_last s"
    "length (sl_heap (sunk q s)) = length (sl_heap s)" "ts_of (sunk q s) = ts_of s"
    "loc_of (sunk q s) n = loc_of s n" "(loc_of (sunk q s) x \<ge> 0) = (loc_of s x \<ge> 0)"
    "time_at (sunk q s) i = (if i = q then time_at s (child q s)
       else if i = child q s then time_at s q else time_at s i)"
proof -
  let ?p = "child q s" and ?h = "sl_heap s"
  have b: "q < ?p" "int ?p \<le> sl_last s" using sk child_props(1,2) [of q s] by (auto simp: sinks_def)
  have len: "?p < length ?h" "q < length ?h" "int q \<le> sl_last s" using b pl by (auto simp: placed_without_def)
  have at: "loc_of s (?h ! i) = int i \<and> ?h ! i \<noteq> n" if "int i \<le> sl_last s" for i
    using pl that by (simp add: placed_without_def)
  have ne: "?h ! ?p \<noteq> ?h ! q" using placed_without_inj [OF pl b(2) len(3)] b(1) by auto
  show last: "sl_last (sunk q s) = sl_last s" and "length (sl_heap (sunk q s)) = length ?h"
    by (simp_all add: sunk_def Let_def)
  show ts: "ts_of (sunk q s) = ts_of s" by (simp add: sunk_def Let_def fun_eq_iff)
  have nth: "sl_heap (sunk q s) ! i = (if i = q then ?h ! ?p else if i = ?p then ?h ! q else ?h ! i)" for i
    using len by (simp add: sunk_def Let_def nth_list_update)
  have loc: "loc_of (sunk q s) y = (if y = ?h ! ?p then int q else if y = ?h ! q then int ?p else loc_of s y)" for y
    by (simp add: sunk_def Let_def)
  show "loc_of (sunk q s) n = loc_of s n" using at [OF b(2)] at [OF len(3)] by (simp add: loc)
  show "(loc_of (sunk q s) x \<ge> 0) = (loc_of s x \<ge> 0)" using at [OF b(2)] at [OF len(3)] by (auto simp: loc)
  show "time_at (sunk q s) i = (if i = q then time_at s ?p else if i = ?p then time_at s q else time_at s i)"
    by (simp add: time_at_def ts nth)
  show "placed_without n (sunk q s)"
    unfolding placed_without_def last
  proof (intro conjI allI impI, goal_cases)
    case (3 i)
    have "i = j" if "?h ! i = ?h ! j" "int j \<le> sl_last s" for j
      using placed_without_inj [OF pl 3 that(2,1)] .
    then show ?case using at [OF 3] at [OF b(2)] at [OF len(3)] ne b(2) len(3) unfolding nth loc by auto
  next
    case (4 i) then show ?case using at [of i] at [OF b(2)] at [OF len(3)] unfolding nth by auto
  next
    case (5 x)
    then have "0 \<le> loc_of s x" using at [OF b(2)] at [OF len(3)] unfolding loc by (auto split: if_splits)
    then obtain j where j: "int j \<le> sl_last s" "?h ! j = x" using pl 5 by (auto simp: placed_without_def)
    show ?case
      by (rule exI [of _ "if j = q then ?p else if j = ?p then q else j"]) (use j b len in \<open>auto simp: nth\<close>)
  next
    case (6 x) then show ?case using pl by (auto simp: loc placed_without_def)
  qed (use pl in \<open>auto simp: placed_without_def sunk_def Let_def\<close>)
qed

lemma sift_down_placed:
  assumes "placed_without n s"
  shows "placed_without n (sift_down q s) \<and> sl_last (sift_down q s) = sl_last s
    \<and> length (sl_heap (sift_down q s)) = length (sl_heap s) \<and> ts_of (sift_down q s) = ts_of s
    \<and> loc_of (sift_down q s) n = loc_of s n
    \<and> (\<forall>x. (loc_of (sift_down q s) x \<ge> 0) = (loc_of s x \<ge> 0))"
  using assms
proof (induction "nat (sl_last s + 1) - q" arbitrary: q s rule: less_induct)
  case less
  show ?case
  proof (cases "sinks q s")
    case False
    then show ?thesis using less(2) by (simp add: sift_down_step [of q s])
  next
    case True
    have b: "q < child q s" "int (child q s) \<le> sl_last s"
      using True child_props(1,2) [of q s] by (auto simp: sinks_def)
    note k = sunk_placed [OF less(2) True]
    have "nat (sl_last (sunk q s) + 1) - child q s < nat (sl_last s + 1) - q"
      using b by (simp add: k(2))
    from less(1) [OF this k(1)] show ?thesis
      using True by (simp add: sift_down_step [of q s] k)
  qed
qed

definition down_order :: "nat \<Rightarrow> snd_list \<Rightarrow> bool" where
  "down_order q s \<longleftrightarrow>
     (\<forall>i. 0 < i \<longrightarrow> int i \<le> sl_last s \<longrightarrow> (i - 1) div 2 \<noteq> q \<longrightarrow> time_at s ((i - 1) div 2) \<le> time_at s i)
   \<and> (\<forall>i. 0 < i \<longrightarrow> int i \<le> sl_last s \<longrightarrow> (i - 1) div 2 = q \<longrightarrow> 0 < q \<longrightarrow> time_at s ((q - 1) div 2) \<le> time_at s i)"

lemma sift_down_order:
  assumes "placed_without n s" "down_order q s"
  shows "heap_order (sift_down q s)"
  using assms
proof (induction "nat (sl_last s + 1) - q" arbitrary: q s rule: less_induct)
  case less
  show ?case
  proof (cases "sinks q s")
    case False
    have "time_at s q \<le> time_at s i" if "0 < i" "int i \<le> sl_last s" "(i - 1) div 2 = q" for i
    proof -
      have "int (2 * q + 1) \<le> sl_last s" using that by auto
      then show ?thesis using child_props(4) [of q s i] that False by (simp add: sinks_def)
    qed
    then have "heap_order s" using less(3) by (auto simp: heap_order_def down_order_def)
    then show ?thesis using False by (simp add: sift_down_step [of q s])
  next
    case True
    let ?p = "child q s"
    have last: "int (2 * q + 1) \<le> sl_last s" using True by (simp add: sinks_def)
    note b = child_props [OF last] and k = sunk_placed [OF less(2) True]
    have o1: "time_at s ((i - 1) div 2) \<le> time_at s i" if "0 < i" "int i \<le> sl_last s" "(i - 1) div 2 \<noteq> q" for i
      using less(3) that by (simp add: down_order_def)
    have "down_order ?p (sunk q s)"
      unfolding down_order_def k(2)
    proof (intro conjI allI impI, goal_cases)
      case (1 i)
      show ?case
      proof (cases "(i - 1) div 2 = q")
        case True
        then show ?thesis using b(4) [OF 1(1,2) True] b(1) 1 parent_less [of i] \<open>sinks q s\<close>
          by (auto simp: k(7) sinks_def)
      next
        case False
        have "i = q \<longrightarrow> time_at s ((q - 1) div 2) \<le> time_at s ?p"
          using less(3) b(1-3) 1 by (auto simp: down_order_def)
        then show ?thesis using False o1 [OF 1(1,2) False] 1 b(1,3) parent_less [of i] by (auto simp: k(7))
      qed
    next
      case (2 i)
      have "time_at s ?p \<le> time_at s i" using o1 [of i] 2 b(1) by auto
      then show ?case using 2 b(1,3) parent_less [of i] by (auto simp: k(7))
    qed
    moreover have "nat (sl_last (sunk q s) + 1) - ?p < nat (sl_last s + 1) - q"
      using b(1,2) by (simp add: k(2))
    ultimately show ?thesis
      using less(1) [of "sunk q s" ?p] k(1) True by (simp add: sift_down_step [of q s])
  qed
qed

definition unlinked :: "int \<Rightarrow> snd_list \<Rightarrow> snd_list" where
  "unlinked n s = (let l = loc_of s n; x = sl_heap s ! nat (sl_last s) in
     set_loc x l (s\<lparr> sl_heap := (sl_heap s)[nat l := x], sl_last := sl_last s - 1 \<rparr>))"

lemma remove_node_alt:
  "remove_node n s =
     (let s2 = (if loc_of s n \<ge> 0 then set_loc n (-1) (sift_down (nat (loc_of s n)) (unlinked n s)) else s)
      in if sl_last s2 = 0 then interrupt s2 else s2)"
  by (simp only: remove_node_def unlinked_def Let_def)

lemma on_list_place:
  assumes "snd_list_inv s" "loc_of s n \<ge> 0"
  shows "sl_heap s ! nat (loc_of s n) = n" "loc_of s n \<le> sl_last s"
  using assms by (auto simp: snd_list_inv_def)

lemma unlinked_placed:
  assumes inv: "snd_list_inv s" and on: "loc_of s n \<ge> 0"
  shows "placed_without n (unlinked n s)" "ts_of (unlinked n s) = ts_of s"
    "sl_last (unlinked n s) = sl_last s - 1" "length (sl_heap (unlinked n s)) = length (sl_heap s)"
    "x \<noteq> n \<Longrightarrow> (loc_of (unlinked n s) x \<ge> 0) = (loc_of s x \<ge> 0)"
    "int i < sl_last s \<Longrightarrow> time_at (unlinked n s) i =
       (if int i = loc_of s n then time_at s (nat (sl_last s)) else time_at s i)"
proof -
  let ?l = "nat (loc_of s n)" and ?k = "nat (sl_last s)"
  let ?x = "sl_heap s ! ?k"
  note pl = on_list_place [OF assms]
  have k: "int ?k = sl_last s" "?k < length (sl_heap s)" "?l \<le> ?k" "int ?l = loc_of s n"
    using inv on pl(2) by (auto simp: snd_list_inv_def)
  have at: "loc_of s (sl_heap s ! i) = int i" if "int i \<le> sl_last s" for i
    using inv that by (simp add: snd_list_inv_def)
  show last: "sl_last (unlinked n s) = sl_last s - 1" and len: "length (sl_heap (unlinked n s)) = length (sl_heap s)"
    by (simp_all add: unlinked_def Let_def)
  show ts: "ts_of (unlinked n s) = ts_of s" by (simp add: unlinked_def Let_def fun_eq_iff)
  have nth: "sl_heap (unlinked n s) ! i = (if i = ?l then ?x else sl_heap s ! i)" for i
    using k by (simp add: unlinked_def Let_def nth_list_update)
  have loc: "loc_of (unlinked n s) y = (if y = ?x then int ?l else loc_of s y)" for y
    using k(4) by (simp add: unlinked_def Let_def)
  have x0: "loc_of s ?x = int ?k" using at [of ?k] k by simp
  show "x \<noteq> n \<Longrightarrow> (loc_of (unlinked n s) x \<ge> 0) = (loc_of s x \<ge> 0)"
    using x0 by (auto simp: loc)
  show "time_at (unlinked n s) i = (if int i = loc_of s n then time_at s ?k else time_at s i)" if "int i < sl_last s"
    using k(4) by (auto simp: time_at_def ts nth)
  show "placed_without n (unlinked n s)"
    unfolding placed_without_def last len
  proof (intro conjI allI impI, goal_cases)
    case (3 i)
    then have i: "int i < sl_last s" by simp
    have "sl_heap s ! i \<noteq> ?x" using at [of i] x0 i k by auto
    then show ?case using at [of i] i unfolding nth loc by auto
  next
    case (4 i)
    then have i: "int i < sl_last s" by simp
    have "i \<noteq> ?l \<Longrightarrow> sl_heap s ! i \<noteq> n" using at [of i] i k(4) by auto
    moreover have "i = ?l \<Longrightarrow> ?x \<noteq> n" using x0 i k by auto
    ultimately show ?case unfolding nth by auto
  next
    case (5 x)
    then have "0 \<le> loc_of s x" using x0 unfolding loc by (auto split: if_splits)
    then obtain j where j: "int j \<le> sl_last s" "sl_heap s ! j = x" using inv by (auto simp: snd_list_inv_def)
    have "j \<noteq> ?l" using j 5 pl(1) by auto
    show ?case
    proof (cases "j = ?k")
      case True
      then show ?thesis using j k \<open>j \<noteq> ?l\<close> by (intro exI [of _ ?l]) (auto simp: nth)
    next
      case False
      then show ?thesis using j k \<open>j \<noteq> ?l\<close> by (intro exI [of _ j]) (auto simp: nth)
    qed
  next
    case (6 x) then show ?case using inv k by (auto simp: loc snd_list_inv_def)
  qed (use k on pl inv in \<open>auto simp: snd_list_inv_def\<close>)
qed

lemma remove_node_inv:
  assumes inv: "snd_list_inv s"
  shows "snd_list_inv (remove_node n s)" "sched (remove_node n s) = (sched s)(n := None)"
    "length (sl_heap (remove_node n s)) = length (sl_heap s)"
    "loc_of (remove_node n s) n = -1"
    "sl_last (remove_node n s) = (if loc_of s n \<ge> 0 then sl_last s - 1 else sl_last s)"
proof -
  let ?r = "remove_node n s"
  have all: "snd_list_inv ?r \<and> sched ?r = (sched s)(n := None) \<and> length (sl_heap ?r) = length (sl_heap s)
    \<and> loc_of ?r n = -1 \<and> sl_last ?r = (if loc_of s n \<ge> 0 then sl_last s - 1 else sl_last s)"
  proof (cases "loc_of s n \<ge> 0")
    case False
    moreover have "loc_of s n = -1"
    proof -
      have "loc_of s n \<ge> -1" using inv by (simp add: snd_list_inv_def)
      then show ?thesis using False by linarith
    qed
    ultimately show ?thesis using inv
      by (auto simp: remove_node_alt Let_def snd_list_inv_def sched_def fun_eq_iff)
  next
    case True
    note u = unlinked_placed [OF inv True]
    let ?d = "sift_down (nat (loc_of s n)) (unlinked n s)"
    have d: "placed_without n ?d" "sl_last ?d = sl_last s - 1" "length (sl_heap ?d) = length (sl_heap s)"
      "ts_of ?d = ts_of s" "\<And>x. x \<noteq> n \<Longrightarrow> (loc_of ?d x \<ge> 0) = (loc_of s x \<ge> 0)"
      using sift_down_placed [OF u(1), of "nat (loc_of s n)"] u(2-5) by auto
    have eq: "loc_of ?r x = (if x = n then -1 else loc_of ?d x)" "ts_of ?r = ts_of ?d"
      "sl_heap ?r = sl_heap ?d" "sl_last ?r = sl_last ?d" for x
      using True by (auto simp: remove_node_alt Let_def fun_eq_iff)
    have "snd_list_inv ?r"
      using d(1) unfolding snd_list_inv_def placed_without_def eq by (auto split: if_splits)
    then show ?thesis using True d(2-5) by (auto simp: eq sched_def fun_eq_iff)
  qed
  show "snd_list_inv ?r" "sched ?r = (sched s)(n := None)" "length (sl_heap ?r) = length (sl_heap s)"
    "loc_of ?r n = -1" "sl_last ?r = (if loc_of s n \<ge> 0 then sl_last s - 1 else sl_last s)"
    using all by blast+
qed

text \<open>The order survives when the node that fills the gap is not earlier than the parent of the gap,
  in particular when the first or the last node leaves.\<close>

lemma heap_orderD: "heap_order s \<Longrightarrow> 0 < i \<Longrightarrow> int i \<le> sl_last s \<Longrightarrow> time_at s ((i - 1) div 2) \<le> time_at s i"
  by (simp add: heap_order_def)

lemma remove_node_order:
  assumes inv: "snd_list_inv s" and ord: "heap_order s" and on: "loc_of s n \<ge> 0"
    and fits: "0 < loc_of s n \<Longrightarrow> time_at s ((nat (loc_of s n) - 1) div 2) \<le> time_at s (nat (sl_last s))"
  shows "heap_order (remove_node n s)"
proof -
  let ?l = "nat (loc_of s n)" and ?u = "unlinked n s"
  note u = unlinked_placed [OF inv on] and o = heap_orderD [OF ord]
  have t: "time_at ?u i = (if i = ?l then time_at s (nat (sl_last s)) else time_at s i)" if "int i \<le> sl_last ?u" for i
    using u(6) [of i] that on u(3) by auto
  have "down_order ?l ?u"
    unfolding down_order_def
  proof (intro conjI allI impI, goal_cases)
    case (1 i)
    have p: "int ((i - 1) div 2) \<le> sl_last ?u" using 1 parent_less [of i] by linarith
    have i: "int i \<le> sl_last s" using 1 u(3) by simp
    show ?case
    proof (cases "i = ?l")
      case True
      then show ?thesis unfolding t [OF p] t [OF 1(2)] using fits 1 by simp
    next
      case False
      then show ?thesis using o [OF 1(1) i] 1(3) by (simp only: t [OF p] t [OF 1(2)] if_False)
    qed
  next
    case (2 i)
    have i: "int i \<le> sl_last s" "i \<noteq> ?l" using 2 u(3) parent_less [of i] by auto
    have l: "int ?l \<le> sl_last s" "int ((?l - 1) div 2) \<le> sl_last ?u" "(?l - 1) div 2 \<noteq> ?l"
      using 2 u(3) parent_less [of ?l] parent_less [of i] by auto
    have "time_at s ((?l - 1) div 2) \<le> time_at s ?l" using o [OF 2(4) l(1)] .
    also have "\<dots> \<le> time_at s i" using o [OF 2(1) i(1)] 2(3) by simp
    finally show ?case using i(2) l(3) by (simp only: t [OF l(2)] t [OF 2(2)] if_False)
  qed
  then have "heap_order (sift_down ?l ?u)" by (rule sift_down_order [OF u(1)])
  then show ?thesis using on by (simp add: remove_node_alt Let_def heap_order_def time_at_def)
qed

lemma insert_node_cases:
  assumes inv: "snd_list_inv s"
  shows "case insert_node ts n s of
      Inl e \<Rightarrow> e = Out_Of_Bounds \<and> sched s n = None \<and> sl_last s + 1 = int (length (sl_heap s))
    | Inr s' \<Rightarrow> snd_list_inv s' \<and> length (sl_heap s') = length (sl_heap s)
        \<and> sched s' = (if sched s n = None then (sched s)(n \<mapsto> u64 ts) else sched s)
        \<and> (heap_order s \<longrightarrow> heap_order s')"
  using inv insert_at_inv [OF inv, where n = n and ts = ts]
  by (auto simp: insert_node_def guard_outcome_def sched_def snd_list_inv_def [of s])

lemma insert_node_removed: "snd_list_inv s \<Longrightarrow> loc_of s n \<ge> 0 \<Longrightarrow> insert_node ts n (remove_node n s) \<noteq> Inl e"
  using remove_node_inv [of s n] by (auto simp: insert_node_def guard_outcome_def snd_list_inv_def [of s])

text \<open>Doubling the array keeps the list.\<close>

definition enlarged :: "snd_list \<Rightarrow> snd_list" where
  "enlarged s = s\<lparr> sl_heap := sl_heap s @ replicate (length (sl_heap s)) 0 \<rparr>"

lemma enlarged:
  assumes "snd_list_inv s"
  shows "snd_list_inv (enlarged s)" "sched (enlarged s) = sched s" "heap_order s \<Longrightarrow> heap_order (enlarged s)"
    "length (sl_heap (enlarged s)) = 2 * length (sl_heap s)"
proof -
  have nth: "sl_heap (enlarged s) ! i = sl_heap s ! i" if "int i \<le> sl_last s" for i
    using that assms by (simp add: enlarged_def nth_append snd_list_inv_def)
  have loc: "loc_of (enlarged s) = loc_of s" "ts_of (enlarged s) = ts_of s" "sl_last (enlarged s) = sl_last s"
    by (auto simp: enlarged_def fun_eq_iff)
  have len: "length (sl_heap (enlarged s)) = 2 * length (sl_heap s)" by (simp add: enlarged_def)
  then show "length (sl_heap (enlarged s)) = 2 * length (sl_heap s)" .
  show "snd_list_inv (enlarged s)"
    using assms nth unfolding snd_list_inv_def loc len by auto metis
  show "sched (enlarged s) = sched s" by (simp add: sched_def loc fun_eq_iff)
  show "heap_order (enlarged s)" if ord: "heap_order s"
    unfolding heap_order_def loc
  proof (intro allI impI)
    fix i :: nat assume i: "0 < i" "int i \<le> sl_last s"
    then have "int ((i - 1) div 2) \<le> sl_last s" using parent_less [of i] by linarith
    then show "time_at (enlarged s) ((i - 1) div 2) \<le> time_at (enlarged s) i"
      using heap_orderD [OF ord i] unfolding time_at_def loc by (simp only: nth i(2))
  qed
qed

lemma snd_insert_alt:
  "snd_insert ts n s =
     insert_node ts n (if sl_last s = int (length (sl_heap s)) - 1 then enlarged s else s)"
  by (simp add: snd_insert_def enlarged_def)

text \<open>A change of the root's time to 1 keeps the order, when the root was not earlier.\<close>

lemma set_ts_inv:
  "snd_list_inv s \<Longrightarrow> snd_list_inv (interrupt (set_ts n t s))"
  "sched (interrupt (set_ts n t s)) = (if sched s n = None then sched s else (sched s)(n \<mapsto> t))"
  by (auto simp: snd_list_inv_def sched_def fun_eq_iff)

lemma set_root_order:
  assumes "snd_list_inv s" "heap_order s" "loc_of s n = 0" "t \<le> ts_of s n"
  shows "heap_order (interrupt (set_ts n t s))"
proof -
  have r: "sl_heap s ! 0 = n" using on_list_place(1) [OF assms(1), of n] assms(3) by simp
  have "time_at (interrupt (set_ts n t s)) i = (if i = 0 then t else time_at s i)" if "int i \<le> sl_last s" for i
  proof -
    have "loc_of s (sl_heap s ! i) = int i" using assms(1) that by (simp add: snd_list_inv_def)
    then have "(sl_heap s ! i = n) = (i = 0)" using r assms(3) by auto
    then show ?thesis by (simp add: time_at_def)
  qed
  moreover have "time_at s 0 = ts_of s n" by (simp add: time_at_def r)
  ultimately show ?thesis
    using assms(2,4) unfolding heap_order_def heap_simps
    by (smt (verit, best) parent_less nat_int_comparison(2) not_gr_zero)
qed

lemma root_first:
  assumes "snd_list_inv s" "heap_order s"
  shows "int i \<le> sl_last s \<Longrightarrow> time_at s 0 \<le> time_at s i"
proof (induction i rule: less_induct)
  case (less i)
  show ?case
  proof (cases "i = 0")
    case False
    then have "int ((i - 1) div 2) \<le> sl_last s" "(i - 1) div 2 < i"
      using less(2) parent_less [of i] by auto
    then have "time_at s 0 \<le> time_at s ((i - 1) div 2)" using less(1) by blast
    also have "\<dots> \<le> time_at s i" using heap_orderD [OF assms(2) _ less(2)] False by simp
    finally show ?thesis .
  qed simp
qed

lemma next_time:
  assumes "snd_list_inv s"
  shows "getNextProcTime s = (if sched s = (\<lambda>_. None) then 0 else time_at s 0)"
    "sl_last s \<noteq> -1 \<Longrightarrow> sched s (sl_heap s ! 0) = Some (time_at s 0)"
    "sl_last s = -1 \<Longrightarrow> sched s = (\<lambda>_. None)"
    "heap_order s \<Longrightarrow> sched s n = Some t \<Longrightarrow> time_at s 0 \<le> t"
proof -
  show r: "sched s (sl_heap s ! 0) = Some (time_at s 0)" if "sl_last s \<noteq> -1"
    using assms that by (auto simp: snd_list_inv_def sched_def time_at_def)
  show e: "sched s = (\<lambda>_. None)" if "sl_last s = -1"
    using assms that by (force simp: snd_list_inv_def sched_def fun_eq_iff)
  show "getNextProcTime s = (if sched s = (\<lambda>_. None) then 0 else time_at s 0)"
    using r e by (auto simp: getNextProcTime_def)
  assume "heap_order s" "sched s n = Some t"
  moreover from this obtain i where "int i \<le> sl_last s" "sl_heap s ! i = n" "t = ts_of s n"
    using assms by (auto simp: snd_list_inv_def sched_def split: if_splits)
  ultimately show "time_at s 0 \<le> t"
    using root_first [OF assms, of i] by (auto simp: time_at_def)
qed

subsection \<open>Runs\<close>

text \<open>The calls of the connections and the sender thread, in any order.\<close>

inductive snd_run ::
  "(int \<Rightarrow> int \<Rightarrow> 'w \<Rightarrow> (int \<times> int \<times> 'w) outcome) \<Rightarrow> (int \<Rightarrow> 'w \<Rightarrow> bool) \<Rightarrow> snd_list \<Rightarrow> bool"
  for pack_data usable where
  start: "snd_run pack_data usable snd_list_new"
| insert: "snd_run pack_data usable s \<Longrightarrow> snd_insert ts n s = Inr s' \<Longrightarrow> snd_run pack_data usable s'"
| update: "snd_run pack_data usable s \<Longrightarrow> snd_update n resched s = Inr s' \<Longrightarrow> snd_run pack_data usable s'"
| remove: "snd_run pack_data usable s \<Longrightarrow> snd_run pack_data usable (remove_node n s)"
| pop: "snd_run pack_data usable s \<Longrightarrow> snd_pop pack_data usable now s w = Inr (r, s', w') \<Longrightarrow>
    snd_run pack_data usable s'"

text \<open>Runs in which a socket leaves the list only from the front.\<close>

inductive snd_front_run ::
  "(int \<Rightarrow> int \<Rightarrow> 'w \<Rightarrow> (int \<times> int \<times> 'w) outcome) \<Rightarrow> (int \<Rightarrow> 'w \<Rightarrow> bool) \<Rightarrow> snd_list \<Rightarrow> bool"
  for pack_data usable where
  start: "snd_front_run pack_data usable snd_list_new"
| insert: "snd_front_run pack_data usable s \<Longrightarrow> 0 < u64 ts \<Longrightarrow> snd_insert ts n s = Inr s' \<Longrightarrow>
    snd_front_run pack_data usable s'"
| update: "snd_front_run pack_data usable s \<Longrightarrow> snd_update n resched s = Inr s' \<Longrightarrow>
    resched \<Longrightarrow> loc_of s n \<le> 0 \<Longrightarrow> snd_front_run pack_data usable s'"
| remove: "snd_front_run pack_data usable s \<Longrightarrow> loc_of s n \<le> 0 \<Longrightarrow>
    snd_front_run pack_data usable (remove_node n s)"
| pop: "snd_front_run pack_data usable s \<Longrightarrow> snd_pop pack_data usable now s w = Inr (r, s', w') \<Longrightarrow>
    snd_front_run pack_data usable s'"

lemma update_cases:
  assumes inv: "snd_list_inv s"
  shows "case snd_update n resched s of
      Inl e \<Rightarrow> e = Out_Of_Bounds \<and> sched s n = None \<and> sl_last s + 1 = int (length (sl_heap s))
    | Inr s' \<Rightarrow> snd_list_inv s' \<and> length (sl_heap s') = length (sl_heap s)
        \<and> sched s' = (if sched s n = None \<or> resched then (sched s)(n \<mapsto> 1) else sched s)"
proof (cases "loc_of s n \<ge> 0 \<and> resched \<and> loc_of s n \<noteq> 0")
  case True
  note rm = remove_node_inv [OF inv, of n]
  have "insert_node 1 n (remove_node n s) \<noteq> Inl e" for e
    using insert_node_removed [OF inv] True by blast
  then show ?thesis
    using True insert_node_cases [OF rm(1), where ts = 1 and n = n] rm(2,3)
    by (auto simp: snd_update_def sched_def [of s n] split: sum.splits)
next
  case False
  then show ?thesis
    using inv insert_node_cases [OF inv, where ts = 1 and n = n] set_ts_inv [where s = s and n = n and t = 1]
    by (auto simp: snd_update_def sched_def [of s n] interrupt_def set_ts_def split: sum.splits)
qed

lemma pop_cases:
  assumes inv: "snd_list_inv s" and pop: "snd_pop pack_data usable now s w = Inr (r, s', w')"
  shows "(r = -1 \<and> s' = s \<and> w' = w \<and> (sl_last s = -1 \<or> now < time_at s 0))
    \<or> (sl_last s \<noteq> -1 \<and> time_at s 0 \<le> now \<and> (let n = sl_heap s ! 0 in
         r = -1 \<and> w' = w \<and> \<not> usable n w \<and> s' = remove_node n s
       \<or> (\<exists>len ts. usable n w \<and> pack_data n now w = Inr (len, ts, w') \<and> r = (if len \<le> 0 then -1 else 1)
            \<and> (if u64 ts > 0 then insert_node ts n (remove_node n s) = Inr s' else s' = remove_node n s))))"
  using pop by (auto simp: snd_pop_def Let_def bind_outcome_Inr_iff split: if_splits)

lemma pop_keeps:
  assumes "snd_list_inv s" "snd_pop pack_data usable now s w = Inr (r, s', w')"
  shows "snd_list_inv s'" "length (sl_heap s') = length (sl_heap s)" "heap_order s \<Longrightarrow> heap_order s'"
proof -
  let ?n = "sl_heap s ! 0" and ?r = "remove_node (sl_heap s ! 0) s"
  have rm: "snd_list_inv ?r" "length (sl_heap ?r) = length (sl_heap s)" using remove_node_inv [OF assms(1)] by blast+
  have ord: "heap_order ?r" if "sl_last s \<noteq> -1" "heap_order s"
  proof -
    have "loc_of s ?n = 0" using assms(1) that(1) by (auto simp: snd_list_inv_def)
    then show ?thesis using remove_node_order [OF assms(1) that(2), of ?n] by simp
  qed
  have "snd_list_inv s' \<and> length (sl_heap s') = length (sl_heap s) \<and> (heap_order s \<longrightarrow> heap_order s')"
    using pop_cases [OF assms]
  proof (elim disjE conjE)
    assume "sl_last s \<noteq> -1" "let n = sl_heap s ! 0 in
         r = -1 \<and> w' = w \<and> \<not> usable n w \<and> s' = remove_node n s
       \<or> (\<exists>len ts. usable n w \<and> pack_data n now w = Inr (len, ts, w') \<and> r = (if len \<le> 0 then -1 else 1)
            \<and> (if u64 ts > 0 then insert_node ts n (remove_node n s) = Inr s' else s' = remove_node n s))"
    then consider "s' = ?r" | ts where "insert_node ts ?n ?r = Inr s'"
      by (auto simp: Let_def split: if_splits)
    then show ?thesis
    proof cases
      case 1 then show ?thesis using rm ord [OF \<open>sl_last s \<noteq> -1\<close>] by simp
    next
      case 2 then show ?thesis
        using insert_node_cases [OF rm(1), where ts = ts and n = ?n] rm(2) ord [OF \<open>sl_last s \<noteq> -1\<close>] by auto
    qed
  qed (use assms(1) in auto)
  then show "snd_list_inv s'" "length (sl_heap s') = length (sl_heap s)" "heap_order s \<Longrightarrow> heap_order s'" by auto
qed

lemma pop_sched:
  assumes inv: "snd_list_inv s" and pop: "snd_pop pack_data usable now s w = Inr (r, s', w')"
  defines "n \<equiv> sl_heap s ! 0"
  shows "r = -1 \<and> sched s' = sched s \<or> r = -1 \<and> sched s' = (sched s)(n := None)
    \<or> (\<exists>len ts. time_at s 0 \<le> now \<and> usable n w \<and> pack_data n now w = Inr (len, ts, w')
         \<and> r = (if len \<le> 0 then -1 else 1)
         \<and> sched s' = (sched s)(n := if u64 ts > 0 then Some (u64 ts) else None))"
proof -
  note rm = remove_node_inv [OF inv, of n]
  have back_in: "sched s' = (sched s)(n \<mapsto> u64 ts)" if "insert_node ts n (remove_node n s) = Inr s'" for ts
    using insert_node_cases [OF rm(1), where ts = ts and n = n] that rm(2) by simp
  from pop_cases [OF inv pop] show ?thesis
  proof (elim disjE conjE)
    assume "let n = sl_heap s ! 0 in
         r = -1 \<and> w' = w \<and> \<not> usable n w \<and> s' = remove_node n s
       \<or> (\<exists>len ts. usable n w \<and> pack_data n now w = Inr (len, ts, w') \<and> r = (if len \<le> 0 then -1 else 1)
            \<and> (if u64 ts > 0 then insert_node ts n (remove_node n s) = Inr s' else s' = remove_node n s))"
      and t: "time_at s 0 \<le> now"
    then have "r = -1 \<and> s' = remove_node n s
       \<or> (\<exists>len ts. usable n w \<and> pack_data n now w = Inr (len, ts, w') \<and> r = (if len \<le> 0 then -1 else 1)
            \<and> (if u64 ts > 0 then insert_node ts n (remove_node n s) = Inr s' else s' = remove_node n s))"
      unfolding Let_def n_def by blast
    then show ?thesis
    proof (elim disjE exE conjE)
      fix len ts assume a: "usable n w" "pack_data n now w = Inr (len, ts, w')" "r = (if len \<le> 0 then -1 else 1)"
        "if u64 ts > 0 then insert_node ts n (remove_node n s) = Inr s' else s' = remove_node n s"
      have "sched s' = (sched s)(n := if u64 ts > 0 then Some (u64 ts) else None)"
        using a(4) back_in rm(2) by (auto split: if_splits)
      then show ?thesis using a t by blast
    qed (simp add: rm(2))
  qed simp_all
qed

lemma snd_list_new_inv: "snd_list_inv snd_list_new" "heap_order snd_list_new"
  "length (sl_heap snd_list_new) = 4096" "loc_of snd_list_new n = -1"
  by (auto simp: snd_list_inv_def heap_order_def snd_list_new_def loc_of_def)

lemma insert_keeps:
  assumes "snd_list_inv s" "snd_insert ts n s = Inr s'"
  shows "snd_list_inv s'" "length (sl_heap s) \<le> length (sl_heap s')" "heap_order s \<Longrightarrow> heap_order s'"
    "sched s' = (if sched s n = None then (sched s)(n \<mapsto> u64 ts) else sched s)"
proof -
  let ?s = "if sl_last s = int (length (sl_heap s)) - 1 then enlarged s else s"
  have e: "snd_list_inv ?s" "sched ?s = sched s" "length (sl_heap s) \<le> length (sl_heap ?s)"
      "heap_order s \<Longrightarrow> heap_order ?s"
    using assms(1) enlarged [OF assms(1)] by auto
  show "snd_list_inv s'" "length (sl_heap s) \<le> length (sl_heap s')" "heap_order s \<Longrightarrow> heap_order s'"
    "sched s' = (if sched s n = None then (sched s)(n \<mapsto> u64 ts) else sched s)"
    using insert_node_cases [OF e(1), where ts = ts and n = n] assms(2) e(2-4) by (auto simp: snd_insert_alt)
qed

lemma snd_run_inv:
  assumes "snd_run pack_data usable s"
  shows "snd_list_inv s \<and> 4096 \<le> length (sl_heap s)"
  using assms
proof induction
  case (update s n resched s')
  then show ?case using update_cases [where s = s and n = n and resched = resched] by auto
next
  case (insert s ts n s')
  then show ?case using insert_keeps [of s ts n s'] by auto
next
  case (remove s n)
  then show ?case using remove_node_inv [of s n] by auto
next
  case (pop s now w r s' w')
  then show ?case using pop_keeps by fastforce
qed (simp add: snd_list_new_inv)

lemma snd_front_run_order:
  assumes "snd_front_run pack_data usable s"
  shows "snd_run pack_data usable s \<and> heap_order s \<and> (\<forall>n t. sched s n = Some t \<longrightarrow> 1 \<le> t)"
  using assms
proof induction
  case start
  then show ?case
    by (simp add: snd_run.start snd_list_new_inv sched_def)
next
  case (insert s ts n s')
  then show ?case
    using insert_keeps [of s ts n s'] snd_run_inv [of pack_data usable s] snd_run.insert [of pack_data usable s]
    by (auto split: if_splits)
next
  case (update s n resched s')
  have inv: "snd_list_inv s" using update snd_run_inv by blast
  have "heap_order s'"
  proof (cases "loc_of s n = 0")
    case True
    then have "sched s n = Some (ts_of s n)" by (simp add: sched_def)
    then have "1 \<le> ts_of s n" using update.IH by blast
    then show ?thesis using set_root_order [OF inv _ True] update True by (auto simp: snd_update_def)
  next
    case False
    then have "insert_node 1 n s = Inr s'" using update by (auto simp: snd_update_def split: if_splits)
    then show ?thesis using insert_node_cases [OF inv, where ts = 1 and n = n] update.IH by auto
  qed
  then show ?case
    using update update_cases [OF inv, of n resched] snd_run.update [of pack_data usable s]
    by (auto split: if_splits)
next
  case (remove s n)
  have inv: "snd_list_inv s" using remove snd_run_inv by blast
  have "heap_order (remove_node n s)"
  proof (cases "loc_of s n \<ge> 0")
    case True
    then show ?thesis using remove_node_order [OF inv _ True] remove by auto
  next
    case False
    then show ?thesis using remove by (simp add: remove_node_alt heap_order_def time_at_def Let_def)
  qed
  then show ?case
    using remove remove_node_inv [OF inv, of n] snd_run.remove by (auto split: if_splits)
next
  case (pop s now w r s' w')
  have inv: "snd_list_inv s" using pop snd_run_inv by blast
  have "\<forall>n t. sched s' n = Some t \<longrightarrow> 1 \<le> t"
    using pop_sched [OF inv pop(2)] pop.IH by (elim disjE exE conjE) (auto split: if_splits)
  then show ?case using pop pop_keeps(3) [OF inv pop(2)] snd_run.pop [of pack_data usable s] by blast
qed





text \<open>A removal from the middle of the heap: the last node, which fills the gap, is earlier than its
  new parent and does not rise.  After the two sockets in front have been served, the list reports
  the time 50 although a socket is scheduled at 30.\<close>

definition busy_list :: snd_list where
  "busy_list = \<lparr> sl_heap = [1, 2, 3, 4, 5, 6, 7, 0], sl_last = 6,
     sl_node = (\<lambda>n. if n = 1 then \<lparr> sn_ts = 10, sn_loc = 0 \<rparr> else if n = 2 then \<lparr> sn_ts = 50, sn_loc = 1 \<rparr>
       else if n = 3 then \<lparr> sn_ts = 20, sn_loc = 2 \<rparr> else if n = 4 then \<lparr> sn_ts = 60, sn_loc = 3 \<rparr>
       else if n = 5 then \<lparr> sn_ts = 55, sn_loc = 4 \<rparr> else if n = 6 then \<lparr> sn_ts = 70, sn_loc = 5 \<rparr>
       else if n = 7 then \<lparr> sn_ts = 30, sn_loc = 6 \<rparr> else \<lparr> sn_ts = 1, sn_loc = -1 \<rparr>),
     sl_interrupts = 0, sl_signals = 0 \<rparr>"

lemma busy_list_ordered: "heap_order busy_list"
proof -
  have "list_all (\<lambda>i. time_at busy_list ((i - 1) div 2) \<le> time_at busy_list i) [1, 2, 3, 4, 5, 6]"
    by code_simp
  moreover have "i \<in> set [1, 2, 3, 4, 5, 6]" if "0 < i" "int i \<le> 6" for i using that by auto
  ultimately have "time_at busy_list ((i - 1) div 2) \<le> time_at busy_list i" if "0 < i" "int i \<le> 6" for i
    using that unfolding list_all_iff by blast
  then show ?thesis by (auto simp: heap_order_def busy_list_def)
qed

lemma removal_delays_others:
  "getNextProcTime (remove_node 3 (remove_node 1 (remove_node 4 busy_list))) = 50"
  "sched (remove_node 3 (remove_node 1 (remove_node 4 busy_list))) 7 = Some 30"
  by code_simp+

end
