(* ===== verification/Ip_Address.thy ===== *)
theory Ip_Address
  imports Byte_Order
begin

text \<open>Socket addresses (class CIPAddress, core/common.cpp).  The code reads a sockaddr as a
  sockaddr\_in or as a sockaddr\_in6, by the IP version it is given; the record holds the members it
  reads under either cast.  A port is in network order, as in the structure.\<close>

unbundle bit_operations_syntax

definition AF_INET :: int where "AF_INET = 2"
definition AF_INET6 :: int where "AF_INET6 = 10"

record sockaddr =
  sa_port :: "16 word"
  sa_addr :: "32 word"
  sa6_addr :: "byte list"

definition sockaddr_new :: sockaddr where
  "sockaddr_new = \<lparr> sa_port = 0, sa_addr = 0, sa6_addr = replicate 16 0 \<rparr>"

definition ipcmp :: "sockaddr \<Rightarrow> sockaddr \<Rightarrow> int \<Rightarrow> bool" where
  "ipcmp a1 a2 ver =
     (if ver = AF_INET then sa_port a1 = sa_port a2 \<and> sa_addr a1 = sa_addr a2
      else sa_port a1 = sa_port a2 \<and> list_all (\<lambda>i. sa6_addr a1 ! i = sa6_addr a2 ! i) [0..<16])"

definition word_at :: "byte list \<Rightarrow> nat \<Rightarrow> 32 word" where
  "word_at bs i = push_bit 24 (ucast (bs ! (i + 3))) + push_bit 16 (ucast (bs ! (i + 2)))
     + push_bit 8 (ucast (bs ! (i + 1))) + ucast (bs ! i)"

text \<open>From an address to four words and back; for IPv4 only the first word is touched.\<close>

definition ntop :: "sockaddr \<Rightarrow> 32 word list \<Rightarrow> int \<Rightarrow> 32 word list" where
  "ntop addr ip ver =
     (if ver = AF_INET then ip[0 := sa_addr addr]
      else let bs = sa6_addr addr in
           ip[3 := word_at bs 12, 2 := word_at bs 8, 1 := word_at bs 4, 0 := word_at bs 0])"

definition pton_bytes :: "32 word \<Rightarrow> byte list" where
  "pton_bytes w = [ucast (w AND 0xFF), ucast (drop_bit 8 (w AND 0xFF00)),
     ucast (drop_bit 16 (w AND 0xFF0000)), ucast (drop_bit 24 (w AND 0xFF000000))]"

definition pton :: "sockaddr \<Rightarrow> 32 word list \<Rightarrow> int \<Rightarrow> sockaddr" where
  "pton addr ip ver =
     (if ver = AF_INET then addr\<lparr> sa_addr := ip ! 0 \<rparr>
      else addr\<lparr> sa6_addr := concat (map (\<lambda>i. pton_bytes (ip ! i)) [0..<4]) \<rparr>)"

definition sockaddr_wf :: "sockaddr \<Rightarrow> bool" where
  "sockaddr_wf a \<longleftrightarrow> length (sa6_addr a) = 16"

subsection \<open>Addresses and words\<close>

lemma word_at_or: "word_at bs i = word_of_bytes4 (bs ! i) (bs ! (i + 1)) (bs ! (i + 2)) (bs ! (i + 3))"
proof -
  let ?a = "ucast (bs ! i) :: 32 word" and ?b = "push_bit 8 (ucast (bs ! (i + 1))) :: 32 word"
    and ?c = "push_bit 16 (ucast (bs ! (i + 2))) :: 32 word" and ?d = "push_bit 24 (ucast (bs ! (i + 3))) :: 32 word"
  have "?d + ?c = ?d OR ?c"
    by (rule disjunctive_add) (auto simp: bit_simps dest: bit_imp_le_length)
  moreover have "(?d OR ?c) + ?b = ?d OR ?c OR ?b"
    by (subst disjunctive_add) (auto simp: bit_simps ac_simps dest: bit_imp_le_length)
  moreover have "(?d OR ?c OR ?b) + ?a = ?d OR ?c OR ?b OR ?a"
    by (subst disjunctive_add) (auto simp: bit_simps ac_simps dest: bit_imp_le_length)
  ultimately show ?thesis by (simp add: word_at_def word_of_bytes4_def ac_simps)
qed

lemma pton_bytes_word_bytes: "pton_bytes w = word_bytes w"
proof -
  have m: "(255 :: 32 word) = mask 8" "(0xFF00 :: 32 word) = push_bit 8 (mask 8)"
    "(0xFF0000 :: 32 word) = push_bit 16 (mask 8)" "(0xFF000000 :: 32 word) = push_bit 24 (mask 8)"
    by (simp_all add: mask_eq_exp_minus_1 push_bit_eq_mult)
  show ?thesis unfolding pton_bytes_def word_bytes_def m
    by (auto simp: bit_simps intro!: bit_word_eqI)
qed

lemma ip6_roundtrip:
  assumes "length bs = 16" "length ip = 4"
  shows "concat (map (\<lambda>i. pton_bytes (ip[3 := word_at bs 12, 2 := word_at bs 8, 1 := word_at bs 4, 0 := word_at bs 0] ! i))
    [0..<4]) = bs"
  using assms by (auto simp: numeral_eq_Suc length_Suc_conv word_at_or pton_bytes_word_bytes)

lemma ipcmp_eq:
  assumes "sockaddr_wf a" "sockaddr_wf b" "ver \<noteq> AF_INET"
  shows "ipcmp a b ver \<longleftrightarrow> sa_port a = sa_port b \<and> sa6_addr a = sa6_addr b"
  using assms by (auto simp: ipcmp_def sockaddr_wf_def list_all_iff intro!: nth_equalityI)

lemma ipcmp_refl [simp]: "ipcmp a a ver"
  by (simp add: ipcmp_def list_all_iff)

lemma ipcmp_sym: "ipcmp a b ver \<longleftrightarrow> ipcmp b a ver"
  by (auto simp: ipcmp_def list_all_iff)

lemma ipcmp_trans: "ipcmp a b ver \<Longrightarrow> ipcmp b c ver \<Longrightarrow> ipcmp a c ver"
  by (auto simp: ipcmp_def list_all_iff)

text \<open>An address that has been turned into words and back is the same address.\<close>

lemma ntop_pton:
  assumes "sockaddr_wf a" "sockaddr_wf b" "length ip = 4" "sa_port b = sa_port a"
  shows "ipcmp (pton b (ntop a ip ver) ver) a ver"
proof (cases "ver = AF_INET")
  case True
  then show ?thesis using assms by (cases ip) (auto simp: pton_def ntop_def ipcmp_def)
next
  case False
  have "sa6_addr (pton b (ntop a ip ver) ver) = sa6_addr a"
    using ip6_roundtrip [of "sa6_addr a" ip] assms False by (simp add: pton_def ntop_def sockaddr_wf_def Let_def)
  then show ?thesis using assms False by (simp add: ipcmp_def list_all_iff pton_def)
qed

end
