(* ===== verification/Rcv_Queue.thy ===== *)
theory Rcv_Queue
  imports Ip_Address Packet_Format Unit_Queue
begin

text \<open>The data structures of the receiver thread (core/queue.h and core/queue.cpp): the hash table
  of sockets (CHash), the list of sockets by the time they were last served (CRcvUList, doubly
  linked), the queue of sockets that are connecting (CRendezvousQueue), and CRcvQueue with the
  packets stored for connecting sockets, the listener and the new entries.

  A CUDT object is named by its socket ID; a node of CRcvUList is the node of that socket.  Locks
  make each operation a step.  The lemmas show that the hash table is a stack of entries for each
  ID, that the linked list is a list, and that stored packets are handed over in order.\<close>

subsection \<open>Hash table\<close>

type_synonym chash = "(int \<times> int) list list"

definition hash_init :: "nat \<Rightarrow> chash" where
  "hash_init n = replicate n []"

definition bucket_of :: "int \<Rightarrow> chash \<Rightarrow> nat outcome" where
  "bucket_of sid h =
     guard_outcome Div_By_Zero (h \<noteq> [])
       (guard_outcome Out_Of_Bounds (0 \<le> cmod sid (int (length h))) (Inr (nat (cmod sid (int (length h))))))"

fun bucket_find :: "int \<Rightarrow> (int \<times> int) list \<Rightarrow> int option" where
  "bucket_find sid [] = None"
| "bucket_find sid ((i, u) # b) = (if sid = i then Some u else bucket_find sid b)"

fun bucket_remove :: "int \<Rightarrow> (int \<times> int) list \<Rightarrow> (int \<times> int) list" where
  "bucket_remove sid [] = []"
| "bucket_remove sid ((i, u) # b) = (if sid = i then b else (i, u) # bucket_remove sid b)"

definition hash_lookup :: "int \<Rightarrow> chash \<Rightarrow> int option outcome" where
  "hash_lookup sid h = map_outcome (\<lambda>b. bucket_find sid (h ! b)) (bucket_of sid h)"

definition hash_insert :: "int \<Rightarrow> int \<Rightarrow> chash \<Rightarrow> chash outcome" where
  "hash_insert sid u h = map_outcome (\<lambda>b. h[b := (sid, u) # h ! b]) (bucket_of sid h)"

definition hash_remove :: "int \<Rightarrow> chash \<Rightarrow> chash outcome" where
  "hash_remove sid h = map_outcome (\<lambda>b. h[b := bucket_remove sid (h ! b)]) (bucket_of sid h)"

subsection \<open>The list of sockets by age\<close>

record rnode =
  rn_ts :: int
  rn_prev :: "int option"
  rn_next :: "int option"
  rn_on :: bool

record rcv_ulist =
  rl_head :: "int option"
  rl_tail :: "int option"
  rl_node :: "int \<Rightarrow> rnode"

definition rnode_new :: rnode where
  "rnode_new = \<lparr> rn_ts = 1, rn_prev = None, rn_next = None, rn_on = False \<rparr>"

definition rcv_ulist_new :: rcv_ulist where
  "rcv_ulist_new = \<lparr> rl_head = None, rl_tail = None, rl_node = (\<lambda>_. rnode_new) \<rparr>"

definition upd_node :: "int \<Rightarrow> (rnode \<Rightarrow> rnode) \<Rightarrow> rcv_ulist \<Rightarrow> rcv_ulist" where
  "upd_node n f s = s\<lparr> rl_node := (rl_node s)(n := f (rl_node s n)) \<rparr>"

text \<open>\<open>n\<close> becomes the last node; \<open>now\<close> is the reading of the cycle counter.\<close>

definition link_last :: "int \<Rightarrow> rcv_ulist \<Rightarrow> rcv_ulist outcome" where
  "link_last n s =
     (case rl_tail s of None \<Rightarrow> Inl Null_Deref
      | Some l \<Rightarrow>
          let s1 = upd_node n (\<lambda>r. r\<lparr> rn_prev := Some l, rn_next := None \<rparr>) s
          in Inr ((upd_node l (\<lambda>r. r\<lparr> rn_next := Some n \<rparr>) s1)\<lparr> rl_tail := Some n \<rparr>))"

definition rlist_insert :: "int \<Rightarrow> int \<Rightarrow> rcv_ulist \<Rightarrow> rcv_ulist outcome" where
  "rlist_insert now n s0 =
     (let s = upd_node n (\<lambda>r. r\<lparr> rn_ts := now \<rparr>) s0 in
      case rl_head s of
        None \<Rightarrow> Inr ((upd_node n (\<lambda>r. r\<lparr> rn_prev := None, rn_next := None \<rparr>) s)
                      \<lparr> rl_head := Some n, rl_tail := Some n \<rparr>)
      | Some _ \<Rightarrow> link_last n s)"

definition rlist_remove :: "int \<Rightarrow> rcv_ulist \<Rightarrow> rcv_ulist" where
  "rlist_remove n s =
     (let r = rl_node s n in
      if \<not> rn_on r then s
      else upd_node n (\<lambda>r. r\<lparr> rn_next := None, rn_prev := None \<rparr>)
        (case rn_prev r of
           None \<Rightarrow>
             let s1 = s\<lparr> rl_head := rn_next r \<rparr> in
             (case rn_next r of
                None \<Rightarrow> s1\<lparr> rl_tail := None \<rparr>
              | Some h \<Rightarrow> upd_node h (\<lambda>r. r\<lparr> rn_prev := None \<rparr>) s1)
         | Some p \<Rightarrow>
             let s1 = upd_node p (\<lambda>q. q\<lparr> rn_next := rn_next r \<rparr>) s in
             (case rn_next r of
                None \<Rightarrow> s1\<lparr> rl_tail := Some p \<rparr>
              | Some x \<Rightarrow> upd_node x (\<lambda>q. q\<lparr> rn_prev := Some p \<rparr>) s1)))"

definition rlist_update :: "int \<Rightarrow> int \<Rightarrow> rcv_ulist \<Rightarrow> rcv_ulist outcome" where
  "rlist_update now n s0 =
     (if \<not> rn_on (rl_node s0 n) then Inr s0
      else let s = upd_node n (\<lambda>r. r\<lparr> rn_ts := now \<rparr>) s0; r = rl_node s n in
        case rn_next r of
          None \<Rightarrow> Inr s
        | Some x \<Rightarrow>
            link_last n
              (case rn_prev r of
                 None \<Rightarrow> upd_node x (\<lambda>q. q\<lparr> rn_prev := None \<rparr>) (s\<lparr> rl_head := Some x \<rparr>)
               | Some p \<Rightarrow> upd_node x (\<lambda>q. q\<lparr> rn_prev := Some p \<rparr>)
                              (upd_node p (\<lambda>q. q\<lparr> rn_next := Some x \<rparr>) s)))"

subsection \<open>Sockets that are connecting\<close>

record crl =
  crl_id :: int
  crl_udt :: int
  crl_version :: int
  crl_addr :: sockaddr
  crl_ttl :: int

definition rdv_insert :: "int \<Rightarrow> int \<Rightarrow> int \<Rightarrow> sockaddr \<Rightarrow> int \<Rightarrow> crl list \<Rightarrow> crl list" where
  "rdv_insert sid u ipv addr ttl q =
     q @ [\<lparr> crl_id = sid, crl_udt = u, crl_version = ipv, crl_addr = addr, crl_ttl = ttl \<rparr>]"

fun rdv_remove :: "int \<Rightarrow> crl list \<Rightarrow> crl list" where
  "rdv_remove sid [] = []"
| "rdv_remove sid (r # q) = (if crl_id r = sid then q else r # rdv_remove sid q)"

text \<open>retrieve overwrites the ID it is given with the one it finds.\<close>

fun rdv_retrieve :: "sockaddr \<Rightarrow> int \<Rightarrow> crl list \<Rightarrow> (int \<times> int) option" where
  "rdv_retrieve addr sid [] = None"
| "rdv_retrieve addr sid (r # q) =
     (if ipcmp addr (crl_addr r) (crl_version r) \<and> (sid = 0 \<or> sid = crl_id r)
      then Some (crl_id r, crl_udt r) else rdv_retrieve addr sid q)"

text \<open>updateConnStatus: a request that has not been sent for 250 ms is sent again, or given up when
  its time is over.  The clock is read twice for an entry; \<open>give_up\<close> and \<open>resend\<close> act on the
  connection.\<close>

fun rdv_tick ::
  "(nat \<Rightarrow> int \<times> int) \<Rightarrow> (int \<Rightarrow> 'w \<Rightarrow> int) \<Rightarrow> (crl \<Rightarrow> 'w \<Rightarrow> 'w) \<Rightarrow> (crl \<Rightarrow> 'w \<Rightarrow> 'w outcome)
     \<Rightarrow> crl list \<Rightarrow> 'w \<Rightarrow> 'w outcome" where
  "rdv_tick clock last_request give_up resend [] w = Inr w"
| "rdv_tick clock last_request give_up resend (r # q) w =
     bind_outcome
       (if u64 (fst (clock (length q)) - last_request (crl_udt r) w) > 250000
        then if snd (clock (length q)) \<ge> crl_ttl r then Inr (give_up r w) else resend r w
        else Inr w)
       (rdv_tick clock last_request give_up resend q)"

subsection \<open>The receiving queue\<close>

record rcv_queue =
  rq_units :: unit_queue
  rq_hash :: chash
  rq_list :: rcv_ulist
  rq_rendezvous :: "crl list"
  rq_payload :: int
  rq_listener :: "int option"
  rq_new :: "int list"
  rq_buffer :: "int \<Rightarrow> cpacket list option"

definition rcv_queue_init :: "(nat \<Rightarrow> byte list) \<Rightarrow> nat \<Rightarrow> int \<Rightarrow> int \<Rightarrow> nat \<Rightarrow> rcv_queue" where
  "rcv_queue_init mem qsize payload version hsize =
     \<lparr> rq_units = uq_init mem qsize payload version, rq_hash = hash_init hsize,
       rq_list = rcv_ulist_new, rq_rendezvous = [], rq_payload = payload, rq_listener = None,
       rq_new = [], rq_buffer = (\<lambda>_. None) \<rparr>"

definition setListener :: "int \<Rightarrow> rcv_queue \<Rightarrow> int \<times> rcv_queue" where
  "setListener u q = (if rq_listener q \<noteq> None then (-1, q) else (0, q\<lparr> rq_listener := Some u \<rparr>))"

definition removeListener :: "int \<Rightarrow> rcv_queue \<Rightarrow> rcv_queue" where
  "removeListener u q = (if rq_listener q = Some u then q\<lparr> rq_listener := None \<rparr> else q)"

definition registerConnector :: "int \<Rightarrow> int \<Rightarrow> int \<Rightarrow> sockaddr \<Rightarrow> int \<Rightarrow> rcv_queue \<Rightarrow> rcv_queue" where
  "registerConnector sid u ipv addr ttl q =
     q\<lparr> rq_rendezvous := rdv_insert sid u ipv addr ttl (rq_rendezvous q) \<rparr>"

definition removeConnector :: "int \<Rightarrow> rcv_queue \<Rightarrow> rcv_queue" where
  "removeConnector sid q =
     q\<lparr> rq_rendezvous := rdv_remove sid (rq_rendezvous q), rq_buffer := (rq_buffer q)(sid := None) \<rparr>"

definition setNewEntry :: "int \<Rightarrow> rcv_queue \<Rightarrow> rcv_queue" where
  "setNewEntry u q = q\<lparr> rq_new := rq_new q @ [u] \<rparr>"

definition getNewEntry :: "rcv_queue \<Rightarrow> int option \<times> rcv_queue" where
  "getNewEntry q = (case rq_new q of [] \<Rightarrow> (None, q) | u # us \<Rightarrow> (Some u, q\<lparr> rq_new := us \<rparr>))"

text \<open>At most seventeen packets are kept for a socket; the result says that the waiting thread is woken.\<close>

definition storePkt :: "int \<Rightarrow> cpacket \<Rightarrow> rcv_queue \<Rightarrow> bool \<times> rcv_queue" where
  "storePkt sid pkt q =
     (case rq_buffer q sid of
        None \<Rightarrow> (True, q\<lparr> rq_buffer := (rq_buffer q)(sid \<mapsto> [pkt]) \<rparr>)
      | Some ps \<Rightarrow> if length ps > 16 then (False, q)
                   else (False, q\<lparr> rq_buffer := (rq_buffer q)(sid \<mapsto> ps @ [pkt]) \<rparr>))"

definition copy_packet :: "cpacket \<Rightarrow> cpacket \<Rightarrow> cpacket outcome" where
  "copy_packet new p =
     (let n = nat (getLength new) in
      case (pk_data new, pk_data p) of
        (Some src, Some dst) \<Rightarrow>
          guard_outcome Out_Of_Bounds (n \<le> length src \<and> n \<le> length dst)
            (Inr (setLength (getLength new)
               (p\<lparr> pk_header := pk_header new, pk_data := Some (take n src @ drop n dst) \<rparr>)))
      | _ \<Rightarrow> Inl Null_Deref)"

text \<open>recvfrom for a connecting socket; \<open>waited\<close> is the queue when the timed wait ends.\<close>

definition rq_recvfrom ::
  "(rcv_queue \<Rightarrow> rcv_queue) \<Rightarrow> int \<Rightarrow> cpacket \<Rightarrow> rcv_queue \<Rightarrow> (int \<times> cpacket \<times> rcv_queue) outcome" where
  "rq_recvfrom waited sid packet q0 =
     (let q = (if rq_buffer q0 sid = None then waited q0 else q0) in
      case rq_buffer q sid of
        None \<Rightarrow> Inr (-1, setLength (-1) packet, q)
      | Some [] \<Rightarrow> Inl Null_Deref
      | Some (new # ps) \<Rightarrow>
          if getLength packet < getLength new then Inr (-1, setLength (-1) packet, q)
          else map_outcome (\<lambda>p. (getLength p, p,
                   q\<lparr> rq_buffer := (rq_buffer q)(sid := (if ps = [] then None else Some ps)) \<rparr>))
                 (copy_packet new packet))"

text \<open>The new sockets enter the list and the hash table.\<close>

fun enter_new :: "(nat \<Rightarrow> int) \<Rightarrow> int list \<Rightarrow> rcv_queue \<Rightarrow> rcv_queue outcome" where
  "enter_new clock [] q = Inr q"
| "enter_new clock (u # us) q =
     bind_outcome (rlist_insert (clock (length us)) u (rq_list q)) (\<lambda>l.
     bind_outcome (hash_insert u u (rq_hash q)) (\<lambda>h.
       enter_new clock us (q\<lparr> rq_list := l, rq_hash := h, rq_new := us \<rparr>)))"

text \<open>The sweep over the sockets that have not been served since \<open>ctime\<close>: connected ones run their
  timers and move to the end, others leave hash table and list.\<close>

primrec rcv_sweep ::
  "nat \<Rightarrow> (int \<Rightarrow> 'w \<Rightarrow> bool) \<Rightarrow> (int \<Rightarrow> 'w \<Rightarrow> 'w outcome) \<Rightarrow> (nat \<Rightarrow> int) \<Rightarrow> int
     \<Rightarrow> rcv_queue \<Rightarrow> 'w \<Rightarrow> (rcv_queue \<times> 'w) outcome" where
  "rcv_sweep 0 alive timers clock ctime q w =
     (case rl_head (rq_list q) of
        Some n \<Rightarrow> if rn_ts (rl_node (rq_list q) n) < ctime then Inl Diverges else Inr (q, w)
      | None \<Rightarrow> Inr (q, w))"
| "rcv_sweep (Suc fuel) alive timers clock ctime q w =
     (case rl_head (rq_list q) of
        None \<Rightarrow> Inr (q, w)
      | Some n \<Rightarrow>
          if \<not> rn_ts (rl_node (rq_list q) n) < ctime then Inr (q, w)
          else if alive n w
          then bind_outcome (timers n w) (\<lambda>w1.
               bind_outcome (rlist_update (clock fuel) n (rq_list q)) (\<lambda>l.
                 rcv_sweep fuel alive timers clock ctime (q\<lparr> rq_list := l \<rparr>) w1))
          else bind_outcome (hash_remove n (rq_hash q)) (\<lambda>h.
                 rcv_sweep fuel alive timers clock ctime
                   (q\<lparr> rq_hash := h,
                       rq_list := upd_node n (\<lambda>r. r\<lparr> rn_on := False \<rparr>) (rlist_remove n (rq_list q)) \<rparr>) w))"

text \<open>Where a packet goes that has arrived from \<open>addr\<close>: \<open>peer\<close> gives the peer address and the IP
  version of a socket, \<open>waits\<close> that it waits for packets itself (a blocking connect).\<close>

datatype dispatch =
    To_Listener int
  | To_Connect int
  | Keep_For int
  | To_Data int
  | To_Ctrl int
  | Dropped

definition dispatch_connecting :: "(int \<Rightarrow> 'w \<Rightarrow> bool) \<Rightarrow> sockaddr \<Rightarrow> int \<Rightarrow> rcv_queue \<Rightarrow> 'w \<Rightarrow> dispatch" where
  "dispatch_connecting waits addr sid q w =
     (case rdv_retrieve addr sid (rq_rendezvous q) of
        None \<Rightarrow> Dropped
      | Some (id1, u) \<Rightarrow> if \<not> waits u w then To_Connect u else Keep_For id1)"

definition rcv_dispatch ::
  "(int \<Rightarrow> 'w \<Rightarrow> sockaddr \<times> int) \<Rightarrow> (int \<Rightarrow> 'w \<Rightarrow> bool) \<Rightarrow> (int \<Rightarrow> 'w \<Rightarrow> bool)
     \<Rightarrow> sockaddr \<Rightarrow> cpacket \<Rightarrow> rcv_queue \<Rightarrow> 'w \<Rightarrow> dispatch outcome" where
  "rcv_dispatch peer alive waits addr pkt q w =
     (let sid = m_iID pkt in
      if sid = 0 then
        (case rq_listener q of
           Some l \<Rightarrow> Inr (To_Listener l)
         | None \<Rightarrow> Inr (dispatch_connecting waits addr sid q w))
      else if sid > 0 then
        bind_outcome (hash_lookup sid (rq_hash q)) (\<lambda>found.
          Inr (case found of
                 Some u \<Rightarrow>
                   if ipcmp addr (fst (peer u w)) (snd (peer u w)) \<and> alive u w
                   then if getFlag pkt = 0 then To_Data u else To_Ctrl u
                   else Dropped
               | None \<Rightarrow> dispatch_connecting waits addr sid q w))
      else Inr Dropped)"

subsection \<open>The hash table holds a stack for each ID\<close>

definition hash_stack :: "int \<Rightarrow> chash \<Rightarrow> int list" where
  "hash_stack sid h = map snd (filter (\<lambda>e. fst e = sid) (h ! nat (sid mod int (length h))))"

lemma bucket_of_nonneg: "h \<noteq> [] \<Longrightarrow> 0 \<le> sid \<Longrightarrow> bucket_of sid h = Inr (nat (sid mod int (length h)))"
  by (simp add: bucket_of_def)

lemma bucket_find_stack: "bucket_find sid b = (case map snd (filter (\<lambda>e. fst e = sid) b) of [] \<Rightarrow> None | u # _ \<Rightarrow> Some u)"
  by (induction sid b rule: bucket_find.induct) auto

lemma bucket_remove_stack:
  "map snd (filter (\<lambda>e. fst e = i) (bucket_remove sid b)) =
     (if i = sid then tl (map snd (filter (\<lambda>e. fst e = i) b)) else map snd (filter (\<lambda>e. fst e = i) b))"
  by (induction sid b rule: bucket_remove.induct) auto

lemma hash_lookup_stack:
  "h \<noteq> [] \<Longrightarrow> 0 \<le> sid \<Longrightarrow> hash_lookup sid h = Inr (case hash_stack sid h of [] \<Rightarrow> None | u # _ \<Rightarrow> Some u)"
  by (simp add: hash_lookup_def bucket_of_nonneg bucket_find_stack hash_stack_def)

lemma nat_mod_eq: "h \<noteq> [] \<Longrightarrow> nat (i mod int (length h)) < length h"
  by (simp add: nat_less_iff)

lemma hash_insert_stack:
  assumes "h \<noteq> []" "0 \<le> sid"
  obtains h' where "hash_insert sid u h = Inr h'" "length h' = length h"
    "\<And>i. hash_stack i h' = (if i = sid then u # hash_stack i h else hash_stack i h)"
proof -
  let ?b = "nat (sid mod int (length h))"
  have "hash_stack i (h[?b := (sid, u) # h ! ?b]) = (if i = sid then u # hash_stack i h else hash_stack i h)" for i
    using nat_mod_eq [OF assms(1), of sid] by (auto simp: hash_stack_def nth_list_update)
  then show ?thesis using that assms by (simp add: hash_insert_def bucket_of_nonneg)
qed

lemma hash_remove_stack:
  assumes "h \<noteq> []" "0 \<le> sid"
  obtains h' where "hash_remove sid h = Inr h'" "length h' = length h"
    "\<And>i. hash_stack i h' = (if i = sid then tl (hash_stack i h) else hash_stack i h)"
proof -
  let ?b = "nat (sid mod int (length h))"
  have "hash_stack i (h[?b := bucket_remove sid (h ! ?b)]) = (if i = sid then tl (hash_stack i h) else hash_stack i h)" for i
    using nat_mod_eq [OF assms(1), of sid] nat_mod_eq [OF assms(1), of i]
    by (cases "nat (i mod int (length h)) = ?b") (auto simp: hash_stack_def nth_list_update bucket_remove_stack)
  then show ?thesis using that assms by (simp add: hash_remove_def bucket_of_nonneg)
qed

lemma hash_init_nonempty [simp]: "hash_init n = [] \<longleftrightarrow> n = 0"
  by (simp add: hash_init_def)

lemma hash_stack_init [simp]: "0 < n \<Longrightarrow> hash_stack i (hash_init n) = []"
  using nat_mod_eq [of "hash_init n" i] by (simp add: hash_stack_def hash_init_def)

subsection \<open>The linked list is a list\<close>

definition head_or :: "int list \<Rightarrow> int option \<Rightarrow> int option" where
  "head_or xs q = (case xs of [] \<Rightarrow> q | x # _ \<Rightarrow> Some x)"

definition last_or :: "int option \<Rightarrow> int list \<Rightarrow> int option" where
  "last_or p xs = (if xs = [] then p else Some (last xs))"

lemma end_simps [simp]:
  "head_or [] q = q" "head_or (x # xs) q = Some x" "last_or p [] = p" "last_or p (xs @ [x]) = Some x"
  "head_or (xs @ ys) q = head_or xs (head_or ys q)" "last_or p (xs @ ys) = last_or (last_or p xs) ys"
  "last_or p (x # xs) = last_or (Some x) xs"
  by (auto simp: head_or_def last_or_def split: list.splits)

text \<open>A segment: linked nodes, with \<open>p\<close> before the first and \<open>q\<close> after the last.\<close>

fun seg :: "(int \<Rightarrow> rnode) \<Rightarrow> int option \<Rightarrow> int list \<Rightarrow> int option \<Rightarrow> bool" where
  "seg f p [] q = True"
| "seg f p (x # xs) q \<longleftrightarrow> rn_prev (f x) = p \<and> rn_next (f x) = head_or xs q \<and> seg f (Some x) xs q"

lemma seg_append [simp]: "seg f p (xs @ ys) q \<longleftrightarrow> seg f p xs (head_or ys q) \<and> seg f (last_or p xs) ys q"
  by (induction xs arbitrary: p) auto

lemma seg_frame:
  "(\<And>x. x \<in> set xs \<Longrightarrow> rn_prev (g x) = rn_prev (f x) \<and> rn_next (g x) = rn_next (f x)) \<Longrightarrow>
     seg g p xs q = seg f p xs q"
  by (induction xs arbitrary: p) auto

lemma seg_new_next:
  assumes "seg f p xs q" "distinct xs" "xs \<noteq> []" "rn_next (g (last xs)) = q'"
    "rn_prev (g (last xs)) = rn_prev (f (last xs))"
    "\<And>x. x \<in> set xs \<Longrightarrow> x \<noteq> last xs \<Longrightarrow> rn_prev (g x) = rn_prev (f x) \<and> rn_next (g x) = rn_next (f x)"
  shows "seg g p xs q'"
proof -
  obtain ys x where xs: "xs = ys @ [x]" using assms(3) by (metis append_butlast_last_id)
  have "x \<noteq> y" if "y \<in> set ys" for y using assms(2) that by (auto simp: xs)
  then have "seg g p ys (Some x) = seg f p ys (Some x)"
    by (intro seg_frame assms(6)) (auto simp: xs)
  then show ?thesis using assms(1,4,5) by (simp add: xs)
qed

lemma seg_new_prev:
  assumes "seg f p xs q" "distinct xs" "xs \<noteq> []" "rn_prev (g (hd xs)) = p'"
    "rn_next (g (hd xs)) = rn_next (f (hd xs))"
    "\<And>x. x \<in> set xs \<Longrightarrow> x \<noteq> hd xs \<Longrightarrow> rn_prev (g x) = rn_prev (f x) \<and> rn_next (g x) = rn_next (f x)"
  shows "seg g p' xs q"
proof -
  obtain x ys where xs: "xs = x # ys" using assms(3) by (cases xs) auto
  have "x \<noteq> y" if "y \<in> set ys" for y using assms(2) that by (auto simp: xs)
  then have "seg g (Some x) ys q = seg f (Some x) ys q"
    by (intro seg_frame assms(6)) (auto simp: xs)
  then show ?thesis using assms(1,4,5) by (simp add: xs)
qed

definition rlist_is :: "rcv_ulist \<Rightarrow> int list \<Rightarrow> bool" where
  "rlist_is s xs \<longleftrightarrow> rl_head s = head_or xs None \<and> rl_tail s = last_or None xs \<and> distinct xs
     \<and> seg (rl_node s) None xs None \<and> (\<forall>x\<in>set xs. rn_on (rl_node s x))"

definition age :: "rcv_ulist \<Rightarrow> int \<Rightarrow> int" where
  "age s n = rn_ts (rl_node s n)"

definition on_list :: "rcv_ulist \<Rightarrow> int \<Rightarrow> bool" where
  "on_list s n = rn_on (rl_node s n)"

lemma upd_node_simps [simp]:
  "rl_head (upd_node n f s) = rl_head s" "rl_tail (upd_node n f s) = rl_tail s"
  "rl_node (upd_node n f s) m = (if m = n then f (rl_node s n) else rl_node s m)"
  by (simp_all add: upd_node_def)

lemma link_last_is:
  assumes "rlist_is s xs" "xs \<noteq> []" "n \<notin> set xs" "rn_on (rl_node s n)"
  shows "\<exists>s'. link_last n s = Inr s' \<and> rlist_is s' (xs @ [n]) \<and> age s' = age s \<and> on_list s' = on_list s"
proof -
  let ?l = "last xs"
  let ?s1 = "upd_node n (\<lambda>r. r\<lparr> rn_prev := Some ?l, rn_next := None \<rparr>) s"
  let ?s2 = "(upd_node ?l (\<lambda>r. r\<lparr> rn_next := Some n \<rparr>) ?s1)\<lparr> rl_tail := Some n \<rparr>"
  have l: "?l \<in> set xs" "?l \<noteq> n" using assms(2,3) by auto
  have "seg (rl_node ?s1) None xs None"
    using assms by (subst seg_frame [of _ _ "rl_node s"]) (auto simp: rlist_is_def)
  then have "seg (rl_node ?s2) None xs (Some n)"
    by (rule seg_new_next) (use assms l in \<open>auto simp: rlist_is_def\<close>)
  then have "rlist_is ?s2 (xs @ [n])"
    using assms l by (auto simp: rlist_is_def head_or_def last_or_def split: list.splits)
  moreover have "link_last n s = Inr ?s2" using assms(1,2) by (simp add: link_last_def rlist_is_def last_or_def)
  moreover have "age ?s2 = age s" "on_list ?s2 = on_list s" by (auto simp: age_def on_list_def fun_eq_iff)
  ultimately show ?thesis by blast
qed

text \<open>A node in the middle of the list is taken out by linking its neighbours.\<close>

definition unlink :: "int \<Rightarrow> rcv_ulist \<Rightarrow> rcv_ulist" where
  "unlink n s = (let r = rl_node s n in
     (case rn_prev r of
        None \<Rightarrow> let s1 = s\<lparr> rl_head := rn_next r \<rparr> in
          (case rn_next r of None \<Rightarrow> s1\<lparr> rl_tail := None \<rparr> | Some h \<Rightarrow> upd_node h (\<lambda>r. r\<lparr> rn_prev := None \<rparr>) s1)
      | Some p \<Rightarrow> let s1 = upd_node p (\<lambda>q. q\<lparr> rn_next := rn_next r \<rparr>) s in
          (case rn_next r of None \<Rightarrow> s1\<lparr> rl_tail := Some p \<rparr> | Some x \<Rightarrow> upd_node x (\<lambda>q. q\<lparr> rn_prev := Some p \<rparr>) s1)))"

lemma unlink_is:
  assumes "rlist_is s (as @ n # bs)"
  shows "rlist_is (unlink n s) (as @ bs) \<and> age (unlink n s) = age s \<and> on_list (unlink n s) = on_list s"
proof -
  let ?r = "rl_node s n" and ?f = "rl_node s"
  have g: "rn_prev ?r = last_or None as" "rn_next ?r = head_or bs None" "seg ?f None as (Some n)"
      "seg ?f (Some n) bs None" "distinct (as @ bs)" "n \<notin> set as" "n \<notin> set bs" "rl_tail s = last_or (Some n) bs"
    and on: "\<forall>x\<in>set (as @ bs). rn_on (?f x)" and hd: "rl_head s = head_or as (Some n)"
    using assms by (auto simp: rlist_is_def)
  let ?g = "rl_node (unlink n s)"
  have dis: "hd bs \<notin> set as" if "bs \<noteq> []" using g(5) that by (auto simp: neq_Nil_conv)
  have dis': "last as \<notin> set bs" if "as \<noteq> []" using g(5) last_in_set [OF that] by auto
  have node: "?g x = (if as \<noteq> [] \<and> x = last as then ((?f x)\<lparr> rn_next := head_or bs None \<rparr>)
      else if bs \<noteq> [] \<and> x = hd bs then ((?f x)\<lparr> rn_prev := last_or None as \<rparr>) else ?f x)" for x
  proof -
    have "as \<noteq> [] \<Longrightarrow> bs \<noteq> [] \<Longrightarrow> last as \<noteq> hd bs" using dis last_in_set [of as] by metis
    then show ?thesis
      using g(1,2) by (cases as rule: rev_cases; cases bs) (simp_all add: unlink_def Let_def)
  qed
  have left: "seg ?g None as (head_or bs None)"
  proof (cases "as = []")
    case False
    have "seg ?g None as (head_or bs None)"
      by (rule seg_new_next [OF g(3) _ False]) (use g(5) False dis in \<open>auto simp: node\<close>)
    then show ?thesis .
  qed simp
  have right: "seg ?g (last_or None as) bs None"
  proof (cases "bs = []")
    case False
    show ?thesis
    proof (rule seg_new_prev [OF g(4) _ False])
      have "as \<noteq> [] \<longrightarrow> hd bs \<noteq> last as" using dis [OF False] last_in_set [of as] by metis
      then show "rn_prev (?g (hd bs)) = last_or None as" "rn_next (?g (hd bs)) = rn_next (?f (hd bs))"
        using False by (auto simp: node)
    qed (use g(5) dis' in \<open>auto simp: node\<close>)
  qed simp
  have "rl_head (unlink n s) = head_or (as @ bs) None" "rl_tail (unlink n s) = last_or None (as @ bs)"
    using g hd by (auto simp: unlink_def Let_def last_or_def head_or_def split: list.splits)
  moreover have "age (unlink n s) = age s" "on_list (unlink n s) = on_list s"
    by (auto simp: age_def on_list_def fun_eq_iff node)
  moreover have "\<forall>x\<in>set (as @ bs). rn_on (?g x)" using on by (auto simp: node)
  ultimately show ?thesis using left right g(5) by (auto simp: rlist_is_def)
qed

lemma touch_is:
  assumes "\<And>r. rn_prev (f r) = rn_prev r \<and> rn_next (f r) = rn_next r \<and> rn_on (f r) = rn_on r"
  shows "rlist_is (upd_node n f s) xs = rlist_is s xs"
proof -
  have "seg (rl_node (upd_node n f s)) None xs None = seg (rl_node s) None xs None"
    by (rule seg_frame) (use assms in auto)
  then show ?thesis using assms by (auto simp: rlist_is_def)
qed

text \<open>A node that is not on the list may change.\<close>

lemma outside_is:
  assumes "n \<notin> set xs"
  shows "rlist_is (upd_node n f s) xs = rlist_is s xs"
proof -
  have "seg (rl_node (upd_node n f s)) None xs None = seg (rl_node s) None xs None"
    by (rule seg_frame) (use assms in auto)
  then show ?thesis using assms by (auto simp: rlist_is_def)
qed

lemma rlist_insert_is:
  assumes "rlist_is s xs" "n \<notin> set xs" "on_list s n"
  shows "\<exists>s'. rlist_insert now n s = Inr s' \<and> rlist_is s' (xs @ [n]) \<and> age s' = (age s)(n := now)
    \<and> on_list s' = on_list s"
proof (cases "xs = []")
  case True
  then show ?thesis using assms
    by (simp add: rlist_insert_def Let_def rlist_is_def age_def on_list_def fun_eq_iff)
next
  case False
  let ?s = "upd_node n (\<lambda>r. r\<lparr> rn_ts := now \<rparr>) s"
  have "rlist_is ?s xs" using assms(1) by (simp add: touch_is)
  from link_last_is [OF this False assms(2)] obtain s' where
    s': "link_last n ?s = Inr s'" "rlist_is s' (xs @ [n])" "age s' = age ?s" "on_list s' = on_list ?s"
    using assms(3) by (auto simp: on_list_def)
  have "rl_head s \<noteq> None" using assms(1) False by (auto simp: rlist_is_def head_or_def split: list.splits)
  then have "rlist_insert now n s = Inr s'" using s'(1) by (auto simp: rlist_insert_def)
  moreover have "age ?s = (age s)(n := now)" "on_list ?s = on_list s" by (auto simp: age_def on_list_def fun_eq_iff)
  ultimately show ?thesis using s' by auto
qed

lemma rlist_remove_unlink:
  "rlist_remove n s = (if rn_on (rl_node s n) then upd_node n (\<lambda>r. r\<lparr> rn_next := None, rn_prev := None \<rparr>) (unlink n s) else s)"
  by (simp add: rlist_remove_def unlink_def Let_def)

lemma rlist_remove_is:
  assumes "rlist_is s xs" "n \<in> set xs"
  shows "rlist_is (rlist_remove n s) (remove1 n xs)" "age (rlist_remove n s) = age s"
    "on_list (rlist_remove n s) = on_list s"
proof -
  obtain as bs where xs: "xs = as @ n # bs" "n \<notin> set as" using split_list_first [OF assms(2)] by blast
  note u = unlink_is [OF assms(1) [unfolded xs(1)]]
  have r: "remove1 n xs = as @ bs" "n \<notin> set (as @ bs)" using xs assms(1) by (auto simp: rlist_is_def remove1_append)
  have on: "rn_on (rl_node s n)" using assms by (auto simp: rlist_is_def)
  show "rlist_is (rlist_remove n s) (remove1 n xs)"
    using u on outside_is [OF r(2)] by (simp add: rlist_remove_unlink r(1))
  show "age (rlist_remove n s) = age s" "on_list (rlist_remove n s) = on_list s"
    using u on by (auto simp: rlist_remove_unlink age_def on_list_def fun_eq_iff)
qed

lemma rlist_update_is:
  assumes "rlist_is s xs" "n \<in> set xs"
  shows "\<exists>s'. rlist_update now n s = Inr s' \<and> rlist_is s' (remove1 n xs @ [n]) \<and> age s' = (age s)(n := now)
    \<and> on_list s' = on_list s"
proof -
  let ?s = "upd_node n (\<lambda>r. r\<lparr> rn_ts := now \<rparr>) s"
  obtain as bs where xs: "xs = as @ n # bs" "n \<notin> set as" using split_list_first [OF assms(2)] by blast
  have s: "rlist_is ?s (as @ n # bs)" using assms(1) by (simp add: touch_is xs)
  have r: "remove1 n xs = as @ bs" "n \<notin> set (as @ bs)" using xs assms(1) by (auto simp: rlist_is_def remove1_append)
  have on: "rn_on (rl_node s n)" using assms by (auto simp: rlist_is_def)
  have f: "age ?s = (age s)(n := now)" "on_list ?s = on_list s" by (auto simp: age_def on_list_def fun_eq_iff)
  have nx: "rn_next (rl_node s n) = head_or bs None" "rn_prev (rl_node s n) = last_or None as"
    using assms(1) by (auto simp: rlist_is_def xs)
  show ?thesis
  proof (cases "bs = []")
    case True
    then have "rlist_update now n s = Inr ?s" using on nx by (simp add: rlist_update_def Let_def)
    then show ?thesis using s f r xs True by auto
  next
    case False
    note u = unlink_is [OF s]
    have "rlist_update now n s = link_last n (unlink n ?s)"
      using on nx False by (cases as rule: rev_cases; cases bs) (simp_all add: rlist_update_def unlink_def Let_def)
    moreover have "on_list (unlink n ?s) n" using u f on unfolding on_list_def by metis
    then have "rn_on (rl_node (unlink n ?s) n)" by (simp add: on_list_def)
    from link_last_is [OF conjunct1 [OF u] _ r(2) this] False
    obtain s' where "link_last n (unlink n ?s) = Inr s'" "rlist_is s' ((as @ bs) @ [n])"
      "age s' = age (unlink n ?s)" "on_list s' = on_list (unlink n ?s)" by auto
    ultimately show ?thesis using u f by (auto simp: r(1))
  qed
qed

subsection \<open>Hash table and list agree\<close>

definition rq_inv :: "rcv_queue \<Rightarrow> int list \<Rightarrow> bool" where
  "rq_inv q xs \<longleftrightarrow> rlist_is (rq_list q) xs \<and> rq_hash q \<noteq> [] \<and> (\<forall>n\<in>set xs. 0 \<le> n)
     \<and> (\<forall>i. hash_stack i (rq_hash q) = (if i \<in> set xs then [i] else []))"

lemma rq_inv_init: "0 < hsize \<Longrightarrow> rq_inv (rcv_queue_init mem qsize payload version hsize) []"
  by (simp add: rq_inv_def rcv_queue_init_def rlist_is_def rcv_ulist_new_def)

text \<open>The new sockets enter in the order in which they have been announced.\<close>

lemma enter_new_inv:
  assumes "rq_inv q xs" "distinct us" "set us \<inter> set xs = {}" "\<forall>u\<in>set us. 0 \<le> u \<and> on_list (rq_list q) u"
  shows "\<exists>q'. enter_new clock us q = Inr q' \<and> rq_inv q' (xs @ us) \<and> rq_buffer q' = rq_buffer q"
  using assms
proof (induction us arbitrary: q xs)
  case (Cons u us)
  note q = Cons.prems(1) [unfolded rq_inv_def]
  have "rlist_is (rq_list q) xs" "u \<notin> set xs" "on_list (rq_list q) u" using q Cons.prems(3,4) by auto
  from rlist_insert_is [OF this, of "clock (length us)"]
  obtain l where l: "rlist_insert (clock (length us)) u (rq_list q) = Inr l" "rlist_is l (xs @ [u])"
      "on_list l = on_list (rq_list q)" by blast
  obtain h where h: "hash_insert u u (rq_hash q) = Inr h" "length h = length (rq_hash q)"
      "\<And>i. hash_stack i h = (if i = u then u # hash_stack i (rq_hash q) else hash_stack i (rq_hash q))"
    using hash_insert_stack [of "rq_hash q" u u] q Cons.prems(4) by auto
  let ?q = "q\<lparr> rq_list := l, rq_hash := h, rq_new := us \<rparr>"
  have "rq_inv ?q (xs @ [u])" using q Cons.prems(2-4) l h by (auto simp: rq_inv_def)
  from Cons.IH [OF this] obtain q' where "enter_new clock us ?q = Inr q' \<and> rq_inv q' ((xs @ [u]) @ us) \<and> rq_buffer q' = rq_buffer ?q"
    using Cons.prems l(3) by auto
  then show ?case using l(1) h(1) by simp
qed simp

lemma sweep_step_alive:
  assumes "rq_inv q (n # xs)" "rlist_update now n (rq_list q) = Inr l"
  shows "rq_inv (q\<lparr> rq_list := l \<rparr>) (xs @ [n])" "age l = (age (rq_list q))(n := now)"
proof -
  have "rlist_is (rq_list q) (n # xs)" using assms(1) by (simp add: rq_inv_def)
  from rlist_update_is [OF this, of n now]
  show "rq_inv (q\<lparr> rq_list := l \<rparr>) (xs @ [n])" "age l = (age (rq_list q))(n := now)"
    using assms by (auto simp: rq_inv_def)
qed

lemma sweep_step_dead:
  assumes inv: "rq_inv q (n # xs)"
  obtains h where "hash_remove n (rq_hash q) = Inr h"
    "rq_inv (q\<lparr> rq_hash := h, rq_list := upd_node n (\<lambda>r. r\<lparr> rn_on := False \<rparr>) (rlist_remove n (rq_list q)) \<rparr>) xs"
    "\<And>m. age (upd_node n (\<lambda>r. r\<lparr> rn_on := False \<rparr>) (rlist_remove n (rq_list q))) m = age (rq_list q) m"
proof -
  note q = inv [unfolded rq_inv_def]
  obtain h where h: "hash_remove n (rq_hash q) = Inr h" "length h = length (rq_hash q)"
      "\<And>i. hash_stack i h = (if i = n then tl (hash_stack i (rq_hash q)) else hash_stack i (rq_hash q))"
    using hash_remove_stack [of "rq_hash q" n] q by auto
  have l: "rlist_is (rlist_remove n (rq_list q)) xs" "age (rlist_remove n (rq_list q)) = age (rq_list q)"
    using rlist_remove_is [of "rq_list q" "n # xs" n] q by auto
  have n: "n \<notin> set xs" using q by (simp add: rlist_is_def)
  have "rlist_is (upd_node n (\<lambda>r. r\<lparr> rn_on := False \<rparr>) (rlist_remove n (rq_list q))) xs"
    using l(1) by (simp add: outside_is [OF n])
  then show ?thesis
  proof (intro that [OF h(1)])
    show "age (upd_node n (\<lambda>r. r\<lparr> rn_on := False \<rparr>) (rlist_remove n (rq_list q))) m = age (rq_list q) m" for m
      using fun_cong [OF l(2), of m] by (auto simp: age_def)
  qed (use q h n in \<open>auto simp: rq_inv_def\<close>)
qed

text \<open>What a sweep leaves: \<open>as\<close> had to be looked at, \<open>bs\<close> had been served already.\<close>

definition swept :: "(int \<Rightarrow> 'w \<Rightarrow> bool) \<Rightarrow> int \<Rightarrow> int list \<Rightarrow> int list \<Rightarrow> rcv_queue \<Rightarrow> bool" where
  "swept alive ctime as bs q \<longleftrightarrow> (\<exists>ys. rq_inv q ys \<and> set bs \<subseteq> set ys \<and> set ys \<subseteq> set as \<union> set bs
     \<and> (\<forall>n\<in>set ys. ctime \<le> age (rq_list q) n) \<and> (\<forall>n\<in>set as - set ys. \<exists>w. \<not> alive n w))"

lemma swept_dead:
  assumes "swept alive ctime as bs q" "\<not> alive n w" "n \<notin> set as" "n \<notin> set bs"
  shows "swept alive ctime (n # as) bs q"
proof -
  obtain ys where ys: "rq_inv q ys" "set bs \<subseteq> set ys" "set ys \<subseteq> set as \<union> set bs"
     "\<forall>n\<in>set ys. ctime \<le> age (rq_list q) n" "\<forall>n\<in>set as - set ys. \<exists>w. \<not> alive n w"
    using assms(1) unfolding swept_def by blast
  have "\<exists>w. \<not> alive m w" if "m \<in> set (n # as) - set ys" for m
    using that ys(5) assms(2) by (cases "m = n") auto
  then show ?thesis unfolding swept_def using ys(1-4) by (intro exI [of _ ys]) auto
qed

lemma swept_alive:
  assumes "swept alive ctime as (bs @ [n]) q"
  shows "swept alive ctime (n # as) bs q"
proof -
  obtain ys where ys: "rq_inv q ys" "set (bs @ [n]) \<subseteq> set ys" "set ys \<subseteq> set as \<union> set (bs @ [n])"
     "\<forall>n\<in>set ys. ctime \<le> age (rq_list q) n" "\<forall>n\<in>set as - set ys. \<exists>w. \<not> alive n w"
    using assms(1) unfolding swept_def by blast
  then have "set bs \<subseteq> set ys" "set ys \<subseteq> set (n # as) \<union> set bs" "set (n # as) - set ys \<subseteq> set as - set ys" by auto
  then show ?thesis unfolding swept_def using ys(1,4,5) by (intro exI [of _ ys]) blast
qed

lemma rcv_sweep_ends:
  assumes "rq_inv q (as @ bs)" "length as \<le> fuel" "\<forall>n\<in>set bs. ctime \<le> age (rq_list q) n"
    "sorted (map (age (rq_list q)) as)" "\<And>k. ctime \<le> clock k"
  shows "case rcv_sweep fuel alive timers clock ctime q w of
      Inl e \<Rightarrow> \<exists>n\<in>set as. \<exists>w'. alive n w' \<and> timers n w' = Inl e
    | Inr (q', w') \<Rightarrow> swept alive ctime as bs q'"
  using assms(1-4)
proof (induction fuel arbitrary: q w as bs)
  case 0
  have fin: "swept alive ctime [] bs q" using 0 by (auto simp: swept_def)
  have "rl_head (rq_list q) = head_or bs None" using 0 by (simp add: rq_inv_def rlist_is_def)
  then show ?case using fin 0 by (cases bs) (auto simp: age_def)
next
  case (Suc fuel)
  have head: "rl_head (rq_list q) = head_or (as @ bs) None" using Suc.prems(1) by (simp add: rq_inv_def rlist_is_def)
  show ?case
  proof (cases "\<exists>n xs. as = n # xs \<and> age (rq_list q) n < ctime")
    case False
    have "\<forall>n\<in>set as. ctime \<le> age (rq_list q) n" using False Suc.prems(4) by (cases as) auto
    then have "swept alive ctime as bs q" "\<forall>n\<in>set (as @ bs). ctime \<le> age (rq_list q) n"
      using Suc.prems(1,3) by (auto simp: swept_def intro!: exI [of _ "as @ bs"])
    then show ?thesis using head by (cases "as @ bs") (auto simp: age_def)
  next
    case True
    then obtain n xs where as: "as = n # xs" and old: "rn_ts (rl_node (rq_list q) n) < ctime"
      by (auto simp: age_def)
    have inv: "rq_inv q (n # (xs @ bs))" using Suc.prems(1) as by simp
    have fresh: "n \<notin> set xs" "n \<notin> set bs" using inv by (auto simp: rq_inv_def rlist_is_def)
    have same: "\<forall>m\<in>set xs. age (rq_list q') m = age (rq_list q) m \<Longrightarrow> sorted (map (age (rq_list q')) xs)" for q'
      using Suc.prems(4) by (simp add: as cong: map_cong)
    show ?thesis
    proof (cases "alive n w")
      case False
      from sweep_step_dead [OF inv] obtain h where
        h: "hash_remove n (rq_hash q) = Inr h" and
        k: "rq_inv (q\<lparr> rq_hash := h, rq_list := upd_node n (\<lambda>r. r\<lparr> rn_on := False \<rparr>) (rlist_remove n (rq_list q)) \<rparr>) (xs @ bs)"
          (is "rq_inv ?q _") and
        a: "\<And>m. age (upd_node n (\<lambda>r. r\<lparr> rn_on := False \<rparr>) (rlist_remove n (rq_list q))) m = age (rq_list q) m"
        by blast
      have eq: "rcv_sweep (Suc fuel) alive timers clock ctime q w = rcv_sweep fuel alive timers clock ctime ?q w"
        using head old False h by (simp add: as)
      have "length xs \<le> fuel" "\<forall>m\<in>set bs. ctime \<le> age (rq_list ?q) m" "sorted (map (age (rq_list ?q)) xs)"
        using Suc.prems(2,3) same [of ?q] a by (simp_all add: as)
      note ih = Suc.IH [OF k this, of w]
      show ?thesis
      proof (cases "rcv_sweep fuel alive timers clock ctime ?q w")
        case (Inl e)
        then show ?thesis using ih unfolding eq by (auto simp: as)
      next
        case (Inr r)
        then show ?thesis using ih swept_dead [of alive ctime xs bs _ n w] False fresh unfolding eq by (cases r) (simp add: as)
      qed
    next
      case alive: True
      show ?thesis
      proof (cases "timers n w")
        case (Inl e)
        then show ?thesis using head old alive by (auto simp: as)
      next
        case (Inr w1)
        obtain l where l: "rlist_update (clock fuel) n (rq_list q) = Inr l"
          using rlist_update_is [of "rq_list q" "n # (xs @ bs)" n "clock fuel"] inv by (auto simp: rq_inv_def)
        note k = sweep_step_alive [OF inv l, simplified append_assoc]
        let ?q = "q\<lparr> rq_list := l \<rparr>"
        have eq: "rcv_sweep (Suc fuel) alive timers clock ctime q w = rcv_sweep fuel alive timers clock ctime ?q w1"
          using head old alive Inr l by (simp add: as)
        have "length xs \<le> fuel" "\<forall>m\<in>set (bs @ [n]). ctime \<le> age (rq_list ?q) m" "sorted (map (age (rq_list ?q)) xs)"
          using Suc.prems(2,3) same [of ?q] k(2) assms(5) fresh by (auto simp: as)
        note ih = Suc.IH [OF k(1) this, of w1]
        show ?thesis
        proof (cases "rcv_sweep fuel alive timers clock ctime ?q w1")
          case (Inl e)
          then show ?thesis using ih unfolding eq by (auto simp: as)
        next
          case (Inr r)
          then show ?thesis using ih swept_alive unfolding eq by (cases r) (simp add: as)
        qed
      qed
    qed
  qed
qed

subsection \<open>Stored packets are a queue\<close>

lemma storePkt_bounded:
  assumes "\<And>i ps. rq_buffer q i = Some ps \<Longrightarrow> ps \<noteq> [] \<and> length ps \<le> 17"
  shows "rq_buffer (snd (storePkt sid pkt q)) i = Some ps \<Longrightarrow> ps \<noteq> [] \<and> length ps \<le> 17"
  using assms [of i ps] assms [of sid]
  by (auto simp: storePkt_def split: option.splits if_splits)

lemma storePkt_drops:
  assumes "rq_buffer q sid = Some ps" "17 \<le> length ps"
  shows "storePkt sid pkt q = (False, q)"
  using assms by (simp add: storePkt_def)

lemma setLength_keeps: "pk_header (setLength n x) = pk_header x" "pk_data (setLength n x) = pk_data x"
  by (simp_all add: setLength_def)

lemma recvfrom_first:
  assumes "rq_buffer q sid = Some (new # ps)" "getLength new \<le> getLength p"
    "pk_data new = Some src" "pk_data p = Some dst" "nat (getLength new) \<le> length src" "nat (getLength new) \<le> length dst"
    "0 \<le> getLength new"
  shows "\<exists>p'. rq_recvfrom waited sid p q =
      Inr (getLength new, p', q\<lparr> rq_buffer := (rq_buffer q)(sid := (if ps = [] then None else Some ps)) \<rparr>)
    \<and> pk_header p' = pk_header new \<and> getLength p' = getLength new
    \<and> take (nat (getLength new)) (the (pk_data p')) = take (nat (getLength new)) src"
proof -
  have "getLength new \<le> 2147483647" using i32_in_range [of "pk_len new"] by (simp add: getLength_def i32_range_def)
  then have "i32 (u64 (getLength new)) = getLength new" using assms(7) by simp
  then have l: "getLength (setLength (getLength new) x) = getLength new" for x
    unfolding setLength_def getLength_def [of "x\<lparr> pk_len := u64 (getLength new) \<rparr>"] by simp
  show ?thesis
    using assms l by (simp add: rq_recvfrom_def copy_packet_def Let_def setLength_keeps)
qed

subsection \<open>Properties\<close>


definition sample_two :: rcv_queue where
  "sample_two =
     (let r = \<lambda>ts p n. \<lparr> rn_ts = ts, rn_prev = p, rn_next = n, rn_on = True \<rparr> in
      \<lparr> rq_units = \<lparr> uq_entries = [], uq_curr = 0, uq_avail = 0, uq_size = 0, uq_count = 0, uq_mss = 0, uq_version = 2 \<rparr>,
        rq_hash = [[(2, 2)], [(1, 1)]],
        rq_list = \<lparr> rl_head = Some 1, rl_tail = Some 2,
                    rl_node = (\<lambda>_. rnode_new)(1 := r 10 None (Some 2), 2 := r 20 (Some 1) None) \<rparr>,
        rq_rendezvous = [], rq_payload = 1448, rq_listener = None, rq_new = [], rq_buffer = (\<lambda>_. None) \<rparr>)"

lemma sample_two_inv: "rq_inv sample_two [1, 2]"
proof -
  have "hash_stack i [[(2, 2)], [(1, 1)]] = (if i \<in> {1, 2} then [i] else [])" for i
  proof -
    have "i mod 2 = 0 \<or> i mod 2 = 1" by presburger
    then show ?thesis by (auto simp: hash_stack_def)
  qed
  then show ?thesis by (auto simp: rq_inv_def rlist_is_def sample_two_def Let_def)
qed


lemma rdv_retrieve_found:
  "rdv_retrieve addr sid q = Some (i, u) \<Longrightarrow>
     \<exists>r\<in>set q. ipcmp addr (crl_addr r) (crl_version r) \<and> (sid = 0 \<or> sid = crl_id r) \<and> i = crl_id r \<and> u = crl_udt r"
  by (induction addr sid q rule: rdv_retrieve.induct) (auto split: if_splits)

lemma hash_lookup_inv:
  assumes "rq_inv q xs" "0 \<le> n"
  shows "hash_lookup n (rq_hash q) = Inr (if n \<in> set xs then Some n else None)"
  using assms hash_lookup_stack [of "rq_hash q" n] by (simp add: rq_inv_def)



end
