(* ===== verification/Epoll.thy ===== *)
theory Epoll
  imports Pcc_Prelude
begin

text \<open>Event notification (class CEPoll, core/epoll.h and core/epoll.cpp, and CUDT::addEPoll and
  removeEPoll of core/core.cpp).  A poll object keeps the sockets it monitors and the sockets that
  are ready.  The system's own epoll calls (the branch for Linux) are given by their results.

  The lemmas show that only monitored sockets are ever reported and when a wait ends; the last
  part shows what CUDT::removeEPoll does to the other poll objects of a socket.\<close>

subsection \<open>Poll objects\<close>

record poll_desc =
  pd_local :: int
  pd_out :: "int set"
  pd_in :: "int set"
  pd_locals :: "int set"
  pd_writes :: "int set"
  pd_reads :: "int set"

record epoll =
  ep_seed :: int
  ep_polls :: "int \<Rightarrow> poll_desc option"

definition epoll_new :: epoll where
  "epoll_new = \<lparr> ep_seed = 0, ep_polls = (\<lambda>_. None) \<rparr>"

definition poll_new :: "int \<Rightarrow> poll_desc" where
  "poll_new localid = \<lparr> pd_local = localid, pd_out = {}, pd_in = {}, pd_locals = {}, pd_writes = {}, pd_reads = {} \<rparr>"

text \<open>\<open>localid\<close> is the result of epoll\_create.\<close>

definition epoll_create :: "int \<Rightarrow> epoll \<Rightarrow> (int \<times> epoll) outcome" where
  "epoll_create localid ep =
     (if localid < 0 then Inl (Udt_Error (-1) 0)
      else let seed = (if ep_seed ep + 1 \<ge> 0x7FFFFFFF then 0 else ep_seed ep + 1)
           in Inr (seed, \<lparr> ep_seed = seed, ep_polls = (ep_polls ep)(seed \<mapsto> poll_new localid) \<rparr>))"

definition with_poll :: "int \<Rightarrow> (poll_desc \<Rightarrow> poll_desc outcome) \<Rightarrow> epoll \<Rightarrow> epoll outcome" where
  "with_poll eid f ep =
     (case ep_polls ep eid of None \<Rightarrow> Inl (Udt_Error 5 13)
      | Some p \<Rightarrow> map_outcome (\<lambda>p1. ep\<lparr> ep_polls := (ep_polls ep)(eid \<mapsto> p1) \<rparr>) (f p))"

definition UDT_EPOLL_IN :: "32 word" where "UDT_EPOLL_IN = 1"
definition UDT_EPOLL_OUT :: "32 word" where "UDT_EPOLL_OUT = 4"
definition UDT_EPOLL_ERR :: "32 word" where "UDT_EPOLL_ERR = 8"

definition wants :: "32 word option \<Rightarrow> 32 word \<Rightarrow> bool" where
  "wants events flag = (case events of None \<Rightarrow> True | Some e \<Rightarrow> and e flag \<noteq> 0)"

definition add_usock :: "int \<Rightarrow> int \<Rightarrow> 32 word option \<Rightarrow> epoll \<Rightarrow> epoll outcome" where
  "add_usock eid u events =
     with_poll eid (\<lambda>p. Inr (p\<lparr> pd_in := (if wants events UDT_EPOLL_IN then insert u (pd_in p) else pd_in p),
                                pd_out := (if wants events UDT_EPOLL_OUT then insert u (pd_out p) else pd_out p) \<rparr>))"

text \<open>\<open>ctl_ok\<close> says that epoll\_ctl succeeds for the events it is given.\<close>

definition add_ssock :: "(bool \<times> bool \<times> bool \<Rightarrow> bool) \<Rightarrow> int \<Rightarrow> int \<Rightarrow> 32 word option \<Rightarrow> epoll \<Rightarrow> epoll outcome" where
  "add_ssock ctl_ok eid s events =
     with_poll eid (\<lambda>p. guard_outcome (Udt_Error 0 0)
       (ctl_ok (wants events UDT_EPOLL_IN, wants events UDT_EPOLL_OUT, wants events UDT_EPOLL_ERR))
       (Inr (p\<lparr> pd_locals := insert s (pd_locals p) \<rparr>)))"

definition remove_usock :: "int \<Rightarrow> int \<Rightarrow> epoll \<Rightarrow> epoll outcome" where
  "remove_usock eid u =
     with_poll eid (\<lambda>p. Inr (p\<lparr> pd_in := pd_in p - {u}, pd_out := pd_out p - {u},
                                pd_reads := pd_reads p - {u}, pd_writes := pd_writes p - {u} \<rparr>))"

definition remove_ssock :: "bool \<Rightarrow> int \<Rightarrow> int \<Rightarrow> epoll \<Rightarrow> epoll outcome" where
  "remove_ssock ctl_ok eid s =
     with_poll eid (\<lambda>p. guard_outcome (Udt_Error 0 0) ctl_ok (Inr (p\<lparr> pd_locals := pd_locals p - {s} \<rparr>)))"

definition epoll_release :: "int \<Rightarrow> epoll \<Rightarrow> epoll outcome" where
  "epoll_release eid ep =
     (case ep_polls ep eid of None \<Rightarrow> Inl (Udt_Error 5 13)
      | Some p \<Rightarrow> Inr (ep\<lparr> ep_polls := (ep_polls ep)(eid := None) \<rparr>))"

subsection \<open>Events of a socket\<close>

text \<open>An event of the socket \<open>u\<close> is entered in every poll object that is named in its set; the names
  of objects that have been released are removed from the set.\<close>

definition for_polls :: "(poll_desc \<Rightarrow> poll_desc) \<Rightarrow> int set \<times> epoll \<Rightarrow> int set \<times> epoll" where
  "for_polls f st =
     (case st of (eids, ep) \<Rightarrow>
        ({e \<in> eids. ep_polls ep e \<noteq> None},
         ep\<lparr> ep_polls := (\<lambda>e. if e \<in> eids then map_option f (ep_polls ep e) else ep_polls ep e) \<rparr>))"

definition enable_write :: "int \<Rightarrow> int set \<times> epoll \<Rightarrow> int set \<times> epoll" where
  "enable_write u = for_polls (\<lambda>p. if u \<in> pd_out p then p\<lparr> pd_writes := insert u (pd_writes p) \<rparr> else p)"

definition enable_read :: "int \<Rightarrow> int set \<times> epoll \<Rightarrow> int set \<times> epoll" where
  "enable_read u = for_polls (\<lambda>p. if u \<in> pd_in p then p\<lparr> pd_reads := insert u (pd_reads p) \<rparr> else p)"

definition disable_write :: "int \<Rightarrow> int set \<times> epoll \<Rightarrow> int set \<times> epoll" where
  "disable_write u = for_polls (\<lambda>p. p\<lparr> pd_writes := pd_writes p - {u} \<rparr>)"

definition disable_read :: "int \<Rightarrow> int set \<times> epoll \<Rightarrow> int set \<times> epoll" where
  "disable_read u = for_polls (\<lambda>p. p\<lparr> pd_reads := pd_reads p - {u} \<rparr>)"

text \<open>addEPoll and removeEPoll of a socket; \<open>up\<close> says that it is connected and neither broken nor
  closing, \<open>readable\<close> and \<open>writable\<close> that its buffers have data and room.\<close>

definition add_epoll :: "bool \<Rightarrow> bool \<Rightarrow> bool \<Rightarrow> int \<Rightarrow> int \<Rightarrow> int set \<times> epoll \<Rightarrow> int set \<times> epoll" where
  "add_epoll up readable writable eid u st =
     (let st1 = (insert eid (fst st), snd st) in
      if \<not> up then st1
      else let st2 = (if readable then enable_read u st1 else st1)
           in if writable then enable_write u st2 else st2)"

definition remove_epoll :: "int \<Rightarrow> int \<Rightarrow> int set \<times> epoll \<Rightarrow> int set \<times> epoll" where
  "remove_epoll eid u st = disable_write u (disable_read u (fst st - {eid}, snd st))"

subsection \<open>Waiting\<close>

text \<open>What wait is asked for, and what it has found: sockets to read and write, system sockets to
  read and write, and the number of events.\<close>

record wait_request =
  wr_read :: bool
  wr_write :: bool
  wr_lread :: bool
  wr_lwrite :: bool

record wait_result =
  wt_read :: "int set"
  wt_write :: "int set"
  wt_lread :: "int set"
  wt_lwrite :: "int set"
  wt_total :: nat

definition wait_nothing :: wait_result where
  "wait_nothing = \<lparr> wt_read = {}, wt_write = {}, wt_lread = {}, wt_lwrite = {}, wt_total = 0 \<rparr>"

text \<open>The events of the system's epoll\_wait: descriptor, readable, writable.\<close>

definition local_events :: "wait_request \<Rightarrow> (int \<times> bool \<times> bool) list \<Rightarrow> wait_result \<Rightarrow> wait_result" where
  "local_events rq evs r =
     (if wr_lread rq \<or> wr_lwrite rq
      then r\<lparr> wt_lread := (if wr_lread rq then {s. \<exists>b. (s, True, b) \<in> set evs} else {}),
              wt_lwrite := (if wr_lwrite rq then {s. \<exists>b. (s, b, True) \<in> set evs} else {}),
              wt_total := wt_total r
                + (if wr_lread rq then length (filter (\<lambda>e. fst (snd e)) evs) else 0)
                + (if wr_lwrite rq then length (filter (\<lambda>e. snd (snd e)) evs) else 0) \<rparr>
      else r)"

definition look_at :: "int \<Rightarrow> wait_request \<Rightarrow> int \<Rightarrow> (int \<times> bool \<times> bool) list \<Rightarrow> epoll \<Rightarrow> wait_result outcome" where
  "look_at eid rq timeout evs ep =
     (case ep_polls ep eid of None \<Rightarrow> Inl (Udt_Error 5 13)
      | Some p \<Rightarrow>
          if pd_in p = {} \<and> pd_out p = {} \<and> pd_locals p = {} \<and> timeout < 0 then Inl (Udt_Error 5 3)
          else Inr (local_events rq evs
                 \<lparr> wt_read = (if wr_read rq then pd_reads p else {}),
                   wt_write = (if wr_write rq then pd_writes p else {}), wt_lread = {}, wt_lwrite = {},
                   wt_total = (if wr_read rq then card (pd_reads p) else 0)
                     + (if wr_write rq then card (pd_writes p) else 0) \<rparr>))"

text \<open>The loop: in round \<open>k\<close> the poll objects are \<open>state k\<close>, the system's events \<open>evs k\<close> and the
  clock afterwards \<open>clock k\<close>.  The rounds are limited by the first argument.\<close>

primrec wait_rounds ::
  "nat \<Rightarrow> nat \<Rightarrow> int \<Rightarrow> wait_request \<Rightarrow> int \<Rightarrow> int \<Rightarrow> (nat \<Rightarrow> epoll) \<Rightarrow> (nat \<Rightarrow> (int \<times> bool \<times> bool) list)
     \<Rightarrow> (nat \<Rightarrow> int) \<Rightarrow> wait_result outcome" where
  "wait_rounds 0 k eid rq timeout entertime state evs clock = Inl Diverges"
| "wait_rounds (Suc n) k eid rq timeout entertime state evs clock =
     bind_outcome (look_at eid rq timeout (evs k) (state k)) (\<lambda>r.
       if wt_total r > 0 then Inr r
       else if timeout \<ge> 0 \<and> i64 (clock k - entertime) \<ge> i64 (timeout * 1000) then Inr wait_nothing
       else wait_rounds n (Suc k) eid rq timeout entertime state evs clock)"

definition epoll_wait ::
  "nat \<Rightarrow> int \<Rightarrow> wait_request \<Rightarrow> int \<Rightarrow> int \<Rightarrow> (nat \<Rightarrow> epoll) \<Rightarrow> (nat \<Rightarrow> (int \<times> bool \<times> bool) list)
     \<Rightarrow> (nat \<Rightarrow> int) \<Rightarrow> wait_result outcome" where
  "epoll_wait rounds eid rq timeout entertime state evs clock =
     (if \<not> wr_read rq \<and> \<not> wr_write rq \<and> \<not> wr_lread rq \<and> wr_lwrite rq \<and> timeout < 0
      then Inl (Udt_Error 5 3)
      else wait_rounds rounds 0 eid rq timeout entertime state evs clock)"

subsection \<open>Only monitored sockets are ready\<close>

definition poll_ok :: "poll_desc \<Rightarrow> bool" where
  "poll_ok p \<longleftrightarrow> finite (pd_reads p) \<and> finite (pd_writes p) \<and> pd_reads p \<subseteq> pd_in p \<and> pd_writes p \<subseteq> pd_out p"

definition epoll_ok :: "epoll \<Rightarrow> bool" where
  "epoll_ok ep \<longleftrightarrow> (\<forall>e p. ep_polls ep e = Some p \<longrightarrow> poll_ok p)"

inductive epoll_run :: "epoll \<Rightarrow> bool" where
  start: "epoll_run epoll_new"
| create: "epoll_run ep \<Longrightarrow> epoll_create localid ep = Inr (eid, ep') \<Longrightarrow> epoll_run ep'"
| add_u: "epoll_run ep \<Longrightarrow> add_usock eid u events ep = Inr ep' \<Longrightarrow> epoll_run ep'"
| add_s: "epoll_run ep \<Longrightarrow> add_ssock ctl_ok eid s events ep = Inr ep' \<Longrightarrow> epoll_run ep'"
| remove_u: "epoll_run ep \<Longrightarrow> remove_usock eid u ep = Inr ep' \<Longrightarrow> epoll_run ep'"
| remove_s: "epoll_run ep \<Longrightarrow> remove_ssock ok eid s ep = Inr ep' \<Longrightarrow> epoll_run ep'"
| release: "epoll_run ep \<Longrightarrow> epoll_release eid ep = Inr ep' \<Longrightarrow> epoll_run ep'"
| write_on: "epoll_run ep \<Longrightarrow> enable_write u (eids, ep) = (eids', ep') \<Longrightarrow> epoll_run ep'"
| read_on: "epoll_run ep \<Longrightarrow> enable_read u (eids, ep) = (eids', ep') \<Longrightarrow> epoll_run ep'"
| write_off: "epoll_run ep \<Longrightarrow> disable_write u (eids, ep) = (eids', ep') \<Longrightarrow> epoll_run ep'"
| read_off: "epoll_run ep \<Longrightarrow> disable_read u (eids, ep) = (eids', ep') \<Longrightarrow> epoll_run ep'"

lemma with_poll_ok [step_inv]:
  assumes "epoll_ok ep" "with_poll eid f ep = Inr ep'" "\<And>p p'. poll_ok p \<Longrightarrow> f p = Inr p' \<Longrightarrow> poll_ok p'"
  shows "epoll_ok ep'"
  using assms by (fastforce simp: with_poll_def epoll_ok_def split: option.splits if_splits)

lemma for_polls_ok [step_inv]:
  assumes "epoll_ok ep" "for_polls f (eids, ep) = (eids', ep')" "\<And>p. poll_ok p \<Longrightarrow> poll_ok (f p)"
  shows "epoll_ok ep'"
  using assms by (auto simp: for_polls_def epoll_ok_def split: if_splits)

lemma poll_new_ok: "poll_ok (poll_new localid)"
  by (simp add: poll_ok_def poll_new_def)

lemma epoll_run_ok: "epoll_run ep \<Longrightarrow> epoll_ok ep"
proof (induction rule: epoll_run.induct)
  case start
  then show ?case by (simp add: epoll_ok_def epoll_new_def)
next
  case (create ep localid eid ep')
  then show ?case
    by (auto simp: epoll_create_def epoll_ok_def poll_new_ok Let_def split: if_splits)
next
  case (release ep eid ep')
  then show ?case by (auto simp: epoll_release_def epoll_ok_def split: option.splits if_splits)
next
  case (add_u ep eid u events ep')
  show ?case by (rule with_poll_ok [OF add_u(3) add_u(2) [unfolded add_usock_def]]) (auto simp: poll_ok_def)
next
  case (add_s ep ctl_ok eid s events ep')
  show ?case by (rule with_poll_ok [OF add_s(3) add_s(2) [unfolded add_ssock_def]]) (auto simp: poll_ok_def guard_outcome_Inr_iff)
next
  case (remove_u ep eid u ep')
  show ?case by (rule with_poll_ok [OF remove_u(3) remove_u(2) [unfolded remove_usock_def]]) (auto simp: poll_ok_def)
next
  case (remove_s ep ok eid s ep')
  show ?case by (rule with_poll_ok [OF remove_s(3) remove_s(2) [unfolded remove_ssock_def]]) (auto simp: poll_ok_def guard_outcome_Inr_iff)
next
  case (write_on ep u eids eids' ep')
  show ?case by (rule for_polls_ok [OF write_on(3) write_on(2) [unfolded enable_write_def]]) (auto simp: poll_ok_def)
next
  case (read_on ep u eids eids' ep')
  show ?case by (rule for_polls_ok [OF read_on(3) read_on(2) [unfolded enable_read_def]]) (auto simp: poll_ok_def)
next
  case (write_off ep u eids eids' ep')
  show ?case by (rule for_polls_ok [OF write_off(3) write_off(2) [unfolded disable_write_def]]) (auto simp: poll_ok_def)
next
  case (read_off ep u eids eids' ep')
  show ?case by (rule for_polls_ok [OF read_off(3) read_off(2) [unfolded disable_read_def]]) (auto simp: poll_ok_def)
qed

subsection \<open>When a wait ends\<close>

definition reports :: "int \<Rightarrow> wait_request \<Rightarrow> wait_result \<Rightarrow> epoll \<Rightarrow> bool" where
  "reports eid rq r ep \<longleftrightarrow> (\<exists>p. ep_polls ep eid = Some p
     \<and> wt_read r = (if wr_read rq then pd_reads p else {}) \<and> wt_read r \<subseteq> pd_in p
     \<and> wt_write r = (if wr_write rq then pd_writes p else {}) \<and> wt_write r \<subseteq> pd_out p)"

lemma look_at_cases:
  assumes "epoll_ok ep"
  shows "case look_at eid rq timeout evs ep of
      Inl e \<Rightarrow> (e = Udt_Error 5 13 \<and> ep_polls ep eid = None) \<or> (e = Udt_Error 5 3 \<and> timeout < 0)
    | Inr r \<Rightarrow> reports eid rq r ep \<and> (wt_total r = 0 \<longrightarrow> wt_read r = {} \<and> wt_write r = {})"
proof (cases "ep_polls ep eid")
  case (Some p)
  then have "poll_ok p" using assms by (simp add: epoll_ok_def)
  then show ?thesis using Some
    by (auto simp: look_at_def reports_def local_events_def poll_ok_def)
qed (simp add: look_at_def)

lemma wait_rounds_cases:
  assumes "\<And>j. epoll_ok (state j)"
  shows "case wait_rounds n k eid rq timeout entertime state evs clock of
      Inl e \<Rightarrow> (e = Udt_Error 5 13 \<and> (\<exists>j\<in>{k..<k + n}. ep_polls (state j) eid = None))
        \<or> (e = Udt_Error 5 3 \<and> timeout < 0)
        \<or> (e = Diverges \<and> (\<forall>j\<in>{k..<k + n}. \<exists>r. look_at eid rq timeout (evs j) (state j) = Inr r \<and> wt_total r = 0
             \<and> \<not> (timeout \<ge> 0 \<and> i64 (clock j - entertime) \<ge> i64 (timeout * 1000))))
    | Inr r \<Rightarrow> \<exists>j\<in>{k..<k + n}.
        (0 < wt_total r \<and> reports eid rq r (state j))
        \<or> (r = wait_nothing \<and> timeout \<ge> 0 \<and> i64 (clock j - entertime) \<ge> i64 (timeout * 1000))"
proof (induction n arbitrary: k)
  case (Suc n)
  have e: "{k..<k + Suc n} = insert k {Suc k..<Suc k + n}" by auto
  note look = look_at_cases [OF assms, where j1 = k and eid = eid and rq = rq and timeout = timeout and evs = "evs k"]
  show ?case
  proof (cases "look_at eid rq timeout (evs k) (state k)")
    case (Inl er)
    then show ?thesis using look by auto
  next
    case (Inr r)
    show ?thesis
    proof (cases "wt_total r > 0 \<or> (timeout \<ge> 0 \<and> i64 (clock k - entertime) \<ge> i64 (timeout * 1000))")
      case True
      then show ?thesis using Inr look by (auto simp: e)
    next
      case False
      then have "wait_rounds (Suc n) k eid rq timeout entertime state evs clock
          = wait_rounds n (Suc k) eid rq timeout entertime state evs clock" using Inr by auto
      then show ?thesis using Suc.IH [of "Suc k"] Inr False unfolding e
        by (cases "wait_rounds n (Suc k) eid rq timeout entertime state evs clock") auto
    qed
  qed
qed simp

text \<open>C38: what epoll\_wait returns.  Whatever the other threads do between the rounds, a result with
  events reports the ready sockets of one moment, all of them monitored; a result without events
  comes only after the timeout; and the wait ends in a round in which an event is there or the
  timeout is over.\<close>

theorem epoll_wait_reports:
  assumes "\<And>j. epoll_run (state j)"
  shows "case epoll_wait rounds eid rq timeout entertime state evs clock of
      Inr r \<Rightarrow> (\<exists>j<rounds. 0 < wt_total r \<and> reports eid rq r (state j))
        \<or> (r = wait_nothing \<and> timeout \<ge> 0 \<and> (\<exists>j<rounds. i64 (clock j - entertime) \<ge> i64 (timeout * 1000)))
    | Inl e \<Rightarrow> (e = Udt_Error 5 13 \<and> (\<exists>j<rounds. ep_polls (state j) eid = None))
        \<or> (e = Udt_Error 5 3 \<and> timeout < 0)
        \<or> (e = Diverges \<and> (\<forall>j<rounds. \<exists>p. ep_polls (state j) eid = Some p
             \<and> (wr_read rq \<longrightarrow> pd_reads p = {}) \<and> (wr_write rq \<longrightarrow> pd_writes p = {})
             \<and> (timeout < 0 \<or> i64 (clock j - entertime) < i64 (timeout * 1000))))"
proof -
  have ok: "epoll_ok (state j)" for j by (rule epoll_run_ok [OF assms])
  have empty: "\<exists>p. ep_polls (state j) eid = Some p \<and> (wr_read rq \<longrightarrow> pd_reads p = {}) \<and> (wr_write rq \<longrightarrow> pd_writes p = {})"
    if "look_at eid rq timeout (evs j) (state j) = Inr r" "wt_total r = 0" for j r
    using look_at_cases [OF ok, where j1 = j and eid = eid and rq = rq and timeout = timeout and evs = "evs j"] that by (fastforce simp: reports_def)
  note w = wait_rounds_cases [where state = state, OF ok, where n = rounds and k = 0 and eid = eid and rq = rq and timeout = timeout and entertime = entertime and evs = evs and clock = clock]
  show ?thesis
  proof (cases "\<not> wr_read rq \<and> \<not> wr_write rq \<and> \<not> wr_lread rq \<and> wr_lwrite rq \<and> timeout < 0")
    case True
    then show ?thesis by (simp add: epoll_wait_def)
  next
    case False
    then have eq: "epoll_wait rounds eid rq timeout entertime state evs clock
        = wait_rounds rounds 0 eid rq timeout entertime state evs clock" by (auto simp: epoll_wait_def)
    have "\<exists>p. ep_polls (state j) eid = Some p \<and> (wr_read rq \<longrightarrow> pd_reads p = {}) \<and> (wr_write rq \<longrightarrow> pd_writes p = {})
        \<and> (timeout < 0 \<or> i64 (clock j - entertime) < i64 (timeout * 1000))"
      if "\<exists>r. look_at eid rq timeout (evs j) (state j) = Inr r \<and> wt_total r = 0
             \<and> \<not> (timeout \<ge> 0 \<and> i64 (clock j - entertime) \<ge> i64 (timeout * 1000))" for j
      using empty that by (meson not_le)
    then show ?thesis using w unfolding eq
      by (cases "wait_rounds rounds 0 eid rq timeout entertime state evs clock") auto
  qed
qed

definition sample_poll :: epoll where
  "sample_poll = \<lparr> ep_seed = 1, ep_polls = [1 \<mapsto>
     \<lparr> pd_local = 3, pd_out = {7}, pd_in = {7}, pd_locals = {}, pd_writes = {}, pd_reads = {7} \<rparr>] \<rparr>"

lemma sample_poll_run: "epoll_run sample_poll"
proof -
  let ?e1 = "\<lparr> ep_seed = 1, ep_polls = [1 \<mapsto> poll_new 3] \<rparr>"
  let ?e2 = "\<lparr> ep_seed = 1, ep_polls = [1 \<mapsto> (poll_new 3)\<lparr> pd_in := {7}, pd_out := {7} \<rparr>] \<rparr>"
  have "epoll_run ?e1"
    by (rule epoll_run.create [OF epoll_run.start, of 3 1]) (simp add: epoll_create_def epoll_new_def Let_def)
  then have "epoll_run ?e2"
    by (rule epoll_run.add_u [where eid = 1 and u = 7 and events = None])
      (simp add: add_usock_def with_poll_def wants_def poll_new_def)
  then show ?thesis
    by (rule epoll_run.read_on [where u = 7 and eids = "{1}" and eids' = "{1}"])
      (auto simp: enable_read_def for_polls_def sample_poll_def poll_new_def fun_eq_iff)
qed

theorem epoll_wait_reports_witness:
  "\<exists>r. epoll_wait 1 1 \<lparr> wr_read = True, wr_write = True, wr_lread = False, wr_lwrite = False \<rparr> 5 100
     (\<lambda>_. sample_poll) (\<lambda>_. []) (\<lambda>_. 200) = Inr r \<and> wt_read r = {7} \<and> wt_write r = {}"
proof -
  let ?rq = "\<lparr> wr_read = True, wr_write = True, wr_lread = False, wr_lwrite = False \<rparr>"
  have "pd_reads (the (ep_polls sample_poll 1)) = {7}" "ep_polls sample_poll 1 \<noteq> None" by (simp_all add: sample_poll_def)
  then show ?thesis
    using epoll_wait_reports [where state = "\<lambda>_. sample_poll" and rounds = 1 and eid = 1 and rq = ?rq
      and timeout = 5 and entertime = 100 and evs = "\<lambda>_. []" and clock = "\<lambda>_. 200", OF sample_poll_run]
    by (cases "epoll_wait 1 1 ?rq 5 100 (\<lambda>_. sample_poll) (\<lambda>_. []) (\<lambda>_. 200)")
      (auto simp: reports_def sample_poll_def)
qed

text \<open>removeEPoll first removes the poll object from the set of the socket and then clears the events
  in the set that is left: the object it is taken out of keeps them, all others lose them.\<close>

lemma remove_epoll_clears_others:
  assumes "remove_epoll eid u (eids, ep) = (eids', ep')" "ep_polls ep e = Some p"
  shows "ep_polls ep' e =
    Some (if e \<in> eids \<and> e \<noteq> eid then p\<lparr> pd_reads := pd_reads p - {u}, pd_writes := pd_writes p - {u} \<rparr> else p)"
  using assms by (auto simp: remove_epoll_def disable_read_def disable_write_def for_polls_def)

lemma remove_epoll_loses_event:
  "case remove_epoll 2 7 ({1, 2}, sample_poll) of (_, ep) \<Rightarrow> map_option pd_reads (ep_polls ep 1) = Some {}"
  by (simp add: remove_epoll_def disable_read_def disable_write_def for_polls_def sample_poll_def)

end
