(* ===== verification/Info_Cache.thy ===== *)
theory Info_Cache
  imports Ip_Address Ieee_Float
begin

text \<open>The cache of path information (class CCache of core/cache.h, instantiated with CInfoBlock of
  core/cache.cpp): a list of items, the most recent first, and a hash table of lists of iterators
  into it.  An iterator is a number that stays with its list node; looking through an iterator
  whose node has been erased is the failure \<open>Null_Deref\<close>.

  The lemmas show that the cache is a map from IPv4 addresses to items as long as it does not
  overflow, and what the overflow does to the hash table.\<close>

subsection \<open>Items\<close>

record info_block =
  ib_ip :: "32 word list"
  ib_version :: int
  ib_ts :: int
  ib_rtt :: int
  ib_bandwidth :: int
  ib_loss :: int
  ib_reorder :: int
  ib_interval :: fp
  ib_cwnd :: fp

text \<open>Assignment copies three of the four words of the address.\<close>

definition ib_assign :: "info_block \<Rightarrow> info_block \<Rightarrow> info_block" where
  "ib_assign dst src = src\<lparr> ib_ip := (ib_ip dst)[0 := ib_ip src ! 0, 1 := ib_ip src ! 1, 2 := ib_ip src ! 2] \<rparr>"

definition ib_equal :: "info_block \<Rightarrow> info_block \<Rightarrow> bool" where
  "ib_equal a b =
     (if ib_version a \<noteq> ib_version b then False
      else if ib_version a = AF_INET then ib_ip a ! 0 = ib_ip b ! 0
      else list_all (\<lambda>i. ib_ip a ! i = ib_ip b ! i) [0..<4])"

text \<open>\<open>junk\<close> is what the new memory holds in the word that is not copied.\<close>

definition ib_clone :: "32 word \<Rightarrow> info_block \<Rightarrow> info_block" where
  "ib_clone junk b = b\<lparr> ib_ip := [ib_ip b ! 0, ib_ip b ! 1, ib_ip b ! 2, junk] \<rparr>"

definition getKey :: "info_block \<Rightarrow> int" where
  "getKey b =
     (if ib_version b = AF_INET then sint (ib_ip b ! 0)
      else sint (ib_ip b ! 0 + ib_ip b ! 1 + ib_ip b ! 2 + ib_ip b ! 3))"

definition ib_convert :: "sockaddr \<Rightarrow> int \<Rightarrow> 32 word list" where
  "ib_convert addr ver = (if ver = AF_INET then [sa_addr addr, 0, 0, 0] else words_of_bytes (sa6_addr addr))"

subsection \<open>The cache\<close>

record cache =
  ca_list :: "(nat \<times> info_block) list"
  ca_hash :: "nat list list"
  ca_max :: int
  ca_hash_size :: int
  ca_curr :: int
  ca_next :: nat

definition cache_new :: "nat \<Rightarrow> cache" where
  "cache_new n = \<lparr> ca_list = [], ca_hash = replicate (n * 3) [], ca_max = int n, ca_hash_size = int n * 3,
     ca_curr = 0, ca_next = 0 \<rparr>"

definition slot_of :: "cache \<Rightarrow> int \<Rightarrow> nat" where
  "slot_of c key = nat (if key \<ge> ca_max c then cmod key (ca_hash_size c) else key)"

text \<open>The search through a list of iterators.\<close>

fun find_item :: "cache \<Rightarrow> info_block \<Rightarrow> nat list \<Rightarrow> (nat \<times> info_block) option outcome" where
  "find_item c d [] = Inr None"
| "find_item c d (i # is) =
     (case map_of (ca_list c) i of None \<Rightarrow> Inl Null_Deref
      | Some x \<Rightarrow> if ib_equal d x then Inr (Some (i, x)) else find_item c d is)"

definition cache_lookup :: "info_block \<Rightarrow> cache \<Rightarrow> (int \<times> info_block) outcome" where
  "cache_lookup d c =
     (if getKey d < 0 then Inr (-1, d)
      else map_outcome (\<lambda>found. case found of None \<Rightarrow> (-1, d) | Some (i, x) \<Rightarrow> (0, ib_assign d x))
             (find_item c d (ca_hash c ! slot_of c (getKey d))))"

text \<open>The overflow: \<open>item_list\<close> is a reference to the list of the new item, so the assignment
  replaces that list by the one of the oldest item, from which the oldest item is then erased.\<close>

definition drop_oldest :: "nat \<Rightarrow> cache \<Rightarrow> cache outcome" where
  "drop_oldest k c =
     (let last_data = snd (last (ca_list c));
          c1 = c\<lparr> ca_hash := (ca_hash c)[k := ca_hash c ! nat (cmod (getKey last_data) (ca_hash_size c))] \<rparr>
      in map_outcome (\<lambda>found. c1\<lparr> ca_hash := (ca_hash c1)[k :=
               (case found of None \<Rightarrow> ca_hash c1 ! k | Some (i, x) \<Rightarrow> remove1 i (ca_hash c1 ! k))],
             ca_list := butlast (ca_list c1), ca_curr := ca_curr c1 - 1 \<rparr>)
           (find_item c1 last_data (ca_hash c1 ! k)))"

definition cache_update :: "32 word \<Rightarrow> info_block \<Rightarrow> cache \<Rightarrow> (int \<times> cache) outcome" where
  "cache_update junk d c =
     (if getKey d < 0 then Inr (-1, c)
      else let k = slot_of c (getKey d); j = ca_next c in
        bind_outcome (find_item c d (ca_hash c ! k)) (\<lambda>found. case found of
          Some (i, x) \<Rightarrow>
            Inr (0, c\<lparr> ca_list := (j, ib_assign x d) # filter (\<lambda>e. fst e \<noteq> i) (ca_list c),
                      ca_hash := (ca_hash c)[k := j # remove1 i (ca_hash c ! k)], ca_next := Suc j \<rparr>)
        | None \<Rightarrow>
            let c1 = c\<lparr> ca_list := (j, ib_clone junk d) # ca_list c,
                        ca_hash := (ca_hash c)[k := j # ca_hash c ! k], ca_next := Suc j,
                        ca_curr := ca_curr c + 1 \<rparr>
            in map_outcome (Pair 0) (if ca_curr c1 \<ge> ca_max c1 then drop_oldest k c1 else Inr c1)))"

definition setSizeLimit :: "nat \<Rightarrow> cache \<Rightarrow> cache" where
  "setSizeLimit n c = c\<lparr> ca_max := int n, ca_hash_size := int n * 3,
     ca_hash := take (n * 3) (ca_hash c) @ replicate (n * 3 - length (ca_hash c)) [] \<rparr>"

definition cache_clear :: "cache \<Rightarrow> cache" where
  "cache_clear c = c\<lparr> ca_list := [], ca_hash := map (\<lambda>_. []) (ca_hash c), ca_curr := 0 \<rparr>"

subsection \<open>A map of IPv4 addresses\<close>

text \<open>Every item is reachable through the list of its key, and only there; all addresses are IPv4
  addresses the cache accepts.\<close>

definition cache_inv :: "cache \<Rightarrow> bool" where
  "cache_inv c \<longleftrightarrow> 0 < ca_max c \<and> ca_hash_size c = ca_max c * 3 \<and> int (length (ca_hash c)) = ca_hash_size c
     \<and> ca_curr c = int (length (ca_list c)) \<and> distinct (map fst (ca_list c))
     \<and> (\<forall>(i, x)\<in>set (ca_list c). i < ca_next c \<and> ib_version x = AF_INET \<and> length (ib_ip x) = 4 \<and> 0 \<le> getKey x
          \<and> i \<in> set (ca_hash c ! slot_of c (getKey x)))
     \<and> (\<forall>b<length (ca_hash c). distinct (ca_hash c ! b) \<and> (\<forall>i\<in>set (ca_hash c ! b).
          \<exists>x. map_of (ca_list c) i = Some x \<and> slot_of c (getKey x) = b))
     \<and> (\<forall>(i, x)\<in>set (ca_list c). \<forall>(j, y)\<in>set (ca_list c). ib_ip x ! 0 = ib_ip y ! 0 \<longrightarrow> i = j)"

definition cached :: "cache \<Rightarrow> 32 word \<Rightarrow> info_block option" where
  "cached c ip = map_option snd (List.find (\<lambda>(i, x). ib_ip x ! 0 = ip) (ca_list c))"

lemma cache_invD:
  assumes "cache_inv c"
  shows "0 < ca_max c" "ca_hash_size c = ca_max c * 3" "int (length (ca_hash c)) = ca_hash_size c"
    "ca_curr c = int (length (ca_list c))" "distinct (map fst (ca_list c))"
    "(i, x) \<in> set (ca_list c) \<Longrightarrow> i < ca_next c \<and> ib_version x = AF_INET \<and> length (ib_ip x) = 4 \<and> 0 \<le> getKey x
       \<and> i \<in> set (ca_hash c ! slot_of c (getKey x))"
    "b < length (ca_hash c) \<Longrightarrow> distinct (ca_hash c ! b)"
    "b < length (ca_hash c) \<Longrightarrow> i \<in> set (ca_hash c ! b) \<Longrightarrow>
       \<exists>x. map_of (ca_list c) i = Some x \<and> slot_of c (getKey x) = b"
    "(i, x) \<in> set (ca_list c) \<Longrightarrow> (j, y) \<in> set (ca_list c) \<Longrightarrow> ib_ip x ! 0 = ib_ip y ! 0 \<Longrightarrow> i = j"
proof -
  note c = assms [unfolded cache_inv_def]
  show "0 < ca_max c" "ca_hash_size c = ca_max c * 3" "int (length (ca_hash c)) = ca_hash_size c"
    "ca_curr c = int (length (ca_list c))" "distinct (map fst (ca_list c))"
    "b < length (ca_hash c) \<Longrightarrow> distinct (ca_hash c ! b)"
    using c by blast+
  have "\<forall>(i, x)\<in>set (ca_list c). i < ca_next c \<and> ib_version x = AF_INET \<and> length (ib_ip x) = 4 \<and> 0 \<le> getKey x
          \<and> i \<in> set (ca_hash c ! slot_of c (getKey x))" using c by blast
  then show "(i, x) \<in> set (ca_list c) \<Longrightarrow> i < ca_next c \<and> ib_version x = AF_INET \<and> length (ib_ip x) = 4 \<and> 0 \<le> getKey x
       \<and> i \<in> set (ca_hash c ! slot_of c (getKey x))" by fast
  show "b < length (ca_hash c) \<Longrightarrow> i \<in> set (ca_hash c ! b) \<Longrightarrow>
       \<exists>x. map_of (ca_list c) i = Some x \<and> slot_of c (getKey x) = b" using c by blast
  have "\<forall>(i, x)\<in>set (ca_list c). \<forall>(j, y)\<in>set (ca_list c). ib_ip x ! 0 = ib_ip y ! 0 \<longrightarrow> i = j" using c by blast
  then show "(i, x) \<in> set (ca_list c) \<Longrightarrow> (j, y) \<in> set (ca_list c) \<Longrightarrow> ib_ip x ! 0 = ib_ip y ! 0 \<Longrightarrow> i = j" by fast
qed

lemma slot_range:
  assumes "cache_inv c" "0 \<le> key"
  shows "slot_of c key < length (ca_hash c)"
proof -
  have "0 < ca_hash_size c" using cache_invD(1,2) [OF assms(1)] by simp
  then have "0 \<le> key mod ca_hash_size c" "key mod ca_hash_size c < ca_hash_size c" by simp_all
  then show ?thesis using assms(2) cache_invD(1-3) [OF assms(1)] by (auto simp: slot_of_def nat_less_iff)
qed

lemma find_item_valid:
  assumes "\<And>i. i \<in> set is \<Longrightarrow> map_of (ca_list c) i \<noteq> None"
  shows "find_item c d is = Inr (map_option (\<lambda>i. (i, the (map_of (ca_list c) i)))
    (List.find (\<lambda>i. ib_equal d (the (map_of (ca_list c) i))) is))"
  using assms by (induction c d "is" rule: find_item.induct) (auto split: option.splits)

lemma ipv4_equal: "ib_version a = AF_INET \<Longrightarrow> ib_version b = AF_INET \<Longrightarrow> ib_equal a b \<longleftrightarrow> ib_ip a ! 0 = ib_ip b ! 0"
  by (simp add: ib_equal_def)

lemma ipv4_key: "ib_version a = AF_INET \<Longrightarrow> getKey a = sint (ib_ip a ! 0)"
  by (simp add: getKey_def)

lemma cached_iff:
  assumes "cache_inv c"
  shows "cached c ip = Some x \<longleftrightarrow> (\<exists>i. (i, x) \<in> set (ca_list c) \<and> ib_ip x ! 0 = ip)"
proof
  assume "cached c ip = Some x"
  then obtain i where "List.find (\<lambda>(i, x). ib_ip x ! 0 = ip) (ca_list c) = Some (i, x)" by (auto simp: cached_def)
  then show "\<exists>i. (i, x) \<in> set (ca_list c) \<and> ib_ip x ! 0 = ip" by (auto simp: find_Some_iff) (metis nth_mem)
next
  assume "\<exists>i. (i, x) \<in> set (ca_list c) \<and> ib_ip x ! 0 = ip"
  then obtain i where i: "(i, x) \<in> set (ca_list c)" "ib_ip x ! 0 = ip" by blast
  then obtain j y where f: "List.find (\<lambda>(i, x). ib_ip x ! 0 = ip) (ca_list c) = Some (j, y)"
    by (cases "List.find (\<lambda>(i, x). ib_ip x ! 0 = ip) (ca_list c)") (auto simp: find_None_iff)
  then have j: "(j, y) \<in> set (ca_list c)" "ib_ip y ! 0 = ip" by (auto simp: find_Some_iff) (metis nth_mem)
  then have "i = j" using cache_invD(9) [OF assms i(1) j(1)] i(2) by simp
  then have "x = y" using i(1) j(1) cache_invD(5) [OF assms] by (metis map_of_is_SomeI option.inject)
  then show "cached c ip = Some x" using f by (simp add: cached_def)
qed

lemma cached_None: "cached c ip = None \<longleftrightarrow> (\<forall>(i, x)\<in>set (ca_list c). ib_ip x ! 0 \<noteq> ip)"
  by (auto simp: cached_def find_None_iff)

lemma find_in_slot:
  assumes inv: "cache_inv c" and d: "ib_version d = AF_INET" "0 \<le> getKey d"
  defines "k \<equiv> slot_of c (getKey d)"
  shows "cached c (ib_ip d ! 0) = None \<Longrightarrow> find_item c d (ca_hash c ! k) = Inr None"
    "cached c (ib_ip d ! 0) = Some x \<Longrightarrow> \<exists>i. find_item c d (ca_hash c ! k) = Inr (Some (i, x)) \<and> (i, x) \<in> set (ca_list c)"
proof -
  have k: "k < length (ca_hash c)" using slot_range [OF inv d(2)] by (simp add: k_def)
  have dist: "distinct (map fst (ca_list c))" by (rule cache_invD(5) [OF inv])
  let ?P = "\<lambda>i. ib_equal d (the (map_of (ca_list c) i))"
  have entry: "\<exists>y. map_of (ca_list c) i = Some y \<and> (i, y) \<in> set (ca_list c) \<and> ib_version y = AF_INET"
    if i: "i \<in> set (ca_hash c ! k)" for i
  proof -
    obtain y where y: "map_of (ca_list c) i = Some y" using cache_invD(8) [OF inv k i] by blast
    then have "(i, y) \<in> set (ca_list c)" by (rule map_of_SomeD)
    then show ?thesis using y cache_invD(6) [OF inv] by blast
  qed
  have f: "find_item c d (ca_hash c ! k) = Inr (map_option (\<lambda>i. (i, the (map_of (ca_list c) i))) (List.find ?P (ca_hash c ! k)))"
    by (rule find_item_valid) (use entry in fastforce)
  { assume none: "cached c (ib_ip d ! 0) = None"
    have "List.find ?P (ca_hash c ! k) = None"
      unfolding find_None_iff
    proof
      assume "\<exists>i. i \<in> set (ca_hash c ! k) \<and> ?P i"
      then obtain i where i: "i \<in> set (ca_hash c ! k)" "?P i" by blast
      then obtain y where "(i, y) \<in> set (ca_list c)" "ib_ip y ! 0 = ib_ip d ! 0"
        using entry [OF i(1)] d(1) by (auto simp: ipv4_equal)
      then show False using none by (fastforce simp: cached_None)
    qed
    then show "find_item c d (ca_hash c ! k) = Inr None" using f by simp
  next
    assume "cached c (ib_ip d ! 0) = Some x"
    then obtain i where i: "(i, x) \<in> set (ca_list c)" "ib_ip x ! 0 = ib_ip d ! 0" by (auto simp: cached_iff [OF inv])
    have xv: "ib_version x = AF_INET" "map_of (ca_list c) i = Some x"
      using cache_invD(6) [OF inv i(1)] i(1) dist by auto
    then have "getKey x = getKey d" using i(2) d(1) by (simp add: ipv4_key)
    then have ik: "i \<in> set (ca_hash c ! k)" using cache_invD(6) [OF inv i(1)] by (simp add: k_def)
    have "?P i" using xv i(2) d(1) by (simp add: ipv4_equal)
    then obtain j where j: "List.find ?P (ca_hash c ! k) = Some j" "j \<in> set (ca_hash c ! k)" "?P j"
      using ik by (cases "List.find ?P (ca_hash c ! k)") (auto simp: find_None_iff find_Some_iff)
    obtain y where y: "(j, y) \<in> set (ca_list c)" "map_of (ca_list c) j = Some y" "ib_ip y ! 0 = ib_ip d ! 0"
      using entry [OF j(2)] j(3) d(1) by (auto simp: ipv4_equal)
    then have "i = j" using cache_invD(9) [OF inv i(1) y(1)] i(2) by simp
    then show "\<exists>i. find_item c d (ca_hash c ! k) = Inr (Some (i, x)) \<and> (i, x) \<in> set (ca_list c)"
      using f j(1) xv(2) i(1) by auto }
qed

text \<open>An item of the key \<open>d\<close> replaces the node \<open>i\<close>, or is new when there is none.\<close>

definition refreshed :: "nat \<Rightarrow> info_block \<Rightarrow> nat list \<Rightarrow> (nat \<times> info_block) list \<Rightarrow> cache \<Rightarrow> cache" where
  "refreshed k y bucket rest c =
     c\<lparr> ca_list := (ca_next c, y) # rest, ca_hash := (ca_hash c)[k := ca_next c # bucket],
        ca_next := Suc (ca_next c), ca_curr := int (Suc (length rest)) \<rparr>"

lemma refreshed_inv:
  assumes inv: "cache_inv c" and y: "ib_version y = AF_INET" "length (ib_ip y) = 4" "0 \<le> getKey y"
    and k: "k = slot_of c (getKey y)"
    and rest: "rest = filter (\<lambda>e. ib_ip (snd e) ! 0 \<noteq> ib_ip y ! 0) (ca_list c)"
    and bucket: "bucket = filter (\<lambda>m. m \<in> fst ` set rest) (ca_hash c ! k)"
  shows "cache_inv (refreshed k y bucket rest c)"
    "cached (refreshed k y bucket rest c) = (cached c)(ib_ip y ! 0 \<mapsto> y)"
proof -
  let ?c = "refreshed k y bucket rest c" and ?j = "ca_next c"
  have kl: "k < length (ca_hash c)" using slot_range [OF inv y(3)] k by simp
  have slot: "slot_of ?c = slot_of c" by (simp add: slot_of_def refreshed_def fun_eq_iff)
  have dist: "distinct (map fst rest)" "distinct (map fst (ca_list c))"
    using cache_invD(5) [OF inv] by (auto simp: rest distinct_map_filter)
  have rm: "map_of rest m = Some z" if mem: "m \<in> fst ` set rest" and z: "map_of (ca_list c) m = Some z" for m z
  proof -
    obtain e where "e \<in> set rest" "m = fst e" using mem by blast
    then have z': "(m, snd e) \<in> set rest" by simp
    then have "(m, snd e) \<in> set (ca_list c)" by (simp add: rest)
    then have "snd e = z" using z dist(2) by (metis map_of_is_SomeI option.inject)
    then show ?thesis using z' dist(1) by simp
  qed
  have fresh: "m < ?j" if "m \<in> set (ca_hash c ! b)" "b < length (ca_hash c)" for m b
    using cache_invD(8) [OF inv that(2,1)] cache_invD(6) [OF inv] by (metis map_of_SomeD)
  have old: "m < ?j \<and> ib_version z = AF_INET \<and> length (ib_ip z) = 4 \<and> 0 \<le> getKey z
      \<and> m \<in> set (ca_hash c ! slot_of c (getKey z))" if "(m, z) \<in> set rest" for m z
    using cache_invD(6) [OF inv, of m z] that by (simp add: rest)
  have keep: "m \<in> fst ` set rest" if m: "m \<in> set (ca_hash c ! b)" and b: "b < length (ca_hash c)" "b \<noteq> k" for m b
  proof -
    obtain z where z: "map_of (ca_list c) m = Some z" "slot_of c (getKey z) = b" using cache_invD(8) [OF inv b(1) m] by blast
    then have e: "(m, z) \<in> set (ca_list c)" by (simp add: map_of_SomeD)
    then have "ib_version z = AF_INET" using cache_invD(6) [OF inv] by blast
    then have "ib_ip z ! 0 \<noteq> ib_ip y ! 0" using z(2) b(2) y(1) by (auto simp: k ipv4_key)
    then have "(m, z) \<in> set rest" using e by (simp add: rest)
    then show ?thesis by force
  qed
  have hash: "ca_hash ?c ! b = (if b = k then ?j # bucket else ca_hash c ! b)" if "b < length (ca_hash c)" for b
    using that by (simp add: refreshed_def)
  have lst: "ca_list ?c = (?j, y) # rest" "length (ca_hash ?c) = length (ca_hash c)" "ca_next ?c = Suc ?j"
    by (simp_all add: refreshed_def)
  show inv': "cache_inv ?c"
    unfolding cache_inv_def
  proof (intro conjI, goal_cases)
    case 1 then show ?case using cache_invD(1) [OF inv] by (simp add: refreshed_def)
  next
    case 2 then show ?case using cache_invD(2) [OF inv] by (simp add: refreshed_def)
  next
    case 3 then show ?case using cache_invD(3) [OF inv] by (simp add: refreshed_def)
  next
    case 4 then show ?case by (simp add: refreshed_def)
  next
    case 5 then show ?case using dist(1) old by (force simp: lst)
  next
    case 6
    have "m \<in> set (ca_hash ?c ! slot_of c (getKey z))" if "(m, z) \<in> set rest" for m z
    proof -
      have z: "m \<in> set (ca_hash c ! slot_of c (getKey z))" "0 \<le> getKey z" using old [OF that] by auto
      moreover have "m \<in> fst ` set rest" using that by force
      ultimately show ?thesis unfolding hash [OF slot_range [OF inv z(2)]] by (auto simp: bucket)
    qed
    moreover have "?j \<in> set (ca_hash ?c ! slot_of c (getKey y))" unfolding k [symmetric] hash [OF kl] by simp
    ultimately show ?case unfolding lst slot using old y by (auto simp: less_Suc_eq)
  next
    case 7
    show ?case unfolding slot lst(2)
    proof (intro allI impI conjI ballI)
      fix b assume b: "b < length (ca_hash c)"
      show "distinct (ca_hash ?c ! b)"
        unfolding hash [OF b] using cache_invD(7) [OF inv b] cache_invD(7) [OF inv kl] fresh [OF _ kl] by (auto simp: bucket)
      fix m assume m: "m \<in> set (ca_hash ?c ! b)"
      show "\<exists>x. map_of (ca_list ?c) m = Some x \<and> slot_of c (getKey x) = b"
      proof (cases "m = ?j")
        case True
        then have "b = k" using m [unfolded hash [OF b]] fresh [OF _ b] by (auto split: if_splits)
        then show ?thesis unfolding lst using True by (simp add: k)
      next
        case False
        then have mb: "m \<in> set (ca_hash c ! b)" "m \<in> fst ` set rest"
          using m [unfolded hash [OF b]] keep [OF _ b] unfolding bucket by (auto split: if_splits)
        then obtain z where z: "map_of (ca_list c) m = Some z" "slot_of c (getKey z) = b" using cache_invD(8) [OF inv b] by blast
        then show ?thesis using rm [OF mb(2) z(1)] False by (simp add: lst)
      qed
    qed
  next
    case 8
    have same: "m = n" if "(m, z) \<in> set rest" "(n, w) \<in> set rest" "ib_ip z ! 0 = ib_ip w ! 0" for m n z w
      using cache_invD(9) [OF inv, of m z n w] that by (simp add: rest)
    have other: "ib_ip z ! 0 \<noteq> ib_ip y ! 0" if "(m, z) \<in> set rest" for m z using that by (simp add: rest)
    have "m = n" if "(m, z) \<in> set (ca_list ?c)" "(n, w) \<in> set (ca_list ?c)" "ib_ip z ! 0 = ib_ip w ! 0" for m n z w
      using that same other [of m z] other [of n w] unfolding lst by auto
    then show ?case by blast
  qed
  show "cached ?c = (cached c)(ib_ip y ! 0 \<mapsto> y)"
  proof
    fix ip
    show "cached ?c ip = ((cached c)(ib_ip y ! 0 \<mapsto> y)) ip"
    proof (cases "ip = ib_ip y ! 0")
      case False
      have "cached ?c ip = Some x \<longleftrightarrow> cached c ip = Some x" for x
        unfolding cached_iff [OF inv'] cached_iff [OF inv] lst using False by (auto simp: rest)
      then show ?thesis using False by (metis fun_upd_other option.exhaust)
    qed (simp add: cached_def lst)
  qed
qed

lemma filter_eq_singleton: "distinct xs \<Longrightarrow> a \<in> set xs \<Longrightarrow> filter (\<lambda>e. e = a) xs = [a]"
  by (induction xs) (auto simp: filter_empty_conv)

lemma take3: "length xs = 4 \<Longrightarrow> take 3 xs = [xs ! 0, xs ! 1, xs ! 2]"
  by (auto simp: numeral_eq_Suc length_Suc_conv)

lemma bucket_in_list:
  assumes "cache_inv c" "b < length (ca_hash c)" "m \<in> set (ca_hash c ! b)"
  obtains z where "(m, z) \<in> set (ca_list c)"
  using cache_invD(8) [OF assms] that by (auto dest: map_of_SomeD)

text \<open>An update of an address that is accepted: it is refreshed in place or, below the limit, added.\<close>

lemma update_refreshes:
  assumes inv: "cache_inv c" and d: "ib_version d = AF_INET" "length (ib_ip d) = 4" "0 \<le> getKey d"
    and room: "cached c (ib_ip d ! 0) \<noteq> None \<or> ca_curr c + 1 < ca_max c"
  obtains y k bucket rest where "cache_update junk d c = Inr (0, refreshed k y bucket rest c)"
    "ib_version y = AF_INET" "length (ib_ip y) = 4" "ib_ip y ! 0 = ib_ip d ! 0" "y\<lparr> ib_ip := ib_ip d \<rparr> = d" "take 3 (ib_ip y) = take 3 (ib_ip d)"
    "k = slot_of c (getKey y)" "rest = filter (\<lambda>e. ib_ip (snd e) ! 0 \<noteq> ib_ip y ! 0) (ca_list c)"
    "bucket = filter (\<lambda>m. m \<in> fst ` set rest) (ca_hash c ! k)"
proof -
  let ?k = "slot_of c (getKey d)"
  let ?rest = "filter (\<lambda>e. ib_ip (snd e) ! 0 \<noteq> ib_ip d ! 0) (ca_list c)"
  let ?bucket = "filter (\<lambda>m. m \<in> fst ` set ?rest) (ca_hash c ! ?k)"
  have kl: "?k < length (ca_hash c)" by (rule slot_range [OF inv d(3)])
  note member = bucket_in_list [OF inv kl] and dist = cache_invD(5) [OF inv]
  show ?thesis
  proof (cases "cached c (ib_ip d ! 0)")
    case None
    have "\<forall>e\<in>set (ca_list c). ib_ip (snd e) ! 0 \<noteq> ib_ip d ! 0" using None by (auto simp: cached_None)
    then have all: "?rest = ca_list c" by (rule filter_True)
    have "m \<in> fst ` set (ca_list c)" if "m \<in> set (ca_hash c ! ?k)" for m
      using member [OF that] by (metis image_eqI fst_conv)
    then have "?bucket = ca_hash c ! ?k" unfolding all by (intro filter_True ballI)
    moreover have "cache_update junk d c = Inr (0, refreshed ?k (ib_clone junk d) (ca_hash c ! ?k) (ca_list c) c)"
      using find_in_slot(1) [OF inv d(1,3) None] room None d(3) cache_invD(4) [OF inv]
      by (simp add: cache_update_def refreshed_def Let_def)
    moreover have "getKey (ib_clone junk d) = getKey d" "ib_version (ib_clone junk d) = AF_INET" using d by (simp_all add: ipv4_key ib_clone_def)
    ultimately show ?thesis
      by (intro that [of ?k "ib_clone junk d" "ca_hash c ! ?k" "ca_list c"]) (use d all take3 [OF d(2)] in \<open>simp_all add: ib_clone_def\<close>)
  next
    case (Some x)
    from find_in_slot(2) [OF inv d(1,3) Some] obtain i where
      i: "find_item c d (ca_hash c ! ?k) = Inr (Some (i, x))" "(i, x) \<in> set (ca_list c)" by blast
    have xd: "ib_ip x ! 0 = ib_ip d ! 0" "ib_version x = AF_INET" "length (ib_ip x) = 4"
      using Some cached_iff [OF inv] cache_invD(6) [OF inv i(2)] by auto
    let ?y = "ib_assign x d"
    have y: "ib_ip ?y ! 0 = ib_ip d ! 0" "ib_version ?y = AF_INET" "getKey ?y = getKey d" "length (ib_ip ?y) = 4"
      using d xd by (simp_all add: ib_assign_def ipv4_key)
    have only: "ib_ip (snd e) ! 0 \<noteq> ib_ip d ! 0 \<longleftrightarrow> fst e \<noteq> i" if "e \<in> set (ca_list c)" for e
    proof
      assume "ib_ip (snd e) ! 0 \<noteq> ib_ip d ! 0"
      then show "fst e \<noteq> i" using eq_key_imp_eq_value [OF dist i(2), of "snd e"] that xd(1) by (cases e) auto
    next
      assume "fst e \<noteq> i"
      then show "ib_ip (snd e) ! 0 \<noteq> ib_ip d ! 0" using cache_invD(9) [OF inv i(2), of "fst e" "snd e"] that xd(1) by auto
    qed
    have rest: "?rest = filter (\<lambda>e. fst e \<noteq> i) (ca_list c)" by (rule filter_cong [OF refl]) (rule only)
    have "fst ` set ?rest = fst ` set (ca_list c) - {i}" unfolding rest by force
    then have "?bucket = filter (\<lambda>m. m \<noteq> i) (ca_hash c ! ?k)"
    proof (intro filter_cong refl)
      fix m assume "m \<in> set (ca_hash c ! ?k)"
      then have "m \<in> fst ` set (ca_list c)" using member by (metis image_eqI fst_conv)
      then show "m \<in> fst ` set ?rest \<longleftrightarrow> m \<noteq> i" using \<open>fst ` set ?rest = fst ` set (ca_list c) - {i}\<close> by blast
    qed
    also have "\<dots> = remove1 i (ca_hash c ! ?k)"
      using cache_invD(7) [OF inv kl] by (simp add: distinct_remove1_removeAll removeAll_filter_not_eq)
        (rule filter_cong, auto)
    finally have bucket: "?bucket = remove1 i (ca_hash c ! ?k)" .
    have "filter (\<lambda>e. fst e = i) (ca_list c) = [(i, x)]"
    proof -
      have "filter (\<lambda>e. fst e = i) (ca_list c) = filter (\<lambda>e. e = (i, x)) (ca_list c)"
        using i(2) dist by (intro filter_cong refl) (metis eq_key_imp_eq_value fst_conv prod.collapse)
      also have "\<dots> = [(i, x)]" using dist i(2) by (intro filter_eq_singleton) (simp_all add: distinct_map)
      finally show ?thesis .
    qed
    then have "length (ca_list c) = Suc (length ?rest)"
      unfolding rest using sum_length_filter_compl [of "\<lambda>e. fst e = i" "ca_list c"] by simp
    then have "cache_update junk d c = Inr (0, refreshed ?k ?y ?bucket ?rest c)"
      using i(1) d(3) cache_invD(4) [OF inv] unfolding bucket by (simp add: cache_update_def refreshed_def Let_def rest)
    then show ?thesis
      by (rule that) (use y d(2) xd(3) in \<open>simp_all add: ib_assign_def take3\<close>)
  qed
qed

lemma cache_new_inv: "0 < n \<Longrightarrow> cache_inv (cache_new n)" "cached (cache_new n) ip = None"
  by (simp_all add: cache_inv_def cache_new_def cached_def)

lemma cache_clear_inv:
  assumes "cache_inv c"
  shows "cache_inv (cache_clear c)" "cached (cache_clear c) ip = None"
  using assms by (simp_all add: cache_inv_def cache_clear_def cached_def)

text \<open>The size can be changed while the cache is empty; with items it may leave them in the wrong
  slots, or drop the slots.\<close>

lemma setSizeLimit_empty:
  assumes "0 < n" "ca_list c = []" "ca_curr c = 0" "\<forall>b\<in>set (ca_hash c). b = []"
  shows "cache_inv (setSizeLimit n c)"
proof -
  have "ca_hash (setSizeLimit n c) ! b = []" if "b < n * 3" for b
    using that assms(4) by (auto simp: setSizeLimit_def nth_append)
  then show ?thesis using assms(1-3) by (auto simp: cache_inv_def setSizeLimit_def min_def)
qed

text \<open>C39: the path cache of the connections is a map from IPv4 addresses to items.  For an address
  whose number is not negative as an int, a lookup finds what the last update has stored, and an
  update below the size limit changes the item of its address only.  An address that is negative as
  an int (its last byte is at least 128) is never stored and never found.\<close>

theorem cache_is_map:
  assumes "cache_inv c" "ib_version d = AF_INET" "length (ib_ip d) = 4"
  shows "cache_lookup d c = Inr (case (if 0 \<le> getKey d then cached c (ib_ip d ! 0) else None) of
        None \<Rightarrow> (-1, d) | Some x \<Rightarrow> (0, ib_assign d x))
    \<and> (getKey d < 0 \<longrightarrow> cache_update junk d c = Inr (-1, c) \<and> cached c (ib_ip d ! 0) = None)
    \<and> (0 \<le> getKey d \<and> (cached c (ib_ip d ! 0) \<noteq> None \<or> ca_curr c + 1 < ca_max c) \<longrightarrow>
        (\<exists>c' x. cache_update junk d c = Inr (0, c') \<and> cache_inv c' \<and> x\<lparr> ib_ip := ib_ip d \<rparr> = d
           \<and> take 3 (ib_ip x) = take 3 (ib_ip d) \<and> cached c' = (cached c)(ib_ip d ! 0 \<mapsto> x)))"
proof (intro conjI impI)
  show "cache_lookup d c = Inr (case (if 0 \<le> getKey d then cached c (ib_ip d ! 0) else None) of
        None \<Rightarrow> (-1, d) | Some x \<Rightarrow> (0, ib_assign d x))"
  proof (cases "0 \<le> getKey d")
    case True
    show ?thesis
    proof (cases "cached c (ib_ip d ! 0)")
      case None
      then show ?thesis using find_in_slot(1) [OF assms(1,2) True None] True by (simp add: cache_lookup_def)
    next
      case (Some x)
      then show ?thesis using find_in_slot(2) [OF assms(1,2) True Some] True by (auto simp: cache_lookup_def)
    qed
  qed (simp add: cache_lookup_def)
  show "cache_update junk d c = Inr (-1, c)" if "getKey d < 0" using that by (simp add: cache_update_def)
  show "cached c (ib_ip d ! 0) = None" if neg: "getKey d < 0"
  proof (rule ccontr)
    assume "cached c (ib_ip d ! 0) \<noteq> None"
    then obtain x where "cached c (ib_ip d ! 0) = Some x" by blast
    then obtain i where i: "(i, x) \<in> set (ca_list c)" "ib_ip x ! 0 = ib_ip d ! 0"
      using cached_iff [OF assms(1)] by blast
    then have "getKey x = getKey d" using cache_invD(6) [OF assms(1) i(1)] assms(2) by (simp add: ipv4_key)
    then show False using neg cache_invD(6) [OF assms(1) i(1)] by simp
  qed
  assume r: "0 \<le> getKey d \<and> (cached c (ib_ip d ! 0) \<noteq> None \<or> ca_curr c + 1 < ca_max c)"
  obtain y k bucket rest where
    u: "cache_update junk d c = Inr (0, refreshed k y bucket rest c)"
    "ib_version y = AF_INET" "length (ib_ip y) = 4" "ib_ip y ! 0 = ib_ip d ! 0" "y\<lparr> ib_ip := ib_ip d \<rparr> = d"
    "take 3 (ib_ip y) = take 3 (ib_ip d)"
    "k = slot_of c (getKey y)" "rest = filter (\<lambda>e. ib_ip (snd e) ! 0 \<noteq> ib_ip y ! 0) (ca_list c)"
    "bucket = filter (\<lambda>m. m \<in> fst ` set rest) (ca_hash c ! k)"
    by (rule update_refreshes [OF assms conjunct1 [OF r] conjunct2 [OF r]])
  have "0 \<le> getKey y" using r u(2,4) assms(2) by (simp add: ipv4_key)
  note i = refreshed_inv [OF assms(1) u(2,3) this u(7-9)]
  show "\<exists>c' x. cache_update junk d c = Inr (0, c') \<and> cache_inv c' \<and> x\<lparr> ib_ip := ib_ip d \<rparr> = d
           \<and> take 3 (ib_ip x) = take 3 (ib_ip d) \<and> cached c' = (cached c)(ib_ip d ! 0 \<mapsto> x)"
    using u(1,5,6) i unfolding u(4) by blast
qed

definition sample_block :: "32 word \<Rightarrow> int \<Rightarrow> info_block" where
  "sample_block ip rtt = \<lparr> ib_ip = [ip, 0, 0, 0], ib_version = AF_INET, ib_ts = 0, ib_rtt = rtt, ib_bandwidth = 1,
     ib_loss = 0, ib_reorder = 0, ib_interval = Fin 0, ib_cwnd = Fin 0 \<rparr>"

theorem cache_is_map_witness:
  "\<exists>c. cache_update 0 (sample_block 0x0100007F 250) (cache_new 1024) = Inr (0, c)
     \<and> cache_lookup (sample_block 0x0100007F 0) c = Inr (0, sample_block 0x0100007F 250)"
proof -
  let ?d = "sample_block 0x0100007F 250" and ?e = "sample_block 0x0100007F 0"
  have p: "ib_version ?d = AF_INET" "length (ib_ip ?d) = 4" "getKey ?d = 0x0100007F" "getKey ?e = 0x0100007F"
    "ib_version ?e = AF_INET" "length (ib_ip ?e) = 4" "ib_ip ?d ! 0 = 0x0100007F" "ib_ip ?e ! 0 = 0x0100007F"
    by (simp_all add: sample_block_def getKey_def)
  have inv: "cache_inv (cache_new 1024)" by (simp add: cache_new_inv)
  have "ca_curr (cache_new 1024) + 1 < ca_max (cache_new 1024)" by (simp add: cache_new_def)
  then obtain c' x where c: "cache_update 0 ?d (cache_new 1024) = Inr (0, c')" "cache_inv c'"
      "x\<lparr> ib_ip := ib_ip ?d \<rparr> = ?d" "cached c' = (cached (cache_new 1024))(0x0100007F \<mapsto> x)"
    and tk: "take 3 (ib_ip x) = take 3 (ib_ip ?d)"
    using cache_is_map [OF inv p(1,2), of 0] p(3,7) by auto
  have "cache_lookup ?e c' = Inr (0, ib_assign ?e x)"
    using cache_is_map [OF c(2) p(5,6)] p(4,8) c(4) by simp
  moreover have "ib_ip x ! i = ib_ip ?d ! i" if "i < 3" for i
    using tk that by (metis nth_take)
  then have "ib_assign ?e x = ?d"
    using c(3) by (cases x) (auto simp: ib_assign_def sample_block_def numeral_eq_Suc)
  ultimately show ?thesis using c(1) by auto
qed

text \<open>The overflow, in a cache of size two: the second address evicts the first.  The new item is no
  longer found, and looking for the old one goes through the iterator of the erased node.\<close>

lemma overflow_breaks_table:
  "case cache_update 0 (sample_block 1 100) (cache_new 2) of Inr (_, c) \<Rightarrow>
     (case cache_update 0 (sample_block 2 200) c of Inr (r, c') \<Rightarrow>
        r = 0 \<and> cache_lookup (sample_block 2 0) c' = Inr (-1, sample_block 2 0)
        \<and> cache_lookup (sample_block 1 0) c' = Inl Null_Deref)"
  by (simp add: cache_update_def cache_new_def sample_block_def getKey_def slot_of_def ib_equal_def ib_clone_def
      drop_oldest_def cache_lookup_def Let_def AF_INET_def numeral_eq_Suc)

end
