(* ===== verification/Udt_Options.thy ===== *)
theory Udt_Options
  imports Udt_Sender Rcv_Buffer Time_Window Rcv_Queue Epoll Info_Cache
begin

text \<open>The whole state of a connection (class CUDT, core/core.h), its constructors and its options
  (setOpt and getOpt of core/core.cpp).  The members of the sending half are those of Udt\_Sender;
  the record \<open>cudt\<close> adds the members for setup and for receiving.  The classic congestion
  controller m\_pCC is left out: the connection only copies its window into a statistic.

  The lemmas show the ranges of the options, and what is read back after an option was set.\<close>

subsection \<open>State\<close>

record 's cudt =
  c_udt :: "'s udt"
  c_bOpened :: bool
  c_bListening :: bool
  c_bConnecting :: bool
  c_bSynRecving :: bool
  c_iRcvTimeOut :: int
  c_iRcvBufSize :: int
  c_iIPversion :: int
  c_bReuseAddr :: bool
  c_Linger :: "int \<times> int"
  c_iUDPSndBufSize :: int
  c_iUDPRcvBufSize :: int
  c_llMaxBW :: int
  c_ullLingerExpiration :: int
  c_ConnReq :: handshake
  c_ConnRes :: handshake
  c_llLastReqTime :: int
  c_snd_allocated :: bool
  c_pRcvBuffer :: "rcv_buffer option"
  c_pRcvTimeWindow :: "time_window option"
  c_iFlowWindowSize :: int
  c_iPeerISN :: int
  c_iRcvLastAck :: int
  c_iRcvLastAckAck :: int
  c_iRcvCurrSeqNo :: int
  c_iBandwidth :: int
  c_PollID :: "int set"
  c_pPeerAddr :: "sockaddr option"
  c_piSelfIP :: "32 word list"
  c_llTraceRecv :: int
  c_llRecvTotal :: int

definition on_udt :: "('s udt \<Rightarrow> 's udt) \<Rightarrow> 's cudt \<Rightarrow> 's cudt" where
  "on_udt f c = c\<lparr> c_udt := f (c_udt c) \<rparr>"

lemma on_udt_frame [simp]:
  "c_udt (on_udt f c) = f (c_udt c)" "c_bOpened (on_udt f c) = c_bOpened c"
  "c_bListening (on_udt f c) = c_bListening c" "c_bConnecting (on_udt f c) = c_bConnecting c"
  "c_bSynRecving (on_udt f c) = c_bSynRecving c" "c_iRcvTimeOut (on_udt f c) = c_iRcvTimeOut c"
  "c_iRcvBufSize (on_udt f c) = c_iRcvBufSize c" "c_iIPversion (on_udt f c) = c_iIPversion c"
  "c_bReuseAddr (on_udt f c) = c_bReuseAddr c" "c_Linger (on_udt f c) = c_Linger c"
  "c_iUDPSndBufSize (on_udt f c) = c_iUDPSndBufSize c" "c_iUDPRcvBufSize (on_udt f c) = c_iUDPRcvBufSize c"
  "c_llMaxBW (on_udt f c) = c_llMaxBW c" "c_ConnReq (on_udt f c) = c_ConnReq c"
  "c_ConnRes (on_udt f c) = c_ConnRes c" "c_snd_allocated (on_udt f c) = c_snd_allocated c"
  "c_pRcvBuffer (on_udt f c) = c_pRcvBuffer c" "c_iFlowWindowSize (on_udt f c) = c_iFlowWindowSize c"
  "c_iPeerISN (on_udt f c) = c_iPeerISN c" "c_iRcvLastAck (on_udt f c) = c_iRcvLastAck c"
  "c_PollID (on_udt f c) = c_PollID c" "c_pPeerAddr (on_udt f c) = c_pPeerAddr c"
  "c_llLastReqTime (on_udt f c) = c_llLastReqTime c" "c_pRcvTimeWindow (on_udt f c) = c_pRcvTimeWindow c"
  by (simp_all add: on_udt_def)

text \<open>The default constructor.  \<open>raw\<close> is the memory of the object: members the constructor does not
  mention keep what it holds.  \<open>pcc\<close> is the new PccVivaceSender.\<close>

definition initial_status :: "'s cudt \<Rightarrow> 's cudt" where
  "initial_status c =
     (on_udt (\<lambda>u. u\<lparr> u_bConnected := False, u_bClosing := False, u_bShutdown := False,
                     u_bBroken := False, u_bPeerHealth := True \<rparr>) c)
       \<lparr> c_bOpened := False, c_bListening := False, c_bConnecting := False, c_ullLingerExpiration := 0 \<rparr>"

definition null_members :: "'s \<Rightarrow> int \<Rightarrow> 's cudt \<Rightarrow> 's cudt" where
  "null_members pcc now c =
     (on_udt (\<lambda>u. u\<lparr> u_pcc_sender := pcc, u_packet_tracker := tracker_new \<rparr>) c)
       \<lparr> c_snd_allocated := False, c_pRcvBuffer := None, c_pRcvTimeWindow := None, c_pPeerAddr := None,
         c_llLastReqTime := i64 now, c_PollID := {}, c_ConnReq := handshake_new, c_ConnRes := handshake_new \<rparr>"

definition cudt_new :: "'s \<Rightarrow> int \<Rightarrow> 's cudt \<Rightarrow> 's cudt" where
  "cudt_new pcc now raw =
     initial_status (null_members pcc now
       ((on_udt (\<lambda>u. u\<lparr> u_iMSS := 1464, u_bSynSending := True, u_iFlightFlagSize := 1000000,
                       u_iSndBufSize := 100000, u_dgram := False, u_bRendezvous := False,
                       u_iSndTimeOut := -1 \<rparr>) raw)
         \<lparr> c_bSynRecving := True, c_iRcvBufSize := 1000000, c_Linger := (1, 180),
           c_iUDPSndBufSize := 100000, c_iUDPRcvBufSize := i32 (1000000 * 1464),
           c_iIPversion := AF_INET, c_iRcvTimeOut := -1, c_bReuseAddr := True, c_llMaxBW := -1 \<rparr>))"

text \<open>The copy constructor, for a socket a listener creates.\<close>

definition cudt_copy :: "'s \<Rightarrow> int \<Rightarrow> 's cudt \<Rightarrow> 's cudt \<Rightarrow> 's cudt" where
  "cudt_copy pcc now ancestor raw =
     (let a = c_udt ancestor in
      initial_status (null_members pcc now
       ((on_udt (\<lambda>u. u\<lparr> u_iMSS := u_iMSS a, u_bSynSending := u_bSynSending a,
                       u_iFlightFlagSize := u_iFlightFlagSize a, u_iSndBufSize := u_iSndBufSize a,
                       u_dgram := u_dgram a, u_bRendezvous := u_bRendezvous a,
                       u_iSndTimeOut := u_iSndTimeOut a \<rparr>) raw)
         \<lparr> c_bSynRecving := c_bSynRecving ancestor, c_iRcvBufSize := c_iRcvBufSize ancestor,
           c_Linger := c_Linger ancestor, c_iUDPSndBufSize := c_iUDPSndBufSize ancestor,
           c_iUDPRcvBufSize := c_iUDPRcvBufSize ancestor, c_iIPversion := c_iIPversion ancestor,
           c_iRcvTimeOut := c_iRcvTimeOut ancestor, c_bReuseAddr := True,
           c_llMaxBW := c_llMaxBW ancestor \<rparr>)))"

subsection \<open>Options\<close>

datatype udt_opt =
    UDT_MSS | UDT_SNDSYN | UDT_RCVSYN | UDT_CC | UDT_FC | UDT_SNDBUF | UDT_RCVBUF | UDT_LINGER
  | UDP_SNDBUF | UDP_RCVBUF | UDT_MAXMSG | UDT_MSGTTL | UDT_RENDEZVOUS | UDT_SNDTIMEO | UDT_RCVTIMEO
  | UDT_REUSEADDR | UDT_MAXBW | UDT_STATE | UDT_EVENT | UDT_SNDDATA | UDT_RCVDATA | UDT_PCC
  | UDT_UTAG | UDT_UPARAM

text \<open>What the void pointer leads to.  Reading it as a value of another type is the failure
  \<open>Out_Of_Bounds\<close>.\<close>

datatype opt_value =
    Int_Value int
  | Bool_Value bool
  | Linger_Value "int \<times> int"
  | Int64_Value int
  | String_Value string
  | Float_Value fp
  | Factory_Value
  | Controller_Value

definition with_int :: "opt_value \<Rightarrow> (int \<Rightarrow> 'a outcome) \<Rightarrow> 'a outcome" where
  "with_int v k = (case v of Int_Value x \<Rightarrow> k x | _ \<Rightarrow> Inl Out_Of_Bounds)"

definition with_bool :: "opt_value \<Rightarrow> (bool \<Rightarrow> 'a outcome) \<Rightarrow> 'a outcome" where
  "with_bool v k = (case v of Bool_Value x \<Rightarrow> k x | _ \<Rightarrow> Inl Out_Of_Bounds)"

text \<open>The methods of the controller that options call: SetUtilityTag, SetUtilityParameter and the
  constructor of PccVivaceSender.\<close>

record 's pcc_admin =
  pa_tag :: "string \<Rightarrow> 's \<Rightarrow> 's"
  pa_param :: "fp \<Rightarrow> 's \<Rightarrow> 's"
  pa_vivace :: 's

definition before_open :: "'s cudt \<Rightarrow> 'a outcome \<Rightarrow> 'a outcome" where
  "before_open c r = (if c_bOpened c then Inl (Udt_Error 5 1) else r)"

definition before_connect :: "int \<Rightarrow> 's cudt \<Rightarrow> 'a outcome \<Rightarrow> 'a outcome" where
  "before_connect minor c r =
     (if c_bConnecting c \<or> u_bConnected (c_udt c) then Inl (Udt_Error 5 minor) else r)"

definition clamp_mss :: "int \<Rightarrow> 's cudt \<Rightarrow> int" where
  "clamp_mss x c =
     (let m = (if x > c_iUDPSndBufSize c then c_iUDPSndBufSize c else x)
      in if m > c_iUDPRcvBufSize c then c_iUDPRcvBufSize c else m)"

definition payload_of_mss :: "'s cudt \<Rightarrow> int" where
  "payload_of_mss c = i32 (u_iMSS (c_udt c) - 28)"

definition rcvbuf_packets :: "int \<Rightarrow> 's cudt \<Rightarrow> int" where
  "rcvbuf_packets x c =
     (let p = payload_of_mss c; n = (if x > i32 (p * 32) then cdiv x p else 32)
      in if n > u_iFlightFlagSize (c_udt c) then u_iFlightFlagSize (c_udt c) else n)"

definition setOpt :: "'s pcc_admin \<Rightarrow> udt_opt \<Rightarrow> opt_value \<Rightarrow> 's cudt \<Rightarrow> 's cudt outcome" where
  "setOpt pa opt v c =
     (if u_bBroken (c_udt c) \<or> u_bClosing (c_udt c) then Inl (Udt_Error 2 1)
      else case opt of
        UDT_UTAG \<Rightarrow> (case v of
            String_Value t \<Rightarrow> Inr (on_udt (\<lambda>u. u\<lparr> u_pcc_sender := pa_tag pa t (u_pcc_sender u) \<rparr>) c)
          | _ \<Rightarrow> Inl Out_Of_Bounds)
      | UDT_UPARAM \<Rightarrow> (case v of
            Float_Value x \<Rightarrow> Inr (on_udt (\<lambda>u. u\<lparr> u_pcc_sender := pa_param pa x (u_pcc_sender u) \<rparr>) c)
          | _ \<Rightarrow> Inl Out_Of_Bounds)
      | UDT_MSS \<Rightarrow> before_open c (with_int v (\<lambda>x.
            if x < 28 + hs_iContentSize then Inl (Udt_Error 5 3)
            else Inr (on_udt (\<lambda>u. u\<lparr> u_iMSS := clamp_mss x c \<rparr>) c)))
      | UDT_SNDSYN \<Rightarrow> with_bool v (\<lambda>b. Inr (on_udt (\<lambda>u. u\<lparr> u_bSynSending := b \<rparr>) c))
      | UDT_RCVSYN \<Rightarrow> with_bool v (\<lambda>b. Inr (c\<lparr> c_bSynRecving := b \<rparr>))
      | UDT_CC \<Rightarrow> before_connect 1 c (Inr c)
      | UDT_FC \<Rightarrow> before_connect 2 c (with_int v (\<lambda>x.
            if x < 1 then Inl (Udt_Error 5 3)
            else Inr (on_udt (\<lambda>u. u\<lparr> u_iFlightFlagSize := (if x > 32 then x else 32) \<rparr>) c)))
      | UDT_SNDBUF \<Rightarrow> before_open c (with_int v (\<lambda>x.
            if x \<le> 0 then Inl (Udt_Error 5 3)
            else guard_outcome Div_By_Zero (payload_of_mss c \<noteq> 0)
              (Inr (on_udt (\<lambda>u. u\<lparr> u_iSndBufSize := cdiv x (payload_of_mss c) \<rparr>) c))))
      | UDT_RCVBUF \<Rightarrow> before_open c (with_int v (\<lambda>x.
            if x \<le> 0 then Inl (Udt_Error 5 3)
            else guard_outcome Div_By_Zero (payload_of_mss c \<noteq> 0)
              (Inr (c\<lparr> c_iRcvBufSize := rcvbuf_packets x c \<rparr>))))
      | UDT_LINGER \<Rightarrow> (case v of Linger_Value l \<Rightarrow> Inr (c\<lparr> c_Linger := l \<rparr>) | _ \<Rightarrow> Inl Out_Of_Bounds)
      | UDP_SNDBUF \<Rightarrow> before_open c (with_int v (\<lambda>x.
            Inr (c\<lparr> c_iUDPSndBufSize := (if x < u_iMSS (c_udt c) then u_iMSS (c_udt c) else x) \<rparr>)))
      | UDP_RCVBUF \<Rightarrow> before_open c (with_int v (\<lambda>x.
            Inr (c\<lparr> c_iUDPRcvBufSize := (if x < u_iMSS (c_udt c) then u_iMSS (c_udt c) else x) \<rparr>)))
      | UDT_RENDEZVOUS \<Rightarrow> before_connect 1 c (with_bool v (\<lambda>b.
            Inr (on_udt (\<lambda>u. u\<lparr> u_bRendezvous := b \<rparr>) c)))
      | UDT_SNDTIMEO \<Rightarrow> with_int v (\<lambda>x. Inr (on_udt (\<lambda>u. u\<lparr> u_iSndTimeOut := x \<rparr>) c))
      | UDT_RCVTIMEO \<Rightarrow> with_int v (\<lambda>x. Inr (c\<lparr> c_iRcvTimeOut := x \<rparr>))
      | UDT_REUSEADDR \<Rightarrow> before_open c (with_bool v (\<lambda>b. Inr (c\<lparr> c_bReuseAddr := b \<rparr>)))
      | UDT_MAXBW \<Rightarrow> before_connect 1 c (case v of
            Int64_Value x \<Rightarrow> Inr (c\<lparr> c_llMaxBW := x \<rparr>) | _ \<Rightarrow> Inl Out_Of_Bounds)
      | UDT_PCC \<Rightarrow> before_connect 1 c (case v of
            String_Value t \<Rightarrow> Inr (if t = ''Vivace''
              then on_udt (\<lambda>u. u\<lparr> u_pcc_sender := pa_vivace pa \<rparr>) c else c)
          | _ \<Rightarrow> Inl Out_Of_Bounds)
      | _ \<Rightarrow> Inl (Udt_Error 5 0))"

definition rcv_data_size :: "'s cudt \<Rightarrow> int" where
  "rcv_data_size c = (case c_pRcvBuffer c of None \<Rightarrow> 0 | Some rb \<Rightarrow> getRcvDataSize rb)"

definition snd_data_size :: "'s cudt \<Rightarrow> int" where
  "snd_data_size c = (if c_snd_allocated c then getCurrBufSize (u_pSndBuffer (c_udt c)) else 0)"

definition event_flags :: "'s cudt \<Rightarrow> 32 word" where
  "event_flags c =
     (if u_bBroken (c_udt c) then UDT_EPOLL_ERR
      else or (if rcv_data_size c > 0 then UDT_EPOLL_IN else 0)
              (if c_snd_allocated c \<and> u_iSndBufSize (c_udt c) > snd_data_size c then UDT_EPOLL_OUT else 0))"

text \<open>\<open>status\<close> is the status of the socket in the socket table, \<open>optlen\<close> the room the caller offers.\<close>

definition getOpt :: "int \<Rightarrow> int \<Rightarrow> udt_opt \<Rightarrow> 's cudt \<Rightarrow> opt_value outcome" where
  "getOpt status optlen opt c =
     (let u = c_udt c in
      case opt of
        UDT_MSS \<Rightarrow> Inr (Int_Value (u_iMSS u))
      | UDT_SNDSYN \<Rightarrow> Inr (Bool_Value (u_bSynSending u))
      | UDT_RCVSYN \<Rightarrow> Inr (Bool_Value (c_bSynRecving c))
      | UDT_CC \<Rightarrow> if \<not> c_bOpened c then Inl (Udt_Error 5 5) else Inr Controller_Value
      | UDT_FC \<Rightarrow> Inr (Int_Value (u_iFlightFlagSize u))
      | UDT_SNDBUF \<Rightarrow> Inr (Int_Value (i32 (u_iSndBufSize u * payload_of_mss c)))
      | UDT_RCVBUF \<Rightarrow> Inr (Int_Value (i32 (c_iRcvBufSize c * payload_of_mss c)))
      | UDT_LINGER \<Rightarrow> if optlen < 8 then Inl (Udt_Error 5 3) else Inr (Linger_Value (c_Linger c))
      | UDP_SNDBUF \<Rightarrow> Inr (Int_Value (c_iUDPSndBufSize c))
      | UDP_RCVBUF \<Rightarrow> Inr (Int_Value (c_iUDPRcvBufSize c))
      | UDT_RENDEZVOUS \<Rightarrow> Inr (Bool_Value (u_bRendezvous u))
      | UDT_SNDTIMEO \<Rightarrow> Inr (Int_Value (u_iSndTimeOut u))
      | UDT_RCVTIMEO \<Rightarrow> Inr (Int_Value (c_iRcvTimeOut c))
      | UDT_REUSEADDR \<Rightarrow> Inr (Bool_Value (c_bReuseAddr c))
      | UDT_MAXBW \<Rightarrow> Inr (Int64_Value (c_llMaxBW c))
      | UDT_STATE \<Rightarrow> Inr (Int_Value status)
      | UDT_EVENT \<Rightarrow> Inr (Int_Value (sint (event_flags c)))
      | UDT_SNDDATA \<Rightarrow> Inr (Int_Value (snd_data_size c))
      | UDT_RCVDATA \<Rightarrow> Inr (Int_Value (rcv_data_size c))
      | _ \<Rightarrow> Inl (Udt_Error 5 0))"

subsection \<open>Ranges and types of the options\<close>

definition opts_ok :: "'s cudt \<Rightarrow> bool" where
  "opts_ok c \<longleftrightarrow> 76 \<le> u_iMSS (c_udt c) \<and> u_iMSS (c_udt c) \<le> c_iUDPSndBufSize c
     \<and> u_iMSS (c_udt c) \<le> c_iUDPRcvBufSize c
     \<and> c_iUDPSndBufSize c \<le> 2147483647 \<and> c_iUDPRcvBufSize c \<le> 2147483647
     \<and> 32 \<le> u_iFlightFlagSize (c_udt c) \<and> u_iFlightFlagSize (c_udt c) \<le> 2147483647
     \<and> 0 \<le> u_iSndBufSize (c_udt c) \<and> 0 \<le> c_iRcvBufSize c
     \<and> (c_snd_allocated c \<longrightarrow> c_bOpened c)"

text \<open>The type of the value an option has.\<close>

definition value_typed :: "udt_opt \<Rightarrow> opt_value \<Rightarrow> bool" where
  "value_typed opt v \<longleftrightarrow> (case v of
       Int_Value x \<Rightarrow> i32_range x \<and> opt \<in> {UDT_MSS, UDT_FC, UDT_SNDBUF, UDT_RCVBUF, UDP_SNDBUF, UDP_RCVBUF,
         UDT_SNDTIMEO, UDT_RCVTIMEO, UDT_STATE, UDT_EVENT, UDT_SNDDATA, UDT_RCVDATA}
     | Bool_Value b \<Rightarrow> opt \<in> {UDT_SNDSYN, UDT_RCVSYN, UDT_RENDEZVOUS, UDT_REUSEADDR}
     | Linger_Value l \<Rightarrow> opt = UDT_LINGER
     | Int64_Value x \<Rightarrow> i64_range x \<and> opt = UDT_MAXBW
     | String_Value t \<Rightarrow> opt \<in> {UDT_PCC, UDT_UTAG}
     | Float_Value x \<Rightarrow> opt = UDT_UPARAM
     | Factory_Value \<Rightarrow> opt = UDT_CC
     | Controller_Value \<Rightarrow> opt = UDT_CC)"

text \<open>What is read back after a value was set.\<close>

definition read_back :: "udt_opt \<Rightarrow> opt_value \<Rightarrow> 's cudt \<Rightarrow> opt_value" where
  "read_back opt v c = (case v of
       Int_Value x \<Rightarrow> Int_Value
         (let p = u_iMSS (c_udt c) - 28 in case opt of
            UDT_MSS \<Rightarrow> min x (min (c_iUDPSndBufSize c) (c_iUDPRcvBufSize c))
          | UDT_FC \<Rightarrow> max x 32
          | UDT_SNDBUF \<Rightarrow> x div p * p
          | UDT_RCVBUF \<Rightarrow>
              i32 (min (u_iFlightFlagSize (c_udt c)) (if x > i32 (p * 32) then x div p else 32) * p)
          | UDP_SNDBUF \<Rightarrow> max x (u_iMSS (c_udt c))
          | UDP_RCVBUF \<Rightarrow> max x (u_iMSS (c_udt c))
          | _ \<Rightarrow> x)
     | _ \<Rightarrow> v)"

lemma cudt_new_opts: "opts_ok (cudt_new pcc now raw)"
  by (simp add: opts_ok_def cudt_new_def initial_status_def null_members_def on_udt_def)

lemma cudt_copy_opts: "opts_ok a \<Longrightarrow> opts_ok (cudt_copy pcc now a raw)"
  by (simp add: opts_ok_def cudt_copy_def initial_status_def null_members_def on_udt_def Let_def)

text \<open>The arithmetic of the buffer sizes.\<close>

lemma payload_of_mss_ok: "opts_ok c \<Longrightarrow> payload_of_mss c = u_iMSS (c_udt c) - 28 \<and> 48 \<le> payload_of_mss c"
  by (simp add: opts_ok_def payload_of_mss_def)

lemma div_times_range: "0 < x \<Longrightarrow> x \<le> 2147483647 \<Longrightarrow> 0 < p \<Longrightarrow> i32 (x div p * p) = x div p * p" for x p :: int
proof -
  assume a: "0 < x" "x \<le> 2147483647" "0 < p"
  then have "0 \<le> x div p" by (simp add: pos_imp_zdiv_nonneg_iff)
  then have "0 \<le> x div p * p" using a(3) by simp
  moreover have "x div p * p \<le> x" using div_mult_mod_eq [of x p] pos_mod_sign [OF a(3), of x] by linarith
  ultimately show ?thesis using a(2) by (intro i32_id) linarith+
qed

lemma rcvbuf_packets_ok:
  assumes "opts_ok c" "0 < x"
  shows "rcvbuf_packets x c = min (u_iFlightFlagSize (c_udt c))
      (if x > i32 ((u_iMSS (c_udt c) - 28) * 32) then x div (u_iMSS (c_udt c) - 28) else 32)"
    "0 \<le> rcvbuf_packets x c"
  using payload_of_mss_ok [OF assms(1)] assms
  by (auto simp: rcvbuf_packets_def Let_def opts_ok_def min_def pos_imp_zdiv_nonneg_iff)

definition plain_opt :: "udt_opt \<Rightarrow> bool" where
  "plain_opt opt \<longleftrightarrow> opt \<notin> {UDT_CC, UDT_PCC, UDT_UTAG, UDT_UPARAM}"

text \<open>The options that can be read back, with what setting them does.\<close>

lemma setOpt_plain:
  assumes "opts_ok c" "value_typed opt v" "plain_opt opt" "setOpt pa opt v c = Inr c'"
  obtains
    (mss) x where "opt = UDT_MSS" "v = Int_Value x" "76 \<le> x" "x \<le> 2147483647" "\<not> c_bOpened c"
      "c' = on_udt (\<lambda>u. u\<lparr> u_iMSS := min x (min (c_iUDPSndBufSize c) (c_iUDPRcvBufSize c)) \<rparr>) c"
  | (sndsyn) b where "opt = UDT_SNDSYN" "v = Bool_Value b" "c' = on_udt (\<lambda>u. u\<lparr> u_bSynSending := b \<rparr>) c"
  | (rcvsyn) b where "opt = UDT_RCVSYN" "v = Bool_Value b" "c' = c\<lparr> c_bSynRecving := b \<rparr>"
  | (fc) x where "opt = UDT_FC" "v = Int_Value x" "0 < x" "x \<le> 2147483647"
      "c' = on_udt (\<lambda>u. u\<lparr> u_iFlightFlagSize := max x 32 \<rparr>) c"
  | (sndbuf) x where "opt = UDT_SNDBUF" "v = Int_Value x" "0 < x" "x \<le> 2147483647" "\<not> c_bOpened c"
      "c' = on_udt (\<lambda>u. u\<lparr> u_iSndBufSize := x div payload_of_mss c \<rparr>) c"
  | (rcvbuf) x where "opt = UDT_RCVBUF" "v = Int_Value x" "0 < x" "x \<le> 2147483647" "\<not> c_bOpened c"
      "c' = c\<lparr> c_iRcvBufSize := rcvbuf_packets x c \<rparr>"
  | (linger) l where "opt = UDT_LINGER" "v = Linger_Value l" "c' = c\<lparr> c_Linger := l \<rparr>"
  | (udp_snd) x where "opt = UDP_SNDBUF" "v = Int_Value x" "x \<le> 2147483647" "\<not> c_bOpened c"
      "c' = c\<lparr> c_iUDPSndBufSize := max x (u_iMSS (c_udt c)) \<rparr>"
  | (udp_rcv) x where "opt = UDP_RCVBUF" "v = Int_Value x" "x \<le> 2147483647" "\<not> c_bOpened c"
      "c' = c\<lparr> c_iUDPRcvBufSize := max x (u_iMSS (c_udt c)) \<rparr>"
  | (rendezvous) b where "opt = UDT_RENDEZVOUS" "v = Bool_Value b" "c' = on_udt (\<lambda>u. u\<lparr> u_bRendezvous := b \<rparr>) c"
  | (sndtimeo) x where "opt = UDT_SNDTIMEO" "v = Int_Value x" "i32_range x" "c' = on_udt (\<lambda>u. u\<lparr> u_iSndTimeOut := x \<rparr>) c"
  | (rcvtimeo) x where "opt = UDT_RCVTIMEO" "v = Int_Value x" "i32_range x" "c' = c\<lparr> c_iRcvTimeOut := x \<rparr>"
  | (reuse) b where "opt = UDT_REUSEADDR" "v = Bool_Value b" "c' = c\<lparr> c_bReuseAddr := b \<rparr>"
  | (maxbw) x where "opt = UDT_MAXBW" "v = Int64_Value x" "i64_range x" "c' = c\<lparr> c_llMaxBW := x \<rparr>"
proof -
  note s = assms(4) [unfolded setOpt_def] and t = assms(2,3) [unfolded value_typed_def plain_opt_def]
  have p: "48 \<le> payload_of_mss c" using payload_of_mss_ok [OF assms(1)] by simp
  note d = with_int_def with_bool_def before_open_def before_connect_def i32_range_def
  note sp = if_splits
  consider (i) x where "v = Int_Value x" "i32_range x" | (b) b where "v = Bool_Value b"
    | (l) l where "v = Linger_Value l" "opt = UDT_LINGER" | (w) x where "v = Int64_Value x" "i64_range x" "opt = UDT_MAXBW"
    using t by (cases v) auto
  then show thesis
  proof cases
    case (i x)
    consider "opt = UDT_MSS" | "opt = UDT_FC" | "opt = UDT_SNDBUF" | "opt = UDT_RCVBUF" | "opt = UDP_SNDBUF"
      | "opt = UDP_RCVBUF" | "opt = UDT_SNDTIMEO" | "opt = UDT_RCVTIMEO" | "opt \<in> {UDT_STATE, UDT_EVENT, UDT_SNDDATA, UDT_RCVDATA}"
      using t i(1) by auto
    then show ?thesis
    proof cases
      case 1
      have "clamp_mss x c = min x (min (c_iUDPSndBufSize c) (c_iUDPRcvBufSize c))"
        by (auto simp: clamp_mss_def Let_def min_def)
      then show ?thesis using 1 s i by (intro mss) (auto simp: d hs_iContentSize_def split: sp)
    next
      case 2
      have "(if x > 32 then x else 32) = max x 32" by (simp add: max_def)
      then show ?thesis using 2 s i by (intro fc) (auto simp: d split: sp)
    next
      case 3
      then show ?thesis using s i p by (intro sndbuf) (auto simp: d split: sp)
    next
      case 4
      then show ?thesis using s i p by (intro rcvbuf) (auto simp: d split: sp)
    next
      case 5
      have "(if x < u_iMSS (c_udt c) then u_iMSS (c_udt c) else x) = max x (u_iMSS (c_udt c))" by (simp add: max_def)
      then show ?thesis using 5 s i by (intro udp_snd) (auto simp: d split: sp)
    next
      case 6
      have "(if x < u_iMSS (c_udt c) then u_iMSS (c_udt c) else x) = max x (u_iMSS (c_udt c))" by (simp add: max_def)
      then show ?thesis using 6 s i by (intro udp_rcv) (auto simp: d split: sp)
    next
      case 7
      then show ?thesis using s i by (intro sndtimeo) (auto simp: d split: sp)
    next
      case 8
      then show ?thesis using s i by (intro rcvtimeo) (auto simp: d split: sp)
    qed (use s in \<open>auto split: sp\<close>)
  next
    case (b b)
    consider "opt = UDT_SNDSYN" | "opt = UDT_RCVSYN" | "opt = UDT_RENDEZVOUS" | "opt = UDT_REUSEADDR"
      using t b by auto
    then show ?thesis
    proof cases
      case 1
      then show ?thesis using s b by (intro sndsyn) (auto simp: d split: sp)
    next
      case 2
      then show ?thesis using s b by (intro rcvsyn) (auto simp: d split: sp)
    next
      case 3
      then show ?thesis using s b by (intro rendezvous) (auto simp: d split: sp)
    next
      case 4
      then show ?thesis using s b by (intro reuse) (auto simp: d split: sp)
    qed
  next
    case (l l)
    then show ?thesis using s by (intro linger) (auto split: sp)
  next
    case (w x)
    then show ?thesis using s by (intro maxbw) (auto simp: d split: sp)
  qed
qed

lemma setOpt_keeps_ranges:
  assumes "opts_ok c" "value_typed opt v" "plain_opt opt" "setOpt pa opt v c = Inr c'"
  shows "opts_ok c'"
  using assms
proof (cases rule: setOpt_plain)
  case (rcvbuf x)
  then show ?thesis using assms(1) rcvbuf_packets_ok(2) [OF assms(1) rcvbuf(3)] by (simp add: opts_ok_def)
next
  case (sndbuf x)
  then show ?thesis using assms(1) payload_of_mss_ok [OF assms(1)] by (simp add: opts_ok_def pos_imp_zdiv_nonneg_iff)
qed (use assms(1) in \<open>auto simp: opts_ok_def\<close>)

lemma setOpt_reads_back:
  assumes "opts_ok c" "value_typed opt v" "plain_opt opt" "setOpt pa opt v c = Inr c'"
  shows "getOpt status 8 opt c' = Inr (read_back opt v c)"
  using assms
proof (cases rule: setOpt_plain)
  case (rcvbuf x)
  then show ?thesis using rcvbuf_packets_ok(1) [OF assms(1) rcvbuf(3)] payload_of_mss_ok [OF assms(1)]
    by (simp add: getOpt_def read_back_def payload_of_mss_def Let_def)
next
  case (sndbuf x)
  then show ?thesis using payload_of_mss_ok [OF assms(1)]
    by (simp add: getOpt_def read_back_def payload_of_mss_def div_times_range Let_def)
qed (simp_all add: getOpt_def read_back_def)

lemma setOpt_leaves_others:
  assumes "opts_ok c" "value_typed opt v" "plain_opt opt" "setOpt pa opt v c = Inr c'"
    "opt' \<noteq> opt" "\<not> (opt = UDT_MSS \<and> opt' \<in> {UDT_SNDBUF, UDT_RCVBUF})"
  shows "getOpt status len opt' c' = getOpt status len opt' c"
  using assms(1-4)
proof (cases rule: setOpt_plain)
  case (sndbuf x)
  then have "\<not> c_snd_allocated c" using assms(1) by (auto simp: opts_ok_def)
  then show ?thesis using sndbuf assms(5)
    by (cases opt') (simp_all add: getOpt_def event_flags_def rcv_data_size_def snd_data_size_def payload_of_mss_def)
qed (use assms(5,6) in \<open>cases opt'; simp add: getOpt_def event_flags_def rcv_data_size_def snd_data_size_def payload_of_mss_def\<close>)+

lemma read_back_typed:
  assumes "opts_ok c" "value_typed opt v" "plain_opt opt" "setOpt pa opt v c = Inr c'"
  shows "value_typed opt (read_back opt v c)"
  using assms
proof (cases rule: setOpt_plain)
  case (rcvbuf x)
  then show ?thesis using i32_in_range by (simp add: read_back_def value_typed_def Let_def)
next
  case (sndbuf x)
  then have "i32 (x div payload_of_mss c * payload_of_mss c) = x div payload_of_mss c * payload_of_mss c"
    using payload_of_mss_ok [OF assms(1)] by (intro div_times_range) auto
  then have "i32_range (x div payload_of_mss c * payload_of_mss c)" by (metis i32_in_range)
  then show ?thesis using sndbuf payload_of_mss_ok [OF assms(1)] by (simp add: read_back_def value_typed_def Let_def)
qed (use assms(1,2) in \<open>auto simp: read_back_def value_typed_def opts_ok_def i32_range_def min_def max_def\<close>)



text \<open>Lowering the flow window afterwards leaves a receive buffer that is greater than it.\<close>

lemma fc_below_rcvbuf:
  "\<exists>c'. setOpt pa UDT_FC (Int_Value 100) (cudt_new pcc now raw) = Inr c'
     \<and> u_iFlightFlagSize (c_udt c') < c_iRcvBufSize c'"
  by (simp add: setOpt_def before_connect_def with_int_def cudt_new_def initial_status_def null_members_def)

end
