(* ===== verification/Udt_Setup.thy ===== *)
theory Udt_Setup
  imports Udt_Options Md5
begin

text \<open>Setting up and closing a connection (class CUDT, core/core.cpp): listen, the three connect
  functions, the answers of a listener with its cookies, and close.

  A connection is changed together with what it shares with others (\<open>net\<close>): the receiver queue of its
  port, the poll objects, the path cache, and the packets handed to the channel with their
  addresses; \<open>n_complete\<close> collects the calls of connect\_complete.  The functions that wait (connect and
  close) take what the other threads do meanwhile as an argument.\<close>

subsection \<open>Shared state and handshake packets\<close>

record net =
  n_rcv :: rcv_queue
  n_epoll :: epoll
  n_cache :: cache
  n_out :: "(sockaddr \<times> cpacket) list"
  n_complete :: "int list"

definition m_iVersion :: int where "m_iVersion = 4"

definition send_to :: "sockaddr \<Rightarrow> cpacket \<Rightarrow> net \<Rightarrow> net" where
  "send_to addr p net = net\<lparr> n_out := n_out net @ [(addr, p)] \<rparr>"

text \<open>A conversion of double to int32\_t or int.\<close>

definition fp_to_i32 :: "platform \<Rightarrow> fp \<Rightarrow> int" where
  "fp_to_i32 pf x = (case x of
     Fin a \<Rightarrow> if i32_range (truncate_rat a) then truncate_rat a else i32 (pf_bad_cast pf x)
   | _ \<Rightarrow> i32 (pf_bad_cast pf x))"

text \<open>A packet with a new buffer of \<open>room\<close> bytes, \<open>mem\<close> being what the memory holds, into which the
  handshake is serialized.  With less room than a handshake needs the memory is sent as it is.\<close>

definition buffer_packet :: "(nat \<Rightarrow> byte) \<Rightarrow> int \<Rightarrow> cpacket outcome" where
  "buffer_packet mem room =
     guard_outcome Exit_Called (0 \<le> room) (pack 0 None (Some (map mem [0..<nat room])) room packet_new)"

definition handshake_packet :: "(nat \<Rightarrow> byte) \<Rightarrow> int \<Rightarrow> handshake \<Rightarrow> int \<Rightarrow> cpacket outcome" where
  "handshake_packet mem room h sid =
     bind_outcome (buffer_packet mem room) (\<lambda>p.
     map_outcome (\<lambda>(_, bs, len). setLength len (set_header 3 sid (p\<lparr> pk_data := Some bs \<rparr>)))
       (serialize h (map mem [0..<nat room]) room))"

subsection \<open>Requesting a connection\<close>

definition udt_listen :: "'s cudt \<Rightarrow> net \<Rightarrow> ('s cudt \<times> net) outcome" where
  "udt_listen c net =
     (if \<not> c_bOpened c then Inl (Udt_Error 5 0)
      else if c_bConnecting c \<or> u_bConnected (c_udt c) then Inl (Udt_Error 5 2)
      else if c_bListening c then Inr (c, net)
      else case setListener (u_SocketID (c_udt c)) (n_rcv net) of (r, q) \<Rightarrow>
        if r < 0 then Inl (Udt_Error 5 11)
        else Inr (c\<lparr> c_bListening := True \<rparr>, net\<lparr> n_rcv := q \<rparr>))"

definition initial_seq :: "platform \<Rightarrow> int \<Rightarrow> int" where
  "initial_seq pf rand =
     fp_to_i32 pf (d_mul (d_int m_iMaxSeqNo) (d_div (d_int rand) (d_int 2147483647)))"

definition set_send_seq :: "int \<Rightarrow> 's udt \<Rightarrow> 's udt" where
  "set_send_seq isn u =
     u\<lparr> u_iISN := isn, u_iLastDecSeq := i32 (isn - 1), u_iSndLastDataAck := isn, u_iSndCurrSeqNo := i32 (isn - 1) \<rparr>"

definition receive_window :: "'s cudt \<Rightarrow> int" where
  "receive_window c =
     (if c_iRcvBufSize c < u_iFlightFlagSize (c_udt c) then c_iRcvBufSize c else u_iFlightFlagSize (c_udt c))"

definition own_request :: "int \<Rightarrow> sockaddr \<Rightarrow> 's cudt \<Rightarrow> handshake" where
  "own_request isn addr c =
     (let u = c_udt c; r = c_ConnReq c in
      r\<lparr> hs_version := word_of_int m_iVersion, hs_type := (if u_dgram u then 2 else 1),
        hs_isn := word_of_int isn, hs_mss := word_of_int (u_iMSS u),
        hs_flight_flag_size := word_of_int (receive_window c),
        hs_req_type := (if u_bRendezvous u then 0 else 1), hs_id := word_of_int (u_SocketID u),
        hs_peer_ip := ntop addr (hs_peer_ip r) (c_iIPversion c) \<rparr>)"

definition request_ttl :: "readings \<Rightarrow> 's cudt \<Rightarrow> int" where
  "request_ttl rd c = u64 ((if u_bRendezvous (c_udt c) then 30000000 else 3000000) + rd_us rd 0)"

text \<open>The first half of connect.  An exception is returned with the state in which it is thrown.\<close>

definition connect_request ::
  "platform \<Rightarrow> readings \<Rightarrow> (nat \<Rightarrow> byte) \<Rightarrow> sockaddr \<Rightarrow> 's cudt \<times> net
     \<Rightarrow> (failure option \<times> 's cudt \<times> net) outcome" where
  "connect_request pf rd mem addr = (\<lambda>(c, net).
     if \<not> c_bOpened c then Inr (Some (Udt_Error 5 0), c, net)
     else if c_bListening c then Inr (Some (Udt_Error 5 2), c, net)
     else if c_bConnecting c \<or> u_bConnected (c_udt c) then Inr (Some (Udt_Error 5 2), c, net)
     else let sid = u_SocketID (c_udt c); isn = initial_seq pf (rd_rand rd);
              c1 = (on_udt (set_send_seq isn) c)
                     \<lparr> c_pPeerAddr := Some addr, c_ConnReq := own_request isn addr c \<rparr>;
              net1 = net\<lparr> n_rcv := registerConnector sid sid (c_iIPversion c) addr (request_ttl rd c) (n_rcv net) \<rparr>
          in map_outcome (\<lambda>p. (None, c1\<lparr> c_llLastReqTime := i64 (rd_us rd 1), c_bConnecting := True \<rparr>,
                               send_to addr p net1))
               (handshake_packet mem (u_iPayloadSize (c_udt c)) (c_ConnReq c1) 0))"

subsection \<open>Both ends of the handshake\<close>

definition set_packet_sizes :: "int \<Rightarrow> 's udt \<Rightarrow> 's udt" where
  "set_packet_sizes mss u =
     (let pkt = i32 (mss - 28); payload = i32 (pkt - m_iPktHdrSize) in
      u\<lparr> u_iMSS := mss, u_iPktSize := pkt, u_iPayloadSize := payload, u_iRcvPayloadSize := payload \<rparr>)"

definition adopt_peer :: "int \<Rightarrow> int \<Rightarrow> int \<Rightarrow> 32 word list \<Rightarrow> 's cudt \<Rightarrow> 's cudt" where
  "adopt_peer isn peer_id flow self_ip c =
     (on_udt (\<lambda>u. u\<lparr> u_PeerID := peer_id \<rparr>) c)
       \<lparr> c_iFlowWindowSize := flow, c_iPeerISN := isn, c_iRcvLastAck := isn, c_iRcvLastAckAck := isn,
         c_iRcvCurrSeqNo := i32 (isn - 1), c_piSelfIP := self_ip \<rparr>"

text \<open>The buffers.  The size of the receive buffer is passed as first sequence number, so the buffer
  has its default size.  A negative size of the loss list makes \<open>new\<close> throw; \<open>e\<close> is what becomes
  of that.\<close>

definition prepare_buffers :: "failure \<Rightarrow> readings \<Rightarrow> 's cudt \<Rightarrow> 's cudt outcome" where
  "prepare_buffers e rd c =
     guard_outcome e (0 \<le> i32 (c_iFlowWindowSize c * 2))
       (Inr ((on_udt (\<lambda>u. u\<lparr> u_pSndBuffer := snd_buffer_new 64 (u_iPayloadSize u) \<rparr>) c)
          \<lparr> c_snd_allocated := True, c_pRcvBuffer := Some (rcv_buffer_new (c_iRcvBufSize c) 65536),
            c_pRcvTimeWindow := Some (time_window_new (rd_us rd 2) 16 64) \<rparr>))"

text \<open>RTT and bandwidth are taken from the path cache; \<open>junk\<close> is what the new CInfoBlock holds.\<close>

definition path_block :: "info_block \<Rightarrow> sockaddr \<Rightarrow> 's cudt \<Rightarrow> info_block" where
  "path_block junk addr c = junk\<lparr> ib_version := c_iIPversion c, ib_ip := ib_convert addr (c_iIPversion c) \<rparr>"

definition recall_path :: "info_block \<Rightarrow> sockaddr \<Rightarrow> cache \<Rightarrow> 's cudt \<Rightarrow> 's cudt outcome" where
  "recall_path junk addr ca c =
     map_outcome (\<lambda>(r, ib). if r \<ge> 0
         then (on_udt (\<lambda>u. u\<lparr> u_iRTT := d_int (ib_rtt ib) \<rparr>) c)\<lparr> c_iBandwidth := ib_bandwidth ib \<rparr> else c)
       (cache_lookup (path_block junk addr c) ca)"

definition register_socket :: "int \<Rightarrow> rcv_queue \<Rightarrow> rcv_queue" where
  "register_socket sid q = setNewEntry sid (q\<lparr> rq_list := upd_node sid (\<lambda>r. r\<lparr> rn_on := True \<rparr>) (rq_list q) \<rparr>)"

definition complete_connect :: "'s cudt \<Rightarrow> net \<Rightarrow> int \<times> 's cudt \<times> net" where
  "complete_connect c net =
     (let sid = u_SocketID (c_udt c); (polls, ep) = enable_write sid (c_PollID c, n_epoll net) in
      (0, (on_udt (\<lambda>u. u\<lparr> u_bConnected := True, u_epoll_write := True \<rparr>) c)
            \<lparr> c_bConnecting := False, c_PollID := polls \<rparr>,
       net\<lparr> n_rcv := register_socket sid (n_rcv net), n_epoll := ep,
            n_complete := n_complete net @ [sid] \<rparr>))"

text \<open>The part of connect(response) behind POST\_CONNECT.  It is declared not to throw, so an exception
  ends the process.\<close>

definition post_connect :: "readings \<Rightarrow> info_block \<Rightarrow> 's cudt \<Rightarrow> net \<Rightarrow> (int \<times> 's cudt \<times> net) outcome" where
  "post_connect rd junk c net =
     (let res = c_ConnRes c;
          net1 = net\<lparr> n_rcv := removeConnector (u_SocketID (c_udt c)) (n_rcv net) \<rparr>;
          c1 = adopt_peer (sint (hs_isn res)) (sint (hs_id res)) (sint (hs_flight_flag_size res)) (hs_peer_ip res)
                 (on_udt (set_packet_sizes (sint (hs_mss res))) c)
      in bind_outcome (prepare_buffers Exit_Called rd c1) (\<lambda>c2.
           case c_pPeerAddr c2 of None \<Rightarrow> Inl Null_Deref
           | Some addr \<Rightarrow> map_outcome (\<lambda>c3. complete_connect c3 net1) (recall_path junk addr (n_cache net1) c2)))"

text \<open>connect(response): 0 is success, -1 an error, 1 asks for another round.\<close>

definition connect_response ::
  "readings \<Rightarrow> info_block \<Rightarrow> cpacket \<Rightarrow> 's cudt \<times> net \<Rightarrow> (int \<times> 's cudt \<times> net) outcome" where
  "connect_response rd junk response = (\<lambda>(c, net).
     let u = c_udt c in
     if \<not> c_bConnecting c then Inr (-1, c, net)
     else if u_bRendezvous u \<and> (getFlag response = 0 \<or> getType response = 1) \<and> hs_type (c_ConnRes c) \<noteq> 0
     then post_connect rd junk c net
     else if getFlag response \<noteq> 1 \<or> getType response \<noteq> 0 then Inr (-1, c, net)
     else case pk_data response of None \<Rightarrow> Inl Null_Deref
     | Some bs \<Rightarrow>
         bind_outcome (deserialize bs (getLength response) (c_ConnRes c)) (\<lambda>(_, res).
           let c1 = c\<lparr> c_ConnRes := res \<rparr>; req = c_ConnReq c in
           if u_bRendezvous u then
             (if hs_req_type res = 1 then Inr (-1, c1, net)
              else if hs_req_type req = 0 \<or> hs_req_type res = 0
              then Inr (1, c1\<lparr> c_ConnReq := req\<lparr> hs_req_type := -1 \<rparr>, c_llLastReqTime := 0 \<rparr>, net)
              else post_connect rd junk c1 net)
           else if hs_req_type res = 1
           then Inr (1, c1\<lparr> c_ConnReq := req\<lparr> hs_req_type := -1, hs_cookie := hs_cookie res \<rparr>,
                            c_llLastReqTime := 0 \<rparr>, net)
           else post_connect rd junk c1 net))"

text \<open>connect(peer, hs): the socket a listener has created answers the request.\<close>

definition connect_peer ::
  "readings \<Rightarrow> info_block \<Rightarrow> (nat \<Rightarrow> byte) \<Rightarrow> sockaddr \<Rightarrow> handshake \<Rightarrow> 's cudt \<times> net
     \<Rightarrow> (handshake \<times> 's cudt \<times> net) outcome" where
  "connect_peer rd junk mem peer hs = (\<lambda>(c, net).
     let mss = (if sint (hs_mss hs) > u_iMSS (c_udt c) then u_iMSS (c_udt c) else sint (hs_mss hs));
         isn = sint (hs_isn hs);
         c1 = adopt_peer isn (sint (hs_id hs)) (sint (hs_flight_flag_size hs)) (hs_peer_ip hs)
                (on_udt (\<lambda>u. set_packet_sizes mss (set_send_seq isn u)) c);
         hs1 = hs\<lparr> hs_mss := word_of_int mss, hs_flight_flag_size := word_of_int (receive_window c),
                  hs_id := word_of_int (u_SocketID (c_udt c)), hs_req_type := -1,
                  hs_peer_ip := ntop peer (hs_peer_ip hs) (c_iIPversion c) \<rparr>
     in bind_outcome (prepare_buffers (Udt_Error 3 2) rd c1) (\<lambda>c2.
        bind_outcome (recall_path junk peer (n_cache net) c2) (\<lambda>c3.
        map_outcome (\<lambda>p. (hs1, (on_udt (\<lambda>u. u\<lparr> u_bConnected := True \<rparr>) c3)\<lparr> c_pPeerAddr := Some peer \<rparr>,
            send_to peer p (net\<lparr> n_rcv := register_socket (u_SocketID (c_udt c)) (n_rcv net) \<rparr>)))
          (handshake_packet mem hs_iContentSize hs1 (sint (hs_id hs))))))"

subsection \<open>Waiting for the response\<close>

text \<open>What one turn of the loop reads from outside: clocks, the uninitialised CInfoBlock and response
  buffer, and the receiver queue when the timed wait of recvfrom ends.\<close>

record turn =
  tn_rd :: readings
  tn_junk :: info_block
  tn_mem :: "nat \<Rightarrow> byte"
  tn_waited :: "rcv_queue \<Rightarrow> rcv_queue"

text \<open>At most one request in 250 ms; \<open>room\<close> is the size of the buffers and \<open>mem\<close> the request's.\<close>

definition repeat_request ::
  "readings \<Rightarrow> (nat \<Rightarrow> byte) \<Rightarrow> int \<Rightarrow> sockaddr \<Rightarrow> 's cudt \<times> net \<Rightarrow> ('s cudt \<times> net) outcome" where
  "repeat_request rd mem room addr = (\<lambda>(c, net).
     if u64 (rd_us rd 0 - c_llLastReqTime c) > 250000 then
       map_outcome (\<lambda>p. (c\<lparr> c_llLastReqTime := i64 (rd_us rd 1) \<rparr>, send_to addr p net))
         (handshake_packet mem room (c_ConnReq c)
           (if u_bRendezvous (c_udt c) then sint (hs_id (c_ConnRes c)) else 0))
     else Inr (c, net))"

text \<open>Result of a turn: whether to go on, and the exception.\<close>

definition connect_turn ::
  "turn \<Rightarrow> (nat \<Rightarrow> byte) \<Rightarrow> int \<Rightarrow> int \<Rightarrow> sockaddr \<Rightarrow> 's cudt \<times> net
     \<Rightarrow> (bool \<times> failure option \<times> 's cudt \<times> net) outcome" where
  "connect_turn tn mem room ttl addr st0 =
     bind_outcome (repeat_request (tn_rd tn) mem room addr st0) (\<lambda>(c, net).
     bind_outcome (buffer_packet (tn_mem tn) room) (\<lambda>resp.
     bind_outcome (rq_recvfrom (tn_waited tn) (u_SocketID (c_udt c)) (setLength room resp) (n_rcv net))
       (\<lambda>(n, response, q).
         let go_on = (\<lambda>c1 net1. if rd_us (tn_rd tn) 3 > ttl then (False, Some (Udt_Error 1 1), c1, net1)
                                else (True, None, c1, net1));
             net1 = net\<lparr> n_rcv := q \<rparr>
         in if n > 0 then
              map_outcome (\<lambda>(r, c1, net2). if r \<le> 0 then (False, None, c1, net2)
                                          else go_on (c1\<lparr> c_llLastReqTime := 0 \<rparr>) net2)
                (connect_response (tn_rd tn) (tn_junk tn) response (c, net1))
            else Inr (go_on c net1))))"

text \<open>\<open>meanwhile k\<close> is what the other threads do before turn \<open>k\<close>.\<close>

primrec connect_loop ::
  "nat \<Rightarrow> nat \<Rightarrow> (nat \<Rightarrow> 's cudt \<times> net \<Rightarrow> 's cudt \<times> net) \<Rightarrow> (nat \<Rightarrow> turn) \<Rightarrow> (nat \<Rightarrow> byte) \<Rightarrow> int \<Rightarrow> int
     \<Rightarrow> sockaddr \<Rightarrow> 's cudt \<times> net \<Rightarrow> (failure option \<times> 's cudt \<times> net) outcome" where
  "connect_loop 0 k meanwhile turns mem room ttl addr st = Inl Diverges"
| "connect_loop (Suc fuel) k meanwhile turns mem room ttl addr st =
     (case meanwhile k st of (c, net) \<Rightarrow>
        if u_bClosing (c_udt c) then Inr (None, c, net)
        else bind_outcome (connect_turn (turns k) mem room ttl addr (c, net)) (\<lambda>(again, e, st1).
          if again then connect_loop fuel (Suc k) meanwhile turns mem room ttl addr st1 else Inr (e, st1)))"

definition connect_verdict :: "failure option \<Rightarrow> 's cudt \<Rightarrow> failure option" where
  "connect_verdict e c =
     (if e \<noteq> None then e
      else if u_bClosing (c_udt c) then Some (Udt_Error 1 0)
      else if hs_req_type (c_ConnRes c) = 1002 then Some (Udt_Error 1 2)
      else if \<not> u_bRendezvous (c_udt c) \<and> u_iISN (c_udt c) \<noteq> sint (hs_isn (c_ConnRes c)) then Some (Udt_Error 1 4)
      else None)"

definition udt_connect ::
  "nat \<Rightarrow> (nat \<Rightarrow> 's cudt \<times> net \<Rightarrow> 's cudt \<times> net) \<Rightarrow> (nat \<Rightarrow> turn) \<Rightarrow> platform \<Rightarrow> readings \<Rightarrow> (nat \<Rightarrow> byte)
     \<Rightarrow> sockaddr \<Rightarrow> 's cudt \<times> net \<Rightarrow> (failure option \<times> 's cudt \<times> net) outcome" where
  "udt_connect fuel meanwhile turns pf rd mem addr st0 =
     bind_outcome (connect_request pf rd mem addr st0) (\<lambda>(e, c, net).
       if e \<noteq> None \<or> \<not> c_bSynRecving c then Inr (e, c, net)
       else map_outcome (\<lambda>(e, c, net). (connect_verdict e c, c, net))
         (connect_loop fuel 0 meanwhile turns mem (u_iPayloadSize (c_udt c)) (request_ttl rd c) addr (c, net)))"

subsection \<open>The listener\<close>

text \<open>The text of a cookie: host and port as getnameinfo prints them, and the minute.\<close>

fun decimal :: "nat \<Rightarrow> byte list" where
  "decimal n = (if n < 10 then [48 + of_nat n] else decimal (n div 10) @ [48 + of_nat (n mod 10)])"

declare decimal.simps [simp del]

definition decimal_int :: "int \<Rightarrow> byte list" where
  "decimal_int i = (if i < 0 then 45 # decimal (nat (- i)) else decimal (nat i))"

definition cookie_text :: "byte list \<Rightarrow> byte list \<Rightarrow> int \<Rightarrow> byte list" where
  "cookie_text host port minute = host @ [58] @ port @ [58] @ decimal_int minute"

definition cookie_of :: "byte list \<Rightarrow> byte list \<Rightarrow> 32 word" where
  "cookie_of mem txt = (let d = md5_compute mem txt in word_of_bytes4 (d ! 0) (d ! 1) (d ! 2) (d ! 3))"

text \<open>The cookie must be that of the minute; if it is not, the text of the minute before is appended to
  the stream and the digest is taken again.\<close>

definition cookie_accepted :: "byte list \<Rightarrow> byte list \<Rightarrow> byte list \<Rightarrow> int \<Rightarrow> 32 word \<Rightarrow> bool" where
  "cookie_accepted mem host port minute cookie \<longleftrightarrow>
     cookie = cookie_of mem (cookie_text host port minute)
     \<or> cookie = cookie_of mem (cookie_text host port minute @ cookie_text host port (minute - 1))"

definition cookie_minute :: "int \<Rightarrow> 's cudt \<Rightarrow> int" where
  "cookie_minute now c = u64 (now - u_StartTime (c_udt c)) div 60000000"

definition send_back :: "sockaddr \<Rightarrow> handshake \<Rightarrow> cpacket \<Rightarrow> int \<Rightarrow> int \<Rightarrow> net \<Rightarrow> net outcome" where
  "send_back addr hs packet sz sid net =
     (case pk_data packet of None \<Rightarrow> Inl Null_Deref
      | Some bs \<Rightarrow> map_outcome (\<lambda>(_, bs1, _). send_to addr (set_header 3 sid (packet\<lparr> pk_data := Some bs1 \<rparr>)) net)
                    (serialize hs bs sz))"

text \<open>CUDT::listen for a packet.  \<open>names\<close> gives host and port of an address, \<open>new_connection\<close> is
  CUDTUnited::newConnection, which works on its own state \<open>w\<close>.\<close>

definition listen_packet ::
  "(sockaddr \<Rightarrow> byte list \<times> byte list) \<Rightarrow> byte list \<Rightarrow> int
     \<Rightarrow> (int \<Rightarrow> sockaddr \<Rightarrow> handshake \<Rightarrow> net \<times> 'w \<Rightarrow> (int \<times> handshake \<times> net \<times> 'w) outcome)
     \<Rightarrow> sockaddr \<Rightarrow> cpacket \<Rightarrow> 's cudt \<times> net \<times> 'w \<Rightarrow> (int \<times> 's cudt \<times> net \<times> 'w) outcome" where
  "listen_packet names mem now new_connection addr packet = (\<lambda>(c, net, w).
     if u_bClosing (c_udt c) then Inr (1002, c, net, w)
     else if getLength packet \<noteq> hs_iContentSize then Inr (1004, c, net, w)
     else case pk_data packet of None \<Rightarrow> Inl Null_Deref
     | Some bs \<Rightarrow>
       bind_outcome (deserialize bs (getLength packet) handshake_new) (\<lambda>(_, hs).
         case names addr of (host, port) \<Rightarrow>
         let minute = cookie_minute now c; sid = sint (hs_id hs) in
         if hs_req_type hs = 1 then
           map_outcome (\<lambda>net1. (0, c, net1, w))
             (send_back addr (hs\<lparr> hs_cookie := cookie_of mem (cookie_text host port minute) \<rparr>) packet
               (getLength packet) sid net)
         else if \<not> cookie_accepted mem host port minute (hs_cookie hs) then Inr (-1, c, net, w)
         else if getFlag packet = 1 \<and> getType packet = 0 then
           (if hs_version hs \<noteq> word_of_int m_iVersion \<or> hs_type hs \<noteq> (if u_dgram (c_udt c) then 2 else 1) then
              map_outcome (\<lambda>net1. (1002, c, net1, w))
                (send_back addr (hs\<lparr> hs_req_type := 1002 \<rparr>) packet hs_iContentSize sid net)
            else
              bind_outcome (new_connection (u_SocketID (c_udt c)) addr hs (net, w)) (\<lambda>(result, hs1, net1, w1).
                let hs2 = (if result = -1 then hs1\<lparr> hs_req_type := 1002 \<rparr> else hs1) in
                if result \<noteq> 1 then
                  map_outcome (\<lambda>net2. (sint (hs_req_type hs2), c, net2, w1))
                    (send_back addr hs2 packet hs_iContentSize sid net1)
                else case enable_write (u_SocketID (c_udt c)) (c_PollID c, n_epoll net1) of (polls, ep) \<Rightarrow>
                  Inr (sint (hs_req_type hs2), c\<lparr> c_PollID := polls \<rparr>, net1\<lparr> n_epoll := ep \<rparr>, w1)))
         else Inr (sint (hs_req_type hs), c, net, w)))"

subsection \<open>Closing\<close>

text \<open>While the send buffer is not empty, close waits up to the linger time; without blocking sending
  it returns at once (result True) and notes when the time ends.\<close>

primrec linger_loop ::
  "nat \<Rightarrow> nat \<Rightarrow> (nat \<Rightarrow> 's cudt \<times> net \<Rightarrow> 's cudt \<times> net) \<Rightarrow> (nat \<Rightarrow> int) \<Rightarrow> int \<Rightarrow> 's cudt \<times> net
     \<Rightarrow> (bool \<times> 's cudt \<times> net) outcome" where
  "linger_loop 0 k meanwhile clock entertime st = Inl Diverges"
| "linger_loop (Suc fuel) k meanwhile clock entertime st =
     (case meanwhile k st of (c, net) \<Rightarrow>
        let u = c_udt c; limit = u64 (snd (c_Linger c) * 1000000) in
        if \<not> u_bBroken u \<and> u_bConnected u \<and> getCurrBufSize (u_pSndBuffer u) > 0
           \<and> u64 (clock k - entertime) < limit then
          (if c_ullLingerExpiration c \<ge> entertime then Inr (False, c, net)
           else if \<not> u_bSynSending u then
             Inr (True, (if c_ullLingerExpiration c = 0
                         then c\<lparr> c_ullLingerExpiration := u64 (entertime + limit) \<rparr> else c), net)
           else linger_loop fuel (Suc k) meanwhile clock entertime (c, net))
        else Inr (False, c, net))"

text \<open>The socket leaves the poll objects until one of them does not exist.\<close>

fun leave_polls :: "int \<Rightarrow> int list \<Rightarrow> epoll \<Rightarrow> epoll" where
  "leave_polls sid [] ep = ep"
| "leave_polls sid (e # es) ep =
     (case remove_usock e sid ep of Inl _ \<Rightarrow> ep | Inr ep1 \<Rightarrow> leave_polls sid es ep1)"

definition leave_ports :: "'s cudt \<Rightarrow> rcv_queue \<Rightarrow> 's cudt \<times> rcv_queue" where
  "leave_ports c q =
     (let sid = u_SocketID (c_udt c) in
      if c_bListening c then (c\<lparr> c_bListening := False \<rparr>, removeListener sid q)
      else (c, removeConnector sid q))"

definition remember_path :: "platform \<Rightarrow> info_block \<Rightarrow> 32 word \<Rightarrow> 's cudt \<Rightarrow> cache \<Rightarrow> cache outcome" where
  "remember_path pf junk word c ca =
     (case c_pPeerAddr c of None \<Rightarrow> Inl Null_Deref
      | Some addr \<Rightarrow> map_outcome snd (cache_update word
          ((path_block junk addr c)\<lparr> ib_rtt := fp_to_i32 pf (u_iRTT (c_udt c)), ib_bandwidth := c_iBandwidth c \<rparr>) ca))"

definition disconnect ::
  "platform \<Rightarrow> readings \<Rightarrow> info_block \<Rightarrow> 32 word \<Rightarrow> 's cudt \<times> net \<Rightarrow> ('s cudt \<times> net) outcome" where
  "disconnect pf rd junk word = (\<lambda>(c, net).
     if u_bConnected (c_udt c) then
       bind_outcome (if u_bShutdown (c_udt c) then Inr (c_udt c) else sendCtrl rd 5 None None 0 (c_udt c)) (\<lambda>u.
       map_outcome (\<lambda>ca. (on_udt (\<lambda>_. u\<lparr> u_bConnected := False \<rparr>) c, net\<lparr> n_cache := ca \<rparr>))
         (remember_path pf junk word c (n_cache net)))
     else Inr (c, net))"

definition close_now ::
  "platform \<Rightarrow> readings \<Rightarrow> info_block \<Rightarrow> 32 word \<Rightarrow> 's cudt \<times> net \<Rightarrow> ('s cudt \<times> net) outcome" where
  "close_now pf rd junk word = (\<lambda>(c, net).
     let c1 = on_udt (\<lambda>u. u\<lparr> u_on_snd_list := (if u_bConnected u then False else u_on_snd_list u) \<rparr>) c;
         net1 = net\<lparr> n_epoll :=
           leave_polls (u_SocketID (c_udt c)) (sorted_list_of_set (c_PollID c)) (n_epoll net) \<rparr>
     in if \<not> c_bOpened c1 then Inr (c1, net1)
        else case leave_ports (on_udt (\<lambda>u. u\<lparr> u_bClosing := True \<rparr>) c1) (n_rcv net1) of (c2, q) \<Rightarrow>
          map_outcome (\<lambda>(c3, net2). (c3\<lparr> c_bOpened := False \<rparr>, net2))
            (disconnect pf rd junk word (c2, net1\<lparr> n_rcv := q \<rparr>)))"

definition udt_close ::
  "nat \<Rightarrow> (nat \<Rightarrow> 's cudt \<times> net \<Rightarrow> 's cudt \<times> net) \<Rightarrow> (nat \<Rightarrow> int) \<Rightarrow> int \<Rightarrow> platform \<Rightarrow> readings \<Rightarrow> info_block
     \<Rightarrow> 32 word \<Rightarrow> 's cudt \<times> net \<Rightarrow> ('s cudt \<times> net) outcome" where
  "udt_close fuel meanwhile clock entertime pf rd junk word st =
     (if \<not> c_bOpened (fst st) then Inr st
      else bind_outcome
        (if fst (c_Linger (fst st)) \<noteq> 0 then linger_loop fuel 0 meanwhile clock entertime st else Inr (False, st))
        (\<lambda>(early, st1). if early then Inr st1 else close_now pf rd junk word st1))"

end
