(* ===== verification/Udt_Agreement.thy ===== *)
theory Udt_Agreement
  imports Udt_Setup Udt_Contract
begin

text \<open>Properties of the setup of a connection (Udt\_Setup): the two ends of a handshake agree, a stray
  packet makes connect report a connection that does not exist, and close ends.  A handshake travels as a packet that \<open>carries\<close> it; the lemmas give the effect of each step
  in terms of the handshakes.\<close>

subsection \<open>Packets that carry a handshake\<close>

definition hs_wf :: "handshake \<Rightarrow> bool" where
  "hs_wf h \<longleftrightarrow> length (hs_peer_ip h) = 4"

definition carries :: "handshake \<Rightarrow> cpacket \<Rightarrow> bool" where
  "carries h p \<longleftrightarrow> getFlag p = 1 \<and> getType p = 0 \<and> getLength p = 48 \<and> length (pk_header p) = 4
     \<and> (\<exists>rest. pk_data p = Some (bytes_of_words (handshake_words h) @ rest))"

lemma handshake_bytes_length: "hs_wf h \<Longrightarrow> length (bytes_of_words (handshake_words h)) = 48"
  by (simp add: hs_wf_def handshake_words_length del: bytes_of_words_simps)

lemma carries_deserialize:
  assumes "carries h p" "hs_wf h"
  obtains bs where "pk_data p = Some bs" "\<And>h0. deserialize bs (getLength p) h0 = Inr (0, h)"
proof -
  obtain rest where d: "pk_data p = Some (bytes_of_words (handshake_words h) @ rest)" and l: "getLength p = 48"
    using assms(1) by (auto simp: carries_def)
  show thesis
    by (rule that [OF d], unfold l, rule deserialize_words)
      (use assms(2) handshake_bytes_length [OF assms(2)] in \<open>simp_all add: hs_wf_def del: bytes_of_words_simps\<close>)
qed

lemma control_header: "drop_bit 31 (0x80000000 :: 32 word) = 1" "drop_bit 16 (0x80000000 :: 32 word) AND 0x7FFF = 0"
  using control_word_fields [of 0] by simp_all

lemma handshake_packet_carries:
  assumes "48 \<le> room" "room < 2147483648" "hs_wf h"
  shows "\<exists>p. handshake_packet mem room h sid = Inr p \<and> carries h p"
proof -
  let ?p = "\<lparr> pk_header = [0x80000000, 0, 0, word_of_int sid],
      pk_data = Some (bytes_of_words (handshake_words h) @ drop 48 (map mem [0..<nat room])), pk_len = 48 \<rparr>"
  have "48 \<le> nat room" using assms(1) by simp
  then have "handshake_packet mem room h sid = Inr ?p"
    using assms(1,2) by (simp add: handshake_packet_def buffer_packet_def pack_def Let_def set_vector_def packet_new_def
      serialize_def hs_iContentSize_def set_header_def setLength_def numeral_3_eq_3 del: bytes_of_words_simps)
  moreover have "carries h ?p"
    using control_header by (simp add: carries_def getFlag_def getType_def getLength_def del: bytes_of_words_simps)
  ultimately show ?thesis by blast
qed

lemma send_back_carries:
  assumes "carries h p" "hs_wf h"
  shows "\<exists>p'. send_back addr h' p 48 sid net = Inr (send_to addr p' net) \<and> carries h' p'"
proof -
  obtain rest where d: "pk_data p = Some (bytes_of_words (handshake_words h) @ rest)"
    using assms(1) by (auto simp: carries_def)
  let ?p = "set_header 3 sid (p\<lparr> pk_data := Some (bytes_of_words (handshake_words h')
      @ drop 48 (bytes_of_words (handshake_words h) @ rest)) \<rparr>)"
  have "send_back addr h' p 48 sid net = Inr (send_to addr ?p net)"
    using d handshake_bytes_length [OF assms(2)]
    by (simp add: send_back_def serialize_def hs_iContentSize_def del: bytes_of_words_simps)
  moreover have "carries h' ?p"
    using assms(1) by (auto simp: carries_def getFlag_def getType_def getLength_def set_header_def)
  ultimately show ?thesis by blast
qed

lemma send_to_last [simp]: "n_out (send_to addr p net) = n_out net @ [(addr, p)]"
  by (simp add: send_to_def)

subsection \<open>Steps\<close>

lemma sint32 [simp]: "i32_range x \<Longrightarrow> sint (word_of_int x :: 32 word) = x"
  by (rule sint_word_of_int32)

lemma length_ntop [simp]: "length (ntop a ip ver) = length ip"
  by (simp add: ntop_def Let_def)

lemma initial_seq_range:
  assumes "0 \<le> rand" "rand \<le> 2147483647"
  shows "0 \<le> initial_seq pf rand \<and> initial_seq pf rand \<le> 2147483647"
proof -
  define q :: rat where "q = of_int rand / 2147483647"
  have q: "0 \<le> q" "q \<le> 1" using assms by (auto simp: q_def)
  have ints: "d_int rand = Fin (of_int rand)" "d_int 2147483647 = Fin 2147483647"
    using rnd64_int [of rand] rnd64_int [of 2147483647] assms by (simp_all add: fp_of_int_def)
  have between: "\<exists>a. rnd B64 x = Fin a \<and> 0 \<le> a \<and> a \<le> of_int n"
    if x: "0 \<le> x" "x \<le> of_int n" "n \<le> 2147483647" "0 \<le> n" for x n
  proof -
    have "fp_le (Fin 0) (rnd B64 x)" "fp_le (rnd B64 x) (Fin (of_int n))"
      using rnd_mono [OF x(1), of B64] rnd_mono [OF x(2), of B64] rnd64_int [of n] x(3,4) by simp_all
    then show ?thesis by (cases "rnd B64 x") (auto simp: fp_le_def)
  qed
  obtain a where a: "rnd B64 q = Fin a" "0 \<le> a" "a \<le> 1" using between [of q 1] q by auto
  then have m: "0 \<le> 2147483647 * a" "2147483647 * a \<le> of_int 2147483647" by auto
  then obtain b where b: "rnd B64 (2147483647 * a) = Fin b" "0 \<le> b" "b \<le> 2147483647"
    using between [of "2147483647 * a" 2147483647] by auto
  have "initial_seq pf rand = fp_to_i32 pf (Fin b)"
    using ints a(1) b(1) by (simp add: initial_seq_def m_iMaxSeqNo_def q_def)
  moreover have "0 \<le> \<lfloor>b\<rfloor>" "\<lfloor>b\<rfloor> \<le> 2147483647" using b(2,3) by (auto simp: floor_le_iff)
  ultimately show ?thesis using b(2) by (simp add: fp_to_i32_def truncate_rat_def i32_range_def)
qed

lemma recall_path_total:
  assumes "cache_inv ca" "c_iIPversion c = AF_INET"
  shows "\<exists>rtt bw. recall_path junk addr ca c = Inr ((on_udt (\<lambda>u. u\<lparr> u_iRTT := rtt \<rparr>) c)\<lparr> c_iBandwidth := bw \<rparr>)"
proof -
  let ?d = "path_block junk addr c"
  have v: "ib_version ?d = AF_INET" using assms(2) by (simp add: path_block_def)
  have "\<exists>r ib. cache_lookup ?d ca = Inr (r, ib)"
  proof (cases "0 \<le> getKey ?d")
    case True
    then show ?thesis using find_in_slot [OF assms(1) v]
      by (cases "cached ca (ib_ip ?d ! 0)") (auto simp: cache_lookup_def)
  qed (simp add: cache_lookup_def)
  then obtain r ib where l: "cache_lookup ?d ca = Inr (r, ib)" by blast
  have same: "c = (on_udt (\<lambda>u. u\<lparr> u_iRTT := u_iRTT (c_udt c) \<rparr>) c)\<lparr> c_iBandwidth := c_iBandwidth c \<rparr>"
    by (simp add: on_udt_def)
  show ?thesis
  proof (cases "r \<ge> 0")
    case True
    then show ?thesis using l by (auto simp: recall_path_def)
  next
    case False
    then have "recall_path junk addr ca c = Inr c" using l by (simp add: recall_path_def)
    then show ?thesis using same by metis
  qed
qed

text \<open>The first request and the cookie.\<close>

lemma own_request_wf: "hs_wf (c_ConnReq c) \<Longrightarrow> hs_wf (own_request isn addr c)"
  by (simp add: hs_wf_def own_request_def Let_def)

definition requested :: "platform \<Rightarrow> readings \<Rightarrow> sockaddr \<Rightarrow> 's cudt \<Rightarrow> 's cudt" where
  "requested pf rd addr c =
     (let isn = initial_seq pf (rd_rand rd) in
      (on_udt (set_send_seq isn) c)
        \<lparr> c_pPeerAddr := Some addr, c_ConnReq := own_request isn addr c,
          c_llLastReqTime := i64 (rd_us rd 1), c_bConnecting := True \<rparr>)"

lemma request_step:
  assumes "c_bOpened c" "\<not> c_bListening c" "\<not> c_bConnecting c" "\<not> u_bConnected (c_udt c)" "hs_wf (c_ConnReq c)"
    "48 \<le> u_iPayloadSize (c_udt c)" "u_iPayloadSize (c_udt c) < 2147483648"
  shows "\<exists>p net1. connect_request pf rd mem addr (c, net) = Inr (None, requested pf rd addr c, send_to addr p net1)
    \<and> carries (own_request (initial_seq pf (rd_rand rd)) addr c) p \<and> n_cache net1 = n_cache net"
  using handshake_packet_carries [OF assms(6,7) own_request_wf [OF assms(5)], of mem _ addr 0] assms(1-4)
  by (force simp: connect_request_def requested_def Let_def)

lemma cookie_step:
  assumes "carries h p" "hs_wf h" "hs_req_type h = 1" "\<not> u_bClosing (c_udt l)"
  shows "\<exists>p'. listen_packet names cm now nc addr p (l, lnet, w) = Inr (0, l, send_to addr p' lnet, w)
    \<and> carries (h\<lparr> hs_cookie := cookie_of cm (cookie_text (fst (names addr)) (snd (names addr)) (cookie_minute now l)) \<rparr>) p'"
proof -
  obtain bs where bs: "pk_data p = Some bs" "\<And>h0. deserialize bs (getLength p) h0 = Inr (0, h)"
    using carries_deserialize [OF assms(1,2)] by blast
  have len: "getLength p = 48" using assms(1) by (simp add: carries_def)
  show ?thesis
    using send_back_carries [OF assms(1,2), of addr _ "sint (hs_id h)" lnet] bs assms(3,4) len
    by (fastforce simp: listen_packet_def hs_iContentSize_def Let_def split: prod.splits)
qed

lemma cookie_received:
  assumes "carries h p" "hs_wf h" "hs_req_type h = 1" "c_bConnecting c" "\<not> u_bRendezvous (c_udt c)"
  shows "connect_response rd junk p (c, net) =
    Inr (1, c\<lparr> c_ConnRes := h, c_ConnReq := (c_ConnReq c)\<lparr> hs_req_type := -1, hs_cookie := hs_cookie h \<rparr>,
               c_llLastReqTime := 0 \<rparr>, net)"
proof -
  obtain bs where bs: "pk_data p = Some bs" "\<And>h0. deserialize bs (getLength p) h0 = Inr (0, h)"
    using carries_deserialize [OF assms(1,2)] by blast
  then show ?thesis using assms by (simp add: connect_response_def carries_def Let_def)
qed

lemma repeat_step:
  assumes "c_llLastReqTime c = 0" "250000 < rd_us rd 0" "rd_us rd 0 < 18446744073709551616"
    "hs_wf (c_ConnReq c)" "48 \<le> room" "room < 2147483648"
  shows "\<exists>p. repeat_request rd mem room addr (c, net)
      = Inr (c\<lparr> c_llLastReqTime := i64 (rd_us rd 1) \<rparr>, send_to addr p net) \<and> carries (c_ConnReq c) p"
  using handshake_packet_carries [OF assms(5,6,4), of mem] assms(1-3) by (fastforce simp: repeat_request_def)

text \<open>The end of the handshake on either side.\<close>

definition joined :: "'s cudt \<Rightarrow> int \<Rightarrow> int \<Rightarrow> int \<Rightarrow> int \<Rightarrow> 's cudt \<Rightarrow> bool" where
  "joined c0 mss isn peer_id flow c \<longleftrightarrow>
     u_bConnected (c_udt c) \<and> u_iMSS (c_udt c) = mss \<and> u_iPayloadSize (c_udt c) = i32 (i32 (mss - 28) - 16)
     \<and> c_iPeerISN c = isn \<and> c_iRcvLastAck c = isn \<and> u_PeerID (c_udt c) = peer_id \<and> c_iFlowWindowSize c = flow
     \<and> c_snd_allocated c \<and> c_pRcvBuffer c = Some (rcv_buffer_new (c_iRcvBufSize c0) 65536)
     \<and> c_pRcvTimeWindow c \<noteq> None
     \<and> u_SocketID (c_udt c) = u_SocketID (c_udt c0) \<and> u_packet_tracker (c_udt c) = u_packet_tracker (c_udt c0)
     \<and> u_BytesInFlight (c_udt c) = u_BytesInFlight (c_udt c0) \<and> u_bClosing (c_udt c) = u_bClosing (c_udt c0)"

definition agreed_mss :: "'s cudt \<Rightarrow> handshake \<Rightarrow> int" where
  "agreed_mss c hs = min (sint (hs_mss hs)) (u_iMSS (c_udt c))"

definition answer :: "sockaddr \<Rightarrow> 's cudt \<Rightarrow> handshake \<Rightarrow> handshake" where
  "answer peer c hs = hs\<lparr> hs_mss := word_of_int (agreed_mss c hs), hs_flight_flag_size := word_of_int (receive_window c),
     hs_id := word_of_int (u_SocketID (c_udt c)), hs_req_type := -1, hs_peer_ip := ntop peer (hs_peer_ip hs) (c_iIPversion c) \<rparr>"

lemma answer_wf: "hs_wf hs \<Longrightarrow> hs_wf (answer peer c hs)"
  by (simp add: hs_wf_def answer_def)

lemma peer_step:
  assumes "hs_wf hs" "c_iIPversion c = AF_INET" "cache_inv (n_cache net)"
    "0 \<le> i32 (sint (hs_flight_flag_size hs) * 2)"
  shows "\<exists>c' p net1. connect_peer rd junk mem peer hs (c, net) = Inr (answer peer c hs, c', send_to peer p net1)
    \<and> carries (answer peer c hs) p \<and> joined c (agreed_mss c hs) (sint (hs_isn hs)) (sint (hs_id hs)) (sint (hs_flight_flag_size hs)) c'
    \<and> u_iISN (c_udt c') = sint (hs_isn hs) \<and> u_iSndCurrSeqNo (c_udt c') = i32 (sint (hs_isn hs) - 1)
    \<and> c_pPeerAddr c' = Some peer"
proof -
  let ?mss = "agreed_mss c hs" and ?hs1 = "answer peer c hs"
  let ?isn = "sint (hs_isn hs)"
  define c1 where "c1 = adopt_peer ?isn (sint (hs_id hs)) (sint (hs_flight_flag_size hs)) (hs_peer_ip hs)
                (on_udt (\<lambda>u. set_packet_sizes ?mss (set_send_seq ?isn u)) c)"
  have m: "(if sint (hs_mss hs) > u_iMSS (c_udt c) then u_iMSS (c_udt c) else sint (hs_mss hs)) = ?mss"
    by (simp add: agreed_mss_def min_def)
  have flow: "c_iFlowWindowSize c1 = sint (hs_flight_flag_size hs)" by (simp add: c1_def adopt_peer_def)
  then obtain c2 where c2: "prepare_buffers (Udt_Error 3 2) rd c1 = Inr c2"
    using assms(4) by (simp add: prepare_buffers_def)
  have v: "c_iIPversion c2 = AF_INET"
    using c2 assms(2) by (auto simp: prepare_buffers_def guard_outcome_Inr_iff c1_def adopt_peer_def)
  obtain rtt bw where c3: "recall_path junk peer (n_cache net) c2 = Inr ((on_udt (\<lambda>u. u\<lparr> u_iRTT := rtt \<rparr>) c2)\<lparr> c_iBandwidth := bw \<rparr>)"
    using recall_path_total [OF assms(3) v] by blast
  obtain p where p: "handshake_packet mem hs_iContentSize ?hs1 (sint (hs_id hs)) = Inr p" "carries ?hs1 p"
    using handshake_packet_carries [OF _ _ answer_wf [OF assms(1)]] by (fastforce simp: hs_iContentSize_def)
  show ?thesis
    using c2 c3 p m
    by (auto simp: connect_peer_def Let_def c1_def [symmetric] answer_def [symmetric])
      (auto simp: joined_def prepare_buffers_def guard_outcome_Inr_iff c1_def adopt_peer_def set_packet_sizes_def set_send_seq_def Let_def m_iPktHdrSize_def)
qed

lemma response_step:
  assumes "carries h p" "hs_wf h" "hs_req_type h = -1" "c_bConnecting c" "\<not> u_bRendezvous (c_udt c)"
    "c_iIPversion c = AF_INET" "cache_inv (n_cache net)" "0 \<le> i32 (sint (hs_flight_flag_size h) * 2)"
    "c_pPeerAddr c = Some addr"
  shows "\<exists>c' net1. connect_response rd junk p (c, net) = Inr (0, c', net1)
    \<and> joined c (sint (hs_mss h)) (sint (hs_isn h)) (sint (hs_id h)) (sint (hs_flight_flag_size h)) c'
    \<and> u_iISN (c_udt c') = u_iISN (c_udt c) \<and> u_iSndCurrSeqNo (c_udt c') = u_iSndCurrSeqNo (c_udt c)
    \<and> c_ConnRes c' = h \<and> n_complete net1 = n_complete net @ [u_SocketID (c_udt c)]"
proof -
  obtain bs where bs: "pk_data p = Some bs" "\<And>h0. deserialize bs (getLength p) h0 = Inr (0, h)"
    using carries_deserialize [OF assms(1,2)] by blast
  let ?c = "c\<lparr> c_ConnRes := h \<rparr>"
  have eq: "connect_response rd junk p (c, net) = post_connect rd junk ?c net"
    using bs assms(1,3-5) by (simp add: connect_response_def carries_def Let_def)
  define c1 where "c1 = adopt_peer (sint (hs_isn h)) (sint (hs_id h)) (sint (hs_flight_flag_size h)) (hs_peer_ip h)
                 (on_udt (set_packet_sizes (sint (hs_mss h))) ?c)"
  have "c_iFlowWindowSize c1 = sint (hs_flight_flag_size h)" by (simp add: c1_def adopt_peer_def)
  then obtain c2 where c2: "prepare_buffers Exit_Called rd c1 = Inr c2"
    using assms(8) by (simp add: prepare_buffers_def)
  have v: "c_iIPversion c2 = AF_INET" "c_pPeerAddr c2 = Some addr"
    using c2 assms(6,9) by (auto simp: prepare_buffers_def guard_outcome_Inr_iff c1_def adopt_peer_def)
  obtain rtt bw where c3: "recall_path junk addr (n_cache net) c2 = Inr ((on_udt (\<lambda>u. u\<lparr> u_iRTT := rtt \<rparr>) c2)\<lparr> c_iBandwidth := bw \<rparr>)"
    using recall_path_total [OF assms(7) v(1)] by blast
  show ?thesis
    using c2 c3 v unfolding eq
    by (auto simp: post_connect_def Let_def c1_def [symmetric])
      (auto simp: complete_connect_def joined_def prepare_buffers_def guard_outcome_Inr_iff c1_def adopt_peer_def
        set_packet_sizes_def Let_def m_iPktHdrSize_def split: prod.splits)
qed

lemma accept_step:
  assumes "carries h p" "hs_wf h" "hs_req_type h = -1" "\<not> u_bClosing (c_udt l)"
    "hs_cookie h = cookie_of cm (cookie_text (fst (names addr)) (snd (names addr)) (cookie_minute now l))"
    "hs_version h = word_of_int m_iVersion" "hs_type h = (if u_dgram (c_udt l) then 2 else 1)"
    "nc (u_SocketID (c_udt l)) addr h (lnet, w) = Inr (1, h1, net1, w1)"
  shows "\<exists>l' net2. listen_packet names cm now nc addr p (l, lnet, w) = Inr (sint (hs_req_type h1), l', net2, w1)
    \<and> n_out net2 = n_out net1"
proof -
  obtain bs where bs: "pk_data p = Some bs" "\<And>h0. deserialize bs (getLength p) h0 = Inr (0, h)"
    using carries_deserialize [OF assms(1,2)] by blast
  have p: "getFlag p = 1" "getType p = 0" "getLength p = 48" using assms(1) by (simp_all add: carries_def)
  obtain host port where n: "names addr = (host, port)" by (cases "names addr")
  obtain polls ep where en: "enable_write (u_SocketID (c_udt l)) (c_PollID l, n_epoll net1) = (polls, ep)"
    by (cases "enable_write (u_SocketID (c_udt l)) (c_PollID l, n_epoll net1)")
  have "listen_packet names cm now nc addr p (l, lnet, w)
      = Inr (sint (hs_req_type h1), l\<lparr> c_PollID := polls \<rparr>, net1\<lparr> n_epoll := ep \<rparr>, w1)"
    using bs p n en assms(3-8) by (simp add: listen_packet_def hs_iContentSize_def Let_def cookie_accepted_def)
  then show ?thesis by simp
qed

subsection \<open>Agreement\<close>

text \<open>What newConnection does for a new peer, reduced to the connection: the socket \<open>s0\<close> answers.\<close>

definition accept_into ::
  "readings \<Rightarrow> info_block \<Rightarrow> (nat \<Rightarrow> byte) \<Rightarrow> 's cudt \<Rightarrow> int \<Rightarrow> sockaddr \<Rightarrow> handshake \<Rightarrow> net \<times> 's cudt option
     \<Rightarrow> (int \<times> handshake \<times> net \<times> 's cudt option) outcome" where
  "accept_into rd junk mem s0 lsid addr hs st =
     map_outcome (\<lambda>(hs1, s, net1). (1, hs1, net1, Some s)) (connect_peer rd junk mem addr hs (s0, fst st))"

text \<open>The whole setup: request, cookie, request with cookie, answer.  Each packet sent by one side is
  the one the other side handles next.\<close>

definition establish ::
  "platform \<Rightarrow> readings \<Rightarrow> readings \<Rightarrow> info_block \<Rightarrow> (nat \<Rightarrow> byte) \<Rightarrow> (sockaddr \<Rightarrow> byte list \<times> byte list) \<Rightarrow> byte list
     \<Rightarrow> int \<Rightarrow> int \<Rightarrow> sockaddr \<Rightarrow> sockaddr \<Rightarrow> 's cudt \<times> net \<Rightarrow> 's cudt \<times> net \<Rightarrow> 's cudt
     \<Rightarrow> (int \<times> 's cudt \<times> 's cudt option) outcome" where
  "establish pf rd rd2 junk mem names cm now1 now2 srv cli client listener s0 =
     (let latest = (\<lambda>net. snd (last (n_out net))); accept = accept_into rd junk mem s0 in
      bind_outcome (connect_request pf rd mem srv client) (\<lambda>(e, c1, cn1).
      bind_outcome (listen_packet names cm now1 accept cli (latest cn1) (fst listener, snd listener, None))
        (\<lambda>(r1, l1, lnet1, w1).
      bind_outcome (connect_response rd junk (latest lnet1) (c1, cn1)) (\<lambda>(r2, c2, cn2).
      bind_outcome (repeat_request rd2 mem (u_iPayloadSize (c_udt (fst client))) srv (c2, cn2)) (\<lambda>(c3, cn3).
      bind_outcome (listen_packet names cm now2 accept cli (latest cn3) (l1, lnet1, w1)) (\<lambda>(r3, l2, lnet2, w2).
      map_outcome (\<lambda>(r4, c4, cn4). (r4, c4, w2)) (connect_response rd junk (latest lnet2) (c3, cn3))))))))"

definition end_ready :: "'s cudt \<Rightarrow> cache \<Rightarrow> bool" where
  "end_ready c ca \<longleftrightarrow> c_iIPversion c = AF_INET \<and> cache_inv ca \<and> 92 \<le> u_iMSS (c_udt c) \<and> u_iMSS (c_udt c) \<le> 2147483647
     \<and> i32_range (u_SocketID (c_udt c)) \<and> 0 \<le> receive_window c \<and> receive_window c \<le> 1073741823
     \<and> u_packet_tracker (c_udt c) = tracker_new \<and> u_BytesInFlight (c_udt c) = 0"

definition client_ready :: "'s cudt \<Rightarrow> bool" where
  "client_ready c \<longleftrightarrow> c_bOpened c \<and> \<not> c_bListening c \<and> \<not> c_bConnecting c \<and> \<not> u_bConnected (c_udt c)
     \<and> \<not> u_bClosing (c_udt c) \<and> \<not> u_bRendezvous (c_udt c) \<and> hs_wf (c_ConnReq c)
     \<and> u_iPayloadSize (c_udt c) = u_iMSS (c_udt c) - 44"

lemma fresh_after_setup:
  assumes "joined c0 mss isn pid flow c" "end_ready c0 ca" "u_iSndCurrSeqNo (c_udt c) = isn - 1" "0 \<le> isn" "isn \<le> 2147483647"
  shows "udt_fresh (c_udt c)"
  using assms by (simp add: udt_fresh_def joined_def end_ready_def)

text \<open>C10: client and server agree.  A client that connects to a listener of the same socket type, within
  the minute of the cookie, succeeds, and so does the accepted socket.  Both ends then use the same
  packet size, the smaller of the two; each knows the ID of the other and the window the other
  offers; both have the sequence number of the client as their own initial number and as the
  one they expect; and both are fresh connections in the sense of the runs of the sending half.\<close>

theorem setup_agrees:
  assumes client: "client_ready c" "end_ready c (n_cache cn)" "0 \<le> rd_rand rd" "rd_rand rd \<le> 2147483647"
    "250000 < rd_us rd2 0" "rd_us rd2 0 < 18446744073709551616"
    and server: "\<not> u_bClosing (c_udt l)" "end_ready s0 (n_cache lnet)" "u_dgram (c_udt l) = u_dgram (c_udt c)"
    "cookie_minute now1 l = cookie_minute now2 l"
  shows "\<exists>c' s mss isn. establish pf rd rd2 junk mem names cm now1 now2 srv cli (c, cn) (l, lnet) s0 = Inr (0, c', Some s)
    \<and> mss = min (u_iMSS (c_udt c)) (u_iMSS (c_udt s0)) \<and> isn = initial_seq pf (rd_rand rd)
    \<and> joined c mss isn (u_SocketID (c_udt s0)) (receive_window s0) c'
    \<and> joined s0 mss isn (u_SocketID (c_udt c)) (receive_window c) s
    \<and> u_iISN (c_udt c') = isn \<and> u_iISN (c_udt s) = isn
    \<and> connect_verdict None c' = None \<and> udt_fresh (c_udt c') \<and> udt_fresh (c_udt s)"
proof -
  let ?isn = "initial_seq pf (rd_rand rd)" and ?n = "u_iPayloadSize (c_udt c)"
  define h where "h = own_request ?isn srv c"
  define ck where "ck = cookie_of cm (cookie_text (fst (names cli)) (snd (names cli)) (cookie_minute now1 l))"
  define h1 where "h1 = h\<lparr> hs_cookie := ck \<rparr>"
  define h2 where "h2 = h\<lparr> hs_req_type := -1, hs_cookie := ck \<rparr>"
  define h3 where "h3 = answer cli s0 h2"
  have isn: "0 \<le> ?isn" "?isn \<le> 2147483647" "i32_range ?isn"
    using initial_seq_range [OF client(3,4), of pf] by (simp_all add: i32_range_def)
  have room: "48 \<le> ?n" "?n < 2147483648" using client(1,2) by (auto simp: client_ready_def end_ready_def)
  have range: "i32_range (u_iMSS (c_udt c))" "i32_range (receive_window c)" "i32_range (receive_window s0)"
    "i32_range (min (u_iMSS (c_udt c)) (u_iMSS (c_udt s0)))" "i32_range (u_SocketID (c_udt c))"
    "i32_range (u_SocketID (c_udt s0))" "0 \<le> i32 (receive_window c * 2)" "0 \<le> i32 (receive_window s0 * 2)"
    using client(2) server(2) by (auto simp: end_ready_def i32_range_def)
  have hwf: "hs_wf h" using client(1) by (simp add: h_def client_ready_def own_request_wf)
  then have wf: "hs_wf h1" "hs_wf h2" "hs_wf h3"
    by (simp_all add: h1_def h2_def h3_def answer_wf hs_wf_def) (simp add: answer_def hs_wf_def)
  have req: "hs_req_type h = 1" "hs_version h = word_of_int m_iVersion"
    "hs_type h = (if u_dgram (c_udt l) then 2 else 1)"
    using client(1) server(3) by (simp_all add: h_def own_request_def Let_def client_ready_def)
  have f2: "sint (hs_isn h2) = ?isn" "sint (hs_mss h2) = u_iMSS (c_udt c)" "sint (hs_id h2) = u_SocketID (c_udt c)"
    "sint (hs_flight_flag_size h2) = receive_window c"
    using isn range by (simp_all add: h2_def h_def own_request_def Let_def)
  have mss: "agreed_mss s0 h2 = min (u_iMSS (c_udt c)) (u_iMSS (c_udt s0))" by (simp add: agreed_mss_def f2)
  have f3: "sint (hs_isn h3) = ?isn" "sint (hs_mss h3) = min (u_iMSS (c_udt c)) (u_iMSS (c_udt s0))"
    "sint (hs_id h3) = u_SocketID (c_udt s0)" "sint (hs_flight_flag_size h3) = receive_window s0"
    "hs_req_type h3 = -1"
    using f2 range mss by (simp_all add: h3_def answer_def)
  let ?c1 = "requested pf rd srv c"
  obtain p1 cn1 where s1: "connect_request pf rd mem srv (c, cn) = Inr (None, ?c1, send_to srv p1 cn1)"
    "carries h p1" "n_cache cn1 = n_cache cn"
    using request_step [of c pf rd mem srv cn] client(1) room unfolding h_def client_ready_def by blast
  let ?accept = "accept_into rd junk mem s0"
  obtain p2 where s2: "listen_packet names cm now1 ?accept cli p1 (l, lnet, None) = Inr (0, l, send_to cli p2 lnet, None)"
    "carries h1 p2"
    using cookie_step [OF s1(2) hwf req(1) server(1), where names = names and cm = cm and now = now1
      and nc = ?accept and addr = cli and lnet = lnet and w = None] unfolding h1_def ck_def by blast
  let ?c2 = "?c1\<lparr> c_ConnRes := h1, c_ConnReq := h2, c_llLastReqTime := 0 \<rparr>"
  have s3: "connect_response rd junk p2 (?c1, send_to srv p1 cn1) = Inr (1, ?c2, send_to srv p1 cn1)"
    using cookie_received [OF s2(2) wf(1), of ?c1 rd junk "send_to srv p1 cn1"] req client(1)
    by (simp add: h1_def h2_def requested_def Let_def h_def client_ready_def set_send_seq_def)
  obtain p3 where s4: "repeat_request rd2 mem ?n srv (?c2, send_to srv p1 cn1)
      = Inr (?c2\<lparr> c_llLastReqTime := i64 (rd_us rd2 1) \<rparr>, send_to srv p3 (send_to srv p1 cn1))" "carries h2 p3"
    using repeat_step [of ?c2 rd2 ?n mem srv "send_to srv p1 cn1"] client(5,6) wf(2) room by auto
  let ?c3 = "?c2\<lparr> c_llLastReqTime := i64 (rd_us rd2 1) \<rparr>"
  obtain s p4 net4 where s5: "connect_peer rd junk mem cli h2 (s0, send_to cli p2 lnet) = Inr (h3, s, send_to cli p4 net4)"
    "carries h3 p4" "joined s0 (agreed_mss s0 h2) ?isn (u_SocketID (c_udt c)) (receive_window c) s"
    "u_iISN (c_udt s) = ?isn" "u_iSndCurrSeqNo (c_udt s) = i32 (?isn - 1)"
    using peer_step [OF wf(2), of s0 "send_to cli p2 lnet" rd junk mem cli] server(2) range f2
    unfolding h3_def end_ready_def by (auto simp: send_to_def)
  obtain l2 lnet2 where s6: "listen_packet names cm now2 (accept_into rd junk mem s0) cli p3 (l, send_to cli p2 lnet, None)
      = Inr (-1, l2, lnet2, Some s)" "n_out lnet2 = n_out (send_to cli p4 net4)"
    using accept_step [OF s4(2) wf(2), of l cm names cli now2 "accept_into rd junk mem s0" "send_to cli p2 lnet" None h3
        "send_to cli p4 net4" "Some s"] s5(1) req server(1,4) f3(5)
    by (auto simp: h2_def ck_def accept_into_def)
  have c3: "c_bConnecting ?c3" "\<not> u_bRendezvous (c_udt ?c3)" "c_iIPversion ?c3 = AF_INET" "c_pPeerAddr ?c3 = Some srv"
    "cache_inv (n_cache (send_to srv p3 (send_to srv p1 cn1)))"
    using client(1,2) s1(3) by (simp_all add: requested_def Let_def client_ready_def end_ready_def set_send_seq_def send_to_def)
  obtain c4 net5 where s7: "connect_response rd junk p4 (?c3, send_to srv p3 (send_to srv p1 cn1)) = Inr (0, c4, net5)"
    "joined ?c3 (sint (hs_mss h3)) (sint (hs_isn h3)) (sint (hs_id h3)) (sint (hs_flight_flag_size h3)) c4"
    "u_iISN (c_udt c4) = u_iISN (c_udt ?c3)" "u_iSndCurrSeqNo (c_udt c4) = u_iSndCurrSeqNo (c_udt ?c3)" "c_ConnRes c4 = h3"
    using response_step [OF s5(2) wf(3) f3(5) c3(1-3) c3(5) _ c3(4)] range f3(4) by metis
  have e: "establish pf rd rd2 junk mem names cm now1 now2 srv cli (c, cn) (l, lnet) s0 = Inr (0, c4, Some s)"
    using s1(1) s2(1) s3 s4(1) s6 s7(1) by (simp add: establish_def Let_def)
  have j: "joined c (min (u_iMSS (c_udt c)) (u_iMSS (c_udt s0))) ?isn (u_SocketID (c_udt s0)) (receive_window s0) c4"
    using s7(2) f3 by (simp add: joined_def requested_def Let_def set_send_seq_def)
  have j': "joined s0 (min (u_iMSS (c_udt c)) (u_iMSS (c_udt s0))) ?isn (u_SocketID (c_udt c)) (receive_window c) s"
    using s5(3) by (simp add: mss)
  have q: "u_iISN (c_udt c4) = ?isn" "u_iSndCurrSeqNo (c_udt c4) = ?isn - 1" "u_iSndCurrSeqNo (c_udt s) = ?isn - 1"
    using s7(3,4) s5(5) isn by (simp_all add: requested_def Let_def set_send_seq_def)
  have "connect_verdict None c4 = None"
    using s7(5) f3(1,5) q(1) j client(1) by (simp add: connect_verdict_def joined_def client_ready_def)
  then show ?thesis
    using e j j' q(1) s5(4) fresh_after_setup [OF j client(2) q(2) isn(1,2)] fresh_after_setup [OF j' server(2) q(3) isn(1,2)]
    by blast
qed

text \<open>Two default sockets, opened by udt\_open.\<close>

definition opened_socket :: "int \<Rightarrow> 's cudt \<Rightarrow> 's cudt" where
  "opened_socket sid c = (on_udt (\<lambda>u. (udt_open sample_readings 1 u)\<lparr> u_SocketID := sid \<rparr>) c)\<lparr> c_bOpened := True \<rparr>"

lemma opened_socket_ready:
  assumes "i32_range sid"
  shows "client_ready (opened_socket sid (cudt_new pcc now raw))"
    "end_ready (opened_socket sid (cudt_new pcc now raw)) (cache_new 1024)"
  using assms cache_new_inv(1) [of 1024]
  by (simp_all add: client_ready_def end_ready_def opened_socket_def cudt_new_def initial_status_def null_members_def
      udt_open_def Let_def hs_wf_def handshake_new_def receive_window_def m_iPktHdrSize_def)

theorem setup_agrees_witness:
  "\<forall>pf junk mem names cm srv cli. \<forall>raw :: unit cudt. \<forall>net. \<exists>c' s.
     establish pf (sample_readings\<lparr> rd_rand := 77 \<rparr>) (sample_readings\<lparr> rd_us := \<lambda>_. 300000 \<rparr>) junk mem names cm 1005 1006 srv cli
       (opened_socket 7 (cudt_new () 0 raw), net\<lparr> n_cache := cache_new 1024 \<rparr>)
       (opened_socket 8 (cudt_new () 0 raw), net\<lparr> n_cache := cache_new 1024 \<rparr>)
       (opened_socket 9 (cudt_new () 0 raw)) = Inr (0, c', Some s)
     \<and> u_iMSS (c_udt c') = 1464 \<and> u_PeerID (c_udt c') = 9 \<and> u_PeerID (c_udt s) = 7"
proof (intro allI)
  fix pf junk mem names cm srv cli and raw :: "unit cudt" and net :: net
  let ?c = "\<lambda>sid. opened_socket sid (cudt_new () 0 raw)"
  let ?n = "net\<lparr> n_cache := cache_new 1024 \<rparr>"
  have n: "n_cache ?n = cache_new 1024" by simp
  have r: "client_ready (?c 7)" "end_ready (?c 7) (n_cache ?n)" "end_ready (?c 9) (n_cache ?n)"
    unfolding n by (intro opened_socket_ready; simp add: i32_range_def)+
  have l: "\<not> u_bClosing (c_udt (?c 8))" "u_dgram (c_udt (?c 8)) = u_dgram (c_udt (?c 7))"
    "cookie_minute 1005 (?c 8) = cookie_minute 1006 (?c 8)" "u_SocketID (c_udt (?c k)) = k" "u_iMSS (c_udt (?c k)) = 1464" for k
    by (simp_all add: opened_socket_def cudt_new_def initial_status_def null_members_def udt_open_def Let_def
        cookie_minute_def sample_readings_def u64_def)
  show "\<exists>c' s. establish pf (sample_readings\<lparr> rd_rand := 77 \<rparr>) (sample_readings\<lparr> rd_us := \<lambda>_. 300000 \<rparr>) junk mem names cm 1005 1006 srv cli
       (?c 7, ?n) (?c 8, ?n) (?c 9) = Inr (0, c', Some s)
     \<and> u_iMSS (c_udt c') = 1464 \<and> u_PeerID (c_udt c') = 9 \<and> u_PeerID (c_udt s) = 7"
    using setup_agrees [where rd = "sample_readings\<lparr> rd_rand := 77 \<rparr>" and ?rd2.0 = "sample_readings\<lparr> rd_us := \<lambda>_. 300000 \<rparr>"
        and c = "?c 7" and cn = ?n and l = "?c 8" and ?s0.0 = "?c 9" and lnet = ?n and ?now1.0 = 1005 and ?now2.0 = 1006
        and pf = pf and junk = junk and mem = mem and names = names and cm = cm and srv = srv and cli = cli] r l
    by (fastforce simp: joined_def)
qed

subsection \<open>A stray packet\<close>

text \<open>Any packet that is not a handshake ends the wait.  After the cookie the recorded response carries
  the client's own sequence number, so connect reports success without a connection.\<close>

lemma stray_packet_ends_connect:
  assumes "c_bConnecting c" "\<not> u_bRendezvous (c_udt c)" "getFlag p \<noteq> 1 \<or> getType p \<noteq> 0"
    "\<not> u_bClosing (c_udt c)" "hs_req_type (c_ConnRes c) = 1" "sint (hs_isn (c_ConnRes c)) = u_iISN (c_udt c)"
  shows "connect_response rd junk p (c, net) = Inr (-1, c, net) \<and> connect_verdict None c = None"
  using assms by (auto simp: connect_response_def connect_verdict_def Let_def)

text \<open>A rejected request still connects the socket: only the waiting connect looks at the request type.\<close>

lemma complete_connect_connects:
  "complete_connect c net = (r, c', net') \<Longrightarrow> r = 0 \<and> u_bConnected (c_udt c')"
  by (auto simp: complete_connect_def Let_def split: prod.splits)

lemma rejection_connects:
  assumes "carries h p" "hs_wf h" "hs_req_type h = 1002" "c_bConnecting c" "\<not> u_bRendezvous (c_udt c)"
    "connect_response rd junk p (c, net) = Inr (r, c', net')"
  shows "r = 0 \<and> u_bConnected (c_udt c')"
proof -
  obtain bs where bs: "pk_data p = Some bs" "\<And>h0. deserialize bs (getLength p) h0 = Inr (0, h)"
    using carries_deserialize [OF assms(1,2)] by blast
  then have "post_connect rd junk (c\<lparr> c_ConnRes := h \<rparr>) net = Inr (r, c', net')"
    using assms by (simp add: connect_response_def carries_def Let_def)
  then show ?thesis
    by (auto simp: post_connect_def Let_def bind_outcome_Inr_iff split: option.splits dest: complete_connect_connects)
qed

subsection \<open>Closing ends\<close>

lemma linger_loop_ends:
  assumes "\<And>k st. c_Linger (fst (meanwhile k st)) = c_Linger (fst st)"
    "\<And>k st. c_bOpened (fst (meanwhile k st)) = c_bOpened (fst st)"
    "k \<le> k0" "k0 < k + fuel" "u64 (snd (c_Linger (fst st)) * 1000000) \<le> u64 (clock k0 - entertime)"
  shows "case linger_loop fuel k meanwhile clock entertime st of Inl e \<Rightarrow> False
    | Inr (early, c1, net1) \<Rightarrow> c_bOpened c1 = c_bOpened (fst st)
       \<and> (early \<longrightarrow> \<not> u_bSynSending (c_udt c1) \<and> 0 < getCurrBufSize (u_pSndBuffer (c_udt c1)))"
  using assms(3-5)
proof (induction fuel arbitrary: k st)
  case (Suc fuel)
  obtain c net where m: "meanwhile k st = (c, net)" by (cases "meanwhile k st")
  then have l: "c_Linger c = c_Linger (fst st)" "c_bOpened c = c_bOpened (fst st)"
    using assms(1,2) [of k st] by simp_all
  show ?case
  proof (cases "k = k0")
    case True
    then show ?thesis using m l Suc.prems(3) by (simp add: Let_def)
  next
    case False
    then show ?thesis using m l(2) Suc.IH [of "Suc k" "(c, net)", unfolded fst_conv l] Suc.prems
      by (simp add: Let_def)
  qed
qed simp

definition closed_from :: "'s cudt \<Rightarrow> 's cudt \<Rightarrow> net \<Rightarrow> bool" where
  "closed_from c1 c' net' \<longleftrightarrow> \<not> c_bOpened c' \<and> \<not> c_bListening c' \<and> u_bClosing (c_udt c') \<and> \<not> u_bConnected (c_udt c')
     \<and> (u_bConnected (c_udt c1) \<longrightarrow> \<not> u_on_snd_list (c_udt c'))
     \<and> (u_bConnected (c_udt c1) \<and> \<not> u_bShutdown (c_udt c1) \<longrightarrow>
          (\<exists>p. u_sent (c_udt c') = u_sent (c_udt c1) @ [p] \<and> getFlag p = 1 \<and> getType p = 5))
     \<and> (c_bListening c1 \<longrightarrow> rq_listener (n_rcv net') \<noteq> Some (u_SocketID (c_udt c1)))
     \<and> (\<not> c_bListening c1 \<longrightarrow> rq_buffer (n_rcv net') (u_SocketID (c_udt c1)) = None)"

lemma shutdown_packet:
  "\<exists>p. sendCtrl rd 5 None None 0 u = Inr (u\<lparr> u_sent := u_sent u @ [p] \<rparr>) \<and> getFlag p = 1 \<and> getType p = 5"
proof -
  let ?p = "set_header 3 (u_PeerID u) (pad_vector (packet_new\<lparr> pk_header := [0x80000000 OR push_bit 16 5, 0, 0, 0] \<rparr>))"
  have "sendCtrl rd 5 None None 0 u = Inr (u\<lparr> u_sent := u_sent u @ [?p] \<rparr>)"
    by (simp add: sendCtrl_def pack_def packet_new_def send_packet_def Let_def)
  moreover have "getFlag ?p = 1" "getType ?p = 5"
    using control_word_fields [of 5] by (simp_all add: getFlag_def getType_def set_header_def pad_vector_def)
  ultimately show ?thesis by blast
qed

lemma disconnect_cases:
  "case disconnect pf rd junk word (c, net) of
      Inl e \<Rightarrow> \<exists>ca. remember_path pf junk word c ca = Inl e
    | Inr (c', net') \<Rightarrow> \<not> u_bConnected (c_udt c') \<and> c_bListening c' = c_bListening c \<and> n_rcv net' = n_rcv net
        \<and> u_bClosing (c_udt c') = u_bClosing (c_udt c) \<and> u_on_snd_list (c_udt c') = u_on_snd_list (c_udt c)
        \<and> (u_bConnected (c_udt c) \<and> \<not> u_bShutdown (c_udt c) \<longrightarrow>
             (\<exists>p. u_sent (c_udt c') = u_sent (c_udt c) @ [p] \<and> getFlag p = 1 \<and> getType p = 5))"
proof -
  obtain p where p: "sendCtrl rd 5 None None 0 (c_udt c) = Inr ((c_udt c)\<lparr> u_sent := u_sent (c_udt c) @ [p] \<rparr>)"
      "getFlag p = 1" "getType p = 5"
    using shutdown_packet [of rd "c_udt c"] by blast
  show ?thesis
  proof (cases "u_bConnected (c_udt c)")
    case True
    define u where "u = (if u_bShutdown (c_udt c) then c_udt c else (c_udt c)\<lparr> u_sent := u_sent (c_udt c) @ [p] \<rparr>)"
    have u: "(if u_bShutdown (c_udt c) then Inr (c_udt c) else sendCtrl rd 5 None None 0 (c_udt c)) = Inr u"
      using p(1) by (simp add: u_def)
    then have "disconnect pf rd junk word (c, net) =
        map_outcome (\<lambda>ca. (on_udt (\<lambda>_. u\<lparr> u_bConnected := False \<rparr>) c, net\<lparr> n_cache := ca \<rparr>))
         (remember_path pf junk word c (n_cache net))" using True by (simp add: disconnect_def)
    then show ?thesis using p(2,3)
      by (cases "remember_path pf junk word c (n_cache net)") (auto simp: u_def)
  qed (simp add: disconnect_def)
qed

lemma close_now_cases:
  fixes c :: "'s cudt"
  assumes "c_bOpened c"
  shows "case close_now pf rd junk word (c, net) of
      Inl e \<Rightarrow> \<exists>(c2 :: 's cudt) ca. remember_path pf junk word c2 ca = Inl e
    | Inr (c', net') \<Rightarrow> closed_from c c' net'"
proof -
  define c1 where "c1 = on_udt (\<lambda>u. u\<lparr> u_bClosing := True \<rparr>)
    (on_udt (\<lambda>u. u\<lparr> u_on_snd_list := (if u_bConnected u then False else u_on_snd_list u) \<rparr>) c)"
  define net1 where "net1 = net\<lparr> n_epoll :=
           leave_polls (u_SocketID (c_udt c)) (sorted_list_of_set (c_PollID c)) (n_epoll net) \<rparr>"
  obtain c2 q where lq: "leave_ports c1 (n_rcv net1) = (c2, q)" by (cases "leave_ports c1 (n_rcv net1)")
  have q: "c_udt c2 = c_udt c1" "\<not> c_bListening c2"
    "c_bListening c \<Longrightarrow> rq_listener q \<noteq> Some (u_SocketID (c_udt c))"
    "\<not> c_bListening c \<Longrightarrow> rq_buffer q (u_SocketID (c_udt c)) = None"
    using lq by (auto simp: leave_ports_def c1_def removeListener_def removeConnector_def Let_def split: if_splits)
  have "close_now pf rd junk word (c, net) = map_outcome (\<lambda>(c3, net2). (c3\<lparr> c_bOpened := False \<rparr>, net2))
            (disconnect pf rd junk word (c2, net1\<lparr> n_rcv := q \<rparr>))"
    using assms lq by (simp add: close_now_def Let_def c1_def net1_def)
  moreover have "case disconnect pf rd junk word (c2, net1\<lparr> n_rcv := q \<rparr>) of
      Inl e \<Rightarrow> \<exists>(c2 :: 's cudt) ca. remember_path pf junk word c2 ca = Inl e
    | Inr (c', net') \<Rightarrow> closed_from c (c'\<lparr> c_bOpened := False \<rparr>) net'"
  proof (cases "disconnect pf rd junk word (c2, net1\<lparr> n_rcv := q \<rparr>)")
    case (Inl e)
    then have "\<exists>ca. remember_path pf junk word c2 ca = Inl e"
      using disconnect_cases [where pf = pf and rd = rd and junk = junk and word = word and c = c2 and net = "net1\<lparr> n_rcv := q \<rparr>"]
      by simp
    then show ?thesis unfolding Inl sum.case by blast
  next
    case (Inr r)
    then show ?thesis
      using disconnect_cases [where pf = pf and rd = rd and junk = junk and word = word and c = c2 and net = "net1\<lparr> n_rcv := q \<rparr>"] q
      by (cases r) (auto simp: closed_from_def c1_def)
  qed
  ultimately show ?thesis
    by (cases "disconnect pf rd junk word (c2, net1\<lparr> n_rcv := q \<rparr>)") auto
qed



end
