(* ===== verification/Udt_Receive.thy ===== *)
theory Udt_Receive
  imports Udt_Agreement
begin

text \<open>The receiving half of a connection (class CUDT, core/core.cpp): processData, which the receiver
  thread calls for every data packet, and recv.

  A connection is changed together with the units of its receiver queue and, in recv, with the poll
  objects.  The results are those of runs: packets arrive in any order, late and duplicated, the
  application reads, and other threads change what is not protected by the locks of these calls.\<close>

unbundle bit_operations_syntax

subsection \<open>processData\<close>

definition acknowledge_packet :: "cpacket \<Rightarrow> 's udt \<Rightarrow> 's udt outcome" where
  "acknowledge_packet p = SendAck (m_iSeqNo p) (m_iMsgNo p)"

definition note_arrival :: "readings \<Rightarrow> cpacket \<Rightarrow> time_window \<Rightarrow> time_window" where
  "note_arrival rd p w0 =
     (let w = onPktArrival (rd_us rd 0) w0 in
      if m_iSeqNo p AND 0xF = 0 then probe1Arrival (rd_us rd 1) w
      else if m_iSeqNo p AND 0xF = 1 then probe2Arrival (rd_us rd 1) w
      else w)"

text \<open>The counters; the expiration count starts again.\<close>

definition count_arrival :: "readings \<Rightarrow> 's cudt \<Rightarrow> 's cudt" where
  "count_arrival rd c =
     (on_udt (\<lambda>u. u\<lparr> u_iEXPCount := 1, u_ullLastRspTime := rd_tsc rd 0, u_iPktCount := i32 (u_iPktCount u + 1) \<rparr>) c)
       \<lparr> c_llTraceRecv := i64 (c_llTraceRecv c + 1), c_llRecvTotal := i64 (c_llRecvTotal c + 1) \<rparr>"

definition place_data :: "unit_addr \<Rightarrow> int \<Rightarrow> 's cudt \<times> unit_queue \<Rightarrow> (int \<times> 's cudt \<times> unit_queue) outcome" where
  "place_data a offset = (\<lambda>(c, uq).
     case c_pRcvBuffer c of None \<Rightarrow> Inl Null_Deref
     | Some rb \<Rightarrow>
         if offset < 0 \<or> offset \<ge> getAvailBufSize rb then Inr (-1, c, uq)
         else case addData a (nat offset) (rb, uq) of (ack_len, rb1, uq1) \<Rightarrow>
           let c1 = c\<lparr> c_pRcvBuffer := Some rb1 \<rparr> in
           if ack_len < 0 then Inr (-1, c1, uq1)
           else Inr (0, c1\<lparr> c_iRcvLastAck := incseq_by (c_iRcvLastAck c1) ack_len \<rparr>, uq1))"

definition processData ::
  "readings \<Rightarrow> unit_addr \<Rightarrow> 's cudt \<times> unit_queue \<Rightarrow> (int \<times> 's cudt \<times> unit_queue) outcome" where
  "processData rd a = (\<lambda>(c, uq).
     let p = m_Packet (unit_at uq a) in
     bind_outcome (acknowledge_packet p (c_udt c)) (\<lambda>u.
     case c_pRcvTimeWindow c of None \<Rightarrow> Inl Null_Deref
     | Some w \<Rightarrow>
         let c1 = count_arrival rd (on_udt (\<lambda>_. u) c)\<lparr> c_pRcvTimeWindow := Some (note_arrival rd p w) \<rparr>
         in place_data a (seqoff (c_iRcvLastAck c1) (m_iSeqNo p)) (c1, uq)))"

subsection \<open>recv\<close>

definition data_size :: "'s cudt \<Rightarrow> int outcome" where
  "data_size c = (case c_pRcvBuffer c of None \<Rightarrow> Inl Null_Deref | Some rb \<Rightarrow> Inr (getRcvDataSize rb))"

text \<open>A connection that is broken or being closed can be read until its buffer is empty.\<close>

definition recv_error :: "'s cudt \<Rightarrow> failure option outcome" where
  "recv_error c =
     (if \<not> u_bConnected (c_udt c) then Inr (Some (Udt_Error 2 2))
      else if u_bBroken (c_udt c) \<or> u_bClosing (c_udt c)
      then map_outcome (\<lambda>n. if n = 0 then Some (Udt_Error 2 1) else None) (data_size c)
      else Inr None)"

text \<open>The results of recv: an exception, or the number and the bytes; in any case the state.\<close>

type_synonym 's recv_state = "'s cudt \<times> unit_queue \<times> epoll"
type_synonym 's recv_result = "((failure + int \<times> byte list) \<times> 's recv_state) outcome"

definition finish_recv :: "int \<Rightarrow> 's recv_state \<Rightarrow> 's recv_result" where
  "finish_recv len = (\<lambda>(c, uq, ep).
     bind_outcome (recv_error c) (\<lambda>e. case e of Some f \<Rightarrow> Inr (Inl f, c, uq, ep)
     | None \<Rightarrow> (case c_pRcvBuffer c of None \<Rightarrow> Inl Null_Deref
       | Some rb \<Rightarrow> map_outcome (\<lambda>(res, bytes, rb1, uq1).
           let (polls, ep1) = (if getRcvDataSize rb1 \<le> 0
                               then disable_read (u_SocketID (c_udt c)) (c_PollID c, ep) else (c_PollID c, ep));
               c1 = (on_udt (\<lambda>u. u\<lparr> u_epoll_read := (if getRcvDataSize rb1 \<le> 0 then False else u_epoll_read u) \<rparr>) c)
                      \<lparr> c_pRcvBuffer := Some rb1, c_PollID := polls \<rparr>
           in (if res \<le> 0 \<and> c_iRcvTimeOut c \<ge> 0 then Inl (Udt_Error 6 2) else Inr (res, bytes), c1, uq1, ep1))
         (readBuffer len (rb, uq)))))"

text \<open>\<open>waited\<close> gives the state in which the wait for data ends.\<close>

definition udt_recv :: "('s recv_state \<Rightarrow> 's recv_state) \<Rightarrow> int \<Rightarrow> 's recv_state \<Rightarrow> 's recv_result" where
  "udt_recv waited len st =
     (let c = fst st in
      if u_dgram (c_udt c) then Inr (Inl (Udt_Error 5 10), st)
      else bind_outcome (recv_error c) (\<lambda>e. case e of Some f \<Rightarrow> Inr (Inl f, st)
      | None \<Rightarrow>
          if len \<le> 0 then Inr (Inr (0, []), st)
          else bind_outcome (data_size c) (\<lambda>n.
            if n \<noteq> 0 then finish_recv len st
            else if \<not> c_bSynRecving c then Inr (Inl (Udt_Error 6 2), st)
            else finish_recv len (waited st))))"

subsection \<open>Runs\<close>

text \<open>Packet k of the peer's stream carries \<open>pl k\<close> and the number k after \<open>isn\<close>.\<close>

definition carries_packet :: "(nat \<Rightarrow> byte list) \<Rightarrow> int \<Rightarrow> unit_queue \<Rightarrow> unit_addr \<Rightarrow> nat \<Rightarrow> bool" where
  "carries_packet pl isn uq a k \<longleftrightarrow> unit_valid uq a \<and> m_iFlag (unit_at uq a) = 0
     \<and> m_iSeqNo (m_Packet (unit_at uq a)) = (isn + int k) mod 2147483648 \<and> payload_is (m_Packet (unit_at uq a)) (pl k)"

text \<open>\<open>receive_run pl isn (c, uq) A out\<close>: the connection has acknowledged A packets in order and the
  application has received \<open>out\<close>.  A packet that arrives is less than a quarter of the number space
  away from the one that is awaited.\<close>

inductive receive_run :: "(nat \<Rightarrow> byte list) \<Rightarrow> int \<Rightarrow> 's cudt \<times> unit_queue \<Rightarrow> nat \<Rightarrow> byte list \<Rightarrow> bool"
  for pl :: "nat \<Rightarrow> byte list" and isn :: int where
  run_start: "valid_seq isn \<Longrightarrow> c_pRcvBuffer c = Some (rcv_buffer_new i n) \<Longrightarrow> 0 < n \<Longrightarrow> n < 1073741823
    \<Longrightarrow> c_pRcvTimeWindow c \<noteq> None \<Longrightarrow> c_iRcvLastAck c = isn \<Longrightarrow> receive_run pl isn (c, uq) 0 []"
| run_data: "receive_run pl isn (c, uq) A out \<Longrightarrow> carries_packet pl isn uq a k \<Longrightarrow> \<bar>int k - int A\<bar> < 1073741823
    \<Longrightarrow> processData rd a (c, uq) = Inr (r, c', uq')
    \<Longrightarrow> receive_run pl isn (c', uq') (A + nat (seqoff (c_iRcvLastAck c) (c_iRcvLastAck c'))) out"
| run_recv: "receive_run pl isn (c, uq) A out \<Longrightarrow> 0 \<le> len
    \<Longrightarrow> finish_recv len (c, uq, ep) = Inr (Inr (n, bytes), c', uq', ep') \<Longrightarrow> receive_run pl isn (c', uq') A (out @ bytes)"
| run_others: "receive_run pl isn (c, uq) A out
    \<Longrightarrow> c_pRcvBuffer c' = c_pRcvBuffer c \<Longrightarrow> c_pRcvTimeWindow c' \<noteq> None \<Longrightarrow> c_iRcvLastAck c' = c_iRcvLastAck c
    \<Longrightarrow> (\<forall>rb a. c_pRcvBuffer c = Some rb \<and> Some a \<in> set (rb_unit rb) \<longrightarrow> unit_valid uq' a \<and> unit_at uq' a = unit_at uq a)
    \<Longrightarrow> receive_run pl isn (c', uq') A out"

text \<open>A connection that has just been set up is the start of a run.\<close>

lemma joined_receive_run:
  assumes "joined c0 mss isn peer flow c" "valid_seq isn"
  shows "receive_run pl isn (c, uq) 0 []"
  using assms by (auto simp: joined_def intro!: run_start)


subsection \<open>What a run keeps\<close>

definition recv_inv :: "(nat \<Rightarrow> byte list) \<Rightarrow> int \<Rightarrow> 's cudt \<Rightarrow> unit_queue \<Rightarrow> nat \<Rightarrow> byte list \<Rightarrow> bool" where
  "recv_inv pl isn c uq A out \<longleftrightarrow> valid_seq isn \<and> c_pRcvTimeWindow c \<noteq> None
     \<and> c_iRcvLastAck c = (isn + int A) mod 2147483648
     \<and> (\<exists>rb. c_pRcvBuffer c = Some rb \<and> rcv_run pl rb uq A out \<and> rb_size rb < 1073741823)"

text \<open>An acknowledgement of \<open>p\<close>: what the peer reads out of it are the two numbers of \<open>p\<close>.\<close>

definition acknowledges :: "cpacket \<Rightarrow> cpacket \<Rightarrow> bool" where
  "acknowledges q p \<longleftrightarrow> getFlag q = 1 \<and> getType q = 2 \<and> ack_seq_no q = Inr (m_iSeqNo p) \<and> m_iMsgNo q = m_iMsgNo p"

lemma acknowledge_packet_sends:
  obtains q where "acknowledge_packet p u = Inr (send_packet q u)" "acknowledges q p"
proof
  let ?q = "set_header 1 (m_iMsgNo p) (set_header 3 (u_PeerID u)
    (set_vector (Some (word_bytes (word_of_int (m_iSeqNo p)))) 4
      (packet_new\<lparr> pk_header := (pk_header packet_new)[0 := 0x80000000 OR push_bit 16 (word_of_int 2)] \<rparr>)))"
  show "acknowledge_packet p u = Inr (send_packet ?q u)"
    by (simp add: acknowledge_packet_def SendAck_def pack_def)
  have "words_of_bytes (word_bytes w) = [w]" for w :: "32 word"
    using words_of_bytes_append [of w "[]"] by simp
  then show "acknowledges ?q p"
    by (simp add: acknowledges_def ack_seq_no_def getFlag_def getType_def m_iMsgNo_def m_iSeqNo_def
      set_header_def set_vector_def packet_new_def word_bytes_def)
qed


lemma arrival_frame:
  "c_udt (count_arrival rd c) = (c_udt c)\<lparr> u_iEXPCount := 1, u_ullLastRspTime := rd_tsc rd 0, u_iPktCount := i32 (u_iPktCount (c_udt c) + 1) \<rparr>"
  "c_pRcvBuffer (count_arrival rd c) = c_pRcvBuffer c" "c_iRcvLastAck (count_arrival rd c) = c_iRcvLastAck c"
  by (simp_all add: count_arrival_def on_udt_def)

lemma rcv_run_extends: "rcv_run pl rb uq A out \<Longrightarrow> \<exists>R. rb_inv pl R A rb uq"
  using rcv_run_inv by blast

text \<open>Placing packet k: refused, or stored, and then acknowledged up to the next gap.\<close>

lemma place_data_cases:
  assumes inv: "recv_inv pl isn c uq A out" and p: "carries_packet pl isn uq a k" and near: "\<bar>int k - int A\<bar> < 1073741823"
  obtains (outside) "place_data a (seqoff (c_iRcvLastAck c) (m_iSeqNo (m_Packet (unit_at uq a)))) (c, uq) = Inr (-1, c, uq)"
      "k < A \<or> (\<exists>rb. c_pRcvBuffer c = Some rb \<and> getAvailBufSize rb \<le> int k - int A)"
  | (duplicate) rb rb' where "A < k" "c_pRcvBuffer c = Some rb" "int k - int A < getAvailBufSize rb"
      "place_data a (seqoff (c_iRcvLastAck c) (m_iSeqNo (m_Packet (unit_at uq a)))) (c, uq) = Inr (-1, c\<lparr> c_pRcvBuffer := Some rb' \<rparr>, uq)"
      "slot rb k \<noteq> None" "recv_inv pl isn (c\<lparr> c_pRcvBuffer := Some rb' \<rparr>) uq A out"
  | (stored) rb rb' i uq' where "A \<le> k" "c_pRcvBuffer c = Some rb" "int k - int A < getAvailBufSize rb" "slot rb k = None"
      "place_data a (seqoff (c_iRcvLastAck c) (m_iSeqNo (m_Packet (unit_at uq a)))) (c, uq)
        = Inr (0, c\<lparr> c_pRcvBuffer := Some rb', c_iRcvLastAck := (isn + int (A + i)) mod 2147483648 \<rparr>, uq')"
      "recv_inv pl isn (c\<lparr> c_pRcvBuffer := Some rb', c_iRcvLastAck := (isn + int (A + i)) mod 2147483648 \<rparr>) uq' (A + i) out"
      "k = A \<Longrightarrow> 0 < i" "i < rb_size rb" "slot rb' k = Some a"
proof -
  obtain rb where rb: "c_pRcvBuffer c = Some rb" "rcv_run pl rb uq A out" "rb_size rb < 1073741823"
    and isn: "valid_seq isn" and la: "c_iRcvLastAck c = (isn + int A) mod 2147483648" and tw: "c_pRcvTimeWindow c \<noteq> None"
    using inv by (auto simp: recv_inv_def)
  obtain R where R: "rb_inv pl R A rb uq" using rcv_run_extends [OF rb(2)] by blast
  then have ri: "R \<le> A" "A < R + rb_size rb" "slot rb A = None" using ring_invD(2,3,6) by (auto simp: rb_inv_def)
  have off: "seqoff (c_iRcvLastAck c) (m_iSeqNo (m_Packet (unit_at uq a))) = int k - int A"
    using seqno.off_between [OF near, of isn] p isn la by (simp add: carries_packet_def)
  show ?thesis
  proof (cases "k < A \<or> getAvailBufSize rb \<le> int k - int A")
    case True
    then show ?thesis using outside rb(1) off by (simp add: place_data_def)
  next
    case False
    then have k: "A \<le> k" "int (k - A) < getAvailBufSize rb" "A + (k - A) = k" by auto
    have pk: "unit_valid uq a" "m_iFlag (unit_at uq a) = 0" "payload_is (m_Packet (unit_at uq a)) (pl (A + (k - A)))"
      using p k by (simp_all add: carries_packet_def)
    show ?thesis
    proof (rule addData_ring [OF R k(2) pk])
      fix rb'
      assume d: "slot rb (A + (k - A)) \<noteq> None" "addData a (k - A) (rb, uq) = (-1, rb', uq)" "rb_size rb' = rb_size rb"
      have "rcv_run pl rb' uq (A + nat (-1)) out" using rcv_arrive [OF rb(2) k(2) pk d(2)] .
      then show ?thesis using duplicate [of rb rb'] d k rb(1,3) isn la tw off ri(3)
        by (cases "k = A") (auto simp: place_data_def recv_inv_def nat_diff_distrib)
    next
      fix i rb' uq'
      assume d: "slot rb (A + (k - A)) = None" "addData a (k - A) (rb, uq) = (int i, rb', uq')" "rb_size rb' = rb_size rb"
        "rb_inv pl R (A + i) rb' uq'"
        "\<And>j. R \<le> j \<Longrightarrow> j < R + rb_size rb \<Longrightarrow> slot rb' j = (if j = A + (k - A) then Some a else slot rb j)"
      have run: "rcv_run pl rb' uq' (A + i) out" using rcv_arrive [OF rb(2) k(2) pk d(2)] by simp
      have "ring_inv pl R (A + i) rb' uq'" using d(4) by (simp add: rb_inv_def)
      note ring' = ring_invD(3,6) [OF this]
      then have ri': "A + i < R + rb_size rb" "slot rb' (A + i) = None" using d(3) by simp_all
      have inc: "incseq_by (c_iRcvLastAck c) (int i) = (isn + int (A + i)) mod 2147483648"
        using ri'(1) ri(1) rb(3) la by (simp add: incseq_by_valid mod_add_left_eq add.assoc)
      have kk: "k < R + rb_size rb" using k(2) data_size_ring [OF R] ri(1) by (simp add: getAvailBufSize_def)
      have "0 < i" if "k = A"
        using ri' d(5) [of A] ri that by (cases i) auto
      then show ?thesis using stored [where rb = rb and rb' = rb' and i = i and uq' = uq'] d(1,2,3) k rb(1,3) isn tw off run inc ri'(1) ri(1) d(5) [of k] kk
        by (auto simp: place_data_def recv_inv_def nat_diff_distrib)
    qed
  qed
qed

text \<open>processData sends the acknowledgement first and then places the packet in a state that differs
  from the old one in counters and times.\<close>

lemma processData_places:
  assumes "recv_inv pl isn c uq A out"
  obtains q c1 where "acknowledges q (m_Packet (unit_at uq a))" "u_sent (c_udt c1) = u_sent (c_udt c) @ [q]"
    "c_llRecvTotal c1 = i64 (c_llRecvTotal c + 1)" "c_pRcvBuffer c1 = c_pRcvBuffer c" "c_iRcvLastAck c1 = c_iRcvLastAck c"
    "u_bConnected (c_udt c1) = u_bConnected (c_udt c)" "u_dgram (c_udt c1) = u_dgram (c_udt c)" "recv_inv pl isn c1 uq A out"
    "processData rd a (c, uq) = place_data a (seqoff (c_iRcvLastAck c1) (m_iSeqNo (m_Packet (unit_at uq a)))) (c1, uq)"
proof -
  let ?p = "m_Packet (unit_at uq a)"
  obtain w where w: "c_pRcvTimeWindow c = Some w" using assms by (auto simp: recv_inv_def)
  obtain q where q: "acknowledge_packet ?p (c_udt c) = Inr (send_packet q (c_udt c))" "acknowledges q ?p"
    by (rule acknowledge_packet_sends)
  define c1 where "c1 = count_arrival rd (on_udt (\<lambda>_. send_packet q (c_udt c)) c)\<lparr> c_pRcvTimeWindow := Some (note_arrival rd ?p w) \<rparr>"
  have "processData rd a (c, uq) = place_data a (seqoff (c_iRcvLastAck c1) (m_iSeqNo ?p)) (c1, uq)"
    by (simp add: processData_def q(1) w c1_def Let_def)
  moreover have "u_sent (c_udt c1) = u_sent (c_udt c) @ [q]" "c_llRecvTotal c1 = i64 (c_llRecvTotal c + 1)"
    "c_pRcvBuffer c1 = c_pRcvBuffer c" "c_iRcvLastAck c1 = c_iRcvLastAck c"
    "u_bConnected (c_udt c1) = u_bConnected (c_udt c)" "u_dgram (c_udt c1) = u_dgram (c_udt c)" "recv_inv pl isn c1 uq A out"
    using assms by (simp_all add: c1_def count_arrival_def on_udt_def send_packet_def recv_inv_def)
  ultimately show ?thesis using that q(2) by blast
qed

lemma finish_recv_inv:
  assumes inv: "recv_inv pl isn c uq A out" and len: "0 \<le> len"
    and r: "finish_recv len (c, uq, ep) = Inr (Inr (n, bytes), c', uq', ep')"
  shows "recv_inv pl isn c' uq' A (out @ bytes)"
proof -
  obtain rb where rb: "c_pRcvBuffer c = Some rb" "rcv_run pl rb uq A out" "rb_size rb < 1073741823"
    using inv by (auto simp: recv_inv_def)
  obtain R where R: "rb_inv pl R A rb uq" using rcv_run_extends [OF rb(2)] by blast
  obtain bs R' rb1 uq1 where d: "readBuffer len (rb, uq) = Inr (int (length bs), bs, rb1, uq1)" "rb_size rb1 = rb_size rb"
    by (rule readBuffer_stream [OF R len])
  have "recv_error c = Inr None"
  proof (cases "recv_error c")
    case (Inr e)
    then show ?thesis using r by (cases e) (simp_all add: finish_recv_def)
  qed (use r in \<open>simp add: finish_recv_def\<close>)
  then have "bytes = bs" "uq' = uq1" "c_pRcvBuffer c' = Some rb1" "c_pRcvTimeWindow c' = c_pRcvTimeWindow c"
    "c_iRcvLastAck c' = c_iRcvLastAck c"
    using r rb(1) d(1) by (auto simp: finish_recv_def on_udt_def Let_def split: prod.splits if_splits)
  then show ?thesis using inv rcv_read [OF rb(2) len d(1)] d(2) rb(3) by (simp add: recv_inv_def)
qed

lemma place_data_inv:
  assumes inv: "recv_inv pl isn c uq A out" and p: "carries_packet pl isn uq a k" "\<bar>int k - int A\<bar> < 1073741823"
    and r: "place_data a (seqoff (c_iRcvLastAck c) (m_iSeqNo (m_Packet (unit_at uq a)))) (c, uq) = Inr (r, c', uq')"
  shows "recv_inv pl isn c' uq' (A + nat (seqoff (c_iRcvLastAck c) (c_iRcvLastAck c'))) out"
proof -
  have la: "c_iRcvLastAck c = (isn + int A) mod 2147483648" using inv by (simp add: recv_inv_def)
  have same: "seqoff (c_iRcvLastAck c) (c_iRcvLastAck c) = 0"
    using la by (simp add: seqoff_zero_iff)
  show ?thesis
  proof (rule place_data_cases [OF inv p])
    fix rb rb' i uq1
    let ?c1 = "c\<lparr> c_pRcvBuffer := Some rb', c_iRcvLastAck := (isn + int (A + i)) mod 2147483648 \<rparr>"
    assume d: "place_data a (seqoff (c_iRcvLastAck c) (m_iSeqNo (m_Packet (unit_at uq a)))) (c, uq) = Inr (0, ?c1, uq1)"
      "recv_inv pl isn ?c1 uq1 (A + i) out" "i < rb_size rb" "c_pRcvBuffer c = Some rb"
    have "\<bar>int (A + i) - int A\<bar> < 1073741823" using inv d(3,4) by (auto simp: recv_inv_def)
    from seqno.off_between [OF this, of isn] show ?thesis using r d(1,2) la by auto
  qed (use r inv same in auto)
qed

lemma receive_run_inv:
  assumes "receive_run pl isn st A out"
  shows "recv_inv pl isn (fst st) (snd st) A out"
  using assms
proof induction
  case (run_start c i n uq)
  then have "rcv_run pl (rcv_buffer_new i n) uq 0 []" by (simp add: rcv_start)
  then show ?case using run_start by (simp add: recv_inv_def rcv_buffer_new_def valid_seq_bounds)
next
  case (run_data c uq A out a k rd r c' uq')
  then have inv: "recv_inv pl isn c uq A out" by simp
  obtain c1 where c1: "c_iRcvLastAck c1 = c_iRcvLastAck c" "recv_inv pl isn c1 uq A out"
    "processData rd a (c, uq) = place_data a (seqoff (c_iRcvLastAck c1) (m_iSeqNo (m_Packet (unit_at uq a)))) (c1, uq)"
    by (rule processData_places [OF inv, where rd = rd and a = a])
  have "place_data a (seqoff (c_iRcvLastAck c1) (m_iSeqNo (m_Packet (unit_at uq a)))) (c1, uq) = Inr (r, c', uq')"
    using c1(3) run_data.hyps(4) by (rule trans [OF sym])
  from place_data_inv [OF c1(2) run_data.hyps(2,3) this] show ?case using c1(1) by simp
next
  case (run_recv c uq A out len ep n bytes c' uq' ep')
  then show ?case using finish_recv_inv by fastforce
next
  case (run_others c uq A out c' uq')
  then obtain rb where rb: "c_pRcvBuffer c = Some rb" "rcv_run pl rb uq A out" "rb_size rb < 1073741823"
    by (auto simp: recv_inv_def)
  then have "rcv_run pl rb uq' A out" using rcv_others [OF rb(2)] run_others.hyps(5) by blast
  then show ?case using run_others rb by (auto simp: recv_inv_def)
qed


text \<open>A connected socket with a buffer of four places, and a packet with the bytes 1 and 2.\<close>

definition receiving_socket :: "'s cudt \<Rightarrow> 's cudt" where
  "receiving_socket raw =
     (on_udt (\<lambda>u. u\<lparr> u_bConnected := True, u_dgram := False, u_bBroken := False, u_bClosing := False, u_sent := [] \<rparr>) raw)
       \<lparr> c_pRcvBuffer := Some (rcv_buffer_new 0 4), c_pRcvTimeWindow := Some (time_window_new 0 16 64), c_iRcvLastAck := 0 \<rparr>"

lemma receiving_socket_run: "receive_run sample_payload 0 (receiving_socket raw, sample_units) 0 []"
  by (rule run_start [where i = 0 and n = 4]) (simp_all add: receiving_socket_def valid_seq_bounds)

lemma sample_packet_arrives: "carries_packet sample_payload 0 sample_units (0, 1) 0"
  by (simp add: carries_packet_def sample_units_def unit_at_def unit_valid_def payload_is_def sample_payload_def m_iSeqNo_def)


text \<open>A packet that has no room is acknowledged all the same: the peer will not send it again.\<close>

lemma refused_packet_acknowledged:
  assumes inv: "recv_inv pl isn c uq A out" and p: "carries_packet pl isn uq a k" "\<bar>int k - int A\<bar> < 1073741823"
    and full: "c_pRcvBuffer c = Some rb" "getAvailBufSize rb \<le> int k - int A"
  shows "\<exists>c' q. processData rd a (c, uq) = Inr (-1, c', uq) \<and> c_pRcvBuffer c' = Some rb \<and> c_iRcvLastAck c' = c_iRcvLastAck c
    \<and> u_sent (c_udt c') = u_sent (c_udt c) @ [q] \<and> acknowledges q (m_Packet (unit_at uq a))"
proof -
  obtain q c1 where c1: "acknowledges q (m_Packet (unit_at uq a))" "u_sent (c_udt c1) = u_sent (c_udt c) @ [q]"
    "c_pRcvBuffer c1 = c_pRcvBuffer c" "c_iRcvLastAck c1 = c_iRcvLastAck c" "recv_inv pl isn c1 uq A out"
    "processData rd a (c, uq) = place_data a (seqoff (c_iRcvLastAck c1) (m_iSeqNo (m_Packet (unit_at uq a)))) (c1, uq)"
    by (rule processData_places [OF inv, where rd = rd and a = a])
  show ?thesis by (rule place_data_cases [OF c1(5) p]) (use c1 full in auto)
qed

subsection \<open>What the application receives\<close>

lemma data_size_pending:
  assumes "rb_inv pl R A rb uq" "pending pl R A k \<noteq> []"
  shows "getRcvDataSize rb \<noteq> 0"
  using assms data_size_ring [OF assms(1)] ring_invD(2) [of pl R A rb uq] by (auto simp: pending_def rb_inv_def)

text \<open>C8: the connection delivers the stream.  In every run what the application has received is a
  prefix of the peer's stream.  While acknowledged bytes are left, recv does not wait and returns
  the next of them, as many as asked for or all; a broken or closing connection can still be
  read.  When nothing is left, recv fails on a broken or closing connection and on a socket that
  must not block, and otherwise reads after waiting.\<close>

theorem connection_delivers_stream:
  assumes run: "receive_run pl isn (c, uq) A out" and len: "0 < len"
    and c: "\<not> u_dgram (c_udt c)" "u_bConnected (c_udt c)"
  shows "\<exists>rest rb. concat (map pl [0..<A]) = out @ rest \<and> c_pRcvBuffer c = Some rb
    \<and> (rest \<noteq> [] \<longrightarrow> (\<exists>c' uq' ep'. receive_run pl isn (c', uq') A (out @ take (nat len) rest)
         \<and> udt_recv waited len (c, uq, ep) = Inr (Inr (int (min (nat len) (length rest)), take (nat len) rest), c', uq', ep')))
    \<and> (getRcvDataSize rb = 0 \<longrightarrow> udt_recv waited len (c, uq, ep) =
         (if u_bBroken (c_udt c) \<or> u_bClosing (c_udt c) then Inr (Inl (Udt_Error 2 1), c, uq, ep)
          else if \<not> c_bSynRecving c then Inr (Inl (Udt_Error 6 2), c, uq, ep) else finish_recv len (waited (c, uq, ep))))"
proof -
  obtain rb where rb: "c_pRcvBuffer c = Some rb" "rcv_run pl rb uq A out"
    using receive_run_inv [OF run] by (auto simp: recv_inv_def)
  obtain R where R: "rb_inv pl R A rb uq" "out @ pending pl R A (rb_notch rb) = concat (map pl [0..<A])"
    using rcv_run_inv [OF rb(2)] by blast
  let ?rest = "pending pl R A (rb_notch rb)"
  have reads: "\<exists>c' uq' ep'. finish_recv len (c, uq, ep) = Inr (Inr (int (min (nat len) (length ?rest)), take (nat len) ?rest), c', uq', ep')
      \<and> udt_recv waited len (c, uq, ep) = finish_recv len (c, uq, ep)" if "?rest \<noteq> []"
  proof -
    obtain rb1 uq1 where d: "readBuffer len (rb, uq) = Inr (int (length (take (nat len) ?rest)), take (nat len) ?rest, rb1, uq1)"
      by (rule readBuffer_stream [OF R(1), of len]) (use len in auto)
    have s: "getRcvDataSize rb \<noteq> 0" using data_size_pending [OF R(1) that] .
    then have e: "recv_error c = Inr None" using c(2) rb(1) by (simp add: recv_error_def data_size_def)
    have "0 < min (length ?rest) (nat len)" using that len by simp
    then have "\<not> int (min (length ?rest) (nat len)) \<le> 0" by linarith
    then show ?thesis
      using d e s rb(1) len c(1)
      by (auto simp: finish_recv_def udt_recv_def data_size_def Let_def min.commute split: prod.splits)
  qed
  show ?thesis
  proof (intro exI [of _ ?rest] exI [of _ rb] conjI impI)
    assume "?rest \<noteq> []"
    then obtain c' uq' ep' where f: "finish_recv len (c, uq, ep)
        = Inr (Inr (int (min (nat len) (length ?rest)), take (nat len) ?rest), c', uq', ep')"
      "udt_recv waited len (c, uq, ep) = finish_recv len (c, uq, ep)" using reads by blast
    then show "\<exists>c' uq' ep'. receive_run pl isn (c', uq') A (out @ take (nat len) ?rest)
         \<and> udt_recv waited len (c, uq, ep) = Inr (Inr (int (min (nat len) (length ?rest)), take (nat len) ?rest), c', uq', ep')"
      using run_recv [OF run _ f(1)] len by auto
  next
    assume "getRcvDataSize rb = 0"
    then show "udt_recv waited len (c, uq, ep) =
         (if u_bBroken (c_udt c) \<or> u_bClosing (c_udt c) then Inr (Inl (Udt_Error 2 1), c, uq, ep)
          else if \<not> c_bSynRecving c then Inr (Inl (Udt_Error 6 2), c, uq, ep) else finish_recv len (waited (c, uq, ep)))"
      using c len rb(1) by (auto simp: udt_recv_def recv_error_def data_size_def)
  qed (use R(2) rb(1) in auto)
qed

lemma sample_receive_run:
  fixes raw :: "'s cudt"
  obtains c :: "'s cudt" and uq A where "receive_run sample_payload 0 (c, uq) A []" "0 < A" "\<not> u_dgram (c_udt c)" "u_bConnected (c_udt c)"
proof -
  let ?c = "receiving_socket raw" and ?uq = sample_units
  have inv: "recv_inv sample_payload 0 ?c ?uq 0 []" using receive_run_inv [OF receiving_socket_run [of raw]] by simp
  obtain c1 where c1: "c_pRcvBuffer c1 = c_pRcvBuffer ?c" "c_iRcvLastAck c1 = c_iRcvLastAck ?c" "recv_inv sample_payload 0 c1 ?uq 0 []"
    "u_bConnected (c_udt c1) = u_bConnected (c_udt ?c)" "u_dgram (c_udt c1) = u_dgram (c_udt ?c)"
    "processData sample_readings (0, 1) (?c, ?uq)
       = place_data (0, 1) (seqoff (c_iRcvLastAck c1) (m_iSeqNo (m_Packet (unit_at ?uq (0, 1))))) (c1, ?uq)"
    by (rule processData_places [OF inv, where rd = sample_readings and a = "(0, 1)"])
  have free: "\<exists>rb. c_pRcvBuffer c1 = Some rb \<and> getAvailBufSize rb = 3 \<and> rb_size rb = 4"
    using c1(1) by (simp add: receiving_socket_def getAvailBufSize_def getRcvDataSize_def rcv_buffer_new_def)
  show ?thesis
  proof (rule place_data_cases [OF c1(3) sample_packet_arrives])
    fix rb rb' i uq'
    let ?c2 = "c1\<lparr> c_pRcvBuffer := Some rb', c_iRcvLastAck := (0 + int (0 + i)) mod 2147483648 \<rparr>"
    assume d: "place_data (0, 1) (seqoff (c_iRcvLastAck c1) (m_iSeqNo (m_Packet (unit_at ?uq (0, 1))))) (c1, ?uq) = Inr (0, ?c2, uq')"
      "(0 :: nat) = 0 \<Longrightarrow> 0 < i" "i < rb_size rb" "c_pRcvBuffer c1 = Some rb"
    have "i < 4" using d(3,4) free by auto
    then have near: "\<bar>int (0 + i) - int 0\<bar> < 1073741823" by simp
    have "receive_run sample_payload 0 (?c2, uq') (0 + nat (seqoff (c_iRcvLastAck ?c) (c_iRcvLastAck ?c2))) []"
      by (rule run_data [OF receiving_socket_run sample_packet_arrives _ trans [OF c1(6) d(1)]]) simp
    then show ?thesis
      using that [of ?c2 uq'] seqno.off_between [OF near, of 0] d(2) c1(4,5)
      by (simp add: receiving_socket_def on_udt_def)
  qed (use free in auto)
qed

theorem connection_delivers_stream_witness:
  "\<forall>waited ep. \<exists>(c :: unit cudt) uq st. udt_recv waited 1 (c, uq, ep) = Inr (Inr (1, [1]), st)"
proof (intro allI)
  fix waited :: "unit recv_state \<Rightarrow> unit recv_state" and ep
  obtain c :: "unit cudt" and uq A where r: "receive_run sample_payload 0 (c, uq) A []" "0 < A" "\<not> u_dgram (c_udt c)" "u_bConnected (c_udt c)"
    by (rule sample_receive_run)
  obtain B where "A = Suc B" using r(2) by (cases A) auto
  then have "concat (map sample_payload [0..<A]) = [1, 2] @ concat (map sample_payload [1..<A])"
    by (simp add: upt_rec [of 0] sample_payload_def)
  then show "\<exists>(c :: unit cudt) uq st. udt_recv waited 1 (c, uq, ep) = Inr (Inr (1, [1]), st)"
    using connection_delivers_stream [OF r(1) _ r(3,4), where len = 1 and waited = waited and ep = ep] by fastforce
qed

end
