(* ===== verification/Rcv_Message.thy ===== *)
theory Rcv_Message
  imports Rcv_Buffer
begin

text \<open>The message side of CRcvBuffer (core/buffer.cpp): scanMsg, getRcvMsgNum and readMsg, for sockets
  of type UDT\_DGRAM.  A message is a run of units from one with the boundary bits 10 or 11 to one with
  01 or 11.

  The lemmas show that the scan ends and what it finds.\<close>

subsection \<open>Scanning\<close>

definition next_place :: "rcv_buffer \<Rightarrow> nat \<Rightarrow> nat" where
  "next_place rb i = (if i + 1 = rb_size rb then 0 else i + 1)"

definition unread :: "rcv_buffer \<Rightarrow> unit_queue \<Rightarrow> nat \<Rightarrow> bool" where
  "unread rb uq i = (case rb_unit rb ! i of None \<Rightarrow> False | Some a \<Rightarrow> m_iFlag (unit_at uq a) = 1)"

definition boundary :: "rcv_buffer \<Rightarrow> unit_queue \<Rightarrow> nat \<Rightarrow> int" where
  "boundary rb uq i = (case rb_unit rb ! i of None \<Rightarrow> 0 | Some a \<Rightarrow> getMsgBoundary (m_Packet (unit_at uq a)))"

definition in_order :: "rcv_buffer \<Rightarrow> unit_queue \<Rightarrow> nat \<Rightarrow> bool" where
  "in_order rb uq i = (case rb_unit rb ! i of None \<Rightarrow> False | Some a \<Rightarrow> getMsgOrderFlag (m_Packet (unit_at uq a)))"

text \<open>Looking ahead: is the message complete, as far as it is acknowledged?\<close>

primrec look_ahead :: "nat \<Rightarrow> nat \<Rightarrow> rcv_buffer \<times> unit_queue \<Rightarrow> bool outcome" where
  "look_ahead 0 i st = Inl Diverges"
| "look_ahead (Suc fuel) i st =
     (case st of (rb, uq) \<Rightarrow>
        if i = rb_lastack rb then Inr True
        else if \<not> unread rb uq i then Inr False
        else if boundary rb uq i = 1 \<or> boundary rb uq i = 3 then Inr True
        else look_ahead fuel (next_place rb i) st)"

text \<open>The units at the start that do not begin a complete message are given up.\<close>

definition drop_first :: "rcv_buffer \<times> unit_queue \<Rightarrow> rcv_buffer \<times> unit_queue" where
  "drop_first = (\<lambda>(rb, uq).
     (rb\<lparr> rb_unit := (rb_unit rb)[rb_start rb := None], rb_start := next_place rb (rb_start rb) \<rparr>,
      case rb_unit rb ! rb_start rb of None \<Rightarrow> uq | Some a \<Rightarrow> release_unit a uq))"

primrec skip_bad :: "nat \<Rightarrow> rcv_buffer \<times> unit_queue \<Rightarrow> (rcv_buffer \<times> unit_queue) outcome" where
  "skip_bad 0 st = Inl Diverges"
| "skip_bad (Suc fuel) st =
     (case st of (rb, uq) \<Rightarrow>
        if rb_start rb = rb_lastack rb then Inr st
        else if unread rb uq (rb_start rb) \<and> boundary rb uq (rb_start rb) > 1 then
          bind_outcome (look_ahead (rb_size rb + 1) (rb_start rb) st)
            (\<lambda>good. if good then Inr st else skip_bad fuel (drop_first st))
        else skip_bad fuel (drop_first st))"

text \<open>One step of the search at place \<open>q\<close>: the new head of the message, and whether its tail is found.\<close>

definition scan_place :: "rcv_buffer \<Rightarrow> unit_queue \<Rightarrow> nat option \<Rightarrow> nat \<Rightarrow> bool \<times> nat option" where
  "scan_place rb uq p q =
     (if unread rb uq q then
        (if boundary rb uq q = 3 then (True, Some q)
         else if boundary rb uq q = 2 then (False, Some q)
         else if boundary rb uq q = 1 \<and> p \<noteq> None then (True, p)
         else (False, p))
      else (False, None))"

primrec search_message ::
  "nat \<Rightarrow> rcv_buffer \<Rightarrow> unit_queue \<Rightarrow> nat option \<Rightarrow> nat \<Rightarrow> bool \<Rightarrow> bool \<times> nat option \<times> nat \<times> bool" where
  "search_message 0 rb uq p q passack = (False, p, q, passack)"
| "search_message (Suc n) rb uq p q passack =
     (case scan_place rb uq p q of (found, p1) \<Rightarrow>
        if found \<and> (\<not> passack \<or> \<not> in_order rb uq q) then (True, p1, q, passack)
        else search_message n rb uq p1 (next_place rb q) (passack \<or> next_place rb q = rb_lastack rb))"

definition scanMsg ::
  "rcv_buffer \<times> unit_queue \<Rightarrow> (bool \<times> nat option \<times> nat \<times> bool \<times> rcv_buffer \<times> unit_queue) outcome" where
  "scanMsg st =
     (if rb_start (fst st) = rb_lastack (fst st) \<and> rb_maxpos (fst st) = 0
      then Inr (False, None, 0, False, st)
      else map_outcome (\<lambda>(rb, uq).
          let (found, p, q, passack) =
            search_message (Suc (rb_maxpos rb + nat (getRcvDataSize rb))) rb uq None (rb_start rb)
              (rb_start rb = rb_lastack rb)
          in (found \<or> p = Some ((q + 1) mod rb_size rb), p, q, passack, rb, uq))
        (skip_bad (rb_size (fst st) + 1) st))"

definition getRcvMsgNum :: "rcv_buffer \<times> unit_queue \<Rightarrow> (int \<times> rcv_buffer \<times> unit_queue) outcome" where
  "getRcvMsgNum st = map_outcome (\<lambda>(found, _, _, _, st1). (if found then 1 else 0, st1)) (scanMsg st)"

subsection \<open>Reading a message\<close>

text \<open>A unit behind the acknowledged ones stays in the buffer and is marked as read.\<close>

definition take_unit :: "bool \<Rightarrow> nat \<Rightarrow> unit_addr \<Rightarrow> rcv_buffer \<times> unit_queue \<Rightarrow> rcv_buffer \<times> unit_queue" where
  "take_unit passack p a = (\<lambda>(rb, uq).
     if \<not> passack then (rb\<lparr> rb_unit := (rb_unit rb)[p := None] \<rparr>, release_unit a uq)
     else (rb, set_unit a ((unit_at uq a)\<lparr> m_iFlag := 2 \<rparr>) uq))"

primrec read_message ::
  "nat \<Rightarrow> bool \<Rightarrow> nat \<Rightarrow> nat \<Rightarrow> int \<Rightarrow> rcv_buffer \<times> unit_queue \<Rightarrow> (byte list \<times> int \<times> rcv_buffer \<times> unit_queue) outcome" where
  "read_message 0 passack p q rs st = Inl Diverges"
| "read_message (Suc fuel) passack p q rs st =
     (case st of (rb, uq) \<Rightarrow>
        if p = (q + 1) mod rb_size rb then Inr ([], rs, st)
        else case rb_unit rb ! p of None \<Rightarrow> Inl Null_Deref
        | Some a \<Rightarrow>
            let len = getLength (m_Packet (unit_at uq a));
                unitsize = (if rs \<ge> 0 \<and> len > rs then rs else len) in
            bind_outcome (if unitsize > 0 then copy_out (m_Packet (unit_at uq a)) 0 unitsize else Inr []) (\<lambda>bytes.
            map_outcome (\<lambda>(more, res). (bytes @ more, res))
              (read_message fuel passack (next_place rb p) q (if unitsize > 0 then rs - unitsize else rs)
                (take_unit passack p a st))))"

definition readMsg :: "int \<Rightarrow> rcv_buffer \<times> unit_queue \<Rightarrow> (int \<times> byte list \<times> rcv_buffer \<times> unit_queue) outcome" where
  "readMsg len st =
     bind_outcome (scanMsg st) (\<lambda>(found, p, q, passack, rb, uq).
       if \<not> found then Inr (0, [], rb, uq)
       else case p of None \<Rightarrow> Inl Out_Of_Bounds
       | Some p0 \<Rightarrow> map_outcome (\<lambda>(bytes, rs, rb1, uq1).
             (len - rs, bytes, (if \<not> passack then rb1\<lparr> rb_start := (q + 1) mod rb_size rb1 \<rparr> else rb1), uq1))
           (read_message (rb_size rb + 1) passack p0 q len (rb, uq)))"

subsection \<open>The scan ends\<close>

definition ring_wf :: "rcv_buffer \<Rightarrow> bool" where
  "ring_wf rb \<longleftrightarrow> length (rb_unit rb) = rb_size rb \<and> rb_start rb < rb_size rb \<and> rb_lastack rb < rb_size rb"

text \<open>The number of places from i up to j.\<close>

definition ahead :: "nat \<Rightarrow> nat \<Rightarrow> nat \<Rightarrow> nat" where
  "ahead n i j = (if i \<le> j then j - i else j + n - i)"

lemma ahead_less: "i < n \<Longrightarrow> j < n \<Longrightarrow> ahead n i j < n"
  by (auto simp: ahead_def)

lemma next_place_less [simp]: "i < rb_size rb \<Longrightarrow> next_place rb i < rb_size rb"
  by (auto simp: next_place_def)

lemma next_place_mod: "i < rb_size rb \<Longrightarrow> next_place rb i = (i + 1) mod rb_size rb"
  by (auto simp: next_place_def)

lemma ahead_next: "i < rb_size rb \<Longrightarrow> j < rb_size rb \<Longrightarrow> i \<noteq> j \<Longrightarrow> ahead (rb_size rb) (next_place rb i) j < ahead (rb_size rb) i j"
  by (auto simp: ahead_def next_place_def)

lemma look_ahead_ends:
  assumes "i < rb_size rb" "rb_lastack rb < rb_size rb" "ahead (rb_size rb) i (rb_lastack rb) < fuel"
  shows "\<exists>good. look_ahead fuel i (rb, uq) = Inr good"
  using assms
proof (induction fuel arbitrary: i)
  case (Suc fuel)
  then show ?case using ahead_next [of i rb "rb_lastack rb"] by auto
qed simp

lemma drop_first_wf:
  assumes "ring_wf (fst st)"
  shows "ring_wf (fst (drop_first st))" "rb_size (fst (drop_first st)) = rb_size (fst st)"
    "rb_lastack (fst (drop_first st)) = rb_lastack (fst st)"
    "rb_start (fst (drop_first st)) = next_place (fst st) (rb_start (fst st))"
  using assms by (auto simp: drop_first_def ring_wf_def next_place_def split: prod.splits)

lemma skip_bad_ends:
  assumes "ring_wf (fst st)" "ahead (rb_size (fst st)) (rb_start (fst st)) (rb_lastack (fst st)) < fuel"
  shows "\<exists>st'. skip_bad fuel st = Inr st' \<and> ring_wf (fst st') \<and> rb_size (fst st') = rb_size (fst st)
    \<and> rb_lastack (fst st') = rb_lastack (fst st)"
  using assms
proof (induction fuel arbitrary: st)
  case (Suc fuel)
  obtain rb uq where st: "st = (rb, uq)" by (cases st)
  note wf = Suc.prems(1) [unfolded st fst_conv ring_wf_def]
  note d = drop_first_wf [OF Suc.prems(1)]
  have drop: "\<exists>st'. skip_bad fuel (drop_first st) = Inr st' \<and> ring_wf (fst st') \<and> rb_size (fst st') = rb_size rb
      \<and> rb_lastack (fst st') = rb_lastack rb" if "rb_start rb \<noteq> rb_lastack rb"
    using Suc.IH [OF d(1)] ahead_next [of "rb_start rb" rb "rb_lastack rb"] wf d(2-4) Suc.prems(2) that by (simp add: st)
  obtain good where g: "look_ahead (rb_size rb + 1) (rb_start rb) (rb, uq) = Inr good"
    using look_ahead_ends [of "rb_start rb" rb "rb_size rb + 1" uq] ahead_less wf by fastforce
  show ?case using Suc.prems(1) drop g by (cases good) (auto simp: st)
qed simp

subsection \<open>What is found\<close>

text \<open>From place x on, the l places hold unread units, and the first of them begins a message.\<close>

definition message_from :: "rcv_buffer \<Rightarrow> unit_queue \<Rightarrow> nat \<Rightarrow> nat \<Rightarrow> bool" where
  "message_from rb uq x l \<longleftrightarrow> x < rb_size rb \<and> boundary rb uq x \<in> {2, 3} \<and> (\<forall>j<l. unread rb uq ((x + j) mod rb_size rb))"

lemma scan_place_message:
  assumes "q < rb_size rb" "p = None \<or> (\<exists>x l. p = Some x \<and> q = (x + l) mod rb_size rb \<and> message_from rb uq x l)"
    "scan_place rb uq p q = (found, p1)"
  shows "p1 = None \<and> \<not> found \<or> (\<exists>x l. p1 = Some x \<and> q = (x + l) mod rb_size rb \<and> message_from rb uq x (Suc l)
    \<and> (found \<longrightarrow> boundary rb uq q \<in> {1, 3}))"
proof (cases "unread rb uq q")
  case True
  show ?thesis
  proof (cases "boundary rb uq q \<in> {2, 3}")
    case new: True
    then have "message_from rb uq q (Suc 0)" "q = (q + 0) mod rb_size rb" using assms(1) True by (auto simp: message_from_def)
    moreover have "p1 = Some q" "found = (boundary rb uq q = 3)" using assms(3) new True by (auto simp: scan_place_def)
    ultimately show ?thesis by blast
  next
    case False
    then have "p1 = p" "found \<Longrightarrow> boundary rb uq q = 1 \<and> p \<noteq> None" using assms(3) True by (auto simp: scan_place_def split: if_splits)
    then show ?thesis using assms(2) True by (fastforce simp: message_from_def less_Suc_eq)
  qed
next
  case False
  then show ?thesis using assms(3) by (simp add: scan_place_def)
qed

lemma search_message_finds:
  assumes "q < rb_size rb" "p = None \<or> (\<exists>x l. p = Some x \<and> q = (x + l) mod rb_size rb \<and> message_from rb uq x l)"
    "search_message n rb uq p q passack = (found, p1, q1, passack1)"
  shows "q1 < rb_size rb \<and> (if found then \<exists>x l. p1 = Some x \<and> q1 = (x + l) mod rb_size rb \<and> message_from rb uq x (Suc l)
      \<and> boundary rb uq q1 \<in> {1, 3} \<and> (\<not> passack1 \<or> \<not> in_order rb uq q1)
    else p1 = None \<or> (\<exists>x l. p1 = Some x \<and> q1 = (x + l) mod rb_size rb \<and> message_from rb uq x l))"
  using assms
proof (induction n arbitrary: p q passack)
  case (Suc n)
  obtain f p2 where s: "scan_place rb uq p q = (f, p2)" by (cases "scan_place rb uq p q")
  note m = scan_place_message [OF Suc.prems(1,2) s]
  show ?case
  proof (cases "f \<and> (\<not> passack \<or> \<not> in_order rb uq q)")
    case True
    then show ?thesis using Suc.prems(1,3) s m by auto
  next
    case False
    have "next_place rb q = (x + Suc l) mod rb_size rb" if "q = (x + l) mod rb_size rb" for x l
      using that Suc.prems(1) by (simp add: next_place_mod mod_Suc_eq)
    then have "p2 = None \<or> (\<exists>x l. p2 = Some x \<and> next_place rb q = (x + l) mod rb_size rb \<and> message_from rb uq x l)"
      using m by blast
    then show ?thesis using Suc.IH [of "next_place rb q" p2] Suc.prems(1,3) s False by (auto split: if_splits)
  qed
qed auto


text \<open>A message that fills the buffer is found but not read: readMsg stops at once.\<close>

lemma full_message_not_read:
  assumes "scanMsg st = Inr (True, Some ((q + 1) mod rb_size rb), q, passack, rb, uq)"
  shows "\<exists>st'. readMsg len st = Inr (0, [], st')"
  using assms by (simp add: readMsg_def)

text \<open>A whole message of one unit.\<close>

definition message_units :: unit_queue where
  "message_units = \<lparr> uq_entries = [[
       \<lparr> m_Packet = \<lparr> pk_header = [0, 0xC0000000, 0, 0], pk_data = Some [7, 8], pk_len = 2 \<rparr>, m_iFlag = 1 \<rparr>]],
     uq_curr = 0, uq_avail = 0, uq_size = 1, uq_count = 1, uq_mss = 2, uq_version = 4 \<rparr>"

definition message_buffer :: rcv_buffer where
  "message_buffer = (rcv_buffer_new 0 4)\<lparr> rb_unit := [Some (0, 0), None, None, None], rb_lastack := 1 \<rparr>"

lemma message_sample: "map_outcome (\<lambda>(found, p, q, _). (found, p, q)) (scanMsg (message_buffer, message_units)) = Inr (True, Some 0, 0)"
  by code_simp


end
