(* ===== verification/Socket_Table.thy ===== *)
theory Socket_Table
  imports Udt_Receive Rcv_Message
begin

text \<open>The socket table (classes CUDTSocket and CUDTUnited, core/api.h and api.cpp): creation and lookup
  of sockets, the UDP multiplexers they share, and the calls bind, listen, accept, connect and close.

  The CUDTSocket objects that exist are kept in a store by their ID; \<open>m_Sockets\<close> and
  \<open>m_ClosedSockets\<close> are sets of IDs, an object in neither is still in the store until it is
  deleted.  A use of an object that is not in the store, like a use of NULL, ends the program.  A call
  that throws returns the exception together with the state.\<close>

subsection \<open>State\<close>

datatype udt_status = INIT | OPENED | LISTENING | CONNECTING | CONNECTED | BROKEN | CLOSING | CLOSED | NONEXIST

record 's usock =
  so_Status :: udt_status
  so_TimeStamp :: int
  so_iIPversion :: int
  so_pSelfAddr :: sockaddr
  so_pPeerAddr :: "sockaddr option"
  so_ListenSocket :: int
  so_PeerID :: int
  so_iISN :: int
  so_pUDT :: "'s cudt"
  so_pQueuedSockets :: "int set option"
  so_pAcceptSockets :: "int set option"
  so_uiBackLog :: int
  so_iMuxID :: int

text \<open>A multiplexer; \<open>mx_addr\<close> is the local address of its channel.\<close>

record mux =
  mx_addr :: sockaddr
  mx_iPort :: int
  mx_iIPversion :: int
  mx_iMSS :: int
  mx_iRefCount :: int
  mx_bReusable :: bool
  mx_rcv :: rcv_queue

record 's united =
  t_store :: "int \<Rightarrow> 's usock option"
  t_Sockets :: "int set"
  t_ClosedSockets :: "int set"
  t_SocketID :: int
  t_PeerRec :: "int \<Rightarrow> int set option"
  t_mux :: "int \<Rightarrow> mux option"
  t_pCache :: cache
  t_EPoll :: epoll
  t_out :: "(sockaddr \<times> cpacket) list"
  t_iInstanceCount :: int
  t_bGCStatus :: bool
  t_bClosing :: bool

text \<open>What a call takes from outside: clocks and random numbers, fresh memory, a new controller, the
  CPU frequency, and for the linger time of close what the other threads do while it waits.\<close>

record 's env =
  e_rd :: readings
  e_pf :: platform
  e_junk :: info_block
  e_mem :: "nat \<Rightarrow> byte"
  e_units :: "nat \<Rightarrow> byte list"
  e_word :: "32 word"
  e_addr :: sockaddr
  e_freq :: int
  e_pcc :: 's
  e_raw :: "'s cudt"
  e_fuel :: nat
  e_meanwhile :: "nat \<Rightarrow> 's cudt \<times> net \<Rightarrow> 's cudt \<times> net"
  e_clock :: "nat \<Rightarrow> int"

definition SOCK_STREAM :: int where "SOCK_STREAM = 1"
definition SOCK_DGRAM :: int where "SOCK_DGRAM = 2"

type_synonym ('s, 'a) api = "((failure + 'a) \<times> 's united) outcome"

definition throws :: "failure \<Rightarrow> 's united \<Rightarrow> ('s, 'a) api" where
  "throws e t = Inr (Inl e, t)"

definition returns :: "'a \<Rightarrow> 's united \<Rightarrow> ('s, 'a) api" where
  "returns x t = Inr (Inr x, t)"

text \<open>What follows a call that may throw: an exception of UDT goes on to the caller.\<close>

definition after_call :: "'a outcome \<Rightarrow> 's united \<Rightarrow> ('a \<Rightarrow> ('s, 'b) api) \<Rightarrow> ('s, 'b) api" where
  "after_call r t k = (case r of Inr x \<Rightarrow> k x | Inl e \<Rightarrow> (case e of Udt_Error _ _ \<Rightarrow> throws e t | _ \<Rightarrow> Inl e))"

definition upd_sock :: "int \<Rightarrow> ('s usock \<Rightarrow> 's usock) \<Rightarrow> 's united \<Rightarrow> 's united" where
  "upd_sock u f t = t\<lparr> t_store := (t_store t)(u := map_option f (t_store t u)) \<rparr>"

definition united_new :: "platform \<Rightarrow> int \<Rightarrow> 's united" where
  "united_new pf rand =
     \<lparr> t_store = (\<lambda>_. None), t_Sockets = {}, t_ClosedSockets = {},
       t_SocketID = i32 (1 + fp_to_i32 pf (d_mul (d_int 1073741824) (d_div (d_int rand) (d_int 2147483647)))),
       t_PeerRec = (\<lambda>_. None), t_mux = (\<lambda>_. None), t_pCache = cache_new 1024, t_EPoll = epoll_new, t_out = [],
       t_iInstanceCount = 0, t_bGCStatus = False, t_bClosing = False \<rparr>"

text \<open>The library is started once; the second value is the result.\<close>

definition startup :: "'s united \<Rightarrow> int \<times> 's united" where
  "startup t =
     (let t1 = t\<lparr> t_iInstanceCount := t_iInstanceCount t + 1 \<rparr> in
      if t_iInstanceCount t > 0 then (0, t1)
      else if t_bGCStatus t then (1, t1)
      else (0, t1\<lparr> t_bClosing := False, t_bGCStatus := True \<rparr>))"

subsection \<open>Looking sockets up\<close>

definition locate :: "int \<Rightarrow> 's united \<Rightarrow> 's usock option" where
  "locate u t =
     (if u \<notin> t_Sockets t then None
      else case t_store t u of None \<Rightarrow> None | Some s \<Rightarrow> if so_Status s = CLOSED then None else Some s)"

definition lookup :: "int \<Rightarrow> 's united \<Rightarrow> 's cudt outcome" where
  "lookup u t = (case locate u t of None \<Rightarrow> Inl (Udt_Error 5 4) | Some s \<Rightarrow> Inr (so_pUDT s))"

definition getStatus :: "int \<Rightarrow> 's united \<Rightarrow> udt_status" where
  "getStatus u t =
     (if u \<notin> t_Sockets t then (if u \<in> t_ClosedSockets t then CLOSED else NONEXIST)
      else case t_store t u of None \<Rightarrow> NONEXIST
           | Some s \<Rightarrow> if u_bBroken (c_udt (so_pUDT s)) then BROKEN else so_Status s)"

text \<open>The key of a peer's connection, computed in 32 bits.\<close>

definition peer_key :: "int \<Rightarrow> int \<Rightarrow> int" where
  "peer_key sid isn = i32 (i32 (sid * 1073741824) + isn)"

definition locate_peer :: "sockaddr \<Rightarrow> int \<Rightarrow> int \<Rightarrow> 's united \<Rightarrow> int option outcome" where
  "locate_peer peer sid isn t =
     (case t_PeerRec t (peer_key sid isn) of None \<Rightarrow> Inr None
      | Some js \<Rightarrow>
          (let known = filter (\<lambda>j. j \<in> t_Sockets t) (sorted_list_of_set js);
               same = (\<lambda>j. case t_store t j of None \<Rightarrow> False
                       | Some s \<Rightarrow> (case so_pPeerAddr s of None \<Rightarrow> False | Some a \<Rightarrow> ipcmp peer a (so_iIPversion s)))
           in guard_outcome Null_Deref
                (\<forall>j \<in> set (takeWhile (\<lambda>j. \<not> same j) known). \<exists>s. t_store t j = Some s \<and> so_pPeerAddr s \<noteq> None)
                (Inr (List.find same known))))"

definition with_socket :: "int \<Rightarrow> 's united \<Rightarrow> ('s usock \<Rightarrow> ('s, 'a) api) \<Rightarrow> ('s, 'a) api" where
  "with_socket u t k = (case locate u t of None \<Rightarrow> throws (Udt_Error 5 4) t | Some s \<Rightarrow> k s)"

subsection \<open>Multiplexers\<close>

definition ntohs :: "16 word \<Rightarrow> int" where
  "ntohs w = uint (push_bit 8 w OR drop_bit 8 w)"

definition mux_ids :: "'s united \<Rightarrow> int list" where
  "mux_ids t = sorted_list_of_set (dom (t_mux t))"

definition find_mux :: "(mux \<Rightarrow> bool) \<Rightarrow> 's united \<Rightarrow> int option" where
  "find_mux P t = List.find (\<lambda>i. case t_mux t i of None \<Rightarrow> False | Some m \<Rightarrow> P m) (mux_ids t)"

definition join_mux :: "int \<Rightarrow> int \<Rightarrow> 's united \<Rightarrow> 's united" where
  "join_mux mid u t =
     upd_sock u (\<lambda>s. s\<lparr> so_iMuxID := mid \<rparr>)
       (t\<lparr> t_mux := (t_mux t)(mid := map_option (\<lambda>m. m\<lparr> mx_iRefCount := mx_iRefCount m + 1 \<rparr>) (t_mux t mid)) \<rparr>)"

definition new_mux :: "(nat \<Rightarrow> byte list) \<Rightarrow> sockaddr \<Rightarrow> 's cudt \<Rightarrow> mux" where
  "new_mux mem addr c =
     \<lparr> mx_addr = addr, mx_iPort = ntohs (sa_port addr), mx_iIPversion = c_iIPversion c, mx_iMSS = u_iMSS (c_udt c),
       mx_iRefCount = 1, mx_bReusable = c_bReuseAddr c,
       mx_rcv = rcv_queue_init mem 32 (u_iPayloadSize (c_udt c)) (c_iIPversion c) 1024 \<rparr>"

text \<open>A multiplexer with the same port, IP version and packet size that may be shared.\<close>

definition shared_mux :: "'s cudt \<Rightarrow> sockaddr option \<Rightarrow> 's united \<Rightarrow> int option" where
  "shared_mux c addr t =
     (case addr of None \<Rightarrow> None
      | Some a \<Rightarrow> if \<not> c_bReuseAddr c then None
          else find_mux (\<lambda>m. mx_iIPversion m = c_iIPversion c \<and> mx_iMSS m = u_iMSS (c_udt c) \<and> mx_bReusable m
                            \<and> mx_iPort m = ntohs (sa_port a)) t)"

text \<open>\<open>bound\<close> is the result of opening the channel: an exception, or its local address.\<close>

definition updateMux ::
  "(nat \<Rightarrow> byte list) \<Rightarrow> failure + sockaddr \<Rightarrow> int \<Rightarrow> sockaddr option \<Rightarrow> 's united \<Rightarrow> (failure option \<times> 's united) outcome" where
  "updateMux mem bound u addr t =
     (case t_store t u of None \<Rightarrow> Inl Null_Deref
      | Some s \<Rightarrow> (case shared_mux (so_pUDT s) addr t of
            Some mid \<Rightarrow> Inr (None, join_mux mid u t)
          | None \<Rightarrow> (case bound of Inl e \<Rightarrow> Inr (Some e, t)
              | Inr local \<Rightarrow> Inr (None, upd_sock u (\<lambda>s. s\<lparr> so_iMuxID := u \<rparr>)
                               (t\<lparr> t_mux := (t_mux t)(u \<mapsto> new_mux mem local (so_pUDT s)) \<rparr>)))))"

text \<open>A connection that a listener accepts joins the multiplexer with the port of the listener.\<close>

definition updateMux_listener :: "int \<Rightarrow> 's usock \<Rightarrow> 's united \<Rightarrow> 's united" where
  "updateMux_listener u ls t =
     (case find_mux (\<lambda>m. mx_iPort m = ntohs (sa_port (so_pSelfAddr ls))) t of None \<Rightarrow> t
      | Some mid \<Rightarrow> join_mux mid u t)"

subsection \<open>Calls of the connection\<close>

definition cudt_open :: "readings \<Rightarrow> int \<Rightarrow> 's cudt \<Rightarrow> 's cudt" where
  "cudt_open rd freq c =
     (on_udt (udt_open rd freq) c)\<lparr> c_iBandwidth := 1, c_llRecvTotal := 0, c_llTraceRecv := 0, c_bOpened := True \<rparr>"

definition open_socket :: "'s env \<Rightarrow> int \<Rightarrow> 's united \<Rightarrow> 's united" where
  "open_socket env u = upd_sock u (\<lambda>s. s\<lparr> so_pUDT := cudt_open (e_rd env) (e_freq env) (so_pUDT s) \<rparr>)"

definition net_of :: "mux \<Rightarrow> 's united \<Rightarrow> net" where
  "net_of m t = \<lparr> n_rcv = mx_rcv m, n_epoll = t_EPoll t, n_cache = t_pCache t, n_out = t_out t, n_complete = [] \<rparr>"

definition put_net :: "int \<Rightarrow> net \<Rightarrow> 's united \<Rightarrow> 's united" where
  "put_net mid net t =
     t\<lparr> t_mux := (t_mux t)(mid := map_option (\<lambda>m. m\<lparr> mx_rcv := n_rcv net \<rparr>) (t_mux t mid)),
        t_EPoll := n_epoll net, t_pCache := n_cache net, t_out := n_out net \<rparr>"

text \<open>The connection of a socket and what it shares, through its multiplexer.\<close>

definition entity :: "int \<Rightarrow> 's united \<Rightarrow> ('s usock \<times> mux) option" where
  "entity u t =
     (case t_store t u of None \<Rightarrow> None
      | Some s \<Rightarrow> (case t_mux t (so_iMuxID s) of None \<Rightarrow> None | Some m \<Rightarrow> Some (s, m)))"

definition connect_complete :: "int \<Rightarrow> 's united \<Rightarrow> 's united outcome" where
  "connect_complete u t =
     (case locate u t of None \<Rightarrow> Inl (Udt_Error 5 4)
      | Some s \<Rightarrow> (case t_mux t (so_iMuxID s) of None \<Rightarrow> Inl Null_Deref
          | Some m \<Rightarrow> Inr (upd_sock u (\<lambda>s. s\<lparr> so_pSelfAddr := pton (mx_addr m) (c_piSelfIP (so_pUDT s)) (so_iIPversion s),
                                           so_Status := CONNECTED \<rparr>) t)))"

text \<open>A call of the connection of socket \<open>u\<close>.  The calls of connect\_complete it makes take effect before
  it returns; connect(response) is declared not to throw.\<close>

definition put_entity :: "int \<Rightarrow> int \<Rightarrow> 's cudt \<times> net \<Rightarrow> 's united \<Rightarrow> 's united" where
  "put_entity u mid = (\<lambda>(c, net) t. upd_sock u (\<lambda>s. s\<lparr> so_pUDT := c \<rparr>) (put_net mid net t))"

primrec complete_all :: "int list \<Rightarrow> 's united \<Rightarrow> 's united outcome" where
  "complete_all [] t = Inr t"
| "complete_all (u # us) t = bind_outcome (connect_complete u t) (complete_all us)"

definition on_entity ::
  "int \<Rightarrow> ('s cudt \<times> net \<Rightarrow> ('a \<times> 's cudt \<times> net) outcome) \<Rightarrow> 's united \<Rightarrow> ('a \<times> 's united) outcome" where
  "on_entity u f t =
     (case entity u t of None \<Rightarrow> Inl Null_Deref
      | Some (s, m) \<Rightarrow>
          bind_outcome (f (so_pUDT s, net_of m t)) (\<lambda>(r, c, net).
            map_outcome (\<lambda>t1. (r, t1)) (complete_all (n_complete net) (put_entity u (so_iMuxID s) (c, net) t))))"

definition close_entity :: "'s env \<Rightarrow> int \<Rightarrow> 's united \<Rightarrow> 's united outcome" where
  "close_entity env u t =
     (case t_store t u of None \<Rightarrow> Inl Null_Deref
      | Some s \<Rightarrow>
          if \<not> c_bOpened (so_pUDT s) then Inr t
          else map_outcome snd (on_entity u (\<lambda>st. map_outcome (\<lambda>st1. ((), st1))
                 (udt_close (e_fuel env) (e_meanwhile env) (e_clock env) (rd_us (e_rd env) 0) (e_pf env) (e_rd env)
                    (e_junk env) (e_word env) st)) t))"

subsection \<open>New sockets\<close>

definition next_id :: "'s united \<Rightarrow> int \<times> 's united" where
  "next_id t = (let u = i32 (t_SocketID t - 1) in (u, t\<lparr> t_SocketID := u \<rparr>))"

definition usock_new :: "'s env \<Rightarrow> 's cudt \<Rightarrow> int \<Rightarrow> 's usock" where
  "usock_new env c version =
     \<lparr> so_Status = INIT, so_TimeStamp = 0, so_iIPversion = version, so_pSelfAddr = (e_addr env)\<lparr> sa_port := 0 \<rparr>,
       so_pPeerAddr = None, so_ListenSocket = 0, so_PeerID = 0, so_iISN = 0, so_pUDT = c,
       so_pQueuedSockets = None, so_pAcceptSockets = None, so_uiBackLog = 0, so_iMuxID = -1 \<rparr>"

definition add_object :: "int \<Rightarrow> 's usock \<Rightarrow> 's united \<Rightarrow> 's united" where
  "add_object u s t = t\<lparr> t_store := (t_store t)(u \<mapsto> s) \<rparr>"

definition newSocket :: "'s env \<Rightarrow> int \<Rightarrow> int \<Rightarrow> 's united \<Rightarrow> ('s, int) api" where
  "newSocket env af ty t =
     (if ty \<noteq> SOCK_STREAM \<and> ty \<noteq> SOCK_DGRAM then throws (Udt_Error 5 3) t
      else case next_id t of (u, t1) \<Rightarrow>
        let c = (on_udt (\<lambda>e. e\<lparr> u_SocketID := u, u_dgram := (ty \<noteq> SOCK_STREAM) \<rparr>)
                   (cudt_new (e_pcc env) (rd_us (e_rd env) 0) (e_raw env)))\<lparr> c_iIPversion := af \<rparr>
        in returns u (add_object u (usock_new env c af) (t1\<lparr> t_Sockets := insert u (t_Sockets t1) \<rparr>)))"

subsection \<open>New connections\<close>

definition forget_connection :: "int \<Rightarrow> int \<Rightarrow> 's united \<Rightarrow> 's united outcome" where
  "forget_connection l u t =
     (case t_store t l of None \<Rightarrow> Inl Null_Deref
      | Some ls \<Rightarrow> (case (so_pQueuedSockets ls, so_pAcceptSockets ls) of
            (Some q, Some a) \<Rightarrow> Inr (upd_sock l (\<lambda>s. s\<lparr> so_pQueuedSockets := Some (q - {u}), so_pAcceptSockets := Some (a - {u}) \<rparr>) t)
          | _ \<Rightarrow> Inl Null_Deref))"

text \<open>The answer to a repeated request.\<close>

definition existing_connection :: "int \<Rightarrow> 's usock \<Rightarrow> handshake \<Rightarrow> handshake" where
  "existing_connection u s hs =
     (let e = c_udt (so_pUDT s) in
      hs\<lparr> hs_isn := word_of_int (u_iISN e), hs_mss := word_of_int (u_iMSS e),
          hs_flight_flag_size := word_of_int (u_iFlightFlagSize e), hs_req_type := -1, hs_id := word_of_int u \<rparr>)"

text \<open>The object of the new connection, before it is opened.\<close>

definition accepted_object :: "'s env \<Rightarrow> int \<Rightarrow> 's usock \<Rightarrow> sockaddr \<Rightarrow> handshake \<Rightarrow> int \<Rightarrow> 's usock" where
  "accepted_object env l ls peer hs u =
     (usock_new env (on_udt (\<lambda>e. e\<lparr> u_SocketID := u \<rparr>)
         (cudt_copy (e_pcc env) (rd_us (e_rd env) 0) (so_pUDT ls) (e_raw env))) (so_iIPversion ls))
       \<lparr> so_pPeerAddr := Some peer, so_ListenSocket := l, so_PeerID := sint (hs_id hs), so_iISN := sint (hs_isn hs) \<rparr>"

text \<open>After the connection is set up: the tables, the queue of the listener, and its poll objects.\<close>

definition enter_connection :: "int \<Rightarrow> int \<Rightarrow> 's usock \<Rightarrow> mux \<Rightarrow> 's united \<Rightarrow> 's united outcome" where
  "enter_connection l u s m t =
     (case t_store t l of None \<Rightarrow> Inl Null_Deref
      | Some ls \<Rightarrow> (case so_pQueuedSockets ls of None \<Rightarrow> Inl Null_Deref
          | Some q \<Rightarrow>
              let key = peer_key (so_PeerID s) (so_iISN s);
                  recs = (case t_PeerRec t key of None \<Rightarrow> {} | Some us \<Rightarrow> us);
                  t1 = upd_sock u (\<lambda>s. s\<lparr> so_Status := CONNECTED,
                          so_pSelfAddr := pton (mx_addr m) (c_piSelfIP (so_pUDT s)) (so_iIPversion s) \<rparr>) t;
                  t2 = t1\<lparr> t_Sockets := insert u (t_Sockets t1), t_PeerRec := (t_PeerRec t1)(key \<mapsto> insert u recs) \<rparr>;
                  (polls, ep) = enable_read l (c_PollID (so_pUDT ls), t_EPoll t2)
              in Inr ((upd_sock l (\<lambda>s. s\<lparr> so_pQueuedSockets := Some (insert u q),
                                        so_pUDT := (so_pUDT s)\<lparr> c_PollID := polls \<rparr> \<rparr>) t2)\<lparr> t_EPoll := ep \<rparr>)))"

text \<open>Without a multiplexer the new connection has no queues.  When setting it up throws, the handshake
  has been changed to the answer already; the new object is closed and then belongs to no table.\<close>

definition set_up_connection ::
  "'s env \<Rightarrow> int \<Rightarrow> 's usock \<Rightarrow> sockaddr \<Rightarrow> handshake \<Rightarrow> 's united \<Rightarrow> (int \<times> handshake \<times> 's united) outcome" where
  "set_up_connection env l ls peer hs t =
     (case next_id t of (u, t0) \<Rightarrow>
      let t1 = updateMux_listener u ls (open_socket env u (add_object u (accepted_object env l ls peer hs u) t0)) in
      case on_entity u (connect_peer (e_rd env) (e_junk env) (e_mem env) peer hs) t1 of
        Inr (hs1, t2) \<Rightarrow>
          (case entity u t2 of None \<Rightarrow> Inl Null_Deref
           | Some (s, m) \<Rightarrow> map_outcome (\<lambda>t3. (1, hs1, t3)) (enter_connection l u s m t2))
      | Inl e \<Rightarrow>
          (case e of Udt_Error _ _ \<Rightarrow>
             (case t_store t1 u of None \<Rightarrow> Inl Null_Deref
              | Some s \<Rightarrow>
                  map_outcome (\<lambda>t2. (-1, answer peer (so_pUDT s) hs,
                      upd_sock u (\<lambda>s. s\<lparr> so_Status := CLOSED, so_TimeStamp := rd_us (e_rd env) 1 \<rparr>) t2))
                    (close_entity env u t1))
           | _ \<Rightarrow> Inl e))"

definition newConnection ::
  "'s env \<Rightarrow> int \<Rightarrow> sockaddr \<Rightarrow> handshake \<Rightarrow> 's united \<Rightarrow> (int \<times> handshake \<times> 's united) outcome" where
  "newConnection env l peer hs t =
     (case locate l t of None \<Rightarrow> Inr (-1, hs, t)
      | Some _ \<Rightarrow>
          let proceed = (\<lambda>t1. case t_store t1 l of None \<Rightarrow> Inl Null_Deref
                | Some ls \<Rightarrow> (case so_pQueuedSockets ls of None \<Rightarrow> Inl Null_Deref
                    | Some q \<Rightarrow> if int (card q) \<ge> so_uiBackLog ls then Inr (-1, hs, t1)
                                else set_up_connection env l ls peer hs t1)) in
          bind_outcome (locate_peer peer (sint (hs_id hs)) (sint (hs_isn hs)) t) (\<lambda>found.
            case found of None \<Rightarrow> proceed t
            | Some u \<Rightarrow> (case t_store t u of None \<Rightarrow> Inl Null_Deref
                | Some s \<Rightarrow>
                    if u_bBroken (c_udt (so_pUDT s)) then
                      bind_outcome (forget_connection l u
                        (upd_sock u (\<lambda>s. s\<lparr> so_Status := CLOSED, so_TimeStamp := rd_us (e_rd env) 0 \<rparr>) t)) proceed
                    else Inr (0, existing_connection u s hs, t))))"

text \<open>A request that arrives for the listener \<open>l\<close>: CUDT::listen for the packet, with newConnection.\<close>

definition handle_request ::
  "'s env \<Rightarrow> (sockaddr \<Rightarrow> byte list \<times> byte list) \<Rightarrow> byte list \<Rightarrow> int \<Rightarrow> sockaddr \<Rightarrow> cpacket \<Rightarrow> int \<Rightarrow> 's united
     \<Rightarrow> (int \<times> 's united) outcome" where
  "handle_request env names mem now addr packet l t =
     (case entity l t of None \<Rightarrow> Inl Null_Deref
      | Some (s, m) \<Rightarrow>
          bind_outcome (listen_packet names mem now
              (\<lambda>sid peer hs (net, t). map_outcome
                 (\<lambda>(r, hs1, t1). (r, hs1, net\<lparr> n_rcv := (case t_mux t1 (so_iMuxID s) of None \<Rightarrow> n_rcv net | Some m1 \<Rightarrow> mx_rcv m1),
                      n_epoll := t_EPoll t1, n_cache := t_pCache t1, n_out := t_out t1 \<rparr>, t1))
                 (newConnection env sid peer hs (put_net (so_iMuxID s) net t)))
              addr packet (so_pUDT s, net_of m t, t))
            (\<lambda>(r, c, net, t1). Inr (r, upd_sock l (\<lambda>s. s\<lparr> so_pUDT := (so_pUDT s)\<lparr> c_PollID := c_PollID c \<rparr> \<rparr>)
                                    (put_net (so_iMuxID s) net t1))))"

subsection \<open>bind, listen and accept\<close>

definition sockaddr_size :: "int \<Rightarrow> int" where
  "sockaddr_size version = (if version = AF_INET then 16 else 28)"

definition bind_to :: "'s env \<Rightarrow> failure + sockaddr \<Rightarrow> int \<Rightarrow> sockaddr \<Rightarrow> 's united \<Rightarrow> ('s, int) api" where
  "bind_to env bound u addr t =
     bind_outcome (updateMux (e_units env) bound u (Some addr) (open_socket env u t)) (\<lambda>(e, t1).
       case e of Some x \<Rightarrow> throws x t1
       | None \<Rightarrow> (case entity u t1 of None \<Rightarrow> Inl Null_Deref
           | Some (s, m) \<Rightarrow> returns 0 (upd_sock u (\<lambda>s. s\<lparr> so_Status := OPENED, so_pSelfAddr := mx_addr m \<rparr>) t1)))"

definition bind_address :: "'s env \<Rightarrow> failure + sockaddr \<Rightarrow> int \<Rightarrow> sockaddr \<Rightarrow> int \<Rightarrow> 's united \<Rightarrow> ('s, int) api" where
  "bind_address env bound u addr namelen t =
     with_socket u t (\<lambda>s.
       if so_Status s \<noteq> INIT then throws (Udt_Error 5 0) t
       else if namelen \<noteq> sockaddr_size (so_iIPversion s) then throws (Udt_Error 5 3) t
       else bind_to env bound u addr t)"

text \<open>\<open>name\<close> is the result of getsockname.\<close>

definition bind_udp :: "'s env \<Rightarrow> failure + sockaddr \<Rightarrow> int \<Rightarrow> sockaddr option \<Rightarrow> 's united \<Rightarrow> ('s, int) api" where
  "bind_udp env bound u name t =
     with_socket u t (\<lambda>s.
       if so_Status s \<noteq> INIT then throws (Udt_Error 5 0) t
       else case name of None \<Rightarrow> throws (Udt_Error 5 3) t
            | Some addr \<Rightarrow> bind_to env bound u addr t)"

definition listen :: "int \<Rightarrow> int \<Rightarrow> 's united \<Rightarrow> ('s, int) api" where
  "listen u backlog t =
     with_socket u t (\<lambda>s.
       if so_Status s = LISTENING then returns 0 t
       else if so_Status s \<noteq> OPENED then throws (Udt_Error 5 5) t
       else if u_bRendezvous (c_udt (so_pUDT s)) then throws (Udt_Error 5 7) t
       else if backlog \<le> 0 then throws (Udt_Error 5 3) t
       else let t1 = upd_sock u (\<lambda>s. s\<lparr> so_uiBackLog := backlog, so_pQueuedSockets := Some {}, so_pAcceptSockets := Some {} \<rparr>) t in
            after_call (on_entity u (\<lambda>(c, net). map_outcome (\<lambda>st. ((), st)) (udt_listen c net)) t1) t1 (\<lambda>(_, t2).
              returns 0 (upd_sock u (\<lambda>s. s\<lparr> so_Status := LISTENING \<rparr>) t2)))"

definition set_polls :: "int \<Rightarrow> int set \<times> epoll \<Rightarrow> 's united \<Rightarrow> 's united" where
  "set_polls u st t =
     (upd_sock u (\<lambda>s. s\<lparr> so_pUDT := (so_pUDT s)\<lparr> c_PollID := fst st \<rparr> \<rparr>) t)\<lparr> t_EPoll := snd st \<rparr>"

text \<open>The listener is not readable any more when its queue is empty.\<close>

definition quiet_listener :: "int \<Rightarrow> 's united \<Rightarrow> 's united outcome" where
  "quiet_listener l t =
     (case t_store t l of None \<Rightarrow> Inl Null_Deref
      | Some s \<Rightarrow> (case so_pQueuedSockets s of None \<Rightarrow> Inl Null_Deref
          | Some q \<Rightarrow> Inr (if q = {} then set_polls l (disable_read l (c_PollID (so_pUDT s), t_EPoll t)) t else t)))"

text \<open>The connection with the least ID leaves the queue.\<close>

definition take_queued :: "int \<Rightarrow> 's united \<Rightarrow> (int \<times> 's united) outcome" where
  "take_queued l t =
     (case t_store t l of None \<Rightarrow> Inl Null_Deref
      | Some s \<Rightarrow> (case (so_pQueuedSockets s, so_pAcceptSockets s) of
            (Some q, Some a) \<Rightarrow>
              let u = Min q in
              Inr (u, upd_sock l (\<lambda>s. s\<lparr> so_pQueuedSockets := Some (q - {u}), so_pAcceptSockets := Some (insert u a) \<rparr>) t)
          | _ \<Rightarrow> Inl Null_Deref))"

text \<open>One turn of the loop of accept: Some with the socket or INVALID\_SOCK, or None to wait;
  \<open>meanwhile k\<close> is what the other threads do in wait \<open>k\<close>.\<close>

definition accept_turn :: "int \<Rightarrow> 's united \<Rightarrow> (int option \<times> 's united) outcome" where
  "accept_turn l t =
     (case t_store t l of None \<Rightarrow> Inl Null_Deref
      | Some s \<Rightarrow>
          if so_Status s \<noteq> LISTENING \<or> u_bBroken (c_udt (so_pUDT s)) then Inr (Some (-1), t)
          else (case so_pQueuedSockets s of None \<Rightarrow> Inl Null_Deref
            | Some q \<Rightarrow>
                if q \<noteq> {} then map_outcome (\<lambda>(u, t1). (Some u, t1)) (take_queued l t)
                else if \<not> c_bSynRecving (so_pUDT s) then Inr (Some (-1), t)
                else Inr (None, t)))"

primrec accept_loop :: "nat \<Rightarrow> nat \<Rightarrow> (nat \<Rightarrow> 's united \<Rightarrow> 's united) \<Rightarrow> int \<Rightarrow> 's united \<Rightarrow> (int \<times> 's united) outcome" where
  "accept_loop 0 k meanwhile l t = Inl Diverges"
| "accept_loop (Suc fuel) k meanwhile l t =
     bind_outcome (accept_turn l t) (\<lambda>(r, t1).
       case r of Some u \<Rightarrow> map_outcome (\<lambda>t2. (u, t2)) (quiet_listener l t1)
       | None \<Rightarrow> bind_outcome (quiet_listener l (meanwhile k t1)) (accept_loop fuel (Suc k) meanwhile l))"

text \<open>The address of the peer is only looked up when the caller asks for it.\<close>

definition accept ::
  "nat \<Rightarrow> (nat \<Rightarrow> 's united \<Rightarrow> 's united) \<Rightarrow> bool \<Rightarrow> bool \<Rightarrow> int \<Rightarrow> 's united \<Rightarrow> ('s, int \<times> sockaddr option) api" where
  "accept fuel meanwhile want_addr has_len l t =
     (if want_addr \<and> \<not> has_len then throws (Udt_Error 5 3) t
      else with_socket l t (\<lambda>ls.
        if so_Status ls \<noteq> LISTENING then throws (Udt_Error 5 6) t
        else if u_bRendezvous (c_udt (so_pUDT ls)) then throws (Udt_Error 5 7) t
        else bind_outcome (accept_loop fuel 0 meanwhile l t) (\<lambda>(u, t1).
          if u = -1 then
            (case t_store t1 l of None \<Rightarrow> Inl Null_Deref
             | Some s \<Rightarrow> throws (if \<not> c_bSynRecving (so_pUDT s) then Udt_Error 6 2 else Udt_Error 5 6) t1)
          else if \<not> want_addr then returns (u, None) t1
          else (case locate u t1 of None \<Rightarrow> Inl Null_Deref
                | Some s \<Rightarrow> (case so_pPeerAddr s of None \<Rightarrow> Inl Null_Deref
                    | Some a \<Rightarrow> returns (u, Some a) t1)))))"

subsection \<open>connect and close\<close>

text \<open>The calls of CUDT::connect take what it waits for as arguments.\<close>

record 's dial =
  d_fuel :: nat
  d_meanwhile :: "nat \<Rightarrow> 's cudt \<times> net \<Rightarrow> 's cudt \<times> net"
  d_turns :: "nat \<Rightarrow> turn"

definition dial_out :: "'s env \<Rightarrow> 's dial \<Rightarrow> int \<Rightarrow> sockaddr \<Rightarrow> 's united \<Rightarrow> ('s, int) api" where
  "dial_out env d u name t =
     bind_outcome (on_entity u (udt_connect (d_fuel d) (d_meanwhile d) (d_turns d) (e_pf env) (e_rd env) (e_mem env) name)
       (upd_sock u (\<lambda>s. s\<lparr> so_Status := CONNECTING \<rparr>) t)) (\<lambda>(e, t1).
       case e of Some x \<Rightarrow> throws x (upd_sock u (\<lambda>s. s\<lparr> so_Status := OPENED \<rparr>) t1)
       | None \<Rightarrow> returns 0 (upd_sock u (\<lambda>s. s\<lparr> so_pPeerAddr := Some name \<rparr>) t1))"

definition connect ::
  "'s env \<Rightarrow> failure + sockaddr \<Rightarrow> 's dial \<Rightarrow> int \<Rightarrow> sockaddr \<Rightarrow> int \<Rightarrow> 's united \<Rightarrow> ('s, int) api" where
  "connect env bound d u name namelen t =
     with_socket u t (\<lambda>s.
       if namelen \<noteq> sockaddr_size (so_iIPversion s) then throws (Udt_Error 5 3) t
       else if so_Status s = INIT then
         (if u_bRendezvous (c_udt (so_pUDT s)) then throws (Udt_Error 5 8) t
          else bind_outcome (updateMux (e_units env) bound u None (open_socket env u t)) (\<lambda>(e, t1).
            case e of Some x \<Rightarrow> throws x t1
            | None \<Rightarrow> dial_out env d u name (upd_sock u (\<lambda>s. s\<lparr> so_Status := OPENED \<rparr>) t1)))
       else if so_Status s \<noteq> OPENED then throws (Udt_Error 5 2) t
       else dial_out env d u name t)"

text \<open>A listener is only marked as broken; the garbage collector closes it.  Any other socket is
  closed and moves to the closed ones.\<close>

definition retire :: "int \<Rightarrow> int \<Rightarrow> 's united \<Rightarrow> 's united" where
  "retire u now t =
     (upd_sock u (\<lambda>s. s\<lparr> so_Status := CLOSED, so_TimeStamp := now \<rparr>) t)
       \<lparr> t_Sockets := t_Sockets t - {u}, t_ClosedSockets := insert u (t_ClosedSockets t) \<rparr>"

definition close :: "'s env \<Rightarrow> int \<Rightarrow> 's united \<Rightarrow> ('s, int) api" where
  "close env u t =
     with_socket u t (\<lambda>s.
       if so_Status s = LISTENING then
         (if u_bBroken (c_udt (so_pUDT s)) then returns 0 t
          else returns 0 (upd_sock u (\<lambda>s. s\<lparr> so_TimeStamp := rd_us (e_rd env) 1,
                            so_pUDT := on_udt (\<lambda>e. e\<lparr> u_bBroken := True \<rparr>) (so_pUDT s) \<rparr>) t))
       else bind_outcome (close_entity env u t) (\<lambda>t1.
         case locate u t1 of None \<Rightarrow> returns 0 t1
         | Some _ \<Rightarrow> returns 0 (retire u (rd_us (e_rd env) 1) t1)))"

definition getpeername :: "int \<Rightarrow> 's united \<Rightarrow> ('s, sockaddr \<times> int) api" where
  "getpeername u t =
     (if getStatus u t \<noteq> CONNECTED then throws (Udt_Error 2 2) t
      else with_socket u t (\<lambda>s.
        if \<not> u_bConnected (c_udt (so_pUDT s)) \<or> u_bBroken (c_udt (so_pUDT s)) then throws (Udt_Error 2 2) t
        else case so_pPeerAddr s of None \<Rightarrow> Inl Null_Deref
             | Some a \<Rightarrow> returns (a, sockaddr_size (so_iIPversion s)) t))"

definition getsockname :: "int \<Rightarrow> 's united \<Rightarrow> ('s, sockaddr \<times> int) api" where
  "getsockname u t =
     with_socket u t (\<lambda>s.
       if u_bBroken (c_udt (so_pUDT s)) then throws (Udt_Error 5 4) t
       else if so_Status s = INIT then throws (Udt_Error 2 2) t
       else returns (so_pSelfAddr s, sockaddr_size (so_iIPversion s)) t)"

subsection \<open>The garbage collector\<close>

definition delete_object :: "int \<Rightarrow> 's united \<Rightarrow> 's united" where
  "delete_object u t =
     (case t_store t u of None \<Rightarrow> t
      | Some s \<Rightarrow>
          let free = (\<lambda>m. case c_pRcvBuffer (so_pUDT s) of None \<Rightarrow> m
                | Some rb \<Rightarrow> m\<lparr> mx_rcv := (mx_rcv m)\<lparr> rq_units := rcv_buffer_delete rb (rq_units (mx_rcv m)) \<rparr> \<rparr>)
          in t\<lparr> t_store := (t_store t)(u := None), t_ClosedSockets := t_ClosedSockets t - {u},
                t_mux := (t_mux t)(so_iMuxID s := map_option free (t_mux t (so_iMuxID s))) \<rparr>)"

definition leave_mux :: "int \<Rightarrow> 's united \<Rightarrow> 's united" where
  "leave_mux mid t =
     (case t_mux t mid of None \<Rightarrow> t
      | Some m \<Rightarrow>
          let n = mx_iRefCount m - 1 in
          t\<lparr> t_mux := (t_mux t)(mid := if n = 0 then None else Some (m\<lparr> mx_iRefCount := n \<rparr>)) \<rparr>)"

definition forget_peer :: "int \<Rightarrow> int \<Rightarrow> 's united \<Rightarrow> 's united" where
  "forget_peer key u t =
     (case t_PeerRec t key of None \<Rightarrow> t
      | Some us \<Rightarrow> t\<lparr> t_PeerRec := (t_PeerRec t)(key := if us - {u} = {} then None else Some (us - {u})) \<rparr>)"

text \<open>The connections a listener has not handed out are closed with it.  An ID that is not in the table
  is looked up as NULL.\<close>

definition close_queued :: "'s env \<Rightarrow> int \<Rightarrow> 's united \<Rightarrow> 's united outcome" where
  "close_queued env u t =
     guard_outcome Null_Deref (u \<in> t_Sockets t)
       (map_outcome (retire u (rd_us (e_rd env) 1))
         (close_entity env u (upd_sock u (\<lambda>s. s\<lparr> so_pUDT := on_udt (\<lambda>e. e\<lparr> u_bBroken := True \<rparr>) (so_pUDT s) \<rparr>) t)))"

primrec close_all :: "'s env \<Rightarrow> int list \<Rightarrow> 's united \<Rightarrow> 's united outcome" where
  "close_all env [] t = Inr t"
| "close_all env (u # us) t = bind_outcome (close_queued env u t) (close_all env us)"

definition removeSocket :: "'s env \<Rightarrow> int \<Rightarrow> 's united \<Rightarrow> 's united outcome" where
  "removeSocket env u t =
     (if u \<notin> t_ClosedSockets t then Inr t
      else case t_store t u of None \<Rightarrow> Inl Null_Deref
      | Some s \<Rightarrow>
          let queued = (case so_pQueuedSockets s of None \<Rightarrow> [] | Some q \<Rightarrow> sorted_list_of_set q) in
          bind_outcome (close_all env queued t) (\<lambda>t1.
          map_outcome (\<lambda>t2. leave_mux (so_iMuxID s) (delete_object u t2))
            (close_entity env u (forget_peer (peer_key (so_PeerID s) (so_iISN s)) u t1))))"

text \<open>A broken socket is kept while a client may still be connecting to the listener, or while it has
  data and its counter has not run down.  \<open>now u k\<close> is the k-th reading of the clock for socket u.\<close>

definition keeps_waiting :: "int \<Rightarrow> 's usock \<Rightarrow> bool \<times> 's usock" where
  "keeps_waiting now s =
     (if so_Status s = LISTENING then (u64 (now - so_TimeStamp s) < 3000000, s)
      else case c_pRcvBuffer (so_pUDT s) of None \<Rightarrow> (False, s)
      | Some rb \<Rightarrow>
          if getRcvDataSize rb > 0 then
            (u_iBrokenCounter (c_udt (so_pUDT s)) > 0,
             s\<lparr> so_pUDT := on_udt (\<lambda>e. e\<lparr> u_iBrokenCounter := i32 (u_iBrokenCounter e - 1) \<rparr>) (so_pUDT s) \<rparr>)
          else (False, s))"

definition leave_listener :: "int \<Rightarrow> int \<Rightarrow> 's united \<Rightarrow> 's united outcome" where
  "leave_listener l u t = (if l \<in> t_Sockets t \<or> l \<in> t_ClosedSockets t then forget_connection l u t else Inr t)"

text \<open>The second value says that the socket is to be taken out of m\_Sockets.\<close>

definition check_broken :: "(nat \<Rightarrow> int) \<Rightarrow> int \<Rightarrow> 's united \<Rightarrow> (bool \<times> 's united) outcome" where
  "check_broken now u t =
     (case t_store t u of None \<Rightarrow> Inl Null_Deref
      | Some s \<Rightarrow>
          if \<not> u_bBroken (c_udt (so_pUDT s)) then Inr (False, t)
          else case keeps_waiting (now 0) s of (wait, s1) \<Rightarrow>
            if wait then Inr (False, upd_sock u (\<lambda>_. s1) t)
            else map_outcome (\<lambda>t1. (True, t1)) (leave_listener (so_ListenSocket s1) u
                   ((upd_sock u (\<lambda>_. s1\<lparr> so_Status := CLOSED, so_TimeStamp := now 1 \<rparr>) t)
                      \<lparr> t_ClosedSockets := insert u (t_ClosedSockets t) \<rparr>)))"

primrec check_open :: "(int \<Rightarrow> nat \<Rightarrow> int) \<Rightarrow> int list \<Rightarrow> 's united \<Rightarrow> (int list \<times> 's united) outcome" where
  "check_open now [] t = Inr ([], t)"
| "check_open now (u # us) t =
     bind_outcome (check_broken (now u) u t) (\<lambda>(b, t1).
       map_outcome (\<lambda>(tbc, t2). (if b then u # tbc else tbc, t2)) (check_open now us t1))"

text \<open>A socket whose close was left to the collector is marked as closing when its data is sent or its
  time is over.\<close>

definition end_linger :: "(nat \<Rightarrow> int) \<Rightarrow> 's usock \<Rightarrow> 's usock" where
  "end_linger now s =
     (let c = so_pUDT s in
      if c_ullLingerExpiration c > 0
         \<and> (\<not> c_snd_allocated c \<or> getCurrBufSize (u_pSndBuffer (c_udt c)) = 0 \<or> c_ullLingerExpiration c \<le> now 2)
      then s\<lparr> so_pUDT := (on_udt (\<lambda>e. e\<lparr> u_bClosing := True \<rparr>) c)\<lparr> c_ullLingerExpiration := 0 \<rparr>, so_TimeStamp := now 3 \<rparr>
      else s)"

definition off_list :: "int \<Rightarrow> 's united \<Rightarrow> bool" where
  "off_list u t =
     (case entity u t of None \<Rightarrow> True | Some (s, m) \<Rightarrow> \<not> rn_on (rl_node (rq_list (mx_rcv m)) u))"

definition expired :: "(nat \<Rightarrow> int) \<Rightarrow> int \<Rightarrow> 's united \<Rightarrow> bool" where
  "expired now u t =
     (case t_store t u of None \<Rightarrow> False
      | Some s \<Rightarrow> u64 (now 4 - so_TimeStamp s) > 1000000 \<and> off_list u t)"

definition check_closed :: "(int \<Rightarrow> nat \<Rightarrow> int) \<Rightarrow> int list \<Rightarrow> 's united \<Rightarrow> 's united" where
  "check_closed now us t = fold (\<lambda>u. upd_sock u (end_linger (now u))) us t"

primrec remove_all :: "'s env \<Rightarrow> int list \<Rightarrow> 's united \<Rightarrow> 's united outcome" where
  "remove_all env [] t = Inr t"
| "remove_all env (u # us) t = bind_outcome (removeSocket env u t) (remove_all env us)"

definition checkBrokenSockets :: "'s env \<Rightarrow> (int \<Rightarrow> nat \<Rightarrow> int) \<Rightarrow> 's united \<Rightarrow> 's united outcome" where
  "checkBrokenSockets env now t =
     bind_outcome (check_open now (sorted_list_of_set (t_Sockets t)) t) (\<lambda>(tbc, t1).
       let closed = sorted_list_of_set (t_ClosedSockets t1); t2 = check_closed now closed t1 in
       remove_all env (filter (\<lambda>u. expired (now u) u t2) closed) (t2\<lparr> t_Sockets := t_Sockets t2 - set tbc \<rparr>))"

text \<open>When the library is shut down all sockets are closed, and the collector goes on until the closed
  ones are gone.\<close>

definition shut_down :: "'s env \<Rightarrow> int \<Rightarrow> 's united \<Rightarrow> 's united outcome" where
  "shut_down env u t =
     bind_outcome (close_entity env u (upd_sock u (\<lambda>s. s\<lparr> so_pUDT := on_udt (\<lambda>e. e\<lparr> u_bBroken := True \<rparr>) (so_pUDT s) \<rparr>) t)) (\<lambda>t1.
       case t_store t1 u of None \<Rightarrow> Inl Null_Deref
       | Some s \<Rightarrow> leave_listener (so_ListenSocket s) u
           ((upd_sock u (\<lambda>s. s\<lparr> so_Status := CLOSED, so_TimeStamp := rd_us (e_rd env) 1 \<rparr>) t1)
              \<lparr> t_ClosedSockets := insert u (t_ClosedSockets t1) \<rparr>))"

primrec shut_all :: "'s env \<Rightarrow> int list \<Rightarrow> 's united \<Rightarrow> 's united outcome" where
  "shut_all env [] t = Inr t"
| "shut_all env (u # us) t = bind_outcome (shut_down env u t) (shut_all env us)"

definition gc_end :: "'s env \<Rightarrow> 's united \<Rightarrow> 's united outcome" where
  "gc_end env t =
     map_outcome (\<lambda>t1. fold (\<lambda>u. upd_sock u (\<lambda>s. s\<lparr> so_TimeStamp := 0 \<rparr>)) (sorted_list_of_set (t_ClosedSockets t1))
                         (t1\<lparr> t_Sockets := {} \<rparr>))
       (shut_all env (sorted_list_of_set (t_Sockets t)) t)"

text \<open>\<open>rounds\<close> gives what each round of the collector reads; \<open>meanwhile\<close> what other threads do between
  rounds, which may include a call of cleanup.\<close>

primrec gc_drain :: "nat \<Rightarrow> nat \<Rightarrow> (nat \<Rightarrow> 's env \<times> (int \<Rightarrow> nat \<Rightarrow> int)) \<Rightarrow> 's united \<Rightarrow> 's united outcome" where
  "gc_drain 0 k rounds t = Inl Diverges"
| "gc_drain (Suc fuel) k rounds t =
     bind_outcome (checkBrokenSockets (fst (rounds k)) (snd (rounds k)) t) (\<lambda>t1.
       if t_ClosedSockets t1 = {} then Inr t1 else gc_drain fuel (Suc k) rounds t1)"

primrec garbageCollect ::
  "nat \<Rightarrow> nat \<Rightarrow> (nat \<Rightarrow> 's united \<Rightarrow> 's united) \<Rightarrow> (nat \<Rightarrow> 's env \<times> (int \<Rightarrow> nat \<Rightarrow> int)) \<Rightarrow> 's united \<Rightarrow> 's united outcome" where
  "garbageCollect 0 k meanwhile rounds t = Inl Diverges"
| "garbageCollect (Suc fuel) k meanwhile rounds t =
     (if t_bClosing t then bind_outcome (gc_end (fst (rounds k)) t) (gc_drain fuel k rounds)
      else bind_outcome (checkBrokenSockets (fst (rounds k)) (snd (rounds k)) t) (\<lambda>t1.
        garbageCollect fuel (Suc k) meanwhile rounds (meanwhile k t1)))"

text \<open>The last cleanup stops the collector and waits for it; \<open>gc\<close> is what it does until then.\<close>

definition cleanup :: "('s united \<Rightarrow> 's united outcome) \<Rightarrow> 's united \<Rightarrow> (int \<times> 's united) outcome" where
  "cleanup gc t =
     (let t1 = t\<lparr> t_iInstanceCount := t_iInstanceCount t - 1 \<rparr> in
      if t_iInstanceCount t1 > 0 then Inr (0, t1)
      else if \<not> t_bGCStatus t1 then Inr (0, t1)
      else map_outcome (\<lambda>t2. (0, t2\<lparr> t_bGCStatus := False \<rparr>)) (gc (t1\<lparr> t_bClosing := True \<rparr>)))"

end
