(* ===== verification/Socket_Invariant.thy ===== *)
theory Socket_Invariant
  imports Socket_Table
begin

text \<open>What the socket table keeps: IDs are never given twice, a socket is open or closed and never
  both, a multiplexer counts its users exactly and lives as long as it has one, and no listener has
  more connections waiting than its backlog.

  Most steps only change connections, receive queues and poll objects.  They are the steps that keep
  the core of the table; each call is reduced to such steps and to the few that change the core.\<close>

subsection \<open>The core of the table\<close>

definition sock_core :: "'s usock \<Rightarrow> udt_status \<times> int \<times> int \<times> int \<times> int \<times> int set option \<times> int set option \<times> int \<times> int" where
  "sock_core s = (so_Status s, so_iIPversion s, so_ListenSocket s, so_PeerID s, so_iISN s,
     so_pQueuedSockets s, so_pAcceptSockets s, so_uiBackLog s, so_iMuxID s)"

definition mux_core :: "mux \<Rightarrow> sockaddr \<times> int \<times> int \<times> int \<times> int \<times> bool" where
  "mux_core m = (mx_addr m, mx_iPort m, mx_iIPversion m, mx_iMSS m, mx_iRefCount m, mx_bReusable m)"

definition same_table :: "'s united \<Rightarrow> 's united \<Rightarrow> bool" where
  "same_table t t' \<longleftrightarrow> (\<forall>u. map_option sock_core (t_store t' u) = map_option sock_core (t_store t u))
     \<and> (\<forall>mid. map_option mux_core (t_mux t' mid) = map_option mux_core (t_mux t mid))
     \<and> t_Sockets t' = t_Sockets t \<and> t_ClosedSockets t' = t_ClosedSockets t
     \<and> t_SocketID t' = t_SocketID t \<and> t_PeerRec t' = t_PeerRec t"

lemma same_table_refl [simp]: "same_table t t"
  by (simp add: same_table_def)

lemma same_table_trans: "same_table t t' \<Longrightarrow> same_table t' t'' \<Longrightarrow> same_table t t''"
  by (simp add: same_table_def)

subsection \<open>The invariant\<close>

definition users :: "'s united \<Rightarrow> int \<Rightarrow> int set" where
  "users t mid = {u. \<exists>s. t_store t u = Some s \<and> so_iMuxID s = mid}"

definition ids_ok :: "'s united \<Rightarrow> bool" where
  "ids_ok t \<longleftrightarrow> finite (dom (t_store t)) \<and> finite (dom (t_mux t)) \<and> t_SocketID t \<le> 2147483647
     \<and> (\<forall>u. t_store t u \<noteq> None \<or> t_mux t u \<noteq> None \<longrightarrow> 0 < u \<and> t_SocketID t \<le> u)"

definition counted :: "mux option \<Rightarrow> int set \<Rightarrow> bool" where
  "counted m us \<longleftrightarrow> (case m of None \<Rightarrow> us = {} | Some m \<Rightarrow> mx_iRefCount m = int (card us) \<and> us \<noteq> {})"

definition muxes_ok :: "'s united \<Rightarrow> bool" where
  "muxes_ok t \<longleftrightarrow> (\<forall>mid. mid \<noteq> -1 \<longrightarrow> counted (t_mux t mid) (users t mid))"

definition queue_ok :: "int \<Rightarrow> 's usock \<Rightarrow> bool" where
  "queue_ok n s \<longleftrightarrow> (so_Status s = LISTENING \<longrightarrow> so_pQueuedSockets s \<noteq> None)
     \<and> (so_pQueuedSockets s = None \<longleftrightarrow> so_pAcceptSockets s = None)
     \<and> (\<forall>q a. so_pQueuedSockets s = Some q \<and> so_pAcceptSockets s = Some a \<longrightarrow>
          finite q \<and> q \<inter> a = {} \<and> int (card q) \<le> so_uiBackLog s \<and> (\<forall>u\<in>q \<union> a. n \<le> u))"

definition queues_ok :: "'s united \<Rightarrow> bool" where
  "queues_ok t \<longleftrightarrow> (\<forall>l s. t_store t l = Some s \<longrightarrow> queue_ok (t_SocketID t) s)"

text \<open>A socket that is being created or bound is excepted from what holds of the others.\<close>

definition tables_ok :: "int set \<Rightarrow> 's united \<Rightarrow> bool" where
  "tables_ok X t \<longleftrightarrow> t_Sockets t \<inter> t_ClosedSockets t = {} \<and> (\<forall>u\<in>t_Sockets t \<union> t_ClosedSockets t. t_store t u \<noteq> None)
     \<and> (\<forall>u s. t_store t u = Some s \<and> u \<notin> X \<and> u \<notin> t_Sockets t \<longrightarrow> so_Status s = CLOSED)
     \<and> (\<forall>u s. t_store t u = Some s \<and> u \<notin> X \<and> so_Status s = INIT \<longrightarrow> so_iMuxID s = -1 \<and> t_mux t u = None)
     \<and> (\<forall>key us. t_PeerRec t key = Some us \<longrightarrow> finite us \<and> us \<noteq> {})"

lemma tables_okI:
  assumes "t_Sockets t \<inter> t_ClosedSockets t = {}" "\<And>u. u \<in> t_Sockets t \<Longrightarrow> t_store t u \<noteq> None"
    "\<And>u. u \<in> t_ClosedSockets t \<Longrightarrow> t_store t u \<noteq> None"
    "\<And>u s. t_store t u = Some s \<Longrightarrow> u \<notin> X \<Longrightarrow> u \<notin> t_Sockets t \<Longrightarrow> so_Status s = CLOSED"
    "\<And>u s. t_store t u = Some s \<Longrightarrow> u \<notin> X \<Longrightarrow> so_Status s = INIT \<Longrightarrow> so_iMuxID s = -1 \<and> t_mux t u = None"
    "\<And>key us. t_PeerRec t key = Some us \<Longrightarrow> finite us \<and> us \<noteq> {}"
  shows "tables_ok X t"
  using assms unfolding tables_ok_def by (intro conjI) blast+

lemma tables_okD:
  assumes "tables_ok X t"
  shows "t_Sockets t \<inter> t_ClosedSockets t = {}" "\<And>u. u \<in> t_Sockets t \<Longrightarrow> t_store t u \<noteq> None"
    "\<And>u. u \<in> t_ClosedSockets t \<Longrightarrow> t_store t u \<noteq> None"
    "\<And>u s. t_store t u = Some s \<Longrightarrow> u \<notin> X \<Longrightarrow> u \<notin> t_Sockets t \<Longrightarrow> so_Status s = CLOSED"
    "\<And>u s. t_store t u = Some s \<Longrightarrow> u \<notin> X \<Longrightarrow> so_Status s = INIT \<Longrightarrow> so_iMuxID s = -1 \<and> t_mux t u = None"
    "\<And>key us. t_PeerRec t key = Some us \<Longrightarrow> finite us \<and> us \<noteq> {}"
  using assms unfolding tables_ok_def by (elim conjE; blast)+

definition inv_except :: "int set \<Rightarrow> 's united \<Rightarrow> bool" where
  "inv_except X t \<longleftrightarrow> ids_ok t \<and> muxes_ok t \<and> queues_ok t \<and> tables_ok X t"

abbreviation table_inv :: "'s united \<Rightarrow> bool" where
  "table_inv \<equiv> inv_except {}"

lemma same_store:
  assumes "same_table t t'"
  shows "t_store t' u = None \<longleftrightarrow> t_store t u = None"
    "t_store t' u = Some s' \<Longrightarrow> \<exists>s. t_store t u = Some s \<and> sock_core s' = sock_core s"
    "t_store t u = Some s \<Longrightarrow> \<exists>s'. t_store t' u = Some s' \<and> sock_core s' = sock_core s"
  using assms unfolding same_table_def by (metis map_option_is_None, metis map_option_eq_Some, metis map_option_eq_Some)

lemma same_mux:
  assumes "same_table t t'"
  shows "t_mux t' u = None \<longleftrightarrow> t_mux t u = None"
    "t_mux t' u = Some m' \<Longrightarrow> \<exists>m. t_mux t u = Some m \<and> mux_core m' = mux_core m"
  using assms unfolding same_table_def by (metis map_option_is_None, metis map_option_eq_Some)

lemma same_users: "same_table t t' \<Longrightarrow> users t' mid = users t mid"
  by (fastforce simp: users_def sock_core_def dest: same_store(2,3))

lemma same_ids_ok: "same_table t t' \<Longrightarrow> ids_ok t \<Longrightarrow> ids_ok t'"
  by (simp add: ids_ok_def dom_def same_store(1) same_mux(1)) (simp add: same_table_def)

lemma same_muxes_ok:
  assumes "same_table t t'" "muxes_ok t"
  shows "muxes_ok t'"
proof -
  have "counted (t_mux t' mid) us = counted (t_mux t mid) us" for mid us
  proof (cases "t_mux t' mid")
    case None
    then show ?thesis using same_mux(1) [OF assms(1), of mid] by (simp add: counted_def)
  next
    case (Some m')
    then show ?thesis using same_mux(2) [OF assms(1) Some] by (auto simp: counted_def mux_core_def)
  qed
  then show ?thesis using assms(2) same_users [OF assms(1)] by (simp add: muxes_ok_def)
qed

lemma queue_ok_core: "sock_core s' = sock_core s \<Longrightarrow> queue_ok n s' = queue_ok n s"
  by (simp add: queue_ok_def sock_core_def)

lemma queue_ok_mono: "queue_ok n s \<Longrightarrow> n' \<le> n \<Longrightarrow> queue_ok n' s"
  unfolding queue_ok_def by (meson order_trans)

lemma same_queues_ok:
  assumes "same_table t t'" "queues_ok t"
  shows "queues_ok t'"
  unfolding queues_ok_def
proof (intro allI impI)
  fix l s'
  assume "t_store t' l = Some s'"
  from same_store(2) [OF assms(1) this] obtain s where "t_store t l = Some s" "sock_core s' = sock_core s" by blast
  then show "queue_ok (t_SocketID t') s'"
    using assms queue_ok_core [of s' s] by (simp add: queues_ok_def same_table_def)
qed

lemma same_tables_ok:
  assumes "same_table t t'" "tables_ok X t"
  shows "tables_ok X t'"
proof -
  have sets: "t_Sockets t' = t_Sockets t" "t_ClosedSockets t' = t_ClosedSockets t" "t_PeerRec t' = t_PeerRec t"
    using assms(1) by (simp_all add: same_table_def)
  have "so_Status s' = CLOSED" if "t_store t' u = Some s'" "u \<notin> X" "u \<notin> t_Sockets t'" for u s'
    using same_store(2) [OF assms(1) that(1)] that(2,3) assms(2) sets by (auto simp: tables_ok_def sock_core_def)
  moreover have "so_iMuxID s' = -1 \<and> t_mux t' u = None" if st: "t_store t' u = Some s'" "u \<notin> X" "so_Status s' = INIT" for u s'
  proof -
    obtain s where "t_store t u = Some s" "sock_core s' = sock_core s" using same_store(2) [OF assms(1) st(1)] by blast
    moreover from this have "so_Status s = INIT" "so_iMuxID s' = so_iMuxID s" using st(3) by (simp_all add: sock_core_def)
    ultimately show ?thesis using st(2) assms(2) same_mux(1) [OF assms(1), of u] by (auto simp: tables_ok_def)
  qed
  ultimately show ?thesis using assms(2) unfolding tables_ok_def sets same_store(1) [OF assms(1)] by blast
qed

lemma same_table_inv: "same_table t t' \<Longrightarrow> inv_except X t \<Longrightarrow> inv_except X t'"
  by (simp add: inv_except_def same_ids_ok same_muxes_ok same_queues_ok same_tables_ok)

subsection \<open>Steps that keep the core\<close>

lemma upd_sock_same: "(\<And>s. t_store t u = Some s \<Longrightarrow> sock_core (f s) = sock_core s) \<Longrightarrow> same_table t (upd_sock u f t)"
  by (cases "t_store t u") (auto simp: same_table_def upd_sock_def)

lemma open_socket_same: "same_table t (open_socket env u t)"
  unfolding open_socket_def by (rule upd_sock_same) (simp add: sock_core_def)

lemma put_net_same: "same_table t (put_net mid net t)"
  by (cases "t_mux t mid") (auto simp: same_table_def put_net_def mux_core_def)

lemma put_entity_same: "same_table t (put_entity u mid st t)"
proof -
  have "same_table (put_net mid (snd st) t) (put_entity u mid st t)"
    by (cases st) (auto simp: put_entity_def sock_core_def intro!: upd_sock_same)
  then show ?thesis by (rule same_table_trans [OF put_net_same])
qed

lemma set_polls_same: "same_table t (set_polls u st t)"
  by (cases "t_store t u") (auto simp: set_polls_def upd_sock_def same_table_def sock_core_def)

subsection \<open>Steps that change the core\<close>

lemma inv_weaken: "inv_except X t \<Longrightarrow> X \<subseteq> Y \<Longrightarrow> inv_except Y t"
  unfolding inv_except_def tables_ok_def by (elim conjE, intro conjI) (assumption | blast)+

lemma inv_release:
  assumes "inv_except (insert u X) t" "t_store t u = Some s" "u \<in> t_Sockets t \<or> so_Status s = CLOSED"
    "so_Status s = INIT \<Longrightarrow> so_iMuxID s = -1 \<and> t_mux t u = None"
  shows "inv_except X t"
proof -
  have ok: "tables_ok (insert u X) t" using assms(1) by (simp add: inv_except_def)
  note d = tables_okD [OF ok]
  have "tables_ok X t"
  proof (rule tables_okI)
    show "so_Status v = CLOSED" if "t_store t w = Some v" "w \<notin> X" "w \<notin> t_Sockets t" for w v
      using that d(4) [of w v] assms(2,3) by (cases "w = u") simp_all
    show "so_iMuxID v = -1 \<and> t_mux t w = None" if "t_store t w = Some v" "w \<notin> X" "so_Status v = INIT" for w v
      using that d(5) [of w v] assms(2,4) by (cases "w = u") simp_all
  qed (use d in blast)+
  then show ?thesis using assms(1) by (simp add: inv_except_def)
qed

text \<open>The status and the queues of a socket.\<close>

lemma inv_upd:
  assumes inv: "inv_except X t" and s: "t_store t u = Some s" and m: "so_iMuxID (f s) = so_iMuxID s" "queue_ok (t_SocketID t) (f s)"
    and st: "u \<in> X \<or> (u \<in> t_Sockets t \<or> so_Status (f s) = CLOSED) \<and> (so_Status (f s) = INIT \<longrightarrow> so_Status s = INIT)"
  shows "inv_except X (upd_sock u f t)"
proof -
  have up: "t_store (upd_sock u f t) = (t_store t)(u \<mapsto> f s)" "t_mux (upd_sock u f t) = t_mux t"
    "t_Sockets (upd_sock u f t) = t_Sockets t" "t_ClosedSockets (upd_sock u f t) = t_ClosedSockets t"
    "t_SocketID (upd_sock u f t) = t_SocketID t" "t_PeerRec (upd_sock u f t) = t_PeerRec t"
    using s by (simp_all add: upd_sock_def)
  have "users (upd_sock u f t) mid = users t mid" for mid using m(1) s by (auto simp: users_def up)
  then have "muxes_ok (upd_sock u f t)" using inv by (simp add: inv_except_def muxes_ok_def up(2))
  moreover have "ids_ok (upd_sock u f t)" using inv s by (auto simp: inv_except_def ids_ok_def up)
  moreover have "queues_ok (upd_sock u f t)" using inv m(2) by (simp add: inv_except_def queues_ok_def up)
  moreover have "tables_ok X (upd_sock u f t)"
  proof (rule tables_okI, unfold up)
    have ok: "tables_ok X t" using inv by (simp add: inv_except_def)
    note d = tables_okD [OF ok]
    show "t_Sockets t \<inter> t_ClosedSockets t = {}" by (rule d)
    show "((t_store t)(u \<mapsto> f s)) w \<noteq> None" if "w \<in> t_Sockets t" for w using d(2) [OF that] by simp
    show "((t_store t)(u \<mapsto> f s)) w \<noteq> None" if "w \<in> t_ClosedSockets t" for w using d(3) [OF that] by simp
    show "so_Status v = CLOSED" if "((t_store t)(u \<mapsto> f s)) w = Some v" "w \<notin> X" "w \<notin> t_Sockets t" for w v
      using that d(4) [of w] st by (cases "w = u") auto
    show "so_iMuxID v = -1 \<and> t_mux t w = None" if "((t_store t)(u \<mapsto> f s)) w = Some v" "w \<notin> X" "so_Status v = INIT" for w v
      using that d(5) [of w] s m(1) st by (cases "w = u") auto
    show "finite us \<and> us \<noteq> {}" if "t_PeerRec t key = Some us" for key us using d(6) [OF that] .
  qed
  ultimately show ?thesis by (simp add: inv_except_def)
qed

text \<open>Multiplexers: a socket without one joins an existing one, or becomes the first user of its own.\<close>

lemma users_assign:
  assumes "t_store t u = Some s" "so_iMuxID s = -1" "mid \<noteq> -1" "t_store t' = (t_store t)(u \<mapsto> s\<lparr> so_iMuxID := mid \<rparr>)"
  shows "users t' k = (if k = mid then insert u (users t mid) else if k = -1 then users t (-1) - {u} else users t k)"
    "u \<notin> users t mid"
  using assms by (auto simp: users_def)

lemma users_finite: "ids_ok t \<Longrightarrow> finite (users t mid)"
  by (rule finite_subset [of _ "dom (t_store t)"]) (auto simp: ids_ok_def users_def)

lemma inv_join:
  assumes inv: "inv_except X t" and u: "u \<in> X" "t_store t u = Some s" "so_iMuxID s = -1" and m: "t_mux t mid = Some m"
  shows "inv_except X (join_mux mid u t)"
proof -
  have mid: "mid \<noteq> -1" using inv m by (force simp: inv_except_def ids_ok_def)
  let ?t = "join_mux mid u t" and ?m = "m\<lparr> mx_iRefCount := mx_iRefCount m + 1 \<rparr>"
  have up: "t_store ?t = (t_store t)(u \<mapsto> s\<lparr> so_iMuxID := mid \<rparr>)" "t_mux ?t = (t_mux t)(mid \<mapsto> ?m)"
    "t_Sockets ?t = t_Sockets t" "t_ClosedSockets ?t = t_ClosedSockets t" "t_SocketID ?t = t_SocketID t" "t_PeerRec ?t = t_PeerRec t"
    using u(2) m by (simp_all add: join_mux_def upd_sock_def)
  have ids: "ids_ok t" and ok: "tables_ok X t" and mx: "muxes_ok t" using inv by (simp_all add: inv_except_def)
  have "ids_ok ?t" using ids u(2) m by (auto simp: ids_ok_def up)
  moreover have "muxes_ok ?t"
    using mx m mid users_finite [OF ids] by (auto simp: muxes_ok_def counted_def users_assign [OF u(2,3) mid up(1)] up(2))
  moreover have "queues_ok ?t" using inv u(2) by (auto simp: inv_except_def queues_ok_def queue_ok_def up)
  moreover have "tables_ok X ?t"
  proof (rule tables_okI, unfold up)
    note d = tables_okD [OF ok]
    show "((t_store t)(u \<mapsto> s\<lparr> so_iMuxID := mid \<rparr>)) w \<noteq> None" if "w \<in> t_Sockets t" for w using d(2) [OF that] by simp
    show "((t_store t)(u \<mapsto> s\<lparr> so_iMuxID := mid \<rparr>)) w \<noteq> None" if "w \<in> t_ClosedSockets t" for w using d(3) [OF that] by simp
    show "so_Status v = CLOSED" if "((t_store t)(u \<mapsto> s\<lparr> so_iMuxID := mid \<rparr>)) w = Some v" "w \<notin> X" "w \<notin> t_Sockets t" for w v
      using that d(4) [of w] u(1) by (cases "w = u") auto
    show "so_iMuxID v = -1 \<and> ((t_mux t)(mid \<mapsto> ?m)) w = None"
      if "((t_store t)(u \<mapsto> s\<lparr> so_iMuxID := mid \<rparr>)) w = Some v" "w \<notin> X" "so_Status v = INIT" for w v
      using that d(5) [of w] u(1) m by (cases "w = u") auto
    show "t_Sockets t \<inter> t_ClosedSockets t = {}" by (rule d)
    show "finite us \<and> us \<noteq> {}" if "t_PeerRec t key = Some us" for key us using d(6) [OF that] .
  qed
  ultimately show ?thesis by (simp add: inv_except_def)
qed

lemma inv_own_mux:
  assumes inv: "inv_except X t" and u: "u \<in> X" "t_store t u = Some s" "so_iMuxID s = -1" "t_mux t u = None" and one: "mx_iRefCount m = 1"
  shows "inv_except X (upd_sock u (\<lambda>s. s\<lparr> so_iMuxID := u \<rparr>) (t\<lparr> t_mux := (t_mux t)(u \<mapsto> m) \<rparr>))"
    (is "inv_except X ?t")
proof -
  have ids: "ids_ok t" and ok: "tables_ok X t" and mx: "muxes_ok t" using inv by (simp_all add: inv_except_def)
  have mid: "u \<noteq> -1" using ids u(2) by (force simp: ids_ok_def)
  have up: "t_store ?t = (t_store t)(u \<mapsto> s\<lparr> so_iMuxID := u \<rparr>)" "t_mux ?t = (t_mux t)(u \<mapsto> m)"
    "t_Sockets ?t = t_Sockets t" "t_ClosedSockets ?t = t_ClosedSockets t" "t_SocketID ?t = t_SocketID t" "t_PeerRec ?t = t_PeerRec t"
    using u(2) by (simp_all add: upd_sock_def)
  have "ids_ok ?t" using ids u(2) by (auto simp: ids_ok_def up)
  moreover have "counted (t_mux t u) (users t u)" using mx mid by (simp add: muxes_ok_def)
  then have "users t u = {}" using u(4) by (simp add: counted_def)
  then have "muxes_ok ?t"
    using mx mid one by (auto simp: muxes_ok_def counted_def users_assign [OF u(2,3) mid up(1)] up(2))
  moreover have "queues_ok ?t" using inv u(2) by (auto simp: inv_except_def queues_ok_def queue_ok_def up)
  moreover have "tables_ok X ?t"
  proof (rule tables_okI, unfold up)
    note d = tables_okD [OF ok]
    show "((t_store t)(u \<mapsto> s\<lparr> so_iMuxID := u \<rparr>)) w \<noteq> None" if "w \<in> t_Sockets t" for w using d(2) [OF that] by simp
    show "((t_store t)(u \<mapsto> s\<lparr> so_iMuxID := u \<rparr>)) w \<noteq> None" if "w \<in> t_ClosedSockets t" for w using d(3) [OF that] by simp
    show "so_Status v = CLOSED" if "((t_store t)(u \<mapsto> s\<lparr> so_iMuxID := u \<rparr>)) w = Some v" "w \<notin> X" "w \<notin> t_Sockets t" for w v
      using that d(4) [of w] u(1) by (cases "w = u") auto
    show "so_iMuxID v = -1 \<and> ((t_mux t)(u \<mapsto> m)) w = None"
      if "((t_store t)(u \<mapsto> s\<lparr> so_iMuxID := u \<rparr>)) w = Some v" "w \<notin> X" "so_Status v = INIT" for w v
      using that d(5) [of w] u(1) by (cases "w = u") auto
    show "t_Sockets t \<inter> t_ClosedSockets t = {}" by (rule d)
    show "finite us \<and> us \<noteq> {}" if "t_PeerRec t key = Some us" for key us using d(6) [OF that] .
  qed
  ultimately show ?thesis by (simp add: inv_except_def)
qed

text \<open>A new object, not yet in a table.\<close>

lemma inv_add:
  assumes inv: "inv_except X t" and n: "1 < t_SocketID t" "next_id t = (u, t0)" and s: "so_iMuxID s = -1" "so_pQueuedSockets s = None"
    "so_pAcceptSockets s = None" "so_Status s \<noteq> LISTENING"
  shows "inv_except (insert u X) (add_object u s t0)" "t_store t u = None" "t_mux t u = None" "u = t_SocketID t - 1"
    "t0 = t\<lparr> t_SocketID := u \<rparr>"
proof -
  have ids: "ids_ok t" and ok: "tables_ok X t" and mx: "muxes_ok t" using inv by (simp_all add: inv_except_def)
  show u: "u = t_SocketID t - 1" and t0: "t0 = t\<lparr> t_SocketID := u \<rparr>"
    using n ids by (auto simp: next_id_def Let_def ids_ok_def i32_id)
  show new: "t_store t u = None" "t_mux t u = None"
    using ids u by (force simp: ids_ok_def)+
  let ?t = "add_object u s t0"
  have up: "t_store ?t = (t_store t)(u \<mapsto> s)" "t_mux ?t = t_mux t" "t_Sockets ?t = t_Sockets t"
    "t_ClosedSockets ?t = t_ClosedSockets t" "t_SocketID ?t = u" "t_PeerRec ?t = t_PeerRec t"
    by (simp_all add: add_object_def t0)
  have "users ?t mid = users t mid" if "mid \<noteq> -1" for mid using that s(1) new by (auto simp: users_def up)
  then have muxes: "muxes_ok ?t" using mx by (simp add: muxes_ok_def up(2))
  have "0 < w \<and> u \<le> w" if "((t_store t)(u \<mapsto> s)) w \<noteq> None \<or> t_mux t w \<noteq> None" for w
    using that ids n(1) u by (cases "w = u") (auto simp: ids_ok_def)
  moreover have "finite (dom ((t_store t)(u \<mapsto> s)))" "finite (dom (t_mux t))" "u \<le> 2147483647"
    using ids u by (simp_all add: ids_ok_def)
  ultimately have "ids_ok ?t" unfolding ids_ok_def up by blast
  moreover have "queue_ok u v" if "((t_store t)(u \<mapsto> s)) w = Some v" for w v
  proof (cases "w = u")
    case True
    then show ?thesis using that s(2-4) by (simp add: queue_ok_def)
  next
    case False
    then have "queue_ok (t_SocketID t) v" using that inv by (simp add: inv_except_def queues_ok_def)
    then show ?thesis by (rule queue_ok_mono) (simp add: u)
  qed
  then have "queues_ok ?t" by (simp add: queues_ok_def up)
  moreover have "tables_ok (insert u X) ?t"
  proof (rule tables_okI, unfold up)
    note d = tables_okD [OF ok]
    show "((t_store t)(u \<mapsto> s)) w \<noteq> None" if "w \<in> t_Sockets t" for w using d(2) [OF that] by simp
    show "((t_store t)(u \<mapsto> s)) w \<noteq> None" if "w \<in> t_ClosedSockets t" for w using d(3) [OF that] by simp
    show "so_Status v = CLOSED" if "((t_store t)(u \<mapsto> s)) w = Some v" "w \<notin> insert u X" "w \<notin> t_Sockets t" for w v
      using that d(4) [of w] by auto
    show "so_iMuxID v = -1 \<and> t_mux t w = None" if "((t_store t)(u \<mapsto> s)) w = Some v" "w \<notin> insert u X" "so_Status v = INIT" for w v
      using that d(5) [of w] by auto
    show "t_Sockets t \<inter> t_ClosedSockets t = {}" by (rule d)
    show "finite us \<and> us \<noteq> {}" if "t_PeerRec t key = Some us" for key us using d(6) [OF that] .
  qed
  ultimately show "inv_except (insert u X) ?t" using muxes by (simp add: inv_except_def)
qed

subsection \<open>Calls of a connection\<close>

text \<open>A call of a connection keeps the core but for the status of sockets, because of connect\_complete.\<close>

definition keeps :: "'s united \<Rightarrow> 's united \<Rightarrow> bool" where
  "keeps t t' \<longleftrightarrow> (\<forall>u. map_option (\<lambda>s. snd (sock_core s)) (t_store t' u) = map_option (\<lambda>s. snd (sock_core s)) (t_store t u))
     \<and> (\<forall>mid. map_option mux_core (t_mux t' mid) = map_option mux_core (t_mux t mid))
     \<and> t_Sockets t' = t_Sockets t \<and> t_ClosedSockets t' = t_ClosedSockets t
     \<and> t_SocketID t' = t_SocketID t \<and> t_PeerRec t' = t_PeerRec t"

lemma keeps_trans: "keeps t t' \<Longrightarrow> keeps t' t'' \<Longrightarrow> keeps t t''"
  by (simp add: keeps_def)

lemma keeps_refl [simp]: "keeps t t"
  by (simp add: keeps_def)

lemma same_keeps:
  assumes "same_table t t'"
  shows "keeps t t'"
proof -
  have "map_option (\<lambda>s. snd (sock_core s)) (t_store t' u) = map_option (\<lambda>s. snd (sock_core s)) (t_store t u)" for u
  proof -
    have "map_option sock_core (t_store t' u) = map_option sock_core (t_store t u)" using assms by (simp add: same_table_def)
    then show ?thesis by (cases "t_store t u"; cases "t_store t' u") simp_all
  qed
  then show ?thesis using assms by (simp add: keeps_def same_table_def)
qed

lemma keeps_store:
  assumes "keeps t t'"
  shows "t_store t' u = None \<longleftrightarrow> t_store t u = None"
    "t_store t u = Some s \<Longrightarrow> \<exists>s'. t_store t' u = Some s' \<and> so_iMuxID s' = so_iMuxID s
       \<and> so_pQueuedSockets s' = so_pQueuedSockets s \<and> so_pAcceptSockets s' = so_pAcceptSockets s \<and> so_uiBackLog s' = so_uiBackLog s
       \<and> so_PeerID s' = so_PeerID s \<and> so_iISN s' = so_iISN s \<and> so_ListenSocket s' = so_ListenSocket s"
    "t_mux t' mid = None \<longleftrightarrow> t_mux t mid = None"
proof -
  have m: "map_option (\<lambda>s. snd (sock_core s)) (t_store t' u) = map_option (\<lambda>s. snd (sock_core s)) (t_store t u)"
    "map_option mux_core (t_mux t' mid) = map_option mux_core (t_mux t mid)"
    using assms by (simp_all add: keeps_def)
  show "t_store t' u = None \<longleftrightarrow> t_store t u = None" using m(1) by (cases "t_store t u"; cases "t_store t' u") simp_all
  show "t_mux t' mid = None \<longleftrightarrow> t_mux t mid = None" using m(2) by (cases "t_mux t mid"; cases "t_mux t' mid") simp_all
  show "t_store t u = Some s \<Longrightarrow> \<exists>s'. t_store t' u = Some s' \<and> so_iMuxID s' = so_iMuxID s
       \<and> so_pQueuedSockets s' = so_pQueuedSockets s \<and> so_pAcceptSockets s' = so_pAcceptSockets s \<and> so_uiBackLog s' = so_uiBackLog s
       \<and> so_PeerID s' = so_PeerID s \<and> so_iISN s' = so_iISN s \<and> so_ListenSocket s' = so_ListenSocket s"
    using m(1) by (cases "t_store t' u") (auto simp: sock_core_def)
qed

lemma locate_Some: "locate u t = Some s \<longleftrightarrow> u \<in> t_Sockets t \<and> t_store t u = Some s \<and> so_Status s \<noteq> CLOSED"
  by (auto simp: locate_def split: option.splits)

lemma inv_queue:
  assumes "inv_except X t" "t_store t u = Some s"
  shows "queue_ok (t_SocketID t) s"
  using assms by (simp add: inv_except_def queues_ok_def)

text \<open>A status other than INIT and LISTENING can be given to any socket of the table.\<close>

lemma inv_status:
  assumes "inv_except X t" "t_store t u = Some s" "u \<in> X \<or> u \<in> t_Sockets t \<or> so_Status (f s) = CLOSED"
    and "snd (sock_core (f s)) = snd (sock_core s)" "so_Status (f s) \<noteq> INIT" "so_Status (f s) \<noteq> LISTENING"
  shows "inv_except X (upd_sock u f t)"
proof (rule inv_upd [OF assms(1,2)])
  show "so_iMuxID (f s) = so_iMuxID s" using assms(4) by (simp add: sock_core_def)
  show "queue_ok (t_SocketID t) (f s)"
    using inv_queue [OF assms(1,2)] assms(4,6) by (simp add: queue_ok_def sock_core_def)
qed (use assms(3,5) in blast)

lemma upd_keeps: "(\<And>s. t_store t u = Some s \<Longrightarrow> snd (sock_core (f s)) = snd (sock_core s)) \<Longrightarrow> keeps t (upd_sock u f t)"
  by (cases "t_store t u") (auto simp: keeps_def upd_sock_def)

lemma connect_complete_inv:
  assumes "inv_except X t" "connect_complete u t = Inr t'"
  shows "inv_except X t'" "keeps t t'"
proof -
  obtain s where s: "locate u t = Some s" using assms(2) by (cases "locate u t") (simp_all add: connect_complete_def)
  obtain m where m: "t_mux t (so_iMuxID s) = Some m" using assms(2) s by (cases "t_mux t (so_iMuxID s)") (simp_all add: connect_complete_def)
  have t': "t' = upd_sock u (\<lambda>s. s\<lparr> so_pSelfAddr := pton (mx_addr m) (c_piSelfIP (so_pUDT s)) (so_iIPversion s),
      so_Status := CONNECTED \<rparr>) t"
    using assms(2) s m by (simp add: connect_complete_def)
  show "inv_except X t'" unfolding t' by (rule inv_status [OF assms(1)]) (use s in \<open>auto simp: locate_Some sock_core_def\<close>)
  show "keeps t t'" unfolding t' by (rule upd_keeps) (simp add: sock_core_def)
qed

lemma complete_all_inv:
  assumes "inv_except X t" "complete_all us t = Inr t'"
  shows "inv_except X t' \<and> keeps t t'"
  using assms
proof (induction us arbitrary: t)
  case (Cons u us)
  then obtain t1 where "connect_complete u t = Inr t1" "complete_all us t1 = Inr t'" by (auto simp: bind_outcome_Inr_iff)
  then show ?case using Cons connect_complete_inv keeps_trans by blast
qed simp

lemma on_entity_inv:
  assumes "inv_except X t" "on_entity u f t = Inr (r, t')"
  shows "inv_except X t'" "keeps t t'"
proof -
  obtain s m where e: "entity u t = Some (s, m)" using assms(2) by (cases "entity u t") (auto simp: on_entity_def)
  obtain c net where st: "complete_all (n_complete net) (put_entity u (so_iMuxID s) (c, net) t) = Inr t'"
    using assms(2) e by (auto simp: on_entity_def bind_outcome_Inr_iff)
  have same: "same_table t (put_entity u (so_iMuxID s) (c, net) t)" by (rule put_entity_same)
  show "inv_except X t'" "keeps t t'"
    using complete_all_inv [OF same_table_inv [OF same assms(1)] st] same_keeps [OF same] keeps_trans by blast+
qed

lemma close_entity_inv:
  assumes "inv_except X t" "close_entity env u t = Inr t'"
  shows "inv_except X t'" "keeps t t'"
proof -
  obtain s where s: "t_store t u = Some s" using assms(2) by (cases "t_store t u") (simp_all add: close_entity_def)
  show "inv_except X t'" "keeps t t'"
    using assms s on_entity_inv [OF assms(1), of u]
    by (cases "c_bOpened (so_pUDT s)"; fastforce simp: close_entity_def)+
qed

subsection \<open>Queues and records of peers\<close>

lemma forget_connection_inv:
  assumes "inv_except X t" "forget_connection l u t = Inr t'"
  shows "inv_except X t'" "\<And>P. t_store t' u = Some s' \<Longrightarrow> \<exists>s. t_store t u = Some s \<and> so_Status s' = so_Status s \<and> so_iMuxID s' = so_iMuxID s"
    "t_Sockets t' = t_Sockets t" "t_ClosedSockets t' = t_ClosedSockets t" "dom (t_store t') = dom (t_store t)" "t_SocketID t' = t_SocketID t"
proof -
  obtain ls where ls: "t_store t l = Some ls" using assms(2) by (cases "t_store t l") (simp_all add: forget_connection_def)
  obtain q a where qa: "so_pQueuedSockets ls = Some q" "so_pAcceptSockets ls = Some a"
    using assms(2) ls by (cases "so_pQueuedSockets ls"; cases "so_pAcceptSockets ls") (simp_all add: forget_connection_def)
  let ?f = "\<lambda>s. s\<lparr> so_pQueuedSockets := Some (q - {u}), so_pAcceptSockets := Some (a - {u}) \<rparr>"
  have t': "t' = upd_sock l ?f t" using assms(2) ls qa by (simp add: forget_connection_def)
  have "queue_ok (t_SocketID t) (?f ls)"
    using inv_queue [OF assms(1) ls] qa card_Diff1_le [of q u] by (auto simp: queue_ok_def intro: order_trans)
  moreover have "l \<in> X \<or> (l \<in> t_Sockets t \<or> so_Status ls = CLOSED)"
    using assms(1) ls by (auto simp: inv_except_def tables_ok_def)
  ultimately show "inv_except X t'"
    unfolding t' by (intro inv_upd [OF assms(1) ls]) auto
  show "t_store t' u = Some s' \<Longrightarrow> \<exists>s. t_store t u = Some s \<and> so_Status s' = so_Status s \<and> so_iMuxID s' = so_iMuxID s"
    using ls by (cases "u = l") (auto simp: t' upd_sock_def)
  show "t_Sockets t' = t_Sockets t" "t_ClosedSockets t' = t_ClosedSockets t" "t_SocketID t' = t_SocketID t"
    by (simp_all add: t' upd_sock_def)
  show "dom (t_store t') = dom (t_store t)" using ls by (auto simp: t' upd_sock_def)
qed

lemma inv_peer_rec:
  assumes "inv_except X t" "\<And>key us. f key = Some us \<Longrightarrow> finite us \<and> us \<noteq> {}"
  shows "inv_except X (t\<lparr> t_PeerRec := f \<rparr>)"
proof -
  have ok: "tables_ok X t" using assms(1) by (simp add: inv_except_def)
  have "tables_ok X (t\<lparr> t_PeerRec := f \<rparr>)"
    by (rule tables_okI) (use tables_okD [OF ok] assms(2) in simp_all)
  moreover have "users (t\<lparr> t_PeerRec := f \<rparr>) = users t" by (auto simp: users_def)
  ultimately show ?thesis using assms(1) by (simp add: inv_except_def ids_ok_def muxes_ok_def queues_ok_def)
qed

lemma peer_rec_ok: "inv_except X t \<Longrightarrow> t_PeerRec t key = Some us \<Longrightarrow> finite us \<and> us \<noteq> {}"
  by (auto simp: inv_except_def tables_ok_def)

lemma forget_peer_inv:
  assumes "inv_except X t"
  shows "inv_except X (forget_peer key u t)"
proof (cases "t_PeerRec t key")
  case (Some us)
  let ?f = "(t_PeerRec t)(key := if us - {u} = {} then None else Some (us - {u}))"
  have "finite vs \<and> vs \<noteq> {}" if "?f k = Some vs" for k vs
    using that peer_rec_ok [OF assms, of k] peer_rec_ok [OF assms Some] by (cases "k = key") (auto split: if_splits)
  then have "inv_except X (t\<lparr> t_PeerRec := ?f \<rparr>)" by (rule inv_peer_rec [OF assms])
  then show ?thesis using Some by (simp add: forget_peer_def)
qed (use assms in \<open>simp add: forget_peer_def\<close>)

lemma take_queued_inv:
  assumes "inv_except X t" "take_queued l t = Inr (u, t')" "t_store t l = Some ls" "so_pQueuedSockets ls = Some q" "q \<noteq> {}"
  shows "inv_except X t'" "u \<in> q" "\<forall>v\<in>q. u \<le> v"
    "\<exists>ls' a. t_store t' l = Some ls' \<and> so_pQueuedSockets ls' = Some (q - {u}) \<and> so_pAcceptSockets ls' = Some (insert u a) \<and> u \<notin> a"
proof -
  have qo: "queue_ok (t_SocketID t) ls" by (rule inv_queue [OF assms(1,3)])
  then obtain a where a: "so_pAcceptSockets ls = Some a" using assms(4) by (cases "so_pAcceptSockets ls") (simp_all add: queue_ok_def)
  have q: "finite q" "q \<inter> a = {}" using qo assms(4) a by (simp_all add: queue_ok_def)
  let ?f = "\<lambda>s. s\<lparr> so_pQueuedSockets := Some (q - {u}), so_pAcceptSockets := Some (insert u a) \<rparr>"
  have t': "u = Min q" "t' = upd_sock l ?f t" using assms(2-4) a by (auto simp: take_queued_def Let_def)
  show u: "u \<in> q" "\<forall>v\<in>q. u \<le> v" using q assms(5) by (simp_all add: t'(1))
  have "queue_ok (t_SocketID t) (?f ls)"
    using qo assms(4) a u(1) card_Diff1_le [of q u] by (auto simp: queue_ok_def intro: order_trans)
  moreover have "l \<in> X \<or> (l \<in> t_Sockets t \<or> so_Status ls = CLOSED)"
    using assms(1,3) by (auto simp: inv_except_def tables_ok_def)
  ultimately show "inv_except X t'"
    unfolding t'(2) by (intro inv_upd [OF assms(1,3)]) auto
  show "\<exists>ls' a. t_store t' l = Some ls' \<and> so_pQueuedSockets ls' = Some (q - {u}) \<and> so_pAcceptSockets ls' = Some (insert u a) \<and> u \<notin> a"
    using assms(3) q u(1) by (intro exI [of _ "?f ls"] exI [of _ a]) (auto simp: t'(2) upd_sock_def)
qed

lemma quiet_listener_same:
  assumes "quiet_listener l t = Inr t'"
  shows "same_table t t'"
  using assms by (auto simp: quiet_listener_def split: option.splits if_splits intro: set_polls_same)

subsection \<open>Closing and deleting\<close>

lemma inv_move:
  assumes "inv_except X t" "t_store t u = Some s" "so_Status s = CLOSED"
  shows "inv_except X (t\<lparr> t_Sockets := t_Sockets t - {u}, t_ClosedSockets := insert u (t_ClosedSockets t) \<rparr>)"
    (is "inv_except X ?t")
proof -
  have ok: "tables_ok X t" using assms(1) by (simp add: inv_except_def)
  note d = tables_okD [OF ok]
  have "tables_ok X ?t"
  proof (rule tables_okI)
    show "t_Sockets ?t \<inter> t_ClosedSockets ?t = {}" using d(1) by auto
    show "t_store ?t w \<noteq> None" if "w \<in> t_Sockets ?t" for w using d(2) that by simp
    show "t_store ?t w \<noteq> None" if "w \<in> t_ClosedSockets ?t" for w using d(3) that assms(2) by auto
    show "so_Status v = CLOSED" if "t_store ?t w = Some v" "w \<notin> X" "w \<notin> t_Sockets ?t" for w v
      using d(4) [of w v] that assms(2,3) by (cases "w = u") simp_all
    show "so_iMuxID v = -1 \<and> t_mux ?t w = None" if "t_store ?t w = Some v" "w \<notin> X" "so_Status v = INIT" for w v
      using d(5) [of w v] that by simp
    show "finite us \<and> us \<noteq> {}" if "t_PeerRec ?t key = Some us" for key us using d(6) that by simp
  qed
  moreover have "users ?t = users t" by (auto simp: users_def)
  ultimately show ?thesis using assms(1) by (simp add: inv_except_def ids_ok_def muxes_ok_def queues_ok_def)
qed

lemma retire_inv:
  assumes "inv_except X t" "t_store t u = Some s"
  shows "inv_except X (retire u now t)"
proof -
  let ?f = "\<lambda>s. s\<lparr> so_Status := CLOSED, so_TimeStamp := now \<rparr>"
  have "inv_except X (upd_sock u ?f t)"
    by (rule inv_status [OF assms]) (simp_all add: sock_core_def)
  from inv_move [OF this, of u "?f s"] show ?thesis using assms(2) by (simp add: retire_def upd_sock_def)
qed

lemma leave_delete:
  assumes "t_store t u = Some s"
  obtains m' where "leave_mux (so_iMuxID s) (delete_object u t)
      = t\<lparr> t_store := (t_store t)(u := None), t_ClosedSockets := t_ClosedSockets t - {u}, t_mux := (t_mux t)(so_iMuxID s := m') \<rparr>"
    "case t_mux t (so_iMuxID s) of None \<Rightarrow> m' = None
      | Some m \<Rightarrow> (mx_iRefCount m = 1 \<and> m' = None \<or> mx_iRefCount m \<noteq> 1 \<and> (\<exists>n. m' = Some n \<and> mx_iRefCount n = mx_iRefCount m - 1))"
proof (cases "t_mux t (so_iMuxID s)")
  case None
  then show ?thesis using assms that [of None] by (simp add: leave_mux_def delete_object_def Let_def fun_upd_idem)
next
  case (Some m)
  then show ?thesis
    using assms that by (cases "c_pRcvBuffer (so_pUDT s)") (fastforce simp: leave_mux_def delete_object_def Let_def)+
qed

lemma inv_delete:
  assumes inv: "inv_except X t" and u: "u \<in> t_ClosedSockets t" "t_store t u = Some s" and dj: "u \<notin> t_Sockets t"
  shows "inv_except X (leave_mux (so_iMuxID s) (delete_object u t))" (is "inv_except X ?t")
proof -
  let ?mid = "so_iMuxID s"
  obtain m' where t': "?t = t\<lparr> t_store := (t_store t)(u := None), t_ClosedSockets := t_ClosedSockets t - {u},
      t_mux := (t_mux t)(?mid := m') \<rparr>"
    and m': "case t_mux t ?mid of None \<Rightarrow> m' = None
      | Some m \<Rightarrow> (mx_iRefCount m = 1 \<and> m' = None \<or> mx_iRefCount m \<noteq> 1 \<and> (\<exists>n. m' = Some n \<and> mx_iRefCount n = mx_iRefCount m - 1))"
    by (rule leave_delete [OF u(2)])
  have up: "t_store ?t = (t_store t)(u := None)" "t_ClosedSockets ?t = t_ClosedSockets t - {u}" "t_mux ?t = (t_mux t)(?mid := m')"
    "t_Sockets ?t = t_Sockets t" "t_SocketID ?t = t_SocketID t" "t_PeerRec ?t = t_PeerRec t"
    unfolding t' by simp_all
  have ids: "ids_ok t" and ok: "tables_ok X t" and mx: "muxes_ok t" using inv by (simp_all add: inv_except_def)
  note d = tables_okD [OF ok]
  have m_none: "t_mux t ?mid = None \<Longrightarrow> m' = None" using m' by simp
  have us: "users ?t k = (if k = ?mid then users t ?mid - {u} else users t k)" for k
    using u(2) by (auto simp: users_def up split: if_splits)
  have fin: "finite (users t ?mid)" "u \<in> users t ?mid" using users_finite [OF ids] u(2) by (simp_all add: users_def)
  have "counted m' (users t ?mid - {u})" if "?mid \<noteq> -1"
  proof -
    have c: "counted (t_mux t ?mid) (users t ?mid)" using mx that by (simp add: muxes_ok_def)
    then obtain m where m: "t_mux t ?mid = Some m" "mx_iRefCount m = int (card (users t ?mid))"
      using fin(2) by (cases "t_mux t ?mid") (auto simp: counted_def)
    have card: "card (users t ?mid) = Suc (card (users t ?mid - {u}))" by (rule card.remove [OF fin])
    show ?thesis
    proof (cases "users t ?mid - {u} = {}")
      case True
      have "mx_iRefCount m = 1" using m(2) unfolding card True by simp
      then show ?thesis unfolding True using m' m(1) by (simp add: counted_def)
    next
      case False
      then have "card (users t ?mid - {u}) \<noteq> 0" using fin(1) by simp
      then have "mx_iRefCount m \<noteq> 1" "mx_iRefCount m - 1 = int (card (users t ?mid - {u}))" using m(2) card by simp_all
      then show ?thesis using m' m(1) False by (auto simp: counted_def)
    qed
  qed
  then have "muxes_ok ?t" using mx by (simp add: muxes_ok_def us up(3))
  moreover have "ids_ok ?t"
  proof -
    have "0 < w \<and> t_SocketID t \<le> w" if "((t_store t)(u := None)) w \<noteq> None \<or> ((t_mux t)(?mid := m')) w \<noteq> None" for w
    proof -
      have "t_store t w \<noteq> None \<or> t_mux t w \<noteq> None" using that m_none by (auto split: if_splits)
      then show ?thesis using ids unfolding ids_ok_def by blast
    qed
    moreover have "finite (dom ((t_store t)(u := None)))" "finite (dom ((t_mux t)(?mid := m')))" "t_SocketID t \<le> 2147483647"
      using ids by (simp_all add: ids_ok_def dom_fun_upd)
    ultimately show ?thesis unfolding ids_ok_def up by blast
  qed
  moreover have "queues_ok ?t" using inv by (auto simp: inv_except_def queues_ok_def up)
  moreover have "tables_ok X ?t"
  proof (rule tables_okI, unfold up)
    show "t_Sockets t \<inter> (t_ClosedSockets t - {u}) = {}" using d(1) by auto
    show "((t_store t)(u := None)) w \<noteq> None" if "w \<in> t_Sockets t" for w using d(2) [OF that] that dj by auto
    show "((t_store t)(u := None)) w \<noteq> None" if "w \<in> t_ClosedSockets t - {u}" for w using d(3) that by auto
    show "so_Status v = CLOSED" if "((t_store t)(u := None)) w = Some v" "w \<notin> X" "w \<notin> t_Sockets t" for w v
      using d(4) [of w v] that by (auto split: if_splits)
    show "so_iMuxID v = -1 \<and> ((t_mux t)(?mid := m')) w = None"
      if "((t_store t)(u := None)) w = Some v" "w \<notin> X" "so_Status v = INIT" for w v
      using d(5) [of w v] that m_none by (auto split: if_splits)
    show "finite us \<and> us \<noteq> {}" if "t_PeerRec t key = Some us" for key us using d(6) that by simp
  qed
  ultimately show ?thesis by (simp add: inv_except_def)
qed

end
