(* ===== verification/Socket_Runs.thy ===== *)
theory Socket_Runs
  imports Socket_Invariant
begin

text \<open>Runs of the socket table: calls of the application, requests of peers, the garbage collector, and
  whatever the threads of the connections do meanwhile.\<close>

subsection \<open>Each call keeps the invariant\<close>

lemma inv_enter:
  assumes "inv_except X t" "t_store t u = Some s" "u \<notin> t_ClosedSockets t"
  shows "inv_except X (t\<lparr> t_Sockets := insert u (t_Sockets t) \<rparr>)"
proof -
  have ok: "tables_ok X t" using assms(1) by (simp add: inv_except_def)
  have "tables_ok X (t\<lparr> t_Sockets := insert u (t_Sockets t) \<rparr>)"
    by (rule tables_okI) (use tables_okD [OF ok] assms(2,3) in auto)
  moreover have "users (t\<lparr> t_Sockets := insert u (t_Sockets t) \<rparr>) = users t" by (auto simp: users_def)
  ultimately show ?thesis using assms(1) by (simp add: inv_except_def ids_ok_def muxes_ok_def queues_ok_def)
qed

lemma fresh_not_closed: "inv_except X t \<Longrightarrow> t_store t u = None \<Longrightarrow> u \<notin> t_ClosedSockets t"
  unfolding inv_except_def using tables_okD(3) by blast

lemma fresh_not_open: "inv_except X t \<Longrightarrow> t_store t u = None \<Longrightarrow> u \<notin> t_Sockets t"
  unfolding inv_except_def using tables_okD(2) by blast

lemma newSocket_inv:
  assumes inv: "table_inv t" and n: "1 < t_SocketID t" and r: "newSocket env af ty t = Inr (r, t')"
  shows "table_inv t'"
proof (cases "ty \<noteq> SOCK_STREAM \<and> ty \<noteq> SOCK_DGRAM")
  case False
  obtain u t0 where id: "next_id t = (u, t0)" by (cases "next_id t")
  define c where "c = (on_udt (\<lambda>e. e\<lparr> u_SocketID := u, u_dgram := (ty \<noteq> SOCK_STREAM) \<rparr>)
                   (cudt_new (e_pcc env) (rd_us (e_rd env) 0) (e_raw env)))\<lparr> c_iIPversion := af \<rparr>"
  have t': "t' = (add_object u (usock_new env c af) t0)\<lparr> t_Sockets := insert u (t_Sockets (add_object u (usock_new env c af) t0)) \<rparr>"
    using r False id by (auto simp: newSocket_def returns_def add_object_def Let_def c_def)
  note add = inv_add [OF inv n id, of "usock_new env c af"]
  have a: "inv_except {u} (add_object u (usock_new env c af) t0)" "t_store t u = None" "t_mux t u = None" "t0 = t\<lparr> t_SocketID := u \<rparr>"
    using add by (simp_all add: usock_new_def)
  have "inv_except {u} t'"
    unfolding t' using fresh_not_closed [OF inv a(2)]
    by (intro inv_enter [OF a(1)]) (simp_all add: add_object_def a(4))
  then show ?thesis
    by (rule inv_release [where s = "usock_new env c af"]) (simp_all add: t' add_object_def usock_new_def a(3,4))
qed (use inv r in \<open>simp add: newSocket_def throws_def\<close>)

lemma find_mux_Some:
  assumes "find_mux P t = Some mid"
  obtains m where "t_mux t mid = Some m" "P m"
  using assms by (auto simp: find_mux_def find_Some_iff split: option.splits)

lemma shared_mux_Some: "shared_mux c addr t = Some mid \<Longrightarrow> \<exists>m. t_mux t mid = Some m"
  unfolding shared_mux_def by (auto split: option.splits if_splits elim: find_mux_Some)

lemma updateMux_inv:
  assumes inv: "inv_except X t" and u: "u \<in> X" "t_store t u = Some s" "so_iMuxID s = -1" "t_mux t u = None"
    and r: "updateMux mem bound u addr t = Inr (e, t')"
  shows "inv_except X t'" "\<exists>mid. t_store t' = (t_store t)(u \<mapsto> s\<lparr> so_iMuxID := mid \<rparr>)" "t_Sockets t' = t_Sockets t"
    "e \<noteq> None \<Longrightarrow> t' = t"
proof -
  consider (join) mid where "shared_mux (so_pUDT s) addr t = Some mid" "t' = join_mux mid u t" "e = None"
    | (error) "e \<noteq> None" "t' = t"
    | (own) local where "t' = upd_sock u (\<lambda>s. s\<lparr> so_iMuxID := u \<rparr>) (t\<lparr> t_mux := (t_mux t)(u \<mapsto> new_mux mem local (so_pUDT s)) \<rparr>)" "e = None"
    using r u(2) by (cases "shared_mux (so_pUDT s) addr t"; cases bound) (auto simp: updateMux_def)
  note cases = this
  show "inv_except X t'"
  proof (cases rule: cases)
    case join
    then show ?thesis using shared_mux_Some [OF join(1)] inv_join [OF inv u(1-3)] by auto
  next
    case own
    then show ?thesis using inv_own_mux [OF inv u] by (simp add: new_mux_def)
  qed (use inv in simp)
  show "\<exists>mid. t_store t' = (t_store t)(u \<mapsto> s\<lparr> so_iMuxID := mid \<rparr>)"
  proof (cases rule: cases)
    case error
    then show ?thesis using u(2,3) by (intro exI [of _ "-1"]) (auto simp: fun_upd_idem)
  qed (use u(2) in \<open>auto simp: join_mux_def upd_sock_def\<close>)
  show "t_Sockets t' = t_Sockets t"
    by (cases rule: cases) (simp_all add: join_mux_def upd_sock_def)
  show "e \<noteq> None \<Longrightarrow> t' = t" by (cases rule: cases) simp_all
qed

lemma open_socket_store:
  assumes "t_store t u = Some s"
  shows "\<exists>c. t_store (open_socket env u t) u = Some (s\<lparr> so_pUDT := c \<rparr>)" "t_Sockets (open_socket env u t) = t_Sockets t"
    "t_mux (open_socket env u t) = t_mux t"
  using assms by (auto simp: open_socket_def upd_sock_def)

text \<open>A socket in the initial state gets its multiplexer and is opened.\<close>

lemma open_and_mux:
  assumes inv: "table_inv t" and s: "t_store t u = Some s" "u \<in> t_Sockets t" "so_Status s = INIT"
    and r: "updateMux mem bound u addr (open_socket env u t) = Inr (e, t')"
  shows "e \<noteq> None \<Longrightarrow> table_inv t'" "\<exists>s'. t_store t' u = Some s'" "t_Sockets t' = t_Sockets t"
    "(\<And>s. snd (sock_core (f s)) = snd (sock_core s) \<and> so_Status (f s) = OPENED) \<Longrightarrow> table_inv (upd_sock u f t')"
proof -
  let ?o = "open_socket env u t"
  obtain c where o: "t_store ?o u = Some (s\<lparr> so_pUDT := c \<rparr>)" "t_Sockets ?o = t_Sockets t" "t_mux ?o = t_mux t"
    using open_socket_store [OF s(1)] by blast
  have m: "so_iMuxID s = -1" "t_mux t u = None" using inv s by (auto simp: inv_except_def tables_ok_def)
  have oi: "table_inv ?o" by (rule same_table_inv [OF open_socket_same inv])
  then have "inv_except {u} ?o" by (rule inv_weaken) simp
  note up = updateMux_inv [OF this _ o(1) _ _ r]
  have up: "inv_except {u} t'" "\<exists>mid. t_store t' u = Some (s\<lparr> so_pUDT := c, so_iMuxID := mid \<rparr>)" "t_Sockets t' = t_Sockets t"
    "e \<noteq> None \<Longrightarrow> t' = ?o"
    using up m o by auto
  show "table_inv t'" if "e \<noteq> None" using up(4) [OF that] oi by simp
  show "\<exists>s'. t_store t' u = Some s'" "t_Sockets t' = t_Sockets t" using up(2,3) by blast+
  assume f: "\<And>s. snd (sock_core (f s)) = snd (sock_core s) \<and> so_Status (f s) = OPENED"
  obtain s' where s': "t_store t' u = Some s'" using up(2) by blast
  have "inv_except {u} (upd_sock u f t')"
    by (rule inv_status [OF up(1) s']) (use f in simp_all)
  then show "table_inv (upd_sock u f t')"
    by (rule inv_release [where s = "f s'"]) (use f s' up(3) s(2) in \<open>simp_all add: upd_sock_def\<close>)
qed

lemma bind_to_inv:
  assumes inv: "table_inv t" and s: "locate u t = Some s" "so_Status s = INIT" and r: "bind_to env bound u addr t = Inr (r, t')"
  shows "table_inv t'"
proof -
  have s': "t_store t u = Some s" "u \<in> t_Sockets t" using s(1) by (simp_all add: locate_Some)
  obtain e t1 where m: "updateMux (e_units env) bound u (Some addr) (open_socket env u t) = Inr (e, t1)"
    using r by (auto simp: bind_to_def bind_outcome_Inr_iff)
  note om = open_and_mux [OF inv s' s(2) m]
  show ?thesis
  proof (cases e)
    case None
    then obtain s1 m1 where "entity u t1 = Some (s1, m1)" using r m by (cases "entity u t1") (auto simp: bind_to_def)
    then have "t' = upd_sock u (\<lambda>s. s\<lparr> so_Status := OPENED, so_pSelfAddr := mx_addr m1 \<rparr>) t1"
      using r m None by (simp add: bind_to_def returns_def)
    then show ?thesis using om(4) by (simp add: sock_core_def)
  next
    case (Some x)
    then show ?thesis using r m om(1) by (simp add: bind_to_def throws_def)
  qed
qed

lemma listen_inv:
  assumes inv: "table_inv t" and r: "listen u backlog t = Inr (r, t')"
  shows "table_inv t'"
proof (cases "locate u t")
  case None
  then show ?thesis using inv r by (simp add: listen_def with_socket_def throws_def)
next
  case (Some s)
  show ?thesis
  proof (cases "so_Status s = OPENED \<and> \<not> u_bRendezvous (c_udt (so_pUDT s)) \<and> 0 < backlog")
    case False
    then show ?thesis using inv r Some by (auto simp: listen_def with_socket_def throws_def returns_def split: if_splits)
  next
    case True
    let ?f = "\<lambda>s. s\<lparr> so_uiBackLog := backlog, so_pQueuedSockets := Some {}, so_pAcceptSockets := Some {} \<rparr>"
    let ?t1 = "upd_sock u ?f t"
    have s: "u \<in> t_Sockets t" "t_store t u = Some s" using Some by (simp_all add: locate_Some)
    have t1: "table_inv ?t1"
      by (rule inv_upd [OF inv s(2)]) (use s(1) True in \<open>simp_all add: queue_ok_def\<close>)
    let ?r = "on_entity u (\<lambda>(c, net). map_outcome (\<lambda>st. ((), st)) (udt_listen c net)) ?t1"
    show ?thesis
    proof (cases ?r)
      case (Inl e)
      then show ?thesis using r Some True t1 by (cases e) (simp_all add: listen_def with_socket_def after_call_def throws_def Let_def)
    next
      case (Inr x)
      obtain y t2 where x: "x = (y, t2)" by (cases x)
      note o = on_entity_inv [OF t1 Inr [unfolded x]]
      have t': "t' = upd_sock u (\<lambda>s. s\<lparr> so_Status := LISTENING \<rparr>) t2"
        using r Some True Inr x by (simp add: listen_def with_socket_def after_call_def returns_def Let_def)
      have "t_store ?t1 u = Some (?f s)" using s(2) by (simp add: upd_sock_def)
      from keeps_store(2) [OF o(2) this] obtain s2 where s2: "t_store t2 u = Some s2"
        "so_pQueuedSockets s2 = Some {}" "so_pAcceptSockets s2 = Some {}" "so_uiBackLog s2 = backlog" by auto
      have "u \<in> t_Sockets t2" using o(2) s(1) by (simp add: keeps_def upd_sock_def)
      then show ?thesis
        unfolding t' by (intro inv_upd [OF o(1) s2(1)]) (use s2 True in \<open>simp_all add: queue_ok_def\<close>)
    qed
  qed
qed

lemma accept_turn_inv:
  assumes inv: "table_inv t" and r: "accept_turn l t = Inr (r, t')"
  shows "table_inv t'"
proof -
  obtain s where s: "t_store t l = Some s" using r by (cases "t_store t l") (simp_all add: accept_turn_def)
  show ?thesis
  proof (cases "so_Status s \<noteq> LISTENING \<or> u_bBroken (c_udt (so_pUDT s)) \<or> so_pQueuedSockets s = Some {}")
    case True
    then show ?thesis using inv r s by (auto simp: accept_turn_def split: if_splits option.splits)
  next
    case False
    then obtain q where q: "so_pQueuedSockets s = Some q" "q \<noteq> {}"
      using r s by (cases "so_pQueuedSockets s") (auto simp: accept_turn_def)
    then obtain u where "take_queued l t = Inr (u, t')"
      using r s False by (auto simp: accept_turn_def map_outcome_Inr_iff)
    from take_queued_inv(1) [OF inv this s q] show ?thesis .
  qed
qed

lemma dial_out_inv:
  assumes inv: "table_inv t" and u: "t_store t u = Some s" "u \<in> t_Sockets t" and r: "dial_out env d u name t = Inr (r, t')"
  shows "table_inv t'"
proof -
  let ?t1 = "upd_sock u (\<lambda>s. s\<lparr> so_Status := CONNECTING \<rparr>) t"
  have t1: "table_inv ?t1" by (rule inv_status [OF inv u(1)]) (use u(2) in \<open>simp_all add: sock_core_def\<close>)
  obtain e t2 where o: "on_entity u (udt_connect (d_fuel d) (d_meanwhile d) (d_turns d) (e_pf env) (e_rd env) (e_mem env) name) ?t1
      = Inr (e, t2)" using r by (auto simp: dial_out_def bind_outcome_Inr_iff)
  note k = on_entity_inv [OF t1 o]
  have "t_store ?t1 u = Some (s\<lparr> so_Status := CONNECTING \<rparr>)" using u(1) by (simp add: upd_sock_def)
  then obtain s2 where s2: "t_store t2 u = Some s2" using keeps_store(2) [OF k(2)] by blast
  have "u \<in> t_Sockets t2" using k(2) u(2) by (simp add: keeps_def upd_sock_def)
  then have "table_inv (upd_sock u (\<lambda>s. s\<lparr> so_Status := OPENED \<rparr>) t2)"
    by (intro inv_status [OF k(1) s2]) (simp_all add: sock_core_def)
  moreover have "table_inv (upd_sock u (\<lambda>s. s\<lparr> so_pPeerAddr := Some name \<rparr>) t2)"
    by (rule same_table_inv [OF upd_sock_same k(1)]) (simp add: sock_core_def)
  ultimately show ?thesis using r o by (cases e) (auto simp: dial_out_def throws_def returns_def)
qed

lemma connect_inv:
  assumes inv: "table_inv t" and r: "connect env bound d u name len t = Inr (r, t')"
  shows "table_inv t'"
proof (cases "locate u t")
  case None
  then show ?thesis using inv r by (simp add: connect_def with_socket_def throws_def)
next
  case (Some s)
  have s: "t_store t u = Some s" "u \<in> t_Sockets t" using Some by (simp_all add: locate_Some)
  show ?thesis
  proof (cases "len = sockaddr_size (so_iIPversion s) \<and> so_Status s = INIT \<and> \<not> u_bRendezvous (c_udt (so_pUDT s))")
    case True
    obtain e t1 where m: "updateMux (e_units env) bound u None (open_socket env u t) = Inr (e, t1)"
      using r Some True by (auto simp: connect_def with_socket_def bind_outcome_Inr_iff)
    note om = open_and_mux [OF inv s _ m]
    show ?thesis
    proof (cases e)
      case None
      let ?t2 = "upd_sock u (\<lambda>s. s\<lparr> so_Status := OPENED \<rparr>) t1"
      have t2: "table_inv ?t2" using om(4) True by (simp add: sock_core_def)
      obtain s2 where "t_store ?t2 u = Some s2" using om(2) True by (auto simp: upd_sock_def)
      moreover have "u \<in> t_Sockets ?t2" using om(3) True s(2) by (simp add: upd_sock_def)
      ultimately show ?thesis
        using dial_out_inv [OF t2] r Some True m None by (simp add: connect_def with_socket_def)
    next
      case (Some x)
      then show ?thesis using r \<open>locate u t = Some s\<close> True m om(1) by (simp add: connect_def with_socket_def throws_def)
    qed
  next
    case False
    then show ?thesis using inv r Some dial_out_inv [OF inv s]
      by (auto simp: connect_def with_socket_def throws_def split: if_splits)
  qed
qed

lemma close_inv:
  assumes inv: "table_inv t" and r: "close env u t = Inr (r, t')"
  shows "table_inv t'"
proof (cases "locate u t")
  case None
  then show ?thesis using inv r by (simp add: close_def with_socket_def throws_def)
next
  case (Some s)
  show ?thesis
  proof (cases "so_Status s = LISTENING")
    case True
    have "table_inv (upd_sock u (\<lambda>s. s\<lparr> so_TimeStamp := rd_us (e_rd env) 1,
                            so_pUDT := on_udt (\<lambda>e. e\<lparr> u_bBroken := True \<rparr>) (so_pUDT s) \<rparr>) t)"
      by (rule same_table_inv [OF upd_sock_same inv]) (simp add: sock_core_def)
    then show ?thesis using inv r Some True by (auto simp: close_def with_socket_def returns_def split: if_splits)
  next
    case False
    obtain t1 where t1: "close_entity env u t = Inr t1" using r Some False by (auto simp: close_def with_socket_def bind_outcome_Inr_iff)
    note k = close_entity_inv [OF inv t1]
    show ?thesis
    proof (cases "locate u t1")
      case None
      then show ?thesis using r Some False t1 k(1) by (simp add: close_def with_socket_def returns_def)
    next
      case (Some s1)
      then have "t' = retire u (rd_us (e_rd env) 1) t1"
        using r \<open>locate u t = Some s\<close> False t1 by (simp add: close_def with_socket_def returns_def)
      moreover have "t_store t1 u = Some s1" using Some by (simp add: locate_Some)
      ultimately show ?thesis using retire_inv [OF k(1)] by simp
    qed
  qed
qed

subsection \<open>New connections\<close>

lemma updateMux_listener_inv:
  assumes "inv_except X t" "u \<in> X" "t_store t u = Some s" "so_iMuxID s = -1"
  shows "inv_except X (updateMux_listener u ls t)" "\<exists>mid. t_store (updateMux_listener u ls t) u = Some (s\<lparr> so_iMuxID := mid \<rparr>)"
    "\<And>l. l \<noteq> u \<Longrightarrow> t_store (updateMux_listener u ls t) l = t_store t l"
    "t_Sockets (updateMux_listener u ls t) = t_Sockets t" "t_ClosedSockets (updateMux_listener u ls t) = t_ClosedSockets t"
    "t_SocketID (updateMux_listener u ls t) = t_SocketID t"
proof -
  let ?r = "find_mux (\<lambda>m. mx_iPort m = ntohs (sa_port (so_pSelfAddr ls))) t"
  have "inv_except X (updateMux_listener u ls t) \<and> (\<exists>mid. t_store (updateMux_listener u ls t) u = Some (s\<lparr> so_iMuxID := mid \<rparr>))
    \<and> (\<forall>l. l \<noteq> u \<longrightarrow> t_store (updateMux_listener u ls t) l = t_store t l) \<and> t_Sockets (updateMux_listener u ls t) = t_Sockets t
    \<and> t_ClosedSockets (updateMux_listener u ls t) = t_ClosedSockets t \<and> t_SocketID (updateMux_listener u ls t) = t_SocketID t"
  proof (cases ?r)
    case None
    then show ?thesis using assms by (auto simp: updateMux_listener_def intro!: exI [of _ "-1"])
  next
    case (Some mid)
    then obtain m where "t_mux t mid = Some m" by (auto elim: find_mux_Some)
    then show ?thesis using Some inv_join [OF assms] assms(3) by (auto simp: updateMux_listener_def join_mux_def upd_sock_def)
  qed
  then show "inv_except X (updateMux_listener u ls t)" "\<exists>mid. t_store (updateMux_listener u ls t) u = Some (s\<lparr> so_iMuxID := mid \<rparr>)"
    "\<And>l. l \<noteq> u \<Longrightarrow> t_store (updateMux_listener u ls t) l = t_store t l"
    "t_Sockets (updateMux_listener u ls t) = t_Sockets t" "t_ClosedSockets (updateMux_listener u ls t) = t_ClosedSockets t"
    "t_SocketID (updateMux_listener u ls t) = t_SocketID t" by blast+
qed

text \<open>The state in which the new connection is set up: its object exists and is in no table.\<close>

definition being_set_up :: "int \<Rightarrow> int \<Rightarrow> int set \<Rightarrow> 's united \<Rightarrow> bool" where
  "being_set_up l u q t \<longleftrightarrow> inv_except {u} t \<and> t_store t u \<noteq> None \<and> u \<notin> t_Sockets t \<and> u \<notin> t_ClosedSockets t \<and> l \<noteq> u
     \<and> (\<exists>ls a. t_store t l = Some ls \<and> so_pQueuedSockets ls = Some q \<and> so_pAcceptSockets ls = Some a \<and> u \<notin> q \<union> a
          \<and> int (card q) < so_uiBackLog ls)"

lemma being_set_up_keeps:
  assumes "being_set_up l u q t" "inv_except {u} t'" "keeps t t'"
  shows "being_set_up l u q t'"
proof -
  obtain ls a where ls: "t_store t l = Some ls" "so_pQueuedSockets ls = Some q" "so_pAcceptSockets ls = Some a" "u \<notin> q \<union> a"
    "int (card q) < so_uiBackLog ls" using assms(1) by (auto simp: being_set_up_def)
  obtain ls' where "t_store t' l = Some ls'" "so_pQueuedSockets ls' = Some q" "so_pAcceptSockets ls' = Some a"
    "so_uiBackLog ls' = so_uiBackLog ls" using keeps_store(2) [OF assms(3) ls(1)] ls by auto
  moreover have "t_store t' u \<noteq> None" using assms(1) keeps_store(1) [OF assms(3), of u] by (simp add: being_set_up_def)
  moreover have "t_Sockets t' = t_Sockets t" "t_ClosedSockets t' = t_ClosedSockets t" using assms(3) by (simp_all add: keeps_def)
  ultimately show ?thesis using assms(1,2) ls(4,5) by (auto simp: being_set_up_def)
qed

lemma enter_connection_inv:
  assumes b: "being_set_up l u q t" and s: "t_store t u = Some s" and r: "enter_connection l u s m t = Inr t'"
  shows "table_inv t'" "t_Sockets t' = insert u (t_Sockets t)" "\<exists>s'. t_store t' u = Some s' \<and> so_Status s' = CONNECTED"
    "\<exists>ls. t_store t' l = Some ls \<and> so_pQueuedSockets ls = Some (insert u q)"
proof -
  obtain ls a where ls: "t_store t l = Some ls" "so_pQueuedSockets ls = Some q" "so_pAcceptSockets ls = Some a" "u \<notin> q \<union> a"
    "int (card q) < so_uiBackLog ls" and inv: "inv_except {u} t" and u: "u \<notin> t_Sockets t" "u \<notin> t_ClosedSockets t" "l \<noteq> u"
    using b by (auto simp: being_set_up_def)
  let ?f = "\<lambda>s. s\<lparr> so_Status := CONNECTED, so_pSelfAddr := pton (mx_addr m) (c_piSelfIP (so_pUDT s)) (so_iIPversion s) \<rparr>"
  let ?t1 = "upd_sock u ?f t"
  define key where "key = peer_key (so_PeerID s) (so_iISN s)"
  define recs where "recs = (case t_PeerRec t key of None \<Rightarrow> {} | Some us \<Rightarrow> us)"
  let ?t2 = "?t1\<lparr> t_Sockets := insert u (t_Sockets ?t1) \<rparr>\<lparr> t_PeerRec := (t_PeerRec t)(key \<mapsto> insert u recs) \<rparr>"
  obtain polls ep where e: "enable_read l (c_PollID (so_pUDT ls), t_EPoll t) = (polls, ep)"
    by (cases "enable_read l (c_PollID (so_pUDT ls), t_EPoll t)")
  let ?g = "\<lambda>s. s\<lparr> so_pQueuedSockets := Some (insert u q), so_pUDT := (so_pUDT s)\<lparr> c_PollID := polls \<rparr> \<rparr>"
  have t': "t' = (upd_sock l ?g ?t2)\<lparr> t_EPoll := ep \<rparr>"
    using r ls(1,2) e by (simp add: enter_connection_def Let_def key_def recs_def upd_sock_def)
  have 1: "inv_except {u} ?t1" by (rule inv_status [OF inv s]) (simp_all add: sock_core_def)
  have 2: "inv_except {u} (?t1\<lparr> t_Sockets := insert u (t_Sockets ?t1) \<rparr>)"
    by (rule inv_enter [OF 1, of u "?f s"]) (use s u in \<open>simp_all add: upd_sock_def\<close>)
  have 3: "inv_except {u} ?t2"
  proof (rule inv_peer_rec [OF 2])
    show "finite us \<and> us \<noteq> {}" if "((t_PeerRec t)(key \<mapsto> insert u recs)) k = Some us" for k us
      using that peer_rec_ok [OF inv] by (cases "k = key"; cases "t_PeerRec t key") (auto simp: recs_def)
  qed
  have l2: "t_store ?t2 l = Some ls" using ls(1) u(3) by (simp add: upd_sock_def)
  have id: "t_SocketID ?t2 = t_SocketID t" by (simp add: upd_sock_def)
  have "t_SocketID t \<le> u" using inv s by (force simp: inv_except_def ids_ok_def)
  then have q: "queue_ok (t_SocketID ?t2) (?g ls)"
    using inv_queue [OF inv ls(1)] ls(2-5) unfolding id by (auto simp: queue_ok_def)
  have "l \<in> t_Sockets ?t2 \<or> so_Status ls = CLOSED"
    using 3 l2 u(3) by (auto simp: inv_except_def tables_ok_def)
  then have 4: "inv_except {u} (upd_sock l ?g ?t2)"
    by (intro inv_upd [where f = ?g, OF 3 l2 _ q]) auto
  have "same_table (upd_sock l ?g ?t2) t'" by (simp add: t' same_table_def)
  then have 5: "inv_except {u} t'" using 4 by (rule same_table_inv)
  have su: "t_store t' u = Some (?f s)" using s u(3) by (simp add: t' upd_sock_def)
  show so: "t_Sockets t' = insert u (t_Sockets t)" by (simp add: t' upd_sock_def)
  show "table_inv t'" by (rule inv_release [OF 5 su]) (simp_all add: so)
  show "\<exists>s'. t_store t' u = Some s' \<and> so_Status s' = CONNECTED" using su by simp
  show "\<exists>ls. t_store t' l = Some ls \<and> so_pQueuedSockets ls = Some (insert u q)" using l2 by (simp add: t' upd_sock_def)
qed

text \<open>Either the new connection is in the table and in the queue of the listener, or setting it up has
  failed; then its object stays, closed and in no table, and keeps its multiplexer.\<close>

lemma set_up_connection_cases:
  assumes inv: "table_inv t" and n: "1 < t_SocketID t"
    and ls: "t_store t l = Some ls" "so_pQueuedSockets ls = Some q" "int (card q) < so_uiBackLog ls"
    and r: "set_up_connection env l ls peer hs t = Inr (r, hs', t')"
  shows "table_inv t'" "t_SocketID t' = t_SocketID t - 1" "t_store t (t_SocketID t - 1) = None"
    "r = 1 \<and> t_Sockets t' = insert (t_SocketID t - 1) (t_Sockets t)
       \<and> (\<exists>s'. t_store t' (t_SocketID t - 1) = Some s' \<and> so_Status s' = CONNECTED)
       \<and> (\<exists>ls'. t_store t' l = Some ls' \<and> so_pQueuedSockets ls' = Some (insert (t_SocketID t - 1) q))
     \<or> r = -1 \<and> t_Sockets t' = t_Sockets t \<and> t_SocketID t - 1 \<notin> t_Sockets t' \<union> t_ClosedSockets t'
       \<and> (\<exists>s'. t_store t' (t_SocketID t - 1) = Some s' \<and> so_Status s' = CLOSED)"
proof -
  obtain u t0 where id: "next_id t = (u, t0)" by (cases "next_id t")
  define obj where "obj = accepted_object env l ls peer hs u"
  have obj: "so_iMuxID obj = -1" "so_pQueuedSockets obj = None" "so_pAcceptSockets obj = None" "so_Status obj = INIT"
    by (simp_all add: obj_def accepted_object_def usock_new_def)
  define ta where "ta = add_object u obj t0"
  define tb where "tb = open_socket env u ta"
  define t1 where "t1 = updateMux_listener u ls tb"
  have a: "inv_except {u} ta" "t_store t u = None" "u = t_SocketID t - 1" "t0 = t\<lparr> t_SocketID := u \<rparr>"
    using inv_add [OF inv n id obj(1-3)] obj(4) by (simp_all add: ta_def)
  have ta: "t_store ta u = Some obj" "t_store ta l = Some ls" "t_Sockets ta = t_Sockets t" "t_ClosedSockets ta = t_ClosedSockets t"
    "l \<noteq> u" "t_SocketID ta = u"
    using ls(1) a(2) by (auto simp: ta_def add_object_def a(4))
  have b: "inv_except {u} tb" unfolding tb_def by (rule same_table_inv [OF open_socket_same a(1)])
  define c where "c = cudt_open (e_rd env) (e_freq env) (so_pUDT obj)"
  have tb: "t_store tb u = Some (obj\<lparr> so_pUDT := c \<rparr>)" "t_store tb l = Some ls" "t_Sockets tb = t_Sockets t"
    "t_ClosedSockets tb = t_ClosedSockets t" "t_SocketID tb = u"
    using ta by (simp_all add: tb_def open_socket_def upd_sock_def c_def)
  have "so_iMuxID (obj\<lparr> so_pUDT := c \<rparr>) = -1" using obj(1) by simp
  note m = updateMux_listener_inv [OF b singletonI tb(1) this, where ls = ls, folded t1_def]
  have one: "inv_except {u} t1" "t_Sockets t1 = t_Sockets t" "t_ClosedSockets t1 = t_ClosedSockets t" "t_store t1 l = Some ls"
    "t_SocketID t1 = u" using m(1,4,5,6) m(3) [OF ta(5)] tb(2-5) by simp_all
  have u1: "\<exists>mid. t_store t1 u = Some (obj\<lparr> so_pUDT := c, so_iMuxID := mid \<rparr>)" using m(2) by simp
  have nt: "u \<notin> t_Sockets t" "u \<notin> t_ClosedSockets t" using fresh_not_open [OF inv a(2)] fresh_not_closed [OF inv a(2)] .
  have qo: "queue_ok (t_SocketID t) ls" by (rule inv_queue [OF inv ls(1)])
  then obtain acc where acc: "so_pAcceptSockets ls = Some acc" using ls(2) by (cases "so_pAcceptSockets ls") (simp_all add: queue_ok_def)
  then have "\<forall>v\<in>q \<union> acc. t_SocketID t \<le> v" using qo ls(2) by (simp add: queue_ok_def)
  then have "u \<notin> q \<union> acc" using a(3) by force
  then have set: "being_set_up l u q t1"
    using one u1 nt ta(5) ls(2,3) acc by (auto simp: being_set_up_def)
  let ?r = "on_entity u (connect_peer (e_rd env) (e_junk env) (e_mem env) peer hs) t1"
  have r': "(case ?r of
        Inr (hs1, t2) \<Rightarrow> (case entity u t2 of None \<Rightarrow> Inl Null_Deref
           | Some (s, m) \<Rightarrow> map_outcome (\<lambda>t3. (1, hs1, t3)) (enter_connection l u s m t2))
      | Inl e \<Rightarrow> (case e of Udt_Error _ _ \<Rightarrow> (case t_store t1 u of None \<Rightarrow> Inl Null_Deref
           | Some s \<Rightarrow> map_outcome (\<lambda>t2. (-1, answer peer (so_pUDT s) hs,
                      upd_sock u (\<lambda>s. s\<lparr> so_Status := CLOSED, so_TimeStamp := rd_us (e_rd env) 1 \<rparr>) t2)) (close_entity env u t1))
           | _ \<Rightarrow> Inl e)) = Inr (r, hs', t')"
    using r unfolding set_up_connection_def id prod.case Let_def obj_def [symmetric] ta_def [symmetric] tb_def [symmetric]
      t1_def [symmetric] .
  have "table_inv t' \<and> t_SocketID t' = u \<and> (r = 1 \<and> t_Sockets t' = insert u (t_Sockets t)
       \<and> (\<exists>s'. t_store t' u = Some s' \<and> so_Status s' = CONNECTED)
       \<and> (\<exists>ls'. t_store t' l = Some ls' \<and> so_pQueuedSockets ls' = Some (insert u q))
     \<or> r = -1 \<and> t_Sockets t' = t_Sockets t \<and> u \<notin> t_Sockets t' \<union> t_ClosedSockets t'
       \<and> (\<exists>s'. t_store t' u = Some s' \<and> so_Status s' = CLOSED))"
  proof (cases ?r)
    case (Inr x)
    obtain hs1 t2 where x: "x = (hs1, t2)" by (cases x)
    note k = on_entity_inv [OF one(1) Inr [unfolded x]]
    obtain s m where e: "entity u t2 = Some (s, m)" using r' Inr x by (cases "entity u t2") auto
    then have s: "t_store t2 u = Some s" by (auto simp: entity_def split: option.splits)
    have en: "enter_connection l u s m t2 = Inr t'" "r = 1" using r' Inr x e by auto
    have "t_SocketID t' = u" using en(1) k(2) one(5)
      by (auto simp: enter_connection_def Let_def upd_sock_def keeps_def split: option.splits prod.splits)
    moreover have "t_Sockets t2 = t_Sockets t" using k(2) one(2) by (simp add: keeps_def)
    ultimately show ?thesis using enter_connection_inv [OF being_set_up_keeps [OF set k] s en(1)] en(2) by simp
  next
    case (Inl e)
    let ?f = "\<lambda>s. s\<lparr> so_Status := CLOSED, so_TimeStamp := rd_us (e_rd env) 1 \<rparr>"
    obtain t2 where c: "close_entity env u t1 = Inr t2" "t' = upd_sock u ?f t2" "r = -1"
      using r' Inl u1 by (auto split: failure.splits)
    note k = close_entity_inv [OF one(1) c(1)]
    obtain s2 where s2: "t_store t2 u = Some s2" using u1 keeps_store(2) [OF k(2)] by blast
    have i: "inv_except {u} t'" unfolding c(2) by (rule inv_status [OF k(1) s2]) (simp_all add: sock_core_def)
    have su: "t_store t' u = Some (?f s2)" using s2 by (simp add: c(2) upd_sock_def)
    have "table_inv t'" by (rule inv_release [OF i su]) simp_all
    moreover have "t_Sockets t' = t_Sockets t" "t_ClosedSockets t' = t_ClosedSockets t" "t_SocketID t' = u"
      using k(2) one by (simp_all add: c(2) upd_sock_def keeps_def)
    ultimately show ?thesis using c(3) su nt by simp
  qed
  then show "table_inv t'" "t_SocketID t' = t_SocketID t - 1" "t_store t (t_SocketID t - 1) = None"
    "r = 1 \<and> t_Sockets t' = insert (t_SocketID t - 1) (t_Sockets t)
       \<and> (\<exists>s'. t_store t' (t_SocketID t - 1) = Some s' \<and> so_Status s' = CONNECTED)
       \<and> (\<exists>ls'. t_store t' l = Some ls' \<and> so_pQueuedSockets ls' = Some (insert (t_SocketID t - 1) q))
     \<or> r = -1 \<and> t_Sockets t' = t_Sockets t \<and> t_SocketID t - 1 \<notin> t_Sockets t' \<union> t_ClosedSockets t'
       \<and> (\<exists>s'. t_store t' (t_SocketID t - 1) = Some s' \<and> so_Status s' = CLOSED)"
    using a(2,3) by simp_all
qed

text \<open>newConnection refuses, answers for an existing connection, or sets a new one up, possibly after
  it has given up a broken one.\<close>

lemma newConnection_cases:
  assumes r: "newConnection env l peer hs t = Inr (r, hs', t')"
  obtains (unknown) "r = -1" "hs' = hs" "t' = t" "locate l t = None"
  | (existing) u s where "locate_peer peer (sint (hs_id hs)) (sint (hs_isn hs)) t = Inr (Some u)" "t_store t u = Some s"
      "\<not> u_bBroken (c_udt (so_pUDT s))" "r = 0" "hs' = existing_connection u s hs" "t' = t"
  | (refused) t1 ls q where "t1 = t \<or> (\<exists>u now. forget_connection l u (upd_sock u (\<lambda>s. s\<lparr> so_Status := CLOSED, so_TimeStamp := now \<rparr>) t) = Inr t1)"
      "t_store t1 l = Some ls" "so_pQueuedSockets ls = Some q" "int (card q) \<ge> so_uiBackLog ls" "r = -1" "hs' = hs" "t' = t1"
  | (set_up) t1 ls q where "t1 = t \<or> (\<exists>u now. forget_connection l u (upd_sock u (\<lambda>s. s\<lparr> so_Status := CLOSED, so_TimeStamp := now \<rparr>) t) = Inr t1)"
      "t_store t1 l = Some ls" "so_pQueuedSockets ls = Some q" "int (card q) < so_uiBackLog ls"
      "set_up_connection env l ls peer hs t1 = Inr (r, hs', t')"
proof (cases "locate l t")
  case None
  then show ?thesis using r unknown by (simp add: newConnection_def)
next
  case (Some ls0)
  define proceed where "proceed = (\<lambda>t1. case t_store t1 l of None \<Rightarrow> Inl Null_Deref
                | Some ls \<Rightarrow> (case so_pQueuedSockets ls of None \<Rightarrow> Inl Null_Deref
                    | Some q \<Rightarrow> if int (card q) \<ge> so_uiBackLog ls then Inr (-1, hs, t1)
                                else set_up_connection env l ls peer hs t1))"
  have p: ?thesis if pr: "proceed t1 = Inr (r, hs', t')"
    and t1: "t1 = t \<or> (\<exists>u now. forget_connection l u (upd_sock u (\<lambda>s. s\<lparr> so_Status := CLOSED, so_TimeStamp := now \<rparr>) t) = Inr t1)" for t1
  proof -
    obtain ls where ls: "t_store t1 l = Some ls" using pr by (cases "t_store t1 l") (simp_all add: proceed_def)
    obtain q where q: "so_pQueuedSockets ls = Some q" using pr ls by (cases "so_pQueuedSockets ls") (simp_all add: proceed_def)
    show ?thesis
    proof (cases "int (card q) \<ge> so_uiBackLog ls")
      case True
      then show ?thesis using refused [OF t1 ls q] pr ls q by (simp add: proceed_def)
    next
      case False
      then show ?thesis using set_up [OF t1 ls q] pr ls q by (simp add: proceed_def)
    qed
  qed
  have r': "bind_outcome (locate_peer peer (sint (hs_id hs)) (sint (hs_isn hs)) t) (\<lambda>found.
            case found of None \<Rightarrow> proceed t
            | Some u \<Rightarrow> (case t_store t u of None \<Rightarrow> Inl Null_Deref
                | Some s \<Rightarrow>
                    if u_bBroken (c_udt (so_pUDT s)) then
                      bind_outcome (forget_connection l u
                        (upd_sock u (\<lambda>s. s\<lparr> so_Status := CLOSED, so_TimeStamp := rd_us (e_rd env) 0 \<rparr>) t)) proceed
                    else Inr (0, existing_connection u s hs, t))) = Inr (r, hs', t')"
    using r Some by (simp only: newConnection_def option.case Let_def proceed_def)
  then obtain found where f: "locate_peer peer (sint (hs_id hs)) (sint (hs_isn hs)) t = Inr found"
    by (cases "locate_peer peer (sint (hs_id hs)) (sint (hs_isn hs)) t") simp_all
  show ?thesis
  proof (cases found)
    case None
    then show ?thesis using r' f p [of t] by simp
  next
    case (Some u)
    obtain s where s: "t_store t u = Some s" using r' f Some by (cases "t_store t u") simp_all
    show ?thesis
    proof (cases "u_bBroken (c_udt (so_pUDT s))")
      case True
      let ?t = "upd_sock u (\<lambda>s. s\<lparr> so_Status := CLOSED, so_TimeStamp := rd_us (e_rd env) 0 \<rparr>) t"
      obtain t1 where "forget_connection l u ?t = Inr t1" using r' f Some s True by (cases "forget_connection l u ?t") simp_all
      then show ?thesis using p [of t1] r' f Some s True by auto
    next
      case False
      then show ?thesis using existing [of u s] r' f Some s by simp
    qed
  qed
qed

lemma after_forget:
  assumes inv: "table_inv t"
    and t1: "t1 = t \<or> (\<exists>u now. forget_connection l u (upd_sock u (\<lambda>s. s\<lparr> so_Status := CLOSED, so_TimeStamp := now \<rparr>) t) = Inr t1)"
  shows "table_inv t1" "t_SocketID t1 = t_SocketID t" "t_Sockets t1 = t_Sockets t" "t_ClosedSockets t1 = t_ClosedSockets t"
    "dom (t_store t1) = dom (t_store t)"
proof -
  have "table_inv t1 \<and> t_SocketID t1 = t_SocketID t \<and> t_Sockets t1 = t_Sockets t \<and> t_ClosedSockets t1 = t_ClosedSockets t
    \<and> dom (t_store t1) = dom (t_store t)"
  proof (cases "t1 = t")
    case False
    then obtain u now where f: "forget_connection l u (upd_sock u (\<lambda>s. s\<lparr> so_Status := CLOSED, so_TimeStamp := now \<rparr>) t) = Inr t1"
      using t1 by blast
    let ?t = "upd_sock u (\<lambda>s. s\<lparr> so_Status := CLOSED, so_TimeStamp := now \<rparr>) t"
    have "table_inv ?t"
    proof (cases "t_store t u")
      case None
      then have "?t = t" by (simp add: upd_sock_def fun_upd_idem)
      then show ?thesis using inv by simp
    next
      case (Some s)
      show ?thesis by (rule inv_status [OF inv Some]) (simp_all add: sock_core_def)
    qed
    from forget_connection_inv [OF this f] show ?thesis by (auto simp: upd_sock_def split: if_splits)
  qed (use inv in simp)
  then show "table_inv t1" "t_SocketID t1 = t_SocketID t" "t_Sockets t1 = t_Sockets t" "t_ClosedSockets t1 = t_ClosedSockets t"
    "dom (t_store t1) = dom (t_store t)" by blast+
qed

lemma newConnection_inv:
  assumes inv: "table_inv t" and n: "1 < t_SocketID t" and r: "newConnection env l peer hs t = Inr (r, hs', t')"
  shows "table_inv t'"
proof (rule newConnection_cases [OF r])
  fix t1 ls q
  assume t1: "t1 = t \<or> (\<exists>u now. forget_connection l u (upd_sock u (\<lambda>s. s\<lparr> so_Status := CLOSED, so_TimeStamp := now \<rparr>) t) = Inr t1)"
    and s: "t_store t1 l = Some ls" "so_pQueuedSockets ls = Some q" "int (card q) < so_uiBackLog ls"
      "set_up_connection env l ls peer hs t1 = Inr (r, hs', t')"
  note a = after_forget [OF inv t1]
  show ?thesis using set_up_connection_cases(1) [OF a(1) _ s] n a(2) by simp
qed (use inv after_forget [OF inv] in auto)

text \<open>A packet for the listener leaves the socket table alone or passes it to newConnection once.\<close>

definition ends_in :: "('w \<Rightarrow> bool) \<Rightarrow> (int \<times> 's cudt \<times> net \<times> 'w) outcome \<Rightarrow> bool" where
  "ends_in ok out = (\<forall>r c n w. out = Inr (r, c, n, w) \<longrightarrow> ok w)"

lemma ends_in_intros:
  "ends_in ok (Inl e)"
  "ok w \<Longrightarrow> ends_in ok (Inr (r, c, n, w))"
  "ok w \<Longrightarrow> ends_in ok (map_outcome (\<lambda>n. (r, c, n, w)) x)"
  "(\<And>y. z = Inr y \<Longrightarrow> ends_in ok (f y)) \<Longrightarrow> ends_in ok (bind_outcome z f)"
  "ends_in ok a \<Longrightarrow> ends_in ok b \<Longrightarrow> ends_in ok (if p then a else b)"
  "(m = None \<Longrightarrow> ends_in ok a) \<Longrightarrow> (\<And>y. m = Some y \<Longrightarrow> ends_in ok (g y)) \<Longrightarrow> ends_in ok (case m of None \<Rightarrow> a | Some y \<Rightarrow> g y)"
  "(\<And>y1 y2. pr = (y1, y2) \<Longrightarrow> ends_in ok (h y1 y2)) \<Longrightarrow> ends_in ok (case pr of (y1, y2) \<Rightarrow> h y1 y2)"
  by (auto simp: ends_in_def bind_outcome_Inr_iff split: option.splits prod.splits)

lemma listen_packet_connects:
  assumes r: "listen_packet names mem now nc addr packet (c, net, w) = Inr (r, c', net', w')"
  shows "w' = w \<or> (\<exists>sid hs net1 x hs1 net2. nc sid addr hs (net1, w) = Inr (x, hs1, net2, w'))"
proof -
  let ?ok = "\<lambda>w'. w' = w \<or> (\<exists>sid hs net1 x hs1 net2. nc sid addr hs (net1, w) = Inr (x, hs1, net2, w'))"
  have "ends_in ?ok (listen_packet names mem now nc addr packet (c, net, w))"
    unfolding listen_packet_def Let_def prod.case by (intro ends_in_intros) auto
  then show ?thesis using r by (simp add: ends_in_def)
qed

lemma handle_request_inv:
  assumes inv: "table_inv t" and n: "1 < t_SocketID t" and r: "handle_request env names mem now addr packet l t = Inr (r, t')"
  shows "table_inv t'"
proof -
  obtain s m where e: "entity l t = Some (s, m)" using r by (cases "entity l t") (auto simp: handle_request_def)
  let ?nc = "\<lambda>sid peer hs (net, t). map_outcome
                 (\<lambda>(r, hs1, t1). (r, hs1, net\<lparr> n_rcv := (case t_mux t1 (so_iMuxID s) of None \<Rightarrow> n_rcv net | Some m1 \<Rightarrow> mx_rcv m1),
                      n_epoll := t_EPoll t1, n_cache := t_pCache t1, n_out := t_out t1 \<rparr>, t1))
                 (newConnection env sid peer hs (put_net (so_iMuxID s) net t))"
  obtain c net t1 where p: "listen_packet names mem now ?nc addr packet (so_pUDT s, net_of m t, t) = Inr (r, c, net, t1)"
    and t': "t' = upd_sock l (\<lambda>s. s\<lparr> so_pUDT := (so_pUDT s)\<lparr> c_PollID := c_PollID c \<rparr> \<rparr>) (put_net (so_iMuxID s) net t1)"
    using r e by (auto simp: handle_request_def bind_outcome_Inr_iff)
  have "table_inv t1"
  proof (cases "t1 = t")
    case False
    then obtain sid hs net1 x hs1 where nc: "newConnection env sid addr hs (put_net (so_iMuxID s) net1 t) = Inr (x, hs1, t1)"
      using listen_packet_connects [OF p] by (auto simp: map_outcome_Inr_iff)
    have "1 < t_SocketID (put_net (so_iMuxID s) net1 t)" using n by (simp add: put_net_def)
    from newConnection_inv [OF same_table_inv [OF put_net_same inv] this nc] show ?thesis .
  qed (use inv in simp)
  moreover have "same_table t1 t'"
    unfolding t' by (rule same_table_trans [OF put_net_same upd_sock_same]) (simp add: sock_core_def)
  ultimately show ?thesis using same_table_inv by blast
qed

end
