(* ===== verification/Socket_Collector.thy ===== *)
theory Socket_Collector
  imports Socket_Runs
begin

text \<open>The garbage collector of the socket table keeps the invariant.  Its first loop puts broken sockets
  among the closed ones but takes them out of the open ones only at its end, so in between the
  invariant holds of the table without the sockets collected so far.\<close>

subsection \<open>The table without the sockets collected so far\<close>

definition without :: "int set \<Rightarrow> 's united \<Rightarrow> 's united" where
  "without B t = t\<lparr> t_Sockets := t_Sockets t - B \<rparr>"

lemma without_simps [simp]:
  "t_store (without B t) = t_store t" "t_mux (without B t) = t_mux t" "t_Sockets (without B t) = t_Sockets t - B"
  "t_ClosedSockets (without B t) = t_ClosedSockets t" "t_SocketID (without B t) = t_SocketID t"
  "t_PeerRec (without B t) = t_PeerRec t" "t_EPoll (without B t) = t_EPoll t" "t_pCache (without B t) = t_pCache t"
  "t_out (without B t) = t_out t" "without {} t = t"
  by (simp_all add: without_def)

lemma without_upd: "without B (upd_sock u f t) = upd_sock u f (without B t)"
  by (simp add: without_def upd_sock_def)

lemma without_forget: "forget_connection l u t = Inr t' \<Longrightarrow> forget_connection l u (without B t) = Inr (without B t')"
  by (auto simp: forget_connection_def without_upd split: option.splits)

text \<open>The objects that no table knows: nothing will ever delete them.\<close>

definition leaked :: "'s united \<Rightarrow> int set" where
  "leaked t = dom (t_store t) - (t_Sockets t \<union> t_ClosedSockets t)"

lemma keeps_leaked: "keeps t t' \<Longrightarrow> leaked t' = leaked t"
  using keeps_store(1) [of t t'] by (auto simp: leaked_def keeps_def dom_def)

lemma upd_sock_leaked [simp]: "leaked (upd_sock u f t) = leaked t"
  by (auto simp: leaked_def upd_sock_def split: if_splits)

text \<open>The invariant, and no leaked object but those of a given set.\<close>

definition sound :: "int set \<Rightarrow> 's united \<Rightarrow> bool" where
  "sound L t \<longleftrightarrow> table_inv t \<and> leaked t \<subseteq> L"

lemma sound_same: "same_table t t' \<Longrightarrow> sound L t \<Longrightarrow> sound L t'"
  using keeps_leaked [OF same_keeps] same_table_inv [of t t'] by (fastforce simp: sound_def)

lemma sound_close_entity:
  assumes "sound L t" "close_entity env u t = Inr t'"
  shows "sound L t'" "keeps t t'"
  using close_entity_inv [of "{}" t env u t'] assms keeps_leaked [of t t'] by (auto simp: sound_def)

lemma open_finite: "inv_except X t \<Longrightarrow> finite (t_Sockets t) \<and> finite (t_ClosedSockets t)"
  unfolding inv_except_def ids_ok_def
  by (auto intro: finite_subset [of _ "dom (t_store t)"] dest: tables_okD(2,3))

text \<open>An open socket joins the collected ones.\<close>

definition collected :: "int \<Rightarrow> ('s usock \<Rightarrow> 's usock) \<Rightarrow> 's united \<Rightarrow> 's united" where
  "collected u f t = (upd_sock u f t)\<lparr> t_ClosedSockets := insert u (t_ClosedSockets t) \<rparr>"

lemma collected_sound:
  assumes sd: "sound L (without B t)" and u: "u \<in> t_Sockets t" "u \<notin> B" "t_store t u = Some s"
    and f: "snd (sock_core (f s)) = snd (sock_core s)" "so_Status (f s) = CLOSED"
  shows "sound L (without (insert u B) (collected u f t))"
proof -
  let ?w = "upd_sock u f (without B t)"
  have inv: "table_inv (without B t)" using sd by (simp add: sound_def)
  have w: "table_inv ?w" by (rule inv_status [OF inv, where s = s]) (use u f in simp_all)
  have "table_inv (?w\<lparr> t_Sockets := t_Sockets ?w - {u}, t_ClosedSockets := insert u (t_ClosedSockets ?w) \<rparr>)"
    by (rule inv_move [OF w, of u "f s"]) (use u f in \<open>simp_all add: upd_sock_def\<close>)
  moreover have "?w\<lparr> t_Sockets := t_Sockets ?w - {u}, t_ClosedSockets := insert u (t_ClosedSockets ?w) \<rparr>
      = without (insert u B) (collected u f t)"
    by (rule united.equality) (simp_all add: without_def upd_sock_def collected_def Diff_insert [of _ u B])
  moreover have "leaked (without (insert u B) (collected u f t)) \<subseteq> leaked (without B t)"
    by (auto simp: leaked_def without_def collected_def upd_sock_def split: if_splits)
  ultimately show ?thesis using sd by (auto simp: sound_def)
qed

lemma leave_listener_sound:
  assumes sd: "sound L (without B t)" and r: "leave_listener l u t = Inr t'"
  shows "sound L (without B t') \<and> t_Sockets t' = t_Sockets t"
proof (cases "l \<in> t_Sockets t \<or> l \<in> t_ClosedSockets t")
  case True
  then have f: "forget_connection l u t = Inr t'" using r by (simp add: leave_listener_def)
  then obtain g where t': "t' = upd_sock l g t" by (auto simp: forget_connection_def split: option.splits)
  have "table_inv (without B t')"
    using forget_connection_inv(1) [OF _ without_forget [OF f]] sd by (simp add: sound_def)
  then show ?thesis using sd by (simp add: sound_def t' without_upd) (simp add: upd_sock_def)
qed (use assms in \<open>auto simp: leave_listener_def split: if_splits\<close>)

subsection \<open>Collecting broken sockets\<close>

lemma keeps_waiting_core: "keeps_waiting now s = (b, s1) \<Longrightarrow> sock_core s1 = sock_core s"
  by (auto simp: keeps_waiting_def sock_core_def Let_def split: if_splits option.splits)

lemma check_broken_sound:
  assumes sd: "sound L (without B t)" and u: "u \<in> t_Sockets t" "u \<notin> B" and r: "check_broken now u t = Inr (b, t')"
  shows "sound L (without (if b then insert u B else B) t') \<and> t_Sockets t' = t_Sockets t"
proof -
  obtain s where s: "t_store t u = Some s" using r by (cases "t_store t u") (simp_all add: check_broken_def)
  obtain wait s1 where w: "keeps_waiting (now 0) s = (wait, s1)" by (cases "keeps_waiting (now 0) s")
  note c = keeps_waiting_core [OF w]
  consider (unbroken) "\<not> u_bBroken (c_udt (so_pUDT s))" | (waits) "u_bBroken (c_udt (so_pUDT s))" wait
    | (broken) "u_bBroken (c_udt (so_pUDT s))" "\<not> wait" by blast
  then show ?thesis
  proof cases
    case unbroken
    then show ?thesis using r s sd by (simp add: check_broken_def)
  next
    case waits
    have "same_table (without B t) (upd_sock u (\<lambda>_. s1) (without B t))"
      by (rule upd_sock_same) (use s c in simp)
    from sound_same [OF this sd] have "sound L (without B (upd_sock u (\<lambda>_. s1) t))" unfolding without_upd .
    moreover have "b = False" "t' = upd_sock u (\<lambda>_. s1) t" using r s w waits by (simp_all add: check_broken_def)
    ultimately show ?thesis by (simp add: upd_sock_def split: option.split)
  next
    case broken
    let ?f = "\<lambda>_. s1\<lparr> so_Status := CLOSED, so_TimeStamp := now 1 \<rparr>"
    have lv: "leave_listener (so_ListenSocket s1) u (collected u ?f t) = Inr t'" and b
      using r s w broken by (auto simp: check_broken_def collected_def)
    have "sound L (without (insert u B) (collected u ?f t))"
      by (rule collected_sound [OF sd u s]) (use c in \<open>simp_all add: sock_core_def\<close>)
    from leave_listener_sound [OF this lv] show ?thesis using \<open>b\<close> by (simp add: collected_def upd_sock_def)
  qed
qed

lemma check_open_sound:
  assumes "sound L (without B t)" "distinct us" "set us \<subseteq> t_Sockets t - B" "check_open now us t = Inr (tbc, t')"
  shows "sound L (without (B \<union> set tbc) t') \<and> t_Sockets t' = t_Sockets t"
  using assms
proof (induction us arbitrary: B t tbc)
  case (Cons u us)
  obtain b t1 tbc1 where k: "check_broken (now u) u t = Inr (b, t1)" "check_open now us t1 = Inr (tbc1, t')"
    "tbc = (if b then u # tbc1 else tbc1)"
    using Cons.prems(4) by (auto simp: bind_outcome_Inr_iff)
  let ?B = "if b then insert u B else B"
  have i: "sound L (without ?B t1)" "t_Sockets t1 = t_Sockets t"
    using check_broken_sound [OF Cons.prems(1) _ _ k(1)] Cons.prems(3) by simp_all
  have "set us \<subseteq> t_Sockets t1 - ?B" using Cons.prems(2,3) i(2) by auto
  from Cons.IH [OF i(1) _ this k(2)] have ih: "sound L (without (?B \<union> set tbc1) t')" "t_Sockets t' = t_Sockets t1"
    using Cons.prems(2) by simp_all
  have "?B \<union> set tbc1 = B \<union> set tbc" using k(3) by auto
  then show ?case using ih i(2) by simp
qed (simp add: without_def)

lemma end_linger_core: "sock_core (end_linger now s) = sock_core s"
  by (simp add: end_linger_def Let_def sock_core_def)

lemma fold_upd_same: "(\<And>u s. sock_core (f u s) = sock_core s) \<Longrightarrow> same_table t (fold (\<lambda>u. upd_sock u (f u)) us t)"
proof (induction us arbitrary: t)
  case (Cons u us)
  have "same_table t (upd_sock u (f u) t)" by (rule upd_sock_same) (rule Cons.prems)
  then show ?case using Cons same_table_trans by fastforce
qed simp

lemma check_closed_same: "same_table t (check_closed now us t)"
  unfolding check_closed_def by (rule fold_upd_same) (rule end_linger_core)

subsection \<open>Removing a socket\<close>

text \<open>What closing the waiting connections of a listener keeps of every other socket.\<close>

definition at_least :: "'s united \<Rightarrow> 's united \<Rightarrow> bool" where
  "at_least t t' \<longleftrightarrow> t_ClosedSockets t \<subseteq> t_ClosedSockets t' \<and> t_Sockets t' \<subseteq> t_Sockets t
     \<and> (\<forall>u s. t_store t u = Some s \<longrightarrow> (\<exists>s'. t_store t' u = Some s' \<and> so_iMuxID s' = so_iMuxID s))"

lemma at_least_refl [simp]: "at_least t t"
  by (simp add: at_least_def)

lemma at_least_trans: "at_least t t' \<Longrightarrow> at_least t' t'' \<Longrightarrow> at_least t t''"
  unfolding at_least_def by (metis subset_trans)

lemma keeps_at_least: "keeps t t' \<Longrightarrow> at_least t t'"
  using keeps_store(2) [of t t'] by (fastforce simp: at_least_def keeps_def)

lemma retire_at_least: "at_least t (retire u now t)"
  by (auto simp: at_least_def retire_def upd_sock_def split: option.splits)

lemma retire_sound:
  assumes "sound L t" "t_store t u = Some s"
  shows "sound L (retire u now t)"
  using retire_inv [of "{}" t u s now] assms by (auto simp: sound_def leaked_def retire_def upd_sock_def split: if_splits)

lemma close_queued_sound:
  assumes sd: "sound L t" and r: "close_queued env u t = Inr t'"
  shows "sound L t' \<and> at_least t t'"
proof -
  let ?f = "\<lambda>s. s\<lparr> so_pUDT := on_udt (\<lambda>e. e\<lparr> u_bBroken := True \<rparr>) (so_pUDT s) \<rparr>"
  obtain t1 where u: "u \<in> t_Sockets t" and c: "close_entity env u (upd_sock u ?f t) = Inr t1" "t' = retire u (rd_us (e_rd env) 1) t1"
    using r by (auto simp: close_queued_def guard_outcome_def split: if_splits)
  have same: "same_table t (upd_sock u ?f t)" by (rule upd_sock_same) (simp add: sock_core_def)
  note k = sound_close_entity [OF sound_same [OF same sd] c(1)]
  have tt: "keeps t t1" by (rule keeps_trans [OF same_keeps [OF same] k(2)])
  obtain s where "t_store t u = Some s" using sd u by (auto simp: sound_def inv_except_def dest: tables_okD(2))
  then obtain s1 where s1: "t_store t1 u = Some s1" using keeps_store(2) [OF tt] by blast
  show ?thesis
    unfolding c(2) using retire_sound [OF k(1) s1] at_least_trans [OF keeps_at_least [OF tt] retire_at_least] by blast
qed

lemma close_all_sound:
  assumes "sound L t" "close_all env us t = Inr t'"
  shows "sound L t' \<and> at_least t t'"
  using assms
proof (induction us arbitrary: t)
  case (Cons u us)
  obtain t1 where k: "close_queued env u t = Inr t1" "close_all env us t1 = Inr t'"
    using Cons.prems(2) by (auto simp: bind_outcome_Inr_iff)
  note i = close_queued_sound [OF Cons.prems(1) k(1)]
  show ?case using Cons.IH [OF conjunct1 [OF i] k(2)] i at_least_trans by blast
qed simp

lemma deleted:
  "t_store (leave_mux mid (delete_object u t)) = (t_store t)(u := None)"
  "t_Sockets (leave_mux mid (delete_object u t)) = t_Sockets t"
  "t_store t u \<noteq> None \<Longrightarrow> t_ClosedSockets (leave_mux mid (delete_object u t)) = t_ClosedSockets t - {u}"
  by (auto simp: leave_mux_def delete_object_def Let_def split: option.splits)

lemma forget_peer_at_least: "at_least t (forget_peer key u t)" "leaked (forget_peer key u t) = leaked t"
  by (auto simp: forget_peer_def at_least_def leaked_def split: option.splits)

lemma removeSocket_sound:
  assumes sd: "sound L t" and r: "removeSocket env u t = Inr t'"
  shows "sound L t' \<and> t_Sockets t' \<subseteq> t_Sockets t \<and> (u \<in> t_ClosedSockets t \<longrightarrow> t_store t' u = None)"
proof (cases "u \<in> t_ClosedSockets t")
  case True
  obtain s where s: "t_store t u = Some s" using r True by (cases "t_store t u") (simp_all add: removeSocket_def)
  define queued where "queued = (case so_pQueuedSockets s of None \<Rightarrow> [] | Some q \<Rightarrow> sorted_list_of_set q)"
  obtain t1 t2 where c: "close_all env queued t = Inr t1"
    "close_entity env u (forget_peer (peer_key (so_PeerID s) (so_iISN s)) u t1) = Inr t2"
    "t' = leave_mux (so_iMuxID s) (delete_object u t2)"
    using r True s by (auto simp: removeSocket_def Let_def queued_def bind_outcome_Inr_iff)
  let ?t = "forget_peer (peer_key (so_PeerID s) (so_iISN s)) u t1"
  note a = close_all_sound [OF sd c(1)]
  have "sound L ?t" using a forget_peer_inv [of "{}" t1] forget_peer_at_least(2) [of _ u t1] by (simp add: sound_def)
  note k = sound_close_entity [OF this c(2)]
  have al: "at_least t t2" using a forget_peer_at_least(1) keeps_at_least [OF k(2)] at_least_trans by blast
  obtain s2 where s2: "t_store t2 u = Some s2" "so_iMuxID s2 = so_iMuxID s" using al s unfolding at_least_def by blast
  have u: "u \<in> t_ClosedSockets t2" using al True by (auto simp: at_least_def)
  have "u \<notin> t_Sockets t2" using u k(1) by (auto simp: sound_def inv_except_def dest: tables_okD(1))
  from inv_delete [OF _ u s2(1) this] have "table_inv t'" using k(1) unfolding c(3) s2(2) by (simp add: sound_def)
  moreover have "leaked t' \<subseteq> leaked t2" using s2(1) by (auto simp: leaked_def c(3) deleted)
  ultimately show ?thesis using k(1) al by (auto simp: sound_def c(3) deleted at_least_def)
qed (use assms in \<open>simp add: removeSocket_def\<close>)

lemma remove_all_sound:
  assumes "sound L t" "remove_all env us t = Inr t'"
  shows "sound L t' \<and> t_Sockets t' \<subseteq> t_Sockets t"
  using assms
proof (induction us arbitrary: t)
  case (Cons u us)
  obtain t1 where k: "removeSocket env u t = Inr t1" "remove_all env us t1 = Inr t'"
    using Cons.prems(2) by (auto simp: bind_outcome_Inr_iff)
  note i = removeSocket_sound [OF Cons.prems(1) k(1)]
  show ?case using Cons.IH [OF conjunct1 [OF i] k(2)] i by blast
qed simp

lemma checkBrokenSockets_sound:
  assumes sd: "sound L t" and r: "checkBrokenSockets env now t = Inr t'"
  shows "sound L t' \<and> t_Sockets t' \<subseteq> t_Sockets t"
proof -
  obtain tbc t1 where o: "check_open now (sorted_list_of_set (t_Sockets t)) t = Inr (tbc, t1)"
    using r by (auto simp: checkBrokenSockets_def bind_outcome_Inr_iff)
  let ?t2 = "check_closed now (sorted_list_of_set (t_ClosedSockets t1)) t1"
  obtain us where rm: "remove_all env us (without (set tbc) ?t2) = Inr t'"
    using r o by (auto simp: checkBrokenSockets_def Let_def without_def)
  have "sound L (without {} t)" "finite (t_Sockets t)" using sd open_finite [of "{}" t] by (simp_all add: sound_def)
  then have a: "sound L (without (set tbc) t1)" "t_Sockets t1 = t_Sockets t"
    using check_open_sound [OF _ _ _ o, of L "{}"] by simp_all
  have same: "same_table t1 ?t2" by (rule check_closed_same)
  then have "same_table (without (set tbc) t1) (without (set tbc) ?t2)" by (simp add: same_table_def)
  from remove_all_sound [OF sound_same [OF this a(1)] rm] show ?thesis
    using a(2) same by (auto simp: same_table_def)
qed

subsection \<open>Shutting down\<close>

text \<open>The calls of the connections do not see which sockets are collected, because those are closed.\<close>

lemma without_locate:
  assumes "table_inv (without B t)"
  shows "locate u (without B t) = locate u t"
proof (cases "u \<in> t_Sockets t \<and> u \<in> B")
  case True
  have "so_Status s = CLOSED" if "t_store t u = Some s" for s
    using assms that True by (auto simp: inv_except_def dest: tables_okD(4))
  then show ?thesis by (auto simp: locate_def split: option.split)
qed (auto simp: locate_def)

lemma without_complete:
  assumes inv: "table_inv (without B t)" and r: "connect_complete u t = Inr t'"
  shows "connect_complete u (without B t) = Inr (without B t')"
  using r without_locate [OF inv, of u] by (auto simp: connect_complete_def without_upd split: option.splits)

lemma without_complete_all:
  assumes "table_inv (without B t)" "complete_all us t = Inr t'"
  shows "complete_all us (without B t) = Inr (without B t')"
  using assms
proof (induction us arbitrary: t)
  case (Cons u us)
  obtain t1 where k: "connect_complete u t = Inr t1" "complete_all us t1 = Inr t'"
    using Cons.prems(2) by (auto simp: bind_outcome_Inr_iff)
  note c = without_complete [OF Cons.prems(1) k(1)]
  show ?case using Cons.IH [OF connect_complete_inv(1) [OF Cons.prems(1) c] k(2)] c by simp
qed simp

lemma without_put: "put_entity u mid st (without B t) = without B (put_entity u mid st t)"
proof -
  have "put_net mid net (without B t) = without B (put_net mid net t)" for net
    by (rule united.equality) (simp_all add: put_net_def without_def)
  then show ?thesis by (cases st) (simp add: put_entity_def without_upd)
qed

lemma without_on_entity:
  assumes inv: "table_inv (without B t)" and r: "on_entity u f t = Inr (x, t')"
  shows "on_entity u f (without B t) = Inr (x, without B t')"
proof -
  have e: "entity u (without B t) = entity u t" "net_of m (without B t) = net_of m t" for m
    by (simp_all add: entity_def net_of_def cong: option.case_cong)
  obtain s m where s: "entity u t = Some (s, m)" using r by (cases "entity u t") (auto simp: on_entity_def)
  obtain c net where f: "f (so_pUDT s, net_of m t) = Inr (x, c, net)"
    and st: "complete_all (n_complete net) (put_entity u (so_iMuxID s) (c, net) t) = Inr t'"
    using r s by (auto simp: on_entity_def bind_outcome_Inr_iff)
  have "table_inv (without B (put_entity u (so_iMuxID s) (c, net) t))"
    using same_table_inv [OF put_entity_same inv] by (simp add: without_put)
  from without_complete_all [OF this st] show ?thesis using e s f by (simp add: on_entity_def without_put)
qed

lemma without_close_entity:
  assumes "table_inv (without B t)" "close_entity env u t = Inr t'"
  shows "close_entity env u (without B t) = Inr (without B t')"
  using assms without_on_entity [OF assms(1), of u]
  by (fastforce simp: close_entity_def split: option.splits if_splits)

lemma on_entity_sockets: "on_entity u f t = Inr (x, t') \<Longrightarrow> t_Sockets t' = t_Sockets t"
proof -
  have all: "complete_all us t1 = Inr t2 \<Longrightarrow> t_Sockets t2 = t_Sockets t1" for us and t1 t2 :: "'s united"
    by (induction us arbitrary: t1)
      (auto simp: bind_outcome_Inr_iff connect_complete_def upd_sock_def split: option.splits)
  show "on_entity u f t = Inr (x, t') \<Longrightarrow> t_Sockets t' = t_Sockets t"
    by (auto simp: on_entity_def bind_outcome_Inr_iff put_entity_def put_net_def upd_sock_def dest!: all split: option.splits)
qed

lemma close_entity_sockets: "close_entity env u t = Inr t' \<Longrightarrow> t_Sockets t' = t_Sockets t"
  by (auto simp: close_entity_def split: option.splits if_splits dest: on_entity_sockets)

lemma shut_down_sound:
  assumes sd: "sound L (without B t)" and u: "u \<in> t_Sockets t" "u \<notin> B" and r: "shut_down env u t = Inr t'"
  shows "sound L (without (insert u B) t') \<and> t_Sockets t' = t_Sockets t"
proof -
  let ?f = "\<lambda>s. s\<lparr> so_pUDT := on_udt (\<lambda>e. e\<lparr> u_bBroken := True \<rparr>) (so_pUDT s) \<rparr>"
  let ?g = "\<lambda>s. s\<lparr> so_Status := CLOSED, so_TimeStamp := rd_us (e_rd env) 1 \<rparr>"
  have same: "same_table (without B t) (without B (upd_sock u ?f t))"
    unfolding without_upd by (rule upd_sock_same) (simp add: sock_core_def)
  obtain t1 where c: "close_entity env u (upd_sock u ?f t) = Inr t1" using r by (auto simp: shut_down_def bind_outcome_Inr_iff)
  then obtain s where s: "t_store t1 u = Some s"
    using r by (cases "t_store t1 u") (simp_all add: shut_down_def)
  have lv: "leave_listener (so_ListenSocket s) u (collected u ?g t1) = Inr t'"
    using r c s by (simp add: shut_down_def collected_def)
  have w: "sound L (without B (upd_sock u ?f t))" by (rule sound_same [OF same sd])
  then have "close_entity env u (without B (upd_sock u ?f t)) = Inr (without B t1)"
    using without_close_entity [OF _ c] by (simp add: sound_def)
  note k = sound_close_entity [OF w this]
  have sets: "t_Sockets t1 = t_Sockets t" using close_entity_sockets [OF c] by (simp add: upd_sock_def)
  have "sound L (without (insert u B) (collected u ?g t1))"
    by (rule collected_sound [OF k(1) _ u(2) s]) (use sets u(1) in \<open>simp_all add: sock_core_def\<close>)
  from leave_listener_sound [OF this lv] show ?thesis using sets by (simp add: collected_def upd_sock_def)
qed

lemma shut_all_sound:
  assumes "sound L (without B t)" "distinct us" "set us \<subseteq> t_Sockets t - B" "shut_all env us t = Inr t'"
  shows "sound L (without (B \<union> set us) t') \<and> t_Sockets t' = t_Sockets t"
  using assms
proof (induction us arbitrary: B t)
  case (Cons u us)
  obtain t1 where k: "shut_down env u t = Inr t1" "shut_all env us t1 = Inr t'"
    using Cons.prems(4) by (auto simp: bind_outcome_Inr_iff)
  have i: "sound L (without (insert u B) t1)" "t_Sockets t1 = t_Sockets t"
    using shut_down_sound [OF Cons.prems(1) _ _ k(1)] Cons.prems(3) by simp_all
  have "set us \<subseteq> t_Sockets t1 - insert u B" using Cons.prems(2,3) i(2) by auto
  from Cons.IH [OF i(1) _ this k(2)] show ?case using Cons.prems(2) i(2) by simp
qed simp

lemma gc_end_sound:
  assumes sd: "sound L t" and r: "gc_end env t = Inr t'"
  shows "sound L t' \<and> t_Sockets t' = {}"
proof -
  obtain t1 where a: "shut_all env (sorted_list_of_set (t_Sockets t)) t = Inr t1"
    "t' = fold (\<lambda>u. upd_sock u (\<lambda>s. s\<lparr> so_TimeStamp := 0 \<rparr>)) (sorted_list_of_set (t_ClosedSockets t1)) (t1\<lparr> t_Sockets := {} \<rparr>)"
    using r by (auto simp: gc_end_def)
  have "sound L (without {} t)" "finite (t_Sockets t)" using sd open_finite [of "{}" t] by (simp_all add: sound_def)
  then have "sound L (without (t_Sockets t) t1)" "t_Sockets t1 = t_Sockets t"
    using shut_all_sound [OF _ _ _ a(1), of L "{}"] by simp_all
  moreover have "same_table (t1\<lparr> t_Sockets := {} \<rparr>) t'"
    unfolding a(2) by (rule fold_upd_same) (simp add: sock_core_def)
  ultimately show ?thesis using sound_same [of "t1\<lparr> t_Sockets := {} \<rparr>" t' L] by (simp add: without_def same_table_def)
qed

lemma gc_drain_sound:
  assumes "sound L t" "t_Sockets t = {}" "gc_drain fuel k rounds t = Inr t'"
  shows "sound L t' \<and> t_Sockets t' = {} \<and> t_ClosedSockets t' = {}"
  using assms
proof (induction fuel arbitrary: k t)
  case (Suc fuel)
  obtain t1 where c: "checkBrokenSockets (fst (rounds k)) (snd (rounds k)) t = Inr t1"
    "(if t_ClosedSockets t1 = {} then Inr t1 else gc_drain fuel (Suc k) rounds t1) = Inr t'"
    using Suc.prems(3) by (auto simp: bind_outcome_Inr_iff)
  have t1: "sound L t1" "t_Sockets t1 = {}" using checkBrokenSockets_sound [OF Suc.prems(1) c(1)] Suc.prems(2) by auto
  show ?case using Suc.IH [OF t1] c(2) t1 by (auto split: if_splits)
qed simp

end
