(* ===== verification/Socket_Requests.thy ===== *)
theory Socket_Requests
  imports Socket_Collector
begin

text \<open>What the socket table promises: the runs of the table, requests for new connections and their
  repetitions, and the end of the library.\<close>

subsection \<open>Runs of the table\<close>

text \<open>The steps of the table.  A call of the application that blocks is one step for each time it holds
  the locks of the table (accept) or one step as a whole (connect and close).  The threads of the
  connections may change a connection, its receive queue, the cache and the poll objects in any way.\<close>

inductive table_step :: "'s united \<Rightarrow> 's united \<Rightarrow> bool" where
  step_newSocket: "1 < t_SocketID t \<Longrightarrow> newSocket env af ty t = Inr (r, t') \<Longrightarrow> table_step t t'"
| step_bind: "bind_address env bound u addr len t = Inr (r, t') \<Longrightarrow> table_step t t'"
| step_bind_udp: "bind_udp env bound u name t = Inr (r, t') \<Longrightarrow> table_step t t'"
| step_listen: "listen u backlog t = Inr (r, t') \<Longrightarrow> table_step t t'"
| step_accept: "accept_turn l t = Inr (w, t') \<Longrightarrow> table_step t t'"
| step_quiet: "quiet_listener l t = Inr t' \<Longrightarrow> table_step t t'"
| step_connect: "connect env bound d u addr len t = Inr (r, t') \<Longrightarrow> table_step t t'"
| step_close: "close env u t = Inr (r, t') \<Longrightarrow> table_step t t'"
| step_request: "1 < t_SocketID t \<Longrightarrow> handle_request env names mem now addr packet l t = Inr (n, t') \<Longrightarrow> table_step t t'"
| step_connection: "on_entity u f t = Inr ((), t') \<Longrightarrow> table_step t t'"
| step_options: "table_step t (upd_sock u (\<lambda>s. s\<lparr> so_pUDT := c \<rparr>) t)"
| step_epoll: "table_step t (t\<lparr> t_EPoll := ep \<rparr>)"
| step_startup: "table_step t (snd (startup t))"
| step_collect: "checkBrokenSockets env now t = Inr t' \<Longrightarrow> table_step t t'"

lemma bind_address_inv:
  assumes inv: "table_inv t" and r: "bind_address env bound u addr len t = Inr (r, t')"
  shows "table_inv t'"
proof (cases "locate u t")
  case (Some s)
  then show ?thesis using r inv bind_to_inv [OF inv Some]
    by (auto simp: bind_address_def with_socket_def throws_def split: if_splits)
qed (use assms in \<open>simp add: bind_address_def with_socket_def throws_def\<close>)

lemma bind_udp_inv:
  assumes inv: "table_inv t" and r: "bind_udp env bound u name t = Inr (r, t')"
  shows "table_inv t'"
proof (cases "locate u t")
  case (Some s)
  then show ?thesis using r inv bind_to_inv [OF inv Some]
    by (auto simp: bind_udp_def with_socket_def throws_def split: if_splits option.splits)
qed (use assms in \<open>simp add: bind_udp_def with_socket_def throws_def\<close>)

lemma table_step_inv:
  assumes "table_step t t'" "table_inv t"
  shows "table_inv t'"
  using assms
proof (induction rule: table_step.induct)
  case (step_options t u c)
  have "same_table t (upd_sock u (\<lambda>s. s\<lparr> so_pUDT := c \<rparr>) t)" by (rule upd_sock_same) (simp add: sock_core_def)
  then show ?case using step_options same_table_inv by blast
next
  case (step_epoll t ep)
  have "same_table t (t\<lparr> t_EPoll := ep \<rparr>)" by (simp add: same_table_def)
  then show ?case using step_epoll same_table_inv by blast
next
  case (step_startup t)
  have "same_table t (snd (startup t))" by (simp add: same_table_def startup_def Let_def)
  then show ?case using step_startup same_table_inv by blast
next
  case (step_collect env now t t')
  then have "sound (leaked t) t" by (simp add: sound_def)
  from checkBrokenSockets_sound [OF this step_collect(1)] show ?case by (simp add: sound_def)
qed (blast intro: newSocket_inv bind_address_inv bind_udp_inv listen_inv accept_turn_inv connect_inv close_inv
       handle_request_inv on_entity_inv(1) same_table_inv quiet_listener_same)+

lemma united_new_inv: "table_inv (united_new pf rand)"
proof -
  have "i32 n \<le> 2147483647" for n :: int using i32_in_range [of n] by (simp add: i32_range_def)
  then show ?thesis
    by (auto simp: united_new_def inv_except_def ids_ok_def muxes_ok_def counted_def users_def queues_ok_def tables_ok_def)
qed

lemma table_run_inv: "table_step\<^sup>*\<^sup>* t t' \<Longrightarrow> table_inv t \<Longrightarrow> table_inv t'"
  by (induction rule: rtranclp_induct) (blast intro: table_step_inv)+


lemma first_id: "t_SocketID (united_new pf 2147483647) = 1073741825"
proof -
  have "d_int n = Fin (of_int n)" if "\<bar>n\<bar> \<le> 9007199254740992" for n
    using rnd64_int [OF that] by (simp add: fp_of_int_def)
  then show ?thesis using rnd64_int [of 1] rnd64_int [of 1073741824]
    by (simp add: united_new_def fp_to_i32_def truncate_rat_def i32_range_def)
qed


subsection \<open>Requests and their repetitions\<close>

lemma prepare_buffers_keeps:
  "prepare_buffers e rd c = Inr c' \<Longrightarrow> u_bBroken (c_udt c') = u_bBroken (c_udt c) \<and> u_iFlightFlagSize (c_udt c') = u_iFlightFlagSize (c_udt c)"
  by (auto simp: prepare_buffers_def guard_outcome_Inr_iff)

lemma recall_path_keeps:
  "recall_path junk addr ca c = Inr c' \<Longrightarrow> u_bBroken (c_udt c') = u_bBroken (c_udt c) \<and> u_iFlightFlagSize (c_udt c') = u_iFlightFlagSize (c_udt c)"
  by (auto simp: recall_path_def split: if_splits)

lemma connect_peer_keeps:
  assumes "connect_peer rd junk mem peer hs (c, net) = Inr (h, c', net')"
  shows "n_complete net' = n_complete net" "u_bBroken (c_udt c') = u_bBroken (c_udt c)"
    "u_iFlightFlagSize (c_udt c') = u_iFlightFlagSize (c_udt c)"
proof -
  define mss where "mss = (if sint (hs_mss hs) > u_iMSS (c_udt c) then u_iMSS (c_udt c) else sint (hs_mss hs))"
  define c1 where "c1 = adopt_peer (sint (hs_isn hs)) (sint (hs_id hs)) (sint (hs_flight_flag_size hs)) (hs_peer_ip hs)
                (on_udt (\<lambda>u. set_packet_sizes mss (set_send_seq (sint (hs_isn hs)) u)) c)"
  obtain c2 c3 p where k: "prepare_buffers (Udt_Error 3 2) rd c1 = Inr c2" "recall_path junk peer (n_cache net) c2 = Inr c3"
    "c' = (on_udt (\<lambda>u. u\<lparr> u_bConnected := True \<rparr>) c3)\<lparr> c_pPeerAddr := Some peer \<rparr>"
    "net' = send_to peer p (net\<lparr> n_rcv := register_socket (u_SocketID (c_udt c)) (n_rcv net) \<rparr>)"
    using assms
    by (simp only: connect_peer_def Let_def prod.case mss_def [symmetric] c1_def [symmetric] bind_outcome_Inr_iff map_outcome_Inr_iff)
      blast
  have c1: "u_bBroken (c_udt c1) = u_bBroken (c_udt c)" "u_iFlightFlagSize (c_udt c1) = u_iFlightFlagSize (c_udt c)"
    by (simp_all add: c1_def adopt_peer_def set_packet_sizes_def set_send_seq_def Let_def)
  show "n_complete net' = n_complete net" "u_bBroken (c_udt c') = u_bBroken (c_udt c)"
    "u_iFlightFlagSize (c_udt c') = u_iFlightFlagSize (c_udt c)"
    using prepare_buffers_keeps [OF k(1)] recall_path_keeps [OF k(2)] c1 by (simp_all add: k(3,4) send_to_def)
qed

lemma enter_connection_result:
  assumes "t_store t l = Some ls" "so_pQueuedSockets ls = Some q" "l \<noteq> u" "t_store t u = Some s"
  obtains t' where "enter_connection l u s m t = Inr t'"
    "t_store t' u = Some (s\<lparr> so_Status := CONNECTED,
       so_pSelfAddr := pton (mx_addr m) (c_piSelfIP (so_pUDT s)) (so_iIPversion s) \<rparr>)"
    "\<exists>us. t_PeerRec t' (peer_key (so_PeerID s) (so_iISN s)) = Some (insert u us)"
    "\<exists>ls'. t_store t' l = Some ls' \<and> so_Status ls' = so_Status ls"
proof -
  obtain polls ep where e: "enable_read l (c_PollID (so_pUDT ls), t_EPoll t) = (polls, ep)"
    by (cases "enable_read l (c_PollID (so_pUDT ls), t_EPoll t)")
  define key where "key = peer_key (so_PeerID s) (so_iISN s)"
  define recs where "recs = (case t_PeerRec t key of None \<Rightarrow> {} | Some us \<Rightarrow> us)"
  let ?f = "\<lambda>s. s\<lparr> so_Status := CONNECTED, so_pSelfAddr := pton (mx_addr m) (c_piSelfIP (so_pUDT s)) (so_iIPversion s) \<rparr>"
  let ?g = "\<lambda>s. s\<lparr> so_pQueuedSockets := Some (insert u q), so_pUDT := (so_pUDT s)\<lparr> c_PollID := polls \<rparr> \<rparr>"
  define t1 where "t1 = upd_sock u ?f t"
  define t2 where "t2 = (upd_sock l ?g (t1\<lparr> t_Sockets := insert u (t_Sockets t1), t_PeerRec := (t_PeerRec t1)(key \<mapsto> insert u recs) \<rparr>))\<lparr> t_EPoll := ep \<rparr>"
  have "enter_connection l u s m t = Inr t2"
    using assms(1,2) e by (simp add: enter_connection_def Let_def key_def recs_def t2_def t1_def upd_sock_def)
  moreover have "t_store t2 u = Some (?f s)" "t_PeerRec t2 key = Some (insert u recs)" "t_store t2 l = Some (?g ls)"
    using assms(1,3,4) by (simp_all add: t2_def t1_def upd_sock_def)
  ultimately show ?thesis using that [of t2] unfolding key_def by auto
qed

text \<open>What a listener needs to take a request.\<close>

definition takes_requests :: "int \<Rightarrow> 's usock \<Rightarrow> handshake \<Rightarrow> 's united \<Rightarrow> bool" where
  "takes_requests l ls hs t \<longleftrightarrow> locate l t = Some ls
     \<and> (\<exists>q. so_pQueuedSockets ls = Some q \<and> int (card q) < so_uiBackLog ls)
     \<and> (\<exists>mid. find_mux (\<lambda>m. mx_iPort m = ntohs (sa_port (so_pSelfAddr ls))) t = Some mid)
     \<and> c_iIPversion (so_pUDT ls) = AF_INET \<and> cache_inv (t_pCache t)
     \<and> hs_wf hs \<and> 0 \<le> i32 (sint (hs_flight_flag_size hs) * 2)"

lemma set_up_succeeds:
  assumes inv: "table_inv t" and n: "1 < t_SocketID t" and ok: "takes_requests l ls hs t"
  obtains hs' t' s where "set_up_connection env l ls peer hs t = Inr (1, hs', t')"
    "t_store t' (t_SocketID t - 1) = Some s" "so_pPeerAddr s = Some peer" "\<not> u_bBroken (c_udt (so_pUDT s))"
    "u_iISN (c_udt (so_pUDT s)) = sint (hs_isn hs)" "u_iMSS (c_udt (so_pUDT s)) = agreed_mss (so_pUDT ls) hs"
    "u_iFlightFlagSize (c_udt (so_pUDT s)) = u_iFlightFlagSize (c_udt (so_pUDT ls))"
    "hs_id hs' = word_of_int (t_SocketID t - 1)" "hs_isn hs' = hs_isn hs" "hs_req_type hs' = -1"
    "hs_mss hs' = word_of_int (agreed_mss (so_pUDT ls) hs)" "hs_flight_flag_size hs' = word_of_int (receive_window (so_pUDT ls))"
    "\<exists>us. t_PeerRec t' (peer_key (sint (hs_id hs)) (sint (hs_isn hs))) = Some (insert (t_SocketID t - 1) us)"
    "\<exists>ls'. t_store t' l = Some ls' \<and> so_Status ls' = so_Status ls"
proof -
  define u where "u = t_SocketID t - 1"
  have ls: "t_store t l = Some ls" and lo: "l \<in> t_Sockets t" using ok by (simp_all add: takes_requests_def locate_Some)
  obtain q mid where q: "so_pQueuedSockets ls = Some q" and mid: "find_mux (\<lambda>m. mx_iPort m = ntohs (sa_port (so_pSelfAddr ls))) t = Some mid"
    using ok by (auto simp: takes_requests_def)
  obtain m where m: "t_mux t mid = Some m" using mid by (auto elim: find_mux_Some)
  have id: "next_id t = (u, t\<lparr> t_SocketID := u \<rparr>)"
    using inv n by (auto simp: next_id_def Let_def u_def inv_except_def ids_ok_def i32_id)
  have lu: "l \<noteq> u" using inv ls by (force simp: inv_except_def ids_ok_def u_def)
  define obj where "obj = accepted_object env l ls peer hs u"
  define c where "c = cudt_open (e_rd env) (e_freq env) (so_pUDT obj)"
  define tb where "tb = open_socket env u (add_object u obj (t\<lparr> t_SocketID := u \<rparr>))"
  have tb: "t_store tb = (t_store t)(u \<mapsto> obj\<lparr> so_pUDT := c \<rparr>)" "t_mux tb = t_mux t" "t_pCache tb = t_pCache t"
    by (simp_all add: tb_def open_socket_def add_object_def upd_sock_def c_def)
  then have "find_mux P tb = find_mux P t" for P by (simp add: find_mux_def mux_ids_def)
  then have "updateMux_listener u ls tb = join_mux mid u tb" using mid by (simp add: updateMux_listener_def)
  define t1 where "t1 = updateMux_listener u ls tb"
  let ?s = "obj\<lparr> so_pUDT := c, so_iMuxID := mid \<rparr>" and ?m = "m\<lparr> mx_iRefCount := mx_iRefCount m + 1 \<rparr>"
  have t1: "t_store t1 = (t_store t)(u \<mapsto> ?s)" "t_mux t1 mid = Some ?m" "t_pCache t1 = t_pCache t"
    using \<open>updateMux_listener u ls tb = _\<close> tb m by (simp_all add: t1_def join_mux_def upd_sock_def)
  have c: "c_iIPversion c = AF_INET" "u_iMSS (c_udt c) = u_iMSS (c_udt (so_pUDT ls))" "\<not> u_bBroken (c_udt c)"
    "u_SocketID (c_udt c) = u" "receive_window c = receive_window (so_pUDT ls)"
    "u_iFlightFlagSize (c_udt c) = u_iFlightFlagSize (c_udt (so_pUDT ls))"
    using ok by (simp_all add: c_def obj_def accepted_object_def usock_new_def cudt_open_def cudt_copy_def initial_status_def
        null_members_def udt_open_def Let_def takes_requests_def receive_window_def)
  have "cache_inv (n_cache (net_of ?m t1))" using ok t1(3) by (simp add: net_of_def takes_requests_def)
  then obtain c' net' where p: "connect_peer (e_rd env) (e_junk env) (e_mem env) peer hs (c, net_of ?m t1) = Inr (answer peer c hs, c', net')"
    and j: "joined c (agreed_mss c hs) (sint (hs_isn hs)) (sint (hs_id hs)) (sint (hs_flight_flag_size hs)) c'"
    and isn: "u_iISN (c_udt c') = sint (hs_isn hs)"
    using peer_step [of hs c "net_of ?m t1" "e_rd env" "e_junk env" "e_mem env" peer] ok c(1) by (auto simp: takes_requests_def)
  note k = connect_peer_keeps [OF p]
  define t2 where "t2 = put_entity u mid (c', net') t1"
  have on: "on_entity u (connect_peer (e_rd env) (e_junk env) (e_mem env) peer hs) t1 = Inr (answer peer c hs, t2)"
    using p k(1) t1 by (simp add: on_entity_def entity_def t2_def net_of_def)
  have t2: "t_store t2 u = Some (?s\<lparr> so_pUDT := c' \<rparr>)" "t_store t2 l = Some ls" "t_mux t2 mid = Some (?m\<lparr> mx_rcv := n_rcv net' \<rparr>)"
    using t1 ls lu by (simp_all add: t2_def put_entity_def put_net_def upd_sock_def)
  then have e: "entity u t2 = Some (?s\<lparr> so_pUDT := c' \<rparr>, ?m\<lparr> mx_rcv := n_rcv net' \<rparr>)" by (simp add: entity_def)
  obtain t' where t': "enter_connection l u (?s\<lparr> so_pUDT := c' \<rparr>) (?m\<lparr> mx_rcv := n_rcv net' \<rparr>) t2 = Inr t'"
    "\<exists>s. t_store t' u = Some s \<and> so_pPeerAddr s = so_pPeerAddr obj \<and> so_pUDT s = c'"
    "\<exists>us. t_PeerRec t' (peer_key (so_PeerID obj) (so_iISN obj)) = Some (insert u us)"
    "\<exists>ls'. t_store t' l = Some ls' \<and> so_Status ls' = so_Status ls"
    by (rule enter_connection_result [OF t2(2) q lu t2(1), of "?m\<lparr> mx_rcv := n_rcv net' \<rparr>"]) auto
  then obtain s where s: "t_store t' u = Some s" "so_pPeerAddr s = so_pPeerAddr obj" "so_pUDT s = c'" by blast
  have obj: "so_pPeerAddr obj = Some peer" "so_PeerID obj = sint (hs_id hs)" "so_iISN obj = sint (hs_isn hs)"
    by (simp_all add: obj_def accepted_object_def)
  have "set_up_connection env l ls peer hs t = Inr (1, answer peer c hs, t')"
    unfolding set_up_connection_def id prod.case Let_def obj_def [symmetric] tb_def [symmetric] t1_def [symmetric]
    using on e t'(1) by simp
  then show ?thesis
    by (rule that [OF _ s(1) [unfolded u_def]])
      (use s obj c j k isn t'(3,4) in \<open>simp_all add: answer_def agreed_mss_def joined_def u_def\<close>)
qed

lemma peer_found:
  assumes inv: "table_inv t" and u: "u \<in> t_Sockets t" "t_SocketID t = u" "t_store t u = Some s" "so_pPeerAddr s = Some peer"
    and rc: "t_PeerRec t (peer_key sid isn) = Some us" "u \<in> us"
  shows "locate_peer peer sid isn t = Inr (Some u)"
proof -
  let ?known = "filter (\<lambda>j. j \<in> t_Sockets t) (sorted_list_of_set us)"
  have fin: "finite us" using peer_rec_ok [OF inv rc(1)] by simp
  then have mem: "u \<in> set ?known" using u(1) rc(2) by simp
  have least: "u \<le> j" if "j \<in> set ?known" for j
  proof -
    have "t_store t j \<noteq> None" using that inv by (auto simp: inv_except_def dest: tables_okD(2))
    then show ?thesis using inv u(2) unfolding inv_except_def ids_ok_def by blast
  qed
  have "sorted ?known" by (rule sorted_wrt_filter) simp
  then obtain ks where "?known = u # ks"
    using mem least by (cases ?known) (auto intro: antisym)
  then show ?thesis using rc(1) u(3,4) by (simp add: locate_peer_def Let_def guard_outcome_def)
qed

text \<open>C13: a well-formed request of a new peer to a listener that has room makes exactly one connection: a
  new ID enters the table and the queue of the listener and is told to the peer.  The same request again,
  as when the answer was lost, changes nothing and is answered with the same ID, sequence number and
  packet size; only the flow window told the second time is the configured one, not the lesser of it and
  the receive buffer.\<close>

theorem request_accepted_once:
  assumes inv: "table_inv t" and n: "1 < t_SocketID t" and ok: "takes_requests l ls hs t"
    and fresh: "locate_peer peer (sint (hs_id hs)) (sint (hs_isn hs)) t = Inr None"
  shows "\<exists>hs1 hs2 t1. newConnection env l peer hs t = Inr (1, hs1, t1)
    \<and> t_SocketID t - 1 \<notin> t_Sockets t \<and> t_Sockets t1 = insert (t_SocketID t - 1) (t_Sockets t)
    \<and> (\<exists>ls1. t_store t1 l = Some ls1
         \<and> so_pQueuedSockets ls1 = map_option (insert (t_SocketID t - 1)) (so_pQueuedSockets ls))
    \<and> newConnection env' l peer hs t1 = Inr (0, hs2, t1)
    \<and> hs_id hs1 = word_of_int (t_SocketID t - 1) \<and> hs_id hs2 = hs_id hs1
    \<and> hs_isn hs1 = hs_isn hs \<and> hs_isn hs2 = hs_isn hs1
    \<and> hs_mss hs1 = word_of_int (agreed_mss (so_pUDT ls) hs) \<and> hs_mss hs2 = hs_mss hs1
    \<and> hs_req_type hs1 = -1 \<and> hs_req_type hs2 = -1
    \<and> hs_flight_flag_size hs1 = word_of_int (receive_window (so_pUDT ls))
    \<and> hs_flight_flag_size hs2 = word_of_int (u_iFlightFlagSize (c_udt (so_pUDT ls)))"
proof -
  let ?u = "t_SocketID t - 1"
  have l: "locate l t = Some ls" "t_store t l = Some ls" "l \<in> t_Sockets t" "so_Status ls \<noteq> CLOSED"
    using ok by (simp_all add: takes_requests_def locate_Some)
  obtain q where q: "so_pQueuedSockets ls = Some q" "int (card q) < so_uiBackLog ls" using ok by (auto simp: takes_requests_def)
  obtain hs1 t1 s where su: "set_up_connection env l ls peer hs t = Inr (1, hs1, t1)"
    and s: "t_store t1 ?u = Some s" "so_pPeerAddr s = Some peer" "\<not> u_bBroken (c_udt (so_pUDT s))"
      "u_iISN (c_udt (so_pUDT s)) = sint (hs_isn hs)" "u_iMSS (c_udt (so_pUDT s)) = agreed_mss (so_pUDT ls) hs"
      "u_iFlightFlagSize (c_udt (so_pUDT s)) = u_iFlightFlagSize (c_udt (so_pUDT ls))"
    and h: "hs_id hs1 = word_of_int ?u" "hs_isn hs1 = hs_isn hs" "hs_req_type hs1 = -1"
      "hs_mss hs1 = word_of_int (agreed_mss (so_pUDT ls) hs)" "hs_flight_flag_size hs1 = word_of_int (receive_window (so_pUDT ls))"
    and rc: "\<exists>us. t_PeerRec t1 (peer_key (sint (hs_id hs)) (sint (hs_isn hs))) = Some (insert ?u us)"
    and l1: "\<exists>ls'. t_store t1 l = Some ls' \<and> so_Status ls' = so_Status ls"
    by (rule set_up_succeeds [OF inv n ok])
  note c = set_up_connection_cases [OF inv n l(2) q su]
  have sets: "t_Sockets t1 = insert ?u (t_Sockets t)" "\<exists>ls1. t_store t1 l = Some ls1 \<and> so_pQueuedSockets ls1 = Some (insert ?u q)"
    using c(4) by simp_all
  have "locate_peer peer (sint (hs_id hs)) (sint (hs_isn hs)) t1 = Inr (Some ?u)"
    using rc peer_found [OF c(1) _ c(2) s(1,2)] sets(1) by blast
  moreover have "locate l t1 \<noteq> None" using l1 l(3,4) sets(1) by (auto simp: locate_def)
  ultimately have "newConnection env' l peer hs t1 = Inr (0, existing_connection ?u s hs, t1)"
    using s(1,3) by (auto simp: newConnection_def)
  moreover have "newConnection env l peer hs t = Inr (1, hs1, t1)"
    using l q fresh su by (simp add: newConnection_def)
  moreover have "?u \<notin> t_Sockets t" by (rule fresh_not_open [OF inv c(3)])
  ultimately show ?thesis using s h sets q
    by (intro exI [of _ hs1] exI [of _ "existing_connection ?u s hs"] exI [of _ t1]) (simp add: existing_connection_def Let_def)
qed

definition sample_listener :: "unit cudt \<Rightarrow> sockaddr \<Rightarrow> unit usock" where
  "sample_listener raw a =
     \<lparr> so_Status = LISTENING, so_TimeStamp = 0, so_iIPversion = AF_INET, so_pSelfAddr = a, so_pPeerAddr = None,
       so_ListenSocket = 0, so_PeerID = 0, so_iISN = 0, so_pUDT = opened_socket 9 (cudt_new () 0 raw),
       so_pQueuedSockets = Some {}, so_pAcceptSockets = Some {}, so_uiBackLog = 1, so_iMuxID = 9 \<rparr>"

definition sample_table :: "unit cudt \<Rightarrow> sockaddr \<Rightarrow> rcv_queue \<Rightarrow> unit united" where
  "sample_table raw a rq =
     \<lparr> t_store = [9 \<mapsto> sample_listener raw a], t_Sockets = {9}, t_ClosedSockets = {}, t_SocketID = 9, t_PeerRec = (\<lambda>_. None),
       t_mux = [9 \<mapsto> \<lparr> mx_addr = a, mx_iPort = ntohs (sa_port a), mx_iIPversion = AF_INET, mx_iMSS = 1464, mx_iRefCount = 1,
                       mx_bReusable = True, mx_rcv = rq \<rparr>],
       t_pCache = cache_new 1024, t_EPoll = epoll_new, t_out = [], t_iInstanceCount = 1, t_bGCStatus = True, t_bClosing = False \<rparr>"

lemma sample_table_inv: "table_inv (sample_table raw a rq)"
proof -
  have "users (sample_table raw a rq) mid = (if mid = 9 then {9} else {})" for mid
    by (auto simp: users_def sample_table_def sample_listener_def split: if_splits)
  then show ?thesis
    by (auto simp: inv_except_def ids_ok_def muxes_ok_def counted_def queues_ok_def queue_ok_def tables_ok_def
        sample_table_def sample_listener_def split: if_splits)
qed

lemma request_accepted_once_witness:
  "\<forall>raw a rq peer env env'. \<exists>hs1 hs2 t1.
     newConnection env 9 peer (handshake_new\<lparr> hs_id := 5, hs_isn := 100 \<rparr>) (sample_table raw a rq) = Inr (1, hs1, t1)
     \<and> t_Sockets t1 = {8, 9} \<and> hs_id hs1 = 8
     \<and> newConnection env' 9 peer (handshake_new\<lparr> hs_id := 5, hs_isn := 100 \<rparr>) t1 = Inr (0, hs2, t1) \<and> hs_id hs2 = 8"
proof (intro allI)
  fix raw a rq peer env env'
  let ?t = "sample_table raw a rq" and ?hs = "handshake_new\<lparr> hs_id := 5, hs_isn := 100 \<rparr>" and ?ls = "sample_listener raw a"
  have v: "c_iIPversion (so_pUDT ?ls) = AF_INET"
    by (simp add: sample_listener_def opened_socket_def cudt_new_def initial_status_def null_members_def)
  have "takes_requests 9 ?ls ?hs ?t"
    unfolding takes_requests_def using v
    by (simp add: locate_def sample_table_def find_mux_def mux_ids_def hs_wf_def handshake_new_def cache_new_inv)
      (simp add: sample_listener_def)
  moreover have "locate_peer peer (sint (hs_id ?hs)) (sint (hs_isn ?hs)) ?t = Inr None"
    by (simp add: locate_peer_def sample_table_def)
  moreover have "1 < t_SocketID ?t" "t_SocketID ?t - 1 = 8" "insert 8 (t_Sockets ?t) = {8, 9}" by (simp_all add: sample_table_def)
  ultimately show "\<exists>hs1 hs2 t1. newConnection env 9 peer ?hs ?t = Inr (1, hs1, t1) \<and> t_Sockets t1 = {8, 9} \<and> hs_id hs1 = 8
     \<and> newConnection env' 9 peer ?hs t1 = Inr (0, hs2, t1) \<and> hs_id hs2 = 8"
    using request_accepted_once [OF sample_table_inv, of raw a rq 9 ?ls ?hs peer env env'] by fastforce
qed

subsection \<open>The end of the library\<close>



end
