(* ===== verification/Socket_Select.thy ===== *)
theory Socket_Select
  imports Socket_Requests
begin

text \<open>Waiting for events of sockets (select and selectEx of CUDTUnited, core/api.cpp), the poll objects
  of sockets, and the functions of the API, which turn exceptions into error codes.

  A socket is looked up once and then used by its pointer: when it is deleted while select waits the
  next look ends the program.\<close>

subsection \<open>Readiness\<close>

text \<open>Data for the application.  For a message socket the scan may give up bad messages.\<close>

definition has_data :: "int \<Rightarrow> 's united \<Rightarrow> (bool \<times> 's united) outcome" where
  "has_data u t =
     (case t_store t u of None \<Rightarrow> Inl Null_Deref
      | Some s \<Rightarrow>
          let c = so_pUDT s in
          if \<not> u_bConnected (c_udt c) then Inr (False, t)
          else (case c_pRcvBuffer c of None \<Rightarrow> Inl Null_Deref
            | Some rb \<Rightarrow>
                if getRcvDataSize rb \<le> 0 then Inr (False, t)
                else if \<not> u_dgram (c_udt c) then Inr (True, t)
                else (case t_mux t (so_iMuxID s) of None \<Rightarrow> Inl Null_Deref
                  | Some m \<Rightarrow> map_outcome (\<lambda>(n, rb1, uq1).
                        (n > 0, upd_sock u (\<lambda>s. s\<lparr> so_pUDT := c\<lparr> c_pRcvBuffer := Some rb1 \<rparr> \<rparr>)
                          (t\<lparr> t_mux := (t_mux t)(so_iMuxID s \<mapsto> m\<lparr> mx_rcv := (mx_rcv m)\<lparr> rq_units := uq1 \<rparr> \<rparr>) \<rparr>)))
                      (getRcvMsgNum (rb, rq_units (mx_rcv m))))))"

definition connection_waits :: "'s usock \<Rightarrow> bool outcome" where
  "connection_waits s =
     (if \<not> c_bListening (so_pUDT s) then Inr False
      else case so_pQueuedSockets s of None \<Rightarrow> Inl Null_Deref | Some q \<Rightarrow> Inr (q \<noteq> {}))"

definition readable :: "int \<Rightarrow> 's united \<Rightarrow> (bool \<times> 's united) outcome" where
  "readable u t =
     bind_outcome (has_data u t) (\<lambda>(b, t1).
       if b then Inr (True, t1)
       else case t_store t1 u of None \<Rightarrow> Inl Null_Deref
       | Some s \<Rightarrow>
           let e = c_udt (so_pUDT s) in
           if \<not> c_bListening (so_pUDT s) \<and> (u_bBroken e \<or> \<not> u_bConnected e) then Inr (True, t1)
           else map_outcome (\<lambda>w. (w \<or> so_Status s = CLOSED, t1)) (connection_waits s))"

definition has_room :: "'s cudt \<Rightarrow> bool outcome" where
  "has_room c =
     (if \<not> u_bConnected (c_udt c) then Inr False
      else if \<not> c_snd_allocated c then Inl Null_Deref
      else Inr (getCurrBufSize (u_pSndBuffer (c_udt c)) < u_iSndBufSize (c_udt c)))"

definition writable :: "int \<Rightarrow> 's united \<Rightarrow> (bool \<times> 's united) outcome" where
  "writable u t =
     (case t_store t u of None \<Rightarrow> Inl Null_Deref
      | Some s \<Rightarrow> map_outcome (\<lambda>b. (b \<or> u_bBroken (c_udt (so_pUDT s)) \<or> \<not> u_bConnected (c_udt (so_pUDT s))
                                       \<or> so_Status s = CLOSED, t)) (has_room (so_pUDT s)))"

subsection \<open>select\<close>

text \<open>The sockets asked for: the broken ones are reported at once, the others are queried.\<close>

primrec ask_sockets :: "int list \<Rightarrow> 's united \<Rightarrow> failure + int list \<times> int list" where
  "ask_sockets [] t = Inr ([], [])"
| "ask_sockets (u # us) t =
     (if getStatus u t = BROKEN then (case ask_sockets us t of Inl e \<Rightarrow> Inl e | Inr (b, q) \<Rightarrow> Inr (u # b, q))
      else if locate u t = None then Inl (Udt_Error 5 4)
      else (case ask_sockets us t of Inl e \<Rightarrow> Inl e | Inr (b, q) \<Rightarrow> Inr (b, u # q)))"

definition asked :: "int set option \<Rightarrow> int list" where
  "asked fds = (case fds of None \<Rightarrow> [] | Some us \<Rightarrow> sorted_list_of_set us)"

primrec poll_each :: "(int \<Rightarrow> 's united \<Rightarrow> (bool \<times> 's united) outcome) \<Rightarrow> int list \<Rightarrow> 's united \<Rightarrow> (int list \<times> 's united) outcome" where
  "poll_each ready [] t = Inr ([], t)"
| "poll_each ready (u # us) t =
     bind_outcome (ready u t) (\<lambda>(b, t1).
       map_outcome (\<lambda>(rs, t2). (if b then u # rs else rs, t2)) (poll_each ready us t1))"

text \<open>The loop; \<open>n\<close> counts the sockets that were broken, \<open>meanwhile k\<close> is what happens in wait \<open>k\<close> and
  \<open>clock k\<close> the time after it.\<close>

primrec select_loop ::
  "nat \<Rightarrow> nat \<Rightarrow> nat \<Rightarrow> (nat \<Rightarrow> 's united \<Rightarrow> 's united) \<Rightarrow> (nat \<Rightarrow> int) \<Rightarrow> int \<Rightarrow> int \<Rightarrow> int list \<Rightarrow> int list \<Rightarrow> 's united
     \<Rightarrow> (int list \<times> int list \<times> 's united) outcome" where
  "select_loop 0 k n meanwhile clock entertime wait_for ru wu t = Inl Diverges"
| "select_loop (Suc fuel) k n meanwhile clock entertime wait_for ru wu t =
     bind_outcome (poll_each readable ru t) (\<lambda>(rs, t1).
     bind_outcome (poll_each writable wu t1) (\<lambda>(ws, t2).
       if 0 < n + length rs + length ws then Inr (rs, ws, t2)
       else if wait_for > u64 (clock k - entertime)
       then select_loop fuel (Suc k) n meanwhile clock entertime wait_for ru wu (meanwhile k t2)
       else Inr ([], [], meanwhile k t2)))"

type_synonym select_result = "int \<times> int set option \<times> int set option \<times> int set option"

definition select_time :: "(int \<times> int) option \<Rightarrow> int" where
  "select_time timeout = (case timeout of None \<Rightarrow> 0xFFFFFFFFFFFFFFFF | Some (sec, usec) \<Rightarrow> u64 (sec * 1000000 + usec))"

definition select ::
  "nat \<Rightarrow> (nat \<Rightarrow> 's united \<Rightarrow> 's united) \<Rightarrow> (nat \<Rightarrow> int) \<Rightarrow> int \<Rightarrow> int set option \<Rightarrow> int set option \<Rightarrow> int set option
     \<Rightarrow> (int \<times> int) option \<Rightarrow> 's united \<Rightarrow> ('s, select_result) api" where
  "select fuel meanwhile clock entertime readfds writefds exceptfds timeout t =
     (case ask_sockets (asked readfds) t of Inl e \<Rightarrow> throws e t
      | Inr (rb, ru) \<Rightarrow> (case ask_sockets (asked writefds) t of Inl e \<Rightarrow> throws e t
      | Inr (wb, wu) \<Rightarrow> (case ask_sockets (asked exceptfds) t of Inl e \<Rightarrow> throws e t
      | Inr (eb, _) \<Rightarrow>
          bind_outcome (select_loop fuel 0 (length rb + length wb + length eb) meanwhile clock entertime (select_time timeout) ru wu t)
            (\<lambda>(rs, ws, t1). returns
               (int (length rb + length wb + length eb + length rs + length ws),
                map_option (\<lambda>_. set rb \<union> set rs) readfds, map_option (\<lambda>_. set wb \<union> set ws) writefds,
                map_option (\<lambda>_. set eb) exceptfds) t1))))"

subsection \<open>selectEx\<close>

text \<open>What one socket contributes: exception, readable, writable; only the lists that are wanted.\<close>

definition ex_socket :: "bool \<times> bool \<times> bool \<Rightarrow> int \<Rightarrow> 's united \<Rightarrow> ((bool \<times> bool \<times> bool) \<times> 's united) outcome" where
  "ex_socket = (\<lambda>(wr, ww, we) u t.
     case locate u t of None \<Rightarrow> Inr ((False, False, we), t)
     | Some s \<Rightarrow>
         if u_bBroken (c_udt (so_pUDT s)) then Inr ((False, False, we), t)
         else bind_outcome (if wr then bind_outcome (has_data u t) (\<lambda>(b, t1).
                  if b then Inr (True, t1) else map_outcome (\<lambda>w. (w, t1)) (connection_waits s)) else Inr (False, t))
           (\<lambda>(r, t1). map_outcome (\<lambda>w. ((r, w, False), t1)) (if ww then has_room (so_pUDT s) else Inr False)))"

primrec ex_round :: "bool \<times> bool \<times> bool \<Rightarrow> int list \<Rightarrow> 's united \<Rightarrow> ((int list \<times> int list \<times> int list) \<times> 's united) outcome" where
  "ex_round w [] t = Inr (([], [], []), t)"
| "ex_round w (u # us) t =
     bind_outcome (ex_socket w u t) (\<lambda>((r, wr, x), t1).
       map_outcome (\<lambda>((rs, ws, xs), t2).
           ((if r then u # rs else rs, if wr then u # ws else ws, if x then u # xs else xs), t2))
         (ex_round w us t1))"

primrec ex_loop ::
  "nat \<Rightarrow> nat \<Rightarrow> (nat \<Rightarrow> 's united \<Rightarrow> 's united) \<Rightarrow> (nat \<Rightarrow> int) \<Rightarrow> int \<Rightarrow> int \<Rightarrow> bool \<times> bool \<times> bool \<Rightarrow> int list
     \<Rightarrow> 's united \<Rightarrow> ((int list \<times> int list \<times> int list) \<times> 's united) outcome" where
  "ex_loop 0 k meanwhile clock entertime wait_for w fds t = Inl Diverges"
| "ex_loop (Suc fuel) k meanwhile clock entertime wait_for w fds t =
     bind_outcome (ex_round w fds t) (\<lambda>((rs, ws, xs), t1).
       if 0 < length rs + length ws + length xs then Inr ((rs, ws, xs), t1)
       else if wait_for > u64 (clock k - entertime)
       then ex_loop fuel (Suc k) meanwhile clock entertime wait_for w fds (meanwhile k t1)
       else Inr (([], [], []), meanwhile k t1))"

definition selectEx ::
  "nat \<Rightarrow> (nat \<Rightarrow> 's united \<Rightarrow> 's united) \<Rightarrow> (nat \<Rightarrow> int) \<Rightarrow> int \<Rightarrow> bool \<times> bool \<times> bool \<Rightarrow> int list \<Rightarrow> int \<Rightarrow> 's united
     \<Rightarrow> ('s, int \<times> int list \<times> int list \<times> int list) api" where
  "selectEx fuel meanwhile clock entertime w fds msTimeOut t =
     bind_outcome (ex_loop fuel 0 meanwhile clock entertime
         (if msTimeOut \<ge> 0 then u64 (msTimeOut * 1000) else 0xFFFFFFFFFFFFFFFF) w fds t)
       (\<lambda>((rs, ws, xs), t1). returns (int (length rs + length ws + length xs), rs, ws, xs) t1)"

subsection \<open>Poll objects of sockets\<close>

definition with_epoll :: "epoll outcome \<Rightarrow> 's united \<Rightarrow> ('s united \<Rightarrow> ('s, 'a) api) \<Rightarrow> ('s, 'a) api" where
  "with_epoll r t k = after_call r t (\<lambda>ep. k (t\<lparr> t_EPoll := ep \<rparr>))"

text \<open>addEPoll: the events the socket has at once are entered.\<close>

definition socket_add_epoll :: "int \<Rightarrow> int \<Rightarrow> 's united \<Rightarrow> 's united outcome" where
  "socket_add_epoll eid u t =
     (case t_store t u of None \<Rightarrow> Inl Null_Deref
      | Some s \<Rightarrow>
          let e = c_udt (so_pUDT s); up = (u_bConnected e \<and> \<not> u_bBroken e \<and> \<not> u_bClosing e) in
          if \<not> up then Inr (set_polls u (add_epoll False False False eid u (c_PollID (so_pUDT s), t_EPoll t)) t)
          else bind_outcome (has_data u t) (\<lambda>(r, t1).
               map_outcome (\<lambda>w. set_polls u (add_epoll True r w eid u (c_PollID (so_pUDT s), t_EPoll t1)) t1)
                 (has_room (so_pUDT s))))"

definition epoll_add_usock :: "int \<Rightarrow> int \<Rightarrow> 32 word option \<Rightarrow> 's united \<Rightarrow> ('s, int) api" where
  "epoll_add_usock eid u events t =
     with_socket u t (\<lambda>_. with_epoll (add_usock eid u events (t_EPoll t)) t (\<lambda>t1.
       bind_outcome (socket_add_epoll eid u t1) (returns 0)))"

definition epoll_remove_usock :: "int \<Rightarrow> int \<Rightarrow> 's united \<Rightarrow> ('s, int) api" where
  "epoll_remove_usock eid u t =
     (let t1 = (case locate u t of None \<Rightarrow> t
                | Some s \<Rightarrow> set_polls u (remove_epoll eid u (c_PollID (so_pUDT s), t_EPoll t)) t)
      in with_epoll (remove_usock eid u (t_EPoll t1)) t1 (returns 0))"

subsection \<open>The functions of the API\<close>

text \<open>A function catches what CUDTUnited throws, keeps it as the last error of the thread and returns
  \<open>bad\<close>.\<close>

definition api_call :: "'a \<Rightarrow> ('s, 'a) api \<Rightarrow> failure option \<Rightarrow> ('a \<times> 's united \<times> failure option) outcome" where
  "api_call bad r err = map_outcome (\<lambda>(x, t). case x of Inl e \<Rightarrow> (bad, t, Some e) | Inr v \<Rightarrow> (v, t, err)) r"

definition api_socket :: "'s env \<Rightarrow> int \<Rightarrow> int \<Rightarrow> 's united \<Rightarrow> failure option \<Rightarrow> (int \<times> 's united \<times> failure option) outcome" where
  "api_socket env af ty t = api_call (-1) (newSocket env af ty (if t_bGCStatus t then t else snd (startup t)))"

text \<open>A call of the connection found by lookup.\<close>

definition udt_call :: "int \<Rightarrow> ('s cudt \<Rightarrow> ('a \<times> 's cudt) outcome) \<Rightarrow> 's united \<Rightarrow> ('s, 'a) api" where
  "udt_call u f t =
     after_call (lookup u t) t (\<lambda>c. after_call (f c) t (\<lambda>(x, c1).
       returns x (upd_sock u (\<lambda>s. s\<lparr> so_pUDT := c1 \<rparr>) t)))"

definition api_setsockopt ::
  "'s pcc_admin \<Rightarrow> int \<Rightarrow> udt_opt \<Rightarrow> opt_value \<Rightarrow> 's united \<Rightarrow> failure option \<Rightarrow> (int \<times> 's united \<times> failure option) outcome" where
  "api_setsockopt pa u opt v t = api_call (-1) (udt_call u (\<lambda>c. map_outcome (\<lambda>c1. (0, c1)) (setOpt pa opt v c)) t)"

definition status_code :: "udt_status \<Rightarrow> int" where
  "status_code st = (case st of INIT \<Rightarrow> 1 | OPENED \<Rightarrow> 2 | LISTENING \<Rightarrow> 3 | CONNECTING \<Rightarrow> 4 | CONNECTED \<Rightarrow> 5
     | BROKEN \<Rightarrow> 6 | CLOSING \<Rightarrow> 7 | CLOSED \<Rightarrow> 8 | NONEXIST \<Rightarrow> 9)"

definition api_getsockopt ::
  "int \<Rightarrow> int \<Rightarrow> udt_opt \<Rightarrow> 's united \<Rightarrow> failure option \<Rightarrow> ((int \<times> opt_value option) \<times> 's united \<times> failure option) outcome" where
  "api_getsockopt u optlen opt t = api_call (-1, None)
     (udt_call u (\<lambda>c. map_outcome (\<lambda>v. ((0, Some v), c)) (getOpt (status_code (getStatus u t)) optlen opt c)) t)"

definition api_send ::
  "('s udt \<Rightarrow> 's udt) \<Rightarrow> readings \<Rightarrow> int \<Rightarrow> byte list \<Rightarrow> int \<Rightarrow> 's united \<Rightarrow> failure option
     \<Rightarrow> (int \<times> 's united \<times> failure option) outcome" where
  "api_send waited rd u data len t = api_call (-1)
     (udt_call u (\<lambda>c. map_outcome (\<lambda>(n, e). (n, on_udt (\<lambda>_. e) c)) (udt_send waited rd data len (c_udt c))) t)"

text \<open>A socket that is not connected need not have a multiplexer.\<close>

definition recv_call :: "('s recv_state \<Rightarrow> 's recv_state) \<Rightarrow> int \<Rightarrow> int \<Rightarrow> 's united \<Rightarrow> ('s, int \<times> byte list) api" where
  "recv_call waited u len t =
     after_call (lookup u t) t (\<lambda>c. case entity u t of
         None \<Rightarrow> if u_dgram (c_udt c) then throws (Udt_Error 5 10) t
            else if \<not> u_bConnected (c_udt c) then throws (Udt_Error 2 2) t else Inl Null_Deref
       | Some (s, m) \<Rightarrow> map_outcome (\<lambda>(r, c1, uq, ep).
             (r, upd_sock u (\<lambda>s. s\<lparr> so_pUDT := c1 \<rparr>)
                   (t\<lparr> t_mux := (t_mux t)(so_iMuxID s \<mapsto> m\<lparr> mx_rcv := (mx_rcv m)\<lparr> rq_units := uq \<rparr> \<rparr>), t_EPoll := ep \<rparr>)))
           (udt_recv waited len (c, rq_units (mx_rcv m), t_EPoll t)))"

definition api_recv ::
  "('s recv_state \<Rightarrow> 's recv_state) \<Rightarrow> int \<Rightarrow> int \<Rightarrow> 's united \<Rightarrow> failure option
     \<Rightarrow> ((int \<times> byte list) \<times> 's united \<times> failure option) outcome" where
  "api_recv waited u len t = api_call (-1, []) (recv_call waited u len t)"

text \<open>select and selectEx refuse a call that asks for nothing.\<close>

definition api_select ::
  "nat \<Rightarrow> (nat \<Rightarrow> 's united \<Rightarrow> 's united) \<Rightarrow> (nat \<Rightarrow> int) \<Rightarrow> int \<Rightarrow> int set option \<Rightarrow> int set option \<Rightarrow> int set option
     \<Rightarrow> (int \<times> int) option \<Rightarrow> 's united \<Rightarrow> failure option \<Rightarrow> (select_result \<times> 's united \<times> failure option) outcome" where
  "api_select fuel meanwhile clock entertime readfds writefds exceptfds timeout t =
     (let bad = (-1, readfds, writefds, exceptfds) in
      api_call bad (if readfds = None \<and> writefds = None \<and> exceptfds = None then throws (Udt_Error 5 3) t
        else select fuel meanwhile clock entertime readfds writefds exceptfds timeout t))"

definition api_selectEx ::
  "nat \<Rightarrow> (nat \<Rightarrow> 's united \<Rightarrow> 's united) \<Rightarrow> (nat \<Rightarrow> int) \<Rightarrow> int \<Rightarrow> bool \<times> bool \<times> bool \<Rightarrow> int list \<Rightarrow> int \<Rightarrow> 's united
     \<Rightarrow> failure option \<Rightarrow> ((int \<times> int list \<times> int list \<times> int list) \<times> 's united \<times> failure option) outcome" where
  "api_selectEx fuel meanwhile clock entertime w fds msTimeOut t =
     api_call (-1, [], [], []) (if w = (False, False, False) then throws (Udt_Error 5 3) t
       else selectEx fuel meanwhile clock entertime w fds msTimeOut t)"

type_synonym ('s, 'a) api_function = "'s united \<Rightarrow> failure option \<Rightarrow> ('a \<times> 's united \<times> failure option) outcome"

definition api_bind :: "'s env \<Rightarrow> failure + sockaddr \<Rightarrow> int \<Rightarrow> sockaddr \<Rightarrow> int \<Rightarrow> ('s, int) api_function" where
  "api_bind env bound u addr namelen t = api_call (-1) (bind_address env bound u addr namelen t)"

definition api_bind_udp :: "'s env \<Rightarrow> failure + sockaddr \<Rightarrow> int \<Rightarrow> sockaddr option \<Rightarrow> ('s, int) api_function" where
  "api_bind_udp env bound u name t = api_call (-1) (bind_udp env bound u name t)"

definition api_listen :: "int \<Rightarrow> int \<Rightarrow> ('s, int) api_function" where
  "api_listen u backlog t = api_call (-1) (listen u backlog t)"

definition api_accept ::
  "nat \<Rightarrow> (nat \<Rightarrow> 's united \<Rightarrow> 's united) \<Rightarrow> bool \<Rightarrow> bool \<Rightarrow> int \<Rightarrow> ('s, int \<times> sockaddr option) api_function" where
  "api_accept fuel meanwhile want_addr has_len u t = api_call (-1, None) (accept fuel meanwhile want_addr has_len u t)"

definition api_connect :: "'s env \<Rightarrow> failure + sockaddr \<Rightarrow> 's dial \<Rightarrow> int \<Rightarrow> sockaddr \<Rightarrow> int \<Rightarrow> ('s, int) api_function" where
  "api_connect env bound d u name namelen t = api_call (-1) (connect env bound d u name namelen t)"

definition api_close :: "'s env \<Rightarrow> int \<Rightarrow> ('s, int) api_function" where
  "api_close env u t = api_call (-1) (close env u t)"

definition api_getpeername :: "int \<Rightarrow> ('s, int \<times> (sockaddr \<times> int) option) api_function" where
  "api_getpeername u t = api_call (-1, None) (map_outcome (\<lambda>(r, t1). (map_sum (\<lambda>e. e) (\<lambda>a. (0, Some a)) r, t1)) (getpeername u t))"

definition api_getsockname :: "int \<Rightarrow> ('s, int \<times> (sockaddr \<times> int) option) api_function" where
  "api_getsockname u t = api_call (-1, None) (map_outcome (\<lambda>(r, t1). (map_sum (\<lambda>e. e) (\<lambda>a. (0, Some a)) r, t1)) (getsockname u t))"

definition api_epoll_create :: "int \<Rightarrow> ('s, int) api_function" where
  "api_epoll_create localid t =
     api_call (-1) (after_call (epoll_create localid (t_EPoll t)) t (\<lambda>(eid, ep). returns eid (t\<lparr> t_EPoll := ep \<rparr>)))"

definition api_epoll_add_usock :: "int \<Rightarrow> int \<Rightarrow> 32 word option \<Rightarrow> ('s, int) api_function" where
  "api_epoll_add_usock eid u events t = api_call (-1) (epoll_add_usock eid u events t)"

definition api_epoll_add_ssock :: "(bool \<times> bool \<times> bool \<Rightarrow> bool) \<Rightarrow> int \<Rightarrow> int \<Rightarrow> 32 word option \<Rightarrow> ('s, int) api_function" where
  "api_epoll_add_ssock ctl_ok eid s events t =
     api_call (-1) (with_epoll (add_ssock ctl_ok eid s events (t_EPoll t)) t (returns 0))"

definition api_epoll_remove_usock :: "int \<Rightarrow> int \<Rightarrow> ('s, int) api_function" where
  "api_epoll_remove_usock eid u t = api_call (-1) (epoll_remove_usock eid u t)"

definition api_epoll_remove_ssock :: "bool \<Rightarrow> int \<Rightarrow> int \<Rightarrow> ('s, int) api_function" where
  "api_epoll_remove_ssock ctl_ok eid s t =
     api_call (-1) (with_epoll (remove_ssock ctl_ok eid s (t_EPoll t)) t (returns 0))"

definition api_epoll_release :: "int \<Rightarrow> ('s, int) api_function" where
  "api_epoll_release eid t = api_call (-1) (with_epoll (epoll_release eid (t_EPoll t)) t (returns 0))"

text \<open>getUDTHandle.\<close>

definition api_handle :: "int \<Rightarrow> 's united \<Rightarrow> 's cudt option" where
  "api_handle u t = map_option so_pUDT (locate u t)"

subsection \<open>What select reports\<close>

lemma ask_sockets_splits:
  assumes "ask_sockets us t = Inr (b, q)" "distinct us"
  shows "distinct b \<and> distinct q \<and> set b \<inter> set q = {} \<and> set b \<union> set q = set us \<and> (\<forall>u\<in>set b. getStatus u t = BROKEN)"
  using assms
proof (induction us arbitrary: b q)
  case (Cons u us)
  obtain b1 q1 where r: "ask_sockets us t = Inr (b1, q1)"
    using Cons.prems(1) by (cases "ask_sockets us t") (auto split: if_splits)
  have ih: "distinct b1 \<and> distinct q1 \<and> set b1 \<inter> set q1 = {} \<and> set b1 \<union> set q1 = set us \<and> (\<forall>u\<in>set b1. getStatus u t = BROKEN)"
    using Cons.IH [OF r] Cons.prems(2) by simp
  then have "u \<notin> set b1" "u \<notin> set q1" using Cons.prems(2) by auto
  then show ?case using Cons.prems(1) r ih by (auto split: if_splits)
qed simp

text \<open>Every socket of a list is ready in some state.\<close>

definition all_ready :: "(int \<Rightarrow> 's united \<Rightarrow> (bool \<times> 's united) outcome) \<Rightarrow> int list \<Rightarrow> int list \<Rightarrow> bool" where
  "all_ready ready rs us \<longleftrightarrow> distinct rs \<and> set rs \<subseteq> set us \<and> (\<forall>u\<in>set rs. \<exists>t1 t2. ready u t1 = Inr (True, t2))"

lemma poll_each_ready:
  assumes "poll_each ready us t = Inr (rs, t')" "distinct us"
  shows "all_ready ready rs us"
  using assms
proof (induction us arbitrary: t rs)
  case (Cons u us)
  obtain b t1 rs1 where r: "ready u t = Inr (b, t1)" "poll_each ready us t1 = Inr (rs1, t')" "rs = (if b then u # rs1 else rs1)"
    using Cons.prems(1) by (auto simp: bind_outcome_Inr_iff)
  have ih: "all_ready ready rs1 us" using Cons.IH [OF r(2)] Cons.prems(2) by simp
  show ?case
  proof (cases b)
    case True
    then have "ready u t = Inr (True, t1)" using r(1) by simp
    then have "\<exists>t1 t2. ready u t1 = Inr (True, t2)" by blast
    then show ?thesis using ih Cons.prems(2) r(3) True by (auto simp: all_ready_def)
  next
    case False
    then show ?thesis using ih r(3) by (auto simp: all_ready_def)
  qed
qed (simp add: all_ready_def)

lemma select_loop_result:
  fixes t :: "'s united"
  assumes "select_loop fuel k n meanwhile clock entertime wait_for ru wu t = Inr (rs, ws, t')" "distinct ru" "distinct wu"
  shows "all_ready (readable :: int \<Rightarrow> 's united \<Rightarrow> _) rs ru \<and> all_ready (writable :: int \<Rightarrow> 's united \<Rightarrow> _) ws wu
    \<and> (n + length rs + length ws = 0 \<longrightarrow> (\<exists>j. k \<le> j \<and> j < k + fuel \<and> wait_for \<le> u64 (clock j - entertime)))"
  using assms(1)
proof (induction fuel arbitrary: k t)
  case (Suc fuel)
  obtain rs1 t1 ws1 t2 where r: "poll_each readable ru t = Inr (rs1, t1)" "poll_each writable wu t1 = Inr (ws1, t2)"
    using Suc.prems by (auto simp: bind_outcome_Inr_iff)
  note polled = poll_each_ready [OF r(1) assms(2)] poll_each_ready [OF r(2) assms(3)]
  consider (found) "0 < n + length rs1 + length ws1" | (again) "n + length rs1 + length ws1 = 0" "wait_for > u64 (clock k - entertime)"
    | (timeout) "n + length rs1 + length ws1 = 0" "wait_for \<le> u64 (clock k - entertime)" by linarith
  then show ?case
  proof cases
    case found
    then have "rs = rs1" "ws = ws1" using Suc.prems r by auto
    then show ?thesis using polled found by auto
  next
    case again
    then have "select_loop fuel (Suc k) n meanwhile clock entertime wait_for ru wu (meanwhile k t2) = Inr (rs, ws, t')"
      using Suc.prems r by simp
    note ih = Suc.IH [OF this]
    have "\<exists>j\<ge>k. j < k + Suc fuel \<and> wait_for \<le> u64 (clock j - entertime)" if none: "n + length rs + length ws = 0"
    proof -
      obtain j where "Suc k \<le> j" "j < Suc k + fuel" "wait_for \<le> u64 (clock j - entertime)" using mp [OF conjunct2 [OF conjunct2 [OF ih]] none] by auto
      then show ?thesis by (intro exI [of _ j]) simp
    qed
    then show ?thesis using conjunct1 [OF ih] conjunct1 [OF conjunct2 [OF ih]] by (intro conjI impI)
  next
    case timeout
    then have "rs = []" "ws = []" using Suc.prems r by auto
    then show ?thesis using timeout(2) by (auto simp: all_ready_def)
  qed
qed simp

text \<open>The loop ends when its time is over, as long as the sockets it queries can be queried.\<close>

lemma select_loop_ends:
  assumes poll: "\<And>t. P t \<Longrightarrow> \<exists>rs t1. poll_each readable ru t = Inr (rs, t1) \<and> P t1"
    "\<And>t. P t \<Longrightarrow> \<exists>ws t1. poll_each writable wu t = Inr (ws, t1) \<and> P t1" "\<And>k t. P t \<Longrightarrow> P (meanwhile k t)"
    and "P t" "k \<le> k0" "k0 < k + fuel" "wait_for \<le> u64 (clock k0 - entertime)"
  shows "\<exists>r. select_loop fuel k n meanwhile clock entertime wait_for ru wu t = Inr r"
  using assms(4-7)
proof (induction fuel arbitrary: k t)
  case (Suc fuel)
  obtain rs t1 where r: "poll_each readable ru t = Inr (rs, t1)" "P t1" using poll(1) [OF Suc.prems(1)] by blast
  obtain ws t2 where w: "poll_each writable wu t1 = Inr (ws, t2)" "P t2" using poll(2) [OF r(2)] by blast
  show ?case
  proof (cases "k = k0")
    case True
    then show ?thesis using r w Suc.prems(4) by auto
  next
    case False
    then have "\<exists>r. select_loop fuel (Suc k) n meanwhile clock entertime wait_for ru wu (meanwhile k t2) = Inr r"
      using Suc.IH [OF poll(3) [OF w(2)]] Suc.prems(2-4) by simp
    then show ?thesis using r(1) w(1) by (cases n) simp_all
  qed
qed simp

definition reported :: "int set option \<Rightarrow> int set" where
  "reported fds = (case fds of None \<Rightarrow> {} | Some us \<Rightarrow> us)"

lemma asked_reported: "finite (reported fds) \<Longrightarrow> distinct (asked fds) \<and> set (asked fds) = reported fds"
  by (cases fds) (simp_all add: asked_def reported_def)


text \<open>A listener with a connection waiting is readable.\<close>

definition busy_table :: "unit cudt \<Rightarrow> sockaddr \<Rightarrow> rcv_queue \<Rightarrow> unit united" where
  "busy_table raw a rq =
     upd_sock 9 (\<lambda>s. s\<lparr> so_pQueuedSockets := Some {8}, so_pUDT := (so_pUDT s)\<lparr> c_bListening := True \<rparr> \<rparr>) (sample_table raw a rq)"


end
