(* ===== verification/Spec2Isabelle.thy ===== *)
theory Spec2Isabelle
  imports Seq_No Udt_Contract Time_Window Md5 Rcv_Buffer Snd_Buffer Snd_U_List Rcv_Queue Epoll Info_Cache
    Socket_Select
begin

text \<open>A model of PCC-Uspace: the PCC congestion controllers (src/src/pcc) and the UDT library that
  carries them (src/src/core), in user space over UDP.

  The program.  An application calls the functions of namespace UDT (api.cpp), which look a socket
  up in the table CUDTUnited and call its CUDT object (core.cpp).  send cuts the data into packets and
  queues them in a PacketTracker (packet\_tracker.h).  The sender thread (CSndQueue in queue.cpp) takes
  the socket that is due from the heap CSndUList and calls packData, which asks the congestion
  controller for its rate, takes the lowest lost or queued packet from the tracker and puts the
  socket back with the time of its next packet.  The receiver thread (CRcvQueue) dispatches arriving
  packets: data to processData, which acknowledges each packet and puts it into CRcvBuffer,
  acknowledgements to ProcessAck, which reports to the controller, handshakes to the listener or the
  connecting sockets; it also runs checkTimers, where losses are detected.  The controller PccSender
  groups packets into monitor intervals (pcc\_monitor\_interval\_queue.cpp), computes a utility of each
  (pcc\_utility\_manager.cpp) and moves its rate by comparing utilities (pcc\_sender.cpp; Vivace in
  pcc\_vivace\_sender.cpp).

  Machine integers are HOL integers with the wrap written out (i32, u32, i64, u64 of Pcc\_Prelude) or
  words; float and double are rationals with round-to-nearest-even and the special values
  (Ieee\_Float), and pow, exp and out-of-range casts are parameters.  Aborts, exceptions, null
  dereferences, indices out of range and loops that do not end are values of type failure.  Clock
  readings, random numbers, the results of system calls and what other threads do while one waits
  are arguments.  A lock makes an operation one step; runs are inductive sequences of steps.  In runs
  of the socket table a connect or close that blocks is one step, an accept one for each time it wakes.

  Theories and the code they model:
    \<^item> Pcc\_Prelude, Byte\_Order, Ieee\_Float: shared vocabulary, network byte order, floating point.
    \<^item> Seq\_No: CSeqNo, CAckNo, CMsgNo of core/common.h.  Circular comparison and offset agree with
      positions on the circle (locale circular\_no, interpreted for both kinds of numbers).
    \<^item> Quic\_Types: the value types of pcc/quic\_types.
    \<^item> Monitor\_Queue: PccMonitorIntervalQueue.  What is handed to the delegate, and that only the
      delegate can fail (locale interval\_delegate).
    \<^item> Utility\_Manager: PccUtilityManager.  When a utility exists, monotony in the loss rate, bounded
      histories.
    \<^item> Pcc\_Sender, Vivace\_Sender: PccSender and PccVivaceSender.  No assertion fires in any run, bounds
      of rates and intervals, decisions (locale utility\_sender, interpreted by both senders).
    \<^item> Packet\_Tracker: PacketRecord and PacketTracker, with the choice of packData.
    \<^item> Packet\_Format: CPacket, CHandShake, and the conversions of CChannel::sendto and recvfrom.
    \<^item> Time\_Window: CACKWindow and CPktTimeWindow (core/window.cpp).
    \<^item> Md5: core/md5.cpp and CMD5 against RFC 1321.
    \<^item> Unit\_Queue, Rcv\_Buffer: CUnitQueue (core/queue.cpp) and CRcvBuffer (core/buffer.cpp): the receiver
      delivers a prefix of the sender's stream.
    \<^item> Snd\_Buffer: CSndBuffer of core/buffer.cpp as a queue of blocks.
    \<^item> Udt\_Sender: the sending half of CUDT (open, send, packData, ProcessAck, checkTimers, sendCtrl,
      processCtrl).  Udt\_Invariant, Udt\_Losses, Udt\_Connection: the invariant of runs, loss detection, and
      what each operation achieves; Udt\_Contract: the contract of the controller (locale
      rate\_controller, interpreted by Vivace; steady\_controller by Allegro) and the properties.
    \<^item> Snd\_U\_List: CSndUList and CSndQueue::worker (core/queue.cpp) refine a schedule.
    \<^item> Ip\_Address: CIPAddress of core/common.cpp.
    \<^item> Rcv\_Queue: CHash, CRcvUList, CRendezvousQueue and CRcvQueue (core/queue.cpp).
    \<^item> Epoll: CEPoll (core/epoll.cpp) and CUDT::addEPoll and removeEPoll.
    \<^item> Info\_Cache: CCache with CInfoBlock (core/cache.h, cache.cpp).
    \<^item> Udt\_Options: the whole state of CUDT, its constructors, setOpt and getOpt.
    \<^item> Udt\_Setup: listen, the functions connect, the answers and cookies of a listener, and close.
      Udt\_Agreement: what the two ends of a handshake agree on, and that close ends.
    \<^item> Udt\_Receive: processData and recv; what the application receives in every run of a connection.
    \<^item> Rcv\_Message: scanMsg, getRcvMsgNum and readMsg of CRcvBuffer (message sockets).
    \<^item> Socket\_Table: CUDTSocket, CMultiplexer and CUDTUnited of core/api.h and api.cpp: the calls on
      sockets, new connections, the garbage collector.  Socket\_Invariant, Socket\_Runs and
      Socket\_Collector: the invariant of the table and that every call and the collector keep it;
      Socket\_Requests: runs of the table, repeated requests, and the end of the library.
    \<^item> Socket\_Select: select, selectEx, the poll objects of sockets, and the functions of the API.

  Bounds and fuel.  Loops are limited by a number of rounds that the theorems show to be enough: the
  number of bytes for the cutting of data, the number of packets and stale entries for loss
  detection (loss\_fuel), the size of the array for reading.  A wait has the number of its rounds as
  argument, and a theorem says what holds in every round while it has not ended.  The tracker compares sequence numbers with less-than,
  so the runs of a connection end before they wrap; fewer than \<open>2 ^ 62\<close> bytes are in flight.

  Not modelled: the system calls of CChannel::open and the socket options (UDP), the pthread wrappers
  CTimer and CGuard, the classic congestion controllers (ccc.cpp), whose result the PCC code only
  copies into a statistic, the loss lists (list.cpp), which PCC allocates and never fills, the messages
  of exceptions (common.cpp), the statistics of CUDT::sample, the thread-local storage of the last
  error, and the command line programs in src/src/app.\<close>

end
